(* ===== verification/DE_Prelude.thy ===== *)
theory DE_Prelude
  imports Main "HOL-Library.Word" "HOL-Library.Multiset" "HOL-Library.Product_Lexorder"
begin

text \<open>
  Shared vocabulary of the development: the error values a C++ operation can end in, the
  arithmetic of \<^verbatim>\<open>size_t\<close> where it can wrap, and the facts on lists, sorted lists, sums and
  multisets that several components use.
\<close>

section \<open>Outcomes\<close>

text \<open>
  An operation of the source that can fail returns \<open>cpp_error + 'a\<close>. The error names why the
  program has no further defined behaviour: a failed \<^verbatim>\<open>assert\<close>, a null pointer that is
  dereferenced, an array access out of range, a read of bytes nobody wrote, a loop that never
  ends in a single thread, or a failed system call that throws.
\<close>

datatype cpp_error =
    AssertFail
  | NullDeref
  | OutOfBounds
  | UninitRead
  | Blocked
  | SysError

type_synonym 'a res = "cpp_error + 'a"

definition assertE :: "bool \<Rightarrow> 'a res \<Rightarrow> 'a res" where
  "assertE b k = (if b then k else Inl AssertFail)"

definition bindE :: "'a res \<Rightarrow> ('a \<Rightarrow> 'b res) \<Rightarrow> 'b res" where
  "bindE m f = (case m of Inl e \<Rightarrow> Inl e | Inr x \<Rightarrow> f x)"

lemma bindE_simps [simp]:
  "bindE (Inl e) f = Inl e"
  "bindE (Inr x) f = f x"
  by (simp_all add: bindE_def)

lemma bindE_eq_Inr [simp]:
  "bindE m f = Inr y \<longleftrightarrow> (\<exists>x. m = Inr x \<and> f x = Inr y)"
  by (simp add: bindE_def split: sum.split)

lemma assertE_eq_Inr [simp]: "assertE b k = Inr x \<longleftrightarrow> b \<and> k = Inr x"
  by (simp add: assertE_def)

lemma assertE_True [simp]: "b \<Longrightarrow> assertE b k = k"
  by (simp add: assertE_def)

lemma assertE_False [simp]: "\<not> b \<Longrightarrow> assertE b k = Inl AssertFail"
  by (simp add: assertE_def)

text \<open>A loop over a list that stops at the first error.\<close>

fun mapE :: "('a \<Rightarrow> 'b res) \<Rightarrow> 'a list \<Rightarrow> 'b list res" where
  "mapE f [] = Inr []"
| "mapE f (x # xs) = bindE (f x) (\<lambda>y. bindE (mapE f xs) (\<lambda>ys. Inr (y # ys)))"

lemma mapE_Inr: "\<forall>x\<in>set xs. f x = Inr (g x) \<Longrightarrow> mapE f xs = Inr (map g xs)"
  by (induction xs) simp_all

text \<open>Following a pointer that may be null.\<close>

definition deref :: "'a option \<Rightarrow> 'a res" where
  "deref p = (case p of None \<Rightarrow> Inl NullDeref | Some x \<Rightarrow> Inr x)"

lemma deref_simps [simp]: "deref None = Inl NullDeref" "deref (Some x) = Inr x"
  by (simp_all add: deref_def)

text \<open>For recursive calls below a bind (a congruence rule where a recursion needs it).\<close>

lemma bindE_cong:
  assumes "m = m'" and "\<And>y. m' = Inr y \<Longrightarrow> f y = g y"
  shows "bindE m f = bindE m' g"
  using assms by (auto simp: bindE_def split: sum.split)

section \<open>The type size\_t\<close>

text \<open>
  Counts and indices of the source are \<^verbatim>\<open>size_t\<close> (64 bits, unsigned). The model keeps them as
  natural numbers below \<open>2 ^ 64\<close> and writes the wrap-around out where a subtraction or an
  addition of the source can leave that range.
\<close>

definition size_max :: nat where
  "size_max = 2 ^ 64"

definition sz_add :: "nat \<Rightarrow> nat \<Rightarrow> nat" where
  "sz_add a b = (a + b) mod size_max"

definition sz_sub :: "nat \<Rightarrow> nat \<Rightarrow> nat" where
  "sz_sub a b = (if b \<le> a then a - b else size_max + a - b)"

lemma sz_sub_le [simp]: "b \<le> a \<Longrightarrow> sz_sub a b = a - b"
  by (simp add: sz_sub_def)

lemma sz_sub_self: "sz_sub a a = 0"
  by simp

lemma sz_add_small [simp]: "a + b < size_max \<Longrightarrow> sz_add a b = a + b"
  by (simp add: sz_add_def)

lemma sz_sub_wraps: "a < b \<Longrightarrow> b \<le> size_max \<Longrightarrow> sz_sub a b = size_max - (b - a)"
  by (simp add: sz_sub_def)

section \<open>Collections of facts\<close>

named_theorems net_simps \<open>how operations change the net multiplicity of a record\<close>
named_theorems count_simps \<open>how operations change record and shard counts\<close>
named_theorems frame_simps \<open>fields that an operation does not write\<close>

section \<open>Lists\<close>

text \<open>\<open>remove_nth i xs\<close> is \<open>xs\<close> without the element at position \<open>i\<close>.\<close>

definition remove_nth :: "nat \<Rightarrow> 'a list \<Rightarrow> 'a list" where
  "remove_nth i xs = take i xs @ drop (Suc i) xs"

lemma length_remove_nth [simp]:
  "i < length xs \<Longrightarrow> length (remove_nth i xs) = length xs - 1"
  by (simp add: remove_nth_def)

lemma mset_remove_nth:
  assumes "i < length xs"
  shows "mset xs = add_mset (xs ! i) (mset (remove_nth i xs))"
proof -
  have "mset xs = mset (take i xs @ xs ! i # drop (Suc i) xs)"
    using id_take_nth_drop [OF assms] by simp
  then show ?thesis by (simp add: remove_nth_def)
qed

lemma set_remove_nth_subset: "set (remove_nth i xs) \<subseteq> set xs"
  by (auto simp: remove_nth_def dest: in_set_takeD in_set_dropD)

lemma Ball_list_update:
  "\<forall>x\<in>set xs. P x \<Longrightarrow> P y \<Longrightarrow> \<forall>x\<in>set (xs[i := y]). P x"
  using set_update_subset_insert [of xs i y] by auto

lemma sorted_wrt_tl: "sorted_wrt P xs \<Longrightarrow> sorted_wrt P (tl xs)"
  by (cases xs) auto

lemma sum_list_update_int:
  fixes f :: "'a \<Rightarrow> int"
  assumes "i < length xs"
  shows "sum_list (map f (xs[i := y])) = sum_list (map f xs) - f (xs ! i) + f y"
proof -
  have "sum_list (map f xs) = sum_list (map f (take i xs)) + f (xs ! i) + sum_list (map f (drop (Suc i) xs))"
    using arg_cong [OF id_take_nth_drop [OF assms], of "\<lambda>zs. sum_list (map f zs)"] by simp
  moreover have "sum_list (map f (xs[i := y])) = sum_list (map f (take i xs)) + f y + sum_list (map f (drop (Suc i) xs))"
    using assms by (simp add: upd_conv_take_nth_drop)
  ultimately show ?thesis by simp
qed

lemma sum_list_update_shift:
  fixes f :: "'a \<Rightarrow> nat"
  assumes "i < length xs"
  shows "sum_list (map f (xs[i := y])) + f (xs ! i) = sum_list (map f xs) + f y"
  using assms
proof (induction xs arbitrary: i)
  case (Cons x xs)
  then show ?case by (cases i) (auto simp: add.assoc)
qed simp

lemma sum_list_mset_eq:
  fixes f :: "'a \<Rightarrow> 'b::comm_monoid_add"
  assumes "mset xs = mset ys"
  shows "sum_list (map f xs) = sum_list (map f ys)"
  using arg_cong [OF assms, of "\<lambda>m. sum_mset (image_mset f m)"]
  by (simp add: sum_mset_sum_list flip: mset_map)

lemma sorted_wrt_drop_nth:
  assumes "sorted_wrt P xs" and "i < j" and "j < length xs"
  shows "P (xs ! i) (xs ! j)"
  using assms by (simp add: sorted_wrt_nth_less)

text \<open>
  The position of the first element that satisfies a test, or the length of the list: the
  value a scan \<^verbatim>\<open>while (i < n && !p(a[i])) i++\<close> stops at.
\<close>

definition first_pos :: "('a \<Rightarrow> bool) \<Rightarrow> 'a list \<Rightarrow> nat" where
  "first_pos p xs = length (takeWhile (\<lambda>x. \<not> p x) xs)"

lemma first_pos_simps [simp]:
  "first_pos p [] = 0"
  "first_pos p (x # xs) = (if p x then 0 else Suc (first_pos p xs))"
  by (simp_all add: first_pos_def)

lemma first_pos_le [simp]: "first_pos p xs \<le> length xs"
  by (simp add: first_pos_def length_takeWhile_le)

lemma first_pos_less_iff: "first_pos p xs < length xs \<longleftrightarrow> (\<exists>x\<in>set xs. p x)"
  by (induction xs) auto

lemma first_pos_before: "i < first_pos p xs \<Longrightarrow> \<not> p (xs ! i)"
  unfolding first_pos_def by (metis nth_mem set_takeWhileD takeWhile_nth)

lemma first_pos_at: "first_pos p xs < length xs \<Longrightarrow> p (xs ! first_pos p xs)"
  unfolding first_pos_def using nth_length_takeWhile by fastforce

lemma first_posI:
  assumes "n \<le> length xs" and "\<And>i. i < n \<Longrightarrow> \<not> p (xs ! i)"
    and "n < length xs \<Longrightarrow> p (xs ! n)"
  shows "first_pos p xs = n"
proof (rule linorder_cases [of "first_pos p xs" n])
  assume lt: "first_pos p xs < n"
  with assms(1) have "first_pos p xs < length xs" by simp
  then have "p (xs ! first_pos p xs)" by (rule first_pos_at)
  with assms(2) [OF lt] show ?thesis by simp
next
  assume "n < first_pos p xs"
  then show ?thesis using first_pos_before [of n p xs] assms(3) first_pos_le [of p xs] by simp
qed simp

lemma drop_first_pos: "drop (first_pos p xs) xs = dropWhile (\<lambda>x. \<not> p x) xs"
  by (simp add: first_pos_def dropWhile_eq_drop)

lemma takeWhile_sorted_filter:
  assumes "sorted_wrt (\<lambda>x y. f x \<le> f y) xs"
  shows "takeWhile (\<lambda>x. f x \<le> (b::'b::linorder)) xs = filter (\<lambda>x. f x \<le> b) xs"
  using assms
proof (induction xs)
  case (Cons x xs)
  show ?case
  proof (cases "f x \<le> b")
    case False
    with Cons.prems have "\<forall>y\<in>set xs. \<not> f y \<le> b" by (auto intro: order_trans)
    with False show ?thesis by (simp add: filter_empty_conv)
  qed (use Cons in simp)
qed simp

lemma dropWhile_sorted_filter:
  assumes "sorted_wrt (\<lambda>x y. f x \<le> f y) xs"
  shows "dropWhile (\<lambda>x. f x < (a::'b::linorder)) xs = filter (\<lambda>x. a \<le> f x) xs"
  using assms
proof (induction xs)
  case (Cons x xs)
  show ?case
  proof (cases "f x < a")
    case True
    with Cons show ?thesis by auto
  next
    case False
    with Cons.prems have "\<forall>y\<in>set xs. a \<le> f y" by auto
    with False show ?thesis by (auto simp: filter_id_conv)
  qed
qed simp

section \<open>Random numbers\<close>

text \<open>
  The generator is third-party: a function from its state and a bound to a number and the next
  state. \<^verbatim>\<open>gsl_rng_uniform_int(r, n)\<close> is documented to return a number from 0 to \<open>n - 1\<close>.
\<close>

type_synonym 'g rng_ops = "'g \<Rightarrow> nat \<Rightarrow> nat \<times> 'g"

definition rng_ok :: "'g rng_ops \<Rightarrow> bool" where
  "rng_ok U \<longleftrightarrow> (\<forall>g n. 0 < n \<longrightarrow> fst (U g n) < n)"

definition first_rng :: "unit rng_ops" where
  "first_rng g n = (0, g)"

lemma first_rng_ok: "rng_ok first_rng"
  by (simp add: rng_ok_def first_rng_def)

end
