(* ===== verification/DE_Types.thy ===== *)
theory DE_Types
  imports DE_Prelude
begin

text \<open>
  The shared types of \<^verbatim>\<open>include/util/types.h\<close> and \<^verbatim>\<open>include/framework/util/Configuration.h\<close>:
  layout and delete policies, shard identifiers, reconstruction tasks and the vector that
  collects them with its running total of records.
\<close>

section \<open>Policies and identifiers\<close>

datatype LayoutPolicy = LEVELING | TEIRING | BSM

datatype DeletePolicy = TOMBSTONE | TAGGING

type_synonym level_index = int

record ShardID =
  level_idx :: int
  shard_idx :: int

definition ShardID_eq :: "ShardID \<Rightarrow> ShardID \<Rightarrow> bool" where
  "ShardID_eq a b \<longleftrightarrow> level_idx a = level_idx b \<and> shard_idx a = shard_idx b"

definition INVALID_SHID :: ShardID where
  "INVALID_SHID = \<lparr>level_idx = -1, shard_idx = -1\<rparr>"

section \<open>Reconstruction tasks\<close>

record ReconstructionTask =
  sources :: "level_index list"
  target :: level_index
  task_reccnt :: nat

definition add_source :: "level_index \<Rightarrow> nat \<Rightarrow> ReconstructionTask \<Rightarrow> ReconstructionTask" where
  "add_source s cnt t = t\<lparr>sources := sources t @ [s], task_reccnt := sz_add (task_reccnt t) cnt\<rparr>"

record ReconstructionVector =
  m_tasks :: "ReconstructionTask list"
  total_reccnt :: nat

definition ReconstructionVector_new :: ReconstructionVector where
  "ReconstructionVector_new = \<lparr>m_tasks = [], total_reccnt = 0\<rparr>"

definition add_reconstruction ::
    "level_index \<Rightarrow> level_index \<Rightarrow> nat \<Rightarrow> ReconstructionVector \<Rightarrow> ReconstructionVector" where
  "add_reconstruction s t reccnt v =
     v\<lparr>m_tasks := m_tasks v @ [\<lparr>sources = [s], target = t, task_reccnt = reccnt\<rparr>],
       total_reccnt := sz_add (total_reccnt v) reccnt\<rparr>"

text \<open>The overload that takes a whole task leaves \<open>total_reccnt\<close> as it is.\<close>

definition add_reconstruction_task :: "ReconstructionTask \<Rightarrow> ReconstructionVector \<Rightarrow> ReconstructionVector" where
  "add_reconstruction_task t v = v\<lparr>m_tasks := m_tasks v @ [t]\<rparr>"

definition erase_task :: "nat \<Rightarrow> ReconstructionVector \<Rightarrow> ReconstructionTask \<times> ReconstructionVector" where
  "erase_task idx v =
     (let task = m_tasks v ! idx in
      (task, v\<lparr>m_tasks := remove_nth idx (m_tasks v),
               total_reccnt := sz_sub (total_reccnt v) (task_reccnt task)\<rparr>))"

definition remove_reconstruction ::
    "nat \<Rightarrow> ReconstructionVector \<Rightarrow> (ReconstructionTask \<times> ReconstructionVector) res" where
  "remove_reconstruction idx v =
     assertE (idx < length (m_tasks v)) (Inr (erase_task idx v))"

fun smallest_loop :: "ReconstructionTask list \<Rightarrow> nat \<Rightarrow> nat \<Rightarrow> nat \<Rightarrow> nat" where
  "smallest_loop [] i min_size idx = idx"
| "smallest_loop (t # ts) i min_size idx =
     (if task_reccnt t < min_size then smallest_loop ts (Suc i) (task_reccnt t) i
      else smallest_loop ts (Suc i) min_size idx)"

definition remove_smallest_reconstruction ::
    "ReconstructionVector \<Rightarrow> (ReconstructionTask \<times> ReconstructionVector) res" where
  "remove_smallest_reconstruction v =
     (case m_tasks v of
        [] \<Rightarrow> Inl OutOfBounds
      | t # ts \<Rightarrow> Inr (erase_task (smallest_loop ts 1 (task_reccnt t) 0) v))"

definition get_total_reccnt :: "ReconstructionVector \<Rightarrow> nat" where
  "get_total_reccnt v = total_reccnt v"

definition vector_size :: "ReconstructionVector \<Rightarrow> nat" where
  "vector_size v = length (m_tasks v)"

section \<open>What the vector keeps\<close>

text \<open>The running total is the sum of the tasks' record counts, as \<^verbatim>\<open>size_t\<close>.\<close>

definition total_ok :: "ReconstructionVector \<Rightarrow> bool" where
  "total_ok v \<longleftrightarrow> total_reccnt v = (\<Sum>t\<leftarrow>m_tasks v. task_reccnt t) mod size_max"

lemma total_ok_new: "total_ok ReconstructionVector_new"
  by (simp add: total_ok_def ReconstructionVector_new_def)

lemma total_ok_add: "total_ok v \<Longrightarrow> total_ok (add_reconstruction s t n v)"
  by (simp add: total_ok_def add_reconstruction_def sz_add_def mod_add_left_eq)

lemma sum_list_remove_nth:
  fixes f :: "'a \<Rightarrow> nat"
  assumes "i < length xs"
  shows "(\<Sum>x\<leftarrow>xs. f x) = f (xs ! i) + (\<Sum>x\<leftarrow>remove_nth i xs. f x)"
  using arg_cong [OF mset_remove_nth [OF assms], of "\<lambda>m. sum_mset (image_mset f m)"]
  by (simp add: sum_mset_sum_list flip: mset_map)

lemma total_ok_erase:
  assumes "total_ok v" and "idx < length (m_tasks v)"
    and "(\<Sum>t\<leftarrow>m_tasks v. task_reccnt t) < size_max"
  shows "total_ok (snd (erase_task idx v))"
    and "total_reccnt (snd (erase_task idx v)) =
      total_reccnt v - task_reccnt (m_tasks v ! idx)"
proof -
  note eq = sum_list_remove_nth [OF assms(2), of task_reccnt]
  have tot: "total_reccnt v = (\<Sum>t\<leftarrow>m_tasks v. task_reccnt t)"
    using assms(1,3) by (simp add: total_ok_def)
  then show "total_reccnt (snd (erase_task idx v)) = total_reccnt v - task_reccnt (m_tasks v ! idx)"
    using eq by (simp add: erase_task_def Let_def)
  then show "total_ok (snd (erase_task idx v))"
    using eq tot assms(3) by (simp add: total_ok_def erase_task_def Let_def)
qed

lemma smallest_loop_spec:
  assumes "all = pre @ ts" and "i = length pre" and "idx < i"
    and "min_size = task_reccnt (all ! idx)" and "\<forall>t\<in>set pre. min_size \<le> task_reccnt t"
  shows "smallest_loop ts i min_size idx < length all \<and>
    (\<forall>t\<in>set all. task_reccnt (all ! smallest_loop ts i min_size idx) \<le> task_reccnt t)"
  using assms
proof (induction ts i min_size idx arbitrary: pre rule: smallest_loop.induct)
  case (2 t ts i min_size idx)
  have i: "all ! i = t" "i < length all" using "2.prems" by (simp_all add: nth_append)
  show ?case
  proof (cases "task_reccnt t < min_size")
    case True
    with "2.prems" i have "\<forall>u\<in>set (pre @ [t]). task_reccnt t \<le> task_reccnt u" by fastforce
    with True "2.IH"(1) [OF True, of "pre @ [t]"] "2.prems" i show ?thesis by simp
  next
    case False
    with "2.prems" have "\<forall>u\<in>set (pre @ [t]). min_size \<le> task_reccnt u" by auto
    with False "2.IH"(2) [OF False, of "pre @ [t]"] "2.prems" show ?thesis by simp
  qed
qed auto

text \<open>
  Removing the smallest task returns a task of the vector with the least record count,
  leaves the other tasks, and keeps the running total equal to the sum of the remaining counts.
  On an empty vector the source reads past the end of the vector.
\<close>

theorem remove_smallest_spec:
  assumes "total_ok v" and "(\<Sum>t\<leftarrow>m_tasks v. task_reccnt t) < size_max"
  shows "case remove_smallest_reconstruction v of
      Inl e \<Rightarrow> m_tasks v = [] \<and> e = OutOfBounds
    | Inr (t, v') \<Rightarrow> (\<forall>u\<in>set (m_tasks v). task_reccnt t \<le> task_reccnt u) \<and>
        mset (m_tasks v) = add_mset t (mset (m_tasks v')) \<and> total_ok v' \<and>
        total_reccnt v' = total_reccnt v - task_reccnt t"
proof (cases "m_tasks v")
  case (Cons t ts)
  define idx where "idx = smallest_loop ts 1 (task_reccnt t) 0"
  have "idx < length (m_tasks v) \<and> (\<forall>u\<in>set (m_tasks v). task_reccnt (m_tasks v ! idx) \<le> task_reccnt u)"
    using smallest_loop_spec [of "m_tasks v" "[t]" ts 1 0 "task_reccnt t"] Cons
    by (simp add: idx_def)
  then show ?thesis
    using Cons mset_remove_nth [of idx "m_tasks v"] total_ok_erase [OF assms(1) _ assms(2), of idx]
    by (simp add: remove_smallest_reconstruction_def idx_def erase_task_def Let_def)
qed (simp add: remove_smallest_reconstruction_def)

theorem remove_smallest_spec_witness:
  "case remove_smallest_reconstruction
      (add_reconstruction 1 2 30 (add_reconstruction 0 1 10 ReconstructionVector_new)) of
     Inl e \<Rightarrow> False
   | Inr (t, v') \<Rightarrow> task_reccnt t = 10 \<and> total_reccnt v' = 30"
proof -
  let ?v = "add_reconstruction 1 2 30 (add_reconstruction 0 1 10 ReconstructionVector_new)"
  have v: "m_tasks ?v = [\<lparr>sources = [0], target = 1, task_reccnt = 10\<rparr>, \<lparr>sources = [1], target = 2, task_reccnt = 30\<rparr>]"
      "total_reccnt ?v = 40"
    by (simp_all add: add_reconstruction_def ReconstructionVector_new_def size_max_def)
  have "total_ok ?v" "(\<Sum>t\<leftarrow>m_tasks ?v. task_reccnt t) < size_max"
    by (simp_all add: total_ok_def v size_max_def)
  from remove_smallest_spec [OF this] show ?thesis
    by (simp add: remove_smallest_reconstruction_def v erase_task_def Let_def size_max_def)
qed

end
