(* ===== verification/DE_Record.thy ===== *)
theory DE_Record
  imports DE_Prelude "HOL-Library.List_Lexorder" "HOL-Library.Char_ord"
begin

text \<open>
  The record types of \<^verbatim>\<open>include/framework/interface/Record.h\<close>: key-value records and their
  order, string records compared with \<^verbatim>\<open>strncmp\<close>, weighted records, points, and the
  \<^verbatim>\<open>Wrapped\<close> record whose 32-bit header packs the tombstone, delete and visible flags with a
  timestamp. The last section defines the net multiplicity of a record in a list of wrapped
  records, the quantity every reconstruction has to preserve.
\<close>

unbundle bit_operations_syntax

section \<open>Key-value records\<close>

datatype ('k, 'v) Record = Record (key: 'k) (val: 'v)

text \<open>A value-initialised record.\<close>

instantiation Record :: (zero, zero) zero
begin

definition zero_Record :: "('a, 'b) Record" where
  "0 = Record 0 0"

instance ..

end

instantiation Record :: (linorder, linorder) linorder
begin

definition less_Record :: "('a, 'b) Record \<Rightarrow> ('a, 'b) Record \<Rightarrow> bool" where
  "a < b \<longleftrightarrow> key a < key b \<or> (key a = key b \<and> val a < val b)"

definition less_eq_Record :: "('a, 'b) Record \<Rightarrow> ('a, 'b) Record \<Rightarrow> bool" where
  "(a :: ('a, 'b) Record) \<le> b \<longleftrightarrow> a < b \<or> a = b"

instance
  by standard (auto simp: less_eq_Record_def less_Record_def intro: Record.expand)

end

definition Record_less :: "('k::linorder, 'v::linorder) Record \<Rightarrow> ('k, 'v) Record \<Rightarrow> bool" where
  "Record_less a b \<longleftrightarrow> key a < key b \<or> (key a = key b \<and> val a < val b)"

definition Record_eq :: "('k::linorder, 'v::linorder) Record \<Rightarrow> ('k, 'v) Record \<Rightarrow> bool" where
  "Record_eq a b \<longleftrightarrow> key a = key b \<and> val a = val b"

lemma Record_less_conv: "Record_less a b \<longleftrightarrow> a < b"
  by (simp add: Record_less_def less_Record_def)

lemma Record_eq_conv: "Record_eq a b \<longleftrightarrow> a = b"
  by (auto simp: Record_eq_def intro: Record.expand)

lemma key_mono: "a \<le> b \<Longrightarrow> key a \<le> key (b :: ('k::linorder, 'v::linorder) Record)"
  by (auto simp: less_eq_Record_def less_Record_def)

lemma sorted_key: "sorted_wrt (\<lambda>a b. a \<le> b) rs \<Longrightarrow>
    sorted_wrt (\<lambda>a b. key a \<le> key (b :: ('k::linorder, 'v::linorder) Record)) rs"
  by (erule sorted_wrt_mono_rel [rotated]) (rule key_mono)

section \<open>String records\<close>

text \<open>
  The specialisation \<^verbatim>\<open>Record<const char *, V>\<close> holds a NUL-terminated key and its length and
  compares keys with \<^verbatim>\<open>strncmp\<close>; the value takes no part. A C string is the list of its
  characters before the NUL, and reading at its end yields the NUL, that is 0.
\<close>

record 'v StringRecord =
  skey :: string
  svalue :: 'v
  slen :: nat

definition char_at :: "string \<Rightarrow> int" where
  "char_at s = (case s of [] \<Rightarrow> 0 | c # _ \<Rightarrow> of_char c)"

fun strncmp :: "string \<Rightarrow> string \<Rightarrow> nat \<Rightarrow> int" where
  "strncmp a b 0 = 0"
| "strncmp a b (Suc n) =
     (if char_at a \<noteq> char_at b then char_at a - char_at b
      else if char_at a = 0 then 0
      else strncmp (tl a) (tl b) n)"

definition StringRecord_less :: "'v StringRecord \<Rightarrow> 'v StringRecord \<Rightarrow> bool" where
  "StringRecord_less a b = (let n = min (slen a) (slen b) + 1 in strncmp (skey a) (skey b) n < 0)"

definition StringRecord_eq :: "'v StringRecord \<Rightarrow> 'v StringRecord \<Rightarrow> bool" where
  "StringRecord_eq a b = (let n = min (slen a) (slen b) + 1 in strncmp (skey a) (skey b) n = 0)"

definition c_string :: "string \<Rightarrow> bool" where
  "c_string s \<longleftrightarrow> (\<forall>c\<in>set s. of_char c \<noteq> (0::nat))"

definition StringRecord_wf :: "'v StringRecord \<Rightarrow> bool" where
  "StringRecord_wf r \<longleftrightarrow> c_string (skey r) \<and> slen r = length (skey r)"

lemma char_at_simps [simp]:
  "char_at [] = 0"
  "char_at (c # s) = of_char c"
  by (simp_all add: char_at_def)

lemma of_char_int_nat: "(of_char c :: int) = int (of_char c)"
  by (rule of_nat_of_char [symmetric])

lemma of_char_int_eq_iff: "(of_char c :: int) = of_char d \<longleftrightarrow> c = d"
  unfolding of_char_int_nat by simp

lemma of_char_int_less_iff: "(of_char c :: int) < of_char d \<longleftrightarrow> c < d"
  unfolding of_char_int_nat by (simp add: less_char_def)

lemma of_char_int_nonneg: "0 \<le> (of_char c :: int)"
  unfolding of_char_int_nat by simp

lemma strncmp_spec:
  assumes "c_string a" and "c_string b" and "min (length a) (length b) < n"
  shows "(strncmp a b n = 0 \<longleftrightarrow> a = b) \<and> (strncmp a b n < 0 \<longleftrightarrow> a < b)"
  using assms
proof (induction a b n rule: strncmp.induct)
  case (2 a b n)
  have pos: "0 < (of_char c :: int)" if "c_string (c # s)" for c s
    using that of_char_int_nonneg [of c] unfolding c_string_def of_char_int_nat by simp
  show ?case
  proof (cases a)
    case Nil
    show ?thesis
    proof (cases b)
      case (Cons d b')
      then have "0 < (of_char d :: int)" using "2.prems"(2) by (auto intro: pos)
      with Nil Cons show ?thesis by simp
    qed (use Nil in simp)
  next
    case (Cons c a')
    note a = this
    have c: "0 < (of_char c :: int)" using "2.prems"(1) a by (auto intro: pos)
    show ?thesis
    proof (cases b)
      case Nil
      then show ?thesis using a c by simp
    next
      case (Cons d b')
      show ?thesis
      proof (cases "c = d")
        case True
        have "c_string a'" "c_string b'" "min (length a') (length b') < n"
          using "2.prems" a Cons by (auto simp: c_string_def)
        then have "(strncmp a' b' n = 0 \<longleftrightarrow> a' = b') \<and> (strncmp a' b' n < 0 \<longleftrightarrow> a' < b')"
          using "2.IH" a Cons True c by simp
        then show ?thesis using a Cons True c by simp
      next
        case False
        then show ?thesis using a Cons
          by (simp add: of_char_int_eq_iff of_char_int_less_iff)
      qed
    qed
  qed
qed simp

section \<open>Weighted records\<close>

record ('k, 'v, 'w) WeightedRecord =
  wkey :: 'k
  wvalue :: 'v
  weight :: 'w

definition WeightedRecord_eq :: "('k, 'v, 'w) WeightedRecord \<Rightarrow> ('k, 'v, 'w) WeightedRecord \<Rightarrow> bool" where
  "WeightedRecord_eq a b \<longleftrightarrow> wkey a = wkey b \<and> wvalue a = wvalue b"

definition WeightedRecord_less ::
    "('k::linorder, 'v::linorder, 'w) WeightedRecord \<Rightarrow> ('k, 'v, 'w) WeightedRecord \<Rightarrow> bool" where
  "WeightedRecord_less a b \<longleftrightarrow> wkey a < wkey b \<or> (wkey a = wkey b \<and> wvalue a < wvalue b)"

section \<open>Points\<close>

text \<open>
  \<^verbatim>\<open>CosinePoint\<close> and \<^verbatim>\<open>EuclidPoint\<close> hold \<open>D\<close> coordinates and compare them with the same two
  loops: \<open>operator==\<close> stops at the first difference, \<open>operator<\<close> decides at it.
\<close>

function point_eq_from :: "nat \<Rightarrow> 'v list \<Rightarrow> 'v list \<Rightarrow> nat \<Rightarrow> bool" where
  "point_eq_from D a b i =
     (if i < D then (if a ! i \<noteq> b ! i then False else point_eq_from D a b (Suc i)) else True)"
  by pat_completeness auto
termination
  by (relation "measure (\<lambda>(D, a, b, i). D - i)") auto

function point_less_from :: "nat \<Rightarrow> 'v::linorder list \<Rightarrow> 'v list \<Rightarrow> nat \<Rightarrow> bool" where
  "point_less_from D a b i =
     (if i < D then
        (if a ! i < b ! i then True
         else if a ! i > b ! i then False
         else point_less_from D a b (Suc i))
      else False)"
  by pat_completeness auto
termination
  by (relation "measure (\<lambda>(D, a, b, i). D - i)") auto

declare point_eq_from.simps [simp del] point_less_from.simps [simp del]

definition point_eq :: "nat \<Rightarrow> 'v list \<Rightarrow> 'v list \<Rightarrow> bool" where
  "point_eq D a b = point_eq_from D a b 0"

definition point_less :: "nat \<Rightarrow> 'v::linorder list \<Rightarrow> 'v list \<Rightarrow> bool" where
  "point_less D a b = point_less_from D a b 0"

lemma point_eq_from_drop:
  assumes "length a = D" and "length b = D" and "i \<le> D"
  shows "point_eq_from D a b i \<longleftrightarrow> drop i a = drop i b"
  using assms
proof (induction D a b i rule: point_eq_from.induct)
  case (1 D a b i)
  show ?case
  proof (cases "i < D")
    case True
    then show ?thesis using 1 by (subst point_eq_from.simps) (auto simp flip: Cons_nth_drop_Suc)
  next
    case False
    then show ?thesis using 1 by (subst point_eq_from.simps) simp
  qed
qed

lemma point_less_from_drop:
  assumes "length a = D" and "length b = D" and "i \<le> D"
  shows "point_less_from D a b i \<longleftrightarrow> drop i a < drop i b"
  using assms
proof (induction D a b i rule: point_less_from.induct)
  case (1 D a b i)
  show ?case
  proof (cases "i < D")
    case True
    then show ?thesis using 1 by (subst point_less_from.simps) (auto simp flip: Cons_nth_drop_Suc)
  next
    case False
    then show ?thesis using 1 by (subst point_less_from.simps) simp
  qed
qed

section \<open>Wrapped records\<close>

record 'r Wrapped =
  header :: "32 word"
  rec :: 'r

definition set_delete :: "'r Wrapped \<Rightarrow> 'r Wrapped" where
  "set_delete w = w\<lparr>header := header w OR 2\<rparr>"

definition is_deleted :: "'r Wrapped \<Rightarrow> bool" where
  "is_deleted w \<longleftrightarrow> header w AND 2 \<noteq> 0"

definition set_visible :: "'r Wrapped \<Rightarrow> 'r Wrapped" where
  "set_visible w = w\<lparr>header := header w OR 4\<rparr>"

definition is_visible :: "'r Wrapped \<Rightarrow> bool" where
  "is_visible w \<longleftrightarrow> header w AND 4 \<noteq> 0"

definition set_timestamp :: "32 word \<Rightarrow> 'r Wrapped \<Rightarrow> 'r Wrapped" where
  "set_timestamp ts w = w\<lparr>header := header w OR push_bit 3 ts\<rparr>"

definition get_timestamp :: "'r Wrapped \<Rightarrow> 32 word" where
  "get_timestamp w = drop_bit 3 (header w)"

definition clear_timestamp :: "'r Wrapped \<Rightarrow> 'r Wrapped" where
  "clear_timestamp w = w\<lparr>header := header w AND 7\<rparr>"

definition set_tombstone :: "bool \<Rightarrow> 'r Wrapped \<Rightarrow> 'r Wrapped" where
  "set_tombstone b w =
     (if b then w\<lparr>header := header w OR 1\<rparr> else w\<lparr>header := header w AND 0\<rparr>)"

definition is_tombstone :: "'r Wrapped \<Rightarrow> bool" where
  "is_tombstone w \<longleftrightarrow> header w AND 1 \<noteq> 0"

text \<open>Both comparisons rest on those of the record type, \<open>lt\<close> and \<open>eq\<close>.\<close>

definition Wrapped_less_by :: "('r \<Rightarrow> 'r \<Rightarrow> bool) \<Rightarrow> ('r \<Rightarrow> 'r \<Rightarrow> bool) \<Rightarrow> 'r Wrapped \<Rightarrow> 'r Wrapped \<Rightarrow> bool" where
  "Wrapped_less_by lt eq a b \<longleftrightarrow> lt (rec a) (rec b) \<or> (eq (rec a) (rec b) \<and> header a < header b)"

definition Wrapped_eq_by :: "('r \<Rightarrow> 'r \<Rightarrow> bool) \<Rightarrow> 'r Wrapped \<Rightarrow> 'r Wrapped \<Rightarrow> bool" where
  "Wrapped_eq_by eq a b \<longleftrightarrow> eq (rec a) (rec b)"

lemma rec_ops [simp]:
  "rec (set_delete w) = rec w"
  "rec (set_visible w) = rec w"
  "rec (set_timestamp ts w) = rec w"
  "rec (clear_timestamp w) = rec w"
  "rec (set_tombstone b w) = rec w"
  by (simp_all add: set_delete_def set_visible_def set_timestamp_def clear_timestamp_def
      set_tombstone_def)

text \<open>Each flag is one bit of the header.\<close>

lemma and_power_of_two_iff:
  fixes h :: "'a::len word"
  assumes "n < LENGTH('a)"
  shows "h AND 2 ^ n \<noteq> 0 \<longleftrightarrow> bit h n"
  using assms by (metis and_exp_eq_0_iff_not_bit)

lemma flag_bits:
  "is_tombstone w \<longleftrightarrow> bit (header w) 0"
  "is_deleted w \<longleftrightarrow> bit (header w) 1"
  "is_visible w \<longleftrightarrow> bit (header w) 2"
  using and_power_of_two_iff [of 0 "header w"] and_power_of_two_iff [of 1 "header w"]
    and_power_of_two_iff [of 2 "header w"]
  by (simp_all add: is_tombstone_def is_deleted_def is_visible_def)

lemma bit_one_two_four:
  "bit (1 :: 32 word) n \<longleftrightarrow> n = 0"
  "bit (2 :: 32 word) n \<longleftrightarrow> n = 1"
  "bit (4 :: 32 word) n \<longleftrightarrow> n = 2"
proof -
  have "bit (2 ^ m :: 32 word) n \<longleftrightarrow> n = m" if "m < 32" for m
    using that by (auto simp: bit_exp_iff)
  from this [of 0] this [of 1] this [of 2]
  show "bit (1 :: 32 word) n \<longleftrightarrow> n = 0" "bit (2 :: 32 word) n \<longleftrightarrow> n = 1"
    "bit (4 :: 32 word) n \<longleftrightarrow> n = 2" by simp_all
qed

lemma flags_set_delete [simp]:
  "is_deleted (set_delete w)"
  "is_tombstone (set_delete w) = is_tombstone w"
  "is_visible (set_delete w) = is_visible w"
  by (simp_all add: flag_bits set_delete_def bit_or_iff bit_one_two_four)

lemma flags_set_visible [simp]:
  "is_visible (set_visible w)"
  "is_tombstone (set_visible w) = is_tombstone w"
  "is_deleted (set_visible w) = is_deleted w"
  by (simp_all add: flag_bits set_visible_def bit_or_iff bit_one_two_four)

lemma flags_set_timestamp [simp]:
  "is_visible (set_timestamp ts w) = is_visible w"
  "is_tombstone (set_timestamp ts w) = is_tombstone w"
  "is_deleted (set_timestamp ts w) = is_deleted w"
  by (simp_all add: flag_bits set_timestamp_def bit_or_iff bit_push_bit_iff)

lemma flags_set_tombstone [simp]:
  "is_tombstone (set_tombstone True w)"
  "is_deleted (set_tombstone True w) = is_deleted w"
  "is_visible (set_tombstone True w) = is_visible w"
  by (simp_all add: flag_bits set_tombstone_def bit_or_iff bit_one_two_four)

lemma bit_three_seven:
  "bit (3 :: 32 word) n \<longleftrightarrow> n < 2"
  "bit (7 :: 32 word) n \<longleftrightarrow> n < 3"
proof -
  have "bit (mask m :: 32 word) n \<longleftrightarrow> n < m" if "m < 32" for m
    using that by (auto simp: bit_mask_iff)
  from this [of 2] this [of 3]
  show "bit (3 :: 32 word) n \<longleftrightarrow> n < 2" "bit (7 :: 32 word) n \<longleftrightarrow> n < 3"
    by (simp_all add: mask_eq_exp_minus_1)
qed

lemma flags_clear_timestamp [simp]:
  "is_visible (clear_timestamp w) = is_visible w"
  "is_tombstone (clear_timestamp w) = is_tombstone w"
  "is_deleted (clear_timestamp w) = is_deleted w"
  by (simp_all add: flag_bits clear_timestamp_def bit_and_iff bit_three_seven)

text \<open>The masking \<^verbatim>\<open>header &= 3\<close> that shard constructors apply to records of the buffer.\<close>

definition mask_header :: "'r Wrapped \<Rightarrow> 'r Wrapped" where
  "mask_header w = w\<lparr>header := header w AND 3\<rparr>"

lemma flags_mask_header [simp]:
  "rec (mask_header w) = rec w"
  "is_tombstone (mask_header w) = is_tombstone w"
  "is_deleted (mask_header w) = is_deleted w"
  "\<not> is_visible (mask_header w)"
  by (simp_all add: flag_bits mask_header_def bit_and_iff bit_three_seven)

text \<open>The order of wrapped records is the lexicographic order of record and header.\<close>

abbreviation wkey_of :: "'r Wrapped \<Rightarrow> 'r \<times> 32 word" where
  "wkey_of w \<equiv> (rec w, header w)"

lemma Wrapped_less_conv: "Wrapped_less_by (<) (=) a b \<longleftrightarrow> wkey_of a < wkey_of (b :: 'r::linorder Wrapped)"
  by (auto simp: Wrapped_less_by_def)

lemma wkey_of_inj: "wkey_of a = wkey_of b \<longleftrightarrow> a = (b :: 'r Wrapped)"
  by (auto intro: Wrapped.equality)

section \<open>The orders of the record types\<close>

text \<open>
  What sorting and merging rely on: \<open>eq\<close> is an equivalence and \<open>lt\<close> a strict order that is total up to
  it, on the well-formed values \<open>ok\<close>. The easiest way to get there is a key in a linear order that both
  comparisons go by.
\<close>

definition lawful_order :: "('a \<Rightarrow> 'a \<Rightarrow> bool) \<Rightarrow> ('a \<Rightarrow> 'a \<Rightarrow> bool) \<Rightarrow> ('a \<Rightarrow> bool) \<Rightarrow> bool" where
  "lawful_order lt eq ok \<longleftrightarrow> (\<forall>a b c. ok a \<and> ok b \<and> ok c \<longrightarrow>
     eq a a \<and> (eq a b \<longrightarrow> eq b a) \<and> (eq a b \<and> eq b c \<longrightarrow> eq a c) \<and>
     (lt a b \<and> lt b c \<longrightarrow> lt a c) \<and> (eq a b \<and> lt b c \<longrightarrow> lt a c) \<and> (lt a b \<and> eq b c \<longrightarrow> lt a c) \<and>
     (lt a b \<or> eq a b \<or> lt b a) \<and> \<not> (lt a b \<and> eq a b) \<and> \<not> (lt a b \<and> lt b a))"

definition ordered_by :: "('a \<Rightarrow> 'a \<Rightarrow> bool) \<Rightarrow> ('a \<Rightarrow> 'a \<Rightarrow> bool) \<Rightarrow> ('a \<Rightarrow> bool) \<Rightarrow> ('a \<Rightarrow> 'k::linorder) \<Rightarrow> bool" where
  "ordered_by lt eq ok kf \<longleftrightarrow>
     (\<forall>a b. ok a \<longrightarrow> ok b \<longrightarrow> (lt a b \<longleftrightarrow> kf a < kf b) \<and> (eq a b \<longleftrightarrow> kf a = kf b))"

lemma ordered_byD:
  assumes "ordered_by lt eq ok kf" and "ok a" and "ok b"
  shows "lt a b \<longleftrightarrow> kf a < kf b" and "eq a b \<longleftrightarrow> kf a = kf b"
  using assms by (simp_all add: ordered_by_def)

lemma lawful_orderI:
  assumes "ordered_by lt eq ok kf"
  shows "lawful_order lt eq ok"
  unfolding lawful_order_def
proof (intro allI impI, elim conjE)
  fix a b c assume ok: "ok a" "ok b" "ok c"
  note conv = ordered_byD [OF assms ok(1,2)] ordered_byD [OF assms ok(2,1)] ordered_byD [OF assms ok(2,3)]
    ordered_byD [OF assms ok(1,3)] ordered_byD [OF assms ok(1,1)]
  show "eq a a \<and> (eq a b \<longrightarrow> eq b a) \<and> (eq a b \<and> eq b c \<longrightarrow> eq a c) \<and>
     (lt a b \<and> lt b c \<longrightarrow> lt a c) \<and> (eq a b \<and> lt b c \<longrightarrow> lt a c) \<and> (lt a b \<and> eq b c \<longrightarrow> lt a c) \<and>
     (lt a b \<or> eq a b \<or> lt b a) \<and> \<not> (lt a b \<and> eq a b) \<and> \<not> (lt a b \<and> lt b a)"
    unfolding conv by auto
qed

lemma Record_ordered: "ordered_by Record_less Record_eq (\<lambda>_. True) (\<lambda>r. r)"
  by (simp add: ordered_by_def Record_less_conv Record_eq_conv)

lemma StringRecord_ordered: "ordered_by StringRecord_less StringRecord_eq StringRecord_wf skey"
  unfolding ordered_by_def
proof (intro allI impI)
  fix a b :: "'v StringRecord" assume "StringRecord_wf a" "StringRecord_wf b"
  then show "(StringRecord_less a b \<longleftrightarrow> skey a < skey b) \<and> (StringRecord_eq a b \<longleftrightarrow> skey a = skey b)"
    using strncmp_spec [of "skey a" "skey b" "min (slen a) (slen b) + 1"]
    by (simp add: StringRecord_wf_def StringRecord_less_def StringRecord_eq_def)
qed

lemma WeightedRecord_ordered:
  "ordered_by WeightedRecord_less WeightedRecord_eq (\<lambda>_. True) (\<lambda>r. (wkey r, wvalue r))"
  by (auto simp: ordered_by_def WeightedRecord_less_def WeightedRecord_eq_def)

lemma point_ordered: "ordered_by (point_less D) (point_eq D) (\<lambda>p. length p = D) (\<lambda>p. p)"
  by (simp add: ordered_by_def point_less_def point_eq_def point_less_from_drop point_eq_from_drop)

text \<open>The wrapper refines the order of the records by the header.\<close>

lemma Wrapped_ordered:
  assumes "ordered_by lt eq ok kf"
  shows "ordered_by (Wrapped_less_by lt eq) (\<lambda>a b. Wrapped_eq_by eq a b \<and> header a = header b) (\<lambda>w. ok (rec w)) (\<lambda>w. (kf (rec w), header w))"
  unfolding ordered_by_def Wrapped_less_by_def Wrapped_eq_by_def using assms by (auto simp: ordered_byD)

text \<open>What \<^verbatim>\<open>std::sort\<close> promises for a comparison: a permutation in which no later element is less.\<close>

definition sort_ok :: "('a \<Rightarrow> 'a \<Rightarrow> bool) \<Rightarrow> ('a \<Rightarrow> bool) \<Rightarrow> ('a list \<Rightarrow> 'a list) \<Rightarrow> bool" where
  "sort_ok lt ok srt \<longleftrightarrow>
     (\<forall>xs. (\<forall>x\<in>set xs. ok x) \<longrightarrow> mset (srt xs) = mset xs \<and> sorted_wrt (\<lambda>a b. \<not> lt b a) (srt xs))"

lemma sort_key_ok:
  assumes "ordered_by lt eq ok kf"
  shows "sort_ok lt ok (sort_key kf)"
  unfolding sort_ok_def
proof (intro allI impI conjI)
  fix xs assume ok: "\<forall>x\<in>set xs. ok x"
  have "sorted_wrt (\<lambda>a b. kf a \<le> kf b) (sort_key kf xs)"
    using sorted_sort_key [of kf xs] by (simp add: sorted_wrt_map)
  then show "sorted_wrt (\<lambda>a b. \<not> lt b a) (sort_key kf xs)"
    by (rule sorted_wrt_mono_rel [rotated]) (use ok assms in \<open>auto simp: ordered_byD not_less\<close>)
qed simp

lemma Wrapped_sort_ok:
  assumes "ordered_by lt eq ok kf"
  shows "sort_ok (Wrapped_less_by lt eq) (\<lambda>w. ok (rec w)) (sort_key (\<lambda>w. (kf (rec w), header w)))"
  by (rule sort_key_ok [OF Wrapped_ordered [OF assms]])

text \<open>
  What \<^verbatim>\<open>std::sort\<close> and a priority queue ask of a comparison: a strict order whose incomparability is
  transitive. The wrapper's \<^verbatim>\<open>operator<\<close> breaks ties of the record by the header and is such an order; its
  \<^verbatim>\<open>operator==\<close> ignores the header, so the two are not consistent.
\<close>

definition strict_weak_order :: "('a \<Rightarrow> 'a \<Rightarrow> bool) \<Rightarrow> ('a \<Rightarrow> bool) \<Rightarrow> bool" where
  "strict_weak_order lt ok \<longleftrightarrow> (\<forall>a b c. ok a \<and> ok b \<and> ok c \<longrightarrow>
     \<not> lt a a \<and> (lt a b \<and> lt b c \<longrightarrow> lt a c) \<and>
     (\<not> lt a b \<and> \<not> lt b a \<and> \<not> lt b c \<and> \<not> lt c b \<longrightarrow> \<not> lt a c \<and> \<not> lt c a))"

definition equivalence_on :: "('a \<Rightarrow> 'a \<Rightarrow> bool) \<Rightarrow> ('a \<Rightarrow> bool) \<Rightarrow> bool" where
  "equivalence_on eq ok \<longleftrightarrow> (\<forall>a b c. ok a \<and> ok b \<and> ok c \<longrightarrow>
     eq a a \<and> (eq a b \<longrightarrow> eq b a) \<and> (eq a b \<and> eq b c \<longrightarrow> eq a c))"

lemma strict_weak_orderI:
  assumes "ordered_by lt eq ok kf"
  shows "strict_weak_order lt ok"
  unfolding strict_weak_order_def
proof (intro allI impI, elim conjE)
  fix a b c assume ok: "ok a" "ok b" "ok c"
  note conv = ordered_byD(1) [OF assms ok(1,2)] ordered_byD(1) [OF assms ok(2,1)] ordered_byD(1) [OF assms ok(2,3)]
    ordered_byD(1) [OF assms ok(3,2)] ordered_byD(1) [OF assms ok(1,3)] ordered_byD(1) [OF assms ok(3,1)] ordered_byD(1) [OF assms ok(1,1)]
  show "\<not> lt a a \<and> (lt a b \<and> lt b c \<longrightarrow> lt a c) \<and>
     (\<not> lt a b \<and> \<not> lt b a \<and> \<not> lt b c \<and> \<not> lt c b \<longrightarrow> \<not> lt a c \<and> \<not> lt c a)"
    unfolding conv by auto
qed

definition wrapper_orders :: "('r \<Rightarrow> 'r \<Rightarrow> bool) \<Rightarrow> ('r \<Rightarrow> 'r \<Rightarrow> bool) \<Rightarrow> ('r \<Rightarrow> bool) \<Rightarrow> bool" where
  "wrapper_orders lt eq ok \<longleftrightarrow>
     strict_weak_order (Wrapped_less_by lt eq) (\<lambda>w. ok (rec w)) \<and> equivalence_on (Wrapped_eq_by eq) (\<lambda>w. ok (rec w)) \<and>
     (\<forall>a b. ok (rec a) \<and> ok (rec b) \<longrightarrow>
        (\<not> Wrapped_less_by lt eq a b \<and> \<not> Wrapped_less_by lt eq b a \<longleftrightarrow> Wrapped_eq_by eq a b \<and> header a = header b) \<and>
        (Wrapped_less_by lt eq a b \<and> Wrapped_eq_by eq a b \<longleftrightarrow> eq (rec a) (rec b) \<and> header a < header b)) \<and>
     ((\<exists>r. ok r) \<longrightarrow> \<not> lawful_order (Wrapped_less_by lt eq) (Wrapped_eq_by eq) (\<lambda>w. ok (rec w)))"

lemma wrapper_ordersI:
  assumes "ordered_by lt eq ok kf"
  shows "wrapper_orders lt eq ok"
proof -
  have both: "Wrapped_less_by lt eq a b \<and> Wrapped_eq_by eq a b \<longleftrightarrow> eq (rec a) (rec b) \<and> header a < header b"
    if "ok (rec a)" "ok (rec b)" for a b
    using ordered_byD [OF assms that] by (auto simp: Wrapped_less_by_def Wrapped_eq_by_def)
  have L: "Wrapped_less_by lt eq a b \<longleftrightarrow> (kf (rec a), header a) < (kf (rec b), header b)" if "ok (rec a)" "ok (rec b)" for a b
    by (rule ordered_byD(1) [OF Wrapped_ordered [OF assms]]) (use that in simp_all)
  have E: "Wrapped_eq_by eq a b \<and> header a = header b \<longleftrightarrow> (kf (rec a), header a) = (kf (rec b), header b)"
    if "ok (rec a)" "ok (rec b)" for a b
    by (rule ordered_byD(2) [OF Wrapped_ordered [OF assms]]) (use that in simp_all)
  have neither: "\<not> Wrapped_less_by lt eq a b \<and> \<not> Wrapped_less_by lt eq b a \<longleftrightarrow> Wrapped_eq_by eq a b \<and> header a = header b"
    if "ok (rec a)" "ok (rec b)" for a b
    unfolding L [OF that] L [OF that(2,1)] E [OF that] by (metis less_irrefl linorder_neqE)
  have "\<not> lawful_order (Wrapped_less_by lt eq) (Wrapped_eq_by eq) (\<lambda>w. ok (rec w))" if r: "ok r" for r
  proof
    assume l: "lawful_order (Wrapped_less_by lt eq) (Wrapped_eq_by eq) (\<lambda>w. ok (rec w))"
    let ?a = "\<lparr>header = 0, rec = r\<rparr>" and ?b = "\<lparr>header = 1, rec = r\<rparr>"
    have "\<not> (Wrapped_less_by lt eq ?a ?b \<and> Wrapped_eq_by eq ?a ?b)"
      using l [unfolded lawful_order_def, THEN spec [of _ ?a], THEN spec [of _ ?b], THEN spec [of _ ?a]] r by simp
    moreover have "eq r r" using ordered_byD(2) [OF assms r r] by simp
    ultimately show False using both [of ?a ?b] r by simp
  qed
  moreover have "equivalence_on (Wrapped_eq_by eq) (\<lambda>w. ok (rec w))"
    unfolding equivalence_on_def Wrapped_eq_by_def
  proof (intro allI impI, elim conjE)
    fix a b c :: "'a Wrapped" assume ok: "ok (rec a)" "ok (rec b)" "ok (rec c)"
    show "eq (rec a) (rec a) \<and> (eq (rec a) (rec b) \<longrightarrow> eq (rec b) (rec a)) \<and>
        (eq (rec a) (rec b) \<and> eq (rec b) (rec c) \<longrightarrow> eq (rec a) (rec c))"
      using ordered_byD(2) [OF assms ok(1,2)] ordered_byD(2) [OF assms ok(2,1)] ordered_byD(2) [OF assms ok(2,3)]
        ordered_byD(2) [OF assms ok(1,3)] ordered_byD(2) [OF assms ok(1,1)] by simp
  qed
  ultimately show ?thesis
    using both neither strict_weak_orderI [OF Wrapped_ordered [OF assms]] unfolding wrapper_orders_def by blast
qed

text \<open>
  C26. Key-value and weighted records, string records whose length field is that of their key, and points
  of one dimension compare by a lawful order: \<^verbatim>\<open>==\<close> is an equivalence and \<^verbatim>\<open><\<close> a strict order total up to it.
  The wrapper around each of them is not lawful. Its \<^verbatim>\<open><\<close>, which breaks ties by the header, is a strict weak order
  in which exactly the entries with equal records and headers are incomparable; its \<^verbatim>\<open>==\<close> is an
  equivalence that ignores the header; and two entries with equal records and different headers are
  both \<^verbatim>\<open><\<close> and \<^verbatim>\<open>==\<close>.
\<close>

theorem record_orders_lawful:
  "lawful_order (Record_less :: ('k::linorder, 'v::linorder) Record \<Rightarrow> _) Record_eq (\<lambda>_. True) \<and>
   lawful_order (WeightedRecord_less :: ('k, 'v, 'w) WeightedRecord \<Rightarrow> _) WeightedRecord_eq (\<lambda>_. True) \<and>
   lawful_order (StringRecord_less :: 'v StringRecord \<Rightarrow> _) StringRecord_eq StringRecord_wf \<and>
   lawful_order (point_less D :: 'v list \<Rightarrow> _) (point_eq D) (\<lambda>p. length p = D) \<and>
   wrapper_orders (Record_less :: ('k, 'v) Record \<Rightarrow> _) Record_eq (\<lambda>_. True) \<and>
   wrapper_orders (WeightedRecord_less :: ('k, 'v, 'w) WeightedRecord \<Rightarrow> _) WeightedRecord_eq (\<lambda>_. True) \<and>
   wrapper_orders (StringRecord_less :: 'v StringRecord \<Rightarrow> _) StringRecord_eq StringRecord_wf \<and>
   wrapper_orders (point_less D :: 'v list \<Rightarrow> _) (point_eq D) (\<lambda>p. length p = D)"
proof (intro conjI)
qed (rule lawful_orderI [OF Record_ordered] lawful_orderI [OF WeightedRecord_ordered] lawful_orderI [OF StringRecord_ordered]
    lawful_orderI [OF point_ordered] wrapper_ordersI [OF Record_ordered] wrapper_ordersI [OF WeightedRecord_ordered]
    wrapper_ordersI [OF StringRecord_ordered] wrapper_ordersI [OF point_ordered])+

section \<open>Net multiplicity\<close>

text \<open>
  A tombstone counts \<open>-1\<close>, a record tagged as deleted counts 0 and any other record counts 1:
  this is how a range scan counts the entries of one record. The net multiplicity of a record
  in a list of entries is the sum over its entries.
\<close>

definition wt :: "'r Wrapped \<Rightarrow> int" where
  "wt w = (if is_tombstone w then -1 else if is_deleted w then 0 else 1)"

definition net :: "'r Wrapped list \<Rightarrow> 'r \<Rightarrow> int" where
  "net ws r = (\<Sum>w\<leftarrow>ws. if rec w = r then wt w else 0)"

lemma net_Nil [simp, net_simps]: "net [] = (\<lambda>_. 0)"
  by (simp add: net_def fun_eq_iff)

lemma net_Cons [net_simps]: "net (w # ws) r = (if rec w = r then wt w else 0) + net ws r"
  by (simp add: net_def)

lemma net_append [net_simps]: "net (xs @ ys) r = net xs r + net ys r"
  by (simp add: net_def)

lemma net_concat: "net (concat xss) r = (\<Sum>xs\<leftarrow>xss. net xs r)"
  by (induction xss) (simp_all add: net_append)

lemma net_mset_eq: "mset xs = mset ys \<Longrightarrow> net xs = net ys"
  unfolding net_def by (auto intro!: ext sum_list_mset_eq)

lemma wt_mask_header [simp]: "wt (mask_header w) = wt w"
  by (simp add: wt_def)

lemma wt_set_timestamp [simp]: "wt (set_timestamp ts w) = wt w"
  by (simp add: wt_def)

lemma wt_set_visible [simp]: "wt (set_visible w) = wt w"
  by (simp add: wt_def)

lemma net_notin: "r \<notin> rec ` set ws \<Longrightarrow> net ws r = 0"
  by (induction ws) (auto simp: net_Cons)

end
