(* ===== verification/DE_Heap.thy ===== *)
theory DE_Heap
  imports DE_Record
begin

text \<open>
  Priority queues and the k-way merge they drive. The program uses two min-queues:
  \<^verbatim>\<open>std::priority_queue\<close> with \<^verbatim>\<open>std::greater\<close> (the external merge sort and the range scan) and
  \<^verbatim>\<open>psudb::PriorityQueue\<close> (sorted merges and range queries). Both promise only that the element
  taken is a least one; which of several equal elements comes first is left open. The model
  keeps the queue as a list and takes the choice as a parameter \<open>pick\<close>; the locale
  \<open>min_pick\<close> states what a choice must satisfy.
\<close>

section \<open>A queue with an open choice\<close>

definition top_idx :: "('e list \<Rightarrow> nat) \<Rightarrow> 'e list \<Rightarrow> nat" where
  "top_idx pick q = (if pick q < length q then pick q else 0)"

definition pq_peek :: "('e list \<Rightarrow> nat) \<Rightarrow> 'e list \<Rightarrow> 'e" where
  "pq_peek pick q = q ! top_idx pick q"

definition pq_pop :: "('e list \<Rightarrow> nat) \<Rightarrow> 'e list \<Rightarrow> 'e list" where
  "pq_pop pick q = remove_nth (top_idx pick q) q"

definition pq_push :: "'e \<Rightarrow> 'e list \<Rightarrow> 'e list" where
  "pq_push e q = e # q"

text \<open>The first least element of the list by a key, a choice that every queue may make.\<close>

fun first_min_from :: "('e \<Rightarrow> 'k::linorder) \<Rightarrow> 'e list \<Rightarrow> nat \<Rightarrow> 'e \<Rightarrow> nat \<Rightarrow> nat" where
  "first_min_from ky [] i m idx = idx"
| "first_min_from ky (x # xs) i m idx =
     (if ky x < ky m then first_min_from ky xs (Suc i) x i else first_min_from ky xs (Suc i) m idx)"

definition first_min :: "('e \<Rightarrow> 'k::linorder) \<Rightarrow> 'e list \<Rightarrow> nat" where
  "first_min ky q = (case q of [] \<Rightarrow> 0 | x # xs \<Rightarrow> first_min_from ky xs 1 x 0)"

lemma top_idx_less: "q \<noteq> [] \<Longrightarrow> top_idx pick q < length q"
  by (simp add: top_idx_def)

lemma pq_peek_in: "q \<noteq> [] \<Longrightarrow> pq_peek pick q \<in> set q"
  by (simp add: pq_peek_def top_idx_less)

lemma mset_pq_pop:
  "q \<noteq> [] \<Longrightarrow> mset q = add_mset (pq_peek pick q) (mset (pq_pop pick q))"
  by (simp add: pq_peek_def pq_pop_def mset_remove_nth top_idx_less flip: mset_remove_nth)

lemma mset_pq_push: "mset (pq_push e q) = add_mset e (mset q)"
  by (simp add: pq_push_def)

lemma length_pq_pop [simp]: "q \<noteq> [] \<Longrightarrow> length (pq_pop pick q) = length q - 1"
  by (simp add: pq_pop_def top_idx_less)

lemma length_pq_push [simp]: "length (pq_push e q) = Suc (length q)"
  by (simp add: pq_push_def)

lemma pq_push_not_Nil [simp]: "pq_push e q \<noteq> []"
  by (simp add: pq_push_def)

locale min_pick =
  fixes ky :: "'e \<Rightarrow> 'k::linorder" and pick :: "'e list \<Rightarrow> nat"
  assumes pick_in: "q \<noteq> [] \<Longrightarrow> pick q < length q"
    and pick_min: "q \<noteq> [] \<Longrightarrow> e \<in> set q \<Longrightarrow> ky (q ! pick q) \<le> ky e"
begin

lemma peek_min: "e \<in> set q \<Longrightarrow> ky (pq_peek pick q) \<le> ky e"
  using pick_in [of q] pick_min [of q e] by (cases "q = []") (auto simp: pq_peek_def top_idx_def)

lemma peek_min_mset: "e \<in># mset q \<Longrightarrow> ky (pq_peek pick q) \<le> ky e"
  by (simp add: peek_min)

end

lemma first_min_from_spec:
  assumes "all = pre @ xs" and "i = length pre" and "idx < i" and "m = all ! idx"
    and "\<forall>y\<in>set pre. ky m \<le> ky y"
  shows "first_min_from ky xs i m idx < length all \<and>
    (\<forall>y\<in>set all. ky (all ! first_min_from ky xs i m idx) \<le> ky y)"
  using assms
proof (induction ky xs i m idx arbitrary: pre rule: first_min_from.induct)
  case (2 ky x xs i m idx)
  have i: "all ! i = x" "i < length all" using "2.prems" by (simp_all add: nth_append)
  show ?case
  proof (cases "ky x < ky m")
    case True
    then have "\<forall>y\<in>set (pre @ [x]). ky x \<le> ky y" using "2.prems" by fastforce
    with "2.prems" i have "first_min_from ky xs (Suc i) x i < length all \<and>
        (\<forall>y\<in>set all. ky (all ! first_min_from ky xs (Suc i) x i) \<le> ky y)"
      by (intro "2.IH"(1) [OF True, of "pre @ [x]"]) auto
    then show ?thesis unfolding first_min_from.simps if_P [OF True] .
  next
    case False
    with "2.prems" have "\<forall>y\<in>set (pre @ [x]). ky m \<le> ky y" by auto
    with "2.prems" have "first_min_from ky xs (Suc i) m idx < length all \<and>
        (\<forall>y\<in>set all. ky (all ! first_min_from ky xs (Suc i) m idx) \<le> ky y)"
      by (intro "2.IH"(2) [OF False, of "pre @ [x]"]) auto
    then show ?thesis unfolding first_min_from.simps if_not_P [OF False] .
  qed
qed auto

interpretation first_min: min_pick ky "first_min ky" for ky :: "'e \<Rightarrow> 'k::linorder"
proof
  fix q :: "'e list" and e
  assume "q \<noteq> []"
  then obtain x xs where q: "q = x # xs" by (cases q) auto
  have *: "first_min ky q < length q \<and> (\<forall>y\<in>set q. ky (q ! first_min ky q) \<le> ky y)"
    unfolding first_min_def q list.case
    by (rule first_min_from_spec [of _ "[x]"]) simp_all
  then show "first_min ky q < length q" by simp
  from * show "e \<in> set q \<Longrightarrow> ky (q ! first_min ky q) \<le> ky e" by blast
qed

section \<open>Runs and their heads\<close>

text \<open>
  A k-way merge holds, for each source, the records not yet taken (a run), and its queue holds
  the head of every non-empty run with the number of its source. Taking an entry from source
  \<open>i\<close> replaces run \<open>i\<close> by its tail and queues the next head, if there is one.
\<close>

fun heads_from :: "nat \<Rightarrow> 'a list list \<Rightarrow> ('a \<times> nat) multiset" where
  "heads_from n [] = {#}"
| "heads_from n (r # rs) = (case r of [] \<Rightarrow> {#} | x # _ \<Rightarrow> {#(x, n)#}) + heads_from (Suc n) rs"

abbreviation heads :: "'a list list \<Rightarrow> ('a \<times> nat) multiset" where
  "heads rs \<equiv> heads_from 0 rs"

definition head_of :: "nat \<Rightarrow> 'a list \<Rightarrow> ('a \<times> nat) multiset" where
  "head_of i r = (case r of [] \<Rightarrow> {#} | x # _ \<Rightarrow> {#(x, i)#})"

lemma head_of_simps [simp]:
  "head_of i [] = {#}"
  "head_of i (x # xs) = {#(x, i)#}"
  by (simp_all add: head_of_def)

lemma heads_from_update:
  assumes "i < length rs"
  shows "heads_from n (rs[i := r]) + head_of (n + i) (rs ! i) = head_of (n + i) r + heads_from n rs"
  using assms
proof (induction rs arbitrary: i n)
  case (Cons a rs)
  show ?case
  proof (cases i)
    case 0
    then show ?thesis by (simp add: head_of_def ac_simps)
  next
    case (Suc j)
    with Cons.prems Cons.IH [of j "Suc n"] show ?thesis
      by (simp add: union_assoc)
  qed
qed simp

lemma in_heads_from:
  "(x, k) \<in># heads_from n rs \<longleftrightarrow> n \<le> k \<and> k < n + length rs \<and> rs ! (k - n) \<noteq> [] \<and> x = hd (rs ! (k - n))"
proof (induction rs arbitrary: n)
  case (Cons r rs)
  show ?case
  proof (cases "k = n")
    case True
    with Cons.IH [of "Suc n"] show ?thesis by (auto split: list.splits)
  next
    case False
    then have "k - n = Suc (k - Suc n)" if "n \<le> k" using that by simp
    with False Cons.IH [of "Suc n"] show ?thesis
      by (auto simp: Suc_le_eq split: list.splits)
  qed
qed simp

lemma in_heads:
  "(x, k) \<in># heads rs \<longleftrightarrow> k < length rs \<and> rs ! k \<noteq> [] \<and> x = hd (rs ! k)"
  by (simp add: in_heads_from)

lemma heads_take:
  assumes "k < length rs" and "rs ! k = x # xs"
  shows "heads (rs[k := xs]) + {#(x, k)#} = head_of k xs + heads rs"
  using heads_from_update [OF assms(1), of 0 xs] assms(2) by simp

lemma heads_empty_iff: "heads_from n rs = {#} \<longleftrightarrow> concat rs = []"
  by (induction rs arbitrary: n) (auto split: list.splits)

lemma mset_concat_take:
  assumes "k < length rs" and "rs ! k = x # xs"
  shows "mset (concat rs) = add_mset x (mset (concat (rs[k := xs])))"
  using assms
proof (induction rs arbitrary: k)
  case (Cons r rs)
  then show ?case by (cases k) auto
qed simp

text \<open>In sorted runs a least head is least among everything that is left.\<close>

lemma heads_min:
  assumes sorted: "\<forall>r\<in>set rs. sorted_wrt (\<lambda>a b. ky a \<le> (ky b :: 'k::linorder)) r"
    and min: "\<And>e. e \<in># heads rs \<Longrightarrow> ky x \<le> ky (fst e)"
    and y: "y \<in> set (concat rs)"
  shows "ky x \<le> ky y"
proof -
  from y obtain r where r: "r \<in> set rs" "y \<in> set r" by auto
  from r(1) obtain k where k: "k < length rs" "rs ! k = r" by (auto simp: in_set_conv_nth)
  with r have ne: "rs ! k \<noteq> []" by auto
  then have "(hd (rs ! k), k) \<in># heads rs" using k by (simp add: in_heads)
  then have "ky x \<le> ky (hd r)" using min k by fastforce
  also have "ky (hd r) \<le> ky y" using sorted r k ne by (cases r) auto
  finally show ?thesis .
qed

end
