(* ===== verification/DE_View.thy ===== *)
theory DE_View
  imports DE_Record
begin

text \<open>
  The view of the mutable buffer that queries, flushes and deletes work on
  (\<^verbatim>\<open>include/framework/structure/BufferView.h\<close>): a window \<open>[head, tail)\<close> of logical positions
  over the ring array, with the physical positions \<open>start\<close> and \<open>stop\<close> of its ends. The section
  at the end relates each operation to the list of records the view stands for.

  The tombstone filter is \<^verbatim>\<open>psudb::BloomFilter\<close>, which is not part of the sources: its
  operations are a parameter, \<open>bloom_ok\<close> states its documented guarantee (no false negatives).
\<close>

section \<open>The bloom filter interface\<close>

record ('f, 'r) bloom_ops =
  bf_insert :: "'r \<Rightarrow> 'f \<Rightarrow> 'f"
  bf_lookup :: "'f \<Rightarrow> 'r \<Rightarrow> bool"
  bf_clear :: "'f \<Rightarrow> 'f"

definition bloom_ok :: "('f, 'r) bloom_ops \<Rightarrow> bool" where
  "bloom_ok B \<longleftrightarrow> (\<forall>f r. bf_lookup B (bf_insert B r f) r) \<and>
     (\<forall>f r s. bf_lookup B f s \<longrightarrow> bf_lookup B (bf_insert B r f) s)"

text \<open>A filter that keeps the inserted records themselves: an instance of the interface.\<close>

definition list_bloom :: "('r list, 'r) bloom_ops" where
  "list_bloom = \<lparr>bf_insert = (#), bf_lookup = (\<lambda>f r. r \<in> set f), bf_clear = (\<lambda>_. [])\<rparr>"

lemma list_bloom_ok: "bloom_ok list_bloom"
  by (simp add: bloom_ok_def list_bloom_def)

section \<open>The view\<close>

record ('r, 'f) BufferView =
  v_data :: "'r Wrapped list"
  v_head :: nat
  v_tail :: nat
  v_start :: nat
  v_stop :: nat
  v_cap :: nat
  v_ts_cnt :: nat
  v_filter :: "'f option"
  v_active :: bool

definition BufferView_new ::
    "'r Wrapped list \<Rightarrow> nat \<Rightarrow> nat \<Rightarrow> nat \<Rightarrow> nat \<Rightarrow> 'f option \<Rightarrow> ('r, 'f) BufferView" where
  "BufferView_new data cap head tail tscnt bf =
     \<lparr>v_data = data, v_head = head, v_tail = tail, v_start = head mod cap, v_stop = tail mod cap,
      v_cap = cap, v_ts_cnt = tscnt, v_filter = bf, v_active = True\<rparr>"

text \<open>The move constructor: the new view, and the empty, inactive husk that is left behind.\<close>

definition BufferView_move ::
    "('r, 'f) BufferView \<Rightarrow> ('r, 'f) BufferView \<times> ('r, 'f) BufferView" where
  "BufferView_move other =
     (other,
      \<lparr>v_data = [], v_head = 0, v_tail = 0, v_start = 0, v_stop = 0, v_cap = 0, v_ts_cnt = 0,
       v_filter = None, v_active = False\<rparr>)"

definition view_record_count :: "('r, 'f) BufferView \<Rightarrow> nat" where
  "view_record_count v = sz_sub (v_tail v) (v_head v)"

definition view_tombstone_count :: "('r, 'f) BufferView \<Rightarrow> nat" where
  "view_tombstone_count v = v_ts_cnt v"

definition to_idx :: "('r, 'f) BufferView \<Rightarrow> nat \<Rightarrow> nat res" where
  "to_idx v i =
     (let idx = (if v_start v + i \<ge> v_cap v then i - (v_cap v - v_start v) else v_start v + i)
      in assertE (idx < v_cap v) (Inr idx))"

definition view_get :: "('r, 'f) BufferView \<Rightarrow> nat \<Rightarrow> 'r Wrapped res" where
  "view_get v i = bindE (to_idx v i) (\<lambda>idx. Inr (v_data v ! idx))"

function check_tombstone_from :: "'r \<Rightarrow> ('r, 'f) BufferView \<Rightarrow> nat \<Rightarrow> bool res" where
  "check_tombstone_from r v i =
     (if i < view_record_count v then
        bindE (view_get v i) (\<lambda>w.
          if rec w = r \<and> is_tombstone w then Inr True else check_tombstone_from r v (Suc i))
      else Inr False)"
  by pat_completeness auto
termination
  by (relation "measure (\<lambda>(r, v, i). view_record_count v - i)") auto

declare check_tombstone_from.simps [simp del]

definition view_check_tombstone :: "('f, 'r) bloom_ops \<Rightarrow> 'r \<Rightarrow> ('r, 'f) BufferView \<Rightarrow> bool res" where
  "view_check_tombstone B r v =
     (case v_filter v of
        Some f \<Rightarrow> (if \<not> bf_lookup B f r then Inr False else check_tombstone_from r v 0)
      | None \<Rightarrow> check_tombstone_from r v 0)"

text \<open>The loop \<^verbatim>\<open>for (i = lo; i < hi; i++)\<close> of \<^verbatim>\<open>delete_record\<close>: tag the first match.\<close>

function mark_first :: "'r \<Rightarrow> 'r Wrapped list \<Rightarrow> nat \<Rightarrow> nat \<Rightarrow> 'r Wrapped list option" where
  "mark_first r data i hi =
     (if i < hi then
        (if rec (data ! i) = r then Some (data[i := set_delete (data ! i)])
         else mark_first r data (Suc i) hi)
      else None)"
  by pat_completeness auto
termination
  by (relation "measure (\<lambda>(r, data, i, hi). hi - i)") auto

declare mark_first.simps [simp del]

definition view_delete_record :: "'r \<Rightarrow> ('r, 'f) BufferView \<Rightarrow> bool \<times> ('r, 'f) BufferView" where
  "view_delete_record r v =
     (let res =
        (if v_start v < v_stop v then mark_first r (v_data v) (v_start v) (v_stop v)
         else (case mark_first r (v_data v) (v_start v) (v_cap v) of
                 Some d \<Rightarrow> Some d
               | None \<Rightarrow> mark_first r (v_data v) 0 (v_stop v)))
      in (case res of Some d \<Rightarrow> (True, v\<lparr>v_data := d\<rparr>) | None \<Rightarrow> (False, v)))"

text \<open>\<^verbatim>\<open>memcpy\<close> of \<open>n\<close> records from a position of the array; past its end there is nothing to copy.\<close>

definition memcpy_from :: "'a list \<Rightarrow> nat \<Rightarrow> nat \<Rightarrow> 'a list res" where
  "memcpy_from data off n =
     (if off + n \<le> length data then Inr (take n (drop off data)) else Inl OutOfBounds)"

definition copy_to_buffer :: "('r, 'f) BufferView \<Rightarrow> 'r Wrapped list res" where
  "copy_to_buffer v =
     (if v_start v > v_stop v then
        (let split_idx = v_cap v - v_start v in
         bindE (memcpy_from (v_data v) (v_start v) split_idx) (\<lambda>xs.
         bindE (memcpy_from (v_data v) 0 (v_stop v)) (\<lambda>ys. Inr (xs @ ys))))
      else memcpy_from (v_data v) (v_start v) (view_record_count v))"

section \<open>The list a view stands for\<close>

definition ring_list :: "'a list \<Rightarrow> nat \<Rightarrow> nat \<Rightarrow> nat \<Rightarrow> 'a list" where
  "ring_list data cap head tail = map (\<lambda>i. data ! (i mod cap)) [head..<tail]"

definition view_list :: "('r, 'f) BufferView \<Rightarrow> 'r Wrapped list" where
  "view_list v = ring_list (v_data v) (v_cap v) (v_head v) (v_tail v)"

definition view_wf :: "('r, 'f) BufferView \<Rightarrow> bool" where
  "view_wf v \<longleftrightarrow> v_cap v = length (v_data v) \<and> 0 < v_cap v \<and>
     v_start v = v_head v mod v_cap v \<and> v_stop v = v_tail v mod v_cap v \<and>
     v_head v \<le> v_tail v \<and> v_tail v - v_head v < v_cap v"

lemma length_ring_list [simp]: "length (ring_list data cap head tail) = tail - head"
  by (simp add: ring_list_def)

lemma nth_ring_list: "i < tail - head \<Longrightarrow> ring_list data cap head tail ! i = data ! ((head + i) mod cap)"
  by (simp add: ring_list_def)

lemma ring_list_snoc:
  "head \<le> tail \<Longrightarrow> ring_list data cap head (Suc tail) = ring_list data cap head tail @ [data ! (tail mod cap)]"
  by (simp add: ring_list_def)

lemma ring_list_append:
  "head \<le> mid \<Longrightarrow> mid \<le> tail \<Longrightarrow>
   ring_list data cap head tail = ring_list data cap head mid @ ring_list data cap mid tail"
  unfolding ring_list_def by (metis map_append le_Suc_ex upt_add_eq_append)

lemma view_wfD:
  assumes "view_wf v"
  shows "v_cap v = length (v_data v)" "0 < v_cap v" "v_head v \<le> v_tail v"
    "v_tail v - v_head v < v_cap v" "v_start v = v_head v mod v_cap v" "v_stop v = v_tail v mod v_cap v"
  using assms unfolding view_wf_def by blast+

lemma view_count [simp]: "view_wf v \<Longrightarrow> view_record_count v = v_tail v - v_head v"
  by (simp add: view_record_count_def view_wf_def)

lemma length_view_list [simp]: "view_wf v \<Longrightarrow> length (view_list v) = view_record_count v"
  by (simp add: view_list_def)

lemma mod_add_wrap:
  fixes c :: nat
  assumes "i < c" and "0 < c"
  shows "(h + i) mod c = (if c \<le> h mod c + i then h mod c + i - c else h mod c + i)"
proof -
  have "h mod c < c" using assms(2) by simp
  with assms(1) have "h mod c + i - c < c" by arith
  moreover have "(h + i) mod c = (h mod c + i) mod c" by (simp add: mod_add_left_eq)
  ultimately show ?thesis by (simp add: le_mod_geq)
qed

lemma to_idx_wf:
  assumes "view_wf v" and "i < v_cap v"
  shows "to_idx v i = Inr ((v_head v + i) mod v_cap v)"
proof -
  note c = view_wfD(2,5) [OF assms(1)]
  define s where "s = v_head v mod v_cap v"
  have s: "s < v_cap v" "v_start v = s" using c by (simp_all add: s_def)
  have "(v_head v + i) mod v_cap v = (if v_cap v \<le> s + i then s + i - v_cap v else s + i)"
    using mod_add_wrap [OF assms(2) c(1)] by (simp add: s_def)
  moreover have "s + i - v_cap v < v_cap v" "i - (v_cap v - s) = s + i - v_cap v"
    using s assms(2) by arith+
  ultimately show ?thesis using s by (simp add: to_idx_def)
qed

lemma view_get_wf:
  assumes "view_wf v" and "i < view_record_count v"
  shows "view_get v i = Inr (view_list v ! i)"
proof -
  have "i < v_cap v" using assms(2) view_wfD(4) [OF assms(1)] view_count [OF assms(1)] by simp
  with assms show ?thesis
    by (simp add: view_get_def to_idx_wf view_list_def nth_ring_list)
qed

lemma check_tombstone_from_wf:
  assumes "view_wf v"
  shows "check_tombstone_from r v i =
    Inr (\<exists>w\<in>set (drop i (view_list v)). rec w = r \<and> is_tombstone w)"
  using assms
proof (induction r v i rule: check_tombstone_from.induct)
  case (1 r v i)
  show ?case
  proof (cases "i < view_record_count v")
    case True
    have "drop i (view_list v) = view_list v ! i # drop (Suc i) (view_list v)"
      using True 1 by (simp add: Cons_nth_drop_Suc)
    with True 1 show ?thesis
      by (subst check_tombstone_from.simps) (auto simp: view_get_wf simp del: view_count)
  next
    case False
    with 1 show ?thesis by (subst check_tombstone_from.simps) simp
  qed
qed


lemma tail_mod_cases:
  fixes cap :: nat
  assumes "0 < cap" and "head \<le> tail" and "tail - head < cap"
  obtains (straight) "tail mod cap = head mod cap + (tail - head)" "head mod cap + (tail - head) < cap"
  | (wrapped) "tail mod cap + cap = head mod cap + (tail - head)" "tail mod cap < head mod cap"
proof (cases "cap \<le> head mod cap + (tail - head)")
  case True
  then have "tail mod cap + cap = head mod cap + (tail - head)"
    using mod_add_wrap [OF assms(3,1), of head] assms(2) by simp
  with assms(3) show ?thesis by (intro wrapped) simp_all
next
  case False
  then show ?thesis using mod_add_wrap [OF assms(3,1), of head] assms(2) by (intro straight) simp_all
qed

lemma ring_list_straight:
  assumes "cap = length data" and "head mod cap + (tail - head) \<le> cap" and "0 < cap"
  shows "ring_list data cap head tail = take (tail - head) (drop (head mod cap) data)"
proof (rule nth_equalityI)
  fix i assume "i < length (ring_list data cap head tail)"
  then have i: "i < tail - head" by simp
  have "i < cap" "\<not> cap \<le> head mod cap + i" using i assms(2) by linarith+
  then have "(head + i) mod cap = head mod cap + i"
    using mod_add_wrap [OF _ assms(3), of i head] by simp
  with i assms show "ring_list data cap head tail ! i = take (tail - head) (drop (head mod cap) data) ! i"
    by (simp add: nth_ring_list)
qed (use assms in simp)

lemma ring_list_wrapped:
  assumes cap: "cap = length data" "0 < cap" and n: "tail - head < cap"
    and t: "tail mod cap + cap = head mod cap + (tail - head)"
  shows "ring_list data cap head tail = drop (head mod cap) data @ take (tail mod cap) data"
proof -
  define s where "s = head mod cap"
  define t' where "t' = tail mod cap"
  have st: "s < cap" "t' + cap = s + (tail - head)" using cap t by (simp_all add: s_def t'_def)
  have "ring_list data cap head tail = drop s data @ take t' data"
  proof (rule nth_equalityI)
    fix i assume "i < length (ring_list data cap head tail)"
    then have i: "i < tail - head" "i < cap" using n by simp_all
    have "(head + i) mod cap = (if cap \<le> s + i then s + i - cap else s + i)"
      using mod_add_wrap [OF i(2) cap(2)] by (simp add: s_def)
    moreover have "i - (cap - s) = s + i - cap" "i - (cap - s) < t'" if "cap \<le> s + i"
      using that st i by arith+
    ultimately show "ring_list data cap head tail ! i = (drop s data @ take t' data) ! i"
      using i st cap by (auto simp: nth_ring_list nth_append)
  qed (use st cap n in auto)
  then show ?thesis by (simp add: s_def t'_def)
qed

lemma ring_list_update:
  assumes "cap = length data" and "tail - head \<le> cap" and "i < tail - head"
  shows "ring_list (data[(head + i) mod cap := x]) cap head tail = (ring_list data cap head tail)[i := x]"
proof (rule nth_equalityI)
  have cap: "0 < cap" using assms by linarith
  then have h: "head mod cap < cap" by simp
  fix j assume "j < length (ring_list (data[(head + i) mod cap := x]) cap head tail)"
  then have j: "j < tail - head" by simp
  have "(head + j) mod cap = (head + i) mod cap \<longleftrightarrow> j = i"
    using mod_add_wrap [of j cap head] mod_add_wrap [of i cap head] h j assms(2,3) cap
    by (auto split: if_splits)
  moreover have "(head + i) mod cap < length data" using cap assms(1) by simp
  ultimately show "ring_list (data[(head + i) mod cap := x]) cap head tail ! j = (ring_list data cap head tail)[i := x] ! j"
    using j assms by (auto simp: nth_ring_list nth_list_update)
qed simp

lemma copy_to_buffer_ok:
  assumes "view_wf v"
  shows "copy_to_buffer v = Inr (view_list v)"
proof -
  note wf = view_wfD [OF assms]
  have st: "v_start v < v_cap v" "v_stop v < v_cap v" using wf(2,5,6) by simp_all
  show ?thesis
  proof (rule tail_mod_cases [OF wf(2-4)])
    assume "v_tail v mod v_cap v = v_head v mod v_cap v + (v_tail v - v_head v)"
      and b: "v_head v mod v_cap v + (v_tail v - v_head v) < v_cap v"
    then have "v_start v \<le> v_stop v" using wf(5,6) by simp
    with b wf assms ring_list_straight [OF wf(1) _ wf(2), of "v_head v" "v_tail v"] show ?thesis
      by (simp add: copy_to_buffer_def memcpy_from_def view_list_def)
  next
    assume t: "v_tail v mod v_cap v + v_cap v = v_head v mod v_cap v + (v_tail v - v_head v)"
      and "v_tail v mod v_cap v < v_head v mod v_cap v"
    then have "v_stop v < v_start v" using wf(5,6) by simp
    with st wf ring_list_wrapped [OF wf(1,2,4) t] show ?thesis
      by (simp add: copy_to_buffer_def memcpy_from_def view_list_def Let_def)
  qed
qed

text \<open>
  C15. Copying a view out in one or two \<^verbatim>\<open>memcpy\<close> calls yields exactly the records of the view in
  their logical order, and never reads past the ring array.
\<close>

theorem copy_to_buffer_correct:
  assumes "view_wf v"
  shows "copy_to_buffer v = Inr (view_list v) \<and>
    (\<forall>i < view_record_count v. view_get v i = Inr (view_list v ! i))"
  using assms copy_to_buffer_ok [OF assms] by (simp add: view_get_wf del: view_count)

theorem copy_to_buffer_correct_witness:
  "copy_to_buffer (BufferView_new [Wrapped.make 0 (7::nat), Wrapped.make 0 8, Wrapped.make 0 9] 3 2 4 0
      (None :: unit option)) = Inr [Wrapped.make 0 9, Wrapped.make 0 7]"
proof -
  let ?v = "BufferView_new [Wrapped.make 0 (7::nat), Wrapped.make 0 8, Wrapped.make 0 9] 3 2 4 0
      (None :: unit option)"
  have "view_wf ?v" by (simp add: view_wf_def BufferView_new_def)
  from copy_to_buffer_correct [OF this] have "copy_to_buffer ?v = Inr (view_list ?v)" ..
  also have "view_list ?v = [Wrapped.make 0 9, Wrapped.make 0 7]"
    by (simp add: view_list_def ring_list_def BufferView_new_def upt_rec)
  finally show ?thesis .
qed

section \<open>Deleting through a view\<close>

text \<open>Tag the first record of a list that equals the argument.\<close>

definition tag_first :: "'r \<Rightarrow> 'r Wrapped list \<Rightarrow> bool \<times> 'r Wrapped list" where
  "tag_first r ws =
     (let k = first_pos (\<lambda>w. rec w = r) ws in
      if k < length ws then (True, ws[k := set_delete (ws ! k)]) else (False, ws))"

lemma mark_first_slice:
  assumes "i \<le> hi" and "hi \<le> length data"
  shows "mark_first r data i hi =
    (let k = first_pos (\<lambda>w. rec w = r) (take (hi - i) (drop i data)) in
     if k < hi - i then Some (data[i + k := set_delete (data ! (i + k))]) else None)"
  using assms
proof (induction r data i hi rule: mark_first.induct)
  case (1 r data i hi)
  show ?case
  proof (cases "i < hi")
    case True
    then have "drop i data = data ! i # drop (Suc i) data" and n: "hi - i = Suc (hi - Suc i)"
      using "1.prems" by (simp_all add: Cons_nth_drop_Suc)
    then have tk: "take (hi - i) (drop i data) = data ! i # take (hi - Suc i) (drop (Suc i) data)"
      by simp
    show ?thesis
    proof (cases "rec (data ! i) = r")
      case False
      with True 1 have "mark_first r data (Suc i) hi =
        (let k = first_pos (\<lambda>w. rec w = r) (take (hi - Suc i) (drop (Suc i) data)) in
         if k < hi - Suc i then Some (data[Suc i + k := set_delete (data ! (Suc i + k))]) else None)"
        by simp
      with True False show ?thesis
        unfolding tk mark_first.simps [of r data i] by (simp add: Let_def n)
    qed (use True in \<open>simp add: tk mark_first.simps [of r data i] Let_def\<close>)
  next
    case False
    with 1 show ?thesis by (subst mark_first.simps) (simp add: Let_def)
  qed
qed

lemma first_pos_append:
  "first_pos p (xs @ ys) =
     (if first_pos p xs < length xs then first_pos p xs else length xs + first_pos p ys)"
  by (induction xs) auto

lemma mark_first_None_iff:
  assumes "i \<le> hi" and "hi \<le> length data"
  shows "mark_first r data i hi = None \<longleftrightarrow> r \<notin> rec ` set (take (hi - i) (drop i data))"
proof -
  let ?xs = "take (hi - i) (drop i data)"
  have "length ?xs = hi - i" using assms by simp
  moreover have "first_pos (\<lambda>w. rec w = r) ?xs < length ?xs \<longleftrightarrow> (\<exists>w\<in>set ?xs. rec w = r)"
    by (rule first_pos_less_iff)
  ultimately show ?thesis
    using mark_first_slice [OF assms, of r] by (auto simp: Let_def)
qed

lemma view_delete_phys:
  assumes wf: "view_wf v" and ne: "0 < view_record_count v"
  shows "view_delete_record r v =
    (let k = first_pos (\<lambda>w. rec w = r) (view_list v); p = (v_head v + k) mod v_cap v in
     if k < view_record_count v
     then (True, v\<lparr>v_data := (v_data v)[p := set_delete (v_data v ! p)]\<rparr>) else (False, v))"
proof -
  note w = view_wfD [OF wf]
  define h where "h = v_head v mod v_cap v"
  define n where "n = v_tail v - v_head v"
  let ?c = "v_cap v" and ?d = "v_data v" and ?k = "first_pos (\<lambda>w. rec w = r) (view_list v)"
  have hn: "h < ?c" "n < ?c" "0 < n" "v_start v = h" "view_record_count v = n"
    using w ne wf by (simp_all add: h_def n_def)
  have pk: "(v_head v + k) mod ?c = (if ?c \<le> h + k then h + k - ?c else h + k)" if "k < n" for k
    using mod_add_wrap [of k ?c "v_head v"] that hn by (simp add: h_def)
  show ?thesis
  proof (rule tail_mod_cases [OF w(2-4)])
    assume t: "v_tail v mod ?c = v_head v mod ?c + (v_tail v - v_head v)"
      and b: "v_head v mod ?c + (v_tail v - v_head v) < ?c"
    have stop: "v_stop v = h + n" "h + n < ?c" using t b w(6) by (simp_all add: h_def n_def)
    have "view_list v = take n (drop h ?d)"
      using ring_list_straight [OF w(1) _ w(2)] b by (simp add: view_list_def h_def n_def)
    then have "mark_first r ?d h (h + n) =
        (if ?k < n then Some (?d[h + ?k := set_delete (?d ! (h + ?k))]) else None)"
      using mark_first_slice [of h "h + n" ?d r] stop w(1) by (simp add: Let_def)
    with hn stop pk [of ?k] show ?thesis by (simp add: view_delete_record_def Let_def)
  next
    assume t: "v_tail v mod ?c + ?c = v_head v mod ?c + (v_tail v - v_head v)"
      and b: "v_tail v mod ?c < v_head v mod ?c"
    have stop: "v_stop v + ?c = h + n" "v_stop v < h" using t b w(6) by (simp_all add: h_def n_def)
    have vl: "view_list v = drop h ?d @ take (v_stop v) ?d"
      using ring_list_wrapped [OF w(1,2,4) t] w(6) by (simp add: view_list_def h_def)
    have "mark_first r ?d h ?c = (let k = first_pos (\<lambda>w. rec w = r) (drop h ?d) in
        if k < ?c - h then Some (?d[h + k := set_delete (?d ! (h + k))]) else None)"
      using mark_first_slice [of h ?c ?d r] hn w(1) by simp
    moreover have "mark_first r ?d 0 (v_stop v) = (let k = first_pos (\<lambda>w. rec w = r) (take (v_stop v) ?d) in
        if k < v_stop v then Some (?d[k := set_delete (?d ! k)]) else None)"
      using mark_first_slice [of 0 "v_stop v" ?d r] stop hn w(1) by (simp add: Let_def)
    ultimately show ?thesis
      using hn stop pk [of ?k] w(1) by (auto simp: view_delete_record_def Let_def vl first_pos_append)
  qed
qed

text \<open>
  On a view that holds records, \<^verbatim>\<open>delete_record\<close> tags the first matching record of the
  view (in insertion order) and no other, and reports whether there was one.
\<close>

theorem view_delete_record_correct:
  assumes "view_wf v" and "0 < view_record_count v"
  shows "view_delete_record r v = (b, v') \<Longrightarrow>
    view_wf v' \<and> (b, view_list v') = tag_first r (view_list v) \<and> length (v_data v') = length (v_data v)"
proof -
  note w = view_wfD [OF assms(1)]
  let ?k = "first_pos (\<lambda>w. rec w = r) (view_list v)"
  let ?p = "(v_head v + ?k) mod v_cap v"
  assume eq: "view_delete_record r v = (b, v')"
  show ?thesis
  proof (cases "?k < view_record_count v")
    case True
    have "v' = v\<lparr>v_data := (v_data v)[?p := set_delete (v_data v ! ?p)]\<rparr>" "b = True"
      using eq True view_delete_phys [OF assms, of r] by (simp_all add: Let_def)
    moreover have "ring_list ((v_data v)[?p := x]) (v_cap v) (v_head v) (v_tail v) = (view_list v)[?k := x]" for x
      using ring_list_update [OF w(1), of "v_tail v" "v_head v" ?k x] True w(4) assms(1)
      by (simp add: view_list_def)
    moreover have "v_data v ! ?p = view_list v ! ?k"
      using True assms(1) by (simp add: view_list_def nth_ring_list)
    ultimately show ?thesis
      using True assms(1) by (auto simp: view_list_def tag_first_def Let_def view_wf_def)
  next
    case False
    then show ?thesis
      using eq view_delete_phys [OF assms, of r] assms(1) by (auto simp: tag_first_def Let_def)
  qed
qed

theorem view_delete_record_correct_witness:
  "tag_first 7 [\<lparr>header = 4, rec = 9\<rparr>, \<lparr>header = 4, rec = 7\<rparr>] =
     (True, [\<lparr>header = 4, rec = 9\<rparr>, \<lparr>header = 6, rec = (7::nat)\<rparr>])"
proof -
  let ?v = "BufferView_new [\<lparr>header = 4, rec = 7\<rparr>, \<lparr>header = 4, rec = 8\<rparr>, \<lparr>header = 4, rec = 9\<rparr>] 3 2 4 0
      (None :: unit option) :: (nat, unit) BufferView"
  let ?w = "BufferView_new [\<lparr>header = 6, rec = 7\<rparr>, \<lparr>header = 4, rec = 8\<rparr>, \<lparr>header = 4, rec = 9\<rparr>] 3 2 4 0
      (None :: unit option) :: (nat, unit) BufferView"
  have wf: "view_wf ?v" "0 < view_record_count ?v"
    by (simp_all add: view_wf_def view_record_count_def BufferView_new_def)
  have "view_delete_record 7 ?v = (True, ?w)"
    by (simp add: view_delete_record_def mark_first.simps BufferView_new_def set_delete_def)
  from view_delete_record_correct [OF wf this]
  have "(True, view_list ?w) = tag_first 7 (view_list ?v)" by simp
  moreover have "view_list ?v = [\<lparr>header = 4, rec = 9\<rparr>, \<lparr>header = 4, rec = 7\<rparr>]"
    "view_list ?w = [\<lparr>header = 4, rec = 9\<rparr>, \<lparr>header = 6, rec = 7\<rparr>]"
    by (simp_all add: view_list_def ring_list_def BufferView_new_def upt_rec)
  ultimately show ?thesis by simp
qed

text \<open>
  On an empty view \<open>start = stop\<close>, so \<^verbatim>\<open>delete_record\<close> takes its wrap-around branch and
  searches the whole ring array: a stale slot outside the view can be tagged and the delete
  reported as done although the view holds no record.
\<close>

theorem view_delete_record_empty:
  assumes "view_wf v" and "view_record_count v = 0"
  shows "view_list v = [] \<and> (fst (view_delete_record r v) \<longleftrightarrow> r \<in> rec ` set (v_data v))"
proof -
  note w = view_wfD [OF assms(1)]
  define s where "s = v_start v"
  have s: "s \<le> length (v_data v)" "v_stop v = s" "v_start v = s" "v_cap v = length (v_data v)"
    using w assms(1,2) by (simp_all add: s_def)
  have "set (v_data v) = set (drop s (v_data v)) \<union> set (take s (v_data v))"
    by (metis Un_commute append_take_drop_id set_append)
  moreover have "fst (view_delete_record r v) \<longleftrightarrow>
      mark_first r (v_data v) s (v_cap v) \<noteq> None \<or> mark_first r (v_data v) 0 s \<noteq> None"
    using s by (simp add: view_delete_record_def split: option.split)
  ultimately have "fst (view_delete_record r v) \<longleftrightarrow> r \<in> rec ` set (v_data v)"
    using s mark_first_None_iff [of s "v_cap v" "v_data v" r] mark_first_None_iff [of 0 s "v_data v" r]
    by force
  moreover have "view_list v = []"
    using assms by (simp add: view_list_def ring_list_def)
  ultimately show ?thesis by blast
qed

theorem view_delete_record_empty_witness:
  "view_list (BufferView_new [\<lparr>header = 4, rec = (7::nat)\<rparr>, \<lparr>header = 4, rec = 8\<rparr>] 2 1 1 0 (None :: unit option)) = [] \<and>
   fst (view_delete_record 7 (BufferView_new [\<lparr>header = 4, rec = (7::nat)\<rparr>, \<lparr>header = 4, rec = 8\<rparr>] 2 1 1 0 (None :: unit option)))"
proof -
  let ?v = "BufferView_new [\<lparr>header = 4, rec = (7::nat)\<rparr>, \<lparr>header = 4, rec = 8\<rparr>] 2 1 1 0 (None :: unit option)"
  have "view_wf ?v" "view_record_count ?v = 0"
    by (simp_all add: view_wf_def view_record_count_def BufferView_new_def)
  from view_delete_record_empty [OF this, of 7] show ?thesis by (simp add: BufferView_new_def)
qed

end
