(* ===== verification/DE_Merge.thy ===== *)
theory DE_Merge
  imports DE_Heap DE_View
begin

text \<open>
  Cursors and sorted merges: \<^verbatim>\<open>include/util/Cursor.h\<close> and \<^verbatim>\<open>include/util/SortedMerge.h\<close>. A shard
  is built either from a buffer view (sort, then cancel adjacent record/tombstone pairs) or from
  other shards (a k-way merge over cursors that cancels a record against a matching tombstone
  when both are at the top of the queue). The merge loop is shared with the range query, so it
  is defined once over the action done with a record that survives.
\<close>

section \<open>Cursors\<close>

record 'a Cursor =
  carr :: "'a list"
  cptr :: nat
  cend :: nat
  cur_rec_idx :: nat
  rec_cnt :: nat
  cnull :: bool

definition null_cursor :: "'a Cursor" where
  "null_cursor = \<lparr>carr = [], cptr = 0, cend = 0, cur_rec_idx = 0, rec_cnt = 0, cnull = True\<rparr>"

definition Cursor_eq :: "'a Cursor \<Rightarrow> 'a Cursor \<Rightarrow> bool" where
  "Cursor_eq a b \<longleftrightarrow>
     (if cnull a \<or> cnull b then cnull a \<and> cnull b
      else carr a = carr b \<and> cptr a = cptr b \<and> cend a = cend b)"

definition array_cursor :: "'a list \<Rightarrow> nat \<Rightarrow> 'a Cursor" where
  "array_cursor base n =
     \<lparr>carr = base, cptr = 0, cend = n, cur_rec_idx = 0, rec_cnt = n, cnull = False\<rparr>"

definition cursor_deref :: "'a Cursor \<Rightarrow> 'a res" where
  "cursor_deref c =
     (if cnull c then Inl NullDeref
      else if cptr c < length (carr c) then Inr (carr c ! cptr c) else Inl OutOfBounds)"

definition advance_cursor :: "'a Cursor \<Rightarrow> bool \<times> 'a Cursor" where
  "advance_cursor cur =
     (let c = cur\<lparr>cptr := Suc (cptr cur), cur_rec_idx := Suc (cur_rec_idx cur)\<rparr> in
      if cur_rec_idx c \<ge> rec_cnt c then (False, c)
      else if cptr c \<ge> cend c then (False, c)
      else (True, c))"

text \<open>
  \<^verbatim>\<open>get_next\<close> scans the cursors for the one whose (next, for the cursor \<open>current\<close>) record is
  least; \<open>best\<close> is the pair of \<^verbatim>\<open>min_rec\<close> and the index of \<^verbatim>\<open>result\<close>.
\<close>

fun get_next_loop ::
    "nat option \<Rightarrow> 'a::linorder Cursor list \<Rightarrow> nat \<Rightarrow> ('a \<times> nat) option \<Rightarrow> nat option" where
  "get_next_loop current [] i best = map_option snd best"
| "get_next_loop current (c # cs) i best =
     (if Cursor_eq c null_cursor then get_next_loop current cs (Suc i) best
      else let p = (if current = Some i then cptr c + 1 else cptr c) in
        if p \<ge> cend c then get_next_loop current cs (Suc i) best
        else (case best of
                None \<Rightarrow> get_next_loop current cs (Suc i) (Some (carr c ! p, i))
              | Some (m, _) \<Rightarrow>
                  if carr c ! p < m then get_next_loop current cs (Suc i) (Some (carr c ! p, i))
                  else get_next_loop current cs (Suc i) best))"

definition get_next :: "'a::linorder Cursor list \<Rightarrow> nat option \<Rightarrow> nat option" where
  "get_next cursors current = get_next_loop current cursors 0 None"

section \<open>Merges\<close>

record merge_info =
  record_count :: nat
  tombstone_count :: nat

type_synonym ('r, 'f) merge_out = "merge_info \<times> 'r Wrapped list \<times> 'f option"

definition merge_start :: "'f option \<Rightarrow> ('r, 'f) merge_out" where
  "merge_start bf = (\<lparr>record_count = 0, tombstone_count = 0\<rparr>, [], bf)"

text \<open>\<^verbatim>\<open>buffer[info.record_count++] = w\<close>, counting tombstones and feeding them to the filter.\<close>

fun emit_record :: "('f, 'r) bloom_ops \<Rightarrow> 'r Wrapped \<Rightarrow> ('r, 'f) merge_out \<Rightarrow> ('r, 'f) merge_out" where
  "emit_record B w (info, buffer, bf) =
     (info\<lparr>record_count := Suc (record_count info),
           tombstone_count := (if is_tombstone w then Suc (tombstone_count info) else tombstone_count info)\<rparr>,
      buffer @ [w],
      (if is_tombstone w then map_option (bf_insert B (rec w)) bf else bf))"

fun build_cursor_vec ::
    "('s \<Rightarrow> 'a list) \<Rightarrow> ('s \<Rightarrow> nat) \<Rightarrow> ('s \<Rightarrow> nat) \<Rightarrow> 's option list \<Rightarrow> 'a Cursor list \<times> nat \<times> nat" where
  "build_cursor_vec get_data reccount tscount [] = ([], 0, 0)"
| "build_cursor_vec get_data reccount tscount (s # shards) =
     (let (cs, r, t) = build_cursor_vec get_data reccount tscount shards in
      (case s of
         Some sh \<Rightarrow> (array_cursor (get_data sh) (reccount sh) # cs, reccount sh + r, tscount sh + t)
       | None \<Rightarrow> (null_cursor # cs, r, t)))"

text \<open>
  The loop over the sorted records. \<open>eq\<close> is the \<^verbatim>\<open>operator==\<close> of the record type and \<open>emit\<close> is what is
  done with a record that stays: the shard types that copy this loop keep keys beside the records.
\<close>

function bufferview_loop_by ::
    "('r \<Rightarrow> 'r \<Rightarrow> bool) \<Rightarrow> ('r Wrapped \<Rightarrow> 's \<Rightarrow> 's) \<Rightarrow> 'r Wrapped list \<Rightarrow> 's \<Rightarrow> 's" where
  "bufferview_loop_by eq emit [] out = out"
| "bufferview_loop_by eq emit (w # ws) out =
     (if \<not> is_tombstone w \<and> ws \<noteq> [] \<and> eq (rec w) (rec (hd ws)) \<and> is_tombstone (hd ws)
      then bufferview_loop_by eq emit (tl ws) out
      else if is_deleted w then bufferview_loop_by eq emit ws out
      else bufferview_loop_by eq emit ws (emit (mask_header w) out))"
  by pat_completeness auto
termination
  by (relation "measure (\<lambda>(eq, emit, ws, out). length ws)") auto

abbreviation bufferview_loop :: "('r Wrapped \<Rightarrow> 's \<Rightarrow> 's) \<Rightarrow> 'r Wrapped list \<Rightarrow> 's \<Rightarrow> 's" where
  "bufferview_loop \<equiv> bufferview_loop_by (=)"

text \<open>
  \<open>srt\<close> is \<^verbatim>\<open>std::sort\<close> with the order of the wrapped records. Records that are equal
  together with their headers are interchangeable for key-value records, so the sort is then determined.
\<close>

definition sorted_array_from_bufferview_by ::
    "('r Wrapped list \<Rightarrow> 'r Wrapped list) \<Rightarrow> ('r \<Rightarrow> 'r \<Rightarrow> bool) \<Rightarrow> ('f, 'r) bloom_ops \<Rightarrow> ('r, 'v) BufferView \<Rightarrow> 'f option \<Rightarrow>
     ('r, 'f) merge_out res" where
  "sorted_array_from_bufferview_by srt eq B bv bf =
     bindE (copy_to_buffer bv) (\<lambda>temp.
       Inr (bufferview_loop_by eq (emit_record B) (srt temp) (merge_start bf)))"

abbreviation sorted_array_from_bufferview ::
    "('f, 'r::linorder) bloom_ops \<Rightarrow> ('r, 'v) BufferView \<Rightarrow> 'f option \<Rightarrow> ('r, 'f) merge_out res" where
  "sorted_array_from_bufferview \<equiv> sorted_array_from_bufferview_by (sort_key wkey_of) (=)"

text \<open>
  The loop over the priority queue. An entry is a record and a version; \<open>ci\<close> maps a version
  to the index of its cursor. The action \<open>emit\<close> is applied to every record that is not
  cancelled.
\<close>

definition push_cursor :: "bool \<times> 'a Cursor \<Rightarrow> nat \<Rightarrow> ('a \<times> nat) list \<Rightarrow> ('a \<times> nat) list" where
  "push_cursor bc v q = (if fst bc then pq_push (carr (snd bc) ! cptr (snd bc), v) q else q)"

definition cancels_by :: "('r \<Rightarrow> 'r \<Rightarrow> bool) \<Rightarrow> 'r Wrapped \<Rightarrow> 'r Wrapped \<Rightarrow> bool" where
  "cancels_by eq now next \<longleftrightarrow> \<not> is_tombstone now \<and> eq (rec now) (rec next) \<and> is_tombstone next"

abbreviation cancels :: "'r Wrapped \<Rightarrow> 'r Wrapped \<Rightarrow> bool" where
  "cancels \<equiv> cancels_by (=)"

lemmas cancels_def = cancels_by_def [of "(=)"]

function merge_loop_by ::
    "('r \<Rightarrow> 'r \<Rightarrow> bool) \<Rightarrow> (nat \<Rightarrow> nat) \<Rightarrow> (('r Wrapped \<times> nat) list \<Rightarrow> nat) \<Rightarrow> ('r Wrapped \<Rightarrow> 's \<Rightarrow> 's) \<Rightarrow>
     'r Wrapped Cursor list \<Rightarrow> ('r Wrapped \<times> nat) list \<Rightarrow> 's \<Rightarrow> 's res" where
  "merge_loop_by eq ci pick emit cs q s =
     (if q = [] then Inr s
      else
        let now = pq_peek pick q; q1 = pq_pop pick q in
        if ci (snd now) \<ge> length cs then Inl OutOfBounds
        else if q1 \<noteq> [] \<and> cancels_by eq (fst now) (fst (pq_peek pick q1)) then
          let nxt = pq_peek pick q1; q2 = pq_pop pick q1;
              a1 = advance_cursor (cs ! ci (snd now)); cs1 = cs[ci (snd now) := snd a1] in
          if ci (snd nxt) \<ge> length cs then Inl OutOfBounds
          else
            let a2 = advance_cursor (cs1 ! ci (snd nxt)); cs2 = cs1[ci (snd nxt) := snd a2]
            in merge_loop_by eq ci pick emit cs2 (push_cursor a2 (snd nxt) (push_cursor a1 (snd now) q2)) s
        else
          let c = cs ! ci (snd now); a = advance_cursor c
          in merge_loop_by eq ci pick emit (cs[ci (snd now) := snd a]) (push_cursor a (snd now) q1)
               (emit (carr c ! cptr c) s))"
  by pat_completeness auto

definition cursors_left :: "'a Cursor list \<Rightarrow> nat" where
  "cursors_left cs = (\<Sum>c\<leftarrow>cs. cend c - cptr c)"

lemma cursors_left_update:
  assumes "i < length cs"
  shows "cursors_left (cs[i := c]) + (cend (cs ! i) - cptr (cs ! i)) = cursors_left cs + (cend c - cptr c)"
  using assms unfolding cursors_left_def
proof (induction cs arbitrary: i)
  case (Cons a cs)
  then show ?case by (cases i) auto
qed simp

lemma push_cursor_measure:
  assumes "i < length cs"
  shows "length (push_cursor (advance_cursor (cs ! i)) v q) +
      cursors_left (cs[i := snd (advance_cursor (cs ! i))]) \<le> length q + cursors_left cs"
  using cursors_left_update [OF assms, of "snd (advance_cursor (cs ! i))"]
  by (auto simp: push_cursor_def advance_cursor_def Let_def split: if_splits)

termination merge_loop_by
proof (relation "measure (\<lambda>(eq, ci, pick, emit, cs, q, s). length q + cursors_left cs)", goal_cases)
  case 1
  show ?case by simp
next
  case (2 eq ci pick emit cs q s now q1 nxt q2 a1 cs1 a2 cs2)
  have "length (push_cursor a2 (snd nxt) (push_cursor a1 (snd now) q2)) + cursors_left cs2
      \<le> length (push_cursor a1 (snd now) q2) + cursors_left cs1"
    unfolding 2 using 2 by (intro push_cursor_measure) simp
  also have "\<dots> \<le> length q2 + cursors_left cs"
    unfolding 2 using 2 by (intro push_cursor_measure) simp
  also have "\<dots> < length q + cursors_left cs"
    using 2 by simp
  finally show ?case by simp
next
  case (3 eq ci pick emit cs q s now q1 c a)
  have "length (push_cursor a (snd now) q1) + cursors_left (cs[ci (snd now) := snd a]) \<le> length q1 + cursors_left cs"
    unfolding 3 using 3 by (intro push_cursor_measure) simp
  also have "\<dots> < length q + cursors_left cs" using 3 by simp
  finally show ?case by simp
qed

declare merge_loop_by.simps [simp del]

abbreviation merge_loop ::
    "(nat \<Rightarrow> nat) \<Rightarrow> (('r Wrapped \<times> nat) list \<Rightarrow> nat) \<Rightarrow> ('r Wrapped \<Rightarrow> 's \<Rightarrow> 's) \<Rightarrow>
     'r Wrapped Cursor list \<Rightarrow> ('r Wrapped \<times> nat) list \<Rightarrow> 's \<Rightarrow> 's res" where
  "merge_loop \<equiv> merge_loop_by (=)"

lemmas merge_loop_simps = merge_loop_by.simps [of "(=)"]

fun push_all :: "nat \<Rightarrow> (nat \<Rightarrow> nat) \<Rightarrow> 'a Cursor list \<Rightarrow> ('a \<times> nat) list \<Rightarrow> ('a \<times> nat) list res" where
  "push_all i vers [] q = Inr q"
| "push_all i vers (c # cs) q =
     bindE (cursor_deref c) (\<lambda>x. push_all (Suc i) vers cs (pq_push (x, vers i) q))"

definition merge_emit :: "('f, 'r) bloom_ops \<Rightarrow> 'r Wrapped \<Rightarrow> ('r, 'f) merge_out \<Rightarrow> ('r, 'f) merge_out" where
  "merge_emit B w out = (if \<not> is_deleted w then emit_record B w out else out)"

definition sorted_array_merge_by ::
    "('r \<Rightarrow> 'r \<Rightarrow> bool) \<Rightarrow> (('r Wrapped \<times> nat) list \<Rightarrow> nat) \<Rightarrow> ('f, 'r) bloom_ops \<Rightarrow> 'r Wrapped Cursor list \<Rightarrow> 'f option \<Rightarrow>
     ('r, 'f) merge_out res" where
  "sorted_array_merge_by eq pick B cursors bf =
     bindE (push_all 0 id cursors []) (\<lambda>q.
       merge_loop_by eq id pick (merge_emit B) cursors q (merge_start bf))"

abbreviation sorted_array_merge ::
    "(('r Wrapped \<times> nat) list \<Rightarrow> nat) \<Rightarrow> ('f, 'r) bloom_ops \<Rightarrow> 'r Wrapped Cursor list \<Rightarrow> 'f option \<Rightarrow>
     ('r, 'f) merge_out res" where
  "sorted_array_merge \<equiv> sorted_array_merge_by (=)"

section \<open>What the merge loop does\<close>

definition rest :: "'a Cursor \<Rightarrow> 'a list" where
  "rest c = take (cend c - cptr c) (drop (cptr c) (carr c))"

definition cursor_ok :: "'a Cursor \<Rightarrow> bool" where
  "cursor_ok c \<longleftrightarrow> cptr c \<le> cend c \<and> cend c \<le> length (carr c) \<and>
     cur_rec_idx c + (cend c - cptr c) = rec_cnt c"

lemma length_rest [simp]: "cursor_ok c \<Longrightarrow> length (rest c) = cend c - cptr c"
  by (auto simp: rest_def cursor_ok_def)

lemma rest_Cons:
  assumes "cursor_ok c" and "cptr c < cend c"
  shows "rest c = carr c ! cptr c # take (cend c - Suc (cptr c)) (drop (Suc (cptr c)) (carr c))"
proof -
  have "drop (cptr c) (carr c) = carr c ! cptr c # drop (Suc (cptr c)) (carr c)"
    using assms by (intro Cons_nth_drop_Suc [symmetric]) (simp add: cursor_ok_def)
  moreover have "cend c - cptr c = Suc (cend c - Suc (cptr c))" using assms(2) by simp
  ultimately show ?thesis by (simp add: rest_def)
qed

lemma advance_cursor_ok:
  assumes ok: "cursor_ok c" and r: "rest c = x # xs"
  shows "x = carr c ! cptr c" and "cursor_ok (snd (advance_cursor c))"
    and "rest (snd (advance_cursor c)) = xs" and "fst (advance_cursor c) \<longleftrightarrow> xs \<noteq> []"
    and "xs \<noteq> [] \<Longrightarrow> carr (snd (advance_cursor c)) ! cptr (snd (advance_cursor c)) = hd xs"
proof -
  have lt: "cptr c < cend c" using ok r length_rest [OF ok] by simp
  note eq = rest_Cons [OF ok lt]
  show "x = carr c ! cptr c" using eq r by simp
  let ?c = "snd (advance_cursor c)"
  have c: "carr ?c = carr c" "cptr ?c = Suc (cptr c)" "cend ?c = cend c"
      "cur_rec_idx ?c = Suc (cur_rec_idx c)" "rec_cnt ?c = rec_cnt c"
    by (simp_all add: advance_cursor_def Let_def)
  show ok': "cursor_ok ?c" using ok lt unfolding cursor_ok_def c by auto
  show r': "rest ?c = xs" using eq r by (simp add: rest_def c)
  have len: "length xs = cend c - Suc (cptr c)" using length_rest [OF ok'] r' c by simp
  show "fst (advance_cursor c) \<longleftrightarrow> xs \<noteq> []"
    using len ok lt by (auto simp: advance_cursor_def Let_def cursor_ok_def)
  assume "xs \<noteq> []"
  then have "cptr ?c < cend ?c" using len c by (cases xs) auto
  from rest_Cons [OF ok' this] show "carr ?c ! cptr ?c = hd xs" unfolding r' by simp
qed

lemma push_cursor_heads:
  assumes "cursor_ok c" and "rest c = x # xs"
  shows "mset (push_cursor (advance_cursor c) v q) = head_of v xs + mset q"
  using advance_cursor_ok [OF assms] by (cases xs) (auto simp: push_cursor_def mset_pq_push)

text \<open>
  The invariant: every cursor is in range and the queue holds, for each cursor that is not
  exhausted, its current record with the cursor's version.
\<close>

definition merge_inv :: "(nat \<Rightarrow> nat) \<Rightarrow> 'a Cursor list \<Rightarrow> ('a \<times> nat) list \<Rightarrow> bool" where
  "merge_inv ci cs q \<longleftrightarrow> (\<forall>c\<in>set cs. cursor_ok c) \<and>
     image_mset (map_prod id ci) (mset q) = heads (map rest cs)"

lemma merge_inv_take:
  assumes inv: "image_mset (map_prod id ci) (add_mset (x, v) Q) = heads (map rest cs)"
    and ok: "\<forall>c\<in>set cs. cursor_ok c"
  shows "ci v < length cs" and "rest (cs ! ci v) \<noteq> []" and "x = hd (rest (cs ! ci v))"
    and "\<forall>c\<in>set (cs[ci v := snd (advance_cursor (cs ! ci v))]). cursor_ok c"
    and "map rest (cs[ci v := snd (advance_cursor (cs ! ci v))]) = (map rest cs)[ci v := tl (rest (cs ! ci v))]"
    and "image_mset (map_prod id ci) (mset (push_cursor (advance_cursor (cs ! ci v)) v q) + Q) =
       heads (map rest (cs[ci v := snd (advance_cursor (cs ! ci v))])) + image_mset (map_prod id ci) (mset q)"
proof -
  have "(x, ci v) \<in># heads (map rest cs)" unfolding inv [symmetric] by simp
  then show len: "ci v < length cs" and ne: "rest (cs ! ci v) \<noteq> []" and x: "x = hd (rest (cs ! ci v))"
    by (auto simp: in_heads)
  let ?c = "cs ! ci v"
  obtain xs where xs: "rest ?c = x # xs" using ne x by (cases "rest ?c") auto
  have okc: "cursor_ok ?c" using ok len by simp
  note adv = advance_cursor_ok [OF okc xs]
  show "\<forall>c\<in>set (cs[ci v := snd (advance_cursor ?c)]). cursor_ok c"
    using ok adv(2) by (rule Ball_list_update)
  show upd: "map rest (cs[ci v := snd (advance_cursor ?c)]) = (map rest cs)[ci v := tl (rest ?c)]"
    using adv(3) xs by (simp add: map_update)
  have "heads ((map rest cs)[ci v := xs]) + {#(x, ci v)#} = head_of (ci v) xs + heads (map rest cs)"
    by (rule heads_take) (use len xs in simp_all)
  also have "heads (map rest cs) = add_mset (x, ci v) (image_mset (map_prod id ci) Q)"
    using inv by simp
  finally have "heads ((map rest cs)[ci v := xs]) = head_of (ci v) xs + image_mset (map_prod id ci) Q"
    by simp
  moreover have "image_mset (map_prod id ci) (head_of v xs) = head_of (ci v) xs"
    by (cases xs) auto
  ultimately show "image_mset (map_prod id ci) (mset (push_cursor (advance_cursor ?c) v q) + Q) =
       heads (map rest (cs[ci v := snd (advance_cursor ?c)])) + image_mset (map_prod id ci) (mset q)"
    unfolding upd push_cursor_heads [OF okc xs] using xs by simp
qed


definition cancelled_pairs_by :: "('r \<Rightarrow> 'r \<Rightarrow> bool) \<Rightarrow> ('r Wrapped \<times> 'r Wrapped) list \<Rightarrow> bool" where
  "cancelled_pairs_by eq ps \<longleftrightarrow> (\<forall>(w, t)\<in>set ps. cancels_by eq w t)"

abbreviation cancelled_pairs :: "('r Wrapped \<times> 'r Wrapped) list \<Rightarrow> bool" where
  "cancelled_pairs \<equiv> cancelled_pairs_by (=)"

lemmas cancelled_pairs_def = cancelled_pairs_by_def [of "(=)"]

lemma cancelled_pairs_simps [simp]:
  "cancelled_pairs_by eq []"
  "cancelled_pairs_by eq (p # ps) \<longleftrightarrow> cancels_by eq (fst p) (snd p) \<and> cancelled_pairs_by eq ps"
  by (auto simp: cancelled_pairs_by_def)

text \<open>
  The loop ends without error; it applies \<open>emit\<close> to a sequence of the records, in order of
  the records when every cursor is sorted, and drops the rest as pairs of a record and a
  matching tombstone.
\<close>


abbreviation rec_sorted :: "'r::linorder Wrapped list \<Rightarrow> bool" where
  "rec_sorted ws \<equiv> sorted_wrt (\<lambda>a b. rec a \<le> rec b) ws"

abbreviation wkey_by :: "('r \<Rightarrow> 'k) \<Rightarrow> 'r Wrapped \<Rightarrow> 'k \<times> 32 word" where
  "wkey_by kf w \<equiv> (kf (rec w), header w)"

abbreviation sorted_by :: "('r \<Rightarrow> 'k::linorder) \<Rightarrow> 'r Wrapped list \<Rightarrow> bool" where
  "sorted_by kf ws \<equiv> sorted_wrt (\<lambda>a b. kf (rec a) \<le> kf (rec b)) ws"

text \<open>The record type is compared by a key \<open>kf\<close>; for key-value records this is the record itself.\<close>

definition merge_result_by ::
    "('r \<Rightarrow> 'r \<Rightarrow> bool) \<Rightarrow> ('r \<Rightarrow> 'k::linorder) \<Rightarrow> ('r Wrapped \<Rightarrow> 's \<Rightarrow> 's) \<Rightarrow> 'r Wrapped Cursor list \<Rightarrow> 's \<Rightarrow> 's res \<Rightarrow> bool" where
  "merge_result_by eq kf emit cs s res \<longleftrightarrow>
     (\<exists>outs ps. res = Inr (fold emit outs s) \<and>
        mset (concat (map rest cs)) = mset outs + mset (map fst ps) + mset (map snd ps) \<and>
        cancelled_pairs_by eq ps \<and>
        ((\<forall>c\<in>set cs. sorted_by kf (rest c)) \<longrightarrow> sorted_by kf outs))"

abbreviation merge_result :: "('r::linorder Wrapped \<Rightarrow> 's \<Rightarrow> 's) \<Rightarrow> 'r Wrapped Cursor list \<Rightarrow> 's \<Rightarrow> 's res \<Rightarrow> bool" where
  "merge_result \<equiv> merge_result_by (=) (\<lambda>r. r)"

lemmas merge_result_def = merge_result_by_def [of "(=)" "\<lambda>r. r"]

lemma merge_take_cancel:
  assumes "merge_inv ci cs q" and "mset q = add_mset (w, v) (mset q1)" and "mset q1 = add_mset (t, u) (mset q2)"
    and a1: "a1 = advance_cursor (cs ! ci v)" and cs1: "cs1 = cs[ci v := snd a1]"
    and a2: "a2 = advance_cursor (cs1 ! ci u)" and cs2: "cs2 = cs1[ci u := snd a2]"
  shows "ci v < length cs" and "ci u < length cs"
    and "merge_inv ci cs2 (push_cursor a2 u (push_cursor a1 v q2))"
    and "mset (concat (map rest cs)) = add_mset w (add_mset t (mset (concat (map rest cs2))))"
    and "\<forall>c\<in>set cs. sorted_wrt P (rest c) \<Longrightarrow> \<forall>c\<in>set cs2. sorted_wrt P (rest c)"
proof -
  let ?im = "\<lambda>M. image_mset (map_prod id ci) M"
  have ok: "\<forall>c\<in>set cs. cursor_ok c" and h: "?im (add_mset (w, v) (mset q1)) = heads (map rest cs)"
    using assms(1,2) by (simp_all add: merge_inv_def)
  note t1 = merge_inv_take [OF h ok, folded a1, folded cs1]
  let ?q3 = "push_cursor a1 v q2"
  have h1: "?im (add_mset (t, u) (mset ?q3)) = heads (map rest cs1)"
    using t1(6) [of q2] assms(3) by simp
  note t2 = merge_inv_take [OF h1 t1(4), folded a2, folded cs2]
  show "ci v < length cs" by (rule t1(1))
  show lu: "ci u < length cs" using t2(1) by (simp add: cs1)
  show "merge_inv ci cs2 (push_cursor a2 u ?q3)"
    using t2(4) t2(6) [of ?q3] by (simp add: merge_inv_def)
  have "mset (concat (map rest cs)) = add_mset w (mset (concat (map rest cs1)))"
    unfolding t1(5) by (rule mset_concat_take) (use t1(1-3) in simp_all)
  also have "mset (concat (map rest cs1)) = add_mset t (mset (concat (map rest cs2)))"
    unfolding t2(5) by (rule mset_concat_take) (use t2(1-3) in simp_all)
  finally show "mset (concat (map rest cs)) = add_mset w (add_mset t (mset (concat (map rest cs2))))" .
  assume "\<forall>c\<in>set cs. sorted_wrt P (rest c)"
  then have s0: "\<forall>r\<in>set (map rest cs). sorted_wrt P r" by simp
  have s1: "\<forall>r\<in>set (map rest cs1). sorted_wrt P r"
    unfolding t1(5) using s0 t1(1) by (intro Ball_list_update sorted_wrt_tl) simp_all
  have "\<forall>r\<in>set (map rest cs2). sorted_wrt P r"
    unfolding t2(5) using s1 t2(1) by (intro Ball_list_update sorted_wrt_tl) simp_all
  then show "\<forall>c\<in>set cs2. sorted_wrt P (rest c)" by simp
qed

lemma merge_take_emit:
  assumes "merge_inv ci cs q" and "mset q = add_mset (w, v) (mset q1)"
    and a: "a = advance_cursor (cs ! ci v)"
  shows "ci v < length cs" and "carr (cs ! ci v) ! cptr (cs ! ci v) = w"
    and "merge_inv ci (cs[ci v := snd a]) (push_cursor a v q1)"
    and "mset (concat (map rest cs)) = add_mset w (mset (concat (map rest (cs[ci v := snd a]))))"
    and "\<forall>c\<in>set cs. sorted_wrt P (rest c) \<Longrightarrow> \<forall>c\<in>set (cs[ci v := snd a]). sorted_wrt P (rest c)"
proof -
  let ?im = "\<lambda>M. image_mset (map_prod id ci) M"
  have ok: "\<forall>c\<in>set cs. cursor_ok c" and h: "?im (add_mset (w, v) (mset q1)) = heads (map rest cs)"
    using assms(1,2) by (simp_all add: merge_inv_def)
  note t = merge_inv_take [OF h ok, folded a]
  show len: "ci v < length cs" by (rule t(1))
  have r: "rest (cs ! ci v) = w # tl (rest (cs ! ci v))" using t(2,3) by simp
  show "carr (cs ! ci v) ! cptr (cs ! ci v) = w"
    using advance_cursor_ok(1) [OF _ r] ok len by simp
  show "merge_inv ci (cs[ci v := snd a]) (push_cursor a v q1)"
    using t(4) t(6) [of q1] by (simp add: merge_inv_def)
  show "mset (concat (map rest cs)) = add_mset w (mset (concat (map rest (cs[ci v := snd a]))))"
    unfolding t(5) by (rule mset_concat_take) (use t(1-3) in simp_all)
  assume "\<forall>c\<in>set cs. sorted_wrt P (rest c)"
  then have "\<forall>r\<in>set (map rest (cs[ci v := snd a])). sorted_wrt P r"
    unfolding t(5) using len by (intro Ball_list_update sorted_wrt_tl) simp_all
  then show "\<forall>c\<in>set (cs[ci v := snd a]). sorted_wrt P (rest c)" by simp
qed

lemma merge_peek_min:
  assumes "min_pick (\<lambda>e. wkey_by kf (fst e)) pick" and "merge_inv ci cs q" and "q \<noteq> []"
    and "\<forall>c\<in>set cs. sorted_by kf (rest c)" and "y \<in># mset (concat (map rest cs))"
  shows "kf (rec (fst (pq_peek pick q))) \<le> kf (rec y)"
proof (rule heads_min [of "map rest cs" "\<lambda>w. kf (rec w)"])
  show "\<forall>r\<in>set (map rest cs). sorted_by kf r" using assms(4) by simp
  show "y \<in> set (concat (map rest cs))" using assms(5) by simp
  fix e assume "e \<in># heads (map rest cs)"
  then have "e \<in># image_mset (map_prod id ci) (mset q)" using assms(2) by (simp add: merge_inv_def)
  then obtain x v where "(x, v) \<in> set q" and e: "e = (x, ci v)" by auto
  then have "wkey_by kf (fst (pq_peek pick q)) \<le> wkey_by kf (fst (x, v))"
    by (intro min_pick.peek_min [OF assms(1)])
  then show "kf (rec (fst (pq_peek pick q))) \<le> kf (rec (fst e))" using e by (auto simp: less_eq_prod_def)
qed

lemma merge_loop_by_spec:
  assumes "min_pick (\<lambda>e. wkey_by kf (fst e)) pick" and "merge_inv ci cs q"
  shows "merge_result_by eq kf emit cs s (merge_loop_by eq ci pick emit cs q s)"
  using assms
proof (induction eq ci pick emit cs q s rule: merge_loop_by.induct)
  case (1 eq ci pick emit cs q s)
  show ?case
  proof (cases "q = []")
    case True
    then have "concat (map rest cs) = []"
      using "1.prems"(2) heads_empty_iff [of 0 "map rest cs"] by (simp add: merge_inv_def)
    with True show ?thesis
      unfolding merge_result_by_def by (subst merge_loop_by.simps) (auto intro!: exI [of _ "[]"])
  next
    case False
    obtain w v where now: "pq_peek pick q = (w, v)" by force
    let ?q1 = "pq_pop pick q"
    have q: "mset q = add_mset (w, v) (mset ?q1)" using mset_pq_pop [OF False, of pick] now by simp
    define a1 where "a1 = advance_cursor (cs ! ci v)"
    note E = merge_take_emit [OF "1.prems"(2) q a1_def]
    show ?thesis
    proof (cases "?q1 \<noteq> [] \<and> cancels_by eq w (fst (pq_peek pick ?q1))")
      case True
      obtain t u where nxt: "pq_peek pick ?q1 = (t, u)" by force
      let ?q2 = "pq_pop pick ?q1"
      have q1: "mset ?q1 = add_mset (t, u) (mset ?q2)" using mset_pq_pop [of ?q1 pick] nxt True by simp
      define cs1 where "cs1 = cs[ci v := snd a1]"
      define a2 where "a2 = advance_cursor (cs1 ! ci u)"
      define cs2 where "cs2 = cs1[ci u := snd a2]"
      define q' where "q' = push_cursor a2 u (push_cursor a1 v ?q2)"
      note C = merge_take_cancel [OF "1.prems"(2) q q1 a1_def cs1_def a2_def cs2_def, folded q'_def]
      have eq: "merge_loop_by eq ci pick emit cs q s = merge_loop_by eq ci pick emit cs2 q' s"
        using False True C(1,2) now nxt
        by (subst merge_loop_by.simps) (simp add: Let_def a1_def a2_def cs1_def cs2_def q'_def)
      have "merge_result_by eq kf emit cs2 s (merge_loop_by eq ci pick emit cs2 q' s)"
        using "1.IH"(1) [OF False refl refl _ _ refl refl refl refl _ refl refl "1.prems"(1)] C False True now nxt
        by (simp add: a1_def a2_def cs1_def cs2_def q'_def)
      then obtain outs ps where *: "merge_loop_by eq ci pick emit cs2 q' s = Inr (fold emit outs s)"
          "mset (concat (map rest cs2)) = mset outs + mset (map fst ps) + mset (map snd ps)"
          "cancelled_pairs_by eq ps" "(\<forall>c\<in>set cs2. sorted_by kf (rest c)) \<longrightarrow> sorted_by kf outs"
        unfolding merge_result_by_def by blast
      have "cancels_by eq w t" using True nxt by simp
      with * C(4,5) eq show ?thesis
        unfolding merge_result_by_def by (intro exI [of _ outs] exI [of _ "(w, t) # ps"]) auto
    next
      case nc: False
      define cs1 where "cs1 = cs[ci v := snd a1]"
      define q' where "q' = push_cursor a1 v ?q1"
      have eq: "merge_loop_by eq ci pick emit cs q s = merge_loop_by eq ci pick emit cs1 q' (emit w s)"
        using False nc E(1,2) now
        by (subst merge_loop_by.simps) (auto simp: Let_def a1_def cs1_def q'_def)
      have "merge_result_by eq kf emit cs1 (emit w s) (merge_loop_by eq ci pick emit cs1 q' (emit w s))"
        using "1.IH"(2) [OF False refl refl _ _ refl refl "1.prems"(1)] E False nc now
        by (simp add: a1_def cs1_def q'_def)
      then obtain outs ps where *: "merge_loop_by eq ci pick emit cs1 q' (emit w s) = Inr (fold emit outs (emit w s))"
          "mset (concat (map rest cs1)) = mset outs + mset (map fst ps) + mset (map snd ps)"
          "cancelled_pairs_by eq ps" "(\<forall>c\<in>set cs1. sorted_by kf (rest c)) \<longrightarrow> sorted_by kf outs"
        unfolding merge_result_by_def by blast
      have "kf (rec w) \<le> kf (rec y)" if "\<forall>c\<in>set cs. sorted_by kf (rest c)" "y \<in> set outs" for y
      proof -
        have "y \<in># mset (concat (map rest cs1))" unfolding *(2) using that(2) by simp
        then have "y \<in># mset (concat (map rest cs))" unfolding E(4) cs1_def by simp
        from merge_peek_min [OF "1.prems" False that(1) this] now show ?thesis by simp
      qed
      with * E(4) E(5) eq show ?thesis
        unfolding merge_result_by_def
        by (intro exI [of _ "w # outs"] exI [of _ ps]) (auto simp: cs1_def)
    qed
  qed
qed

lemmas merge_loop_spec = merge_loop_by_spec [where kf = "\<lambda>r. r" and eq = "(=)"]

section \<open>Correctness of the two constructions\<close>

text \<open>
  Under the tombstone policy no record carries the delete tag; under the tagging policy there
  are no tombstones.
\<close>

definition policy_ok :: "'r Wrapped list \<Rightarrow> bool" where
  "policy_ok ws \<longleftrightarrow> (\<forall>w\<in>set ws. \<not> is_deleted w) \<or> (\<forall>w\<in>set ws. \<not> is_tombstone w)"

lemma fold_emit_record:
  "fold (emit_record B) outs (info, buf, bf) =
     (info\<lparr>record_count := record_count info + length outs,
           tombstone_count := tombstone_count info + length (filter is_tombstone outs)\<rparr>,
      buf @ outs, map_option (fold (\<lambda>w. bf_insert B (rec w)) (filter is_tombstone outs)) bf)"
  by (induction outs arbitrary: info buf bf) (simp_all add: option.map_comp comp_def option.map_id)

lemma fold_emit_start:
  "fold (emit_record B) outs (merge_start bf) =
     (\<lparr>record_count = length outs, tombstone_count = length (filter is_tombstone outs)\<rparr>, outs,
      map_option (fold (\<lambda>w. bf_insert B (rec w)) (filter is_tombstone outs)) bf)"
  by (simp add: merge_start_def fold_emit_record)

lemma fold_merge_emit: "fold (merge_emit B) outs out = fold (emit_record B) (filter (\<lambda>w. \<not> is_deleted w) outs) out"
  by (induction outs arbitrary: out) (simp_all add: merge_emit_def)

lemma bf_lookup_fold:
  assumes "bloom_ok B" and "w \<in> set ws"
  shows "bf_lookup B (fold (\<lambda>w. bf_insert B (rec w)) ws f) (rec w)"
proof -
  have keep: "bf_lookup B f r \<Longrightarrow> bf_lookup B (fold (\<lambda>w. bf_insert B (rec w)) ws f) r" for f r ws
    using assms(1) by (induction ws arbitrary: f) (auto simp: bloom_ok_def)
  from assms(2) show ?thesis
  proof (induction ws arbitrary: f)
    case (Cons x ws)
    show ?case
    proof (cases "w = x")
      case True
      then show ?thesis using assms(1) by (simp add: keep bloom_ok_def)
    qed (use Cons in simp)
  qed simp
qed

text \<open>What a shard constructor may rely on: \<open>src\<close> are the entries that went in.\<close>

definition shard_data_ok :: "('f, 'r::linorder) bloom_ops \<Rightarrow> 'r Wrapped list \<Rightarrow> 'f option \<Rightarrow> ('r, 'f) merge_out \<Rightarrow> bool" where
  "shard_data_ok B src bf out \<longleftrightarrow> (case out of (info, buf, bf') \<Rightarrow>
     record_count info = length buf \<and>
     tombstone_count info = length (filter is_tombstone buf) \<and>
     rec_sorted buf \<and> net buf = net src \<and>
     length buf \<le> length src \<and> rec ` set buf \<subseteq> rec ` set src \<and>
     (\<forall>w\<in>set buf. \<not> is_deleted w) \<and>
     (case bf' of None \<Rightarrow> bf = None
      | Some f \<Rightarrow> bf \<noteq> None \<and> (bloom_ok B \<longrightarrow> (\<forall>w\<in>set buf. is_tombstone w \<longrightarrow> bf_lookup B f (rec w)))))"

lemma net_pairs:
  assumes "cancelled_pairs ps" and "\<forall>(w, t)\<in>set ps. \<not> is_deleted w"
  shows "net (map fst ps) r + net (map snd ps) r = 0"
  using assms
  by (induction ps) (auto simp: net_Cons cancels_def wt_def)

lemma net_filter_deleted:
  assumes "\<forall>w\<in>set ws. is_deleted w \<longrightarrow> \<not> is_tombstone w"
  shows "net (filter (\<lambda>w. \<not> is_deleted w) ws) = net ws"
  using assms by (induction ws) (auto simp: net_Cons wt_def fun_eq_iff)

lemma net_map_mask [simp]: "net (map mask_header ws) = net ws"
  by (induction ws) (auto simp: net_Cons fun_eq_iff)

lemma net_after_cancel:
  assumes src: "mset src = mset outs + mset (map fst ps) + mset (map snd ps)"
    and ps: "cancelled_pairs ps" and pol: "policy_ok src"
  shows "net (filter (\<lambda>w. \<not> is_deleted w) outs) = net src"
proof -
  have set_eq: "set src = set outs \<union> fst ` set ps \<union> snd ` set ps"
    using arg_cong [OF src, of set_mset] by simp
  have mset_eq: "mset src = mset (outs @ map fst ps @ map snd ps)" using src by simp
  have split: "net src r = net outs r + (net (map fst ps) r + net (map snd ps) r)" for r
    unfolding net_mset_eq [OF mset_eq] net_append ..
  have nodel: "\<forall>(w, t)\<in>set ps. \<not> is_deleted w"
  proof (cases "\<forall>w\<in>set src. \<not> is_deleted w")
    case True
    then show ?thesis using set_eq by force
  next
    case False
    then have "\<forall>w\<in>set src. \<not> is_tombstone w" using pol by (auto simp: policy_ok_def)
    then show ?thesis using set_eq ps by (force simp: cancelled_pairs_def cancels_def)
  qed
  have "\<forall>w\<in>set outs. is_deleted w \<longrightarrow> \<not> is_tombstone w"
    using pol set_eq by (auto simp: policy_ok_def)
  from net_filter_deleted [OF this] split net_pairs [OF ps nodel] show ?thesis
    by (simp add: fun_eq_iff)
qed

lemma shard_data_okI:
  assumes "outs = filter (\<lambda>w. \<not> is_deleted w) os" and "rec_sorted os" and "net outs = net src"
    and "length os \<le> length src" and "rec ` set os \<subseteq> rec ` set src" 
    and "\<And>w. rec (g w) = rec w" "\<And>w. is_tombstone (g w) = is_tombstone w"
      "\<And>w. is_deleted (g w) = is_deleted w"
  shows "shard_data_ok B src bf (fold (emit_record B) (map g outs) (merge_start bf))"
proof -
  have "wt (g w) = wt w" for w using assms(7,8) by (simp add: wt_def)
  then have "net (map g outs) r = net outs r" for r
    by (induction outs) (simp_all add: net_Cons assms(6))
  then have "net (map g outs) = net src"
    using assms(3) by (simp add: fun_eq_iff)
  moreover have "rec_sorted (map g outs)"
    using assms(1,2,6) by (simp add: sorted_wrt_map sorted_wrt_filter)
  moreover have "length (map g outs) \<le> length src"
    using assms(1,4) le_trans [OF length_filter_le] by fastforce
  moreover have "rec ` set (map g outs) \<subseteq> rec ` set src"
    using assms(1,5,6) by (auto simp: image_image)
  moreover have "\<forall>w\<in>set (map g outs). \<not> is_deleted w"
    using assms(1,8) by auto
  ultimately show ?thesis
    unfolding shard_data_ok_def fold_emit_start prod.case
    by (cases bf) (auto simp: bf_lookup_fold)
qed

text \<open>Starting the queue: every cursor has to have a record.\<close>

definition cursor_live :: "'a Cursor \<Rightarrow> bool" where
  "cursor_live c \<longleftrightarrow> cursor_ok c \<and> \<not> cnull c \<and> cptr c < cend c"

lemma push_all_live:
  assumes "\<forall>c\<in>set cs. cursor_live c"
  shows "\<exists>q'. push_all i id cs q = Inr q' \<and> mset q' = mset q + heads_from i (map rest cs)"
  using assms
proof (induction i "id :: nat \<Rightarrow> nat" cs q rule: push_all.induct)
  case (2 i c cs q)
  have c: "cursor_live c" "\<forall>c\<in>set cs. cursor_live c" using "2.prems" by simp_all
  then have d: "cursor_deref c = Inr (carr c ! cptr c)" "rest c \<noteq> []" "hd (rest c) = carr c ! cptr c"
    by (auto simp: cursor_deref_def cursor_live_def cursor_ok_def rest_Cons)
  then have "head_of i (rest c) = {#(carr c ! cptr c, i)#}" by (cases "rest c") auto
  with "2.hyps" [OF c(2), of "carr c ! cptr c"] d show ?case
    by (auto simp: mset_pq_push head_of_def union_assoc)
qed simp

lemma push_all_dead:
  assumes "\<exists>c\<in>set cs. cnull c \<or> length (carr c) \<le> cptr c"
  shows "\<exists>e. push_all i vers cs q = Inl e \<and> (e = NullDeref \<or> e = OutOfBounds)"
  using assms
proof (induction i vers cs q rule: push_all.induct)
  case (2 i vers c cs q)
  then show ?case by (auto simp: cursor_deref_def)
qed simp

lemma sorted_array_merge_ok:
  assumes pick: "min_pick (\<lambda>e. wkey_of (fst e)) pick"
    and live: "\<forall>c\<in>set cs. cursor_live c" and sorted: "\<forall>c\<in>set cs. rec_sorted (rest c)"
    and pol: "policy_ok (concat (map rest cs))"
  shows "\<exists>out. sorted_array_merge pick B cs bf = Inr out \<and>
    shard_data_ok B (concat (map rest cs)) bf out"
proof -
  obtain q where q: "push_all 0 id cs [] = Inr q" "mset q = heads (map rest cs)"
    using push_all_live [OF live, of 0 "[]"] by auto
  have "merge_inv id cs q"
    using live q(2) by (simp add: merge_inv_def cursor_live_def map_prod.id)
  from merge_loop_spec [OF pick this, of "merge_emit B" "merge_start bf"]
  obtain outs ps where *: "merge_loop id pick (merge_emit B) cs q (merge_start bf) = Inr (fold (merge_emit B) outs (merge_start bf))"
      "mset (concat (map rest cs)) = mset outs + mset (map fst ps) + mset (map snd ps)"
      "cancelled_pairs ps" "rec_sorted outs"
    using sorted unfolding merge_result_def by blast
  have "length outs \<le> length (concat (map rest cs))"
    using arg_cong [OF *(2), of size] by (simp del: length_concat)
  moreover have "rec ` set outs \<subseteq> rec ` set (concat (map rest cs))"
    using arg_cong [OF *(2), of set_mset] by (metis (no_types, lifting) image_mono set_mset_mset set_mset_union sup.bounded_iff sup.cobounded1)
  ultimately have "shard_data_ok B (concat (map rest cs)) bf
      (fold (emit_record B) (map id (filter (\<lambda>w. \<not> is_deleted w) outs)) (merge_start bf))"
    using *(4) net_after_cancel [OF *(2,3) pol]
    by (intro shard_data_okI [of _ outs]) simp_all
  then show ?thesis
    unfolding sorted_array_merge_by_def using q(1) *(1) by (simp add: fold_merge_emit)
qed

text \<open>
  C16. Merging sorted, non-empty shards ends without error, and the merged array is sorted by
  record, its counts are the numbers of its entries and tombstones, no tagged record is left,
  every record keeps its net multiplicity (cancelled pairs are a record and its tombstone), and
  every tombstone of the result is found by the filter.
\<close>

theorem sorted_array_merge_correct:
  assumes pick: "min_pick (\<lambda>e. wkey_of (fst e)) pick"
    and live: "\<forall>c\<in>set cs. cursor_live c" and sorted: "\<forall>c\<in>set cs. rec_sorted (rest c)"
    and pol: "policy_ok (concat (map rest cs))"
  shows "\<exists>out. sorted_array_merge pick B cs bf = Inr out \<and>
    shard_data_ok B (concat (map rest cs)) bf out"
  by (rule sorted_array_merge_ok [OF assms])

definition merge_example :: "nat Wrapped Cursor list" where
  "merge_example =
     [array_cursor [\<lparr>header = 0, rec = 1\<rparr>, \<lparr>header = 0, rec = 5\<rparr>] 2,
      array_cursor [\<lparr>header = 1, rec = 5\<rparr>, \<lparr>header = 0, rec = 9\<rparr>] 2]"

theorem sorted_array_merge_correct_witness:
  "\<exists>out. sorted_array_merge (first_min (\<lambda>e. wkey_of (fst e))) list_bloom merge_example (Some []) = Inr out \<and>
    shard_data_ok list_bloom (concat (map rest merge_example)) (Some []) out"
proof (rule sorted_array_merge_correct)
  show "min_pick (\<lambda>e. wkey_of (fst e)) (first_min (\<lambda>e :: nat Wrapped \<times> nat. wkey_of (fst e)))"
    by (rule first_min.min_pick_axioms)
  show "\<forall>c\<in>set merge_example. cursor_live c"
    by (simp add: merge_example_def cursor_live_def cursor_ok_def array_cursor_def)
  show "\<forall>c\<in>set merge_example. rec_sorted (rest c)"
    by (simp add: merge_example_def rest_def array_cursor_def)
  show "policy_ok (concat (map rest merge_example))"
    by (simp add: merge_example_def rest_def array_cursor_def policy_ok_def is_deleted_def)
qed

text \<open>
  The merge queues the first record of every input without asking whether there is one: a
  null shard or a shard whose records have all been cancelled makes it read a null pointer or
  past the end of an array.
\<close>

theorem sorted_array_merge_empty_input:
  assumes "\<exists>c\<in>set cs. cnull c \<or> length (carr c) \<le> cptr c"
  shows "\<exists>e. sorted_array_merge pick B cs bf = Inl e \<and> (e = NullDeref \<or> e = OutOfBounds)"
  using push_all_dead [OF assms, of 0 id "[]"] by (auto simp: sorted_array_merge_by_def)

theorem sorted_array_merge_empty_input_witness:
  "\<exists>e. sorted_array_merge (first_min (\<lambda>e. wkey_of (fst e))) list_bloom
        [array_cursor [\<lparr>header = 0, rec = (1::nat)\<rparr>] 1, array_cursor [] 0] None = Inl e \<and>
      (e = NullDeref \<or> e = OutOfBounds)"
  by (rule sorted_array_merge_empty_input) (simp add: array_cursor_def)

text \<open>The loop over a sorted copy of the buffer, in the same terms.\<close>

lemma bufferview_loop_by_spec:
  "\<exists>outs ps. bufferview_loop_by eq emit ws out =
      fold emit (map mask_header (filter (\<lambda>w. \<not> is_deleted w) outs)) out \<and>
    mset ws = mset outs + mset (map fst ps) + mset (map snd ps) \<and> cancelled_pairs_by eq ps \<and>
    (sorted_by kf ws \<longrightarrow> sorted_by kf outs)"
proof (induction eq emit ws out rule: bufferview_loop_by.induct)
  case (1 eq emit out)
  show ?case by (intro exI [of _ "[]"]) simp
next
  case (2 eq emit w ws out)
  show ?case
  proof (cases "\<not> is_tombstone w \<and> ws \<noteq> [] \<and> eq (rec w) (rec (hd ws)) \<and> is_tombstone (hd ws)")
    case True
    then obtain t ts where ws: "ws = t # ts" by (cases ws) auto
    from "2.IH"(1) [OF True] ws obtain outs ps where
        "bufferview_loop_by eq emit ts out = fold emit (map mask_header (filter (\<lambda>w. \<not> is_deleted w) outs)) out"
        "mset ts = mset outs + mset (map fst ps) + mset (map snd ps)" "cancelled_pairs_by eq ps"
        "sorted_by kf ts \<longrightarrow> sorted_by kf outs" by auto
    with True ws show ?thesis
      by (intro exI [of _ outs] exI [of _ "(w, t) # ps"]) (auto simp: cancels_by_def)
  next
    case False
    define out' where "out' = (if is_deleted w then out else emit (mask_header w) out)"
    have eq: "bufferview_loop_by eq emit (w # ws) out = bufferview_loop_by eq emit ws out'"
      using False by (auto simp: out'_def)
    from "2.IH"(2,3) [OF False] obtain outs ps where *:
        "bufferview_loop_by eq emit ws out' = fold emit (map mask_header (filter (\<lambda>w. \<not> is_deleted w) outs)) out'"
        "mset ws = mset outs + mset (map fst ps) + mset (map snd ps)" "cancelled_pairs_by eq ps"
        "sorted_by kf ws \<longrightarrow> sorted_by kf outs"
      by (cases "is_deleted w") (auto simp: out'_def)
    have "set outs \<subseteq> set ws" using arg_cong [OF *(2), of set_mset] by auto
    then have "sorted_by kf (w # ws) \<longrightarrow> sorted_by kf (w # outs)" using *(4) by auto
    with * eq show ?thesis
      by (intro exI [of _ "w # outs"] exI [of _ ps]) (simp add: out'_def)
  qed
qed

lemmas bufferview_loop_spec = bufferview_loop_by_spec [where kf = "\<lambda>r. r" and eq = "(=)"]

lemma rec_sorted_sort_key: "rec_sorted (sort_key wkey_of (ws :: 'r::linorder Wrapped list))"
proof -
  have "sorted_wrt (\<lambda>a b. wkey_of a \<le> wkey_of b) (sort_key wkey_of ws)"
    using sorted_sort_key [of wkey_of ws] by (simp add: sorted_wrt_map)
  then show ?thesis by (rule sorted_wrt_mono_rel [rotated]) (auto simp: less_eq_prod_def)
qed

lemma sorted_array_from_bufferview_ok:
  assumes "view_wf v" and "policy_ok (view_list v)"
  shows "\<exists>out. sorted_array_from_bufferview B v bf = Inr out \<and> shard_data_ok B (view_list v) bf out"
proof -
  let ?ws = "sort_key wkey_of (view_list v)"
  obtain outs ps where *: "bufferview_loop (emit_record B) ?ws (merge_start bf) =
      fold (emit_record B) (map mask_header (filter (\<lambda>w. \<not> is_deleted w) outs)) (merge_start bf)"
      "mset ?ws = mset outs + mset (map fst ps) + mset (map snd ps)" "cancelled_pairs ps"
      "rec_sorted outs"
    using bufferview_loop_spec [of "emit_record B" ?ws "merge_start bf"] rec_sorted_sort_key [of "view_list v"] by blast
  have src: "mset (view_list v) = mset outs + mset (map fst ps) + mset (map snd ps)" using *(2) by simp
  have "length outs \<le> length (view_list v)"
    using arg_cong [OF src, of size] by simp
  moreover have "rec ` set outs \<subseteq> rec ` set (view_list v)"
    using arg_cong [OF src, of set_mset] by auto
  ultimately have "shard_data_ok B (view_list v) bf
      (fold (emit_record B) (map mask_header (filter (\<lambda>w. \<not> is_deleted w) outs)) (merge_start bf))"
    using *(4) net_after_cancel [OF src *(3) assms(2)]
    by (intro shard_data_okI [of _ outs]) simp_all
  then show ?thesis
    using *(1) copy_to_buffer_ok [OF assms(1)] by (simp add: sorted_array_from_bufferview_by_def)
qed

text \<open>
  C17. Building a sorted array from a well-formed buffer view ends without error and has the same
  guarantees as a merge: sorted by record, exact counts, net multiplicities kept, no tagged
  record, every tombstone in the filter.
\<close>

theorem sorted_array_from_bufferview_correct:
  assumes "view_wf v" and "policy_ok (view_list v)"
  shows "\<exists>out. sorted_array_from_bufferview B v bf = Inr out \<and> shard_data_ok B (view_list v) bf out"
  by (rule sorted_array_from_bufferview_ok [OF assms])

theorem sorted_array_from_bufferview_correct_witness:
  "\<exists>out. sorted_array_from_bufferview list_bloom
      (BufferView_new [\<lparr>header = 12, rec = (5::nat)\<rparr>, \<lparr>header = 21, rec = 5\<rparr>, \<lparr>header = 4, rec = 3\<rparr>] 3 2 4 0 (None :: unit option))
      (Some []) = Inr out \<and>
    shard_data_ok list_bloom [\<lparr>header = 4, rec = 3\<rparr>, \<lparr>header = 12, rec = 5\<rparr>] (Some []) out"
proof -
  let ?v = "BufferView_new [\<lparr>header = 12, rec = (5::nat)\<rparr>, \<lparr>header = 21, rec = 5\<rparr>, \<lparr>header = 4, rec = 3\<rparr>] 3 2 4 0 (None :: unit option)"
  have l: "view_list ?v = [\<lparr>header = 4, rec = 3\<rparr>, \<lparr>header = 12, rec = 5\<rparr>]"
    by (simp add: view_list_def ring_list_def BufferView_new_def upt_rec)
  have "view_wf ?v" by (simp add: view_wf_def BufferView_new_def)
  moreover have "policy_ok (view_list ?v)" unfolding l by (simp add: policy_ok_def is_deleted_def)
  ultimately show ?thesis using sorted_array_from_bufferview_correct [of ?v list_bloom "Some []"] unfolding l by blast
qed

text \<open>
  \<^verbatim>\<open>get_next\<close> returns a cursor whose next record is least, or none when every cursor is
  exhausted.
\<close>

definition next_rec :: "nat option \<Rightarrow> nat \<Rightarrow> 'a Cursor \<Rightarrow> 'a option" where
  "next_rec current i c =
     (let p = (if current = Some i then cptr c + 1 else cptr c) in
      if cnull c \<or> p \<ge> cend c then None else Some (carr c ! p))"

lemma get_next_loop_step:
  "get_next_loop current (c # cs) i best =
     get_next_loop current cs (Suc i)
       (case next_rec current i c of None \<Rightarrow> best
        | Some x \<Rightarrow> (case best of None \<Rightarrow> Some (x, i) | Some (m, j) \<Rightarrow> if x < m then Some (x, i) else best))"
  by (auto simp: next_rec_def Let_def Cursor_eq_def null_cursor_def split: option.splits)

definition best_ok :: "nat option \<Rightarrow> 'a::linorder Cursor list \<Rightarrow> nat \<Rightarrow> ('a \<times> nat) option \<Rightarrow> bool" where
  "best_ok current cs i best \<longleftrightarrow> (case best of
     None \<Rightarrow> \<forall>k<i. next_rec current k (cs ! k) = None
   | Some (m, j) \<Rightarrow> j < i \<and> next_rec current j (cs ! j) = Some m \<and>
       (\<forall>k<i. \<forall>x. next_rec current k (cs ! k) = Some x \<longrightarrow> m \<le> x))"

lemma get_next_loop_spec:
  assumes "best_ok current (pre @ cs) (length pre) best"
  shows "\<exists>best'. get_next_loop current cs (length pre) best = map_option snd best' \<and>
    best_ok current (pre @ cs) (length (pre @ cs)) best'"
  using assms
proof (induction cs arbitrary: pre best)
  case Nil
  then show ?case by auto
next
  case (Cons c cs)
  define b where "b = (case next_rec current (length pre) c of None \<Rightarrow> best
        | Some x \<Rightarrow> (case best of None \<Rightarrow> Some (x, length pre) | Some (m, j) \<Rightarrow> if x < m then Some (x, length pre) else best))"
  have "best_ok current ((pre @ [c]) @ cs) (length (pre @ [c])) b"
    using Cons.prems unfolding best_ok_def b_def
    by (auto simp: less_Suc_eq nth_append split: option.splits)
  from Cons.IH [OF this] show ?case
    by (simp only: get_next_loop_step b_def [symmetric]) simp
qed

lemma get_next_least:
  "case get_next cursors current of
     None \<Rightarrow> \<forall>k<length cursors. next_rec current k (cursors ! k) = None
   | Some j \<Rightarrow> j < length cursors \<and> (\<exists>m. next_rec current j (cursors ! j) = Some m \<and>
       (\<forall>k<length cursors. \<forall>x. next_rec current k (cursors ! k) = Some x \<longrightarrow> m \<le> x))"
proof -
  obtain b where "get_next cursors current = map_option snd b"
      and "best_ok current cursors (length cursors) b"
    using get_next_loop_spec [of current "[]" cursors None] by (auto simp: get_next_def best_ok_def)
  then show ?thesis by (cases b) (auto simp: best_ok_def)
qed
end
