(* ===== verification/DE_Wal.thy ===== *)
theory DE_Wal
  imports DE_Record
begin

text \<open>
  The write-ahead log (\<^verbatim>\<open>include/framework/structure/WriteAheadLogger.h\<close>). The file \<^verbatim>\<open>wal.log\<close> is
  an array of fixed-size entries, possibly followed by the first bytes of an entry whose write
  was cut short; the logger holds the sequence number of the next entry to write. System calls
  succeed (the source ignores the results of its writes). The mutex makes every operation
  atomic; \<open>DE_BufferConc\<close> models who holds it and who waits. Replaying the log into a buffer needs the buffer's \<^verbatim>\<open>append\<close> and follows in
  \<open>DE_Buffer\<close>; what it reads from the file is \<open>replay_records\<close> below.
\<close>

section \<open>Entries and the file\<close>

datatype WAL_ENTRY_TYPES = INSERT | DELETE | FLUSH_B | FLUSH_C

record 'r WAL_Entry =
  entry_type :: WAL_ENTRY_TYPES
  payload :: "'r Wrapped"

text \<open>The file: whole entries, and the number of bytes of an incomplete one after them.\<close>

record 'r wal_file =
  entries :: "'r WAL_Entry list"
  torn :: nat

record 'r WriteAheadLogger =
  wal_file :: "'r wal_file"
  m_lsn :: nat

text \<open>
  The constructor opens the file (creating an empty one when there is none) and sets the
  sequence number to \<^verbatim>\<open>st_size / sizeof(WAL_Entry)\<close>.
\<close>

definition empty_wal_file :: "'r wal_file" where
  "empty_wal_file = \<lparr>entries = [], torn = 0\<rparr>"

definition WriteAheadLogger_new :: "'r wal_file option \<Rightarrow> 'r WriteAheadLogger" where
  "WriteAheadLogger_new f =
     (let g = (case f of None \<Rightarrow> empty_wal_file | Some g \<Rightarrow> g)
      in \<lparr>wal_file = g, m_lsn = length (entries g)\<rparr>)"

text \<open>A value-initialised payload, \<^verbatim>\<open>entry.payload = {}\<close>.\<close>

definition empty_payload :: "'r::zero Wrapped" where
  "empty_payload = \<lparr>header = 0, rec = 0\<rparr>"

text \<open>
  \<^verbatim>\<open>pwrite\<close> at entry \<open>n\<close> of the file: it overwrites an existing entry or extends the file; bytes
  skipped over read as zero, that is, as entries of type 0 with an empty payload. A torn entry
  at the end is covered as soon as the file grows past it.
\<close>

definition pwrite_entry :: "'r::zero WAL_Entry \<Rightarrow> nat \<Rightarrow> 'r wal_file \<Rightarrow> 'r wal_file" where
  "pwrite_entry e n f =
     (if n < length (entries f) then f\<lparr>entries := (entries f)[n := e]\<rparr>
      else \<lparr>entries = entries f
               @ replicate (n - length (entries f)) \<lparr>entry_type = INSERT, payload = empty_payload\<rparr>
               @ [e],
            torn = 0\<rparr>)"

section \<open>Operations\<close>

definition wal_write :: "'r::zero WAL_Entry \<Rightarrow> 'r WriteAheadLogger \<Rightarrow> 'r WriteAheadLogger" where
  "wal_write e l = l\<lparr>wal_file := pwrite_entry e (m_lsn l) (wal_file l), m_lsn := Suc (m_lsn l)\<rparr>"

definition wal_truncate :: "'r WriteAheadLogger \<Rightarrow> 'r WriteAheadLogger" where
  "wal_truncate l = l\<lparr>wal_file := empty_wal_file, m_lsn := 0\<rparr>"

definition wal_append :: "'r::zero Wrapped \<Rightarrow> 'r WriteAheadLogger \<Rightarrow> 'r WriteAheadLogger" where
  "wal_append w l = wal_write \<lparr>entry_type = INSERT, payload = w\<rparr> l"

definition wal_remove :: "'r::zero Wrapped \<Rightarrow> 'r WriteAheadLogger \<Rightarrow> 'r WriteAheadLogger" where
  "wal_remove w l = wal_write \<lparr>entry_type = DELETE, payload = w\<rparr> l"

definition flush_begin :: "'r::zero WriteAheadLogger \<Rightarrow> 'r WriteAheadLogger" where
  "flush_begin l = wal_write \<lparr>entry_type = FLUSH_B, payload = empty_payload\<rparr> l"

text \<open>The loop of \<^verbatim>\<open>flush_complete\<close> over the file, with its local \<^verbatim>\<open>flush_began\<close>.\<close>

fun remaining_loop :: "'r WAL_Entry list \<Rightarrow> bool \<Rightarrow> 'r WAL_Entry list" where
  "remaining_loop [] flush_began = []"
| "remaining_loop (e # es) flush_began =
     (let began = (if entry_type e = FLUSH_B then True else flush_began) in
      if began \<and> entry_type e \<noteq> FLUSH_B \<and> entry_type e \<noteq> FLUSH_C
      then e # remaining_loop es began
      else remaining_loop es began)"

definition flush_complete :: "'r::zero WriteAheadLogger \<Rightarrow> 'r WriteAheadLogger" where
  "flush_complete l =
     (let l1 = wal_write \<lparr>entry_type = FLUSH_C, payload = empty_payload\<rparr> l;
          remaining = remaining_loop (entries (wal_file l1)) False
      in fold wal_write remaining (wal_truncate l1))"

text \<open>
  What \<^verbatim>\<open>build_buffer_from_log\<close> reads: the logged records in order, less every record for which a
  delete entry appears anywhere in the log.
\<close>

definition deleted_records :: "'r WAL_Entry list \<Rightarrow> 'r list" where
  "deleted_records es = map (\<lambda>e. rec (payload e)) (filter (\<lambda>e. entry_type e = DELETE) es)"

definition insert_entries :: "'r WAL_Entry list \<Rightarrow> 'r WAL_Entry list" where
  "insert_entries es =
     filter (\<lambda>e. entry_type e \<noteq> FLUSH_B \<and> entry_type e \<noteq> FLUSH_C \<and> entry_type e \<noteq> DELETE) es"

definition replay_records :: "'r wal_file \<Rightarrow> ('r \<times> bool) list" where
  "replay_records f =
     map (\<lambda>e. (rec (payload e), is_tombstone (payload e)))
       (filter (\<lambda>e. rec (payload e) \<notin> set (deleted_records (entries f))) (insert_entries (entries f)))"

section \<open>The log as a sequence of entries\<close>

text \<open>The logger's invariant: the next entry goes to the end of the file.\<close>

definition wal_wf :: "'r WriteAheadLogger \<Rightarrow> bool" where
  "wal_wf l \<longleftrightarrow> m_lsn l = length (entries (wal_file l))"

abbreviation log_of :: "'r WriteAheadLogger \<Rightarrow> 'r WAL_Entry list" where
  "log_of l \<equiv> entries (wal_file l)"

lemma wal_wf_new [simp]: "wal_wf (WriteAheadLogger_new f)"
  by (simp add: wal_wf_def WriteAheadLogger_new_def Let_def)

lemma log_of_new:
  "log_of (WriteAheadLogger_new f) = (case f of None \<Rightarrow> [] | Some g \<Rightarrow> entries g)"
  by (simp add: WriteAheadLogger_new_def Let_def empty_wal_file_def split: option.split)

lemma wal_write_wf:
  assumes "wal_wf l"
  shows "wal_wf (wal_write e l)" and "log_of (wal_write e l) = log_of l @ [e]"
    and "torn (wal_file (wal_write e l)) = 0"
  using assms by (simp_all add: wal_wf_def wal_write_def pwrite_entry_def)

lemma fold_wal_write:
  assumes "wal_wf l"
  shows "wal_wf (fold wal_write es l) \<and> log_of (fold wal_write es l) = log_of l @ es"
  using assms by (induction es arbitrary: l) (simp_all add: wal_write_wf)

lemma wal_ops_wf:
  assumes "wal_wf l"
  shows "wal_wf (wal_append w l)" and "wal_wf (wal_remove w l)" and "wal_wf (flush_begin l)"
    and "log_of (wal_append w l) = log_of l @ [\<lparr>entry_type = INSERT, payload = w\<rparr>]"
    and "log_of (wal_remove w l) = log_of l @ [\<lparr>entry_type = DELETE, payload = w\<rparr>]"
    and "log_of (flush_begin l) = log_of l @ [\<lparr>entry_type = FLUSH_B, payload = empty_payload\<rparr>]"
  using wal_write_wf [OF assms] by (simp_all add: wal_append_def wal_remove_def flush_begin_def)

text \<open>After the first \<^verbatim>\<open>FLUSH_B\<close>, every data entry is kept; before it, none is.\<close>

abbreviation is_data :: "'r WAL_Entry \<Rightarrow> bool" where
  "is_data e \<equiv> entry_type e = INSERT \<or> entry_type e = DELETE"

lemma is_data_iff: "is_data e \<longleftrightarrow> entry_type e \<noteq> FLUSH_B \<and> entry_type e \<noteq> FLUSH_C"
  by (cases "entry_type e") simp_all

lemma remaining_loop_True: "remaining_loop es True = filter is_data es"
  by (induction es) (simp_all add: Let_def is_data_iff)

lemma remaining_loop_False:
  "remaining_loop es False = filter is_data (dropWhile (\<lambda>e. entry_type e \<noteq> FLUSH_B) es)"
  by (induction es) (auto simp: Let_def remaining_loop_True is_data_iff)

lemma flush_complete_wf:
  assumes "wal_wf l"
  shows "wal_wf (flush_complete l)"
    and "log_of (flush_complete l) = filter is_data (dropWhile (\<lambda>e. entry_type e \<noteq> FLUSH_B) (log_of l))"
proof -
  have "wal_wf (wal_truncate l')" "log_of (wal_truncate l') = []" for l' :: "'a WriteAheadLogger"
    by (simp_all add: wal_wf_def wal_truncate_def empty_wal_file_def)
  moreover have "filter is_data (dropWhile (\<lambda>e. entry_type e \<noteq> FLUSH_B) (es @ [\<lparr>entry_type = FLUSH_C, payload = empty_payload\<rparr>])) =
      filter is_data (dropWhile (\<lambda>e. entry_type e \<noteq> FLUSH_B) es)" for es :: "'a WAL_Entry list"
    by (induction es) simp_all
  ultimately show "wal_wf (flush_complete l)"
    and "log_of (flush_complete l) = filter is_data (dropWhile (\<lambda>e. entry_type e \<noteq> FLUSH_B) (log_of l))"
    using wal_write_wf(2) [OF assms, of "\<lparr>entry_type = FLUSH_C, payload = empty_payload\<rparr>"]
    by (simp_all add: flush_complete_def Let_def fold_wal_write remaining_loop_False)
qed

text \<open>
  A flush bracketed by \<^verbatim>\<open>flush_begin\<close> and \<^verbatim>\<open>flush_complete\<close> leaves exactly the entries that were
  logged in between.
\<close>

lemma flush_bracket:
  assumes "wal_wf l" and "wal_wf l'" and "\<forall>e\<in>set (log_of l). is_data e"
    and "log_of l' = log_of (flush_begin l) @ es" and "\<forall>e\<in>set es. is_data e"
  shows "log_of (flush_complete l') = es"
proof -
  have "dropWhile (\<lambda>e. entry_type e \<noteq> FLUSH_B) (log_of l') =
      \<lparr>entry_type = FLUSH_B, payload = empty_payload\<rparr> # es"
    using assms(1,3,4) by (subst assms(4)) (auto simp: wal_ops_wf dropWhile_append is_data_iff)
  moreover have "filter is_data es = es" using assms(5) by (simp add: filter_id_conv)
  ultimately show ?thesis using flush_complete_wf(2) [OF assms(2)] by simp
qed

end
