(* ===== verification/DE_Buffer.thy ===== *)
theory DE_Buffer
  imports DE_View DE_Wal
begin

text \<open>
  The mutable buffer (\<^verbatim>\<open>include/framework/structure/MutableBuffer.h\<close>): a ring array that inserts
  fill at its tail, with two reference-counted heads, the current one and the one before the
  last flush. The operations are those of one thread at a time; \<open>DE_BufferConc\<close> interleaves
  their atomic steps.
\<close>

section \<open>The state\<close>

record buffer_head =
  head_idx :: nat
  refcnt :: nat

record ('r, 'f) MutableBuffer =
  m_lwm :: nat
  m_hwm :: nat
  m_cap :: nat
  m_tail :: nat
  m_head :: buffer_head
  m_old_head :: buffer_head
  m_data :: "'r Wrapped list"
  m_tombstone_filter :: "'f option"
  m_tscnt :: nat
  m_active_head_advance :: bool
  m_wal :: "'r WriteAheadLogger option"

section \<open>Appending\<close>

text \<open>
  \<^verbatim>\<open>try_advance_tail\<close> returns the old tail as an \<^verbatim>\<open>int64_t\<close>, or -1. Without other threads its
  compare-and-swap succeeds at once.
\<close>

definition try_advance_tail :: "('r, 'f) MutableBuffer \<Rightarrow> int \<times> ('r, 'f) MutableBuffer" where
  "try_advance_tail b =
     (let old_value = m_tail b in
      if sz_sub old_value (head_idx (m_head b)) \<ge> m_hwm b then (- 1, b)
      else (int old_value, b\<lparr>m_tail := sz_add old_value 1\<rparr>))"

text \<open>The conversion to the \<^verbatim>\<open>int32_t\<close> variable of \<^verbatim>\<open>append\<close>, and back to \<^verbatim>\<open>size_t\<close> in \<^verbatim>\<open>tail % m_cap\<close>.\<close>

definition to_int32 :: "int \<Rightarrow> int" where
  "to_int32 n = (n + 2 ^ 31) mod 2 ^ 32 - 2 ^ 31"

definition int_to_size :: "int \<Rightarrow> nat" where
  "int_to_size n = nat (n mod 2 ^ 64)"

definition new_wrapped :: "'r \<Rightarrow> bool \<Rightarrow> 'r Wrapped" where
  "new_wrapped r tombstone =
     (let wrec = \<lparr>header = 0, rec = r\<rparr> in if tombstone then set_tombstone True wrec else wrec)"

definition buffer_append ::
    "('f, 'r::zero) bloom_ops \<Rightarrow> 'r \<Rightarrow> bool \<Rightarrow> bool \<Rightarrow> ('r, 'f) MutableBuffer \<Rightarrow> nat \<times> ('r, 'f) MutableBuffer" where
  "buffer_append B r tombstone logging b =
     (let (t, b1) = try_advance_tail b; tail = to_int32 t in
      if tail = - 1 then (0, b1)
      else
        let wrec = new_wrapped r tombstone;
            pos = int_to_size tail mod m_cap b1;
            b2 = (if logging then b1\<lparr>m_wal := map_option (wal_append wrec) (m_wal b1)\<rparr> else b1);
            b3 = b2\<lparr>m_data := (m_data b2)[pos := set_timestamp (of_nat pos) wrec]\<rparr>;
            b4 = (if tombstone
                  then b3\<lparr>m_tscnt := sz_add (m_tscnt b3) 1,
                          m_tombstone_filter := map_option (bf_insert B r) (m_tombstone_filter b3)\<rparr>
                  else b3)
        in (1, b4\<lparr>m_data := (m_data b4)[pos := set_visible (m_data b4 ! pos)]\<rparr>))"

definition buffer_truncate :: "('f, 'r) bloom_ops \<Rightarrow> ('r, 'f) MutableBuffer \<Rightarrow> bool \<times> ('r, 'f) MutableBuffer" where
  "buffer_truncate B b =
     (True, b\<lparr>m_tscnt := 0, m_tail := 0, m_tombstone_filter := map_option (bf_clear B) (m_tombstone_filter b)\<rparr>)"

section \<open>Counts and watermarks\<close>

definition buffer_record_count :: "('r, 'f) MutableBuffer \<Rightarrow> nat" where
  "buffer_record_count b = sz_sub (m_tail b) (head_idx (m_head b))"

definition buffer_capacity :: "('r, 'f) MutableBuffer \<Rightarrow> nat" where
  "buffer_capacity b = m_cap b"

definition is_full :: "('r, 'f) MutableBuffer \<Rightarrow> bool" where
  "is_full b \<longleftrightarrow> buffer_record_count b \<ge> m_hwm b"

definition is_at_low_watermark :: "('r, 'f) MutableBuffer \<Rightarrow> bool" where
  "is_at_low_watermark b \<longleftrightarrow> buffer_record_count b \<ge> m_lwm b"

definition buffer_tombstone_count :: "('r, 'f) MutableBuffer \<Rightarrow> nat" where
  "buffer_tombstone_count b = m_tscnt b"

definition set_low_watermark :: "nat \<Rightarrow> ('r, 'f) MutableBuffer \<Rightarrow> ('r, 'f) MutableBuffer res" where
  "set_low_watermark lwm b = assertE (lwm < m_hwm b) (Inr (b\<lparr>m_lwm := lwm\<rparr>))"

definition set_high_watermark :: "nat \<Rightarrow> ('r, 'f) MutableBuffer \<Rightarrow> ('r, 'f) MutableBuffer res" where
  "set_high_watermark hwm b =
     assertE (hwm > m_lwm b) (assertE (hwm < m_cap b) (Inr (b\<lparr>m_hwm := hwm\<rparr>)))"

definition get_available_capacity :: "('r, 'f) MutableBuffer \<Rightarrow> nat" where
  "get_available_capacity b =
     (if refcnt (m_old_head b) = 0 then sz_sub (m_cap b) (sz_sub (m_tail b) (head_idx (m_head b)))
      else sz_sub (m_cap b) (sz_sub (m_tail b) (head_idx (m_old_head b))))"

section \<open>Heads and views\<close>

text \<open>
  \<^verbatim>\<open>get_head\<close> takes a reference on whichever head has the wanted index; a target that neither
  head has makes it loop for ever.
\<close>

definition get_head :: "nat \<Rightarrow> ('r, 'f) MutableBuffer \<Rightarrow> (nat \<times> ('r, 'f) MutableBuffer) res" where
  "get_head target b =
     (if head_idx (m_old_head b) = target then
        Inr (target, b\<lparr>m_old_head := \<lparr>head_idx = target, refcnt = sz_add (refcnt (m_old_head b)) 1\<rparr>\<rparr>)
      else if head_idx (m_head b) = target then
        Inr (target, b\<lparr>m_head := \<lparr>head_idx = target, refcnt = sz_add (refcnt (m_head b)) 1\<rparr>\<rparr>)
      else Inl Blocked)"

definition view_at :: "nat \<Rightarrow> ('r, 'f) MutableBuffer \<Rightarrow> ('r, 'f) BufferView" where
  "view_at head b = BufferView_new (m_data b) (m_cap b) head (m_tail b) (m_tscnt b) (m_tombstone_filter b)"

definition get_buffer_view_at ::
    "nat \<Rightarrow> ('r, 'f) MutableBuffer \<Rightarrow> (('r, 'f) BufferView \<times> ('r, 'f) MutableBuffer) res" where
  "get_buffer_view_at target b = bindE (get_head target b) (\<lambda>(head, b'). Inr (view_at head b', b'))"

definition get_buffer_view ::
    "('r, 'f) MutableBuffer \<Rightarrow> (('r, 'f) BufferView \<times> ('r, 'f) MutableBuffer) res" where
  "get_buffer_view b = get_buffer_view_at (head_idx (m_head b)) b"

text \<open>
  Releasing a reference, when a view is destroyed. With a count of zero the source spins until
  another thread changes it.
\<close>

definition release_head_reference :: "nat \<Rightarrow> ('r, 'f) MutableBuffer \<Rightarrow> ('r, 'f) MutableBuffer res" where
  "release_head_reference head b =
     (if head_idx (m_old_head b) = head then
        (if refcnt (m_old_head b) = 0 then Inl Blocked
         else Inr (b\<lparr>m_old_head := (m_old_head b)\<lparr>refcnt := refcnt (m_old_head b) - 1\<rparr>\<rparr>))
      else
        (if refcnt (m_head b) = 0 then Inl Blocked
         else Inr (b\<lparr>m_head := (m_head b)\<lparr>refcnt := refcnt (m_head b) - 1\<rparr>\<rparr>)))"

text \<open>
  \<^verbatim>\<open>~BufferView\<close>: an active view releases its head; a moved-from one does nothing. The ring array
  is shared, so a delete through the view is a write to the buffer's array: \<open>view_writeback\<close>.
\<close>

definition view_destroy :: "('r, 'f) BufferView \<Rightarrow> ('r, 'f) MutableBuffer \<Rightarrow> ('r, 'f) MutableBuffer res" where
  "view_destroy v b = (if v_active v then release_head_reference (v_head v) b else Inr b)"

definition view_writeback :: "('r, 'f) BufferView \<Rightarrow> ('r, 'f) MutableBuffer \<Rightarrow> ('r, 'f) MutableBuffer" where
  "view_writeback v b = b\<lparr>m_data := v_data v\<rparr>"

text \<open>
  \<^verbatim>\<open>check_tombstone\<close> works on a temporary view, which is released when it returns.
\<close>

definition buffer_check_tombstone ::
    "('f, 'r) bloom_ops \<Rightarrow> 'r \<Rightarrow> ('r, 'f) MutableBuffer \<Rightarrow> (bool \<times> ('r, 'f) MutableBuffer) res" where
  "buffer_check_tombstone B r b =
     bindE (get_buffer_view b) (\<lambda>(v, b1).
     bindE (view_check_tombstone B r v) (\<lambda>found.
     bindE (view_destroy v b1) (\<lambda>b2. Inr (found, b2))))"

text \<open>
  \<^verbatim>\<open>advance_head\<close> after a flush: the current head becomes the old one, unless somebody still
  reads the old one.
\<close>

definition advance_head :: "nat \<Rightarrow> ('r::zero, 'f) MutableBuffer \<Rightarrow> (bool \<times> ('r, 'f) MutableBuffer) res" where
  "advance_head new_head b =
     assertE (new_head > head_idx (m_head b)) (assertE (new_head \<le> m_tail b)
       (if refcnt (m_old_head b) > 0 then Inr (False, b)
        else
          let b1 = b\<lparr>m_wal := map_option flush_begin (m_wal b)\<rparr>;
              b2 = b1\<lparr>m_active_head_advance := True\<rparr>;
              b3 = b2\<lparr>m_head := \<lparr>head_idx = new_head, refcnt = 0\<rparr>, m_old_head := m_head b2\<rparr>;
              b4 = b3\<lparr>m_wal := map_option flush_complete (m_wal b3)\<rparr>
          in Inr (True, b4\<lparr>m_active_head_advance := False\<rparr>)))"

section \<open>Construction and log replay\<close>

fun replay_into :: "('f, 'r::zero) bloom_ops \<Rightarrow> ('r \<times> bool) list \<Rightarrow> ('r, 'f) MutableBuffer \<Rightarrow> ('r, 'f) MutableBuffer" where
  "replay_into B [] b = b"
| "replay_into B ((r, ts) # rs) b = replay_into B rs (snd (buffer_append B r ts False b))"

definition build_buffer_from_log ::
    "('f, 'r::zero) bloom_ops \<Rightarrow> 'r wal_file \<Rightarrow> ('r, 'f) MutableBuffer \<Rightarrow> ('r, 'f) MutableBuffer" where
  "build_buffer_from_log B f b = replay_into B (replay_records f) b"

text \<open>
  The constructor. \<open>bf0\<close> is a new filter; \<open>log\<close> is the file \<^verbatim>\<open>wal.log\<close> as the constructor finds it.
  The array is value-initialised.
\<close>

definition MutableBuffer_new ::
    "('f, 'r::zero) bloom_ops \<Rightarrow> 'f \<Rightarrow> nat \<Rightarrow> nat \<Rightarrow> nat \<Rightarrow> bool \<Rightarrow> 'r wal_file option \<Rightarrow> ('r, 'f) MutableBuffer res" where
  "MutableBuffer_new B bf0 low_watermark high_watermark capacity use_wal log =
     (let cap = (if capacity = 0 then 2 * high_watermark else capacity);
          b = \<lparr>m_lwm = low_watermark, m_hwm = high_watermark, m_cap = cap, m_tail = 0,
               m_head = \<lparr>head_idx = 0, refcnt = 0\<rparr>,
               m_old_head = \<lparr>head_idx = high_watermark, refcnt = 0\<rparr>,
               m_data = replicate cap empty_payload, m_tombstone_filter = Some bf0, m_tscnt = 0,
               m_active_head_advance = False,
               m_wal = (if use_wal then Some (WriteAheadLogger_new log) else None)\<rparr>
      in assertE (cap > high_watermark) (assertE (high_watermark \<ge> low_watermark)
        (Inr (case m_wal b of Some l \<Rightarrow> build_buffer_from_log B (wal_file l) b | None \<Rightarrow> b))))"

section \<open>The buffer as a list\<close>

definition buf_list :: "('r, 'f) MutableBuffer \<Rightarrow> 'r Wrapped list" where
  "buf_list b = ring_list (m_data b) (m_cap b) (head_idx (m_head b)) (m_tail b)"

text \<open>What a reader that holds the old head sees.\<close>

definition old_list :: "('r, 'f) MutableBuffer \<Rightarrow> 'r Wrapped list" where
  "old_list b = ring_list (m_data b) (m_cap b) (head_idx (m_old_head b)) (m_tail b)"

text \<open>
  The old head is meaningful after the first flush: then it lies below the current head, by at
  most a full buffer. Before that it holds the index \<open>m_hwm\<close> and no references.
\<close>

definition old_head_valid :: "('r, 'f) MutableBuffer \<Rightarrow> bool" where
  "old_head_valid b \<longleftrightarrow> head_idx (m_old_head b) < head_idx (m_head b) \<and>
     head_idx (m_head b) \<le> head_idx (m_old_head b) + m_hwm b"

definition buf_inv :: "('r, 'f) MutableBuffer \<Rightarrow> bool" where
  "buf_inv b \<longleftrightarrow> length (m_data b) = m_cap b \<and> 0 < m_hwm b \<and> m_hwm b < m_cap b \<and> m_lwm b \<le> m_hwm b \<and>
     head_idx (m_head b) \<le> m_tail b \<and> m_tail b \<le> head_idx (m_head b) + m_hwm b \<and>
     (old_head_valid b \<or> refcnt (m_old_head b) = 0 \<and> head_idx (m_old_head b) \<noteq> head_idx (m_head b)) \<and>
     (case m_wal b of None \<Rightarrow> True | Some l \<Rightarrow> wal_wf l)"

lemma buf_invD:
  assumes "buf_inv b"
  shows "length (m_data b) = m_cap b" "0 < m_hwm b" "m_hwm b < m_cap b" "m_lwm b \<le> m_hwm b"
    "head_idx (m_head b) \<le> m_tail b" "m_tail b \<le> head_idx (m_head b) + m_hwm b"
    "old_head_valid b \<or> refcnt (m_old_head b) = 0 \<and> head_idx (m_old_head b) \<noteq> head_idx (m_head b)"
    "head_idx (m_old_head b) \<noteq> head_idx (m_head b)"
    "\<And>l. m_wal b = Some l \<Longrightarrow> wal_wf l"
  using assms unfolding buf_inv_def old_head_valid_def by (auto split: option.splits)

lemma buffer_count [simp]: "buf_inv b \<Longrightarrow> buffer_record_count b = length (buf_list b)"
  by (simp add: buffer_record_count_def buf_list_def buf_invD)

lemma buf_list_length_le: "buf_inv b \<Longrightarrow> length (buf_list b) \<le> m_hwm b"
  using buf_invD(5,6) [of b] by (simp add: buf_list_def)

subsection \<open>Appending\<close>

text \<open>The stored form of a record: its flags, and its slot as the timestamp.\<close>

definition stamped :: "nat \<Rightarrow> 'r \<Rightarrow> bool \<Rightarrow> 'r Wrapped" where
  "stamped pos r ts = set_visible (set_timestamp (of_nat pos) (new_wrapped r ts))"

lemma stamped_simps [simp]:
  "rec (stamped pos r ts) = r" "is_tombstone (stamped pos r ts) = ts"
  "\<not> is_deleted (stamped pos r ts)" "is_visible (stamped pos r ts)"
  by (simp_all add: stamped_def new_wrapped_def Let_def)
     (simp_all add: flag_bits set_tombstone_def bit_one_two_four)

lemma to_int32_small:
  assumes "n < 2 ^ 31"
  shows "to_int32 (int n) = int n"
proof -
  have "int n < 2 ^ 31" using assms by (metis of_nat_less_iff of_nat_numeral of_nat_power)
  then show ?thesis by (simp add: to_int32_def)
qed

lemma int_to_size_small: "n < 2 ^ 31 \<Longrightarrow> int_to_size (int n) = n"
  by (simp add: int_to_size_def)

lemma buffer_append_room:
  assumes "buf_inv b" and "length (buf_list b) < m_hwm b" and "m_tail b < 2 ^ 31"
  shows "buffer_append B r ts logging b = (1, b\<lparr>m_tail := Suc (m_tail b),
      m_data := (m_data b)[m_tail b mod m_cap b := stamped (m_tail b mod m_cap b) r ts],
      m_tscnt := (if ts then sz_add (m_tscnt b) 1 else m_tscnt b),
      m_tombstone_filter := (if ts then map_option (bf_insert B r) (m_tombstone_filter b) else m_tombstone_filter b),
      m_wal := (if logging then map_option (wal_append (new_wrapped r ts)) (m_wal b) else m_wal b)\<rparr>)"
proof -
  have "sz_sub (m_tail b) (head_idx (m_head b)) < m_hwm b"
    using assms(1,2) buffer_count [of b] by (simp add: buffer_record_count_def)
  moreover have "sz_add (m_tail b) 1 = Suc (m_tail b)"
    using assms(3) by (simp add: size_max_def)
  moreover have "m_tail b mod m_cap b < length (m_data b)"
    using buf_invD(1-3) [OF assms(1)] by simp
  ultimately show ?thesis
    using assms(3) by (simp add: buffer_append_def try_advance_tail_def to_int32_small int_to_size_small
        Let_def stamped_def)
qed

lemma buffer_append_full:
  assumes "buf_inv b" and "length (buf_list b) = m_hwm b"
  shows "buffer_append B r ts logging b = (0, b)"
proof -
  have "sz_sub (m_tail b) (head_idx (m_head b)) = m_hwm b"
    using assms(1,2) buffer_count [of b] by (simp add: buffer_record_count_def)
  then show ?thesis by (simp add: buffer_append_def try_advance_tail_def to_int32_def)
qed

lemma ring_list_fresh:
  assumes "cap = length data" and "head \<le> tail" and "tail - head < cap"
  shows "ring_list (data[tail mod cap := x]) cap head (Suc tail) = ring_list data cap head tail @ [x]"
proof -
  have "ring_list (data[(head + (tail - head)) mod cap := x]) cap head (Suc tail) =
      (ring_list data cap head (Suc tail))[tail - head := x]"
    by (rule ring_list_update) (use assms in simp_all)
  then show ?thesis using assms(2) by (simp add: ring_list_snoc list_update_append)
qed

lemma buffer_append_refines:
  assumes "buf_inv b" and "length (buf_list b) < m_hwm b" and "m_tail b < 2 ^ 31"
    and eq: "buffer_append B r ts logging b = (n, b')"
  shows "n = 1" "buf_inv b'" "buf_list b' = buf_list b @ [stamped (m_tail b mod m_cap b) r ts]"
    "m_cap b' = m_cap b" "m_head b' = m_head b" "m_old_head b' = m_old_head b" "m_hwm b' = m_hwm b"
    "m_tail b' = Suc (m_tail b)"
    "2 * m_hwm b \<le> m_cap b \<Longrightarrow> old_head_valid b \<Longrightarrow>
      old_list b' = old_list b @ [stamped (m_tail b mod m_cap b) r ts]"
proof -
  note inv = buf_invD [OF assms(1)]
  note b' = eq [unfolded buffer_append_room [OF assms(1-3)], symmetric]
  show "n = 1" "m_cap b' = m_cap b" "m_head b' = m_head b" "m_old_head b' = m_old_head b"
    "m_hwm b' = m_hwm b" "m_tail b' = Suc (m_tail b)"
    using b' by auto
  have lt: "m_tail b < head_idx (m_head b) + m_hwm b"
    using assms(2) inv(5,6) by (simp add: buf_list_def)
  show "buf_list b' = buf_list b @ [stamped (m_tail b mod m_cap b) r ts]"
    using b' inv lt by (simp add: buf_list_def ring_list_fresh)
  show "buf_inv b'"
    using b' inv lt unfolding buf_inv_def old_head_valid_def
    by (auto simp: wal_ops_wf split: option.splits)
  show "old_list b' = old_list b @ [stamped (m_tail b mod m_cap b) r ts]"
    if "2 * m_hwm b \<le> m_cap b" "old_head_valid b"
  proof -
    have "head_idx (m_old_head b) \<le> m_tail b" "m_tail b - head_idx (m_old_head b) < m_cap b"
      using that lt inv(5) unfolding old_head_valid_def by linarith+
    then show ?thesis using b' inv(1) by (simp add: old_list_def ring_list_fresh)
  qed
qed

subsection \<open>Views\<close>

lemma get_buffer_view_ok:
  assumes "buf_inv b" and "Suc (refcnt (m_head b)) < size_max"
  shows "get_buffer_view b = Inr (view_at (head_idx (m_head b)) b,
      b\<lparr>m_head := (m_head b)\<lparr>refcnt := Suc (refcnt (m_head b))\<rparr>\<rparr>)"
  using buf_invD(8) [OF assms(1)] assms(2)
  by (cases "m_head b") (simp add: get_buffer_view_def get_buffer_view_at_def get_head_def view_at_def)

lemma get_buffer_view_at_head:
  assumes "buf_inv b" and "Suc (refcnt (m_head b)) < size_max" and "head = head_idx (m_head b)"
  shows "get_buffer_view_at head b = Inr (view_at head b,
      b\<lparr>m_head := (m_head b)\<lparr>refcnt := Suc (refcnt (m_head b))\<rparr>\<rparr>)"
  using get_buffer_view_ok [OF assms(1,2)] assms(3) by (simp add: get_buffer_view_def)

lemma view_at_wf:
  assumes "buf_inv b"
  shows "view_wf (view_at (head_idx (m_head b)) b)"
    and "view_list (view_at (head_idx (m_head b)) b) = buf_list b"
    and "v_active (view_at h b)" and "v_head (view_at h b) = h" and "v_tail (view_at h b) = m_tail b"
  using buf_invD [OF assms]
  by (simp_all add: view_wf_def view_at_def BufferView_new_def view_list_def buf_list_def)

lemma view_at_old_wf:
  assumes "buf_inv b" and "old_head_valid b" and "2 * m_hwm b \<le> m_cap b"
    and "length (buf_list b) < m_hwm b"
  shows "view_wf (view_at (head_idx (m_old_head b)) b)"
    and "view_list (view_at (head_idx (m_old_head b)) b) = old_list b"
  using buf_invD [OF assms(1)] assms(2-4)
  by (auto simp: view_wf_def view_at_def BufferView_new_def view_list_def old_list_def old_head_valid_def
      buf_list_def)

lemma buf_inv_refcnt:
  assumes "buf_inv b"
  shows "buf_inv (b\<lparr>m_head := (m_head b)\<lparr>refcnt := n\<rparr>\<rparr>)"
    "buf_list (b\<lparr>m_head := (m_head b)\<lparr>refcnt := n\<rparr>\<rparr>) = buf_list b"
  using assms by (simp_all add: buf_inv_def buf_list_def old_head_valid_def)

text \<open>Acquiring a view and destroying it leaves the buffer as it was.\<close>

lemma view_round_trip:
  assumes "buf_inv b" and "Suc (refcnt (m_head b)) < size_max" and "get_buffer_view b = Inr (v, b1)"
  shows "view_destroy v b1 = Inr b"
  using assms(3) buf_invD(8) [OF assms(1)]
  by (auto simp: get_buffer_view_ok [OF assms(1,2)] view_destroy_def view_at_wf [OF assms(1)] release_head_reference_def)

subsection \<open>Advancing the head\<close>

lemma advance_head_ok:
  assumes "buf_inv b" and "head_idx (m_head b) < new_head" and "new_head \<le> m_tail b"
    and "refcnt (m_old_head b) = 0"
  shows "\<exists>b'. advance_head new_head b = Inr (True, b') \<and> buf_inv b' \<and> old_head_valid b' \<and>
    buf_list b' = drop (new_head - head_idx (m_head b)) (buf_list b) \<and>
    old_list b' = buf_list b \<and> m_old_head b' = m_head b \<and>
    m_head b' = \<lparr>head_idx = new_head, refcnt = 0\<rparr> \<and> m_tail b' = m_tail b \<and> m_cap b' = m_cap b \<and>
    m_hwm b' = m_hwm b \<and> m_lwm b' = m_lwm b \<and> m_data b' = m_data b \<and>
    m_tscnt b' = m_tscnt b \<and> m_tombstone_filter b' = m_tombstone_filter b \<and>
    m_wal b' = map_option (\<lambda>l. flush_complete (flush_begin l)) (m_wal b)"
proof -
  note inv = buf_invD [OF assms(1)]
  have "buf_list b = ring_list (m_data b) (m_cap b) (head_idx (m_head b)) new_head @
      ring_list (m_data b) (m_cap b) new_head (m_tail b)"
    using assms(2,3) unfolding buf_list_def by (intro ring_list_append) simp_all
  then have "drop (new_head - head_idx (m_head b)) (buf_list b) =
      ring_list (m_data b) (m_cap b) new_head (m_tail b)" by simp
  then show ?thesis
    using assms inv
    by (auto simp: advance_head_def Let_def buf_inv_def old_head_valid_def buf_list_def old_list_def
        option.map_comp comp_def wal_ops_wf flush_complete_wf split: option.splits)
qed

subsection \<open>The log mirrors the buffer\<close>

definition contents :: "'r Wrapped list \<Rightarrow> ('r \<times> bool) list" where
  "contents ws = map (\<lambda>w. (rec w, is_tombstone w)) ws"

lemma contents_simps [simp]:
  "contents [] = []" "contents (w # ws) = (rec w, is_tombstone w) # contents ws"
  "contents (ws @ vs) = contents ws @ contents vs" "length (contents ws) = length ws"
  by (simp_all add: contents_def)

definition log_mirrors :: "('r, 'f) MutableBuffer \<Rightarrow> bool" where
  "log_mirrors b \<longleftrightarrow> (\<exists>l. m_wal b = Some l \<and> wal_wf l \<and> (\<forall>e\<in>set (log_of l). entry_type e = INSERT) \<and>
     contents (map payload (log_of l)) = contents (buf_list b))"

lemma replay_inserts:
  assumes "\<forall>e\<in>set (entries f). entry_type e = INSERT"
  shows "replay_records f = contents (map payload (entries f))"
proof -
  have "deleted_records (entries f) = []" "insert_entries (entries f) = entries f"
    using assms by (auto simp: deleted_records_def insert_entries_def filter_id_conv filter_empty_conv)
  then show ?thesis by (simp add: replay_records_def contents_def)
qed

lemma replay_into_fills:
  assumes "buf_inv b" and "length (buf_list b) + length rs \<le> m_hwm b" and "m_tail b + length rs \<le> 2 ^ 31"
  shows "buf_inv (replay_into B rs b) \<and> contents (buf_list (replay_into B rs b)) = contents (buf_list b) @ rs \<and>
    m_wal (replay_into B rs b) = m_wal b"
  using assms
proof (induction B rs b rule: replay_into.induct)
  case (2 B r ts rs b)
  obtain n b' where eq: "buffer_append B r ts False b = (n, b')" by fastforce
  have len: "length (buf_list b) < m_hwm b" "m_tail b < 2 ^ 31" using "2.prems" by simp_all
  note ap = buffer_append_refines [OF "2.prems"(1) len eq]
  have "m_wal b' = m_wal b" using eq buffer_append_room [OF "2.prems"(1) len, of B r ts False] by auto
  then show ?case using "2.IH" ap "2.prems" eq by simp
qed simp

lemma log_mirrors_append:
  assumes "buf_inv b" and "log_mirrors b" and "m_tail b < 2 ^ 31"
  shows "log_mirrors (snd (buffer_append B r ts True b))"
proof (cases "length (buf_list b) < m_hwm b")
  case True
  obtain n b' where eq: "buffer_append B r ts True b = (n, b')" by fastforce
  obtain l where l: "m_wal b = Some l" "wal_wf l" using assms(2) by (auto simp: log_mirrors_def)
  have "m_wal b' = Some (wal_append (new_wrapped r ts) l)"
    using eq l buffer_append_room [OF assms(1) True assms(3), of B r ts True] by auto
  moreover have "contents [new_wrapped r ts] = [(r, ts)]"
    by (simp add: new_wrapped_def Let_def) (simp add: flag_bits)
  ultimately show ?thesis
    using buffer_append_refines(3) [OF assms(1) True assms(3) eq] assms(2) l
    by (auto simp: log_mirrors_def eq wal_ops_wf)
next
  case False
  then show ?thesis
    using buffer_append_full [OF assms(1)] buf_list_length_le [OF assms(1)] assms(2) by simp
qed

lemma log_mirrors_flush:
  assumes "buf_inv b" and "log_mirrors b" and "advance_head (m_tail b) b = Inr (True, b')"
  shows "log_mirrors b' \<and> buf_list b' = []"
proof -
  obtain l where l: "m_wal b = Some l" "wal_wf l" "\<forall>e\<in>set (log_of l). entry_type e = INSERT"
    using assms(2) by (auto simp: log_mirrors_def)
  have "log_of (flush_complete (flush_begin l)) = []"
    using flush_bracket [of l "flush_begin l" "[]"] l by (simp add: wal_ops_wf)
  moreover have "wal_wf (flush_complete (flush_begin l))" using l by (simp add: wal_ops_wf flush_complete_wf)
  moreover have "head_idx (m_head b) < m_tail b" "refcnt (m_old_head b) = 0"
    using assms(3) by (auto simp: advance_head_def split: if_splits)
  ultimately show ?thesis
    using advance_head_ok [OF assms(1), of "m_tail b"] assms(3) l(1)
    by (auto simp: log_mirrors_def buf_list_def)
qed

section \<open>Properties of the buffer and its log\<close>

text \<open>
  C18. The buffer refines an append-only list bounded by the high watermark: below it an insert
  returns 1 and adds the record, stamped and visible, at the end; at the watermark it returns 0
  and changes nothing. The invariant is kept. (For tails below \<open>2 ^ 31\<close>; see the next property
  for what happens above.)
\<close>

theorem buffer_append_correct:
  assumes "buf_inv b" and "m_tail b < 2 ^ 31" and "buffer_append B r ts logging b = (n, b')"
  shows "buf_inv b' \<and>
    (if length (buf_list b) < m_hwm b
     then n = 1 \<and> buf_list b' = buf_list b @ [stamped (m_tail b mod m_cap b) r ts]
     else n = 0 \<and> b' = b)"
proof (cases "length (buf_list b) < m_hwm b")
  case True
  then show ?thesis using buffer_append_refines [OF assms(1) True assms(2,3)] by simp
next
  case False
  then have "length (buf_list b) = m_hwm b" using buf_list_length_le [OF assms(1)] by simp
  then show ?thesis using buffer_append_full [OF assms(1)] assms(1,3) by simp
qed

definition demo_buffer :: "nat \<Rightarrow> nat \<Rightarrow> nat \<Rightarrow> nat \<Rightarrow> (nat, nat list) MutableBuffer" where
  "demo_buffer old head tail cap =
     \<lparr>m_lwm = 1, m_hwm = 3, m_cap = cap, m_tail = tail, m_head = \<lparr>head_idx = head, refcnt = 0\<rparr>,
      m_old_head = \<lparr>head_idx = old, refcnt = 1\<rparr>, m_data = replicate cap \<lparr>header = 4, rec = 0\<rparr>,
      m_tombstone_filter = Some [], m_tscnt = 0, m_active_head_advance = False,
      m_wal = Some (WriteAheadLogger_new None)\<rparr>"

lemma demo_buffer_inv: "buf_inv (demo_buffer 2 4 6 6)" "old_head_valid (demo_buffer 2 4 6 6)"
  by (simp_all add: buf_inv_def old_head_valid_def demo_buffer_def)

theorem buffer_append_correct_witness:
  "\<exists>n b'. buffer_append list_bloom 7 True True (demo_buffer 2 4 6 6) = (n, b') \<and> buf_inv b' \<and> n = 1"
proof -
  obtain n b' where eq: "buffer_append list_bloom 7 True True (demo_buffer 2 4 6 6) = (n, b')" by fastforce
  have "length (buf_list (demo_buffer 2 4 6 6)) < m_hwm (demo_buffer 2 4 6 6)"
    by (simp add: demo_buffer_def buf_list_def)
  then show ?thesis
    using buffer_append_correct [OF demo_buffer_inv(1) _ eq] eq by (auto simp: demo_buffer_def)
qed

text \<open>
  C19. A reader that still holds the head from before the last flush keeps its records: with room
  for two full buffers (the default capacity), an insert only adds to what the old head sees,
  although it reuses the slots of still older records.
\<close>

theorem buffer_append_keeps_old_view:
  assumes "buf_inv b" and "m_tail b < 2 ^ 31" and "2 * m_hwm b \<le> m_cap b" and "old_head_valid b"
    and "buffer_append B r ts logging b = (n, b')"
  shows "old_head_valid b' \<and> (if n = 1 then \<exists>w. old_list b' = old_list b @ [w] \<and> rec w = r else old_list b' = old_list b)"
proof (cases "length (buf_list b) < m_hwm b")
  case True
  then show ?thesis
    using buffer_append_refines [OF assms(1) True assms(2,5)] assms(3,4)
    by (auto simp: old_head_valid_def)
next
  case False
  then have "length (buf_list b) = m_hwm b" using buf_list_length_le [OF assms(1)] by simp
  then show ?thesis using buffer_append_full [OF assms(1)] assms(4,5) by simp
qed

theorem buffer_append_keeps_old_view_witness:
  "\<exists>w b'. buffer_append list_bloom 7 True True (demo_buffer 2 4 6 6) = (1, b') \<and>
     old_list b' = [\<lparr>header = 4, rec = 0\<rparr>, \<lparr>header = 4, rec = 0\<rparr>, \<lparr>header = 4, rec = 0\<rparr>, \<lparr>header = 4, rec = 0\<rparr>, w]"
proof -
  obtain n b' where eq: "buffer_append list_bloom 7 True True (demo_buffer 2 4 6 6) = (n, b')" by fastforce
  have room: "length (buf_list (demo_buffer 2 4 6 6)) < m_hwm (demo_buffer 2 4 6 6)" "m_tail (demo_buffer 2 4 6 6) < 2 ^ 31"
    by (simp_all add: demo_buffer_def buf_list_def)
  have "n = 1" using eq buffer_append_room [OF demo_buffer_inv(1) room] by simp
  moreover have "old_list (demo_buffer 2 4 6 6) =
      [\<lparr>header = 4, rec = 0\<rparr>, \<lparr>header = 4, rec = 0\<rparr>, \<lparr>header = 4, rec = 0\<rparr>, \<lparr>header = 4, rec = 0\<rparr>]"
    by (simp add: old_list_def demo_buffer_def ring_list_def upt_rec)
  ultimately show ?thesis
    using buffer_append_keeps_old_view [OF demo_buffer_inv(1) room(2) _ demo_buffer_inv(2) eq] eq
    by (auto simp: demo_buffer_def)
qed

text \<open>The conversions above \<open>2 ^ 31\<close>.\<close>

lemma to_int32_large:
  assumes "2 ^ 31 \<le> t" and "t < 2 ^ 32"
  shows "to_int32 (int t) = int t - 2 ^ 32"
proof -
  have "int (2 ^ 31) \<le> int t" "int t < int (2 ^ 32)" using assms by (simp_all only: of_nat_le_iff of_nat_less_iff)
  then have "(int t - 2 ^ 31) mod 2 ^ 32 = int t - 2 ^ 31" by (intro mod_pos_pos_trivial) simp_all
  moreover have "int t + 2 ^ 31 = (int t - 2 ^ 31) + 2 ^ 32" by simp
  ultimately have "(int t + 2 ^ 31) mod 2 ^ 32 = int t - 2 ^ 31" by (simp only: mod_add_self2)
  then have "to_int32 (int t) = int t - 2 ^ 31 - 2 ^ 31" by (simp only: to_int32_def)
  then show ?thesis by simp
qed

lemma int_to_size_negative:
  assumes "2 ^ 31 \<le> t" and "t < 2 ^ 32"
  shows "int_to_size (int t - 2 ^ 32) = 2 ^ 64 - 2 ^ 32 + t"
proof -
  have "int t < int (2 ^ 32)" using assms by (simp only: of_nat_less_iff)
  then have "(int t - 2 ^ 32) mod 2 ^ 64 = int t - 2 ^ 32 + 2 ^ 64"
    using mod_pos_pos_trivial [of "int t - 2 ^ 32 + 2 ^ 64" "2 ^ 64"] mod_add_self2 [of "int t - 2 ^ 32" "2 ^ 64"] by simp
  then show ?thesis by (simp add: int_to_size_def)
qed

text \<open>
  C20. From tail \<open>2 ^ 31\<close> to \<open>2 ^ 32 - 2\<close> the \<^verbatim>\<open>int32_t\<close> in \<^verbatim>\<open>append\<close> is negative, and an append
  with room writes the record to slot \<open>(2 ^ 64 - 2 ^ 32 + tail) mod cap\<close> instead of \<open>tail mod cap\<close>, the slot that
  the views count; the two agree exactly when the number of slots divides \<open>2 ^ 64 - 2 ^ 32\<close>, and
  otherwise the counted slot keeps what it held. At tail \<open>2 ^ 32 - 1\<close>, whatever the number of slots, the
  call reports failure although the tail has been advanced, so the buffer gains a slot nobody wrote.
\<close>

theorem append_int32_overflow:
  assumes "buf_inv b" and "length (buf_list b) < m_hwm b" and "2 ^ 31 \<le> m_tail b" and "m_tail b < 2 ^ 32"
  shows "let t = m_tail b; k = (2 ^ 64 - 2 ^ 32 + t) mod m_cap b in
    (k = t mod m_cap b \<longleftrightarrow> m_cap b dvd 2 ^ 64 - 2 ^ 32) \<and>
    (t < 2 ^ 32 - 1 \<longrightarrow> (\<exists>b'. buffer_append B r ts logging b = (1, b') \<and> m_tail b' = Suc t \<and>
       m_data b' = (m_data b)[k := stamped k r ts] \<and>
       (\<not> m_cap b dvd 2 ^ 64 - 2 ^ 32 \<longrightarrow> m_data b' ! (t mod m_cap b) = m_data b ! (t mod m_cap b)))) \<and>
    (t = 2 ^ 32 - 1 \<longrightarrow> (\<exists>b'. buffer_append B r ts logging b = (0, b') \<and> buf_list b' = buf_list b @ [m_data b ! (t mod m_cap b)]))"
proof -
  define t k where "t = m_tail b" and "k = (2 ^ 64 - 2 ^ 32 + t) mod m_cap b"
  have room: "sz_sub t (head_idx (m_head b)) < m_hwm b"
    using assms(1,2) buffer_count [of b] by (simp add: buffer_record_count_def t_def)
  have inc: "sz_add t 1 = Suc t" using assms(4) by (simp add: size_max_def t_def)
  have k: "k < length (m_data b)" using buf_invD(1-3) [OF assms(1)] by (simp add: k_def)
  have i32: "to_int32 (int t) = int t - 2 ^ 32" and pos: "int_to_size (int t - 2 ^ 32) mod m_cap b = k"
    using to_int32_large int_to_size_negative assms(3,4) by (simp_all add: t_def k_def)
  have slot: "k = t mod m_cap b \<longleftrightarrow> m_cap b dvd 2 ^ 64 - 2 ^ 32"
    unfolding k_def using mod_eq_dvd_iff_nat [of t "2 ^ 64 - 2 ^ 32 + t" "m_cap b"] by simp
  have "\<exists>b'. buffer_append B r ts logging b = (1, b') \<and> m_tail b' = Suc t \<and> m_data b' = (m_data b)[k := stamped k r ts]"
    if "t < 2 ^ 32 - 1"
  proof -
    have "int t < int (2 ^ 32 - 1)" using that by (simp only: of_nat_less_iff)
    then have "int t - 2 ^ 32 \<noteq> - 1" by simp
    then show ?thesis
      using room inc k pos i32 unfolding buffer_append_def try_advance_tail_def t_def [symmetric]
      by (simp add: Let_def stamped_def t_def [symmetric])
  qed
  moreover have "(m_data b)[k := x] ! (t mod m_cap b) = m_data b ! (t mod m_cap b)" if "\<not> m_cap b dvd 2 ^ 64 - 2 ^ 32" for x
    using slot that by simp
  moreover have "\<exists>b'. buffer_append B r ts logging b = (0, b') \<and> buf_list b' = buf_list b @ [m_data b ! (t mod m_cap b)]"
    if "t = 2 ^ 32 - 1"
  proof -
    have "int t = int (2 ^ 32 - 1)" using that by (simp only:)
    then have "int t - 2 ^ 32 = - 1" by simp
    then have "buffer_append B r ts logging b = (0, b\<lparr>m_tail := Suc t\<rparr>)"
      using room inc i32 unfolding buffer_append_def try_advance_tail_def t_def [symmetric]
      by (simp add: Let_def t_def [symmetric])
    then show ?thesis using buf_invD(5) [OF assms(1)] by (simp add: buf_list_def ring_list_snoc t_def)
  qed
  ultimately show ?thesis using slot unfolding Let_def t_def [symmetric] k_def [symmetric] by metis
qed

theorem append_int32_overflow_witness:
  "\<exists>b'. buffer_append list_bloom 7 False False (demo_buffer (2 ^ 31 - 2) (2 ^ 31 - 1) (2 ^ 31) 2000) = (1, b') \<and>
     m_data b' ! (2 ^ 31 mod 2000) = \<lparr>header = 4, rec = 0\<rparr>"
proof -
  let ?b = "demo_buffer (2 ^ 31 - 2) (2 ^ 31 - 1) (2 ^ 31) 2000"
  have "buf_inv ?b" "length (buf_list ?b) < m_hwm ?b" "2 ^ 31 \<le> m_tail ?b" "m_tail ?b < 2 ^ 32"
    by (simp_all add: demo_buffer_def buf_inv_def old_head_valid_def buf_list_def)
  from append_int32_overflow [OF this, of list_bloom 7 False False] show ?thesis
    by (auto simp: demo_buffer_def Let_def)
qed

text \<open>Runs of a buffer with logging: inserts, and flushes of everything the buffer holds.\<close>

datatype 'r buf_op = Append 'r bool | Flush

fun buf_exec :: "('f, 'r::zero) bloom_ops \<Rightarrow> 'r buf_op \<Rightarrow> ('r, 'f) MutableBuffer \<Rightarrow> ('r, 'f) MutableBuffer res" where
  "buf_exec B (Append r ts) b = Inr (snd (buffer_append B r ts True b))"
| "buf_exec B Flush b =
     (if head_idx (m_head b) < m_tail b then bindE (advance_head (m_tail b) b) (\<lambda>(ok, b'). Inr b') else Inr b)"

fun buf_run :: "('f, 'r::zero) bloom_ops \<Rightarrow> 'r buf_op list \<Rightarrow> ('r, 'f) MutableBuffer \<Rightarrow> ('r, 'f) MutableBuffer res" where
  "buf_run B [] b = Inr b"
| "buf_run B (op # ops) b = bindE (buf_exec B op b) (buf_run B ops)"

text \<open>The specification: the records inserted since the last flush, up to the watermark.\<close>

fun spec_exec :: "nat \<Rightarrow> 'r buf_op \<Rightarrow> ('r \<times> bool) list \<Rightarrow> ('r \<times> bool) list" where
  "spec_exec hwm (Append r ts) xs = (if length xs < hwm then xs @ [(r, ts)] else xs)"
| "spec_exec hwm Flush xs = []"

definition spec_run :: "nat \<Rightarrow> 'r buf_op list \<Rightarrow> ('r \<times> bool) list \<Rightarrow> ('r \<times> bool) list" where
  "spec_run hwm ops xs = fold (spec_exec hwm) ops xs"

definition run_inv :: "('r, 'f) MutableBuffer \<Rightarrow> bool" where
  "run_inv b \<longleftrightarrow> buf_inv b \<and> log_mirrors b \<and> refcnt (m_old_head b) = 0 \<and> refcnt (m_head b) = 0"

lemma buf_exec_ok:
  assumes "run_inv b" and "m_tail b < 2 ^ 31"
  shows "\<exists>b'. buf_exec B op b = Inr b' \<and> run_inv b' \<and> m_tail b' \<le> Suc (m_tail b) \<and> m_hwm b' = m_hwm b \<and>
    contents (buf_list b') = spec_exec (m_hwm b) op (contents (buf_list b))"
proof (cases op)
  case (Append r ts)
  obtain n b' where eq: "buffer_append B r ts True b = (n, b')" by fastforce
  have inv: "buf_inv b" "log_mirrors b" using assms(1) by (simp_all add: run_inv_def)
  have mir: "log_mirrors b'" using log_mirrors_append [OF inv assms(2), of B r ts] eq by simp
  show ?thesis
  proof (cases "length (buf_list b) < m_hwm b")
    case True
    from buffer_append_refines [OF inv(1) True assms(2) eq] show ?thesis
      using Append eq mir True assms(1) by (auto simp: run_inv_def)
  next
    case False
    then have "b' = b" using buffer_append_full [OF inv(1)] buf_list_length_le [OF inv(1)] eq by simp
    then show ?thesis using Append eq False assms(1) by auto
  qed
next
  case Flush
  show ?thesis
  proof (cases "head_idx (m_head b) < m_tail b")
    case True
    then obtain b' where b': "advance_head (m_tail b) b = Inr (True, b')" "buf_inv b'" "m_tail b' = m_tail b"
        "m_old_head b' = m_head b" "refcnt (m_head b') = 0" "m_hwm b' = m_hwm b"
      using advance_head_ok [of b "m_tail b"] assms(1) by (auto simp: run_inv_def)
    moreover have "log_mirrors b'" "buf_list b' = []"
      using log_mirrors_flush [OF _ _ b'(1)] assms(1) by (auto simp: run_inv_def)
    ultimately show ?thesis using Flush True assms(1) by (auto simp: run_inv_def)
  next
    case False
    then show ?thesis using Flush assms(1) by (auto simp: run_inv_def buf_list_def ring_list_def)
  qed
qed

lemma buf_run_ok:
  assumes "run_inv b" and "m_tail b + length ops \<le> 2 ^ 31"
  shows "\<exists>b'. buf_run B ops b = Inr b' \<and> run_inv b' \<and> m_hwm b' = m_hwm b \<and>
    contents (buf_list b') = spec_run (m_hwm b) ops (contents (buf_list b))"
  using assms
proof (induction ops arbitrary: b)
  case (Cons op ops)
  obtain b1 where "buf_exec B op b = Inr b1" "run_inv b1" "m_tail b1 \<le> Suc (m_tail b)" "m_hwm b1 = m_hwm b"
      "contents (buf_list b1) = spec_exec (m_hwm b) op (contents (buf_list b))"
    using buf_exec_ok [OF Cons.prems(1), of B op] Cons.prems(2) by auto
  then show ?case using Cons.IH [of b1] Cons.prems(2) by (simp add: spec_run_def)
qed (simp add: spec_run_def)

lemma MutableBuffer_new_ok:
  assumes "0 < hwm" and "lwm \<le> hwm" and "\<forall>e\<in>set (entries f). entry_type e = INSERT"
    and "length (entries f) \<le> hwm" and "length (entries f) \<le> 2 ^ 31"
  shows "\<exists>b. MutableBuffer_new B bf0 lwm hwm 0 True (Some f) = Inr b \<and> buf_inv b \<and>
    contents (buf_list b) = contents (map payload (entries f))"
proof -
  define b0 where "b0 = \<lparr>m_lwm = lwm, m_hwm = hwm, m_cap = 2 * hwm, m_tail = 0,
    m_head = \<lparr>head_idx = 0, refcnt = 0\<rparr>, m_old_head = \<lparr>head_idx = hwm, refcnt = 0\<rparr>,
    m_data = replicate (2 * hwm) empty_payload, m_tombstone_filter = Some bf0, m_tscnt = 0,
    m_active_head_advance = False, m_wal = Some (WriteAheadLogger_new (Some f))\<rparr>"
  have "buf_inv b0" "buf_list b0 = []" "m_hwm b0 = hwm" "m_tail b0 = 0"
    using assms(1,2) by (simp_all add: b0_def buf_inv_def buf_list_def ring_list_def)
  moreover have "MutableBuffer_new B bf0 lwm hwm 0 True (Some f) = Inr (replay_into B (replay_records f) b0)"
    using assms(1,2) by (simp add: MutableBuffer_new_def Let_def b0_def build_buffer_from_log_def WriteAheadLogger_new_def)
  ultimately show ?thesis
    using replay_into_fills [of b0 "contents (map payload (entries f))" B] replay_inserts [OF assms(3)] assms(4,5) by simp
qed

lemma MutableBuffer_new_empty:
  assumes "0 < hwm" and "lwm \<le> hwm"
  shows "\<exists>b. MutableBuffer_new B bf0 lwm hwm 0 True None = Inr b \<and> run_inv b \<and> buf_list b = [] \<and>
     m_tail b = 0 \<and> m_hwm b = hwm"
  using assms
  by (auto simp: MutableBuffer_new_def Let_def build_buffer_from_log_def replay_records_def insert_entries_def
      log_of_new buf_inv_def run_inv_def log_mirrors_def buf_list_def ring_list_def)

text \<open>
  C21. Crash recovery. Start with an empty log, perform any sequence of logged inserts and
  flushes, and construct a new buffer from the log file that is left, possibly with the torn
  bytes of an unfinished entry at its end: every step is defined, and the new buffer holds
  exactly the records and tombstones inserted since the last flush, in order.
\<close>

theorem crash_recovery:
  assumes "0 < hwm" and "lwm \<le> hwm" and "length ops \<le> 2 ^ 31" and "hwm \<le> 2 ^ 31"
    and "MutableBuffer_new B bf0 lwm hwm 0 True None = Inr b0"
  shows "\<exists>b l b'. buf_run B ops b0 = Inr b \<and> m_wal b = Some l \<and>
    MutableBuffer_new B bf0 lwm hwm 0 True (Some ((wal_file l)\<lparr>torn := t\<rparr>)) = Inr b' \<and> buf_inv b' \<and>
    contents (buf_list b') = spec_run hwm ops [] \<and> contents (buf_list b) = spec_run hwm ops []"
proof -
  have b0: "run_inv b0" "buf_list b0 = []" "m_tail b0 = 0" "m_hwm b0 = hwm"
    using MutableBuffer_new_empty [OF assms(1,2), of B bf0] assms(5) by auto
  obtain b where b: "buf_run B ops b0 = Inr b" "run_inv b" "m_hwm b = hwm" "contents (buf_list b) = spec_run hwm ops []"
    using buf_run_ok [OF b0(1), of ops B] assms(3) b0 by auto
  obtain l where l: "m_wal b = Some l" "\<forall>e\<in>set (log_of l). entry_type e = INSERT"
      "contents (map payload (log_of l)) = contents (buf_list b)"
    using b(2) by (auto simp: run_inv_def log_mirrors_def)
  have "length (log_of l) = length (buf_list b)"
    using arg_cong [OF l(3), of length] by simp
  moreover have "length (buf_list b) \<le> hwm" using b(2,3) buf_list_length_le by (auto simp: run_inv_def)
  ultimately show ?thesis
    using MutableBuffer_new_ok [OF assms(1,2), of "(wal_file l)\<lparr>torn := t\<rparr>" B bf0] l b assms(4) by auto
qed

theorem crash_recovery_witness:
  "\<exists>b0 b l b'. MutableBuffer_new list_bloom [] 1 2 0 True None = Inr b0 \<and>
    buf_run list_bloom [Append 5 False, Flush, Append 6 True, Append (7::nat) False, Append 8 False] b0 = Inr b \<and>
    m_wal b = Some l \<and> MutableBuffer_new list_bloom [] 1 2 0 True (Some ((wal_file l)\<lparr>torn := 3\<rparr>)) = Inr b' \<and>
    contents (buf_list b') = [(6, True), (7, False)]"
proof -
  obtain b0 where b0: "MutableBuffer_new list_bloom [] 1 2 0 True None = Inr (b0 :: (nat, nat list) MutableBuffer)"
    using MutableBuffer_new_empty [of 2 1 list_bloom "[]"] by auto
  have "spec_run 2 [Append 5 False, Flush, Append 6 True, Append (7::nat) False, Append 8 False] [] = [(6, True), (7, False)]"
    by (simp add: spec_run_def)
  then show ?thesis
    using crash_recovery [of 2 1 "[Append 5 False, Flush, Append 6 True, Append (7::nat) False, Append 8 False]", OF _ _ _ _ b0, of 3] b0
    by auto
qed

text \<open>
  C22. The log and a flush that does not take the whole buffer. Entries logged before
  \<^verbatim>\<open>flush_begin\<close> are dropped whether or not the flush covered them: when the head is advanced to a
  position below the tail, the records between the two stay in the buffer, but the log is
  empty, and a buffer rebuilt from it has lost them.
\<close>

theorem partial_flush_loses_log:
  assumes "buf_inv b" and "log_mirrors b" and "advance_head new_head b = Inr (True, b')" and "m_wal b' = Some l"
  shows "length (buf_list b') = m_tail b - new_head \<and> replay_records (wal_file l) = []"
proof -
  obtain k where k: "m_wal b = Some k" "wal_wf k" "\<forall>e\<in>set (log_of k). entry_type e = INSERT"
    using assms(2) by (auto simp: log_mirrors_def)
  have "log_of (flush_complete (flush_begin k)) = []"
    using flush_bracket [of k "flush_begin k" "[]"] k by (simp add: wal_ops_wf)
  moreover have "head_idx (m_head b) < new_head" "new_head \<le> m_tail b" "refcnt (m_old_head b) = 0"
    using assms(3) by (auto simp: advance_head_def split: if_splits)
  ultimately show ?thesis
    using advance_head_ok [OF assms(1), of new_head] assms(3,4) k(1)
    by (auto simp: buf_list_def replay_records_def insert_entries_def)
qed

theorem partial_flush_loses_log_witness:
  "\<exists>b' l. advance_head 2 ((demo_buffer 0 1 3 6)\<lparr>m_old_head := \<lparr>head_idx = 0, refcnt = 0\<rparr>,
      m_wal := Some (WriteAheadLogger_new (Some \<lparr>entries = [\<lparr>entry_type = INSERT, payload = empty_payload\<rparr>, \<lparr>entry_type = INSERT, payload = empty_payload\<rparr>], torn = 0\<rparr>))\<rparr>)
      = Inr (True, b') \<and> m_wal b' = Some l \<and> length (buf_list b') = 1 \<and> replay_records (wal_file l) = []"
proof -
  let ?l = "WriteAheadLogger_new (Some \<lparr>entries = [\<lparr>entry_type = INSERT, payload = empty_payload\<rparr>, \<lparr>entry_type = INSERT, payload = empty_payload\<rparr>], torn = 0\<rparr>)"
  let ?b = "(demo_buffer 0 1 3 6)\<lparr>m_old_head := \<lparr>head_idx = 0, refcnt = 0\<rparr>, m_wal := Some ?l\<rparr>"
  have inv: "buf_inv ?b" by (simp add: demo_buffer_def buf_inv_def old_head_valid_def)
  have "buf_list ?b = [\<lparr>header = 4, rec = 0\<rparr>, \<lparr>header = 4, rec = 0\<rparr>]"
    by (simp add: demo_buffer_def buf_list_def ring_list_def upt_rec)
  then have mir: "log_mirrors ?b"
    by (simp add: log_mirrors_def log_of_new contents_def is_tombstone_def empty_payload_def)
  obtain b' where b': "advance_head 2 ?b = Inr (True, b')" "m_wal b' = Some (flush_complete (flush_begin ?l))"
    using advance_head_ok [OF inv, of 2] by (auto simp: demo_buffer_def)
  with partial_flush_loses_log [OF inv mir b'] show ?thesis
    by (auto simp: demo_buffer_def)
qed

text \<open>
  A flush interrupted between \<^verbatim>\<open>flush_begin\<close> and \<^verbatim>\<open>flush_complete\<close> leaves a \<^verbatim>\<open>FLUSH_B\<close> entry in
  the file. After the restart it still counts as the beginning of the next flush, so that flush
  keeps in the log every record inserted since the restart, although it has just flushed them.
\<close>

theorem stale_flush_begin:
  assumes "wal_wf l" and "\<forall>e\<in>set xs. is_data e" and "\<forall>e\<in>set ys. is_data e"
    and "log_of l = xs @ [\<lparr>entry_type = FLUSH_B, payload = empty_payload\<rparr>] @ ys"
  shows "log_of (flush_complete (flush_begin l)) = ys"
proof -
  have "filter is_data ys = ys" using assms(3) by (simp add: filter_id_conv)
  moreover have "dropWhile (\<lambda>e. entry_type e \<noteq> FLUSH_B) (xs @ e # zs) = e # zs" if "entry_type e = FLUSH_B" for e zs
    using assms(2) that by (auto simp: dropWhile_append is_data_iff)
  ultimately show ?thesis
    using flush_complete_wf(2) [of "flush_begin l"] assms(1,4) by (simp add: wal_ops_wf)
qed

theorem stale_flush_begin_witness:
  "log_of (flush_complete (flush_begin (WriteAheadLogger_new (Some
     \<lparr>entries = [\<lparr>entry_type = FLUSH_B, payload = empty_payload\<rparr>,
                 \<lparr>entry_type = INSERT, payload = \<lparr>header = 0, rec = (7::nat)\<rparr>\<rparr>], torn = 0\<rparr>)))) =
   [\<lparr>entry_type = INSERT, payload = \<lparr>header = 0, rec = 7\<rparr>\<rparr>]"
  by (rule stale_flush_begin [of _ "[]"]) (simp_all add: log_of_new)

end
