(* ===== verification/DE_BufferConc.thy ===== *)
theory DE_BufferConc
  imports DE_Buffer
begin

text \<open>
  The mutable buffer under concurrent use (\<^verbatim>\<open>include/framework/structure/MutableBuffer.h\<close>): the
  calls of \<^verbatim>\<open>append\<close>, \<^verbatim>\<open>get_buffer_view\<close> (with the release of the view) and \<^verbatim>\<open>advance_head\<close> as
  sequences of their atomic accesses, in any interleaving. A call is a value that says which access
  comes next and holds the local variables; an event names the call that makes its next access.
  Plain writes to a slot of the array are single steps, too. The mutex of the log has its owner in the
  state: a call whose next access is \<^verbatim>\<open>mtx_lock\<close> cannot make it while another call holds the mutex.
\<close>

section \<open>A call of append\<close>

text \<open>
  The stored number is the local \<open>old_value\<close> before the slot is claimed and the claimed index after.
  \<open>Returned None\<close> is the return value 0, \<open>Returned (Some i)\<close> the return value 1.
\<close>

datatype append_pc =
    TailLoad | HeadCheck nat | TailSwap nat | TailCheck nat
  | LogLock nat | LogRecord nat | LogUnlock nat | StoreRecord nat | StampRecord nat | CountTombstone nat | InsertTombstone nat | ShowRecord nat
  | Returned "nat option"

record 'r append_call =
  ac_rec :: 'r
  ac_tombstone :: bool
  ac_logging :: bool
  ac_pc :: append_pc

definition slot_of :: "('r, 'f) MutableBuffer \<Rightarrow> nat \<Rightarrow> nat" where
  "slot_of b i = int_to_size (to_int32 (int i)) mod m_cap b"

definition append_step ::
    "('f, 'r::zero) bloom_ops \<Rightarrow> 'r append_call \<Rightarrow> ('r, 'f) MutableBuffer \<Rightarrow> append_pc \<times> ('r, 'f) MutableBuffer" where
  "append_step B c b =
     (case ac_pc c of
        TailLoad \<Rightarrow> (HeadCheck (m_tail b), b)
      | HeadCheck old \<Rightarrow>
          (if sz_sub old (head_idx (m_head b)) \<ge> m_hwm b then Returned None else TailSwap old, b)
      | TailSwap old \<Rightarrow>
          (if m_tail b = old
           then (if to_int32 (int old) = - 1 then Returned None
                 else if ac_logging c \<and> m_wal b \<noteq> None then LogLock old else StoreRecord old,
                 b\<lparr>m_tail := sz_add old 1\<rparr>)
           else (TailCheck (m_tail b), b))
      | TailCheck old \<Rightarrow> (if m_tail b \<ge> m_hwm b then Returned None else TailSwap old, b)
      | LogLock i \<Rightarrow> (LogRecord i, b)
      | LogRecord i \<Rightarrow>
          (LogUnlock i, b\<lparr>m_wal := map_option (wal_append (new_wrapped (ac_rec c) (ac_tombstone c))) (m_wal b)\<rparr>)
      | LogUnlock i \<Rightarrow> (StoreRecord i, b)
      | StoreRecord i \<Rightarrow>
          (StampRecord i, b\<lparr>m_data := (m_data b)[slot_of b i := new_wrapped (ac_rec c) (ac_tombstone c)]\<rparr>)
      | StampRecord i \<Rightarrow>
          (if ac_tombstone c then CountTombstone i else ShowRecord i,
           b\<lparr>m_data := (m_data b)[slot_of b i := set_timestamp (of_nat (slot_of b i)) (m_data b ! slot_of b i)]\<rparr>)
      | CountTombstone i \<Rightarrow> (InsertTombstone i, b\<lparr>m_tscnt := sz_add (m_tscnt b) 1\<rparr>)
      | InsertTombstone i \<Rightarrow>
          (ShowRecord i, b\<lparr>m_tombstone_filter := map_option (bf_insert B (ac_rec c)) (m_tombstone_filter b)\<rparr>)
      | ShowRecord i \<Rightarrow>
          (Returned (Some i), b\<lparr>m_data := (m_data b)[slot_of b i := set_visible (m_data b ! slot_of b i)]\<rparr>)
      | Returned res \<Rightarrow> (Returned res, b))"

section \<open>A view and its release\<close>

text \<open>
  \<open>get_buffer_view\<close> reads the target head, takes a reference on the head that has this index, then
  reads the tail and the tombstone count. The view is used until its destruction, which starts
  with the next event of the call.
\<close>

datatype view_pc =
    TargetLoad
  | OldLook nat | OldLoad nat | OldTake nat buffer_head
  | NewLook nat | NewLoad nat | NewTake nat buffer_head
  | TailView nat | CountView nat nat | Viewing nat nat nat
  | OldFind nat | OldFetch nat | OldDrop nat buffer_head
  | NewFetch nat | NewDrop nat buffer_head | Released

definition one_more :: "buffer_head \<Rightarrow> buffer_head" where
  "one_more h = h\<lparr>refcnt := sz_add (refcnt h) 1\<rparr>"

definition view_step :: "view_pc \<Rightarrow> ('r, 'f) MutableBuffer \<Rightarrow> view_pc \<times> ('r, 'f) MutableBuffer" where
  "view_step pc b =
     (case pc of
        TargetLoad \<Rightarrow> (OldLook (head_idx (m_head b)), b)
      | OldLook target \<Rightarrow> (if head_idx (m_old_head b) = target then OldLoad target else NewLook target, b)
      | OldLoad target \<Rightarrow> (OldTake target ((m_old_head b)\<lparr>head_idx := target\<rparr>), b)
      | OldTake target cur \<Rightarrow>
          (if m_old_head b = cur then (TailView target, b\<lparr>m_old_head := one_more cur\<rparr>) else (OldLook target, b))
      | NewLook target \<Rightarrow> (if head_idx (m_head b) = target then NewLoad target else OldLook target, b)
      | NewLoad target \<Rightarrow> (NewTake target ((m_head b)\<lparr>head_idx := target\<rparr>), b)
      | NewTake target cur \<Rightarrow>
          (if m_head b = cur then (TailView target, b\<lparr>m_head := one_more cur\<rparr>) else (OldLook target, b))
      | TailView h \<Rightarrow> (CountView h (m_tail b), b)
      | CountView h t \<Rightarrow> (Viewing h t (m_tscnt b), b)
      | Viewing h t n \<Rightarrow> (OldFind h, b)
      | OldFind h \<Rightarrow> (if head_idx (m_old_head b) = h then OldFetch h else NewFetch h, b)
      | OldFetch h \<Rightarrow> (if refcnt (m_old_head b) = 0 then OldFind h else OldDrop h (m_old_head b), b)
      | OldDrop h cur \<Rightarrow>
          (if m_old_head b = cur then (Released, b\<lparr>m_old_head := cur\<lparr>refcnt := refcnt cur - 1\<rparr>\<rparr>) else (OldFind h, b))
      | NewFetch h \<Rightarrow> (if refcnt (m_head b) = 0 then OldFind h else NewDrop h (m_head b), b)
      | NewDrop h cur \<Rightarrow>
          (if m_head b = cur then (Released, b\<lparr>m_head := cur\<lparr>refcnt := refcnt cur - 1\<rparr>\<rparr>) else (OldFind h, b))
      | Released \<Rightarrow> (Released, b))"

section \<open>A flush\<close>

datatype flush_pc =
    FlushIdle | FlushCheck nat | BeginLock nat | FlushBegin nat | BeginUnlock nat | FlushMark nat
  | HeadLoad nat | HeadSwap nat buffer_head | OldStore buffer_head
  | CompleteLock | FlushComplete | CompleteUnlock | FlushUnmark

definition flush_step :: "flush_pc \<Rightarrow> ('r::zero, 'f) MutableBuffer \<Rightarrow> flush_pc \<times> ('r, 'f) MutableBuffer" where
  "flush_step pc b =
     (case pc of
        FlushIdle \<Rightarrow> (FlushIdle, b)
      | FlushCheck n \<Rightarrow>
          (if refcnt (m_old_head b) > 0 then FlushIdle else if m_wal b \<noteq> None then BeginLock n else FlushMark n, b)
      | BeginLock n \<Rightarrow> (FlushBegin n, b)
      | FlushBegin n \<Rightarrow> (BeginUnlock n, b\<lparr>m_wal := map_option flush_begin (m_wal b)\<rparr>)
      | BeginUnlock n \<Rightarrow> (FlushMark n, b)
      | FlushMark n \<Rightarrow> (HeadLoad n, b\<lparr>m_active_head_advance := True\<rparr>)
      | HeadLoad n \<Rightarrow> (HeadSwap n (m_head b), b)
      | HeadSwap n cur \<Rightarrow>
          (if m_head b = cur then (OldStore cur, b\<lparr>m_head := \<lparr>head_idx = n, refcnt = 0\<rparr>\<rparr>) else (HeadLoad n, b))
      | OldStore cur \<Rightarrow> (if m_wal b \<noteq> None then CompleteLock else FlushUnmark, b\<lparr>m_old_head := cur\<rparr>)
      | CompleteLock \<Rightarrow> (FlushComplete, b)
      | FlushComplete \<Rightarrow> (CompleteUnlock, b\<lparr>m_wal := map_option flush_complete (m_wal b)\<rparr>)
      | CompleteUnlock \<Rightarrow> (FlushUnmark, b)
      | FlushUnmark \<Rightarrow> (FlushIdle, b\<lparr>m_active_head_advance := False\<rparr>))"

section \<open>The mutex of the log\<close>

text \<open>
  The mutex is plain: \<^verbatim>\<open>mtx_lock\<close> goes on when nobody holds it (\<open>None\<close> as the result: the caller waits), and
  \<^verbatim>\<open>mtx_unlock\<close> frees it. The other accesses leave it alone.
\<close>

datatype mutex_owner = AppendOwner nat | FlushOwner

definition mtx_lock :: "mutex_owner \<Rightarrow> mutex_owner option \<Rightarrow> mutex_owner option option" where
  "mtx_lock me m = (case m of None \<Rightarrow> Some (Some me) | Some _ \<Rightarrow> None)"

definition mtx_unlock :: "mutex_owner option \<Rightarrow> mutex_owner option" where
  "mtx_unlock m = None"

definition append_mutex :: "nat \<Rightarrow> append_pc \<Rightarrow> mutex_owner option \<Rightarrow> mutex_owner option option" where
  "append_mutex i pc m =
     (case pc of LogLock _ \<Rightarrow> mtx_lock (AppendOwner i) m | LogUnlock _ \<Rightarrow> Some (mtx_unlock m) | _ \<Rightarrow> Some m)"

definition flush_mutex :: "flush_pc \<Rightarrow> mutex_owner option \<Rightarrow> mutex_owner option option" where
  "flush_mutex pc m =
     (case pc of
        BeginLock _ \<Rightarrow> mtx_lock FlushOwner m | BeginUnlock _ \<Rightarrow> Some (mtx_unlock m)
      | CompleteLock \<Rightarrow> mtx_lock FlushOwner m | CompleteUnlock \<Rightarrow> Some (mtx_unlock m)
      | _ \<Rightarrow> Some m)"

section \<open>Interleavings\<close>

text \<open>
  Any number of appends and views and one flush at a time. A flush starts with the new head it was
  called with and the assertions of \<open>advance_head\<close>.
\<close>

record ('r, 'f) conc_state =
  cs_buffer :: "('r, 'f) MutableBuffer"
  cs_appends :: "'r append_call list"
  cs_views :: "view_pc list"
  cs_flush :: flush_pc
  cs_mutex :: "mutex_owner option"

datatype conc_event = AppendEv nat | ViewEv nat | FlushEv | StartFlush nat

definition conc_event ::
    "('f, 'r::zero) bloom_ops \<Rightarrow> conc_event \<Rightarrow> ('r, 'f) conc_state \<Rightarrow> ('r, 'f) conc_state option" where
  "conc_event B ev s =
     (case ev of
        AppendEv i \<Rightarrow>
          if i < length (cs_appends s) \<and> (\<forall>res. ac_pc (cs_appends s ! i) \<noteq> Returned res) then
            case append_mutex i (ac_pc (cs_appends s ! i)) (cs_mutex s) of
              None \<Rightarrow> None
            | Some m \<Rightarrow>
                let (pc, b) = append_step B (cs_appends s ! i) (cs_buffer s) in
                Some (s\<lparr>cs_buffer := b, cs_appends := (cs_appends s)[i := (cs_appends s ! i)\<lparr>ac_pc := pc\<rparr>], cs_mutex := m\<rparr>)
          else None
      | ViewEv i \<Rightarrow>
          if i < length (cs_views s) \<and> cs_views s ! i \<noteq> Released then
            let (pc, b) = view_step (cs_views s ! i) (cs_buffer s) in
            Some (s\<lparr>cs_buffer := b, cs_views := (cs_views s)[i := pc]\<rparr>)
          else None
      | FlushEv \<Rightarrow>
          if cs_flush s \<noteq> FlushIdle then
            case flush_mutex (cs_flush s) (cs_mutex s) of
              None \<Rightarrow> None
            | Some m \<Rightarrow>
                let (pc, b) = flush_step (cs_flush s) (cs_buffer s) in
                Some (s\<lparr>cs_buffer := b, cs_flush := pc, cs_mutex := m\<rparr>)
          else None
      | StartFlush n \<Rightarrow>
          if cs_flush s = FlushIdle \<and> n > head_idx (m_head (cs_buffer s)) \<and> n \<le> m_tail (cs_buffer s)
          then Some (s\<lparr>cs_flush := FlushCheck n\<rparr>) else None)"

fun conc_run ::
    "('f, 'r::zero) bloom_ops \<Rightarrow> conc_event list \<Rightarrow> ('r, 'f) conc_state \<Rightarrow> ('r, 'f) conc_state option" where
  "conc_run B [] s = Some s"
| "conc_run B (ev # evs) s = (case conc_event B ev s of None \<Rightarrow> None | Some s' \<Rightarrow> conc_run B evs s')"

definition conc_start ::
    "('r, 'f) MutableBuffer \<Rightarrow> ('r \<times> bool \<times> bool) list \<Rightarrow> nat \<Rightarrow> ('r, 'f) conc_state" where
  "conc_start b args n_views =
     \<lparr>cs_buffer = b,
      cs_appends = map (\<lambda>(r, ts, logging). \<lparr>ac_rec = r, ac_tombstone = ts, ac_logging = logging, ac_pc = TailLoad\<rparr>) args,
      cs_views = replicate n_views TargetLoad, cs_flush = FlushIdle, cs_mutex = None\<rparr>"


section \<open>Running traces\<close>

lemma conc_run_append: "conc_run B (xs @ ys) s = (case conc_run B xs s of None \<Rightarrow> None | Some s' \<Rightarrow> conc_run B ys s')"
  by (induction xs arbitrary: s) (auto split: option.splits)

lemma conc_event_cases:
  assumes "conc_event B ev s = Some s'"
  obtains (append) i pc b m where "ev = AppendEv i" and "i < length (cs_appends s)" and "\<forall>res. ac_pc (cs_appends s ! i) \<noteq> Returned res"
      and "append_step B (cs_appends s ! i) (cs_buffer s) = (pc, b)"
      and "append_mutex i (ac_pc (cs_appends s ! i)) (cs_mutex s) = Some m"
      and "s' = s\<lparr>cs_buffer := b, cs_appends := (cs_appends s)[i := (cs_appends s ! i)\<lparr>ac_pc := pc\<rparr>], cs_mutex := m\<rparr>"
    | (view) i pc b where "ev = ViewEv i" and "i < length (cs_views s)" and "view_step (cs_views s ! i) (cs_buffer s) = (pc, b)"
      and "s' = s\<lparr>cs_buffer := b, cs_views := (cs_views s)[i := pc]\<rparr>"
    | (flush) pc b m where "ev = FlushEv" and "flush_step (cs_flush s) (cs_buffer s) = (pc, b)"
      and "flush_mutex (cs_flush s) (cs_mutex s) = Some m" and "s' = s\<lparr>cs_buffer := b, cs_flush := pc, cs_mutex := m\<rparr>"
    | (start) n where "ev = StartFlush n" and "cs_flush s = FlushIdle" and "n > head_idx (m_head (cs_buffer s))"
      and "n \<le> m_tail (cs_buffer s)" and "s' = s\<lparr>cs_flush := FlushCheck n\<rparr>"
  using assms by (cases ev) (auto simp: conc_event_def split: if_splits prod.splits option.splits)

lemma conc_event_length: "conc_event B ev s = Some s' \<Longrightarrow> length (cs_appends s') = length (cs_appends s)"
  by (cases rule: conc_event_cases) auto

text \<open>What the steps leave alone.\<close>

lemma view_step_keeps:
  assumes "view_step pc b = (pc', b')"
  shows "m_tail b' = m_tail b" "m_data b' = m_data b" "m_cap b' = m_cap b" "m_hwm b' = m_hwm b"
    "head_idx (m_head b') = head_idx (m_head b)" "head_idx (m_old_head b') = head_idx (m_old_head b)"
  using assms by (auto simp: view_step_def one_more_def split: view_pc.splits if_splits)

lemma flush_step_keeps:
  assumes "flush_step pc b = (pc', b')"
  shows "m_tail b' = m_tail b" "m_data b' = m_data b" "m_cap b' = m_cap b" "m_hwm b' = m_hwm b"
  using assms by (auto simp: flush_step_def split: flush_pc.splits if_splits)

lemma append_step_keeps:
  assumes "append_step B c b = (pc', b')"
  shows "m_cap b' = m_cap b" "m_hwm b' = m_hwm b" "m_head b' = m_head b" "m_old_head b' = m_old_head b"
    "length (m_data b') = length (m_data b)"
  using assms by (auto simp: append_step_def split: append_pc.splits if_splits)

section \<open>Every append returns\<close>

text \<open>
  A call whose loop variable is the current tail is nearer to its end than one that has been
  overtaken; only a call that claims a slot overtakes others, and each call claims at most once.
\<close>

definition append_rank :: "nat \<Rightarrow> append_pc \<Rightarrow> nat" where
  "append_rank tail pc =
     (case pc of
        TailLoad \<Rightarrow> 11
      | HeadCheck old \<Rightarrow> if old = tail then 10 else 12
      | TailSwap old \<Rightarrow> if old = tail then 9 else 11
      | TailCheck old \<Rightarrow> if old = tail then 10 else 12
      | LogLock _ \<Rightarrow> 8 | LogRecord _ \<Rightarrow> 7 | LogUnlock _ \<Rightarrow> 6 | StoreRecord _ \<Rightarrow> 5 | StampRecord _ \<Rightarrow> 4 | CountTombstone _ \<Rightarrow> 3
      | InsertTombstone _ \<Rightarrow> 2 | ShowRecord _ \<Rightarrow> 1 | Returned _ \<Rightarrow> 0)"

definition unclaimed :: "append_pc \<Rightarrow> bool" where
  "unclaimed pc \<longleftrightarrow> (case pc of TailLoad \<Rightarrow> True | HeadCheck _ \<Rightarrow> True | TailSwap _ \<Rightarrow> True | TailCheck _ \<Rightarrow> True | _ \<Rightarrow> False)"

definition steps_left :: "('r, 'f) conc_state \<Rightarrow> nat" where
  "steps_left s =
     (\<Sum>c\<leftarrow>cs_appends s. append_rank (m_tail (cs_buffer s)) (ac_pc c) +
        (if unclaimed (ac_pc c) then 2 * length (cs_appends s) else 0))"

lemma append_rank_le: "append_rank tail pc \<le> append_rank tail' pc + 2"
  by (cases pc) (auto simp: append_rank_def)

lemma sum_list_update_bound:
  fixes f g :: "'a \<Rightarrow> nat"
  assumes "i < length xs" and "\<And>x. f x \<le> g x + d"
  shows "sum_list (map f (xs[i := y])) + g (xs ! i) \<le> sum_list (map g xs) + f y + d * (length xs - 1)"
  using assms(1)
proof (induction xs arbitrary: i)
  case (Cons x xs)
  have le: "sum_list (map f zs) \<le> sum_list (map g zs) + d * length zs" for zs
    using assms(2) by (induction zs) (auto intro: order_trans [OF add_mono])
  show ?case
  proof (cases i)
    case 0
    then show ?thesis using le [of xs] by simp
  next
    case (Suc j)
    then have j: "j < length xs" using Cons.prems by simp
    have "d * length xs = d + d * (length xs - 1)" using j by (cases xs) auto
    then show ?thesis using Cons.IH [OF j] assms(2) [of x] Suc by simp
  qed
qed simp

lemma append_event_decreases:
  assumes "conc_event B (AppendEv i) s = Some s'"
  shows "steps_left s' < steps_left s"
  using assms
proof (cases rule: conc_event_cases)
  case (append j pc b m)
  let ?c = "cs_appends s ! i" and ?b = "cs_buffer s" and ?n = "length (cs_appends s)"
  let ?w = "\<lambda>t c. append_rank t (ac_pc c) + (if unclaimed (ac_pc c) then 2 * ?n else 0)"
  have i: "i < ?n" using append by simp
  have step: "append_step B ?c ?b = (pc, b)" and pc: "\<forall>res. ac_pc ?c \<noteq> Returned res" using append by auto
  have sum: "steps_left s' = sum_list (map (?w (m_tail b)) ((cs_appends s)[i := ?c\<lparr>ac_pc := pc\<rparr>]))"
    using append by (simp add: steps_left_def cong: if_cong)
  show ?thesis
  proof (cases "m_tail b = m_tail ?b")
    case True
    have "?w (m_tail ?b) (?c\<lparr>ac_pc := pc\<rparr>) < ?w (m_tail ?b) ?c"
      using step pc True by (auto simp: append_step_def append_rank_def unclaimed_def split: append_pc.splits if_splits)
    then show ?thesis
      using sum_list_update_bound [where f = "?w (m_tail ?b)" and g = "?w (m_tail ?b)" and d = 0 and i = i and y = "?c\<lparr>ac_pc := pc\<rparr>", OF i]
      unfolding sum True by (simp add: steps_left_def)
  next
    case False
    then have old: "ac_pc ?c = TailSwap (m_tail ?b)" "\<not> unclaimed pc" "append_rank (m_tail b) pc \<le> 8"
      using step by (auto simp: append_step_def unclaimed_def append_rank_def split: append_pc.splits if_splits)
    have "?w (m_tail b) c \<le> ?w (m_tail ?b) c + 2" for c :: "'a append_call" using append_rank_le by simp
    from sum_list_update_bound [where f = "?w (m_tail b)" and g = "?w (m_tail ?b)" and d = 2 and i = i and y = "?c\<lparr>ac_pc := pc\<rparr>", OF i this]
    have "steps_left s' + ?w (m_tail ?b) ?c \<le> steps_left s + ?w (m_tail b) (?c\<lparr>ac_pc := pc\<rparr>) + 2 * (?n - 1)"
      unfolding sum by (simp add: steps_left_def)
    moreover have "?w (m_tail ?b) ?c = 9 + 2 * ?n" "?w (m_tail b) (?c\<lparr>ac_pc := pc\<rparr>) \<le> 8"
      using old by (simp_all add: append_rank_def unclaimed_def)
    ultimately show ?thesis using i by linarith
  qed
qed auto

lemma other_event_keeps:
  assumes "conc_event B ev s = Some s'" and "\<forall>i. ev \<noteq> AppendEv i"
  shows "steps_left s' = steps_left s"
  using assms(1)
proof (cases rule: conc_event_cases)
  case (view i pc b)
  then show ?thesis using view_step_keeps(1) [of "cs_views s ! i" "cs_buffer s"] by (simp add: steps_left_def cong: if_cong)
next
  case (flush pc b m)
  then show ?thesis using flush_step_keeps(1) [of "cs_flush s" "cs_buffer s"] by (simp add: steps_left_def cong: if_cong)
qed (use assms(2) in \<open>auto simp: steps_left_def cong: if_cong\<close>)

lemma append_events_bounded:
  assumes "conc_run B evs s = Some s'"
  shows "length (filter (\<lambda>ev. \<exists>i. ev = AppendEv i) evs) + steps_left s' \<le> steps_left s"
  using assms
proof (induction evs arbitrary: s)
  case (Cons ev evs)
  then obtain s1 where s1: "conc_event B ev s = Some s1" "conc_run B evs s1 = Some s'" by (auto split: option.splits)
  show ?case
  proof (cases "\<exists>i. ev = AppendEv i")
    case True
    then have "steps_left s1 < steps_left s" using append_event_decreases s1(1) by blast
    then show ?thesis using Cons.IH [OF s1(2)] True by simp
  next
    case False
    then show ?thesis using Cons.IH [OF s1(2)] other_event_keeps [OF s1(1)] by simp
  qed
qed simp

lemma steps_left_start:
  "steps_left (conc_start b args v) = length args * (11 + 2 * length args)"
  by (simp add: steps_left_def conc_start_def comp_def case_prod_unfold append_rank_def unclaimed_def sum_list_triv)

section \<open>The mutex never blocks for ever\<close>

text \<open>The program points between \<^verbatim>\<open>mtx_lock\<close> and \<^verbatim>\<open>mtx_unlock\<close>.\<close>

definition in_log :: "append_pc \<Rightarrow> bool" where
  "in_log pc \<longleftrightarrow> (case pc of LogRecord _ \<Rightarrow> True | LogUnlock _ \<Rightarrow> True | _ \<Rightarrow> False)"

definition flush_in_log :: "flush_pc \<Rightarrow> nat" where
  "flush_in_log pc =
     (case pc of FlushBegin _ \<Rightarrow> 2 | BeginUnlock _ \<Rightarrow> 1 | FlushComplete \<Rightarrow> 2 | CompleteUnlock \<Rightarrow> 1 | _ \<Rightarrow> 0)"

definition mutex_inv :: "('r, 'f) conc_state \<Rightarrow> bool" where
  "mutex_inv s \<longleftrightarrow>
     (\<forall>i. cs_mutex s = Some (AppendOwner i) \<longleftrightarrow> i < length (cs_appends s) \<and> in_log (ac_pc (cs_appends s ! i))) \<and>
     (cs_mutex s = Some FlushOwner \<longleftrightarrow> 0 < flush_in_log (cs_flush s))"

lemma append_mutex_step:
  assumes "append_step B c b = (pc, b')" and "append_mutex i (ac_pc c) m = Some m'" and "m = Some (AppendOwner i) \<longleftrightarrow> in_log (ac_pc c)"
  shows "m' = Some (AppendOwner i) \<longleftrightarrow> in_log pc" and "w \<noteq> AppendOwner i \<Longrightarrow> m' = Some w \<longleftrightarrow> m = Some w"
  using assms
  by (auto simp: append_step_def append_mutex_def mtx_lock_def mtx_unlock_def in_log_def
      split: append_pc.splits if_splits option.splits)

lemma flush_mutex_step:
  assumes "flush_step pc b = (pc', b')" and "flush_mutex pc m = Some m'" and "m = Some FlushOwner \<longleftrightarrow> 0 < flush_in_log pc"
  shows "m' = Some FlushOwner \<longleftrightarrow> 0 < flush_in_log pc'" and "w \<noteq> FlushOwner \<Longrightarrow> m' = Some w \<longleftrightarrow> m = Some w"
  using assms
  by (auto simp: flush_step_def flush_mutex_def mtx_lock_def mtx_unlock_def flush_in_log_def
      split: flush_pc.splits if_splits option.splits)

lemma mutex_inv_event:
  assumes "conc_event B ev s = Some s'" and "mutex_inv s"
  shows "mutex_inv s'"
  using assms(1)
proof (cases rule: conc_event_cases)
  case (append i pc b m)
  note step = append_mutex_step [OF append(4,5)]
  have inv: "cs_mutex s = Some (AppendOwner j) \<longleftrightarrow> j < length (cs_appends s) \<and> in_log (ac_pc (cs_appends s ! j))" for j
    using assms(2) by (simp add: mutex_inv_def)
  have own: "cs_mutex s = Some (AppendOwner i) \<longleftrightarrow> in_log (ac_pc (cs_appends s ! i))" using inv [of i] append(2) by simp
  have "m = Some (AppendOwner j) \<longleftrightarrow> j < length (cs_appends s) \<and> in_log (ac_pc ((cs_appends s)[i := (cs_appends s ! i)\<lparr>ac_pc := pc\<rparr>] ! j))"
    for j using step(1) [OF own] step(2) [OF own, of "AppendOwner j"] inv [of j] append(2) by (cases "j = i") auto
  moreover have "m = Some FlushOwner \<longleftrightarrow> 0 < flush_in_log (cs_flush s)"
    using step(2) [OF own, of FlushOwner] assms(2) by (simp add: mutex_inv_def)
  ultimately show ?thesis unfolding append(6) mutex_inv_def by simp
next
  case (flush pc b m)
  note step = flush_mutex_step [OF flush(2,3)]
  have own: "cs_mutex s = Some FlushOwner \<longleftrightarrow> 0 < flush_in_log (cs_flush s)" using assms(2) by (simp add: mutex_inv_def)
  show ?thesis using step(1) [OF own] step(2) [OF own] assms(2) unfolding flush(4) mutex_inv_def by simp
qed (use assms(2) in \<open>auto simp: mutex_inv_def flush_in_log_def\<close>)

lemma mutex_inv_exclusive:
  assumes "mutex_inv s" and "i < length (cs_appends s)" and "in_log (ac_pc (cs_appends s ! i))"
  shows "flush_in_log (cs_flush s) = 0"
    and "j < length (cs_appends s) \<Longrightarrow> in_log (ac_pc (cs_appends s ! j)) \<Longrightarrow> i = j"
proof -
  have own: "cs_mutex s = Some (AppendOwner k)" if "k < length (cs_appends s)" "in_log (ac_pc (cs_appends s ! k))" for k
    using that assms(1) by (simp add: mutex_inv_def)
  show "flush_in_log (cs_flush s) = 0" using own [OF assms(2,3)] assms(1) by (simp add: mutex_inv_def)
  show "i = j" if "j < length (cs_appends s)" "in_log (ac_pc (cs_appends s ! j))"
    using own [OF assms(2,3)] own [OF that] by simp
qed

lemma mutex_inv_run:
  "conc_run B evs s = Some s' \<Longrightarrow> mutex_inv s \<Longrightarrow> mutex_inv s'"
  by (induction evs arbitrary: s) (auto split: option.splits intro: mutex_inv_event)

lemma mutex_inv_start [simp]: "mutex_inv (conc_start b args v)"
  by (auto simp: mutex_inv_def conc_start_def in_log_def flush_in_log_def split_beta)

text \<open>Who waits, and how the holder goes on.\<close>

lemma append_enabled_iff:
  "(\<exists>s'. conc_event B (AppendEv i) s = Some s') \<longleftrightarrow>
     i < length (cs_appends s) \<and> (\<forall>res. ac_pc (cs_appends s ! i) \<noteq> Returned res) \<and>
     (cs_mutex s = None \<or> (\<forall>k. ac_pc (cs_appends s ! i) \<noteq> LogLock k))"
  by (cases "ac_pc (cs_appends s ! i)"; cases "cs_mutex s")
    (simp_all add: conc_event_def case_prod_unfold Let_def append_mutex_def mtx_lock_def)

lemma append_event_log:
  assumes "i < length (cs_appends s)"
  shows "ac_pc (cs_appends s ! i) = LogRecord k \<Longrightarrow>
      \<exists>s'. conc_event B (AppendEv i) s = Some s' \<and> cs_appends s' = (cs_appends s)[i := (cs_appends s ! i)\<lparr>ac_pc := LogUnlock k\<rparr>]"
    and "ac_pc (cs_appends s ! i) = LogUnlock k \<Longrightarrow>
      \<exists>s'. conc_event B (AppendEv i) s = Some s' \<and> cs_appends s' = (cs_appends s)[i := (cs_appends s ! i)\<lparr>ac_pc := StoreRecord k\<rparr>] \<and>
        cs_mutex s' = None"
  using assms by (simp_all add: conc_event_def append_step_def append_mutex_def mtx_unlock_def)

lemma append_holder_releases:
  assumes "j < length (cs_appends s)" and "in_log (ac_pc (cs_appends s ! j))"
  shows "\<exists>n\<le>2. \<exists>s'. conc_run B (replicate n (AppendEv j)) s = Some s' \<and> cs_mutex s' = None \<and>
    length (cs_appends s') = length (cs_appends s) \<and> (\<forall>i. i \<noteq> j \<longrightarrow> cs_appends s' ! i = cs_appends s ! i)"
proof -
  have unlock: "\<exists>s'. conc_run B [AppendEv j] s = Some s' \<and> cs_mutex s' = None \<and> length (cs_appends s') = length (cs_appends s) \<and>
      (\<forall>i. i \<noteq> j \<longrightarrow> cs_appends s' ! i = cs_appends s ! i)"
    if "j < length (cs_appends s)" "ac_pc (cs_appends s ! j) = LogUnlock k" for s :: "('a, 'b) conc_state" and k
    using append_event_log(2) [OF that, of B] by auto
  consider k where "ac_pc (cs_appends s ! j) = LogRecord k" | k where "ac_pc (cs_appends s ! j) = LogUnlock k"
    using assms(2) by (auto simp: in_log_def split: append_pc.splits)
  then show ?thesis
  proof cases
    case (1 k)
    then obtain s1 where s1: "conc_event B (AppendEv j) s = Some s1"
        "cs_appends s1 = (cs_appends s)[j := (cs_appends s ! j)\<lparr>ac_pc := LogUnlock k\<rparr>]"
      using append_event_log(1) [OF assms(1)] by blast
    then obtain s2 where "conc_run B [AppendEv j] s1 = Some s2" "cs_mutex s2 = None" "length (cs_appends s2) = length (cs_appends s1)"
        "\<forall>i. i \<noteq> j \<longrightarrow> cs_appends s2 ! i = cs_appends s1 ! i" using unlock [of s1 k] assms(1) by auto
    then have "conc_run B (replicate 2 (AppendEv j)) s = Some s2 \<and> cs_mutex s2 = None \<and> length (cs_appends s2) = length (cs_appends s) \<and>
        (\<forall>i. i \<noteq> j \<longrightarrow> cs_appends s2 ! i = cs_appends s ! i)"
      using s1 by (simp add: numeral_2_eq_2 split: option.splits)
    then show ?thesis by blast
  next
    case (2 k)
    then show ?thesis using unlock [OF assms(1)] by (intro exI [of _ 1]) simp
  qed
qed

lemma flush_enabled: "0 < flush_in_log (cs_flush s) \<Longrightarrow> \<exists>s'. conc_event B FlushEv s = Some s'"
  by (auto simp: conc_event_def flush_in_log_def flush_mutex_def case_prod_unfold Let_def split: flush_pc.splits)

lemma flush_event_log:
  assumes "conc_event B FlushEv s = Some s'" and "0 < flush_in_log (cs_flush s)"
  shows "flush_in_log (cs_flush s') < flush_in_log (cs_flush s)" and "cs_appends s' = cs_appends s"
    and "flush_in_log (cs_flush s') = 0 \<Longrightarrow> cs_mutex s' = None"
  using assms
  by (auto simp: conc_event_def flush_in_log_def flush_mutex_def mtx_unlock_def flush_step_def split: flush_pc.splits if_splits)

lemma flush_holder_releases:
  assumes "0 < flush_in_log (cs_flush s)"
  shows "\<exists>n\<le>2. \<exists>s'. conc_run B (replicate n FlushEv) s = Some s' \<and> cs_mutex s' = None \<and> cs_appends s' = cs_appends s"
proof -
  obtain s1 where s1: "conc_event B FlushEv s = Some s1" using flush_enabled assms by blast
  have le: "flush_in_log (cs_flush s) \<le> 2" by (simp add: flush_in_log_def split: flush_pc.splits)
  note log1 = flush_event_log [OF s1 assms]
  show ?thesis
  proof (cases "flush_in_log (cs_flush s1) = 0")
    case True
    then show ?thesis using s1 log1 by (intro exI [of _ 1]) simp
  next
    case False
    then obtain s2 where s2: "conc_event B FlushEv s1 = Some s2" using flush_enabled by blast
    note log2 = flush_event_log [OF s2]
    then have "conc_run B (replicate 2 FlushEv) s = Some s2 \<and> cs_mutex s2 = None \<and> cs_appends s2 = cs_appends s"
      using s1 s2 log1 le False by (simp add: numeral_2_eq_2)
    then show ?thesis by blast
  qed
qed

lemma append_goes_on:
  assumes "mutex_inv s" and i: "i < length (cs_appends s)" and live: "\<forall>res. ac_pc (cs_appends s ! i) \<noteq> Returned res"
  shows "\<exists>holder n s'. (holder = FlushEv \<or> (\<exists>j. j \<noteq> i \<and> holder = AppendEv j)) \<and> n \<le> 2 \<and>
    (0 < n \<longrightarrow> cs_mutex s \<noteq> None \<and> (\<exists>k. ac_pc (cs_appends s ! i) = LogLock k)) \<and>
    conc_run B (replicate n holder @ [AppendEv i]) s = Some s'"
proof (cases "\<exists>s'. conc_event B (AppendEv i) s = Some s'")
  case True
  then obtain s' where "conc_run B (replicate 0 FlushEv @ [AppendEv i]) s = Some s'" by auto
  then show ?thesis by blast
next
  case False
  then obtain w k where w: "cs_mutex s = Some w" and k: "ac_pc (cs_appends s ! i) = LogLock k"
    using append_enabled_iff [of B i s] i live by auto
  have resume: "\<exists>s2. conc_run B (replicate n h @ [AppendEv i]) s = Some s2"
    if "conc_run B (replicate n h) s = Some s'" "cs_mutex s' = None" "length (cs_appends s') = length (cs_appends s)"
      "cs_appends s' ! i = cs_appends s ! i" for n h s'
    using that append_enabled_iff [of B i s'] i live by (auto simp: conc_run_append)
  show ?thesis
  proof (cases w)
    case (AppendOwner j)
    then have j: "j < length (cs_appends s)" "in_log (ac_pc (cs_appends s ! j))" using assms(1) w by (auto simp: mutex_inv_def)
    then have "j \<noteq> i" using k by (auto simp: in_log_def)
    with append_holder_releases [OF j, of B] resume show ?thesis using w k by (metis option.distinct(1))
  next
    case FlushOwner
    then have "0 < flush_in_log (cs_flush s)" using assms(1) w by (simp add: mutex_inv_def)
    with flush_holder_releases [of s B] resume show ?thesis using w k by (metis option.distinct(1))
  qed
qed

section \<open>Fair runs\<close>

text \<open>
  An infinite run makes an event or rests at every instant. It is fair to the appends and the flush when one of them that
  could make its next access again and again makes one again and again. Nothing is asked of the
  views, and a mutex handed to another waiting call is allowed.
\<close>

definition conc_trace ::
    "('f, 'r::zero) bloom_ops \<Rightarrow> (nat \<Rightarrow> conc_event option) \<Rightarrow> (nat \<Rightarrow> ('r, 'f) conc_state) \<Rightarrow> bool" where
  "conc_trace B evs st \<longleftrightarrow>
     (\<forall>n. case evs n of None \<Rightarrow> st (Suc n) = st n | Some ev \<Rightarrow> conc_event B ev (st n) = Some (st (Suc n)))"

definition fair_to :: "('f, 'r::zero) bloom_ops \<Rightarrow> (nat \<Rightarrow> conc_event option) \<Rightarrow> (nat \<Rightarrow> ('r, 'f) conc_state) \<Rightarrow> conc_event \<Rightarrow> bool" where
  "fair_to B evs st ev \<longleftrightarrow> ((\<forall>n. \<exists>m\<ge>n. conc_event B ev (st m) \<noteq> None) \<longrightarrow> (\<forall>n. \<exists>m\<ge>n. evs m = Some ev))"

lemma eventually_constant:
  fixes f :: "nat \<Rightarrow> nat"
  assumes "\<And>n. N \<le> n \<Longrightarrow> f (Suc n) \<le> f n"
  shows "\<exists>M\<ge>N. \<forall>n\<ge>M. f n = f M"
proof -
  obtain M where M: "N \<le> M" and least: "\<And>n. N \<le> n \<Longrightarrow> f M \<le> f n"
    using ex_has_least_nat [of "\<lambda>n. N \<le> n" N f] by auto
  have "f n = f M" if "M \<le> n" for n
    using that
  proof (induction n rule: dec_induct)
    case (step n)
    then show ?case using assms [of n] least [of "Suc n"] M by simp
  qed simp
  then show ?thesis using M by blast
qed

lemma conc_traceD:
  "conc_trace B evs st \<Longrightarrow> evs n = Some ev \<Longrightarrow> conc_event B ev (st n) = Some (st (Suc n))"
  "conc_trace B evs st \<Longrightarrow> evs n = None \<Longrightarrow> st (Suc n) = st n"
  unfolding conc_trace_def by (auto dest: spec [of _ n] split: option.splits)

lemma trace_mutex_inv:
  assumes "conc_trace B evs st" and "mutex_inv (st 0)"
  shows "mutex_inv (st n)"
proof (induction n)
  case (Suc n)
  then show ?case using conc_traceD [OF assms(1), of n] mutex_inv_event by (cases "evs n") auto
qed (rule assms(2))

text \<open>The appends make their last access; from then on their calls stay as they are.\<close>

lemma trace_appends_stop:
  assumes "conc_trace B evs st"
  shows "\<exists>N. \<forall>n\<ge>N. (\<forall>i. evs n \<noteq> Some (AppendEv i)) \<and> cs_appends (st n) = cs_appends (st N)"
proof -
  have le: "steps_left (st (Suc n)) \<le> steps_left (st n)" for n
  proof (cases "evs n")
    case (Some ev)
    then show ?thesis using conc_traceD(1) [OF assms Some] append_event_decreases other_event_keeps
      by (metis less_imp_le order_refl)
  qed (simp add: conc_traceD(2) [OF assms])
  obtain N where N: "\<And>n. N \<le> n \<Longrightarrow> steps_left (st n) = steps_left (st N)"
    using eventually_constant [of 0 "\<lambda>n. steps_left (st n)"] le by blast
  have quiet: "evs n \<noteq> Some (AppendEv i)" if "N \<le> n" for n i
    using append_event_decreases conc_traceD(1) [OF assms, of n "AppendEv i"] N [OF that] N [of "Suc n"] that by fastforce
  have "cs_appends (st n) = cs_appends (st N)" if "N \<le> n" for n
    using that
  proof (induction n rule: dec_induct)
    case (step n)
    show ?case
    proof (cases "evs n")
      case (Some ev)
      from conc_traceD(1) [OF assms Some] show ?thesis using quiet [of n] step Some by (cases rule: conc_event_cases) auto
    qed (use step conc_traceD(2) [OF assms] in simp)
  qed simp
  then show ?thesis using quiet by blast
qed

text \<open>A flush that is fair does not hold the mutex for ever.\<close>

lemma fair_flush_releases:
  assumes trace: "conc_trace B evs st" and fair: "fair_to B evs st FlushEv"
  shows "\<exists>n\<ge>N. flush_in_log (cs_flush (st n)) = 0"
proof (rule ccontr)
  let ?f = "\<lambda>n. flush_in_log (cs_flush (st n))"
  assume none: "\<not> (\<exists>n\<ge>N. ?f n = 0)"
  have pos: "0 < ?f n" if "N \<le> n" for n using none that by (cases "?f n = 0") auto
  have down: "?f (Suc n) \<le> ?f n \<and> (evs n = Some FlushEv \<longrightarrow> ?f (Suc n) < ?f n)" if "N \<le> n" for n
  proof (cases "evs n")
    case (Some ev)
    note step = conc_traceD(1) [OF trace Some]
    show ?thesis
    proof (cases "ev = FlushEv")
      case True
      then show ?thesis using flush_event_log(1) step pos [OF that] by fastforce
    next
      case False
      from step show ?thesis using False Some pos [OF that] by (cases rule: conc_event_cases) (auto simp: flush_in_log_def)
    qed
  qed (simp add: conc_traceD(2) [OF trace])
  obtain M where M: "N \<le> M" "\<And>n. M \<le> n \<Longrightarrow> ?f n = ?f M" using eventually_constant [of N ?f] down by blast
  have "\<exists>m\<ge>n. conc_event B FlushEv (st m) \<noteq> None" for n
    using flush_enabled [OF pos [of "max n N"], of B] by (intro exI [of _ "max n N"]) auto
  then obtain m where "M \<le> m" "evs m = Some FlushEv" using fair unfolding fair_to_def by blast
  then show False using down [of m] M(1) M(2) [of m] M(2) [of "Suc m"] by simp
qed

lemma fair_appends_end:
  assumes trace: "conc_trace B evs st" and inv: "mutex_inv (st 0)"
    and fair: "fair_to B evs st FlushEv" "\<And>i. fair_to B evs st (AppendEv i)"
  shows "\<exists>N. \<forall>n\<ge>N. \<forall>c\<in>set (cs_appends (st n)). \<exists>res. ac_pc c = Returned res"
proof -
  obtain N where N: "\<And>n i. N \<le> n \<Longrightarrow> evs n \<noteq> Some (AppendEv i)" "\<And>n. N \<le> n \<Longrightarrow> cs_appends (st n) = cs_appends (st N)"
    using trace_appends_stop [OF trace] by blast
  have stuck: "\<exists>n0\<ge>N. \<forall>m\<ge>n0. conc_event B (AppendEv i) (st m) = None" for i
  proof -
    obtain n0 where "\<And>m. n0 \<le> m \<Longrightarrow> conc_event B (AppendEv i) (st m) = None"
      using fair(2) [of i] N(1) unfolding fair_to_def by blast
    then show ?thesis by (intro exI [of _ "max n0 N"]) simp
  qed
  have free: "cs_mutex (st n) \<noteq> Some (AppendOwner j)" if "N \<le> n" for n j
  proof
    assume "cs_mutex (st n) = Some (AppendOwner j)"
    then have j: "j < length (cs_appends (st N))" "in_log (ac_pc (cs_appends (st N) ! j))"
      using trace_mutex_inv [OF trace inv, of n] N(2) [OF that] by (auto simp: mutex_inv_def)
    obtain n0 where n0: "N \<le> n0" "conc_event B (AppendEv j) (st n0) = None" using stuck by blast
    then show False using append_enabled_iff [of B j "st n0"] j N(2) [OF n0(1)] by (auto simp: in_log_def split: append_pc.splits)
  qed
  have "\<exists>res. ac_pc (cs_appends (st N) ! i) = Returned res" if i: "i < length (cs_appends (st N))" for i
  proof (rule ccontr)
    assume live: "\<nexists>res. ac_pc (cs_appends (st N) ! i) = Returned res"
    obtain n0 where n0: "N \<le> n0" "\<And>m. n0 \<le> m \<Longrightarrow> conc_event B (AppendEv i) (st m) = None" using stuck by blast
    obtain m where m: "n0 \<le> m" "flush_in_log (cs_flush (st m)) = 0" using fair_flush_releases [OF trace fair(1)] by blast
    have "cs_mutex (st m) = None"
    proof (cases "cs_mutex (st m)")
      case (Some w)
      then show ?thesis using free [of m] m n0(1) trace_mutex_inv [OF trace inv, of m] by (cases w) (auto simp: mutex_inv_def)
    qed simp
    then show False using append_enabled_iff [of B i "st m"] n0(2) [OF m(1)] N(2) [of m] n0(1) m(1) i live by auto
  qed
  then have "\<forall>c\<in>set (cs_appends (st N)). \<exists>res. ac_pc c = Returned res" by (metis in_set_conv_nth)
  then show ?thesis using N(2) by metis
qed

section \<open>An append alone\<close>

fun append_alone ::
    "('f, 'r::zero) bloom_ops \<Rightarrow> nat \<Rightarrow> 'r append_call \<Rightarrow> ('r, 'f) MutableBuffer \<Rightarrow> append_pc \<times> ('r, 'f) MutableBuffer" where
  "append_alone B 0 c b = (ac_pc c, b)"
| "append_alone B (Suc n) c b = (let (pc, b') = append_step B c b in append_alone B n (c\<lparr>ac_pc := pc\<rparr>) b')"

definition return_value :: "append_pc \<Rightarrow> nat" where
  "return_value pc = (case pc of Returned (Some _) \<Rightarrow> 1 | _ \<Rightarrow> 0)"

lemma append_alone_numeral:
  "append_alone B (numeral k) c b = (let (pc, b') = append_step B c b in append_alone B (pred_numeral k) (c\<lparr>ac_pc := pc\<rparr>) b')"
  by (simp add: numeral_eq_Suc)

lemma append_alone_Returned: "ac_pc c = Returned res \<Longrightarrow> append_alone B n c b = (Returned res, b)"
  by (induction n arbitrary: c) (simp_all add: append_step_def)

lemma append_alone_ok:
  assumes "length (m_data b) = m_cap b" and "0 < m_cap b"
  shows "case append_alone B 12 \<lparr>ac_rec = r, ac_tombstone = ts, ac_logging = logging, ac_pc = TailLoad\<rparr> b of (pc, b') \<Rightarrow>
     (\<exists>res. pc = Returned res) \<and> (return_value pc, b') = buffer_append B r ts logging b"
proof -
  define p where "p = int_to_size (to_int32 (int (m_tail b))) mod m_cap b"
  have p: "p < length (m_data b)" using assms by (simp add: p_def)
  note simps = append_alone_numeral append_step_def append_alone_Returned buffer_append_def try_advance_tail_def
    return_value_def slot_of_def p_def [symmetric]
  consider "sz_sub (m_tail b) (head_idx (m_head b)) \<ge> m_hwm b"
    | "sz_sub (m_tail b) (head_idx (m_head b)) < m_hwm b" "to_int32 (int (m_tail b)) = - 1"
    | "sz_sub (m_tail b) (head_idx (m_head b)) < m_hwm b" "to_int32 (int (m_tail b)) \<noteq> - 1"
    by linarith
  then show ?thesis
  proof cases
    case 1
    then show ?thesis by (simp add: simps to_int32_def)
  next
    case 2
    then show ?thesis by (simp add: simps Let_def)
  next
    case 3
    then show ?thesis using p by (cases ts; cases logging; cases "m_wal b") (simp_all add: simps Let_def)
  qed
qed

section \<open>What concurrent appends keep\<close>

text \<open>
  The index a call has claimed, the index it is still writing to, and what the slot holds for it.
\<close>

definition claimed :: "append_pc \<Rightarrow> nat option" where
  "claimed pc =
     (case pc of LogLock i \<Rightarrow> Some i | LogRecord i \<Rightarrow> Some i | LogUnlock i \<Rightarrow> Some i | StoreRecord i \<Rightarrow> Some i | StampRecord i \<Rightarrow> Some i | CountTombstone i \<Rightarrow> Some i
      | InsertTombstone i \<Rightarrow> Some i | ShowRecord i \<Rightarrow> Some i | Returned res \<Rightarrow> res | _ \<Rightarrow> None)"

definition writing :: "append_pc \<Rightarrow> bool" where
  "writing pc \<longleftrightarrow>
     (case pc of LogLock _ \<Rightarrow> True | LogRecord _ \<Rightarrow> True | LogUnlock _ \<Rightarrow> True | StoreRecord _ \<Rightarrow> True | StampRecord _ \<Rightarrow> True | CountTombstone _ \<Rightarrow> True
      | InsertTombstone _ \<Rightarrow> True | ShowRecord _ \<Rightarrow> True | _ \<Rightarrow> False)"

definition stored :: "nat \<Rightarrow> 'r append_call \<Rightarrow> 'r Wrapped option" where
  "stored pos c =
     (let w = new_wrapped (ac_rec c) (ac_tombstone c) in
      case ac_pc c of
        StampRecord _ \<Rightarrow> Some w
      | CountTombstone _ \<Rightarrow> Some (set_timestamp (of_nat pos) w)
      | InsertTombstone _ \<Rightarrow> Some (set_timestamp (of_nat pos) w)
      | ShowRecord _ \<Rightarrow> Some (set_timestamp (of_nat pos) w)
      | Returned (Some _) \<Rightarrow> Some (stamped pos (ac_rec c) (ac_tombstone c))
      | _ \<Rightarrow> None)"

definition flush_floor :: "flush_pc \<Rightarrow> nat" where
  "flush_floor pc =
     (case pc of FlushCheck n \<Rightarrow> n | BeginLock n \<Rightarrow> n | FlushBegin n \<Rightarrow> n | BeginUnlock n \<Rightarrow> n | FlushMark n \<Rightarrow> n | HeadLoad n \<Rightarrow> n | HeadSwap n _ \<Rightarrow> n | _ \<Rightarrow> 0)"

definition flush_pending :: "flush_pc \<Rightarrow> bool" where
  "flush_pending pc \<longleftrightarrow>
     (case pc of FlushCheck _ \<Rightarrow> True | BeginLock _ \<Rightarrow> True | FlushBegin _ \<Rightarrow> True | BeginUnlock _ \<Rightarrow> True | FlushMark _ \<Rightarrow> True | HeadLoad _ \<Rightarrow> True | HeadSwap _ _ \<Rightarrow> True | _ \<Rightarrow> False)"

text \<open>A flush is quiet when no append is still writing below its new head as it starts.\<close>

definition no_writer_below :: "nat \<Rightarrow> ('r, 'f) conc_state \<Rightarrow> bool" where
  "no_writer_below n s \<longleftrightarrow>
     (\<forall>c\<in>set (cs_appends s). writing (ac_pc c) \<longrightarrow> (case claimed (ac_pc c) of None \<Rightarrow> True | Some i \<Rightarrow> n \<le> i))"

fun quiet_run :: "('f, 'r::zero) bloom_ops \<Rightarrow> conc_event list \<Rightarrow> ('r, 'f) conc_state \<Rightarrow> bool" where
  "quiet_run B [] s = True"
| "quiet_run B (ev # evs) s \<longleftrightarrow>
     (case ev of StartFlush n \<Rightarrow> no_writer_below n s | _ \<Rightarrow> True) \<and>
     (case conc_event B ev s of None \<Rightarrow> True | Some s' \<Rightarrow> quiet_run B evs s')"

definition claims :: "'r append_call list \<Rightarrow> nat list" where
  "claims cs = List.map_filter (\<lambda>c. claimed (ac_pc c)) cs"

definition call_ok :: "('r, 'f) MutableBuffer \<Rightarrow> nat \<Rightarrow> 'r append_call \<Rightarrow> bool" where
  "call_ok b n c \<longleftrightarrow>
     (case ac_pc c of
        HeadCheck old \<Rightarrow> old \<le> m_tail b
      | TailSwap old \<Rightarrow> old \<le> m_tail b \<and> old < head_idx (m_head b) + m_hwm b
      | TailCheck old \<Rightarrow> old \<le> m_tail b
      | _ \<Rightarrow> True) \<and>
     (\<forall>i. claimed (ac_pc c) = Some i \<longrightarrow>
        (writing (ac_pc c) \<longrightarrow> head_idx (m_head b) \<le> i \<and> n \<le> i) \<and>
        (m_tail b \<le> i + m_cap b \<longrightarrow>
           (\<forall>w. stored (i mod m_cap b) c = Some w \<longrightarrow> m_data b ! (i mod m_cap b) = w)))"

definition conc_inv :: "('r, 'f) MutableBuffer \<Rightarrow> ('r \<times> bool \<times> bool) list \<Rightarrow> ('r, 'f) conc_state \<Rightarrow> bool" where
  "conc_inv b0 args s \<longleftrightarrow>
     (let b = cs_buffer s; n = flush_floor (cs_flush s) in
      m_cap b = m_cap b0 \<and> m_hwm b = m_hwm b0 \<and> length (m_data b) = m_cap b0 \<and>
      head_idx (m_head b0) \<le> head_idx (m_head b) \<and>
      head_idx (m_head b) \<le> m_tail b \<and> m_tail b \<le> head_idx (m_head b) + m_hwm b \<and> m_tail b0 \<le> m_tail b \<and>
      mset (claims (cs_appends s)) = mset [m_tail b0..<m_tail b] \<and>
      (flush_pending (cs_flush s) \<longrightarrow> head_idx (m_head b) < n \<and> n \<le> m_tail b) \<and>
      map (\<lambda>c. (ac_rec c, ac_tombstone c, ac_logging c)) (cs_appends s) = args \<and>
      (\<forall>c\<in>set (cs_appends s). call_ok b n c) \<and>
      (\<forall>k<m_tail b0. m_tail b \<le> k + m_cap b \<longrightarrow> m_data b ! (k mod m_cap b) = m_data b0 ! (k mod m_cap b)))"

subsection \<open>Claims\<close>

lemma map_filter_simps' [simp]:
  "List.map_filter f [] = []"
  "List.map_filter f (x # xs) = (case f x of None \<Rightarrow> List.map_filter f xs | Some y \<Rightarrow> y # List.map_filter f xs)"
  by (simp_all add: List.map_filter_def split: option.splits)

lemma map_filter_update:
  "i < length xs \<Longrightarrow> mset (List.map_filter f (xs[i := y])) + (case f (xs ! i) of None \<Rightarrow> {#} | Some a \<Rightarrow> {#a#}) =
     mset (List.map_filter f xs) + (case f y of None \<Rightarrow> {#} | Some a \<Rightarrow> {#a#})"
  by (induction xs arbitrary: i) (auto simp: nth_Cons split: nat.splits option.splits)

lemma map_filter_distinct_nth:
  "distinct (List.map_filter f xs) \<Longrightarrow> i < length xs \<Longrightarrow> j < length xs \<Longrightarrow> i \<noteq> j \<Longrightarrow> f (xs ! i) = Some a \<Longrightarrow>
     f (xs ! j) = Some b \<Longrightarrow> a \<noteq> b"
proof (induction xs arbitrary: i j)
  case (Cons x xs)
  have mem: "f (xs ! k) = Some c \<Longrightarrow> k < length xs \<Longrightarrow> c \<in> set (List.map_filter f xs)" for k c
    by (force simp: List.map_filter_def)
  show ?case
    using Cons mem by (cases i; cases j) (auto split: option.splits)
qed simp

lemma length_map_filter_le: "length (List.map_filter f xs) \<le> length xs"
  by (induction xs) (auto split: option.splits)

lemma claimed_member: "c \<in> set cs \<Longrightarrow> claimed (ac_pc c) = Some i \<Longrightarrow> i \<in> set (claims cs)"
  by (induction cs) (auto simp: claims_def split: option.splits)

subsection \<open>Steps\<close>

lemma conc_invD:
  assumes "conc_inv b0 args s"
  shows "m_cap (cs_buffer s) = m_cap b0" "m_hwm (cs_buffer s) = m_hwm b0" "length (m_data (cs_buffer s)) = m_cap b0"
    "head_idx (m_head b0) \<le> head_idx (m_head (cs_buffer s))"
    "head_idx (m_head (cs_buffer s)) \<le> m_tail (cs_buffer s)"
    "m_tail (cs_buffer s) \<le> head_idx (m_head (cs_buffer s)) + m_hwm b0" "m_tail b0 \<le> m_tail (cs_buffer s)"
    "mset (claims (cs_appends s)) = mset [m_tail b0..<m_tail (cs_buffer s)]"
    "flush_floor (cs_flush s) \<le> m_tail (cs_buffer s)"
    "flush_pending (cs_flush s) \<Longrightarrow> head_idx (m_head (cs_buffer s)) < flush_floor (cs_flush s)"
    "map (\<lambda>c. (ac_rec c, ac_tombstone c, ac_logging c)) (cs_appends s) = args"
    "\<And>c. c \<in> set (cs_appends s) \<Longrightarrow> call_ok (cs_buffer s) (flush_floor (cs_flush s)) c"
    "\<And>k. k < m_tail b0 \<Longrightarrow> m_tail (cs_buffer s) \<le> k + m_cap b0 \<Longrightarrow>
       m_data (cs_buffer s) ! (k mod m_cap b0) = m_data b0 ! (k mod m_cap b0)"
  using assms unfolding conc_inv_def Let_def
  by (auto simp: flush_pending_def flush_floor_def split: flush_pc.splits)

lemma claim_bounds:
  assumes "conc_inv b0 args s" and "c \<in> set (cs_appends s)" and "claimed (ac_pc c) = Some i"
  shows "m_tail b0 \<le> i" "i < m_tail (cs_buffer s)"
proof -
  have "i \<in># mset (claims (cs_appends s))" using claimed_member [OF assms(2,3)] by simp
  then show "m_tail b0 \<le> i" "i < m_tail (cs_buffer s)" unfolding conc_invD(8) [OF assms(1)] by simp_all
qed

lemma claims_differ:
  assumes "conc_inv b0 args s" and "i < length (cs_appends s)" and "j < length (cs_appends s)" and "i \<noteq> j"
    and "claimed (ac_pc (cs_appends s ! i)) = Some a" and "claimed (ac_pc (cs_appends s ! j)) = Some b"
  shows "a \<noteq> b"
proof -
  have "distinct (claims (cs_appends s))"
    using conc_invD(8) [OF assms(1)] by (metis distinct_upt mset_eq_imp_distinct_iff)
  from map_filter_distinct_nth [OF this [unfolded claims_def] assms(2-6)] show ?thesis .
qed

lemma tail_bound:
  assumes "conc_inv b0 args s"
  shows "m_tail (cs_buffer s) \<le> m_tail b0 + length args"
proof -
  have "length (claims (cs_appends s)) = m_tail (cs_buffer s) - m_tail b0"
    using arg_cong [OF conc_invD(8) [OF assms], of size] by simp
  moreover have "length (claims (cs_appends s)) \<le> length args"
    using length_map_filter_le arg_cong [OF conc_invD(11) [OF assms], of length] unfolding claims_def by (metis length_map)
  ultimately show ?thesis using conc_invD(7) [OF assms] by linarith
qed

lemma call_ok_cong:
  "m_tail b' = m_tail b \<Longrightarrow> head_idx (m_head b') = head_idx (m_head b) \<Longrightarrow> m_hwm b' = m_hwm b \<Longrightarrow> m_cap b' = m_cap b \<Longrightarrow>
     m_data b' = m_data b \<Longrightarrow> call_ok b' n c = call_ok b n c"
  by (simp add: call_ok_def cong: append_pc.case_cong)

text \<open>What a step of one append has to keep.\<close>

lemma conc_inv_appendI:
  assumes inv: "conc_inv b0 args s" and i: "i < length (cs_appends s)"
    and same: "m_head b = m_head (cs_buffer s)" "m_hwm b = m_hwm (cs_buffer s)" "m_cap b = m_cap (cs_buffer s)"
      "length (m_data b) = length (m_data (cs_buffer s))"
    and tail: "m_tail (cs_buffer s) \<le> m_tail b" "m_tail b \<le> head_idx (m_head (cs_buffer s)) + m_hwm b0"
    and claim: "mset [m_tail b0..<m_tail b] + (case claimed (ac_pc (cs_appends s ! i)) of None \<Rightarrow> {#} | Some a \<Rightarrow> {#a#}) =
      mset [m_tail b0..<m_tail (cs_buffer s)] + (case claimed pc of None \<Rightarrow> {#} | Some a \<Rightarrow> {#a#})"
    and others: "\<And>j. j < length (cs_appends s) \<Longrightarrow> j \<noteq> i \<Longrightarrow> call_ok b (flush_floor (cs_flush s)) (cs_appends s ! j)"
    and self: "call_ok b (flush_floor (cs_flush s)) ((cs_appends s ! i)\<lparr>ac_pc := pc\<rparr>)"
    and old: "\<And>k. k < m_tail b0 \<Longrightarrow> m_tail b \<le> k + m_cap b0 \<Longrightarrow> m_data b ! (k mod m_cap b0) = m_data (cs_buffer s) ! (k mod m_cap b0)"
  shows "conc_inv b0 args (s\<lparr>cs_buffer := b, cs_appends := (cs_appends s)[i := (cs_appends s ! i)\<lparr>ac_pc := pc\<rparr>], cs_mutex := m\<rparr>)"
proof -
  note D = conc_invD [OF inv]
  let ?cs = "(cs_appends s)[i := (cs_appends s ! i)\<lparr>ac_pc := pc\<rparr>]" and ?o = "\<lambda>pc. case claimed pc of None \<Rightarrow> {#} | Some a \<Rightarrow> {#a#}"
  have "mset (claims ?cs) + ?o (ac_pc (cs_appends s ! i)) = mset [m_tail b0..<m_tail (cs_buffer s)] + ?o pc"
    using map_filter_update [OF i, of "\<lambda>c. claimed (ac_pc c)" "(cs_appends s ! i)\<lparr>ac_pc := pc\<rparr>"] D(8) by (simp add: claims_def)
  then have "mset (claims ?cs) = mset [m_tail b0..<m_tail b]" using claim by (metis add_right_cancel)
  moreover have "map (\<lambda>c. (ac_rec c, ac_tombstone c, ac_logging c)) ?cs = args"
    using i D(11) by (auto simp: map_update list_update_same_conv)
  moreover have "call_ok b (flush_floor (cs_flush s)) c" if "c \<in> set ?cs" for c
  proof -
    obtain j where "j < length (cs_appends s)" "c = ?cs ! j" using \<open>c \<in> set ?cs\<close> by (auto simp: in_set_conv_nth)
    then show ?thesis using others self by (cases "j = i") auto
  qed
  ultimately show ?thesis
    unfolding conc_inv_def Let_def using D(1-7,9,10,13) same tail old by auto
qed

lemma call_ok_unclaimed:
  "claimed (ac_pc c) = None \<Longrightarrow> call_ok b n c \<longleftrightarrow>
     (case ac_pc c of HeadCheck old \<Rightarrow> old \<le> m_tail b
      | TailSwap old \<Rightarrow> old \<le> m_tail b \<and> old < head_idx (m_head b) + m_hwm b
      | TailCheck old \<Rightarrow> old \<le> m_tail b | _ \<Rightarrow> True)"
  by (simp add: call_ok_def)

lemma call_ok_claimed:
  "claimed (ac_pc c) = Some i \<Longrightarrow> call_ok b n c \<longleftrightarrow>
     (writing (ac_pc c) \<longrightarrow> head_idx (m_head b) \<le> i \<and> n \<le> i) \<and>
     (m_tail b \<le> i + m_cap b \<longrightarrow> (\<forall>w. stored (i mod m_cap b) c = Some w \<longrightarrow> m_data b ! (i mod m_cap b) = w))"
  by (auto simp: call_ok_def claimed_def split: append_pc.splits)

lemma call_ok_later:
  assumes "call_ok b n c"
  shows "call_ok (b\<lparr>m_tail := Suc (m_tail b)\<rparr>) n c"
  using assms by (auto simp: call_ok_def split: append_pc.splits)

text \<open>Two indices of the window share no slot.\<close>

lemma window_slots:
  fixes i k cap :: nat
  assumes "i < tail" and "k < tail" and "tail \<le> i + cap" and "tail \<le> k + cap" and "i \<noteq> k" and "0 < cap"
  shows "i mod cap \<noteq> k mod cap"
proof
  assume eq: "i mod cap = k mod cap"
  have "cap dvd (i - k)" if "k \<le> i" using eq that by (simp add: mod_eq_dvd_iff_nat)
  moreover have "cap dvd (k - i)" if "i \<le> k" using eq that by (metis mod_eq_dvd_iff_nat)
  ultimately have "cap \<le> i - k \<or> cap \<le> k - i" using assms(5) by (cases "k \<le> i") (auto dest: dvd_imp_le)
  then show False using assms by linarith
qed

text \<open>The write of a claimed slot.\<close>

lemma slot_of_small: "i < 2 ^ 31 \<Longrightarrow> slot_of b i = i mod m_cap b"
  by (simp add: slot_of_def to_int32_small int_to_size_small)

lemma conc_inv_write:
  assumes inv: "conc_inv b0 args s" and b0: "buf_inv b0" and i: "i < length (cs_appends s)"
    and k: "claimed (ac_pc (cs_appends s ! i)) = Some k" "writing (ac_pc (cs_appends s ! i))"
    and pc: "claimed pc = Some k"
    and w: "stored (k mod m_cap b0) ((cs_appends s ! i)\<lparr>ac_pc := pc\<rparr>) = Some w"
  shows "conc_inv b0 args (s\<lparr>cs_buffer := (cs_buffer s)\<lparr>m_data := (m_data (cs_buffer s))[k mod m_cap b0 := w]\<rparr>,
    cs_appends := (cs_appends s)[i := (cs_appends s ! i)\<lparr>ac_pc := pc\<rparr>], cs_mutex := m\<rparr>)"
proof (rule conc_inv_appendI [OF inv i])
  note D = conc_invD [OF inv] and cap = buf_invD(2,3) [OF b0]
  let ?b = "cs_buffer s" and ?c = "cs_appends s ! i"
  have mem: "?c \<in> set (cs_appends s)" using i by simp
  have kb: "m_tail b0 \<le> k" "k < m_tail ?b" using claim_bounds [OF inv mem k(1)] by auto
  have head: "head_idx (m_head ?b) \<le> k" "flush_floor (cs_flush s) \<le> k"
    using D(12) [OF mem] k by (simp_all add: call_ok_claimed)
  have win: "m_tail ?b \<le> k + m_cap b0" using head D(6) cap by linarith
  have other: "(m_data ?b)[k mod m_cap b0 := w] ! (j mod m_cap b0) = m_data ?b ! (j mod m_cap b0)"
    if "j < m_tail ?b" "m_tail ?b \<le> j + m_cap b0" "j \<noteq> k" for j
    using window_slots [OF that(1) kb(2) that(2) win that(3)] cap by simp
  show "mset [m_tail b0..<m_tail (?b\<lparr>m_data := (m_data ?b)[k mod m_cap b0 := w]\<rparr>)] +
      (case claimed (ac_pc ?c) of None \<Rightarrow> {#} | Some a \<Rightarrow> {#a#}) =
    mset [m_tail b0..<m_tail ?b] + (case claimed pc of None \<Rightarrow> {#} | Some a \<Rightarrow> {#a#})"
    using k pc by simp
  show "call_ok (?b\<lparr>m_data := (m_data ?b)[k mod m_cap b0 := w]\<rparr>) (flush_floor (cs_flush s)) (cs_appends s ! j)"
    if "j < length (cs_appends s)" "j \<noteq> i" for j
  proof (cases "claimed (ac_pc (cs_appends s ! j))")
    case None
    then show ?thesis using D(12) [of "cs_appends s ! j"] that by (simp add: call_ok_unclaimed cong: append_pc.case_cong)
  next
    case (Some a)
    have "a \<noteq> k" using claims_differ [OF inv that(1) i that(2) Some k(1)] .
    moreover have "a < m_tail ?b" using claim_bounds [OF inv _ Some] that by simp
    ultimately show ?thesis using D(12) [of "cs_appends s ! j"] that Some other [of a] D(1) by (auto simp: call_ok_claimed)
  qed
  have "k mod m_cap b0 < length (m_data ?b)" using D(3) cap by simp
  then show "call_ok (?b\<lparr>m_data := (m_data ?b)[k mod m_cap b0 := w]\<rparr>) (flush_floor (cs_flush s)) (?c\<lparr>ac_pc := pc\<rparr>)"
    using pc head w D(1) by (simp add: call_ok_claimed)
  show "m_data (?b\<lparr>m_data := (m_data ?b)[k mod m_cap b0 := w]\<rparr>) ! (j mod m_cap b0) = m_data ?b ! (j mod m_cap b0)"
    if "j < m_tail b0" "m_tail (?b\<lparr>m_data := (m_data ?b)[k mod m_cap b0 := w]\<rparr>) \<le> j + m_cap b0" for j
    using other [of j] that kb by simp
qed (use conc_invD(6) [OF inv] in simp_all)

lemma conc_inv_append_event:
  assumes inv: "conc_inv b0 args s" and b0: "buf_inv b0" and small: "m_tail b0 + length args < 2 ^ 31"
    and i: "i < length (cs_appends s)" and step: "append_step B (cs_appends s ! i) (cs_buffer s) = (pc, b)"
    and live: "\<forall>res. ac_pc (cs_appends s ! i) \<noteq> Returned res"
  shows "conc_inv b0 args (s\<lparr>cs_buffer := b, cs_appends := (cs_appends s)[i := (cs_appends s ! i)\<lparr>ac_pc := pc\<rparr>], cs_mutex := m\<rparr>)"
proof -
  note D = conc_invD [OF inv] and cap = buf_invD(2,3) [OF b0]
  let ?b = "cs_buffer s" and ?c = "cs_appends s ! i" and ?n = "flush_floor (cs_flush s)"
  have mem: "?c \<in> set (cs_appends s)" using i by simp
  have ok: "call_ok ?b ?n ?c" by (rule D(12) [OF mem])
  have t31: "m_tail ?b < 2 ^ 31" using tail_bound [OF inv] small by linarith
  have slot: "slot_of ?b k = k mod m_cap b0" if "claimed (ac_pc ?c) = Some k" for k
    using claim_bounds(2) [OF inv mem that] t31 D(1) by (simp add: slot_of_small)
  have win: "m_tail ?b \<le> k + m_cap b0" if "claimed (ac_pc ?c) = Some k" "writing (ac_pc ?c)" for k
    using ok that D(6) cap by (simp add: call_ok_claimed)
  have still: "conc_inv b0 args (s\<lparr>cs_buffer := b, cs_appends := (cs_appends s)[i := ?c\<lparr>ac_pc := pc\<rparr>], cs_mutex := m\<rparr>)"
    if "m_tail b = m_tail ?b" "m_head b = m_head ?b" "m_hwm b = m_hwm ?b" "m_cap b = m_cap ?b" "m_data b = m_data ?b"
      "claimed pc = claimed (ac_pc ?c)" "call_ok ?b ?n (?c\<lparr>ac_pc := pc\<rparr>)"
    using that D(6,12) call_ok_cong [of b ?b] by (intro conc_inv_appendI [OF inv i]) auto
  show ?thesis
  proof (cases "ac_pc ?c")
    case TailLoad
    then show ?thesis using step by (intro still) (auto simp: append_step_def claimed_def call_ok_def)
  next
    case (HeadCheck old)
    have "old < head_idx (m_head ?b) + m_hwm ?b" if "sz_sub old (head_idx (m_head ?b)) < m_hwm ?b"
      using that by (cases "head_idx (m_head ?b) \<le> old") (simp_all add: less_diff_conv2)
    then show ?thesis using HeadCheck step ok
      by (intro still) (auto simp: append_step_def claimed_def call_ok_def split: if_splits)
  next
    case (TailSwap old)
    show ?thesis
    proof (cases "m_tail ?b = old")
      case False
      then show ?thesis using TailSwap step by (intro still) (auto simp: append_step_def claimed_def call_ok_def)
    next
      case True
      have eq: "pc = (if ac_logging ?c \<and> m_wal ?b \<noteq> None then LogLock old else StoreRecord old)" "b = ?b\<lparr>m_tail := Suc old\<rparr>"
        using True TailSwap step t31 by (auto simp: append_step_def to_int32_small size_max_def)
      have room: "old < head_idx (m_head ?b) + m_hwm b0" using ok TailSwap D(2) by (simp add: call_ok_def)
      show ?thesis
      proof (rule conc_inv_appendI [OF inv i])
        show "mset [m_tail b0..<m_tail b] + (case claimed (ac_pc ?c) of None \<Rightarrow> {#} | Some a \<Rightarrow> {#a#}) =
            mset [m_tail b0..<m_tail ?b] + (case claimed pc of None \<Rightarrow> {#} | Some a \<Rightarrow> {#a#})"
          using True D(7) TailSwap by (simp add: eq claimed_def)
        show "call_ok b ?n (cs_appends s ! j)" if "j < length (cs_appends s)" for j
          using D(12) [of "cs_appends s ! j"] that call_ok_later [of ?b] True unfolding eq by simp
        show "call_ok b ?n (?c\<lparr>ac_pc := pc\<rparr>)" using D(5,9) True by (auto simp: eq call_ok_def claimed_def stored_def)
      qed (use True room eq in simp_all)
    qed
  next
    case (TailCheck old)
    have "old < head_idx (m_head ?b) + m_hwm ?b" if "m_tail ?b < m_hwm ?b"
      using ok TailCheck that by (simp add: call_ok_def)
    then show ?thesis using TailCheck step ok by (intro still) (auto simp: append_step_def claimed_def call_ok_def split: if_splits)
  next
    case (LogLock k)
    then show ?thesis using step ok by (intro still) (auto simp: append_step_def claimed_def call_ok_def stored_def writing_def)
  next
    case (LogUnlock k)
    then show ?thesis using step ok by (intro still) (auto simp: append_step_def claimed_def call_ok_def stored_def writing_def)
  next
    case (LogRecord k)
    then show ?thesis using step ok by (intro still) (auto simp: append_step_def claimed_def call_ok_def stored_def writing_def split: if_splits)
  next
    case (StoreRecord k)
    then have eq: "pc = StampRecord k" "b = ?b\<lparr>m_data := (m_data ?b)[k mod m_cap b0 := new_wrapped (ac_rec ?c) (ac_tombstone ?c)]\<rparr>"
      using step slot [of k] by (auto simp: append_step_def claimed_def)
    show ?thesis unfolding eq by (rule conc_inv_write [OF inv b0 i]) (simp_all add: StoreRecord claimed_def writing_def stored_def)
  next
    case (StampRecord k)
    have data: "m_data ?b ! (k mod m_cap b0) = new_wrapped (ac_rec ?c) (ac_tombstone ?c)"
      using ok win [of k] StampRecord D(1) by (simp add: call_ok_claimed claimed_def writing_def stored_def)
    have eq: "pc = (if ac_tombstone ?c then CountTombstone k else ShowRecord k)"
        "b = ?b\<lparr>m_data := (m_data ?b)[k mod m_cap b0 := set_timestamp (of_nat (k mod m_cap b0)) (new_wrapped (ac_rec ?c) (ac_tombstone ?c))]\<rparr>"
      using step slot [of k] StampRecord data by (auto simp: append_step_def claimed_def)
    show ?thesis unfolding eq by (rule conc_inv_write [OF inv b0 i]) (simp_all add: StampRecord claimed_def writing_def stored_def)
  next
    case (CountTombstone k)
    then show ?thesis using step ok by (intro still) (auto simp: append_step_def claimed_def call_ok_def stored_def writing_def Let_def)
  next
    case (InsertTombstone k)
    then show ?thesis using step ok by (intro still) (auto simp: append_step_def claimed_def call_ok_def stored_def writing_def Let_def)
  next
    case (ShowRecord k)
    have data: "m_data ?b ! (k mod m_cap b0) = set_timestamp (of_nat (k mod m_cap b0)) (new_wrapped (ac_rec ?c) (ac_tombstone ?c))"
      using ok win [of k] ShowRecord D(1) by (simp add: call_ok_claimed claimed_def writing_def stored_def Let_def)
    have eq: "pc = Returned (Some k)"
        "b = ?b\<lparr>m_data := (m_data ?b)[k mod m_cap b0 := stamped (k mod m_cap b0) (ac_rec ?c) (ac_tombstone ?c)]\<rparr>"
      using step slot [of k] ShowRecord data by (auto simp: append_step_def claimed_def stamped_def)
    show ?thesis unfolding eq by (rule conc_inv_write [OF inv b0 i]) (simp_all add: ShowRecord claimed_def writing_def stored_def Let_def)
  next
    case (Returned res)
    then show ?thesis using live by simp
  qed
qed

lemma conc_inv_view_event:
  assumes inv: "conc_inv b0 args s" and step: "view_step (cs_views s ! i) (cs_buffer s) = (pc, b)"
  shows "conc_inv b0 args (s\<lparr>cs_buffer := b, cs_views := (cs_views s)[i := pc]\<rparr>)"
proof -
  note keeps = view_step_keeps [OF step]
  have "call_ok b n = call_ok (cs_buffer s) n" for n using keeps by (intro ext call_ok_cong) simp_all
  then show ?thesis using inv unfolding conc_inv_def Let_def by (auto simp: keeps)
qed

text \<open>A flush moves the head past slots that nobody writes any more.\<close>

lemma call_ok_floor:
  assumes "call_ok b n c" and "n' \<le> n"
  shows "call_ok b n' c"
  using assms by (auto simp: call_ok_def split: append_pc.splits)

lemma call_ok_head:
  assumes "call_ok b n c" and "head_idx (m_head b) \<le> n"
  shows "call_ok (b\<lparr>m_head := \<lparr>head_idx = n, refcnt = r\<rparr>\<rparr>) n c"
  using assms by (auto simp: call_ok_def split: append_pc.splits)

lemma conc_inv_flush_event:
  assumes inv: "conc_inv b0 args s" and step: "flush_step (cs_flush s) (cs_buffer s) = (pc, b)" 
  shows "conc_inv b0 args (s\<lparr>cs_buffer := b, cs_flush := pc, cs_mutex := m\<rparr>)"
proof -
  note D = conc_invD [OF inv] and keeps = flush_step_keeps [OF step]
  let ?b = "cs_buffer s"
  show ?thesis
  proof (cases "\<exists>n cur. cs_flush s = HeadSwap n cur \<and> m_head ?b = cur")
    case True
    then obtain n cur where n: "cs_flush s = HeadSwap n cur" "m_head ?b = cur" by blast
    then have b: "b = ?b\<lparr>m_head := \<lparr>head_idx = n, refcnt = 0\<rparr>\<rparr>" and pc: "pc = OldStore cur"
      using step by (auto simp: flush_step_def)
    have lt: "head_idx (m_head ?b) < n" "n \<le> m_tail ?b" using D(9,10) n by (simp_all add: flush_floor_def flush_pending_def)
    have "call_ok b 0 c" if "c \<in> set (cs_appends s)" for c
      using D(12) [OF that] lt unfolding b by (intro call_ok_floor [OF call_ok_head]) (simp_all add: n flush_floor_def)
    then show ?thesis
      unfolding conc_inv_def Let_def using D(1-8,11,13) lt by (auto simp: b pc flush_floor_def flush_pending_def)
  next
    case False
    have head: "head_idx (m_head b) = head_idx (m_head ?b)" and
        floor: "flush_floor pc = flush_floor (cs_flush s) \<and> flush_pending pc = flush_pending (cs_flush s) \<or>
          flush_floor pc = 0 \<and> \<not> flush_pending pc"
      using step False by (auto simp: flush_step_def flush_floor_def flush_pending_def split: flush_pc.splits if_splits)
    have "call_ok b n = call_ok ?b n" for n using keeps head by (intro ext call_ok_cong) simp_all
    moreover have "call_ok ?b (flush_floor pc) c" if "c \<in> set (cs_appends s)" for c
      using D(12) [OF that] floor by (auto intro: call_ok_floor)
    ultimately show ?thesis using floor inv unfolding conc_inv_def Let_def by (auto simp: keeps head)
  qed
qed

lemma conc_inv_start_event:
  assumes inv: "conc_inv b0 args s" and n: "n > head_idx (m_head (cs_buffer s))" "n \<le> m_tail (cs_buffer s)"
    and quiet: "no_writer_below n s"
  shows "conc_inv b0 args (s\<lparr>cs_flush := FlushCheck n\<rparr>)"
proof -
  note D = conc_invD [OF inv]
  have "call_ok (cs_buffer s) n c" if "c \<in> set (cs_appends s)" for c
  proof (cases "claimed (ac_pc c)")
    case None
    then show ?thesis using D(12) [OF that] by (simp add: call_ok_unclaimed)
  next
    case (Some i)
    then show ?thesis using D(12) [OF that] quiet that by (auto simp: call_ok_claimed no_writer_below_def)
  qed
  then show ?thesis using D(1-8,11,13) n unfolding conc_inv_def Let_def by (auto simp: flush_floor_def flush_pending_def)
qed

lemma conc_inv_start:
  assumes "buf_inv b"
  shows "conc_inv b args (conc_start b args v)"
  using buf_invD [OF assms]
  by (auto simp: conc_inv_def conc_start_def claims_def claimed_def call_ok_def flush_floor_def flush_pending_def comp_def
      case_prod_unfold List.map_filter_def)

lemma conc_inv_run:
  assumes "buf_inv b0" and "m_tail b0 + length args < 2 ^ 31"
    and "conc_run B evs s = Some s'" and "quiet_run B evs s" and "conc_inv b0 args s"
  shows "conc_inv b0 args s'"
  using assms(3-5)
proof (induction evs arbitrary: s)
  case (Cons ev evs)
  then obtain s1 where s1: "conc_event B ev s = Some s1" "conc_run B evs s1 = Some s'" by (auto split: option.splits)
  from s1(1) have "conc_inv b0 args s1"
  proof (cases rule: conc_event_cases)
    case (append i pc b m)
    then show ?thesis using conc_inv_append_event [OF Cons.prems(3) assms(1,2)] by blast
  next
    case (view i pc b)
    then show ?thesis using conc_inv_view_event [OF Cons.prems(3)] by blast
  next
    case (flush pc b m)
    then show ?thesis using conc_inv_flush_event [OF Cons.prems(3)] by blast
  next
    case (start n)
    then show ?thesis using conc_inv_start_event [OF Cons.prems(3)] Cons.prems(2) by simp
  qed
  moreover have "quiet_run B evs s1" using Cons.prems(2) s1(1) by simp
  ultimately show ?case using Cons.IH [OF s1(2)] by blast
qed simp

section \<open>Properties\<close>

lemmas mutex_simps = append_mutex_def flush_mutex_def mtx_lock_def mtx_unlock_def

lemmas event_simps =
  conc_event_def append_step_def view_step_def flush_step_def conc_start_def one_more_def mutex_simps

definition demo_room :: "(nat, nat list) MutableBuffer" where
  "demo_room = (demo_buffer 1 3 4 6)\<lparr>m_old_head := \<lparr>head_idx = 1, refcnt = 0\<rparr>\<rparr>"

lemma demo_room_ok: "buf_inv demo_room" "length (buf_list demo_room) = 1"
  by (simp_all add: demo_room_def demo_buffer_def buf_inv_def old_head_valid_def buf_list_def)

lemmas demo_room_simps = demo_room_def demo_buffer_def

lemma quiet_run_no_flush: "(\<And>n. StartFlush n \<notin> set evs) \<Longrightarrow> quiet_run B evs s"
  by (induction evs arbitrary: s) (auto split: conc_event.splits option.splits)

lemma buf_list_nth:
  "head_idx (m_head b) \<le> k \<Longrightarrow> k < m_tail b \<Longrightarrow> buf_list b ! (k - head_idx (m_head b)) = m_data b ! (k mod m_cap b)"
  by (simp add: buf_list_def ring_list_def)

text \<open>
  C4. However the accesses of any number of appends, views and flushes interleave, as long as no flush
  starts above a slot that is still being written: the buffer never holds more than its high
  watermark, every index from the initial tail on has been claimed by exactly one append, the slot of
  every append that has returned holds its record, complete and visible, until a flush takes it,
  and the older records are untouched.
\<close>

theorem concurrent_appends_safe:
  assumes "buf_inv b" and "m_tail b + length args < 2 ^ 31"
    and "conc_run B evs (conc_start b args v) = Some s" and "quiet_run B evs (conc_start b args v)"
  shows "let b' = cs_buffer s; h = head_idx (m_head b') in
    length (buf_list b') \<le> m_hwm b \<and>
    mset (claims (cs_appends s)) = mset [m_tail b..<m_tail b'] \<and>
    map (\<lambda>c. (ac_rec c, ac_tombstone c, ac_logging c)) (cs_appends s) = args \<and>
    (\<forall>c\<in>set (cs_appends s). \<forall>i. ac_pc c = Returned (Some i) \<longrightarrow> h \<le> i \<longrightarrow>
       buf_list b' ! (i - h) = stamped (i mod m_cap b) (ac_rec c) (ac_tombstone c)) \<and>
    (\<forall>k. h \<le> k \<longrightarrow> k < m_tail b \<longrightarrow> buf_list b' ! (k - h) = buf_list b ! (k - head_idx (m_head b)))"
proof -
  have inv: "conc_inv b args s" by (rule conc_inv_run [OF assms conc_inv_start [OF assms(1)]])
  note D = conc_invD [OF inv] and cap = buf_invD(2,3) [OF assms(1)]
  let ?b = "cs_buffer s"
  have ret: "buf_list ?b ! (i - head_idx (m_head ?b)) = stamped (i mod m_cap b) (ac_rec c) (ac_tombstone c)"
    if "c \<in> set (cs_appends s)" "ac_pc c = Returned (Some i)" "head_idx (m_head ?b) \<le> i" for c i
  proof -
    have "claimed (ac_pc c) = Some i" "stored (i mod m_cap b) c = Some (stamped (i mod m_cap b) (ac_rec c) (ac_tombstone c))"
      using that(2) by (simp_all add: claimed_def stored_def Let_def)
    moreover have "m_tail ?b \<le> i + m_cap b" using that(3) D(6) cap by linarith
    ultimately show ?thesis
      using D(12) [OF that(1)] claim_bounds(2) [OF inv that(1)] that(3) D(1) by (simp add: call_ok_claimed buf_list_nth)
  qed
  have old: "buf_list ?b ! (k - head_idx (m_head ?b)) = buf_list b ! (k - head_idx (m_head b))"
    if "head_idx (m_head ?b) \<le> k" "k < m_tail b" for k
  proof -
    have "m_tail ?b \<le> k + m_cap b" using that(1) D(6) cap by linarith
    then show ?thesis using that D(1,4,7) D(13) [of k] by (simp add: buf_list_nth)
  qed
  show ?thesis unfolding Let_def using D(5,6,8,11) ret old by (auto simp: buf_list_def)
qed

theorem concurrent_appends_safe_witness:
  "\<exists>s. conc_run list_bloom [AppendEv 1, AppendEv 1, AppendEv 1, AppendEv 0, AppendEv 0, AppendEv 0, AppendEv 0, AppendEv 0, AppendEv 0] (conc_start demo_room [(7, False, False), (8, True, True)] 0) = Some s \<and>
     claims (cs_appends s) = [5, 4] \<and> buf_list (cs_buffer s) ! 2 = stamped 5 7 False"
proof -
  let ?evs = "[AppendEv 1, AppendEv 1, AppendEv 1, AppendEv 0, AppendEv 0, AppendEv 0, AppendEv 0, AppendEv 0, AppendEv 0]" and ?s0 = "conc_start demo_room [(7, False, False), (8, True, True)] 0"
  have q: "quiet_run list_bloom ?evs ?s0"
    by (rule quiet_run_no_flush) simp
  have "\<exists>s. conc_run list_bloom ?evs (conc_start b [(7, False, False), (8, True, True)] 0) = Some s \<and> claims (cs_appends s) = [5, 4] \<and>
      head_idx (m_head (cs_buffer s)) = 3 \<and> ac_pc (cs_appends s ! 0) = Returned (Some 5) \<and> 0 < length (cs_appends s) \<and>
      ac_rec (cs_appends s ! 0) = 7 \<and> \<not> ac_tombstone (cs_appends s ! 0)"
    if "m_tail b = 4" "head_idx (m_head b) = 3" "m_hwm b = 3" for b :: "(nat, nat list) MutableBuffer"
    using that by (simp add: event_simps to_int32_def size_max_def claims_def claimed_def)
  from this [of demo_room] obtain s where s: "conc_run list_bloom ?evs ?s0 = Some s" "claims (cs_appends s) = [5, 4]" "head_idx (m_head (cs_buffer s)) = 3"
      "ac_pc (cs_appends s ! 0) = Returned (Some 5)" "cs_appends s ! 0 \<in> set (cs_appends s)" "ac_rec (cs_appends s ! 0) = 7" "\<not> ac_tombstone (cs_appends s ! 0)"
    by (auto simp: demo_room_simps)
  have "m_tail demo_room + length [(7 :: nat, False, False), (8, True, True)] < 2 ^ 31" by (simp add: demo_room_simps)
  from concurrent_appends_safe [OF demo_room_ok(1) this s(1) q] s
  have "buf_list (cs_buffer s) ! (5 - 3) = stamped (5 mod m_cap demo_room) 7 False"
    unfolding Let_def s(3) by fastforce
  then show ?thesis using s(1,2) by (auto simp: demo_room_simps)
qed

text \<open>
  C5. Appends end and do not deadlock. In every interleaving, with views and flushes too, \<open>n\<close> calls make
  at most \<open>n (2 n + 11)\<close> accesses between them. At most one of the calls and the flush is between the
  lock and the unlock of the log's mutex. A call that has not returned can make its next access; or that access is the
  lock, another call or the flush holds the mutex, and at most two accesses of the holder, which nobody can
  block, free it for the waiting call.
\<close>

theorem appends_return:
  assumes "conc_run B evs (conc_start b args v) = Some s"
  shows "length (filter (\<lambda>ev. \<exists>i. ev = AppendEv i) evs) \<le> length args * (11 + 2 * length args) \<and>
    (\<forall>i<length (cs_appends s). in_log (ac_pc (cs_appends s ! i)) \<longrightarrow>
       flush_in_log (cs_flush s) = 0 \<and> (\<forall>j<length (cs_appends s). in_log (ac_pc (cs_appends s ! j)) \<longrightarrow> i = j)) \<and>
    (\<forall>i<length (cs_appends s). (\<exists>res. ac_pc (cs_appends s ! i) = Returned res) \<or>
       (\<exists>holder n s'. (holder = FlushEv \<or> (\<exists>j. j \<noteq> i \<and> holder = AppendEv j)) \<and> n \<le> 2 \<and>
          (0 < n \<longrightarrow> cs_mutex s \<noteq> None \<and> (\<exists>k. ac_pc (cs_appends s ! i) = LogLock k)) \<and>
          conc_run B (replicate n holder @ [AppendEv i]) s = Some s'))"
proof -
  have inv: "mutex_inv s" using mutex_inv_run [OF assms] by simp
  show ?thesis
  proof (intro conjI allI impI, goal_cases)
    case 1
    then show ?case using append_events_bounded [OF assms] steps_left_start [of b args v] by linarith
  next
    case (2 i)
    then show ?case by (rule mutex_inv_exclusive(1) [OF inv])
  next
    case (3 i j)
    then show ?case using mutex_inv_exclusive(2) [OF inv] by blast
  next
    case (4 i)
    then show ?case using append_goes_on [OF inv 4, of B] by (cases "\<exists>res. ac_pc (cs_appends s ! i) = Returned res") simp_all
  qed
qed

theorem appends_return_witness:
  "\<exists>s. conc_run list_bloom [AppendEv 0, AppendEv 0, AppendEv 0, AppendEv 0, AppendEv 1, AppendEv 1, AppendEv 1] (conc_start demo_room [(7, False, True), (8, False, True)] 0) = Some s \<and>
     ac_pc (cs_appends s ! 1) = LogLock 5 \<and> cs_mutex s = Some (AppendOwner 0) \<and> conc_event list_bloom (AppendEv 1) s = None \<and>
     (\<exists>holder n s'. n \<le> 2 \<and> conc_run list_bloom (replicate n holder @ [AppendEv 1]) s = Some s')"
proof -
  let ?evs = "[AppendEv 0, AppendEv 0, AppendEv 0, AppendEv 0, AppendEv 1, AppendEv 1, AppendEv 1]" and ?s0 = "conc_start demo_room [(7, False, True), (8, False, True)] 0"
  have "\<exists>s. conc_run list_bloom ?evs ?s0 = Some s \<and> length (cs_appends s) = 2 \<and>
      ac_pc (cs_appends s ! 1) = LogLock 5 \<and> cs_mutex s = Some (AppendOwner 0) \<and> conc_event list_bloom (AppendEv 1) s = None"
    by (simp add: event_simps demo_room_simps to_int32_def size_max_def)
  then obtain s where s: "conc_run list_bloom ?evs ?s0 = Some s" "length (cs_appends s) = 2" "ac_pc (cs_appends s ! 1) = LogLock 5"
      "cs_mutex s = Some (AppendOwner 0)" "conc_event list_bloom (AppendEv 1) s = None" by blast
  have "1 < length (cs_appends s)" using s(2) by simp
  moreover have "\<nexists>res. ac_pc (cs_appends s ! 1) = Returned res" using s(3) by simp
  ultimately show ?thesis using appends_return [OF s(1)] s by blast
qed

text \<open>
  C37. Under a fair scheduler every append returns: in every infinite run from a state in which the calls start, with any
  number of views and of flushes one after the other, if each append and the flush make an access
  again and again when they could again and again, then from some instant on all calls of append have returned.
\<close>

theorem fair_appends_return:
  assumes "conc_trace B evs st" and "st 0 = conc_start b args v"
    and "fair_to B evs st FlushEv" and "\<And>i. fair_to B evs st (AppendEv i)"
  shows "\<exists>N. \<forall>n\<ge>N. length (cs_appends (st n)) = length args \<and> (\<forall>c\<in>set (cs_appends (st n)). \<exists>res. ac_pc c = Returned res)"
proof -
  have "mutex_inv (st 0)" by (simp add: assms(2))
  moreover have "length (cs_appends (st n)) = length args" for n
  proof (induction n)
    case (Suc n)
    then show ?case using conc_traceD [OF assms(1), of n] conc_event_length [of B _ "st n" "st (Suc n)"] by (cases "evs n") auto
  qed (simp add: assms(2) conc_start_def)
  ultimately show ?thesis using fair_appends_end [OF assms(1) _ assms(3,4)] by blast
qed

lemma conc_run_replicate:
  "conc_run B (replicate (Suc n) ev) s = (case conc_run B (replicate n ev) s of None \<Rightarrow> None | Some s' \<Rightarrow> conc_event B ev s')"
  using conc_run_append [of B "replicate n ev" "[ev]" s] by (simp add: replicate_append_same split: option.splits)

theorem fair_appends_return_witness:
  "\<exists>evs st N. conc_trace list_bloom evs st \<and> st 0 = conc_start demo_room [(7, False, True)] 1 \<and>
     (\<forall>n\<ge>N. \<forall>c\<in>set (cs_appends (st n)). \<exists>res. ac_pc c = Returned res)"
proof -
  let ?s0 = "conc_start demo_room [(7, False, True)] 1"
  let ?run = "\<lambda>n. conc_run list_bloom (replicate n (AppendEv 0)) ?s0"
  define evs where "evs n = (if n < 9 then Some (AppendEv 0) else None)" for n :: nat
  define st where "st n = the (?run (min n 9))" for n
  have "\<exists>s. conc_run list_bloom [AppendEv 0, AppendEv 0, AppendEv 0, AppendEv 0, AppendEv 0, AppendEv 0, AppendEv 0, AppendEv 0, AppendEv 0] ?s0 = Some s \<and>
      length (cs_appends s) = 1 \<and> ac_pc (cs_appends s ! 0) = Returned (Some 4) \<and> cs_flush s = FlushIdle"
    by (simp add: event_simps demo_room_simps to_int32_def size_max_def)
  then obtain s9 where s9: "?run 9 = Some s9" "length (cs_appends s9) = 1" "ac_pc (cs_appends s9 ! 0) = Returned (Some 4)" "cs_flush s9 = FlushIdle"
    by (auto simp: eval_nat_numeral)
  have "\<exists>s. ?run (9 - k) = Some s" for k
  proof (induction k)
    case (Suc k)
    show ?case
    proof (cases "k < 9")
      case True
      then have "9 - k = Suc (9 - Suc k)" by simp
      then show ?thesis using Suc conc_run_replicate [of list_bloom "9 - Suc k" "AppendEv 0" ?s0] by (auto split: option.splits)
    qed (use Suc in simp)
  qed (use s9 in simp)
  then have run: "?run n = Some (st n)" if "n \<le> 9" for n
    using that by (metis st_def diff_diff_cancel min.absorb1 option.sel)
  have late: "st n = s9" if "9 \<le> n" for n using that s9 by (simp add: st_def min.absorb2)
  have trace: "conc_trace list_bloom evs st"
    unfolding conc_trace_def
  proof
    fix n
    show "case evs n of None \<Rightarrow> st (Suc n) = st n | Some ev \<Rightarrow> conc_event list_bloom ev (st n) = Some (st (Suc n))"
      using run [of n] run [of "Suc n"] late [of n] late [of "Suc n"] conc_run_replicate [of list_bloom n "AppendEv 0" ?s0]
      by (cases "n < 9") (simp_all add: evs_def)
  qed
  have st0: "st 0 = ?s0" using run [of 0] by simp
  have off: "conc_event list_bloom ev s9 = None" if "ev = FlushEv \<or> (\<exists>i. ev = AppendEv i)" for ev
    using that s9 by (auto simp: conc_event_def)
  have fair: "fair_to list_bloom evs st ev" if "ev = FlushEv \<or> (\<exists>i. ev = AppendEv i)" for ev
    unfolding fair_to_def
  proof
    assume "\<forall>n. \<exists>m\<ge>n. conc_event list_bloom ev (st m) \<noteq> None"
    then obtain m where "9 \<le> m" "conc_event list_bloom ev (st m) \<noteq> None" by blast
    then show "\<forall>n. \<exists>m\<ge>n. evs m = Some ev" using off [OF that] late by simp
  qed
  have "\<exists>N. \<forall>n\<ge>N. \<forall>c\<in>set (cs_appends (st n)). \<exists>res. ac_pc c = Returned res"
    using fair_appends_return [OF trace st0 fair fair] by blast
  then show ?thesis using trace st0 by blast
qed

text \<open>
  The retry loop compares the tail with the high watermark instead of the number of records. Once
  the tail has passed the high watermark, an append that loses the race for a slot returns 0 as if the
  buffer were full, although there is room.
\<close>

theorem lost_swap_reports_full:
  assumes "buf_inv b" and "m_hwm b \<le> m_tail b" and "Suc (length (buf_list b)) < m_hwm b" and "m_tail b < 2 ^ 31 - 1"
  shows "\<exists>evs s. conc_run B evs (conc_start b [(r, ts, logging), (r', ts', logging')] 0) = Some s \<and>
    ac_pc (cs_appends s ! 1) = Returned None \<and> length (buf_list (cs_buffer s)) < m_hwm b"
proof -
  have room: "sz_sub (m_tail b) (head_idx (m_head b)) < m_hwm b" and head: "head_idx (m_head b) \<le> m_tail b"
    using assms(3) buf_invD(5) [OF assms(1)] by (simp_all add: buf_list_def)
  have "to_int32 (int (m_tail b)) = int (m_tail b)" using assms(4) by (simp add: to_int32_small)
  moreover have "sz_add (m_tail b) 1 = Suc (m_tail b)" using assms(4) by (simp add: size_max_def)
  ultimately have "\<exists>s. conc_run B [AppendEv 0, AppendEv 0, AppendEv 1, AppendEv 1, AppendEv 0, AppendEv 1, AppendEv 1]
      (conc_start b [(r, ts, logging), (r', ts', logging')] 0) = Some s \<and>
    ac_pc (cs_appends s ! 1) = Returned None \<and> m_tail (cs_buffer s) = Suc (m_tail b) \<and> m_head (cs_buffer s) = m_head b"
    using room assms(2) by (simp add: event_simps)
  then show ?thesis using assms(3) head by (metis (no_types, lifting) buf_list_def length_ring_list Suc_diff_le)
qed


theorem lost_swap_reports_full_witness:
  "\<exists>evs s. conc_run list_bloom evs (conc_start demo_room [(7, False, False), (8, False, False)] 0) = Some s \<and>
    ac_pc (cs_appends s ! 1) = Returned None \<and> length (buf_list (cs_buffer s)) < 3"
proof -
  have "m_hwm demo_room \<le> m_tail demo_room" "Suc (length (buf_list demo_room)) < m_hwm demo_room" "m_tail demo_room < 2 ^ 31 - 1"
    "m_hwm demo_room = 3"
    using demo_room_ok(2) by (simp_all add: demo_room_simps)
  then show ?thesis using lost_swap_reports_full [OF demo_room_ok(1), of list_bloom 7 False False 8 False False] by simp
qed

text \<open>
  C38. A flush does not wait for appends that have claimed a slot and not written it: its view ends with
  whatever the slot held before, the head moves past it, and the append then returns 1 for a record that is
  neither in the buffer nor among the flushed ones.
\<close>

theorem pending_append_lost:
  assumes "buf_inv b" and "length (buf_list b) < m_hwm b" and "m_tail b < 2 ^ 31 - 1" and "refcnt (m_old_head b) = 0"
  shows "\<exists>s1 s2 evs. conc_run B [AppendEv 0, AppendEv 0, AppendEv 0] (conc_start b [(r, ts, logging)] 0) = Some s1 \<and>
    buf_list (cs_buffer s1) = buf_list b @ [m_data b ! (m_tail b mod m_cap b)] \<and>
    conc_run B (StartFlush (m_tail (cs_buffer s1)) # evs) s1 = Some s2 \<and>
    ac_pc (cs_appends s2 ! 0) = Returned (Some (m_tail b)) \<and> buf_list (cs_buffer s2) = [] \<and> cs_flush s2 = FlushIdle"
proof -
  have room: "sz_sub (m_tail b) (head_idx (m_head b)) < m_hwm b" and head: "head_idx (m_head b) \<le> m_tail b"
    using assms(2) buf_invD(5) [OF assms(1)] by (simp_all add: buf_list_def)
  have i32: "to_int32 (int (m_tail b)) = int (m_tail b)" using assms(3) by (simp add: to_int32_small)
  have inc: "sz_add (m_tail b) 1 = Suc (m_tail b)" using assms(3) by (simp add: size_max_def)
  let ?c = "\<lparr>ac_rec = r, ac_tombstone = ts, ac_logging = logging,
      ac_pc = if logging \<and> m_wal b \<noteq> None then LogLock (m_tail b) else StoreRecord (m_tail b)\<rparr>"
  let ?s1 = "\<lparr>cs_buffer = b\<lparr>m_tail := Suc (m_tail b)\<rparr>, cs_appends = [?c], cs_views = [], cs_flush = FlushIdle, cs_mutex = None\<rparr>"
  have "conc_run B [AppendEv 0, AppendEv 0, AppendEv 0] (conc_start b [(r, ts, logging)] 0) = Some ?s1"
    using room i32 inc by (simp add: event_simps)
  moreover have "buf_list (cs_buffer ?s1) = buf_list b @ [m_data b ! (m_tail b mod m_cap b)]"
    using head by (simp add: buf_list_def ring_list_snoc)
  moreover have "\<exists>s2. conc_run B (StartFlush (m_tail (cs_buffer ?s1)) # replicate (if m_wal b = None then 6 else 12) FlushEv @
        replicate ((if logging \<and> m_wal b \<noteq> None then 3 else 0) + (if ts then 5 else 3)) (AppendEv 0)) ?s1 = Some s2 \<and>
      ac_pc (cs_appends s2 ! 0) = Returned (Some (m_tail b)) \<and> m_tail (cs_buffer s2) = Suc (m_tail b) \<and>
      head_idx (m_head (cs_buffer s2)) = Suc (m_tail b) \<and> cs_flush s2 = FlushIdle"
    using head assms(4) by (cases ts; cases logging; cases "m_wal b") (simp_all add: event_simps eval_nat_numeral)
  moreover have "buf_list (cs_buffer s) = []" if "m_tail (cs_buffer s) = Suc (m_tail b)" "head_idx (m_head (cs_buffer s)) = Suc (m_tail b)"
    for s :: "('a, 'b) conc_state" using that by (simp add: buf_list_def ring_list_def)
  ultimately show ?thesis by metis
qed

theorem pending_append_lost_witness:
  "\<exists>s1 s2 evs. conc_run list_bloom [AppendEv 0, AppendEv 0, AppendEv 0] (conc_start demo_room [(7, False, False)] 0) = Some s1 \<and>
    buf_list (cs_buffer s1) = [\<lparr>header = 4, rec = 0\<rparr>, \<lparr>header = 4, rec = 0\<rparr>] \<and>
    conc_run list_bloom (StartFlush (m_tail (cs_buffer s1)) # evs) s1 = Some s2 \<and>
    ac_pc (cs_appends s2 ! 0) = Returned (Some 4) \<and> buf_list (cs_buffer s2) = []"
proof -
  have "length (buf_list demo_room) < m_hwm demo_room" "m_tail demo_room < 2 ^ 31 - 1" "refcnt (m_old_head demo_room) = 0" "m_tail demo_room = 4"
    "buf_list demo_room @ [m_data demo_room ! (m_tail demo_room mod m_cap demo_room)] = [\<lparr>header = 4, rec = 0\<rparr>, \<lparr>header = 4, rec = 0\<rparr>]"
    using demo_room_ok(2) by (simp_all add: demo_room_simps buf_list_def ring_list_def upt_rec)
  with pending_append_lost [OF demo_room_ok(1) this(1-3), of list_bloom 7 False False] show ?thesis by metis
qed

text \<open>
  The state after such a release: the old head has one reference, no view can give it back, and every
  flush stops at its check.
\<close>

definition on_new_head :: "nat \<Rightarrow> view_pc \<Rightarrow> bool" where
  "on_new_head t pc \<longleftrightarrow>
     (case pc of
        TargetLoad \<Rightarrow> True | Released \<Rightarrow> True
      | OldLook x \<Rightarrow> x = t | NewLook x \<Rightarrow> x = t | NewLoad x \<Rightarrow> x = t | NewTake x cur \<Rightarrow> x = t \<and> head_idx cur = t
      | TailView x \<Rightarrow> x = t | CountView x _ \<Rightarrow> x = t | Viewing x _ _ \<Rightarrow> x = t
      | OldFind x \<Rightarrow> x = t | NewFetch x \<Rightarrow> x = t | NewDrop x cur \<Rightarrow> x = t \<and> head_idx cur = t
      | _ \<Rightarrow> False)"

definition old_head_kept :: "nat \<Rightarrow> nat \<Rightarrow> ('r, 'f) conc_state \<Rightarrow> bool" where
  "old_head_kept h t s \<longleftrightarrow>
     m_old_head (cs_buffer s) = \<lparr>head_idx = h, refcnt = 1\<rparr> \<and> head_idx (m_head (cs_buffer s)) = t \<and>
     (cs_flush s = FlushIdle \<or> (\<exists>n. cs_flush s = FlushCheck n)) \<and> (\<forall>pc\<in>set (cs_views s). on_new_head t pc)"

lemma on_new_head_step:
  assumes "view_step pc b = (pc', b')" and "on_new_head t pc" and "head_idx (m_head b) = t" and "head_idx (m_old_head b) \<noteq> t"
  shows "on_new_head t pc'" and "m_old_head b' = m_old_head b" and "head_idx (m_head b') = t"
  using assms by (auto simp: view_step_def on_new_head_def one_more_def split: view_pc.splits if_splits)

lemma old_head_kept_event:
  assumes "conc_event B ev s = Some s'" and "old_head_kept h t s" and "h \<noteq> t"
  shows "old_head_kept h t s'"
  using assms(1)
proof (cases rule: conc_event_cases)
  case (append i pc b m)
  then show ?thesis using append_step_keeps(3,4) [OF append(4)] assms(2) by (simp add: old_head_kept_def)
next
  case (view i pc b)
  have "on_new_head t (cs_views s ! i)" using assms(2) view(2) by (simp add: old_head_kept_def)
  then have "on_new_head t pc" "m_old_head b = m_old_head (cs_buffer s)" "head_idx (m_head b) = t"
    using on_new_head_step [OF view(3)] assms(2,3) by (simp_all add: old_head_kept_def)
  then show ?thesis using view assms(2) by (auto simp: old_head_kept_def dest: subsetD [OF set_update_subset_insert])
next
  case (flush pc b m)
  then show ?thesis using assms(2) by (auto simp: old_head_kept_def flush_step_def)
next
  case (start n)
  then show ?thesis using assms(2) by (simp add: old_head_kept_def)
qed

lemma old_head_kept_run:
  "conc_run B evs s = Some s' \<Longrightarrow> old_head_kept h t s \<Longrightarrow> h \<noteq> t \<Longrightarrow> old_head_kept h t s'"
  by (induction evs arbitrary: s) (auto split: option.splits dest: old_head_kept_event)

text \<open>
  C39. Between the two writes of a flush, to the head and to the old head, a view on the former head is
  released from the new head's count. The view on the new head is then left without a reference, and
  the old head keeps one for ever: in every continuation, whatever the other appends and views do, its
  count stays one, no flush gets past its check, and the head never moves again.
\<close>

theorem release_during_flush:
  assumes "buf_inv b" and "refcnt (m_head b) = 0" and "refcnt (m_old_head b) = 0" and "head_idx (m_old_head b) \<noteq> m_tail b"
    and "head_idx (m_head b) < m_tail b"
  shows "\<exists>evs s. conc_run B evs (conc_start b args (Suc (Suc v))) = Some s \<and>
    cs_views s = Released # Viewing (m_tail b) (m_tail b) (m_tscnt b) # replicate v TargetLoad \<and>
    cs_flush s = FlushIdle \<and> m_head (cs_buffer s) = \<lparr>head_idx = m_tail b, refcnt = 0\<rparr> \<and>
    (\<forall>evs' s'. conc_run B evs' s = Some s' \<longrightarrow>
       m_old_head (cs_buffer s') = \<lparr>head_idx = head_idx (m_head b), refcnt = 1\<rparr> \<and>
       head_idx (m_head (cs_buffer s')) = m_tail b \<and> (cs_flush s' = FlushIdle \<or> (\<exists>n. cs_flush s' = FlushCheck n)))"
proof -
  have ne: "head_idx (m_old_head b) \<noteq> head_idx (m_head b)" by (rule buf_invD(8) [OF assms(1)])
  have one: "sz_add 0 1 = 1" by (simp add: size_max_def)
  obtain h where h: "m_head b = \<lparr>head_idx = h, refcnt = 0\<rparr>" using assms(2) by (cases "m_head b") simp
  let ?evs = "replicate 7 (ViewEv 0) @ StartFlush (m_tail b) # replicate (if m_wal b = None then 4 else 7) FlushEv @
    replicate 7 (ViewEv 1) @ replicate 4 (ViewEv 0) @ replicate (if m_wal b = None then 2 else 5) FlushEv"
  have "\<exists>s. conc_run B ?evs (conc_start b args (Suc (Suc v))) = Some s \<and>
    cs_views s = Released # Viewing (m_tail b) (m_tail b) (m_tscnt b) # replicate v TargetLoad \<and>
    cs_flush s = FlushIdle \<and> m_head (cs_buffer s) = \<lparr>head_idx = m_tail b, refcnt = 0\<rparr> \<and>
    m_old_head (cs_buffer s) = \<lparr>head_idx = h, refcnt = 1\<rparr>"
    using ne assms(3-5) h one by (cases "m_wal b") (simp_all add: event_simps eval_nat_numeral)
  then obtain s where s: "conc_run B ?evs (conc_start b args (Suc (Suc v))) = Some s"
      "cs_views s = Released # Viewing (m_tail b) (m_tail b) (m_tscnt b) # replicate v TargetLoad"
      "cs_flush s = FlushIdle" "m_head (cs_buffer s) = \<lparr>head_idx = m_tail b, refcnt = 0\<rparr>"
      "m_old_head (cs_buffer s) = \<lparr>head_idx = h, refcnt = 1\<rparr>" by blast
  then have "old_head_kept h (m_tail b) s" by (simp add: old_head_kept_def on_new_head_def)
  then have "old_head_kept h (m_tail b) s'" if "conc_run B evs' s = Some s'" for evs' s'
    using old_head_kept_run [OF that] assms(5) h by simp
  then show ?thesis using s h unfolding old_head_kept_def by (intro exI [of _ ?evs] exI [of _ s]) auto
qed

theorem release_during_flush_witness:
  "\<exists>evs s. conc_run list_bloom evs (conc_start demo_room [(7, False, True)] 3) = Some s \<and> cs_views s = [Released, Viewing 4 4 0, TargetLoad] \<and>
    m_head (cs_buffer s) = \<lparr>head_idx = 4, refcnt = 0\<rparr> \<and>
    (\<forall>evs' s'. conc_run list_bloom evs' s = Some s' \<longrightarrow> m_old_head (cs_buffer s') = \<lparr>head_idx = 3, refcnt = 1\<rparr>)"
proof -
  have "refcnt (m_head demo_room) = 0" "refcnt (m_old_head demo_room) = 0" "head_idx (m_old_head demo_room) \<noteq> m_tail demo_room"
    "head_idx (m_head demo_room) < m_tail demo_room" and val: "m_tail demo_room = 4" "m_tscnt demo_room = 0" "head_idx (m_head demo_room) = 3"
    by (simp_all add: demo_room_simps)
  from release_during_flush [OF demo_room_ok(1) this(1-4), of list_bloom "[(7, False, True)]" 1]
  show ?thesis unfolding val by (simp add: numeral_3_eq_3) blast
qed

end
