(* ===== verification/DE_Level.thy ===== *)
theory DE_Level
  imports Complex_Main DE_Merge DE_Types
begin

text \<open>
  The levels of the structure (\<^verbatim>\<open>include/framework/structure/InternalLevel.h\<close>). A level holds an
  array of shard slots of which the first \<open>shard_cnt\<close> are in use, and at times a pending shard.
  The framework is generic in the shard type; the operations it calls
  (\<^verbatim>\<open>include/framework/interface/Shard.h\<close>) are the fields of \<open>shard_ops\<close>, and the locale \<open>shard\<close>
  states what their clients rely on. The world \<open>'w\<close> is what shard constructors change outside
  the framework: the directory of shard files and the supply of names.
\<close>

section \<open>The shard interface\<close>

record ('s, 'r, 'f, 'w) shard_ops =
  sh_of_view :: "('r, 'f) BufferView \<Rightarrow> 'w \<Rightarrow> ('s \<times> 'w) res"
  sh_of_shards :: "'s option list \<Rightarrow> 'w \<Rightarrow> ('s \<times> 'w) res"
  sh_of_file :: "string \<Rightarrow> 'w \<Rightarrow> 's res"
  sh_filename :: "'s \<Rightarrow> string"
  sh_point_lookup :: "'r \<Rightarrow> bool \<Rightarrow> bool \<Rightarrow> 's \<Rightarrow> 'r Wrapped option res"
  sh_mark_found :: "'r \<Rightarrow> 's \<Rightarrow> 's"
  sh_record_count :: "'s \<Rightarrow> nat"
  sh_tombstone_count :: "'s \<Rightarrow> nat"
  sh_memory_usage :: "'s \<Rightarrow> nat"
  sh_aux_memory_usage :: "'s \<Rightarrow> nat"

text \<open>
  \<open>sh_point_lookup S r filter has_buffer s\<close> is the record found, if any; \<open>sh_mark_found S r s\<close> is
  the shard after \<^verbatim>\<open>set_delete\<close> on the record the lookup's pointer refers to.
\<close>

section \<open>Levels\<close>

record 's InternalLevel =
  level_no :: nat
  shard_cnt :: nat
  m_shards :: "'s option list"
  m_pending_shard :: "'s option"

definition InternalLevel_new :: "nat \<Rightarrow> nat \<Rightarrow> 's InternalLevel" where
  "InternalLevel_new no cap =
     \<lparr>level_no = no, shard_cnt = 0, m_shards = replicate cap None, m_pending_shard = None\<rparr>"

lemma InternalLevel_new_simps [simp]:
  "level_no (InternalLevel_new no cap) = no" "shard_cnt (InternalLevel_new no cap) = 0"
  "m_shards (InternalLevel_new no cap) = replicate cap None" "m_pending_shard (InternalLevel_new no cap) = None"
  by (simp_all add: InternalLevel_new_def)

text \<open>A vector access without a range check.\<close>

definition vec_get :: "'a list \<Rightarrow> nat \<Rightarrow> 'a res" where
  "vec_get xs i = (if i < length xs then Inr (xs ! i) else Inl OutOfBounds)"

definition vec_set :: "'a list \<Rightarrow> nat \<Rightarrow> 'a \<Rightarrow> 'a list res" where
  "vec_set xs i x = (if i < length xs then Inr (xs[i := x]) else Inl OutOfBounds)"

lemma vec_get_ok [simp]: "i < length xs \<Longrightarrow> vec_get xs i = Inr (xs ! i)"
  by (simp add: vec_get_def)

lemma vec_set_ok [simp]: "i < length xs \<Longrightarrow> vec_set xs i x = Inr (xs[i := x])"
  by (simp add: vec_set_def)

text \<open>\<^verbatim>\<open>new InternalLevel(no, 1)\<close> with its count set to 1 and a shard put in its slot.\<close>

definition one_shard_level :: "nat \<Rightarrow> 's \<Rightarrow> 's InternalLevel" where
  "one_shard_level no s = (InternalLevel_new no 1)\<lparr>shard_cnt := 1, m_shards := [Some s]\<rparr>"

definition level_reconstruction ::
    "('s, 'r, 'f, 'w) shard_ops \<Rightarrow> 's InternalLevel \<Rightarrow> 's InternalLevel \<Rightarrow> 'w \<Rightarrow> ('s InternalLevel \<times> 'w) res" where
  "level_reconstruction S base_level new_level w =
     assertE (level_no base_level > level_no new_level \<or> (level_no base_level = 0 \<and> level_no new_level = 0))
       (bindE (vec_get (m_shards base_level) 0) (\<lambda>b.
        bindE (vec_get (m_shards new_level) 0) (\<lambda>n.
        bindE (sh_of_shards S [b, n] w) (\<lambda>(s, w').
        Inr (one_shard_level (level_no base_level) s, w')))))"

text \<open>The non-null shards of a level, as \<^verbatim>\<open>if (shard) shards.emplace_back(shard.get())\<close> collects them.\<close>

definition live_shards :: "'s InternalLevel \<Rightarrow> 's option list" where
  "live_shards l = filter (\<lambda>s. s \<noteq> None) (m_shards l)"

definition level_reconstruction_all ::
    "('s, 'r, 'f, 'w) shard_ops \<Rightarrow> 's InternalLevel list \<Rightarrow> nat \<Rightarrow> 'w \<Rightarrow> ('s InternalLevel \<times> 'w) res" where
  "level_reconstruction_all S levels idx w =
     bindE (sh_of_shards S (concat (map live_shards levels)) w) (\<lambda>(s, w').
     Inr (one_shard_level idx s, w'))"

text \<open>Appending to \<open>l\<close> one new shard that combines the shards of \<open>level\<close>.\<close>

definition append_level ::
    "('s, 'r, 'f, 'w) shard_ops \<Rightarrow> 's InternalLevel \<Rightarrow> 's InternalLevel \<Rightarrow> 'w \<Rightarrow> ('s InternalLevel \<times> 'w) res" where
  "append_level S level l w =
     (if shard_cnt level = 0 then Inr (l, w)
      else
        let shards = live_shards level in
        if shard_cnt l = length (m_shards l) then
          bindE (sh_of_shards S shards w) (\<lambda>(s, w'). Inr (l\<lparr>m_pending_shard := Some s\<rparr>, w'))
        else
          bindE (sh_of_shards S shards w) (\<lambda>(tmp, w').
          bindE (vec_set (m_shards l) (shard_cnt l) (Some tmp)) (\<lambda>ss.
          Inr (l\<lparr>m_shards := ss, shard_cnt := Suc (shard_cnt l)\<rparr>, w'))))"

definition append_shard ::
    "('s, 'r, 'f, 'w) shard_ops \<Rightarrow> string \<Rightarrow> 's InternalLevel \<Rightarrow> 'w \<Rightarrow> 's InternalLevel res" where
  "append_shard S filename l w =
     bindE (sh_of_file S filename w) (\<lambda>tmp.
     bindE (vec_set (m_shards l) (shard_cnt l) (Some tmp)) (\<lambda>ss.
     Inr (l\<lparr>m_shards := ss, shard_cnt := Suc (shard_cnt l)\<rparr>)))"

definition append_buffer ::
    "('s, 'r, 'f, 'w) shard_ops \<Rightarrow> ('r, 'f) BufferView \<Rightarrow> 's InternalLevel \<Rightarrow> 'w \<Rightarrow> ('s InternalLevel \<times> 'w) res" where
  "append_buffer S buffer l w =
     (if shard_cnt l = length (m_shards l) then
        assertE (m_pending_shard l = None)
          (bindE (sh_of_view S buffer w) (\<lambda>(s, w'). Inr (l\<lparr>m_pending_shard := Some s\<rparr>, w')))
      else
        bindE (sh_of_view S buffer w) (\<lambda>(s, w').
        bindE (vec_set (m_shards l) (shard_cnt l) (Some s)) (\<lambda>ss.
        Inr (l\<lparr>m_shards := ss, shard_cnt := Suc (shard_cnt l)\<rparr>, w'))))"

definition finalize :: "'s InternalLevel \<Rightarrow> 's InternalLevel res" where
  "finalize l =
     (case m_pending_shard l of
        None \<Rightarrow> Inr l
      | Some p \<Rightarrow>
          bindE (vec_set (replicate (length (m_shards l)) None) 0 (Some p)) (\<lambda>ss.
          Inr (l\<lparr>m_shards := ss, m_pending_shard := None, shard_cnt := 1\<rparr>)))"

definition get_combined_shard ::
    "('s, 'r, 'f, 'w) shard_ops \<Rightarrow> 's InternalLevel \<Rightarrow> 'w \<Rightarrow> ('s option \<times> 'w) res" where
  "get_combined_shard S l w =
     (if shard_cnt l = 0 then Inr (None, w)
      else bindE (sh_of_shards S (live_shards l) w) (\<lambda>(s, w'). Inr (Some s, w')))"

text \<open>
  The loops \<^verbatim>\<open>for (i = 0; i < m_shard_cnt; i++) if (m_shards[i]) ...\<close> visit the non-null slots
  below \<open>shard_cnt\<close>.
\<close>

definition used_slots :: "'s InternalLevel \<Rightarrow> (nat \<times> 's) list" where
  "used_slots l =
     concat (map (\<lambda>i. case m_shards l ! i of None \<Rightarrow> [] | Some s \<Rightarrow> [(i, s)]) [0..<shard_cnt l])"

definition level_local_queries ::
    "('s \<Rightarrow> 'q res) \<Rightarrow> 's InternalLevel \<Rightarrow> ((ShardID \<times> 's) \<times> 'q) list res" where
  "level_local_queries preproc l =
     mapE (\<lambda>(i, s). bindE (preproc s) (\<lambda>q. Inr ((\<lparr>level_idx = int (level_no l), shard_idx = int i\<rparr>, s), q))) (used_slots l)"

text \<open>The loop of \<^verbatim>\<open>check_tombstone\<close>, from the newest shard down to \<open>shard_stop\<close>; \<open>n\<close> is \<open>i + 1\<close>.\<close>

fun check_tombstone_down ::
    "('s, 'r, 'f, 'w) shard_ops \<Rightarrow> 's option list \<Rightarrow> nat \<Rightarrow> 'r \<Rightarrow> bool \<Rightarrow> nat \<Rightarrow> bool res" where
  "check_tombstone_down S shards shard_stop r has_buffer 0 = Inr False"
| "check_tombstone_down S shards shard_stop r has_buffer (Suc i) =
     (if i < shard_stop then Inr False
      else bindE (vec_get shards i) (\<lambda>sl. case sl of
             None \<Rightarrow> check_tombstone_down S shards shard_stop r has_buffer i
           | Some s \<Rightarrow> bindE (sh_point_lookup S r True has_buffer s) (\<lambda>res.
               case res of
                 Some w \<Rightarrow> if is_tombstone w then Inr True
                           else check_tombstone_down S shards shard_stop r has_buffer i
               | None \<Rightarrow> check_tombstone_down S shards shard_stop r has_buffer i)))"

definition level_check_tombstone ::
    "('s, 'r, 'f, 'w) shard_ops \<Rightarrow> nat \<Rightarrow> 'r \<Rightarrow> bool \<Rightarrow> 's InternalLevel \<Rightarrow> bool res" where
  "level_check_tombstone S shard_stop r has_buffer l =
     (if shard_cnt l = 0 then Inr False
      else check_tombstone_down S (m_shards l) shard_stop r has_buffer (shard_cnt l))"

fun delete_in_shards ::
    "('s, 'r, 'f, 'w) shard_ops \<Rightarrow> 'r \<Rightarrow> bool \<Rightarrow> 's option list \<Rightarrow> (bool \<times> 's option list) res" where
  "delete_in_shards S r has_buffer [] = Inr (False, [])"
| "delete_in_shards S r has_buffer (None # ss) =
     bindE (delete_in_shards S r has_buffer ss) (\<lambda>(b, ss'). Inr (b, None # ss'))"
| "delete_in_shards S r has_buffer (Some s # ss) =
     bindE (sh_point_lookup S r False has_buffer s) (\<lambda>res.
       case res of
         Some w \<Rightarrow> Inr (True, Some (sh_mark_found S r s) # ss)
       | None \<Rightarrow> bindE (delete_in_shards S r has_buffer ss) (\<lambda>(b, ss'). Inr (b, Some s # ss')))"

definition level_delete_record ::
    "('s, 'r, 'f, 'w) shard_ops \<Rightarrow> 'r \<Rightarrow> bool \<Rightarrow> 's InternalLevel \<Rightarrow> (bool \<times> 's InternalLevel) res" where
  "level_delete_record S r has_buffer l =
     (if shard_cnt l = 0 then Inr (False, l)
      else bindE (delete_in_shards S r has_buffer (m_shards l)) (\<lambda>(b, ss). Inr (b, l\<lparr>m_shards := ss\<rparr>)))"

definition get_shard :: "'s InternalLevel \<Rightarrow> nat \<Rightarrow> 's option" where
  "get_shard l idx = (if idx \<ge> shard_cnt l then None else m_shards l ! idx)"

definition level_record_count :: "('s, 'r, 'f, 'w) shard_ops \<Rightarrow> 's InternalLevel \<Rightarrow> nat" where
  "level_record_count S l = sum_list (map (\<lambda>(i, s). sh_record_count S s) (used_slots l))"

definition level_tombstone_count :: "('s, 'r, 'f, 'w) shard_ops \<Rightarrow> 's InternalLevel \<Rightarrow> nat" where
  "level_tombstone_count S l = sum_list (map (\<lambda>(i, s). sh_tombstone_count S s) (used_slots l))"

definition level_memory_usage :: "('s, 'r, 'f, 'w) shard_ops \<Rightarrow> 's InternalLevel \<Rightarrow> nat" where
  "level_memory_usage S l = sum_list (map (\<lambda>(i, s). sh_memory_usage S s) (used_slots l))"

definition level_aux_memory_usage :: "('s, 'r, 'f, 'w) shard_ops \<Rightarrow> 's InternalLevel \<Rightarrow> nat" where
  "level_aux_memory_usage S l = sum_list (map (\<lambda>(i, s). sh_aux_memory_usage S s) (used_slots l))"

text \<open>\<open>None\<close> stands for the quotient \<open>0 / 0\<close> of an empty level, which is not a number.\<close>

definition level_tombstone_prop :: "('s, 'r, 'f, 'w) shard_ops \<Rightarrow> 's InternalLevel \<Rightarrow> rat option" where
  "level_tombstone_prop S l =
     (let tscnt = level_tombstone_count S l; reccnt = level_record_count S l in
      if tscnt + reccnt = 0 then None else Some (of_nat tscnt / of_nat (tscnt + reccnt)))"

definition level_clone :: "'s InternalLevel \<Rightarrow> 's InternalLevel" where
  "level_clone l =
     (InternalLevel_new (level_no l) (length (m_shards l)))
       \<lparr>m_shards := take (shard_cnt l) (m_shards l) @ replicate (length (m_shards l) - shard_cnt l) None,
        shard_cnt := shard_cnt l\<rparr>"

section \<open>What clients of a shard rely on\<close>

text \<open>The entries a delete policy admits: no tombstones when tagging, no delete tags otherwise.\<close>

fun flags_ok :: "DeletePolicy \<Rightarrow> 'r Wrapped \<Rightarrow> bool" where
  "flags_ok TAGGING w \<longleftrightarrow> \<not> is_tombstone w"
| "flags_ok TOMBSTONE w \<longleftrightarrow> \<not> is_deleted w"

lemma flags_ok_policy: "\<forall>w\<in>set ws. flags_ok D w \<Longrightarrow> policy_ok ws"
  by (cases D) (auto simp: policy_ok_def)

text \<open>
  A shard built from the entries \<open>src\<close> holds the same net number of each record, no more
  entries, and entries of the same policy.
\<close>

definition built_from :: "'r Wrapped list \<Rightarrow> 'r Wrapped list \<Rightarrow> bool" where
  "built_from src out \<longleftrightarrow> net out = net src \<and> length out \<le> length src \<and>
     (\<forall>D. (\<forall>w\<in>set src. flags_ok D w) \<longrightarrow> (\<forall>w\<in>set out. flags_ok D w))"

lemma built_from_flags: "built_from src out \<Longrightarrow> \<forall>w\<in>set src. flags_ok D w \<Longrightarrow> w \<in> set out \<Longrightarrow> flags_ok D w"
  by (auto simp: built_from_def)

text \<open>
  Plain entries carry neither flag. Nothing can cancel among them, so what is built from some of
  them is not empty.
\<close>

definition plain :: "'r Wrapped \<Rightarrow> bool" where
  "plain w \<longleftrightarrow> \<not> is_tombstone w \<and> \<not> is_deleted w"

lemma plain_flags: "plain w \<longleftrightarrow> flags_ok TAGGING w \<and> flags_ok TOMBSTONE w"
  by (auto simp: plain_def)

lemma net_plain: "\<forall>w\<in>set ws. plain w \<Longrightarrow> net ws r = int (count_list (map rec ws) r)"
  by (induction ws) (auto simp: net_simps plain_def wt_def)

lemma net_plain_nonzero: "\<forall>w\<in>set ws. plain w \<Longrightarrow> ws \<noteq> [] \<Longrightarrow> \<exists>r. net ws r \<noteq> 0"
  by (cases ws) (auto intro!: exI [of _ "rec (hd ws)"] simp: net_plain)

lemma built_from_plain:
  assumes "built_from src out" and "\<forall>w\<in>set src. plain w"
  shows "\<forall>w\<in>set out. plain w" and "src \<noteq> [] \<Longrightarrow> out \<noteq> []"
proof -
  have "\<forall>w\<in>set src. flags_ok D w" for D using assms(2) by (cases D) (simp_all add: plain_def)
  then show "\<forall>w\<in>set out. plain w"
    using built_from_flags [OF assms(1), of TAGGING] built_from_flags [OF assms(1), of TOMBSTONE] unfolding plain_flags by blast
  show "out \<noteq> []" if "src \<noteq> []"
    using net_plain_nonzero [OF assms(2) that] assms(1) unfolding built_from_def by (metis net_Nil)
qed

text \<open>
  The interface. \<open>adm\<close> is the kind of entry the client works with: those of one delete policy,
  or plain ones.
\<close>

locale shard =
  fixes S :: "('s, 'r::linorder, 'f, 'w) shard_ops"
    and data :: "'s \<Rightarrow> 'r Wrapped list"
    and sinv :: "'s \<Rightarrow> bool"
    and winv :: "'w \<Rightarrow> bool"
    and adm :: "'r Wrapped \<Rightarrow> bool"
  assumes shard_count: "sinv s \<Longrightarrow> sh_record_count S s = length (data s)"
    and of_view_ok: "winv w \<Longrightarrow> view_wf v \<Longrightarrow> view_list v \<noteq> [] \<Longrightarrow> \<forall>x\<in>set (view_list v). adm x \<Longrightarrow>
      \<exists>s w'. sh_of_view S v w = Inr (s, w') \<and> winv w' \<and> sinv s \<and> built_from (view_list v) (data s)"
    and of_shards_ok: "winv w \<Longrightarrow> ss \<noteq> [] \<Longrightarrow> \<forall>s\<in>set ss. sinv s \<and> data s \<noteq> [] \<Longrightarrow>
      \<forall>x\<in>set (concat (map data ss)). adm x \<Longrightarrow>
      \<exists>s w'. sh_of_shards S (map Some ss) w = Inr (s, w') \<and> winv w' \<and> sinv s \<and>
        built_from (concat (map data ss)) (data s)"
    and built_adm: "built_from src out \<Longrightarrow> \<forall>x\<in>set src. adm x \<Longrightarrow> x \<in> set out \<Longrightarrow> adm x"

section \<open>Levels as lists of shards\<close>

definition level_shards :: "'s InternalLevel \<Rightarrow> 's list" where
  "level_shards l = map the (live_shards l)"

text \<open>A level at rest: the used slots come first, and there is no pending shard.\<close>

definition level_wf :: "'s InternalLevel \<Rightarrow> bool" where
  "level_wf l \<longleftrightarrow>
     m_shards l = map Some (level_shards l) @ replicate (length (m_shards l) - shard_cnt l) None \<and>
     shard_cnt l = length (level_shards l) \<and> m_pending_shard l = None"

lemma level_wfI:
  assumes "m_shards l = map Some ss @ replicate k None" and "shard_cnt l = length ss"
    and "m_pending_shard l = None"
  shows "level_wf l" and "level_shards l = ss"
proof -
  have "level_shards l = ss" using assms(1) by (simp add: level_shards_def live_shards_def comp_def)
  then show "level_shards l = ss" "level_wf l" using assms by (simp_all add: level_wf_def)
qed

lemma level_wfD:
  assumes "level_wf l"
  shows "m_shards l = map Some (level_shards l) @ replicate (length (m_shards l) - shard_cnt l) None"
    "shard_cnt l = length (level_shards l)" "m_pending_shard l = None"
    "length (level_shards l) \<le> length (m_shards l)" "live_shards l = map Some (level_shards l)"
proof -
  show *: "m_shards l = map Some (level_shards l) @ replicate (length (m_shards l) - shard_cnt l) None"
    "shard_cnt l = length (level_shards l)" "m_pending_shard l = None"
    using assms unfolding level_wf_def by blast+
  show "length (level_shards l) \<le> length (m_shards l)" using arg_cong [OF *(1), of length] by simp
  show "live_shards l = map Some (level_shards l)"
    by (simp add: live_shards_def) (subst *(1), simp add: comp_def)
qed

lemma new_level_wf [simp]: "level_wf (InternalLevel_new no cap)" "level_shards (InternalLevel_new no cap) = []"
  using level_wfI [of "InternalLevel_new no cap" "[]" cap] by (simp_all add: InternalLevel_new_def)

lemma one_shard_level_wf [simp]:
  "level_wf (one_shard_level no s)" "level_shards (one_shard_level no s) = [s]"
  "shard_cnt (one_shard_level no s) = 1" "m_shards (one_shard_level no s) = [Some s]"
  "level_no (one_shard_level no s) = no"
  using level_wfI [of "one_shard_level no s" "[s]" 0]
  by (simp_all add: one_shard_level_def InternalLevel_new_def)

lemma level_wf_snoc:
  assumes "level_wf l" and "shard_cnt l < length (m_shards l)"
  shows "level_wf (l\<lparr>m_shards := (m_shards l)[shard_cnt l := Some s], shard_cnt := Suc (shard_cnt l)\<rparr>)" (is "level_wf ?l")
    and "level_shards (l\<lparr>m_shards := (m_shards l)[shard_cnt l := Some s], shard_cnt := Suc (shard_cnt l)\<rparr>) = level_shards l @ [s]"
proof -
  note wf = level_wfD [OF assms(1)]
  have "(m_shards l)[shard_cnt l := Some s] =
      map Some (level_shards l @ [s]) @ replicate (length (m_shards l) - shard_cnt l - 1) None"
    using assms(2) wf(2) by (subst wf(1)) (cases "length (m_shards l) - shard_cnt l", auto simp: list_update_append)
  from level_wfI [of ?l "level_shards l @ [s]", OF _ ] this wf(2,3)
  show "level_wf ?l" "level_shards ?l = level_shards l @ [s]" by simp_all
qed

lemma used_slots_wf: "level_wf l \<Longrightarrow> used_slots l = zip [0..<length (level_shards l)] (level_shards l)"
proof -
  assume "level_wf l"
  note wf = level_wfD [OF this]
  have "m_shards l ! i = Some (level_shards l ! i)" if "i < length (level_shards l)" for i
    using that by (subst wf(1)) (simp add: nth_append)
  then have "used_slots l = concat (map (\<lambda>i. [(i, level_shards l ! i)]) [0..<length (level_shards l)])"
    unfolding used_slots_def wf(2) by (intro arg_cong [of _ _ concat] map_cong) simp_all
  also have "\<dots> = zip [0..<length (level_shards l)] (level_shards l)"
    unfolding concat_map_singleton by (rule nth_equalityI) simp_all
  finally show ?thesis .
qed

lemma map_used_slots: "level_wf l \<Longrightarrow> map (\<lambda>(i, s). g s) (used_slots l) = map g (level_shards l)"
  unfolding used_slots_wf by (rule nth_equalityI) simp_all

lemma level_counts_wf:
  assumes "level_wf l"
  shows "level_record_count S l = sum_list (map (sh_record_count S) (level_shards l))"
    and "level_tombstone_count S l = sum_list (map (sh_tombstone_count S) (level_shards l))"
  by (simp_all only: level_record_count_def level_tombstone_count_def map_used_slots [OF assms])

lemma new_level_count [simp]: "level_record_count S (InternalLevel_new no cap) = 0"
  using level_counts_wf(1) [OF new_level_wf(1)] by simp

lemma level_clone_wf: "level_wf l \<Longrightarrow> level_clone l = l"
proof -
  assume "level_wf l"
  note wf = level_wfD [OF this]
  have "take (shard_cnt l) (m_shards l) @ replicate (length (m_shards l) - shard_cnt l) None = m_shards l"
  proof -
    have "take (shard_cnt l) (m_shards l) = map Some (level_shards l)" by (subst wf(1)) (simp add: wf(2))
    then show ?thesis using wf(1) by simp
  qed
  then show ?thesis using wf(3) by (cases l) (simp add: level_clone_def InternalLevel_new_def)
qed

definition level_data :: "('s \<Rightarrow> 'a list) \<Rightarrow> 's InternalLevel \<Rightarrow> 'a list" where
  "level_data data l = concat (map data (level_shards l))"

definition level_ok :: "('s \<Rightarrow> bool) \<Rightarrow> 's InternalLevel \<Rightarrow> bool" where
  "level_ok sinv l \<longleftrightarrow> level_wf l \<and> (\<forall>s\<in>set (level_shards l). sinv s)"

text \<open>No shard of the level is empty.\<close>

definition level_live :: "('s \<Rightarrow> 'a list) \<Rightarrow> 's InternalLevel \<Rightarrow> bool" where
  "level_live data l \<longleftrightarrow> (\<forall>s\<in>set (level_shards l). data s \<noteq> [])"

lemma level_ok_new [simp]:
  "level_ok sinv (InternalLevel_new no cap)" "level_data data (InternalLevel_new no cap) = []"
  "level_live data (InternalLevel_new no cap)"
  by (simp_all add: level_ok_def level_data_def level_live_def)

lemma level_data_Nil_iff: "level_live data l \<Longrightarrow> level_data data l = [] \<longleftrightarrow> level_shards l = []"
  by (auto simp: level_data_def level_live_def)

section \<open>Operations of a level, for any shard type that satisfies the interface\<close>

context shard
begin

lemma built_all_adm: "built_from src out \<Longrightarrow> \<forall>x\<in>set src. adm x \<Longrightarrow> \<forall>x\<in>set out. adm x"
  using built_adm by blast

lemma level_count:
  assumes "level_ok sinv l"
  shows "level_record_count S l = length (level_data data l)"
proof -
  have "map (sh_record_count S) (level_shards l) = map (length \<circ> data) (level_shards l)"
    using assms by (intro map_cong) (auto simp: level_ok_def shard_count)
  then have "sum_list (map (sh_record_count S) (level_shards l)) = sum_list (map (length \<circ> data) (level_shards l))"
    by (rule arg_cong)
  then show ?thesis
    using assms by (simp add: level_ok_def level_counts_wf level_data_def length_concat)
qed

lemma level_live_count:
  assumes "level_ok sinv l" and "level_live data l"
  shows "level_record_count S l = 0 \<longleftrightarrow> level_shards l = []"
  using assms by (auto simp: level_count level_data_def level_live_def)

text \<open>Merging all shards of some levels into a new one-shard level.\<close>

lemma merge_levels_ok:
  assumes "winv w" and "\<forall>l\<in>set ls. level_ok sinv l \<and> level_live data l" and "concat (map level_shards ls) \<noteq> []"
    and "\<forall>x\<in>set (concat (map (level_data data) ls)). adm x"
  shows "\<exists>s w'. sh_of_shards S (concat (map live_shards ls)) w = Inr (s, w') \<and> winv w' \<and> sinv s \<and>
    built_from (concat (map (level_data data) ls)) (data s)"
proof -
  let ?ss = "concat (map level_shards ls)"
  have "map live_shards ls = map (\<lambda>l. map Some (level_shards l)) ls"
    using assms(2) level_wfD(5) by (intro map_cong) (auto simp: level_ok_def)
  then have "concat (map live_shards ls) = map Some ?ss"
    by (simp only: map_concat map_map comp_def)
  moreover have "concat (map (level_data data) ls) = concat (map data ?ss)"
    by (induction ls) (auto simp: level_data_def)
  moreover have "\<forall>s\<in>set ?ss. sinv s \<and> data s \<noteq> []"
    using assms(2) by (auto simp: level_ok_def level_live_def)
  ultimately show ?thesis
    using of_shards_ok [OF assms(1,3)] assms(4) by simp
qed

lemma level_reconstruction_all_ok:
  assumes "winv w" and "\<forall>l\<in>set ls. level_ok sinv l \<and> level_live data l" and "concat (map level_shards ls) \<noteq> []"
    and "\<forall>x\<in>set (concat (map (level_data data) ls)). adm x"
  shows "\<exists>l' w'. level_reconstruction_all S ls idx w = Inr (l', w') \<and> winv w' \<and> level_ok sinv l' \<and>
    length (m_shards l') = 1 \<and> shard_cnt l' = 1 \<and> level_no l' = idx \<and> built_from (concat (map (level_data data) ls)) (level_data data l')"
  using merge_levels_ok [OF assms]
  by (auto simp: level_reconstruction_all_def level_ok_def level_data_def)

lemma level_reconstruction_ok:
  assumes "winv w" and "level_ok sinv base" and "level_ok sinv new" and "level_live data base" and "level_live data new"
    and "length (level_shards base) = 1" and "length (level_shards new) = 1"
    and "level_no base > level_no new \<or> level_no base = 0 \<and> level_no new = 0"
    and "\<forall>x\<in>set (level_data data base @ level_data data new). adm x"
  shows "\<exists>l' w'. level_reconstruction S base new w = Inr (l', w') \<and> winv w' \<and> level_ok sinv l' \<and>
    length (m_shards l') = 1 \<and> shard_cnt l' = 1 \<and> level_no l' = level_no base \<and>
    built_from (level_data data base @ level_data data new) (level_data data l')"
proof -
  obtain b n where bn: "level_shards base = [b]" "level_shards new = [n]"
    using assms(6,7) by (auto simp: length_Suc_conv)
  have "vec_get (m_shards l) 0 = Inr (Some s)" if "level_ok sinv l" "level_shards l = [s]" for l s
  proof -
    have "m_shards l = Some s # replicate (length (m_shards l) - shard_cnt l) None"
      using level_wfD(1) [of l] that by (simp add: level_ok_def)
    then show ?thesis unfolding vec_get_def by (metis length_greater_0_conv list.distinct(1) nth_Cons_0)
  qed
  from this [OF assms(2) bn(1)] this [OF assms(3) bn(2)]
  have get: "vec_get (m_shards base) 0 = Inr (Some b)" "vec_get (m_shards new) 0 = Inr (Some n)" .
  have "\<forall>s\<in>set [b, n]. sinv s \<and> data s \<noteq> []"
    using assms(2-5) bn by (auto simp: level_ok_def level_live_def)
  moreover have "\<forall>x\<in>set (concat (map data [b, n])). adm x"
    using assms(9) bn by (simp add: level_data_def)
  ultimately have "\<exists>s w'. sh_of_shards S [Some b, Some n] w = Inr (s, w') \<and> winv w' \<and> sinv s \<and>
      built_from (data b @ data n) (data s)"
    using of_shards_ok [OF assms(1), of "[b, n]"] by simp
  then obtain s w' where "sh_of_shards S [Some b, Some n] w = Inr (s, w')" "winv w'" "sinv s"
      "built_from (data b @ data n) (data s)" by blast
  moreover from this(1) have "level_reconstruction S base new w = Inr (one_shard_level (level_no base) s, w')"
    unfolding level_reconstruction_def get bindE_simps assertE_def using assms(8) by auto
  ultimately show ?thesis by (auto simp: level_ok_def level_data_def bn)
qed

lemma append_level_ok:
  assumes "winv w" and "level_ok sinv src" and "level_live data src" and "level_shards src \<noteq> []" and "level_ok sinv l"
    and "shard_cnt l < length (m_shards l)" and "\<forall>x\<in>set (level_data data src). adm x"
  shows "\<exists>l' w' s. append_level S src l w = Inr (l', w') \<and> finalize l' = Inr l' \<and> winv w' \<and> level_ok sinv l' \<and>
    length (m_shards l') = length (m_shards l) \<and> level_no l' = level_no l \<and>
    level_shards l' = level_shards l @ [s] \<and> built_from (level_data data src) (data s)"
proof -
  obtain s w' where s: "sh_of_shards S (live_shards src) w = Inr (s, w')" "winv w'" "sinv s"
      "built_from (level_data data src) (data s)"
    using merge_levels_ok [OF assms(1), of "[src]"] assms(2-4,7) by auto
  let ?l = "l\<lparr>m_shards := (m_shards l)[shard_cnt l := Some s], shard_cnt := Suc (shard_cnt l)\<rparr>"
  have "shard_cnt src \<noteq> 0" using assms(2,4) level_wfD(2) [of src] by (simp add: level_ok_def)
  then have "append_level S src l w = Inr (?l, w')"
    using s(1) assms(6) by (simp add: append_level_def)
  moreover have "level_wf ?l" "level_shards ?l = level_shards l @ [s]"
    using level_wf_snoc assms(5,6) by (auto simp: level_ok_def)
  moreover have "finalize ?l = Inr ?l"
    using level_wfD(3) [OF \<open>level_wf ?l\<close>] by (simp add: finalize_def)
  ultimately show ?thesis using s assms(5) by (auto simp: level_ok_def)
qed

lemma append_buffer_ok:
  assumes "winv w" and "view_wf v" and "view_list v \<noteq> []" and "level_ok sinv l"
    and "shard_cnt l < length (m_shards l)" and "\<forall>x\<in>set (view_list v). adm x"
  shows "\<exists>l' w' s. append_buffer S v l w = Inr (l', w') \<and> winv w' \<and> level_ok sinv l' \<and>
    length (m_shards l') = length (m_shards l) \<and> level_no l' = level_no l \<and>
    level_shards l' = level_shards l @ [s] \<and> built_from (view_list v) (data s)"
proof -
  obtain s w' where s: "sh_of_view S v w = Inr (s, w')" "winv w'" "sinv s" "built_from (view_list v) (data s)"
    using of_view_ok [OF assms(1-3,6)] by auto
  let ?l = "l\<lparr>m_shards := (m_shards l)[shard_cnt l := Some s], shard_cnt := Suc (shard_cnt l)\<rparr>"
  have "append_buffer S v l w = Inr (?l, w')"
    using s(1) assms(5) by (simp add: append_buffer_def)
  moreover have "level_wf ?l" "level_shards ?l = level_shards l @ [s]"
    using level_wf_snoc assms(4,5) by (auto simp: level_ok_def)
  ultimately show ?thesis using s assms(4) by (auto simp: level_ok_def)
qed

end

end
