(* ===== verification/DE_Checkpoint.thy ===== *)
theory DE_Checkpoint
  imports DE_Level "HOL-Library.List_Lexorder" "HOL-Library.Char_ord"
begin

text \<open>
  Checkpoints (\<^verbatim>\<open>include/framework/structure/Checkpoint.h\<close>): the names of the shard files of every
  level and the number of the last flush, as a JSON object in \<^verbatim>\<open>checkpoint.json\<close>. The library
  \<^verbatim>\<open>nlohmann::json\<close> is not part of the sources: printing and parsing are a parameter, of which the
  round trip is assumed by name; its object type is an ordered map (\<^verbatim>\<open>std::map\<close>), modelled as a
  key-sorted association list. The file is replaced by a rename, so it is either the old or the
  new one; system calls succeed.
\<close>

section \<open>The disk\<close>

text \<open>\<open>'p\<close> is the contents of a shard file.\<close>

record 'p disk =
  shard_dir :: "string \<Rightarrow> 'p option"
  tmp_dir :: "string \<Rightarrow> 'p option"
  ckpt_file :: "string option"
  uuid_cnt :: nat

section \<open>Numbers and JSON objects\<close>

text \<open>\<^verbatim>\<open>std::to_string\<close> and \<^verbatim>\<open>std::stoi\<close> (on keys without sign or leading blanks).\<close>

definition digit_char :: "nat \<Rightarrow> char" where
  "digit_char d = char_of (48 + d)"

fun to_string :: "nat \<Rightarrow> string" where
  "to_string n = (if n < 10 then [digit_char n] else to_string (n div 10) @ [digit_char (n mod 10)])"

declare to_string.simps [simp del]

definition is_digit :: "char \<Rightarrow> bool" where
  "is_digit c \<longleftrightarrow> 48 \<le> (of_char c :: nat) \<and> (of_char c :: nat) \<le> 57"

definition stoi :: "string \<Rightarrow> nat res" where
  "stoi s =
     (let ds = takeWhile is_digit s in
      if ds = [] then Inl SysError
      else Inr (foldl (\<lambda>a c. 10 * a + (of_char c - 48)) 0 ds))"

datatype json_val = JNum nat | JArr "string list"

type_synonym json = "(string \<times> json_val) list"

text \<open>\<^verbatim>\<open>j[k] = v\<close>\<close>

fun json_set :: "string \<Rightarrow> json_val \<Rightarrow> json \<Rightarrow> json" where
  "json_set k v [] = [(k, v)]"
| "json_set k v ((k', v') # j) =
     (if k < k' then (k, v) # (k', v') # j
      else if k = k' then (k, v) # j
      else (k', v') # json_set k v j)"

text \<open>The library's printer and parser.\<close>

record json_ops =
  json_dump :: "json \<Rightarrow> string"
  json_parse :: "string \<Rightarrow> json res"

definition json_ok :: "json_ops \<Rightarrow> bool" where
  "json_ok J \<longleftrightarrow> (\<forall>j. sorted_wrt (<) (map fst j) \<longrightarrow> json_parse J (json_dump J j) = Inr j)"

section \<open>Saving\<close>

text \<open>The file names of a level's shards, \<^verbatim>\<open>levels[i]->get_shard(k)->get_filename()\<close> for each \<open>k\<close>.\<close>

definition shard_names :: "('s, 'r, 'f, 'w) shard_ops \<Rightarrow> 's InternalLevel option \<Rightarrow> string list res" where
  "shard_names S lv =
     bindE (deref lv) (\<lambda>l.
     mapE (\<lambda>k. bindE (deref (get_shard l k)) (\<lambda>s. Inr (sh_filename S s))) [0..<shard_cnt l])"

fun save_levels :: "('s, 'r, 'f, 'w) shard_ops \<Rightarrow> 's InternalLevel option list \<Rightarrow> nat \<Rightarrow> json \<Rightarrow> json res" where
  "save_levels S [] i j = Inr j"
| "save_levels S (lv # levels) i j =
     bindE (shard_names S lv) (\<lambda>ns. save_levels S levels (Suc i) (json_set (to_string i) (JArr ns) j))"

definition save_checkpoint ::
    "('s, 'r, 'f, 'p disk) shard_ops \<Rightarrow> json_ops \<Rightarrow> 's InternalLevel option list \<Rightarrow> nat \<Rightarrow> 'p disk \<Rightarrow> 'p disk res" where
  "save_checkpoint S J levels flush_seq d =
     bindE (save_levels S levels 0 (json_set ''flush_seq'' (JNum flush_seq) [])) (\<lambda>j.
     Inr (d\<lparr>ckpt_file := Some (json_dump J j)\<rparr>))"

section \<open>Loading\<close>

fun append_shards ::
    "('s, 'r, 'f, 'w) shard_ops \<Rightarrow> string list \<Rightarrow> 's InternalLevel \<Rightarrow> 'w \<Rightarrow> 's InternalLevel res" where
  "append_shards S [] l w = Inr l"
| "append_shards S (n # ns) l w = bindE (append_shard S n l w) (\<lambda>l'. append_shards S ns l' w)"

text \<open>\<^verbatim>\<open>while (levels.size() <= level) levels.emplace_back(nullptr)\<close>\<close>

definition extend_to :: "nat \<Rightarrow> 'a option list \<Rightarrow> 'a option list" where
  "extend_to level levels = levels @ replicate (Suc level - length levels) None"

fun load_items ::
    "('s, 'r, 'f, 'w) shard_ops \<Rightarrow> json \<Rightarrow> 'w \<Rightarrow> 's InternalLevel option list \<Rightarrow> 's InternalLevel option list res" where
  "load_items S [] w levels = Inr levels"
| "load_items S ((idx, v) # j) w levels =
     (if idx = ''flush_seq'' then load_items S j w levels
      else (case v of
              JNum _ \<Rightarrow> Inl SysError
            | JArr names \<Rightarrow>
                bindE (stoi idx) (\<lambda>level.
                bindE (append_shards S names (InternalLevel_new level (length names)) w) (\<lambda>l.
                load_items S j w ((extend_to level levels)[level := Some l])))))"

definition json_flush_seq :: "json \<Rightarrow> nat res" where
  "json_flush_seq j =
     (case map_of j ''flush_seq'' of
        None \<Rightarrow> Inr 0 | Some (JNum n) \<Rightarrow> Inr n | Some (JArr _) \<Rightarrow> Inl SysError)"

definition listed_names :: "json \<Rightarrow> string list" where
  "listed_names j =
     concat (map (\<lambda>(k, v). if k = ''flush_seq'' then [] else (case v of JArr ns \<Rightarrow> ns | JNum _ \<Rightarrow> [])) j)"

text \<open>
  \<^verbatim>\<open>load_checkpoint\<close> on empty levels. Afterwards the shard directory holds only the listed files,
  and the directory of temporary files is emptied.
\<close>

definition load_checkpoint ::
    "('s, 'r, 'f, 'p disk) shard_ops \<Rightarrow> json_ops \<Rightarrow> nat \<Rightarrow> 'p disk \<Rightarrow>
     ('s InternalLevel option list \<times> nat \<times> 'p disk) res" where
  "load_checkpoint S J flush_seq d =
     (case ckpt_file d of
        None \<Rightarrow> Inr ([], flush_seq, d)
      | Some content \<Rightarrow>
          bindE (json_parse J content) (\<lambda>j.
          bindE (json_flush_seq j) (\<lambda>seq.
          bindE (load_items S j d []) (\<lambda>levels.
          Inr (levels, seq,
               d\<lparr>shard_dir := (\<lambda>n. if n \<in> set (listed_names j) then shard_dir d n else None),
                 tmp_dir := (\<lambda>n. None)\<rparr>)))))"

end
