(* ===== verification/DE_Structure.thy ===== *)
theory DE_Structure
  imports DE_Checkpoint
begin

text \<open>
  The extension structure (\<^verbatim>\<open>include/framework/structure/ExtensionStructure.h\<close>): the levels, a
  vector that records their sizes, the planning of reconstructions on a scratch copy of that
  vector, and the reconstructions and flushes themselves, under the three layout policies.
  Levels are held by value; the source shares them between epochs, but replaces a level of the
  new epoch instead of changing it (tagged deletes apart).
\<close>

section \<open>The state\<close>

record level_state =
  reccnt :: nat
  reccap :: nat
  shardcnt :: nat
  shardcap :: nat

type_synonym state_vector = "level_state list"

record 's ExtensionStructure =
  m_scale_factor :: nat
  m_max_delete_prop :: rat
  m_buffer_size :: nat
  m_refcnt :: nat
  m_flush_seq :: nat
  m_levels :: "'s InternalLevel option list"
  m_current_state :: state_vector

text \<open>
  \<^verbatim>\<open>m_buffer_size * pow(m_scale_factor, idx + 1)\<close>. The source computes in \<^verbatim>\<open>double\<close>, which is exact for
  capacities up to \<open>2 ^ 53\<close>.
\<close>

definition calc_level_record_capacity :: "'s ExtensionStructure \<Rightarrow> nat \<Rightarrow> nat" where
  "calc_level_record_capacity st idx = m_buffer_size st * m_scale_factor st ^ (idx + 1)"

definition shard_capacity :: "LayoutPolicy \<Rightarrow> 's ExtensionStructure \<Rightarrow> nat" where
  "shard_capacity L st = (if L = LEVELING then 1 else m_scale_factor st)"

definition empty_structure :: "nat \<Rightarrow> nat \<Rightarrow> rat \<Rightarrow> 's ExtensionStructure" where
  "empty_structure buffer_size scale_factor max_delete_prop =
     \<lparr>m_scale_factor = scale_factor, m_max_delete_prop = max_delete_prop, m_buffer_size = buffer_size,
      m_refcnt = 0, m_flush_seq = 0, m_levels = [], m_current_state = []\<rparr>"

text \<open>The state entry the constructor computes for a loaded level.\<close>

definition loaded_state ::
    "('s, 'r, 'f, 'w) shard_ops \<Rightarrow> LayoutPolicy \<Rightarrow> 's ExtensionStructure \<Rightarrow> nat \<Rightarrow> level_state" where
  "loaded_state S L st i =
     (let lv = m_levels st ! i in
      \<lparr>reccnt = (case lv of Some l \<Rightarrow> level_record_count S l | None \<Rightarrow> 0),
       reccap = calc_level_record_capacity st i,
       shardcnt = (case lv of Some l \<Rightarrow> shard_cnt l | None \<Rightarrow> 0),
       shardcap = shard_capacity L st\<rparr>)"

definition ExtensionStructure_new ::
    "('s, 'r, 'f, 'p disk) shard_ops \<Rightarrow> json_ops \<Rightarrow> LayoutPolicy \<Rightarrow> nat \<Rightarrow> nat \<Rightarrow> rat \<Rightarrow> bool \<Rightarrow> 'p disk \<Rightarrow>
     ('s ExtensionStructure \<times> 'p disk) res" where
  "ExtensionStructure_new S J L buffer_size scale_factor max_delete_prop skip_checkpoint d =
     (let st = empty_structure buffer_size scale_factor max_delete_prop in
      if skip_checkpoint then Inr (st, d)
      else
        bindE (load_checkpoint S J 0 d) (\<lambda>(levels, seq, d').
        let st1 = st\<lparr>m_levels := levels, m_flush_seq := seq\<rparr> in
        Inr (st1\<lparr>m_current_state := map (loaded_state S L st1) [0..<length levels]\<rparr>, d')))"

definition copy :: "'s ExtensionStructure \<Rightarrow> 's ExtensionStructure res" where
  "copy st =
     bindE (mapE (\<lambda>lv. bindE (deref lv) (\<lambda>l. Inr (Some (level_clone l)))) (m_levels st)) (\<lambda>levels.
     Inr ((empty_structure (m_buffer_size st) (m_scale_factor st) (m_max_delete_prop st))
       \<lparr>m_levels := levels, m_flush_seq := m_flush_seq st, m_refcnt := 0,
        m_current_state := m_current_state st\<rparr>))"

text \<open>A level of the vector, dereferenced.\<close>

definition level_at :: "'s ExtensionStructure \<Rightarrow> nat \<Rightarrow> 's InternalLevel res" where
  "level_at st i = bindE (vec_get (m_levels st) i) deref"

section \<open>Deletes and counts\<close>

fun tagged_delete_levels ::
    "('s, 'r, 'f, 'w) shard_ops \<Rightarrow> 'r \<Rightarrow> bool \<Rightarrow> 's InternalLevel option list \<Rightarrow>
     (bool \<times> 's InternalLevel option list) res" where
  "tagged_delete_levels S r has_buffer [] = Inr (False, [])"
| "tagged_delete_levels S r has_buffer (None # ls) =
     bindE (tagged_delete_levels S r has_buffer ls) (\<lambda>(b, ls'). Inr (b, None # ls'))"
| "tagged_delete_levels S r has_buffer (Some l # ls) =
     bindE (level_delete_record S r has_buffer l) (\<lambda>(b, l').
     if b then Inr (True, Some l' # ls)
     else bindE (tagged_delete_levels S r has_buffer ls) (\<lambda>(b', ls'). Inr (b', Some l' # ls')))"

definition tagged_delete ::
    "('s, 'r, 'f, 'w) shard_ops \<Rightarrow> 'r \<Rightarrow> bool \<Rightarrow> 's ExtensionStructure \<Rightarrow> (nat \<times> 's ExtensionStructure) res" where
  "tagged_delete S r has_buffer st =
     bindE (tagged_delete_levels S r has_buffer (m_levels st)) (\<lambda>(b, ls).
     Inr (if b then 1 else 0, st\<lparr>m_levels := ls\<rparr>))"

text \<open>The loops \<^verbatim>\<open>for i: if (m_levels[i]) cnt += ...\<close>\<close>

definition sum_levels :: "('s InternalLevel \<Rightarrow> nat) \<Rightarrow> 's ExtensionStructure \<Rightarrow> nat" where
  "sum_levels f st = sum_list (map (\<lambda>lv. case lv of None \<Rightarrow> 0 | Some l \<Rightarrow> f l) (m_levels st))"

definition struct_record_count :: "('s, 'r, 'f, 'w) shard_ops \<Rightarrow> 's ExtensionStructure \<Rightarrow> nat" where
  "struct_record_count S st = sum_levels (level_record_count S) st"

definition struct_tombstone_count :: "('s, 'r, 'f, 'w) shard_ops \<Rightarrow> 's ExtensionStructure \<Rightarrow> nat" where
  "struct_tombstone_count S st = sum_levels (level_tombstone_count S) st"

definition get_height :: "'s ExtensionStructure \<Rightarrow> nat" where
  "get_height st = length (m_levels st)"

definition struct_memory_usage :: "('s, 'r, 'f, 'w) shard_ops \<Rightarrow> 's ExtensionStructure \<Rightarrow> nat" where
  "struct_memory_usage S st = sum_levels (level_memory_usage S) st"

definition struct_aux_memory_usage :: "('s, 'r, 'f, 'w) shard_ops \<Rightarrow> 's ExtensionStructure \<Rightarrow> nat" where
  "struct_aux_memory_usage S st = sum_levels (level_aux_memory_usage S) st"

definition level_ts_prop :: "('s, 'r, 'f, 'w) shard_ops \<Rightarrow> 's ExtensionStructure \<Rightarrow> 's InternalLevel \<Rightarrow> nat \<Rightarrow> rat" where
  "level_ts_prop S st l i =
     of_nat (level_tombstone_count S l) / of_nat (calc_level_record_capacity st i)"

definition validate_tombstone_proportion :: "('s, 'r, 'f, 'w) shard_ops \<Rightarrow> 's ExtensionStructure \<Rightarrow> bool" where
  "validate_tombstone_proportion S st \<longleftrightarrow>
     list_all (\<lambda>i. case m_levels st ! i of
                None \<Rightarrow> True | Some l \<Rightarrow> \<not> level_ts_prop S st l i > m_max_delete_prop st)
       [0..<length (m_levels st)]"

definition validate_level_tombstone_proportion ::
    "('s, 'r, 'f, 'w) shard_ops \<Rightarrow> 's ExtensionStructure \<Rightarrow> nat \<Rightarrow> bool res" where
  "validate_level_tombstone_proportion S st i =
     bindE (level_at st i) (\<lambda>l. Inr (level_ts_prop S st l i \<le> m_max_delete_prop st))"

section \<open>Planning\<close>

definition can_reconstruct_with :: "LayoutPolicy \<Rightarrow> nat \<Rightarrow> nat \<Rightarrow> state_vector \<Rightarrow> bool" where
  "can_reconstruct_with L idx incoming_rec_cnt state =
     (if idx \<ge> length state then False
      else (case L of
              LEVELING \<Rightarrow> reccnt (state ! idx) + incoming_rec_cnt \<le> reccap (state ! idx)
            | BSM \<Rightarrow> reccnt (state ! idx) = 0
            | TEIRING \<Rightarrow> shardcnt (state ! idx) < shardcap (state ! idx)))"

definition grow :: "LayoutPolicy \<Rightarrow> 's ExtensionStructure \<Rightarrow> state_vector \<Rightarrow> nat \<times> state_vector" where
  "grow L st scratch =
     (let new_idx = length (m_levels st) in
      (new_idx, scratch @ [\<lparr>reccnt = 0, reccap = calc_level_record_capacity st new_idx, shardcnt = 0,
                            shardcap = shard_capacity L st\<rparr>]))"

text \<open>
  The search for a level below \<open>idx\<close> that can take a reconstruction. The record count it checks
  against is that of level \<open>idx\<close> throughout. \<open>None\<close> stands for the result -1.
\<close>

fun find_target_from :: "LayoutPolicy \<Rightarrow> nat \<Rightarrow> state_vector \<Rightarrow> nat list \<Rightarrow> nat option" where
  "find_target_from L incoming state [] = None"
| "find_target_from L incoming state (i # is) =
     (if can_reconstruct_with L i incoming state then Some i else find_target_from L incoming state is)"

definition find_reconstruction_target :: "LayoutPolicy \<Rightarrow> nat \<Rightarrow> state_vector \<Rightarrow> nat option res" where
  "find_reconstruction_target L idx state =
     (if idx = 0 \<and> length state = 0 then Inr None
      else bindE (vec_get state idx) (\<lambda>e.
        Inr (find_target_from L (reccnt e) state [idx + 1..<length state])))"

text \<open>One step of the loop that plans \<open>i - 1 \<rightarrow> i\<close> under leveling and tiering.\<close>

definition plan_step ::
    "LayoutPolicy \<Rightarrow> nat \<Rightarrow> ReconstructionVector \<times> state_vector \<Rightarrow> ReconstructionVector \<times> state_vector" where
  "plan_step L i = (\<lambda>(recons, state).
     let base_reccnt = reccnt (state ! (i - 1));
         recon_reccnt = (if L = LEVELING \<and> can_reconstruct_with L i base_reccnt state
                         then base_reccnt + reccnt (state ! i) else base_reccnt);
         recons' = add_reconstruction (int (i - 1)) (int i) recon_reccnt recons;
         state1 = state[i - 1 := (state ! (i - 1))\<lparr>reccnt := 0, shardcnt := 0\<rparr>];
         e = state1 ! i;
         state2 = state1[i := e\<lparr>reccnt := reccnt e + base_reccnt,
                                shardcnt := (if L = TEIRING \<or> shardcnt e = 0 then shardcnt e + 1 else shardcnt e)\<rparr>]
     in (recons', state2))"

text \<open>One step of the loop under BSM: level \<open>i - 1\<close> becomes a source of the task.\<close>

definition bsm_step ::
    "nat \<Rightarrow> ReconstructionTask \<times> nat \<times> state_vector \<Rightarrow> ReconstructionTask \<times> nat \<times> state_vector" where
  "bsm_step i = (\<lambda>(task, base_reccnt, state).
     let recon_reccnt = reccnt (state ! (i - 1)) in
     (add_source (int (i - 1)) recon_reccnt task, base_reccnt + recon_reccnt,
      state[i - 1 := (state ! (i - 1))\<lparr>reccnt := 0, shardcnt := 0\<rparr>]))"

text \<open>
  \<open>junk\<close> is the indeterminate initial value of the task's record count, which the source does not
  set under BSM.
\<close>

definition get_reconstruction_tasks_from_level ::
    "LayoutPolicy \<Rightarrow> nat \<Rightarrow> 's ExtensionStructure \<Rightarrow> nat \<Rightarrow> state_vector \<Rightarrow> (ReconstructionVector \<times> state_vector) res" where
  "get_reconstruction_tasks_from_level L junk st source_level scratch =
     bindE (find_reconstruction_target L source_level scratch) (\<lambda>found.
     let (base_level, state) = (case found of Some b \<Rightarrow> (b, scratch) | None \<Rightarrow> grow L st scratch);
         levels_down = rev [source_level + 1..<base_level + 1] in
     if L = BSM \<and> base_level = 0 then Inr (ReconstructionVector_new, state)
     else if base_level \<ge> length state then Inl OutOfBounds
     else if L = BSM then
       (let task0 = \<lparr>sources = [], target = int base_level, task_reccnt = junk\<rparr>;
            (task, base_reccnt, state') = fold bsm_step levels_down (task0, 0, state)
        in Inr (add_reconstruction_task task ReconstructionVector_new,
                state'[base_level := (state' ! base_level)\<lparr>reccnt := base_reccnt, shardcnt := 1\<rparr>]))
     else Inr (fold (plan_step L) levels_down (ReconstructionVector_new, state)))"

text \<open>
  \<^verbatim>\<open>get_reconstruction_tasks\<close> with the default, empty scratch state; its loop runs once
  (\<^verbatim>\<open>LOOKAHEAD\<close> is 1), so the branch for later iterations is never taken. The simulated flush at
  the end changes only the scratch copy, which is dropped.
\<close>

definition get_reconstruction_tasks ::
    "LayoutPolicy \<Rightarrow> nat \<Rightarrow> 's ExtensionStructure \<Rightarrow> nat \<Rightarrow> (ReconstructionVector \<times> state_vector) res" where
  "get_reconstruction_tasks L junk st buffer_reccnt =
     (let scratch = m_current_state st in
      bindE (if \<not> can_reconstruct_with L 0 buffer_reccnt scratch
             then get_reconstruction_tasks_from_level L junk st 0 scratch
             else Inr (ReconstructionVector_new, scratch)) (\<lambda>(recons, state).
      bindE (vec_get state 0) (\<lambda>e.
      Inr (recons,
           state[0 := e\<lparr>reccnt := reccnt e + buffer_reccnt,
                         shardcnt := (if L = TEIRING \<or> shardcnt e = 0 then shardcnt e + 1 else shardcnt e)\<rparr>]))))"

text \<open>The plan of compactions; the source of every task is \<^verbatim>\<open>i - i\<close>, as in the code.\<close>

fun first_violation :: "('s, 'r, 'f, 'w) shard_ops \<Rightarrow> 's ExtensionStructure \<Rightarrow> nat list \<Rightarrow> nat option res" where
  "first_violation S st [] = Inr None"
| "first_violation S st (i # is) =
     bindE (validate_level_tombstone_proportion S st i) (\<lambda>ok.
     if \<not> ok then Inr (Some i) else first_violation S st is)"

fun compaction_loop ::
    "('s, 'r, 'f, 'w) shard_ops \<Rightarrow> LayoutPolicy \<Rightarrow> 's ExtensionStructure \<Rightarrow> state_vector \<Rightarrow> nat list \<Rightarrow>
     ReconstructionVector \<Rightarrow> ReconstructionVector res" where
  "compaction_loop S L st scratch [] tasks = Inr tasks"
| "compaction_loop S L st scratch (i # is) tasks =
     bindE (level_at st (i - 1)) (\<lambda>prev.
     bindE (if L = LEVELING \<and> can_reconstruct_with L i (level_record_count S prev) scratch
            then bindE (level_at st i) (\<lambda>l. Inr (level_record_count S prev + level_record_count S l))
            else Inr (level_record_count S prev)) (\<lambda>n.
     compaction_loop S L st scratch is (add_reconstruction (int i - int i) (int i) n tasks)))"

definition get_compaction_tasks ::
    "('s, 'r, 'f, 'w) shard_ops \<Rightarrow> LayoutPolicy \<Rightarrow> 's ExtensionStructure \<Rightarrow> ReconstructionVector res" where
  "get_compaction_tasks S L st =
     (if validate_tombstone_proportion S st then Inr ReconstructionVector_new
      else
        bindE (first_violation S st [0..<length (m_levels st)]) (\<lambda>v.
        case v of
          None \<Rightarrow> Inl AssertFail
        | Some violation_idx \<Rightarrow>
            bindE (find_reconstruction_target L violation_idx (m_current_state st)) (\<lambda>found.
            let (base_level, scratch) =
                  (case found of Some b \<Rightarrow> (b, m_current_state st) | None \<Rightarrow> grow L st (m_current_state st))
            in compaction_loop S L st scratch (rev [1..<base_level + 1]) ReconstructionVector_new)))"

section \<open>Reconstructions and flushes\<close>

definition actual_state ::
    "('s, 'r, 'f, 'w) shard_ops \<Rightarrow> LayoutPolicy \<Rightarrow> 's ExtensionStructure \<Rightarrow> nat \<Rightarrow> 's InternalLevel \<Rightarrow> level_state" where
  "actual_state S L st i l =
     \<lparr>reccnt = level_record_count S l, reccap = calc_level_record_capacity st i,
      shardcnt = shard_cnt l, shardcap = shard_capacity L st\<rparr>"

definition empty_state :: "'s ExtensionStructure \<Rightarrow> nat \<Rightarrow> nat \<Rightarrow> level_state" where
  "empty_state st i cap = \<lparr>reccnt = 0, reccap = calc_level_record_capacity st i, shardcnt = 0, shardcap = cap\<rparr>"

text \<open>
  Reconstruction under leveling and tiering: \<open>incoming_level\<close> is merged or appended into
  \<open>base_level\<close> and replaced by an empty level.
\<close>

definition reconstruction ::
    "('s, 'r, 'f, 'p disk) shard_ops \<Rightarrow> json_ops \<Rightarrow> LayoutPolicy \<Rightarrow> nat \<Rightarrow> nat \<Rightarrow> 's ExtensionStructure \<Rightarrow> 'p disk \<Rightarrow>
     ('s ExtensionStructure \<times> 'p disk) res" where
  "reconstruction S J L base_level incoming_level st d =
     (let cap = shard_capacity L st;
          st1 = (if base_level \<ge> length (m_levels st)
                 then st\<lparr>m_levels := m_levels st @ [Some (InternalLevel_new base_level cap)],
                         m_current_state := m_current_state st @ [empty_state st base_level cap]\<rparr>
                 else st) in
      bindE (level_at st1 base_level) (\<lambda>base.
      bindE (level_at st1 incoming_level) (\<lambda>incoming.
      bindE (if L = LEVELING
             then (if shard_cnt base > 0 then level_reconstruction S base incoming d else Inr (incoming, d))
             else bindE (append_level S incoming base d) (\<lambda>(l, d'). bindE (finalize l) (\<lambda>l'. Inr (l', d')))) (\<lambda>(l, d1).
      bindE (vec_set (m_levels st1) base_level (Some l)) (\<lambda>ls1.
      bindE (vec_set ls1 incoming_level (Some (InternalLevel_new incoming_level cap))) (\<lambda>ls2.
      bindE (vec_set (m_current_state st1) base_level (actual_state S L st base_level l)) (\<lambda>cs1.
      bindE (vec_set cs1 incoming_level (empty_state st incoming_level cap)) (\<lambda>cs2.
      bindE (save_checkpoint S J ls2 (m_flush_seq st) d1) (\<lambda>d2.
      Inr (st1\<lparr>m_levels := ls2, m_current_state := cs2\<rparr>, d2))))))))))"

text \<open>
  Reconstruction under BSM: all sources are merged into one new shard at the target. The state
  entries of the emptied levels get the capacity of the target level, as in the code.
\<close>

fun clear_sources ::
    "'s ExtensionStructure \<Rightarrow> nat \<Rightarrow> nat list \<Rightarrow> 's InternalLevel option list \<times> state_vector \<Rightarrow>
     ('s InternalLevel option list \<times> state_vector) res" where
  "clear_sources st tgt [] (ls, cs) = Inr (ls, cs)"
| "clear_sources st tgt (i # is) (ls, cs) =
     bindE (vec_set ls i (Some (InternalLevel_new i 1))) (\<lambda>ls'.
     bindE (vec_set cs i (empty_state st tgt 1)) (\<lambda>cs'.
     clear_sources st tgt is (ls', cs')))"

definition reconstruction_bsm ::
    "('s, 'r, 'f, 'p disk) shard_ops \<Rightarrow> json_ops \<Rightarrow> ReconstructionTask \<Rightarrow> 's ExtensionStructure \<Rightarrow> 'p disk \<Rightarrow>
     ('s ExtensionStructure \<times> 'p disk) res" where
  "reconstruction_bsm S J task st d =
     (let tgt = nat (target task); srcs = map nat (sources task) in
      bindE (mapE (level_at st) srcs) (\<lambda>levels.
      bindE (level_reconstruction_all S levels tgt d) (\<lambda>(new_level, d1).
      let e = \<lparr>reccnt = level_record_count S new_level, reccap = calc_level_record_capacity st tgt,
               shardcnt = 1, shardcap = 1\<rparr>;
          (ls, cs) = (if tgt \<ge> length (m_levels st)
                      then (m_levels st @ [Some new_level], m_current_state st @ [e])
                      else ((m_levels st)[tgt := Some new_level], (m_current_state st)[tgt := e])) in
      bindE (clear_sources st tgt srcs (ls, cs)) (\<lambda>(ls', cs').
      bindE (save_checkpoint S J ls' (m_flush_seq st) d1) (\<lambda>d2.
      Inr (st\<lparr>m_levels := ls', m_current_state := cs'\<rparr>, d2))))))"

definition flush_buffer_into_l0 ::
    "('s, 'r, 'f, 'w) shard_ops \<Rightarrow> LayoutPolicy \<Rightarrow> ('r, 'f) BufferView \<Rightarrow> 's ExtensionStructure \<Rightarrow> 'w \<Rightarrow>
     ('s ExtensionStructure \<times> 'w) res" where
  "flush_buffer_into_l0 S L buffer st d =
     (let cap = shard_capacity L st;
          st1 = (if m_levels st = []
                 then st\<lparr>m_levels := [Some (InternalLevel_new 0 cap)],
                         m_current_state := m_current_state st @ [empty_state st 0 cap]\<rparr>
                 else st) in
      bindE (level_at st1 0) (\<lambda>old_level.
      bindE (if L = LEVELING
             then bindE (append_buffer S buffer (InternalLevel_new 0 1) d) (\<lambda>(temp_level, d1).
                  if shard_cnt old_level > 0 then level_reconstruction S old_level temp_level d1
                  else Inr (temp_level, d1))
             else append_buffer S buffer old_level d) (\<lambda>(l, d2).
      bindE (vec_get (m_current_state st1) 0) (\<lambda>e.
      Inr (st1\<lparr>m_levels := (m_levels st1)[0 := Some l],
               m_current_state := (m_current_state st1)[0 := e\<lparr>reccnt := level_record_count S l, shardcnt := shard_cnt l\<rparr>]\<rparr>,
           d2)))))"

definition flush_buffer ::
    "('s, 'r, 'f, 'p disk) shard_ops \<Rightarrow> json_ops \<Rightarrow> LayoutPolicy \<Rightarrow> ('r, 'f) BufferView \<Rightarrow> 's ExtensionStructure \<Rightarrow>
     'p disk \<Rightarrow> ('s ExtensionStructure \<times> 'p disk) res" where
  "flush_buffer S J L buffer st d =
     (let tmp = (if m_current_state st = [] then snd (grow L st []) else m_current_state st) in
      assertE (can_reconstruct_with L 0 (view_record_count buffer) tmp)
        (bindE (flush_buffer_into_l0 S L buffer st d) (\<lambda>(st1, d1).
         let st2 = st1\<lparr>m_flush_seq := m_flush_seq st1 + 1\<rparr> in
         bindE (save_checkpoint S J (m_levels st2) (m_flush_seq st2) d1) (\<lambda>d2. Inr (st2, d2)))))"

section \<open>References and queries\<close>

definition take_reference :: "'s ExtensionStructure \<Rightarrow> 's ExtensionStructure" where
  "take_reference st = st\<lparr>m_refcnt := sz_add (m_refcnt st) 1\<rparr>"

definition release_reference :: "'s ExtensionStructure \<Rightarrow> 's ExtensionStructure res" where
  "release_reference st = assertE (m_refcnt st > 0) (Inr (st\<lparr>m_refcnt := m_refcnt st - 1\<rparr>))"

definition struct_local_queries ::
    "('s \<Rightarrow> 'q res) \<Rightarrow> 's ExtensionStructure \<Rightarrow> ((ShardID \<times> 's) \<times> 'q) list res" where
  "struct_local_queries preproc st =
     bindE (mapE (\<lambda>lv. bindE (deref lv) (level_local_queries preproc)) (m_levels st)) (\<lambda>qs.
     Inr (concat qs))"

text \<open>
  The plan carried out, as the reconstruction job of \<^verbatim>\<open>DynamicExtension\<close> does it: under BSM the
  first task only, otherwise the tasks in order, each from its first source.
\<close>

fun run_merges ::
    "('s, 'r, 'f, 'p disk) shard_ops \<Rightarrow> json_ops \<Rightarrow> LayoutPolicy \<Rightarrow> ReconstructionTask list \<Rightarrow> 's ExtensionStructure \<Rightarrow>
     'p disk \<Rightarrow> ('s ExtensionStructure \<times> 'p disk) res" where
  "run_merges S J L [] st d = Inr (st, d)"
| "run_merges S J L (t # ts) st d =
     bindE (vec_get (sources t) 0) (\<lambda>src.
     bindE (reconstruction S J L (nat (target t)) (nat src) st d) (\<lambda>(st', d').
     run_merges S J L ts st' d'))"

definition perform_merges ::
    "('s, 'r, 'f, 'p disk) shard_ops \<Rightarrow> json_ops \<Rightarrow> LayoutPolicy \<Rightarrow> ReconstructionVector \<Rightarrow> 's ExtensionStructure \<Rightarrow>
     'p disk \<Rightarrow> ('s ExtensionStructure \<times> 'p disk) res" where
  "perform_merges S J L merges st d =
     (if L = BSM
      then (case m_tasks merges of [] \<Rightarrow> Inr (st, d) | t # _ \<Rightarrow> reconstruction_bsm S J t st d)
      else run_merges S J L (m_tasks merges) st d)"

end
