(* ===== verification/DE_Rebuild.thy ===== *)
theory DE_Rebuild
  imports DE_Structure
begin

text \<open>
  What planning, reconstructing and flushing keep, for any shard type that satisfies the
  interface of \<open>DE_Level\<close>: the structure's invariant \<open>struct_ok\<close>, and the net number of every record.
  The lemmas culminate in \<open>plan_and_merge_ok\<close> (the plan made for a flush can be carried out and
  makes room in level 0) and \<open>flush_buffer_ok\<close> (the flush itself), for all three layout policies.
\<close>

section \<open>The plan\<close>

text \<open>What a task makes the reconstruction job do.\<close>

definition moves :: "ReconstructionTask list \<Rightarrow> (level_index list \<times> level_index) list" where
  "moves ts = map (\<lambda>t. (sources t, target t)) ts"

definition down_moves :: "nat \<Rightarrow> (level_index list \<times> level_index) list" where
  "down_moves b = map (\<lambda>i. ([int (i - 1)], int i)) (rev [1..<Suc b])"

lemma down_moves_simps [simp]:
  "down_moves 0 = []" "down_moves (Suc b) = ([int b], int (Suc b)) # down_moves b"
  by (simp_all add: down_moves_def)

lemma moves_plan:
  "moves (m_tasks (fst (fold (plan_step L) is (v, s)))) =
     moves (m_tasks v) @ map (\<lambda>i. ([int (i - 1)], int i)) is"
proof (induction "is" arbitrary: v s)
  case (Cons i "is")
  obtain v' s' where eq: "plan_step L i (v, s) = (v', s')" by fastforce
  then have "moves (m_tasks v') = moves (m_tasks v) @ [([int (i - 1)], int i)]"
    by (auto simp: plan_step_def Let_def add_reconstruction_def moves_def)
  then show ?case using Cons eq by simp
qed (simp add: moves_def)

lemma find_target_SomeD:
  assumes "find_target_from L n state is = Some b"
  shows "\<exists>pre post. is = pre @ b # post \<and> can_reconstruct_with L b n state \<and>
    (\<forall>i\<in>set pre. \<not> can_reconstruct_with L i n state)"
  using assms
proof (induction L n state "is" rule: find_target_from.induct)
  case (2 L incoming state i "is")
  show ?case
  proof (cases "can_reconstruct_with L i incoming state")
    case True
    then show ?thesis using "2.prems" by (intro exI [of _ "[]"] exI [of _ "is"]) simp
  next
    case False
    then obtain pre post where "is = pre @ b # post" "can_reconstruct_with L b incoming state"
        "\<forall>i\<in>set pre. \<not> can_reconstruct_with L i incoming state" using 2 by auto
    then show ?thesis using False by (intro exI [of _ "i # pre"] exI [of _ post]) simp
  qed
qed simp

lemma find_target_NoneD:
  "find_target_from L n state is = None \<Longrightarrow> \<forall>i\<in>set is. \<not> can_reconstruct_with L i n state"
  by (induction L n state "is" rule: find_target_from.induct) (auto split: if_splits)

lemma upt_split_before:
  assumes "[a..<c] = pre @ b # post"
  shows "a \<le> b \<and> b < c \<and> set pre = {a..<b}"
proof -
  have k: "length pre < c - a" using arg_cong [OF assms, of length] by simp
  have "b = a + length pre" using arg_cong [OF assms, of "\<lambda>xs. xs ! length pre"] k by simp
  moreover have "pre = take (length pre) [a..<c]" using assms by simp
  ultimately have "pre = [a..<b]" using k by simp
  then have "set pre = {a..<b}" by (metis set_upt)
  with \<open>b = a + length pre\<close> k show ?thesis by simp
qed

text \<open>
  The level the planner chooses: the first one below \<open>source\<close> that can take the source's
  records, or a new one at the bottom; in between, no level can.
\<close>

lemma find_target_spec:
  assumes "source < length state"
  obtains (found) b where "find_reconstruction_target L source state = Inr (Some b)"
      "source < b" "b < length state" "can_reconstruct_with L b (reccnt (state ! source)) state"
      "\<forall>i. source < i \<and> i < b \<longrightarrow> \<not> can_reconstruct_with L i (reccnt (state ! source)) state"
  | (grown) "find_reconstruction_target L source state = Inr None"
      "\<forall>i. source < i \<and> i < length state \<longrightarrow> \<not> can_reconstruct_with L i (reccnt (state ! source)) state"
proof (cases "find_target_from L (reccnt (state ! source)) state [source + 1..<length state]")
  case None
  then show ?thesis
    using grown find_target_NoneD [OF None] assms by (auto simp: find_reconstruction_target_def)
next
  case (Some b)
  obtain pre post where pre: "[source + 1..<length state] = pre @ b # post"
      "can_reconstruct_with L b (reccnt (state ! source)) state"
      "\<forall>i\<in>set pre. \<not> can_reconstruct_with L i (reccnt (state ! source)) state"
    using find_target_SomeD [OF Some] by auto
  have "find_reconstruction_target L source state = Inr (Some b)"
    using Some assms by (auto simp: find_reconstruction_target_def)
  then show ?thesis using found [of b] pre(2,3) upt_split_before [OF pre(1)] by auto
qed

text \<open>The plan for a flush when level 0 has no room, under leveling and tiering.\<close>

lemma plan_no_room:
  assumes "L \<noteq> BSM" and "length (m_current_state st) = length (m_levels st)" and "m_levels st \<noteq> []"
    and "\<not> can_reconstruct_with L 0 n (m_current_state st)"
  obtains b v state where "get_reconstruction_tasks L junk st n = Inr (v, state)" "moves (m_tasks v) = down_moves b"
    "0 < b" "b \<le> length (m_levels st)"
    "b < length (m_levels st) \<Longrightarrow> can_reconstruct_with L b (reccnt (m_current_state st ! 0)) (m_current_state st)"
    "\<forall>i. 0 < i \<and> i < b \<longrightarrow> \<not> can_reconstruct_with L i (reccnt (m_current_state st ! 0)) (m_current_state st)"
proof -
  have len: "0 < length (m_current_state st)" using assms(2,3) by simp
  have lenf: "length (snd (fold (plan_step L) is (v, s))) = length s" for "is" v s
    by (induction "is" arbitrary: v s) (auto simp: plan_step_def Let_def split: prod.splits)
  have result: "\<exists>v s. get_reconstruction_tasks L junk st n = Inr (v, s) \<and> moves (m_tasks v) = down_moves b"
    if f: "find_reconstruction_target L 0 (m_current_state st) = Inr f"
      "(case f of Some b \<Rightarrow> (b, m_current_state st) | None \<Rightarrow> grow L st (m_current_state st)) = (b, state)"
      "b < length state" for f b state
  proof -
    let ?f = "fold (plan_step L) (rev [0 + 1..<b + 1]) (ReconstructionVector_new, state)"
    obtain v s where vs: "?f = (v, s)" by fastforce
    have "moves (m_tasks v) = down_moves b"
      using moves_plan [of L "rev [0 + 1..<b + 1]" ReconstructionVector_new state, unfolded vs]
      by (simp add: down_moves_def ReconstructionVector_new_def moves_def)
    moreover have "get_reconstruction_tasks_from_level L junk st 0 (m_current_state st) = Inr ?f"
      unfolding get_reconstruction_tasks_from_level_def f(1) bindE_simps Let_def f(2) prod.case
      using assms(1) f(3) by simp
    moreover have "0 < length s" using lenf [of "rev [0 + 1..<b + 1]" ReconstructionVector_new state, unfolded vs] f(3) by auto
    ultimately show ?thesis using assms(4) vs by (simp add: get_reconstruction_tasks_def)
  qed
  from len show thesis
  proof (cases rule: find_target_spec [of 0 "m_current_state st" L])
    case (found b)
    with result [of "Some b" b "m_current_state st"] obtain v s where
      "get_reconstruction_tasks L junk st n = Inr (v, s)" "moves (m_tasks v) = down_moves b" by auto
    then show thesis using found assms(2) by (intro that [of v s b]) auto
  next
    case grown
    obtain b state where g: "grow L st (m_current_state st) = (b, state)" by fastforce
    then have "b = length (m_levels st)" "b < length state" using assms(2) by (auto simp: grow_def Let_def)
    with result [of None b state] g grown obtain v s where
      "get_reconstruction_tasks L junk st n = Inr (v, s)" "moves (m_tasks v) = down_moves b" by auto
    then show thesis using grown assms(2,3) \<open>b = length (m_levels st)\<close> by (intro that [of v s b]) auto
  qed
qed

section \<open>The structure as a list of levels\<close>

definition st_levels :: "'s ExtensionStructure \<Rightarrow> 's InternalLevel list" where
  "st_levels st = map the (m_levels st)"

definition struct_data :: "('s \<Rightarrow> 'a list) \<Rightarrow> 's ExtensionStructure \<Rightarrow> 'a list" where
  "struct_data data st = concat (map (level_data data) (st_levels st))"

definition struct_live :: "('s \<Rightarrow> 'a list) \<Rightarrow> 's ExtensionStructure \<Rightarrow> bool" where
  "struct_live data st \<longleftrightarrow> (\<forall>l\<in>set (st_levels st). level_live data l)"

text \<open>The entry of the state vector agrees with the level it describes.\<close>

definition entry_ok ::
    "('s, 'r, 'f, 'w) shard_ops \<Rightarrow> LayoutPolicy \<Rightarrow> 's ExtensionStructure \<Rightarrow> nat \<Rightarrow> 's InternalLevel \<Rightarrow> level_state \<Rightarrow> bool" where
  "entry_ok S L st i l e \<longleftrightarrow>
     (if L = BSM then reccnt e = level_record_count S l \<and> m_shards l \<noteq> []
      else e = actual_state S L st i l \<and> length (m_shards l) = shard_capacity L st)"

text \<open>
  Level numbers under leveling: a level that was moved down keeps its old number, but numbers
  never decrease downwards, and equal ones are 0.
\<close>

definition nos_ok :: "'s InternalLevel list \<Rightarrow> bool" where
  "nos_ok ls \<longleftrightarrow> (\<forall>j<length ls. \<forall>i<j. level_shards (ls ! i) \<noteq> [] \<longrightarrow> level_shards (ls ! j) \<noteq> [] \<longrightarrow>
     level_no (ls ! i) < level_no (ls ! j) \<or> level_no (ls ! i) = 0 \<and> level_no (ls ! j) = 0)"

definition struct_base ::
    "('s, 'r, 'f, 'w) shard_ops \<Rightarrow> ('s \<Rightarrow> 'r Wrapped list) \<Rightarrow> ('s \<Rightarrow> bool) \<Rightarrow> LayoutPolicy \<Rightarrow> ('r Wrapped \<Rightarrow> bool) \<Rightarrow>
     's ExtensionStructure \<Rightarrow> bool" where
  "struct_base S data sinv L adm st \<longleftrightarrow>
     m_levels st = map Some (st_levels st) \<and> length (m_current_state st) = length (st_levels st) \<and>
     0 < m_buffer_size st \<and> 0 < m_scale_factor st \<and>
     (\<forall>i<length (st_levels st). level_ok sinv (st_levels st ! i) \<and>
        entry_ok S L st i (st_levels st ! i) (m_current_state st ! i) \<and>
        (\<forall>w\<in>set (level_data data (st_levels st ! i)). adm w))"

definition struct_ok ::
    "('s, 'r, 'f, 'w) shard_ops \<Rightarrow> ('s \<Rightarrow> 'r Wrapped list) \<Rightarrow> ('s \<Rightarrow> bool) \<Rightarrow> LayoutPolicy \<Rightarrow> ('r Wrapped \<Rightarrow> bool) \<Rightarrow>
     's ExtensionStructure \<Rightarrow> bool" where
  "struct_ok S data sinv L adm st \<longleftrightarrow> struct_base S data sinv L adm st \<and>
     (L = LEVELING \<longrightarrow> nos_ok (st_levels st) \<and>
        (st_levels st \<noteq> [] \<longrightarrow> level_record_count S (st_levels st ! 0) \<le> calc_level_record_capacity st 0))"

lemma struct_baseD:
  assumes "struct_base S data sinv L adm st"
  shows "m_levels st = map Some (st_levels st)" "length (m_current_state st) = length (st_levels st)"
    "0 < m_buffer_size st" "0 < m_scale_factor st"
    "\<And>i. i < length (st_levels st) \<Longrightarrow> level_ok sinv (st_levels st ! i)"
    "\<And>i. i < length (st_levels st) \<Longrightarrow> entry_ok S L st i (st_levels st ! i) (m_current_state st ! i)"
    "\<And>i w. i < length (st_levels st) \<Longrightarrow> w \<in> set (level_data data (st_levels st ! i)) \<Longrightarrow> adm w"
  using assms unfolding struct_base_def by blast+

lemma struct_okD:
  assumes "struct_ok S data sinv L adm st"
  shows "struct_base S data sinv L adm st" "L = LEVELING \<Longrightarrow> nos_ok (st_levels st)"
    "L = LEVELING \<Longrightarrow> st_levels st \<noteq> [] \<Longrightarrow> level_record_count S (st_levels st ! 0) \<le> calc_level_record_capacity st 0"
  using assms unfolding struct_ok_def by blast+

lemma st_levels_simps [simp]:
  "st_levels (st\<lparr>m_levels := map Some ls\<rparr>) = ls"
  "st_levels (st\<lparr>m_current_state := cs\<rparr>) = st_levels st"
  "st_levels (st\<lparr>m_flush_seq := n\<rparr>) = st_levels st"
  by (simp_all add: st_levels_def comp_def)

lemma level_at_ok:
  assumes "m_levels st = map Some ls" and "i < length ls"
  shows "level_at st i = Inr (ls ! i)"
  using assms by (simp add: level_at_def)

lemma capacity_frame [simp]:
  "calc_level_record_capacity (st\<lparr>m_levels := ls\<rparr>) i = calc_level_record_capacity st i"
  "calc_level_record_capacity (st\<lparr>m_current_state := cs\<rparr>) i = calc_level_record_capacity st i"
  "calc_level_record_capacity (st\<lparr>m_flush_seq := n\<rparr>) i = calc_level_record_capacity st i"
  "shard_capacity L (st\<lparr>m_levels := ls\<rparr>) = shard_capacity L st"
  "shard_capacity L (st\<lparr>m_current_state := cs\<rparr>) = shard_capacity L st"
  "shard_capacity L (st\<lparr>m_flush_seq := n\<rparr>) = shard_capacity L st"
  by (simp_all add: calc_level_record_capacity_def shard_capacity_def)

lemma entry_ok_frame [simp]:
  "entry_ok S L (st\<lparr>m_levels := ls\<rparr>) i l e = entry_ok S L st i l e"
  "entry_ok S L (st\<lparr>m_current_state := cs\<rparr>) i l e = entry_ok S L st i l e"
  "entry_ok S L (st\<lparr>m_flush_seq := n\<rparr>) i l e = entry_ok S L st i l e"
  by (simp_all add: entry_ok_def actual_state_def)

text \<open>Net multiplicities of a structure, level by level.\<close>

lemma net_struct: "net (struct_data data st) r = (\<Sum>l\<leftarrow>st_levels st. net (level_data data l) r)"
  by (simp add: struct_data_def net_concat comp_def)

lemma set_struct_data_iff:
  "(\<forall>w\<in>set (struct_data data st). P w) \<longleftrightarrow> (\<forall>i<length (st_levels st). \<forall>w\<in>set (level_data data (st_levels st ! i)). P w)"
  unfolding struct_data_def set_concat set_map by (simp add: all_set_conv_all_nth)

text \<open>Replacing one level together with its entry.\<close>

lemma struct_base_update:
  assumes "struct_base S data sinv L adm st" and "i < length (st_levels st)" and "level_ok sinv l"
    and "entry_ok S L st i l e" and "\<forall>w\<in>set (level_data data l). adm w"
    and "st' = st\<lparr>m_levels := map Some ((st_levels st)[i := l]), m_current_state := (m_current_state st)[i := e]\<rparr>"
  shows "struct_base S data sinv L adm st'" and "st_levels st' = (st_levels st)[i := l]"
    and "net (struct_data data st') r = net (struct_data data st) r - net (level_data data (st_levels st ! i)) r + net (level_data data l) r"
proof -
  note b = struct_baseD [OF assms(1)]
  show lv: "st_levels st' = (st_levels st)[i := l]" by (simp add: assms(6) st_levels_def comp_def)
  have cs: "m_current_state st' = (m_current_state st)[i := e]" by (simp add: assms(6))
  have fr: "entry_ok S L st' = entry_ok S L st" by (intro ext) (simp add: assms(6))
  show "struct_base S data sinv L adm st'"
    unfolding struct_base_def lv cs fr
  proof (intro conjI allI impI)
    fix j assume j: "j < length ((st_levels st)[i := l])"
    then show "level_ok sinv ((st_levels st)[i := l] ! j)" using b(5) assms(3) by (cases "j = i") simp_all
    show "entry_ok S L st j ((st_levels st)[i := l] ! j) ((m_current_state st)[i := e] ! j)"
      using b(2,6) assms(4) j by (cases "j = i") simp_all
    show "\<forall>w\<in>set (level_data data ((st_levels st)[i := l] ! j)). adm w"
      using b(7) assms(5) j by (cases "j = i") auto
  qed (use b in \<open>simp_all add: assms(6)\<close>)
  show "net (struct_data data st') r = net (struct_data data st) r - net (level_data data (st_levels st ! i)) r + net (level_data data l) r"
    unfolding net_struct lv by (rule sum_list_update_int [OF assms(2)])
qed

text \<open>Adding an empty level at the bottom.\<close>

lemma struct_ok_grow:
  assumes "struct_ok S data sinv L adm st" and "n = length (st_levels st)"
    and "st' = st\<lparr>m_levels := map Some (st_levels st @ [InternalLevel_new n (shard_capacity L st)]),
            m_current_state := m_current_state st @ [empty_state st n (shard_capacity L st)]\<rparr>"
  shows "struct_ok S data sinv L adm st'"
    and "st_levels st' = st_levels st @ [InternalLevel_new n (shard_capacity L st)]"
    and "struct_data data st' = struct_data data st"
proof -
  note b = struct_baseD [OF struct_okD(1) [OF assms(1)]]
  show lv: "st_levels st' = st_levels st @ [InternalLevel_new n (shard_capacity L st)]"
    by (simp add: assms(3) st_levels_def comp_def)
  then show "struct_data data st' = struct_data data st" by (simp add: struct_data_def)
  have cs: "m_current_state st' = m_current_state st @ [empty_state st n (shard_capacity L st)]" by (simp add: assms(3))
  have fr: "entry_ok S L st' = entry_ok S L st" by (intro ext) (simp add: assms(3))
  have new: "entry_ok S L st n (InternalLevel_new n (shard_capacity L st)) (empty_state st n (shard_capacity L st))"
    using b(4) by (simp add: entry_ok_def actual_state_def empty_state_def shard_capacity_def)
  have "struct_base S data sinv L adm st'"
    unfolding struct_base_def lv cs fr
  proof (intro conjI allI impI)
    fix j assume j: "j < length (st_levels st @ [InternalLevel_new n (shard_capacity L st)])"
    then show "level_ok sinv ((st_levels st @ [InternalLevel_new n (shard_capacity L st)]) ! j)"
      using b(5) by (auto simp: nth_append)
    show "entry_ok S L st j ((st_levels st @ [InternalLevel_new n (shard_capacity L st)]) ! j)
        ((m_current_state st @ [empty_state st n (shard_capacity L st)]) ! j)"
      using b(2,6) new assms(2) j by (auto simp: nth_append less_Suc_eq)
    show "\<forall>w\<in>set (level_data data ((st_levels st @ [InternalLevel_new n (shard_capacity L st)]) ! j)). adm w"
      using b(7) j by (auto simp: nth_append)
  qed (use b in \<open>simp_all add: assms(3)\<close>)
  moreover have capf: "calc_level_record_capacity st' 0 = calc_level_record_capacity st 0" by (simp add: assms(3))
  moreover have "nos_ok (st_levels st')" if "nos_ok (st_levels st)"
    using that by (auto simp: nos_ok_def lv nth_append)
  ultimately show "struct_ok S data sinv L adm st'"
    using struct_okD(2,3) [OF assms(1)] assms(2) capf
    by (auto simp: struct_ok_def lv nth_append)
qed

lemma struct_liveD:
  "struct_live data st \<Longrightarrow> i < length (st_levels st) \<Longrightarrow> level_live data (st_levels st ! i)"
  by (simp add: struct_live_def)

text \<open>Saving a checkpoint succeeds for a structure without null levels.\<close>

lemma shard_names_wf:
  assumes "level_wf l"
  shows "shard_names S (Some l) = Inr (map (sh_filename S) (level_shards l))"
proof -
  have "\<forall>k\<in>set [0..<shard_cnt l]. bindE (deref (get_shard l k)) (\<lambda>s. Inr (sh_filename S s)) =
      Inr (sh_filename S (level_shards l ! k))"
  proof
    fix k assume "k \<in> set [0..<shard_cnt l]"
    then have k: "k < length (level_shards l)" using level_wfD(2) [OF assms] by simp
    then have "get_shard l k = Some (level_shards l ! k)"
      using level_wfD(2) [OF assms] by (subst get_shard_def, subst level_wfD(1) [OF assms]) (simp add: nth_append)
    then show "bindE (deref (get_shard l k)) (\<lambda>s. Inr (sh_filename S s)) = Inr (sh_filename S (level_shards l ! k))"
      by simp
  qed
  from mapE_Inr [OF this] show ?thesis
    using level_wfD(2) [OF assms] by (simp add: shard_names_def) (rule nth_equalityI, simp_all)
qed

lemma save_levels_ok:
  assumes "\<forall>l\<in>set ls. level_wf l"
  shows "\<exists>j'. save_levels S (map Some ls) i j = Inr j'"
  using assms by (induction ls arbitrary: i j) (simp_all add: shard_names_wf)

lemma save_checkpoint_ok:
  assumes "\<forall>l\<in>set ls. level_wf l"
  shows "\<exists>c. save_checkpoint S J (map Some ls) n d = Inr (d\<lparr>ckpt_file := Some c\<rparr>)"
proof -
  obtain j where "save_levels S (map Some ls) 0 (json_set ''flush_seq'' (JNum n) []) = Inr j"
    using save_levels_ok [OF assms] by blast
  then show ?thesis by (auto simp: save_checkpoint_def)
qed

text \<open>A plan \<open>b - 1 \<rightarrow> b, \<dots>, 0 \<rightarrow> 1\<close> carried out from the bottom up.\<close>

definition can_move :: "('s \<Rightarrow> 'a list) \<Rightarrow> LayoutPolicy \<Rightarrow> 's ExtensionStructure \<Rightarrow> nat \<Rightarrow> bool" where
  "can_move data L st b \<longleftrightarrow> b \<le> length (st_levels st) \<and>
     (\<forall>i<b. level_shards (st_levels st ! i) \<noteq> [] \<and> level_live data (st_levels st ! i)) \<and>
     (b < length (st_levels st) \<longrightarrow> level_live data (st_levels st ! b) \<and>
        (L = TEIRING \<longrightarrow> shard_cnt (st_levels st ! b) < shard_capacity L st))"

text \<open>The levels and entries that a BSM reconstruction of the levels above \<open>b\<close> leaves.\<close>

definition bsm_levels :: "nat \<Rightarrow> 's InternalLevel \<Rightarrow> 's InternalLevel list \<Rightarrow> 's InternalLevel list" where
  "bsm_levels b l ls = map (\<lambda>i. InternalLevel_new i 1) [0..<b] @ l # drop (Suc b) ls"

definition bsm_entries :: "('s, 'r, 'f, 'w) shard_ops \<Rightarrow> 's ExtensionStructure \<Rightarrow> nat \<Rightarrow> 's InternalLevel \<Rightarrow> state_vector" where
  "bsm_entries S st b l = replicate b (empty_state st b 1) @
     \<lparr>reccnt = level_record_count S l, reccap = calc_level_record_capacity st b, shardcnt = 1, shardcap = 1\<rparr> #
     drop (Suc b) (m_current_state st)"

text \<open>A shard type whose world is the disk with the checkpoint file.\<close>

locale disk_shard = shard S data sinv winv adm
  for S :: "('s, 'r::linorder, 'f, 'p disk) shard_ops"
    and data :: "'s \<Rightarrow> 'r Wrapped list"
    and sinv :: "'s \<Rightarrow> bool"
    and winv :: "'p disk \<Rightarrow> bool"
    and adm :: "'r Wrapped \<Rightarrow> bool" +
  assumes winv_ckpt: "winv d \<Longrightarrow> winv (d\<lparr>ckpt_file := c\<rparr>)"

text \<open>One that works with plain entries only, so that no shard of it is empty.\<close>

locale live_shard = disk_shard +
  assumes sinv_live: "sinv s \<Longrightarrow> data s \<noteq> []" and adm_plain: "adm w \<Longrightarrow> plain w"

lemma nos_ok_move:
  assumes "nos_ok ls" and "Suc k < length ls" and "level_shards l' = []"
    and "level_shards (ls ! k) \<noteq> [] \<and> level_no l = level_no (ls ! k) \<or>
      level_shards (ls ! Suc k) \<noteq> [] \<and> level_no l = level_no (ls ! Suc k)"
  shows "nos_ok (ls[Suc k := l, k := l'])"
  unfolding nos_ok_def
proof (intro allI impI)
  let ?P = "\<lambda>a b. level_no a < level_no b \<or> level_no a = 0 \<and> level_no b = 0"
  let ?xs = "ls[Suc k := l, k := l']"
  fix i j assume ij: "j < length ?xs" "i < j" "level_shards (?xs ! i) \<noteq> []" "level_shards (?xs ! j) \<noteq> []"
  have len: "j < length ls" using ij by simp
  have ok: "?P (ls ! a) (ls ! b)" if "a < b" "b < length ls" "level_shards (ls ! a) \<noteq> []" "level_shards (ls ! b) \<noteq> []" for a b
    using assms(1) that unfolding nos_ok_def by blast
  have nk: "i \<noteq> k" "j \<noteq> k" using ij assms(2,3) by auto
  consider "j = Suc k" | "i = Suc k" | "i \<noteq> Suc k" "j \<noteq> Suc k" by blast
  then show "?P (?xs ! i) (?xs ! j)"
  proof cases
    case 1
    then have "i < k" "?xs ! i = ls ! i" "?xs ! j = l" using ij nk assms(2) by auto
    then show ?thesis using ok [of i k] ok [of i "Suc k"] ij assms(2,4) by auto
  next
    case 2
    then have "Suc k < j" "?xs ! j = ls ! j" "?xs ! i = l" using ij nk assms(2) by auto
    then show ?thesis using ok [of k j] ok [of "Suc k" j] ij len assms(4) by auto
  next
    case 3
    then have "?xs ! i = ls ! i" "?xs ! j = ls ! j" using nk by simp_all
    then show ?thesis using ok [of i j] ij len by simp
  qed
qed

context disk_shard
begin

text \<open>The new contents of the base level, under leveling and tiering.\<close>

lemma base_step_ok:
  assumes "struct_ok S data sinv L adm st" and "L \<noteq> BSM" and "winv d" and "Suc k < length (st_levels st)"
    and "level_shards (st_levels st ! k) \<noteq> []" and "level_live data (st_levels st ! k)"
    and "level_live data (st_levels st ! Suc k)"
    and "L = TEIRING \<Longrightarrow> shard_cnt (st_levels st ! Suc k) < shard_capacity L st"
  shows "\<exists>l d'. (if L = LEVELING
             then (if shard_cnt (st_levels st ! Suc k) > 0
                   then level_reconstruction S (st_levels st ! Suc k) (st_levels st ! k) d
                   else Inr (st_levels st ! k, d))
             else bindE (append_level S (st_levels st ! k) (st_levels st ! Suc k) d)
                    (\<lambda>(l, d'). bindE (finalize l) (\<lambda>l'. Inr (l', d')))) = Inr (l, d') \<and>
    winv d' \<and> level_ok sinv l \<and> length (m_shards l) = shard_capacity L st \<and>
    (\<forall>w\<in>set (level_data data l). adm w) \<and>
    (\<forall>r. net (level_data data l) r = net (level_data data (st_levels st ! Suc k)) r + net (level_data data (st_levels st ! k)) r) \<and>
    (L = LEVELING \<longrightarrow> level_shards (st_levels st ! k) \<noteq> [] \<and> level_no l = level_no (st_levels st ! k) \<or>
      level_shards (st_levels st ! Suc k) \<noteq> [] \<and> level_no l = level_no (st_levels st ! Suc k))"
proof -
  let ?b = "st_levels st ! Suc k" and ?s = "st_levels st ! k"
  note b = struct_baseD [OF struct_okD(1) [OF assms(1)]]
  have ok: "level_ok sinv ?b" "level_ok sinv ?s" using b(5) assms(4) by simp_all
  have fl: "\<forall>w\<in>set (level_data data ?b). adm w" "\<forall>w\<in>set (level_data data ?s). adm w"
    using b(7) [of "Suc k"] b(7) [of k] assms(4) by simp_all
  have slots: "length (m_shards ?b) = shard_capacity L st" "length (m_shards ?s) = shard_capacity L st"
    using b(6) assms(2,4) by (simp_all add: entry_ok_def)
  have cnt: "shard_cnt ?b = length (level_shards ?b)" "length (level_shards ?b) \<le> length (m_shards ?b)"
      "length (level_shards ?s) \<le> length (m_shards ?s)"
    using ok level_wfD(2,4) by (auto simp: level_ok_def)
  show ?thesis
  proof (cases "L = LEVELING")
    case True
    then have one: "length (level_shards ?s) = 1" "length (level_shards ?b) \<le> 1"
      using slots cnt assms(5) by (simp_all add: shard_capacity_def Suc_le_eq le_Suc_eq)
    show ?thesis
    proof (cases "level_shards ?b = []")
      case True
      then have "level_data data ?b = []" by (simp add: level_data_def)
      then show ?thesis using \<open>L = LEVELING\<close> True cnt ok fl slots assms(3,5) by simp
    next
      case False
      then have "length (level_shards ?b) = 1" using one(2) by (simp add: le_Suc_eq)
      moreover have "level_no ?b > level_no ?s \<or> level_no ?b = 0 \<and> level_no ?s = 0"
        using struct_okD(2) [OF assms(1) \<open>L = LEVELING\<close>] False assms(4,5) unfolding nos_ok_def by blast
      ultimately obtain l d' where "level_reconstruction S ?b ?s d = Inr (l, d')" "winv d'" "level_ok sinv l"
          "length (m_shards l) = 1" "level_no l = level_no ?b" "built_from (level_data data ?b @ level_data data ?s) (level_data data l)"
        using level_reconstruction_ok [OF assms(3) ok assms(7,6) _ one(1)] fl by auto
      then show ?thesis
        using \<open>L = LEVELING\<close> False cnt fl built_all_adm [of "level_data data ?b @ level_data data ?s" "level_data data l"]
        by (auto simp: built_from_def shard_capacity_def net_append)
    qed
  next
    case False
    then have "L = TEIRING" using assms(2) by (cases L) simp_all
    then have room: "shard_cnt ?b < length (m_shards ?b)" using assms(8) slots by simp
    obtain l d' s where "append_level S ?s ?b d = Inr (l, d')" "finalize l = Inr l" "winv d'" "level_ok sinv l"
        "length (m_shards l) = length (m_shards ?b)" "level_shards l = level_shards ?b @ [s]" "built_from (level_data data ?s) (data s)"
      using append_level_ok [OF assms(3) ok(2) assms(6,5) ok(1) room fl(2)] by auto
    moreover from this have "level_data data l = level_data data ?b @ data s" by (simp add: level_data_def)
    ultimately show ?thesis
      using False fl slots built_all_adm [OF _ fl(2), of "data s"] by (auto simp: built_from_def net_append)
  qed
qed

lemma reconstruction_step_ok:
  assumes "struct_ok S data sinv L adm st" and "L \<noteq> BSM" and "winv d" and "Suc k < length (st_levels st)"
    and "level_shards (st_levels st ! k) \<noteq> []" and "level_live data (st_levels st ! k)"
    and "level_live data (st_levels st ! Suc k)"
    and "L = TEIRING \<Longrightarrow> shard_cnt (st_levels st ! Suc k) < shard_capacity L st"
  shows "\<exists>st' d' l. reconstruction S J L (Suc k) k st d = Inr (st', d') \<and> winv d' \<and> struct_ok S data sinv L adm st' \<and>
    st_levels st' = (st_levels st)[Suc k := l, k := InternalLevel_new k (shard_capacity L st)] \<and>
    net (struct_data data st') = net (struct_data data st) \<and> m_flush_seq st' = m_flush_seq st \<and>
    m_buffer_size st' = m_buffer_size st \<and> m_scale_factor st' = m_scale_factor st"
proof -
  let ?ls = "st_levels st" and ?new = "InternalLevel_new k (shard_capacity L st)"
  note b = struct_baseD [OF struct_okD(1) [OF assms(1)]]
  obtain l d1 where step: "(if L = LEVELING
             then (if shard_cnt (?ls ! Suc k) > 0 then level_reconstruction S (?ls ! Suc k) (?ls ! k) d else Inr (?ls ! k, d))
             else bindE (append_level S (?ls ! k) (?ls ! Suc k) d)
                    (\<lambda>(l, d'). bindE (finalize l) (\<lambda>l'. Inr (l', d')))) = Inr (l, d1)"
    and l: "winv d1" "level_ok sinv l" "length (m_shards l) = shard_capacity L st"
      "\<forall>w\<in>set (level_data data l). adm w"
      "\<forall>r. net (level_data data l) r = net (level_data data (?ls ! Suc k)) r + net (level_data data (?ls ! k)) r"
      "L = LEVELING \<longrightarrow> level_shards (?ls ! k) \<noteq> [] \<and> level_no l = level_no (?ls ! k) \<or>
        level_shards (?ls ! Suc k) \<noteq> [] \<and> level_no l = level_no (?ls ! Suc k)"
    using base_step_ok [OF assms] by blast
  define st1 where "st1 = st\<lparr>m_levels := map Some (?ls[Suc k := l]),
      m_current_state := (m_current_state st)[Suc k := actual_state S L st (Suc k) l]\<rparr>"
  define st2 where "st2 = st1\<lparr>m_levels := map Some ((st_levels st1)[k := ?new]),
      m_current_state := (m_current_state st1)[k := empty_state st k (shard_capacity L st)]\<rparr>"
  have e1: "entry_ok S L st (Suc k) l (actual_state S L st (Suc k) l)"
    using assms(2) l(3) by (simp add: entry_ok_def)
  note u1 = struct_base_update [OF struct_okD(1) [OF assms(1)] assms(4) l(2) e1 l(4) st1_def]
  have e2: "entry_ok S L st1 k ?new (empty_state st k (shard_capacity L st))"
    using assms(2) by (simp add: st1_def entry_ok_def actual_state_def empty_state_def)
  have k1: "k < length (st_levels st1)" using u1(2) assms(4) by simp
  note u2 = struct_base_update [OF u1(1) k1 level_ok_new(1) e2 _ st2_def]
  have lv: "st_levels st2 = ?ls[Suc k := l, k := ?new]" using u2(2) u1(2) by simp
  have net: "net (struct_data data st2) = net (struct_data data st)"
    using u2(3) u1(3) l(5) by (simp add: fun_eq_iff u1(2))
  have "nos_ok (st_levels st2)" if "L = LEVELING"
    unfolding lv using nos_ok_move [OF struct_okD(2) [OF assms(1) that] assms(4)] l(6) that by simp
  moreover have "level_record_count S (st_levels st2 ! 0) \<le> calc_level_record_capacity st2 0" if "L = LEVELING"
  proof (cases k)
    case 0
    have "0 < length (?ls[Suc k := l])" unfolding length_list_update using assms(4) by linarith
    then have "st_levels st2 ! 0 = ?new" unfolding lv 0 by (rule nth_list_update_eq)
    then show ?thesis by simp
  next
    case (Suc m)
    then show ?thesis
      using lv struct_okD(3) [OF assms(1) that] list.size(3) [where 'a = "'s InternalLevel"] assms(4)
      by (cases "?ls = []") (auto simp: st2_def st1_def)
  qed
  ultimately have ok: "struct_ok S data sinv L adm st2" using u2(1) by (simp add: struct_ok_def)
  then have wf: "\<forall>l\<in>set (st_levels st2). level_wf l"
    using struct_baseD(5) [OF struct_okD(1) [OF ok]] by (auto simp: in_set_conv_nth level_ok_def)
  obtain c where c: "save_checkpoint S J (map Some (st_levels st2)) (m_flush_seq st) d1 = Inr (d1\<lparr>ckpt_file := Some c\<rparr>)"
    using save_checkpoint_ok [OF wf] by blast
  have eq: "st2 = st\<lparr>m_levels := (map Some ?ls)[Suc k := Some l, k := Some ?new],
      m_current_state := (m_current_state st)[Suc k := actual_state S L st (Suc k) l, k := empty_state st k (shard_capacity L st)]\<rparr>"
    unfolding st2_def u1(2) by (simp add: st1_def map_update)
  have "\<not> length (m_levels st) \<le> Suc k" "k < length (st_levels st)" using assms(4) b(1) by (metis length_map not_less, simp)
  then have "reconstruction S J L (Suc k) k st d = Inr (st2, d1\<lparr>ckpt_file := Some c\<rparr>)"
    unfolding reconstruction_def Let_def
    using step c [unfolded lv map_update] assms(4) b(1,2) level_at_ok [OF b(1)]
    by (simp add: eq)
  then show ?thesis using ok lv net l(1) winv_ckpt by (auto simp: st2_def st1_def)
qed

text \<open>The step when the target level does not exist yet: it is added first.\<close>

lemma reconstruction_grow:
  assumes "struct_ok S data sinv L adm st" and "base = length (st_levels st)"
    and "st1 = st\<lparr>m_levels := map Some (st_levels st @ [InternalLevel_new base (shard_capacity L st)]),
            m_current_state := m_current_state st @ [empty_state st base (shard_capacity L st)]\<rparr>"
  shows "reconstruction S J L base k st d = reconstruction S J L base k st1 d"
proof -
  note b = struct_baseD [OF struct_okD(1) [OF assms(1)]]
  have "length (m_levels st) = base" using b(1) assms(2) by (metis length_map)
  moreover have "m_levels st @ [Some x] = map Some (st_levels st @ [x])" for x using b(1) by simp
  moreover have "actual_state S L st1 = actual_state S L st" "empty_state st1 = empty_state st"
    by (intro ext, simp add: assms(3) actual_state_def) (intro ext, simp add: assms(3) empty_state_def)
  ultimately show ?thesis unfolding reconstruction_def Let_def by (simp add: assms(3))
qed

lemma run_merges_ok:
  assumes "struct_ok S data sinv L adm st" and "L \<noteq> BSM" and "winv d" and "can_move data L st b"
    and "moves ts = down_moves b" and "0 < b"
  shows "\<exists>st' d'. run_merges S J L ts st d = Inr (st', d') \<and> winv d' \<and> struct_ok S data sinv L adm st' \<and>
    net (struct_data data st') = net (struct_data data st) \<and> m_flush_seq st' = m_flush_seq st \<and>
    st_levels st' \<noteq> [] \<and> level_shards (st_levels st' ! 0) = [] \<and>
    m_buffer_size st' = m_buffer_size st \<and> m_scale_factor st' = m_scale_factor st"
  using assms
proof (induction b arbitrary: ts st d)
  case (Suc b)
  obtain t ts' where ts: "ts = t # ts'" "sources t = [int b]" "target t = int (Suc b)" "moves ts' = down_moves b"
    using Suc.prems(5) by (auto simp: moves_def)
  have "\<exists>st1. struct_ok S data sinv L adm st1 \<and> Suc b < length (st_levels st1) \<and> can_move data L st1 (Suc b) \<and>
      net (struct_data data st1) = net (struct_data data st) \<and> m_flush_seq st1 = m_flush_seq st \<and>
      m_buffer_size st1 = m_buffer_size st \<and> m_scale_factor st1 = m_scale_factor st \<and>
      reconstruction S J L (Suc b) b st d = reconstruction S J L (Suc b) b st1 d"
  proof (cases "Suc b < length (st_levels st)")
    case True
    then show ?thesis using Suc.prems by blast
  next
    case False
    then have n: "Suc b = length (st_levels st)" using Suc.prems(4) by (simp add: can_move_def)
    define st1 where "st1 = st\<lparr>m_levels := map Some (st_levels st @ [InternalLevel_new (Suc b) (shard_capacity L st)]),
            m_current_state := m_current_state st @ [empty_state st (Suc b) (shard_capacity L st)]\<rparr>"
    note g = struct_ok_grow [OF Suc.prems(1) n st1_def]
    have "0 < shard_capacity L st1"
      using struct_baseD(4) [OF struct_okD(1) [OF g(1)]] by (simp add: shard_capacity_def)
    then have "can_move data L st1 (Suc b)"
      using Suc.prems(4) n unfolding can_move_def g(2)
      by (auto simp: nth_append less_Suc_eq)
    then show ?thesis
      using g n reconstruction_grow [OF Suc.prems(1) n st1_def]
      by (intro exI [of _ st1]) (simp add: st1_def)
  qed
  then obtain st1 where st1: "struct_ok S data sinv L adm st1" "Suc b < length (st_levels st1)" "can_move data L st1 (Suc b)"
      "net (struct_data data st1) = net (struct_data data st)" "m_flush_seq st1 = m_flush_seq st"
      "m_buffer_size st1 = m_buffer_size st" "m_scale_factor st1 = m_scale_factor st"
      "reconstruction S J L (Suc b) b st d = reconstruction S J L (Suc b) b st1 d" by blast
  have "\<exists>st' d' l. reconstruction S J L (Suc b) b st1 d = Inr (st', d') \<and> winv d' \<and> struct_ok S data sinv L adm st' \<and>
    st_levels st' = (st_levels st1)[Suc b := l, b := InternalLevel_new b (shard_capacity L st1)] \<and>
    net (struct_data data st') = net (struct_data data st1) \<and> m_flush_seq st' = m_flush_seq st1 \<and>
    m_buffer_size st' = m_buffer_size st1 \<and> m_scale_factor st' = m_scale_factor st1"
    by (rule reconstruction_step_ok [OF st1(1) Suc.prems(2,3) st1(2)]) (use st1(2,3) in \<open>auto simp: can_move_def\<close>)
  then obtain st2 d2 l where st2: "reconstruction S J L (Suc b) b st1 d = Inr (st2, d2)" "winv d2"
      "struct_ok S data sinv L adm st2"
      "st_levels st2 = (st_levels st1)[Suc b := l, b := InternalLevel_new b (shard_capacity L st1)]"
      "net (struct_data data st2) = net (struct_data data st1)" "m_flush_seq st2 = m_flush_seq st1"
      "m_buffer_size st2 = m_buffer_size st1" "m_scale_factor st2 = m_scale_factor st1" by blast
  have run: "run_merges S J L ts st d = run_merges S J L ts' st2 d2"
    using ts(2) st1(8) st2(1) unfolding ts(1) run_merges.simps ts(3) nat_int by simp
  have lvl: "st_levels st2 ! b = InternalLevel_new b (shard_capacity L st1)" "b < length (st_levels st2)"
    using st2(4) st1(2) by auto
  show ?case
  proof (cases "b = 0")
    case True
    then have "ts' = []" using ts(4) by (simp add: moves_def)
    then show ?thesis using run st1 st2 lvl True by auto
  next
    case False
    have "0 < shard_capacity L st1" using struct_baseD(4) [OF struct_okD(1) [OF st1(1)]] by (simp add: shard_capacity_def)
    moreover have "shard_capacity L st2 = shard_capacity L st1" using st2(8) by (simp add: shard_capacity_def)
    ultimately have "can_move data L st2 b"
      using st1(2,3) st2(4) lvl by (auto simp: can_move_def)
    from Suc.IH [OF st2(3) Suc.prems(2) st2(2) this ts(4)] False show ?thesis
      using run st1 st2 by auto
  qed
qed simp

end

lemma capacity_mono:
  assumes "0 < m_scale_factor st"
  shows "calc_level_record_capacity st 0 \<le> calc_level_record_capacity st i"
    and "m_buffer_size st \<le> calc_level_record_capacity st 0"
  using assms by (simp_all add: calc_level_record_capacity_def)

context disk_shard
begin

lemma no_shards_count: "level_ok sinv l \<Longrightarrow> level_shards l = [] \<Longrightarrow> level_record_count S l = 0"
  by (simp add: level_count level_data_def)

text \<open>A level that cannot take the records of level 0 holds some itself.\<close>

lemma full_level_nonempty:
  assumes "struct_ok S data sinv L adm st" and "i < length (st_levels st)"
    and "\<not> can_reconstruct_with L i n (m_current_state st)"
    and "L = LEVELING \<Longrightarrow> n \<le> calc_level_record_capacity st 0"
  shows "level_shards (st_levels st ! i) \<noteq> []"
proof
  assume empty: "level_shards (st_levels st ! i) = []"
  note b = struct_baseD [OF struct_okD(1) [OF assms(1)]]
  have z: "level_record_count S (st_levels st ! i) = 0" using no_shards_count b(5) assms(2) empty by simp
  have e: "entry_ok S L st i (st_levels st ! i) (m_current_state st ! i)" using b(6) assms(2) .
  have c: "shard_cnt (st_levels st ! i) = 0"
    using b(5) [OF assms(2)] level_wfD(2) [of "st_levels st ! i"] empty by (simp add: level_ok_def)
  show False
    using assms(3,4) e z c b(2,4) assms(2) capacity_mono(1) [OF b(4), of i]
    by (cases L) (auto simp: can_reconstruct_with_def entry_ok_def actual_state_def shard_capacity_def)
qed

lemma down_plan_can_move:
  assumes "struct_ok S data sinv L adm st" and "struct_live data st" and "L \<noteq> BSM" and "n \<le> m_buffer_size st"
    and "st_levels st \<noteq> []" and "\<not> can_reconstruct_with L 0 n (m_current_state st)"
    and "b \<le> length (m_levels st)"
    and "b < length (m_levels st) \<Longrightarrow> can_reconstruct_with L b (reccnt (m_current_state st ! 0)) (m_current_state st)"
    and "\<forall>i. 0 < i \<and> i < b \<longrightarrow> \<not> can_reconstruct_with L i (reccnt (m_current_state st ! 0)) (m_current_state st)"
  shows "can_move data L st b"
proof -
  note b = struct_baseD [OF struct_okD(1) [OF assms(1)]]
  have len: "length (m_levels st) = length (st_levels st)" using b(1) by (metis length_map)
  have e0: "entry_ok S L st 0 (st_levels st ! 0) (m_current_state st ! 0)" using b(6) assms(5) by simp
  have r0: "reccnt (m_current_state st ! 0) \<le> calc_level_record_capacity st 0" if "L = LEVELING"
    using e0 struct_okD(3) [OF assms(1) that assms(5)] assms(3) by (simp add: entry_ok_def actual_state_def)
  have ne: "level_shards (st_levels st ! i) \<noteq> []" if "i < b" for i
  proof (cases "i = 0")
    case True
    then show ?thesis
      using full_level_nonempty [OF assms(1) _ assms(6)] assms(4,5) capacity_mono(2) [OF b(4)] by simp
  next
    case False
    then show ?thesis
      using full_level_nonempty [OF assms(1), of i "reccnt (m_current_state st ! 0)"] assms(7,9) that r0 len by auto
  qed
  have "shard_cnt (st_levels st ! b) < shard_capacity L st" if "b < length (st_levels st)" "L = TEIRING"
    using assms(8) b(6) [OF that(1)] that len b(2)
    by (simp add: can_reconstruct_with_def entry_ok_def actual_state_def)
  then show ?thesis
    using ne struct_liveD [OF assms(2)] assms(7) len by (auto simp: can_move_def)
qed

subsection \<open>BSM\<close>

lemma fold_bsm_step:
  "sources (fst (fold bsm_step is (t, n, s))) = sources t @ map (\<lambda>i. int (i - 1)) is \<and>
   target (fst (fold bsm_step is (t, n, s))) = target t"
proof (induction "is" arbitrary: t n s)
  case (Cons i "is")
  obtain t' n' s' where eq: "bsm_step i (t, n, s) = (t', n', s')" by (metis prod_cases3)
  then have "sources t' = sources t @ [int (i - 1)]" "target t' = target t"
    by (auto simp: bsm_step_def Let_def add_source_def)
  then show ?case using Cons [of t' n' s'] eq by simp
qed simp

lemma length_fold_bsm_step: "length (snd (snd (fold bsm_step is (t, n, s)))) = length s"
proof (induction "is" arbitrary: t n s)
  case (Cons i "is")
  then show ?case by (cases "bsm_step i (t, n, s)") (auto simp: bsm_step_def Let_def)
qed simp

lemma plan_bsm:
  assumes "length (m_current_state st) = length (m_levels st)" and "m_levels st \<noteq> []"
    and "\<not> can_reconstruct_with BSM 0 n (m_current_state st)"
  obtains b v state t where "get_reconstruction_tasks BSM junk st n = Inr (v, state)" "m_tasks v = [t]"
    "sources t = map int (rev [0..<b])" "target t = int b" "0 < b" "b \<le> length (m_levels st)"
    "b < length (m_levels st) \<Longrightarrow> can_reconstruct_with BSM b (reccnt (m_current_state st ! 0)) (m_current_state st)"
    "\<forall>i. 0 < i \<and> i < b \<longrightarrow> \<not> can_reconstruct_with BSM i (reccnt (m_current_state st ! 0)) (m_current_state st)"
proof -
  have len: "0 < length (m_current_state st)" using assms(1,2) by simp
  have result: "\<exists>v s t. get_reconstruction_tasks BSM junk st n = Inr (v, s) \<and> m_tasks v = [t] \<and>
      sources t = map int (rev [0..<b]) \<and> target t = int b"
    if f: "find_reconstruction_target BSM 0 (m_current_state st) = Inr f"
      "(case f of Some b \<Rightarrow> (b, m_current_state st) | None \<Rightarrow> grow BSM st (m_current_state st)) = (b, state)"
      "b < length state" "0 < b" for f b state
  proof -
    let ?t0 = "\<lparr>sources = [], target = int b, task_reccnt = junk\<rparr>"
    let ?f = "fold bsm_step (rev [0 + 1..<b + 1]) (?t0, 0, state)"
    obtain t m s where vs: "?f = (t, m, s)" by (metis prod_cases3)
    have "map (\<lambda>i. int (i - 1)) (rev [0 + 1..<b + 1]) = map int (rev [0..<b])"
      unfolding rev_map by (rule nth_equalityI) (simp_all add: rev_nth del: upt_Suc)
    then have t: "sources t = map int (rev [0..<b])" "target t = int b"
      using fold_bsm_step [of "rev [0 + 1..<b + 1]" ?t0 0 state, unfolded vs] by (simp_all del: upt_Suc)
    have ls: "length s = length state" using length_fold_bsm_step [of "rev [0 + 1..<b + 1]" ?t0 0 state, unfolded vs] by simp
    have "get_reconstruction_tasks_from_level BSM junk st 0 (m_current_state st) =
        Inr (add_reconstruction_task t ReconstructionVector_new, s[b := (s ! b)\<lparr>reccnt := m, shardcnt := 1\<rparr>])"
      unfolding get_reconstruction_tasks_from_level_def f(1) bindE_simps Let_def f(2) prod.case
      using f(3,4) vs by simp
    moreover have "0 < length s" using ls f(3) by linarith
    ultimately show ?thesis
      using assms(3) t by (simp add: get_reconstruction_tasks_def add_reconstruction_task_def ReconstructionVector_new_def)
  qed
  from len show thesis
  proof (cases rule: find_target_spec [of 0 "m_current_state st" BSM])
    case (found b)
    with result [of "Some b" b "m_current_state st"] obtain v s t where
      "get_reconstruction_tasks BSM junk st n = Inr (v, s)" "m_tasks v = [t]"
      "sources t = map int (rev [0..<b])" "target t = int b" by auto
    then show thesis using found assms(1) by (intro that [of v s t b]) auto
  next
    case grown
    obtain b state where g: "grow BSM st (m_current_state st) = (b, state)" by fastforce
    then have b: "b = length (m_levels st)" "b < length state" using assms(1) by (auto simp: grow_def Let_def)
    with result [of None b state] g grown assms(2) obtain v s t where
      "get_reconstruction_tasks BSM junk st n = Inr (v, s)" "m_tasks v = [t]"
      "sources t = map int (rev [0..<b])" "target t = int b" by auto
    then show thesis using grown assms(1,2) b by (intro that [of v s t b]) auto
  qed
qed

end

lemma clear_sources_ok:
  assumes "n \<le> length ls" and "n \<le> length cs"
  shows "clear_sources st tgt (rev [0..<n]) (ls, cs) =
    Inr (map (\<lambda>i. Some (InternalLevel_new i 1)) [0..<n] @ drop n ls,
         replicate n (empty_state st tgt 1) @ drop n cs)"
  using assms
proof (induction n arbitrary: ls cs)
  case (Suc n)
  have "drop n (xs[n := x]) = x # drop (Suc n) xs" if "n < length xs" for xs and x :: 'b
    using that by (simp add: drop_update_swap Cons_nth_drop_Suc [symmetric])
  moreover have "drop n (xs[n := x]) = x # drop (Suc n) xs" if "n < length xs" for xs and x :: level_state
    using that by (simp add: drop_update_swap Cons_nth_drop_Suc [symmetric])
  ultimately show ?case
    using Suc by (simp add: replicate_append_same)
       (simp add: drop_update_swap Cons_nth_drop_Suc [symmetric] replicate_app_Cons_same)
qed simp

context disk_shard
begin

lemma net_rev_levels: "net (concat (map (level_data data) (rev ls))) = net (concat (map (level_data data) ls))"
  by (rule net_mset_eq) (simp add: mset_concat rev_map [symmetric] sum_list_rev)

lemma struct_base_in:
  assumes "struct_base S data sinv L adm st" and "l \<in> set (st_levels st)"
  shows "level_ok sinv l" and "w \<in> set (level_data data l) \<Longrightarrow> adm w"
  using assms struct_baseD(5,7) [OF assms(1)] by (metis in_set_conv_nth)+

lemma bsm_struct_base:
  assumes "struct_base S data sinv BSM adm st" and "b \<le> length (st_levels st)" and "level_ok sinv l"
    and "length (m_shards l) = 1" and "\<forall>w\<in>set (level_data data l). adm w"
    and "st' = st\<lparr>m_levels := map Some (bsm_levels b l (st_levels st)), m_current_state := bsm_entries S st b l\<rparr>"
  shows "struct_base S data sinv BSM adm st'" and "st_levels st' = bsm_levels b l (st_levels st)"
proof -
  note b = struct_baseD [OF assms(1)]
  show lv: "st_levels st' = bsm_levels b l (st_levels st)" by (simp add: assms(6) st_levels_def comp_def)
  have cs: "m_current_state st' = bsm_entries S st b l" by (simp add: assms(6))
  have fr: "entry_ok S BSM st' = entry_ok S BSM st" by (intro ext) (simp add: assms(6))
  show "struct_base S data sinv BSM adm st'"
    unfolding struct_base_def lv cs fr
  proof (intro conjI allI impI)
    fix j assume j: "j < length (bsm_levels b l (st_levels st))"
    have cases: "bsm_levels b l (st_levels st) ! j = (if j < b then InternalLevel_new j 1 else if j = b then l else st_levels st ! j)"
        "bsm_entries S st b l ! j = (if j < b then empty_state st b 1 else if j = b
           then \<lparr>reccnt = level_record_count S l, reccap = calc_level_record_capacity st b, shardcnt = 1, shardcap = 1\<rparr>
           else m_current_state st ! j)"
      using j b(2) by (auto simp: nth_append nth_Cons' bsm_levels_def bsm_entries_def)
    have jl: "j < length (st_levels st)" if "b < j" using j that by (auto simp: bsm_levels_def)
    show "entry_ok S BSM st j (bsm_levels b l (st_levels st) ! j) (bsm_entries S st b l ! j)" unfolding cases
      using b(6) jl assms(4) by (auto simp: entry_ok_def empty_state_def)
    show "level_ok sinv (bsm_levels b l (st_levels st) ! j)" unfolding cases using b(5) jl assms(3) by auto
    show "\<forall>w\<in>set (level_data data (bsm_levels b l (st_levels st) ! j)). adm w"
      unfolding cases using b(7) jl assms(5) by auto
  qed (use b assms(2) in \<open>simp_all add: assms(6) bsm_levels_def bsm_entries_def\<close>)
qed

lemma bsm_net:
  assumes "b \<le> length ls" and "b < length ls \<Longrightarrow> level_shards (ls ! b) = []"
    and "net (level_data data l) = net (concat (map (level_data data) (take b ls)))"
  shows "net (concat (map (level_data data) (bsm_levels b l ls))) = net (concat (map (level_data data) ls))"
proof -
  have "ls = take b ls @ (if b < length ls then [ls ! b] else []) @ drop (Suc b) ls"
    using assms(1) by (auto simp: Cons_nth_drop_Suc)
  then have "concat (map (level_data data) ls) = concat (map (level_data data)
      (take b ls @ (if b < length ls then [ls ! b] else []) @ drop (Suc b) ls))" by (rule arg_cong)
  moreover have "level_data data (ls ! b) = []" if "b < length ls"
    using assms(2) that by (simp add: level_data_def)
  ultimately have "concat (map (level_data data) ls) =
      concat (map (level_data data) (take b ls)) @ concat (map (level_data data) (drop (Suc b) ls))" by simp
  moreover have "concat (map (level_data data) (bsm_levels b l ls)) =
      level_data data l @ concat (map (level_data data) (drop (Suc b) ls))"
    by (simp add: bsm_levels_def comp_def)
  ultimately show ?thesis using assms(3) by (simp add: fun_eq_iff net_append)
qed

lemma bsm_merge_ok:
  assumes "struct_base S data sinv BSM adm st" and "winv d" and "0 < b" and "b \<le> length (st_levels st)"
    and "\<forall>i<b. level_shards (st_levels st ! i) \<noteq> [] \<and> level_live data (st_levels st ! i)"
  shows "\<exists>l d'. level_reconstruction_all S (rev (take b (st_levels st))) b d = Inr (l, d') \<and> winv d' \<and>
    level_ok sinv l \<and> length (m_shards l) = 1 \<and> (\<forall>w\<in>set (level_data data l). adm w) \<and>
    net (level_data data l) = net (concat (map (level_data data) (take b (st_levels st))))"
proof -
  let ?pre = "take b (st_levels st)"
  have fl: "\<forall>x\<in>set (concat (map (level_data data) (rev ?pre))). adm x"
    using struct_base_in(2) [OF assms(1)] by (auto dest: in_set_takeD)
  have "\<exists>l' w'. level_reconstruction_all S (rev ?pre) b d = Inr (l', w') \<and> winv w' \<and> level_ok sinv l' \<and>
    length (m_shards l') = 1 \<and> shard_cnt l' = 1 \<and> level_no l' = b \<and>
    built_from (concat (map (level_data data) (rev ?pre))) (level_data data l')"
  proof (rule level_reconstruction_all_ok [OF assms(2) _ _ fl])
    show "\<forall>l\<in>set (rev ?pre). level_ok sinv l \<and> level_live data l"
      using struct_baseD(5) [OF assms(1)] assms(4,5) by (auto simp: in_set_conv_nth)
    have "st_levels st ! 0 \<in> set ?pre" using assms(3,4) by (auto simp: in_set_conv_nth intro!: exI [of _ 0])
    then show "concat (map level_shards (rev ?pre)) \<noteq> []" using assms(3,5) by auto
  qed
  then obtain l d' where "level_reconstruction_all S (rev ?pre) b d = Inr (l, d')" "winv d'" "level_ok sinv l"
      "length (m_shards l) = 1" "built_from (concat (map (level_data data) (rev ?pre))) (level_data data l)" by blast
  then show ?thesis using built_all_adm [OF _ fl] net_rev_levels [of ?pre] unfolding built_from_def by metis
qed

lemma reconstruction_bsm_ok:
  assumes "struct_ok S data sinv BSM adm st" and "winv d" and "0 < b" and "b \<le> length (st_levels st)"
    and "\<forall>i<b. level_shards (st_levels st ! i) \<noteq> [] \<and> level_live data (st_levels st ! i)"
    and "b < length (st_levels st) \<Longrightarrow> level_shards (st_levels st ! b) = []"
    and "sources t = map int (rev [0..<b])" and "target t = int b"
  shows "\<exists>st' d'. reconstruction_bsm S J t st d = Inr (st', d') \<and> winv d' \<and> struct_ok S data sinv BSM adm st' \<and>
    net (struct_data data st') = net (struct_data data st) \<and> m_flush_seq st' = m_flush_seq st \<and>
    st_levels st' \<noteq> [] \<and> level_shards (st_levels st' ! 0) = [] \<and>
    m_buffer_size st' = m_buffer_size st \<and> m_scale_factor st' = m_scale_factor st"
proof -
  let ?ls = "st_levels st"
  note base = struct_okD(1) [OF assms(1)]
  note b = struct_baseD [OF base]
  have srcs: "map nat (sources t) = rev [0..<b]" using assms(7) by (simp add: comp_def)
  have "mapE (level_at st) (rev [0..<b]) = Inr (map ((!) ?ls) (rev [0..<b]))"
    by (rule mapE_Inr) (use level_at_ok [OF b(1)] assms(4) in auto)
  moreover have "map ((!) ?ls) (rev [0..<b]) = rev (take b ?ls)"
    using assms(4) by (intro nth_equalityI) (simp_all add: rev_nth)
  ultimately have src: "mapE (level_at st) (rev [0..<b]) = Inr (rev (take b ?ls))" by simp
  obtain l d1 where l: "level_reconstruction_all S (rev (take b ?ls)) b d = Inr (l, d1)" "winv d1" "level_ok sinv l"
      "length (m_shards l) = 1" "\<forall>w\<in>set (level_data data l). adm w"
      "net (level_data data l) = net (concat (map (level_data data) (take b ?ls)))"
    using bsm_merge_ok [OF base assms(2-5)] by blast
  let ?e = "\<lparr>reccnt = level_record_count S l, reccap = calc_level_record_capacity st b, shardcnt = 1, shardcap = 1\<rparr>"
  define st' where "st' = st\<lparr>m_levels := map Some (bsm_levels b l ?ls), m_current_state := bsm_entries S st b l\<rparr>"
  note st' = bsm_struct_base [OF base assms(4) l(3-5) st'_def]
  have len: "length (m_levels st) = length ?ls" using b(1) by (metis length_map)
  have upd: "(if b \<ge> length (m_levels st) then (m_levels st @ [Some l], m_current_state st @ [?e])
      else ((m_levels st)[b := Some l], (m_current_state st)[b := ?e])) =
      (take b (m_levels st) @ Some l # drop (Suc b) (m_levels st), take b (m_current_state st) @ ?e # drop (Suc b) (m_current_state st))"
    using assms(4) len b(2) by (auto simp: upd_conv_take_nth_drop)
  have "drop (Suc b) (m_levels st) = map Some (drop (Suc b) ?ls)" by (subst b(1)) (simp add: drop_map)
  then have clr: "clear_sources st b (rev [0..<b]) (take b (m_levels st) @ Some l # drop (Suc b) (m_levels st),
        take b (m_current_state st) @ ?e # drop (Suc b) (m_current_state st)) =
      Inr (map Some (bsm_levels b l ?ls), bsm_entries S st b l)"
    using assms(4) len b(2) by (subst clear_sources_ok) (simp_all add: bsm_levels_def bsm_entries_def comp_def)
  have net: "net (struct_data data st') = net (struct_data data st)"
    unfolding struct_data_def st'(2) using bsm_net [OF assms(4,6) l(6)] by simp
  have wf: "\<forall>l\<in>set (bsm_levels b l ?ls). level_wf l"
    using struct_base_in(1) [OF st'(1)] unfolding st'(2) level_ok_def by blast
  obtain c where "save_checkpoint S J (map Some (bsm_levels b l ?ls)) (m_flush_seq st) d1 = Inr (d1\<lparr>ckpt_file := Some c\<rparr>)"
    using save_checkpoint_ok [OF wf] by blast
  then have "reconstruction_bsm S J t st d = Inr (st', d1\<lparr>ckpt_file := Some c\<rparr>)"
    unfolding reconstruction_bsm_def Let_def srcs assms(8) nat_int src bindE_simps l(1) prod.case upd clr st'_def by simp
  moreover have "st_levels st' ! 0 = InternalLevel_new 0 1" "st_levels st' \<noteq> []"
    using st'(2) assms(3) by (simp_all add: nth_append bsm_levels_def)
  ultimately show ?thesis
    using st'(1) net l(2) winv_ckpt by (auto simp: st'_def struct_ok_def)
qed


lemma empty_level_room:
  assumes "struct_ok S data sinv L adm st" and "st_levels st \<noteq> []" and "level_shards (st_levels st ! 0) = []"
    and "n \<le> m_buffer_size st"
  shows "can_reconstruct_with L 0 n (m_current_state st)"
proof (rule ccontr)
  assume "\<not> can_reconstruct_with L 0 n (m_current_state st)"
  moreover have "n \<le> calc_level_record_capacity st 0"
    using assms(4) capacity_mono(2) struct_baseD(4) [OF struct_okD(1) [OF assms(1)]] le_trans by blast
  ultimately show False using full_level_nonempty [OF assms(1), of 0 n] assms(2,3) by simp
qed

text \<open>The plan made for a flush of \<open>n\<close> records can be carried out, and leaves level 0 with room for them.\<close>

lemma plan_and_merge_ok:
  assumes "struct_ok S data sinv L adm st" and "struct_live data st" and "winv d" and "n \<le> m_buffer_size st"
  shows "\<exists>v state st' d'. get_reconstruction_tasks L junk st n = Inr (v, state) \<and>
    perform_merges S J L v st d = Inr (st', d') \<and> winv d' \<and> struct_ok S data sinv L adm st' \<and>
    net (struct_data data st') = net (struct_data data st) \<and> m_flush_seq st' = m_flush_seq st \<and>
    m_buffer_size st' = m_buffer_size st \<and> m_scale_factor st' = m_scale_factor st \<and>
    (st_levels st' \<noteq> [] \<longrightarrow> level_live data (st_levels st' ! 0) \<and> can_reconstruct_with L 0 n (m_current_state st'))"
proof -
  note b = struct_baseD [OF struct_okD(1) [OF assms(1)]]
  have len: "length (m_levels st) = length (st_levels st)" using b(1) by (metis length_map)
  consider (first) "st_levels st = []" | (room) "st_levels st \<noteq> []" "can_reconstruct_with L 0 n (m_current_state st)"
    | (plan) "st_levels st \<noteq> []" "\<not> can_reconstruct_with L 0 n (m_current_state st)" by blast
  then show ?thesis
  proof cases
    case first
    then have "m_levels st = []" "m_current_state st = []" using len b(2) by simp_all
    then have "\<exists>v state. get_reconstruction_tasks L junk st n = Inr (v, state) \<and> m_tasks v = []"
      by (auto simp: get_reconstruction_tasks_def can_reconstruct_with_def get_reconstruction_tasks_from_level_def
          find_reconstruction_target_def grow_def ReconstructionVector_new_def)
    then show ?thesis using assms first by (auto simp: perform_merges_def)
  next
    case room
    have "vec_get (m_current_state st) 0 = Inr (m_current_state st ! 0)" using room(1) b(2) by simp
    then have "\<exists>state. get_reconstruction_tasks L junk st n = Inr (ReconstructionVector_new, state)"
      using room(2) by (simp add: get_reconstruction_tasks_def Let_def)
    then show ?thesis
      using assms room struct_liveD [OF assms(2), of 0] by (auto simp: perform_merges_def ReconstructionVector_new_def)
  next
    case plan
    have ne: "m_levels st \<noteq> []" "length (m_current_state st) = length (m_levels st)" using plan(1) len b(2) by auto
    have "\<exists>v state st' d'. get_reconstruction_tasks L junk st n = Inr (v, state) \<and>
      perform_merges S J L v st d = Inr (st', d') \<and> winv d' \<and> struct_ok S data sinv L adm st' \<and>
      net (struct_data data st') = net (struct_data data st) \<and> m_flush_seq st' = m_flush_seq st \<and>
      st_levels st' \<noteq> [] \<and> level_shards (st_levels st' ! 0) = [] \<and>
      m_buffer_size st' = m_buffer_size st \<and> m_scale_factor st' = m_scale_factor st"
    proof (cases "L = BSM")
      case True
      obtain b' v state t where p: "get_reconstruction_tasks BSM junk st n = Inr (v, state)" "m_tasks v = [t]"
          "sources t = map int (rev [0..<b'])" "target t = int b'" "0 < b'" "b' \<le> length (m_levels st)"
          "b' < length (m_levels st) \<Longrightarrow> can_reconstruct_with BSM b' (reccnt (m_current_state st ! 0)) (m_current_state st)"
          "\<forall>i. 0 < i \<and> i < b' \<longrightarrow> \<not> can_reconstruct_with BSM i (reccnt (m_current_state st ! 0)) (m_current_state st)"
        using plan_bsm [OF ne(2,1)] plan(2) True by metis
      have "level_shards (st_levels st ! i) \<noteq> []" if "i < b'" for i
        using full_level_nonempty [OF assms(1), of i] p(6,8) plan(2) True that len by (cases "i = 0") fastforce+
      moreover have "level_shards (st_levels st ! b') = []" if "b' < length (st_levels st)"
        using p(7) that len b(2) b(5,6) [OF that] struct_liveD [OF assms(2) that] True level_live_count
        by (auto simp: can_reconstruct_with_def entry_ok_def)
      ultimately show ?thesis
        using reconstruction_bsm_ok [of st d b' t J] assms(1,3) p struct_liveD [OF assms(2)] len True
        by (simp add: perform_merges_def)
    next
      case False
      obtain b' v state where p: "get_reconstruction_tasks L junk st n = Inr (v, state)" "moves (m_tasks v) = down_moves b'"
          "0 < b'" "b' \<le> length (m_levels st)"
          "b' < length (m_levels st) \<Longrightarrow> can_reconstruct_with L b' (reccnt (m_current_state st ! 0)) (m_current_state st)"
          "\<forall>i. 0 < i \<and> i < b' \<longrightarrow> \<not> can_reconstruct_with L i (reccnt (m_current_state st ! 0)) (m_current_state st)"
        using plan_no_room [OF False ne(2,1) plan(2)] by metis
      have "can_move data L st b'" by (rule down_plan_can_move [OF assms(1,2) False assms(4) plan p(4-6)])
      from run_merges_ok [OF assms(1) False assms(3) this p(2,3)] show ?thesis
        using p(1) False by (simp add: perform_merges_def)
    qed
    then show ?thesis using empty_level_room assms(4) by (fastforce simp: level_live_def)
  qed
qed

text \<open>The new contents of level 0.\<close>

lemma flush_level_ok:
  assumes "winv d" and "view_wf v" and "view_list v \<noteq> []" and "\<forall>w\<in>set (view_list v). adm w"
    and "level_ok sinv l0" and "level_live data l0" and "\<forall>w\<in>set (level_data data l0). adm w"
    and "L = LEVELING \<Longrightarrow> \<exists>r. net (view_list v) r \<noteq> 0"
    and "L = LEVELING \<Longrightarrow> length (m_shards l0) = 1" and "L \<noteq> LEVELING \<Longrightarrow> shard_cnt l0 < length (m_shards l0)"
  shows "\<exists>l d'. (if L = LEVELING
             then bindE (append_buffer S v (InternalLevel_new 0 1) d) (\<lambda>(temp_level, d1).
                  if shard_cnt l0 > 0 then level_reconstruction S l0 temp_level d1 else Inr (temp_level, d1))
             else append_buffer S v l0 d) = Inr (l, d') \<and>
    winv d' \<and> level_ok sinv l \<and> length (m_shards l) = length (m_shards l0) \<and>
    (\<forall>w\<in>set (level_data data l). adm w) \<and>
    (\<forall>r. net (level_data data l) r = net (level_data data l0) r + net (view_list v) r) \<and>
    length (level_data data l) \<le> length (level_data data l0) + length (view_list v) \<and>
    (L = LEVELING \<longrightarrow> level_shards l0 \<noteq> [] \<and> level_no l = level_no l0 \<or> level_no l = 0)"
proof (cases "L = LEVELING")
  case True
  obtain t d1 s where t: "append_buffer S v (InternalLevel_new 0 1) d = Inr (t, d1)" "winv d1" "level_ok sinv t"
      "length (m_shards t) = 1" "level_no t = 0" "level_shards t = [s]" "built_from (view_list v) (data s)"
    using append_buffer_ok [OF assms(1-3) level_ok_new(1) _ assms(4), of 0 1] by auto
  have td: "level_data data t = data s" using t(6) by (simp add: level_data_def)
  show ?thesis
  proof (cases "level_shards l0 = []")
    case True
    then have "shard_cnt l0 = 0" "level_data data l0 = []"
      using assms(5) level_wfD(2) [of l0] by (simp_all add: level_ok_def level_data_def)
    then show ?thesis
      using \<open>L = LEVELING\<close> t td assms(4,9) built_all_adm [OF t(7) assms(4)] by (auto simp: built_from_def)
  next
    case False
    have wf: "level_wf l0" using assms(5) by (simp add: level_ok_def)
    have one: "length (level_shards l0) = 1" "shard_cnt l0 > 0"
      using False assms(9) \<open>L = LEVELING\<close> level_wfD(2,4) [OF wf] by (auto simp: le_Suc_eq)
    obtain r where "net (view_list v) r \<noteq> 0" using assms(8) \<open>L = LEVELING\<close> by blast
    then have "data s \<noteq> []" using t(7) by (metis built_from_def net_Nil)
    then have live: "level_live data t" using t(6) by (simp add: level_live_def)
    have fl: "\<forall>w\<in>set (level_data data l0 @ level_data data t). adm w"
      using assms(7) built_all_adm [OF t(7) assms(4)] td by auto
    have no: "level_no t < level_no l0 \<or> level_no l0 = 0 \<and> level_no t = 0" using t(5) by auto
    have "length (level_shards t) = 1" using t(6) by simp
    from level_reconstruction_ok [OF t(2) assms(5) t(3) assms(6) live one(1) this no fl]
    obtain l d' where l: "level_reconstruction S l0 t d1 = Inr (l, d')" "winv d'" "level_ok sinv l"
        "length (m_shards l) = 1" "level_no l = level_no l0" "built_from (level_data data l0 @ level_data data t) (level_data data l)"
      by blast
    have "\<forall>w\<in>set (level_data data l). adm w"
      using built_adm [OF l(6) fl] by blast
    moreover have "\<forall>r. net (level_data data l) r = net (level_data data l0) r + net (view_list v) r"
        "length (level_data data l) \<le> length (level_data data l0) + length (view_list v)"
      using l(6) t(7) td by (simp_all add: net_append built_from_def)
    ultimately show ?thesis
      using \<open>L = LEVELING\<close> t(1) one False assms(9) l by simp
  qed
next
  case False
  then obtain l d' s where "append_buffer S v l0 d = Inr (l, d')" "winv d'" "level_ok sinv l"
      "length (m_shards l) = length (m_shards l0)" "level_shards l = level_shards l0 @ [s]" "built_from (view_list v) (data s)"
    using append_buffer_ok [OF assms(1-3,5) assms(10) assms(4)] by auto
  moreover from this have "level_data data l = level_data data l0 @ data s" by (simp add: level_data_def)
  ultimately show ?thesis
    using False assms(7) built_all_adm [OF _ assms(4), of "data s"] by (auto simp: built_from_def net_append)
qed

lemma nos_ok_update_0:
  assumes "nos_ok ls" and "level_shards (ls ! 0) \<noteq> [] \<and> level_no l = level_no (ls ! 0) \<or> level_no l = 0"
  shows "nos_ok (ls[0 := l])"
  unfolding nos_ok_def
proof (intro allI impI)
  fix i j assume ij: "j < length (ls[0 := l])" "i < j" "level_shards (ls[0 := l] ! i) \<noteq> []" "level_shards (ls[0 := l] ! j) \<noteq> []"
  have ok: "level_no (ls ! i) < level_no (ls ! j) \<or> level_no (ls ! i) = 0 \<and> level_no (ls ! j) = 0"
    if "level_shards (ls ! i) \<noteq> []" using assms(1) ij that unfolding nos_ok_def by auto
  show "level_no (ls[0 := l] ! i) < level_no (ls[0 := l] ! j) \<or> level_no (ls[0 := l] ! i) = 0 \<and> level_no (ls[0 := l] ! j) = 0"
  proof (cases "i = 0")
    case True
    have "ls[0 := l] ! 0 = l" using ij(1,2) by (cases ls) simp_all
    then show ?thesis using ok ij assms(2) True by auto
  qed (use ok ij in simp)
qed

lemma flush_into_l0_ok:
  assumes "struct_ok S data sinv L adm st" and "st_levels st \<noteq> []" and "winv d" and "view_wf v" and "view_list v \<noteq> []"
    and "\<forall>w\<in>set (view_list v). adm w" and "level_live data (st_levels st ! 0)"
    and "can_reconstruct_with L 0 (length (view_list v)) (m_current_state st)"
    and "L = LEVELING \<Longrightarrow> \<exists>r. net (view_list v) r \<noteq> 0"
  shows "\<exists>st' d'. flush_buffer_into_l0 S L v st d = Inr (st', d') \<and> winv d' \<and> struct_ok S data sinv L adm st' \<and>
    (\<forall>r. net (struct_data data st') r = net (struct_data data st) r + net (view_list v) r) \<and>
    m_flush_seq st' = m_flush_seq st \<and> m_buffer_size st' = m_buffer_size st \<and> m_scale_factor st' = m_scale_factor st"
proof -
  note base = struct_okD(1) [OF assms(1)]
  note b = struct_baseD [OF base]
  let ?l0 = "st_levels st ! 0"
  have n0: "0 < length (st_levels st)" using assms(2) by simp
  have l0: "level_ok sinv ?l0" "\<forall>w\<in>set (level_data data ?l0). adm w" "entry_ok S L st 0 ?l0 (m_current_state st ! 0)"
    using b(5-7) [OF n0] by blast+
  have wf0: "shard_cnt ?l0 = length (level_shards ?l0)" using l0(1) level_wfD(2) by (auto simp: level_ok_def)
  have room: "shard_cnt ?l0 < length (m_shards ?l0)" if "L \<noteq> LEVELING"
    using assms(8) l0(3) that n0 b(2) wf0 level_live_count [OF l0(1) assms(7)]
    by (cases L) (auto simp: can_reconstruct_with_def entry_ok_def actual_state_def)
  have slot: "length (m_shards ?l0) = 1" if "L = LEVELING" using l0(3) that by (simp add: entry_ok_def shard_capacity_def)
  from flush_level_ok [OF assms(3-6) l0(1) assms(7) l0(2) assms(9) slot room]
  obtain l d' where step: "(if L = LEVELING
             then bindE (append_buffer S v (InternalLevel_new 0 1) d) (\<lambda>(temp_level, d1).
                  if shard_cnt ?l0 > 0 then level_reconstruction S ?l0 temp_level d1 else Inr (temp_level, d1))
             else append_buffer S v ?l0 d) = Inr (l, d')"
    and l: "winv d'" "level_ok sinv l" "length (m_shards l) = length (m_shards ?l0)"
      "\<forall>w\<in>set (level_data data l). adm w"
      "\<forall>r. net (level_data data l) r = net (level_data data ?l0) r + net (view_list v) r"
      "length (level_data data l) \<le> length (level_data data ?l0) + length (view_list v)"
      "L = LEVELING \<longrightarrow> level_shards ?l0 \<noteq> [] \<and> level_no l = level_no ?l0 \<or> level_no l = 0" by blast
  let ?e = "(m_current_state st ! 0)\<lparr>reccnt := level_record_count S l, shardcnt := shard_cnt l\<rparr>"
  define st' where "st' = st\<lparr>m_levels := map Some ((st_levels st)[0 := l]), m_current_state := (m_current_state st)[0 := ?e]\<rparr>"
  have e: "entry_ok S L st 0 l ?e" using l0(3) l(3) by (auto simp: entry_ok_def actual_state_def split: if_splits)
  note u = struct_base_update [OF base n0 l(2) e l(4) st'_def]
  have "nos_ok (st_levels st')" "level_record_count S (st_levels st' ! 0) \<le> calc_level_record_capacity st' 0" if "L = LEVELING"
  proof -
    show "nos_ok (st_levels st')" unfolding u(2) using nos_ok_update_0 [OF struct_okD(2) [OF assms(1) that]] l(7) that by blast
    have "level_record_count S ?l0 + length (view_list v) \<le> calc_level_record_capacity st 0"
      using assms(8) l0(3) that n0 by (simp add: can_reconstruct_with_def entry_ok_def actual_state_def split: if_splits)
    moreover have "st_levels st' ! 0 = l" using u(2) n0 by simp
    moreover have "calc_level_record_capacity st' 0 = calc_level_record_capacity st 0" by (simp add: st'_def)
    ultimately show "level_record_count S (st_levels st' ! 0) \<le> calc_level_record_capacity st' 0"
      using l(2,6) l0(1) by (simp add: level_count)
  qed
  then have "struct_ok S data sinv L adm st'" using u(1) by (simp add: struct_ok_def)
  moreover have "m_levels st \<noteq> []" "(m_levels st)[0 := Some l] = map Some ((st_levels st)[0 := l])"
    using b(1) assms(2) by (metis map_is_Nil_conv, metis map_update)
  then have "flush_buffer_into_l0 S L v st d = Inr (st', d')"
    unfolding flush_buffer_into_l0_def Let_def
    using step level_at_ok [OF b(1) n0] n0 b(2) by (simp add: st'_def)
  ultimately show ?thesis using l(1,5) u(3) by (auto simp: st'_def)
qed

lemma flush_buffer_ok:
  assumes "struct_ok S data sinv L adm st" and "winv d" and "view_wf v" and "view_list v \<noteq> []"
    and "\<forall>w\<in>set (view_list v). adm w" and "length (view_list v) \<le> m_buffer_size st"
    and "L = LEVELING \<Longrightarrow> \<exists>r. net (view_list v) r \<noteq> 0"
    and "st_levels st \<noteq> [] \<Longrightarrow> level_live data (st_levels st ! 0) \<and>
      can_reconstruct_with L 0 (length (view_list v)) (m_current_state st)"
  shows "\<exists>st' d'. flush_buffer S J L v st d = Inr (st', d') \<and> winv d' \<and> struct_ok S data sinv L adm st' \<and>
    (\<forall>r. net (struct_data data st') r = net (struct_data data st) r + net (view_list v) r) \<and>
    m_flush_seq st' = Suc (m_flush_seq st) \<and> m_buffer_size st' = m_buffer_size st \<and> m_scale_factor st' = m_scale_factor st"
proof -
  note b = struct_baseD [OF struct_okD(1) [OF assms(1)]]
  have cnt: "view_record_count v = length (view_list v)" using assms(3) by simp
  have cap: "length (view_list v) \<le> calc_level_record_capacity st 0"
    using assms(6) capacity_mono(2) [OF b(4)] by (rule le_trans)
  have "\<exists>st1. struct_ok S data sinv L adm st1 \<and> st_levels st1 \<noteq> [] \<and> level_live data (st_levels st1 ! 0) \<and>
      can_reconstruct_with L 0 (length (view_list v)) (m_current_state st1) \<and>
      can_reconstruct_with L 0 (length (view_list v)) (if m_current_state st = [] then snd (grow L st []) else m_current_state st) \<and>
      struct_data data st1 = struct_data data st \<and> flush_buffer_into_l0 S L v st d = flush_buffer_into_l0 S L v st1 d \<and>
      m_flush_seq st1 = m_flush_seq st \<and> m_buffer_size st1 = m_buffer_size st \<and> m_scale_factor st1 = m_scale_factor st"
  proof (cases "st_levels st = []")
    case True
    have e: "m_levels st = []" "m_current_state st = []" using b(1,2) True by simp_all
    define st1 where "st1 = st\<lparr>m_levels := map Some (st_levels st @ [InternalLevel_new 0 (shard_capacity L st)]),
            m_current_state := m_current_state st @ [empty_state st 0 (shard_capacity L st)]\<rparr>"
    have "0 = length (st_levels st)" using True by simp
    note g = struct_ok_grow [OF assms(1) this st1_def]
    have "level_live data (st_levels st1 ! 0)" "st_levels st1 \<noteq> []" using g(2) True by simp_all
    moreover have "can_reconstruct_with L 0 (length (view_list v)) [empty_state st 0 (shard_capacity L st)]"
      using cap b(4) by (cases L) (simp_all add: can_reconstruct_with_def empty_state_def shard_capacity_def)
    moreover have "snd (grow L st []) = [empty_state st 0 (shard_capacity L st)]"
      using e by (simp add: grow_def Let_def empty_state_def)
    moreover have "flush_buffer_into_l0 S L v st d = flush_buffer_into_l0 S L v st1 d"
      using e True unfolding flush_buffer_into_l0_def Let_def by (simp add: st1_def)
    ultimately show ?thesis using g e by (intro exI [of _ st1]) (simp add: st1_def)
  next
    case False
    then have "m_current_state st \<noteq> []" using b(2) by auto
    then show ?thesis using False assms(1,8) by (intro exI [of _ st]) simp
  qed
  then obtain st1 where st1: "struct_ok S data sinv L adm st1" "st_levels st1 \<noteq> []" "level_live data (st_levels st1 ! 0)"
      "can_reconstruct_with L 0 (length (view_list v)) (m_current_state st1)"
      "can_reconstruct_with L 0 (length (view_list v)) (if m_current_state st = [] then snd (grow L st []) else m_current_state st)"
      "struct_data data st1 = struct_data data st" "flush_buffer_into_l0 S L v st d = flush_buffer_into_l0 S L v st1 d"
      "m_flush_seq st1 = m_flush_seq st" "m_buffer_size st1 = m_buffer_size st" "m_scale_factor st1 = m_scale_factor st"
    by blast
  from flush_into_l0_ok [OF st1(1,2) assms(2-5) st1(3,4) assms(7)]
  obtain st2 d2 where st2: "flush_buffer_into_l0 S L v st1 d = Inr (st2, d2)" "winv d2" "struct_ok S data sinv L adm st2"
      "\<forall>r. net (struct_data data st2) r = net (struct_data data st1) r + net (view_list v) r"
      "m_flush_seq st2 = m_flush_seq st1" "m_buffer_size st2 = m_buffer_size st1" "m_scale_factor st2 = m_scale_factor st1"
    by blast
  let ?st = "st2\<lparr>m_flush_seq := m_flush_seq st2 + 1\<rparr>"
  have ok: "struct_ok S data sinv L adm ?st" using st2(3) by (simp add: struct_ok_def struct_base_def)
  have "\<forall>l\<in>set (st_levels st2). level_wf l"
    using struct_base_in(1) [OF struct_okD(1) [OF st2(3)]] by (auto simp: level_ok_def)
  then obtain c where "save_checkpoint S J (m_levels st2) (m_flush_seq ?st) d2 = Inr (d2\<lparr>ckpt_file := Some c\<rparr>)"
    using save_checkpoint_ok struct_baseD(1) [OF struct_okD(1) [OF st2(3)]] by metis
  then have "flush_buffer S J L v st d = Inr (?st, d2\<lparr>ckpt_file := Some c\<rparr>)"
    unfolding flush_buffer_def Let_def cnt using st1(5,7) st2(1) by simp
  moreover have "struct_data data ?st = struct_data data st2" by (simp add: struct_data_def)
  ultimately show ?thesis using ok st1 st2 winv_ckpt by auto
qed

end

end
