(* ===== verification/DE_Epoch.thy ===== *)
theory DE_Epoch
  imports DE_Buffer DE_Rebuild
begin

text \<open>
  Epochs (\<^verbatim>\<open>include/framework/scheduling/Epoch.h\<close>) and the serial scheduler
  (\<^verbatim>\<open>include/framework/scheduling/SerialScheduler.h\<close>). An epoch is one version of the structure
  together with the index at which its part of the buffer begins. A structure belongs to one
  epoch, so it is kept inside it; the buffer is shared by all epochs and passed along.
\<close>

section \<open>Epochs\<close>

record 's Epoch =
  m_structure :: "'s ExtensionStructure option"
  m_active_merge :: bool
  m_epoch_number :: nat
  m_buffer_head :: nat

definition Epoch_blank :: "nat \<Rightarrow> 's Epoch" where
  "Epoch_blank number = \<lparr>m_structure = None, m_active_merge = False, m_epoch_number = number, m_buffer_head = 0\<rparr>"

definition Epoch_new :: "nat \<Rightarrow> 's ExtensionStructure \<Rightarrow> nat \<Rightarrow> 's Epoch" where
  "Epoch_new number structure head =
     \<lparr>m_structure = Some (take_reference structure), m_active_merge = False, m_epoch_number = number,
      m_buffer_head = head\<rparr>"

text \<open>
  The destructor drops the epoch's reference; the structure goes with it when that was the last
  one. Without a structure it dereferences a null pointer.
\<close>

definition Epoch_destroy :: "'s Epoch \<Rightarrow> 's ExtensionStructure option res" where
  "Epoch_destroy e =
     bindE (deref (m_structure e)) (\<lambda>st.
     bindE (release_reference st) (\<lambda>st'.
     Inr (if m_refcnt st' = 0 then None else Some st')))"

definition get_structure :: "'s Epoch \<Rightarrow> 's ExtensionStructure res" where
  "get_structure e = deref (m_structure e)"

definition epoch_get_buffer ::
    "'s Epoch \<Rightarrow> ('r, 'f) MutableBuffer \<Rightarrow> (('r, 'f) BufferView \<times> ('r, 'f) MutableBuffer) res" where
  "epoch_get_buffer e b = get_buffer_view_at (m_buffer_head e) b"

definition epoch_clone :: "nat \<Rightarrow> 's Epoch \<Rightarrow> 's Epoch res" where
  "epoch_clone number e =
     (let epoch = (Epoch_blank number)\<lparr>m_buffer_head := m_buffer_head e\<rparr> in
      case m_structure e of
        None \<Rightarrow> Inr epoch
      | Some st \<Rightarrow> bindE (copy st) (\<lambda>st'. Inr (epoch\<lparr>m_structure := Some (take_reference st')\<rparr>)))"

definition prepare_reconstruction :: "'s Epoch \<Rightarrow> bool \<times> 's Epoch" where
  "prepare_reconstruction e = (if m_active_merge e then (False, e) else (True, e\<lparr>m_active_merge := True\<rparr>))"

definition advance_buffer_head ::
    "nat \<Rightarrow> 's Epoch \<Rightarrow> ('r::zero, 'f) MutableBuffer \<Rightarrow> (bool \<times> 's Epoch \<times> ('r, 'f) MutableBuffer) res" where
  "advance_buffer_head head e b =
     (let e' = e\<lparr>m_buffer_head := head\<rparr> in
      bindE (advance_head (m_buffer_head e') b) (\<lambda>(ok, b'). Inr (ok, e', b')))"

section \<open>The serial scheduler\<close>

text \<open>
  \<^verbatim>\<open>schedule_job\<close> numbers the job and runs it at once. Tasks and the statistics, which only time
  jobs, are in \<open>DE_Scheduler\<close>. A job works on the state that contains the scheduler, so
  the counter is advanced before the job starts.
\<close>

record SerialScheduler =
  m_memory_budget :: nat
  m_thrd_cnt :: nat
  m_counter :: nat

definition SerialScheduler_new :: "nat \<Rightarrow> nat \<Rightarrow> SerialScheduler" where
  "SerialScheduler_new memory_budget thread_cnt =
     \<lparr>m_memory_budget = (if memory_budget \<noteq> 0 then memory_budget else size_max - 1),
      m_thrd_cnt = (if thread_cnt \<noteq> 0 then thread_cnt else size_max - 1), m_counter = 0\<rparr>"

definition next_job :: "SerialScheduler \<Rightarrow> SerialScheduler" where
  "next_job s = s\<lparr>m_counter := sz_add (m_counter s) 1\<rparr>"

section \<open>Facts\<close>

text \<open>A structure at rest is copied exactly, but for its references.\<close>

lemma copy_ok:
  assumes "struct_base S data sinv L adm st"
  shows "copy st = Inr (st\<lparr>m_refcnt := 0\<rparr>)"
proof -
  have "mapE (\<lambda>lv. bindE (deref lv) (\<lambda>l. Inr (Some (level_clone l)))) (map Some ls) = Inr (map Some ls)"
    if "\<forall>l\<in>set ls. level_wf l" for ls :: "'a InternalLevel list"
    using that by (induction ls) (simp_all add: level_clone_wf)
  moreover have "\<forall>l\<in>set (st_levels st). level_wf l"
    using struct_baseD(5) [OF assms] by (auto simp: in_set_conv_nth level_ok_def)
  ultimately have "mapE (\<lambda>lv. bindE (deref lv) (\<lambda>l. Inr (Some (level_clone l)))) (m_levels st) = Inr (m_levels st)"
    by (metis struct_baseD(1) [OF assms])
  then show ?thesis by (simp add: copy_def empty_structure_def)
qed

lemma epoch_clone_ok:
  assumes "m_structure e = Some st" and "struct_base S data sinv L adm st"
  shows "epoch_clone n e = Inr \<lparr>m_structure = Some (st\<lparr>m_refcnt := 1\<rparr>), m_active_merge = False, m_epoch_number = n,
      m_buffer_head = m_buffer_head e\<rparr>"
  using assms(1) by (simp add: epoch_clone_def copy_ok [OF assms(2)] Let_def Epoch_blank_def take_reference_def size_max_def)

end
