(* ===== verification/DE_Extension.thy ===== *)
theory DE_Extension
  imports DE_Epoch
begin

text \<open>
  The index itself (\<^verbatim>\<open>include/framework/DynamicExtension.h\<close>) with the serial scheduler: inserts go
  to the buffer; when it reaches its low watermark a new epoch is created from the current one,
  room is made in it, the buffer is flushed into it, and it becomes the current one. Pointers to
  epochs are their numbers, which are never reused; dereferencing one whose epoch is gone fails.
  A loop that only another thread could end is \<open>Blocked\<close>.
\<close>

section \<open>The state\<close>

record 's epoch_ptr =
  ep_epoch :: "'s Epoch option"
  ep_refcnt :: nat

abbreviation null_epoch :: "'s epoch_ptr" where
  "null_epoch \<equiv> \<lparr>ep_epoch = None, ep_refcnt = 0\<rparr>"

record ('s, 'r, 'f) DynamicExtension =
  de_scale_factor :: nat
  de_max_delete_prop :: rat
  m_sched :: SerialScheduler
  m_buffer :: "('r, 'f) MutableBuffer"
  m_epoch_cnt :: nat
  m_reconstruction_scheduled :: bool
  m_next_epoch :: "'s epoch_ptr"
  m_current_epoch :: "'s epoch_ptr"
  m_previous_epoch :: "'s epoch_ptr"

definition points_to :: "nat \<Rightarrow> 's epoch_ptr \<Rightarrow> bool" where
  "points_to n p \<longleftrightarrow> (case ep_epoch p of None \<Rightarrow> False | Some e \<Rightarrow> m_epoch_number e = n)"

definition epoch_deref :: "nat \<Rightarrow> ('s, 'r, 'f) DynamicExtension \<Rightarrow> 's Epoch res" where
  "epoch_deref n x =
     (if points_to n (m_next_epoch x) then deref (ep_epoch (m_next_epoch x))
      else if points_to n (m_current_epoch x) then deref (ep_epoch (m_current_epoch x))
      else if points_to n (m_previous_epoch x) then deref (ep_epoch (m_previous_epoch x))
      else Inl NullDeref)"

text \<open>A write through a pointer to an epoch.\<close>

definition put_in :: "'s Epoch \<Rightarrow> 's epoch_ptr \<Rightarrow> 's epoch_ptr" where
  "put_in e p = (if points_to (m_epoch_number e) p then p\<lparr>ep_epoch := Some e\<rparr> else p)"

definition put_epoch :: "'s Epoch \<Rightarrow> ('s, 'r, 'f) DynamicExtension \<Rightarrow> ('s, 'r, 'f) DynamicExtension" where
  "put_epoch e x =
     x\<lparr>m_next_epoch := put_in e (m_next_epoch x), m_current_epoch := put_in e (m_current_epoch x),
       m_previous_epoch := put_in e (m_previous_epoch x)\<rparr>"

section \<open>References on epochs\<close>

definition get_active_epoch :: "('s, 'r, 'f) DynamicExtension \<Rightarrow> ('s Epoch \<times> ('s, 'r, 'f) DynamicExtension) res" where
  "get_active_epoch x =
     (case ep_epoch (m_current_epoch x) of
        None \<Rightarrow>
          (case ep_epoch (m_previous_epoch x) of
             None \<Rightarrow> Inl Blocked
           | Some e \<Rightarrow>
               (let n = sz_add (ep_refcnt (m_previous_epoch x)) 1 in
                assertE (n > 0) (Inr (e, x\<lparr>m_previous_epoch := \<lparr>ep_epoch = Some e, ep_refcnt = n\<rparr>\<rparr>))))
      | Some e \<Rightarrow>
          (let n = sz_add (ep_refcnt (m_current_epoch x)) 1 in
           assertE (n > 0) (Inr (e, x\<lparr>m_current_epoch := \<lparr>ep_epoch = Some e, ep_refcnt = n\<rparr>\<rparr>))))"

definition end_job :: "nat \<Rightarrow> ('s, 'r, 'f) DynamicExtension \<Rightarrow> ('s, 'r, 'f) DynamicExtension res" where
  "end_job n x =
     (if points_to n (m_previous_epoch x) then
        (let p = m_previous_epoch x in
         assertE (ep_refcnt p > 0) (Inr (x\<lparr>m_previous_epoch := p\<lparr>ep_refcnt := ep_refcnt p - 1\<rparr>\<rparr>)))
      else
        (let p = m_current_epoch x in
         if ep_epoch p = None then Inl Blocked
         else assertE (ep_refcnt p > 0) (Inr (x\<lparr>m_current_epoch := p\<lparr>ep_refcnt := ep_refcnt p - 1\<rparr>\<rparr>))))"

section \<open>Epoch transitions\<close>

definition create_new_epoch :: "('s, 'r, 'f) DynamicExtension \<Rightarrow> (nat \<times> ('s, 'r, 'f) DynamicExtension) res" where
  "create_new_epoch x =
     assertE (ep_epoch (m_next_epoch x) = None)
       (bindE (get_active_epoch x) (\<lambda>(cur, x1).
        let x2 = x1\<lparr>m_epoch_cnt := sz_add (m_epoch_cnt x1) 1\<rparr> in
        bindE (epoch_clone (m_epoch_cnt x2) cur) (\<lambda>e.
        let x3 = x2\<lparr>m_next_epoch := \<lparr>ep_epoch = Some e, ep_refcnt = 0\<rparr>\<rparr> in
        bindE (end_job (m_epoch_number cur) x3) (\<lambda>x4.
        Inr (m_epoch_number e, x4)))))"

definition retire_epoch :: "nat option \<Rightarrow> ('s, 'r, 'f) DynamicExtension \<Rightarrow> ('s, 'r, 'f) DynamicExtension res" where
  "retire_epoch epoch x =
     (case epoch of
        None \<Rightarrow> Inr x
      | Some n \<Rightarrow>
          (let old = m_previous_epoch x in
           if points_to n old then
             assertE (ep_refcnt old = 0)
               (bindE (deref (ep_epoch old)) (\<lambda>e.
                bindE (Epoch_destroy e) (\<lambda>_.
                Inr (x\<lparr>m_previous_epoch := null_epoch\<rparr>))))
           else Inl Blocked))"

definition advance_epoch :: "nat \<Rightarrow> ('s, 'r::zero, 'f) DynamicExtension \<Rightarrow> ('s, 'r, 'f) DynamicExtension res" where
  "advance_epoch new_head x =
     bindE (retire_epoch (map_option m_epoch_number (ep_epoch (m_previous_epoch x))) x) (\<lambda>x1.
     let cur = m_current_epoch x1;
         x2 = x1\<lparr>m_current_epoch := null_epoch, m_previous_epoch := cur\<rparr> in
     bindE (deref (ep_epoch (m_next_epoch x2))) (\<lambda>e.
     bindE (advance_buffer_head new_head e (m_buffer x2)) (\<lambda>(ok, e', b).
     if \<not> ok then Inl Blocked
     else
       let nxt = (m_next_epoch x2)\<lparr>ep_epoch := Some e'\<rparr> in
       Inr (x2\<lparr>m_buffer := b, m_current_epoch := nxt, m_next_epoch := null_epoch\<rparr>))))"

definition await_next_epoch :: "('s, 'r, 'f) DynamicExtension \<Rightarrow> ('s, 'r, 'f) DynamicExtension res" where
  "await_next_epoch x = (if ep_epoch (m_next_epoch x) \<noteq> None then Inl Blocked else Inr x)"

section \<open>Flushing\<close>

text \<open>
  The reconstruction job for the epoch \<open>n\<close>: carry out the planned merges, take the whole buffer,
  and, unless this is a compaction, flush it and make the epoch the current one. The view is
  moved into the flush and released when that returns.
\<close>

definition reconstruction_job ::
    "('s, 'r::zero, 'f, 'p disk) shard_ops \<Rightarrow> json_ops \<Rightarrow> LayoutPolicy \<Rightarrow> nat \<Rightarrow> ReconstructionVector \<Rightarrow> bool \<Rightarrow>
     ('s, 'r, 'f) DynamicExtension \<Rightarrow> 'p disk \<Rightarrow> (('s, 'r, 'f) DynamicExtension \<times> 'p disk) res" where
  "reconstruction_job S J L n merges compaction x d =
     bindE (epoch_deref n x) (\<lambda>e.
     bindE (get_structure e) (\<lambda>vers.
     bindE (perform_merges S J L merges vers d) (\<lambda>(st1, d1).
     let e1 = e\<lparr>m_structure := Some st1\<rparr> in
     bindE (epoch_get_buffer e1 (m_buffer x)) (\<lambda>(view, b1).
     let new_head = v_tail view in
     if compaction then
       bindE (view_destroy view b1) (\<lambda>b2.
       Inr ((put_epoch e1 x)\<lparr>m_buffer := b2, m_reconstruction_scheduled := False\<rparr>, d1))
     else
       bindE (flush_buffer S J L view st1 d1) (\<lambda>(st2, d2).
       bindE (view_destroy view b1) (\<lambda>b2.
       bindE (advance_epoch new_head ((put_epoch (e1\<lparr>m_structure := Some st2\<rparr>) x)\<lparr>m_buffer := b2\<rparr>)) (\<lambda>x1.
       Inr (x1\<lparr>m_reconstruction_scheduled := False\<rparr>, d2))))))))"

definition schedule_reconstruction ::
    "('s, 'r::zero, 'f, 'p disk) shard_ops \<Rightarrow> json_ops \<Rightarrow> LayoutPolicy \<Rightarrow> nat \<Rightarrow>
     ('s, 'r, 'f) DynamicExtension \<Rightarrow> 'p disk \<Rightarrow> (('s, 'r, 'f) DynamicExtension \<times> 'p disk) res" where
  "schedule_reconstruction S J L junk x d =
     bindE (create_new_epoch x) (\<lambda>(n, x1).
     bindE (epoch_deref n x1) (\<lambda>e.
     bindE (get_structure e) (\<lambda>st.
     bindE (get_reconstruction_tasks L junk st (m_hwm (m_buffer x1))) (\<lambda>(merges, _).
     reconstruction_job S J L n merges False (x1\<lparr>m_sched := next_job (m_sched x1)\<rparr>) d))))"

section \<open>Inserts and deletes\<close>

definition internal_append ::
    "('s, 'r::zero, 'f, 'p disk) shard_ops \<Rightarrow> json_ops \<Rightarrow> ('f, 'r) bloom_ops \<Rightarrow> LayoutPolicy \<Rightarrow> nat \<Rightarrow> 'r \<Rightarrow> bool \<Rightarrow> bool \<Rightarrow>
     ('s, 'r, 'f) DynamicExtension \<Rightarrow> 'p disk \<Rightarrow> (nat \<times> ('s, 'r, 'f) DynamicExtension \<times> 'p disk) res" where
  "internal_append S J B L junk r ts logging x d =
     bindE (if is_at_low_watermark (m_buffer x) \<and> \<not> m_reconstruction_scheduled x
            then schedule_reconstruction S J L junk (x\<lparr>m_reconstruction_scheduled := True\<rparr>) d
            else Inr (x, d)) (\<lambda>(x1, d1).
     let (n, b) = buffer_append B r ts logging (m_buffer x1) in
     Inr (n, x1\<lparr>m_buffer := b\<rparr>, d1))"

definition de_insert ::
    "('s, 'r::zero, 'f, 'p disk) shard_ops \<Rightarrow> json_ops \<Rightarrow> ('f, 'r) bloom_ops \<Rightarrow> LayoutPolicy \<Rightarrow> nat \<Rightarrow> 'r \<Rightarrow> bool \<Rightarrow>
     ('s, 'r, 'f) DynamicExtension \<Rightarrow> 'p disk \<Rightarrow> (nat \<times> ('s, 'r, 'f) DynamicExtension \<times> 'p disk) res" where
  "de_insert S J B L junk r logging x d = internal_append S J B L junk r False logging x d"

text \<open>
  \<^verbatim>\<open>erase\<close>. When tagging, the structure is searched first, then the buffer through a view that is
  held meanwhile; \<open>has_buffer\<close> says whether the caller passed a page buffer.
\<close>

definition tagged_erase ::
    "('s, 'r::zero, 'f, 'p disk) shard_ops \<Rightarrow> 'r \<Rightarrow> bool \<Rightarrow> ('s, 'r, 'f) DynamicExtension \<Rightarrow>
     (nat \<times> ('s, 'r, 'f) DynamicExtension) res" where
  "tagged_erase S r has_buffer x =
     bindE (get_buffer_view (m_buffer x)) (\<lambda>(view, b1).
     bindE (get_active_epoch (x\<lparr>m_buffer := b1\<rparr>)) (\<lambda>(e, x1).
     bindE (get_structure e) (\<lambda>st.
     bindE (tagged_delete S r has_buffer st) (\<lambda>(found, st').
     bindE (end_job (m_epoch_number e) (put_epoch (e\<lparr>m_structure := Some st'\<rparr>) x1)) (\<lambda>x2.
     if found \<noteq> 0 then
       bindE (view_destroy view (m_buffer x2)) (\<lambda>b2. Inr (1, x2\<lparr>m_buffer := b2\<rparr>))
     else
       let (deleted, view') = view_delete_record r view in
       bindE (view_destroy view' (view_writeback view' (m_buffer x2))) (\<lambda>b2.
       Inr (if deleted then 1 else 0, x2\<lparr>m_buffer := b2\<rparr>)))))))"

definition de_erase ::
    "('s, 'r::zero, 'f, 'p disk) shard_ops \<Rightarrow> json_ops \<Rightarrow> ('f, 'r) bloom_ops \<Rightarrow> LayoutPolicy \<Rightarrow> DeletePolicy \<Rightarrow> nat \<Rightarrow> 'r \<Rightarrow>
     bool \<Rightarrow> bool \<Rightarrow> ('s, 'r, 'f) DynamicExtension \<Rightarrow> 'p disk \<Rightarrow> (nat \<times> ('s, 'r, 'f) DynamicExtension \<times> 'p disk) res" where
  "de_erase S J B L D junk r has_buffer logging x d =
     (if D = TAGGING then bindE (tagged_erase S r has_buffer x) (\<lambda>(n, x'). Inr (n, x', d))
      else internal_append S J B L junk r True logging x d)"

section \<open>Counts\<close>

text \<open>
  The accessors take the active epoch, compute, and give it back; the view an accessor takes of
  the epoch's part of the buffer is released at the end of the expression.
\<close>

definition with_epoch ::
    "('s Epoch \<Rightarrow> ('s, 'r, 'f) DynamicExtension \<Rightarrow> ('a \<times> ('s, 'r, 'f) DynamicExtension) res) \<Rightarrow>
     ('s, 'r, 'f) DynamicExtension \<Rightarrow> ('a \<times> ('s, 'r, 'f) DynamicExtension) res" where
  "with_epoch f x =
     bindE (get_active_epoch x) (\<lambda>(e, x1).
     bindE (f e x1) (\<lambda>(t, x2).
     bindE (end_job (m_epoch_number e) x2) (\<lambda>x3. Inr (t, x3))))"

definition on_view ::
    "(('r, 'f) BufferView \<Rightarrow> 'a) \<Rightarrow> 's Epoch \<Rightarrow> ('s, 'r, 'f) DynamicExtension \<Rightarrow> ('a \<times> ('s, 'r, 'f) DynamicExtension) res" where
  "on_view f e x =
     bindE (epoch_get_buffer e (m_buffer x)) (\<lambda>(v, b1).
     bindE (view_destroy v b1) (\<lambda>b2. Inr (f v, x\<lparr>m_buffer := b2\<rparr>)))"

definition on_structure ::
    "('s ExtensionStructure \<Rightarrow> 'a res) \<Rightarrow> 's Epoch \<Rightarrow> ('s, 'r, 'f) DynamicExtension \<Rightarrow> ('a \<times> ('s, 'r, 'f) DynamicExtension) res" where
  "on_structure f e x = bindE (get_structure e) (\<lambda>st. bindE (f st) (\<lambda>t. Inr (t, x)))"

definition de_flush_seq :: "('s, 'r, 'f) DynamicExtension \<Rightarrow> (nat \<times> ('s, 'r, 'f) DynamicExtension) res" where
  "de_flush_seq = with_epoch (on_structure (\<lambda>st. Inr (m_flush_seq st)))"

definition de_record_count ::
    "('s, 'r, 'f, 'w) shard_ops \<Rightarrow> ('s, 'r, 'f) DynamicExtension \<Rightarrow> (nat \<times> ('s, 'r, 'f) DynamicExtension) res" where
  "de_record_count S =
     with_epoch (\<lambda>e x1. bindE (on_view view_record_count e x1) (\<lambda>(n, x2).
       bindE (get_structure e) (\<lambda>st. Inr (sz_add n (struct_record_count S st), x2))))"

definition de_tombstone_count ::
    "('s, 'r, 'f, 'w) shard_ops \<Rightarrow> ('s, 'r, 'f) DynamicExtension \<Rightarrow> (nat \<times> ('s, 'r, 'f) DynamicExtension) res" where
  "de_tombstone_count S =
     with_epoch (\<lambda>e x1. bindE (on_view view_tombstone_count e x1) (\<lambda>(n, x2).
       bindE (get_structure e) (\<lambda>st. Inr (sz_add n (struct_tombstone_count S st), x2))))"

definition de_height :: "('s, 'r, 'f) DynamicExtension \<Rightarrow> (nat \<times> ('s, 'r, 'f) DynamicExtension) res" where
  "de_height = with_epoch (on_structure (\<lambda>st. Inr (get_height st)))"

definition de_aux_memory_usage ::
    "('s, 'r, 'f, 'w) shard_ops \<Rightarrow> ('s, 'r, 'f) DynamicExtension \<Rightarrow> (nat \<times> ('s, 'r, 'f) DynamicExtension) res" where
  "de_aux_memory_usage S = with_epoch (on_structure (\<lambda>st. Inr (struct_aux_memory_usage S st)))"

definition de_validate_tombstone_proportion ::
    "('s, 'r, 'f, 'w) shard_ops \<Rightarrow> ('s, 'r, 'f) DynamicExtension \<Rightarrow> (bool \<times> ('s, 'r, 'f) DynamicExtension) res" where
  "de_validate_tombstone_proportion S = with_epoch (on_structure (\<lambda>st. Inr (validate_tombstone_proportion S st)))"

section \<open>A static copy\<close>

text \<open>The levels from the bottom up, each combined into one shard, then a shard of the buffer.\<close>

fun combine_levels ::
    "('s, 'r, 'f, 'w) shard_ops \<Rightarrow> 's InternalLevel option list \<Rightarrow> 'w \<Rightarrow> ('s option list \<times> 'w) res" where
  "combine_levels S [] w = Inr ([], w)"
| "combine_levels S (None # ls) w = combine_levels S ls w"
| "combine_levels S (Some l # ls) w =
     (if level_record_count S l > 0 then
        bindE (get_combined_shard S l w) (\<lambda>(s, w1).
        bindE (combine_levels S ls w1) (\<lambda>(ss, w2). Inr (s # ss, w2)))
      else combine_levels S ls w)"

definition create_static_structure ::
    "('s, 'r, 'f, 'w) shard_ops \<Rightarrow> bool \<Rightarrow> ('s, 'r, 'f) DynamicExtension \<Rightarrow> 'w \<Rightarrow>
     (('s \<times> 'w) \<times> ('s, 'r, 'f) DynamicExtension) res" where
  "create_static_structure S await x w =
     bindE (if await then await_next_epoch x else Inr x) (\<lambda>x0.
     with_epoch (\<lambda>e x1.
       bindE (get_structure e) (\<lambda>vers.
       bindE (combine_levels S (rev (m_levels vers)) w) (\<lambda>(shards, w1).
       bindE (epoch_get_buffer e (m_buffer x1)) (\<lambda>(bv, b1).
       bindE (if view_record_count bv > 0
              then bindE (sh_of_view S bv w1) (\<lambda>(s, w2). Inr (shards @ [Some s], w2))
              else Inr (shards, w1)) (\<lambda>(shards', w3).
       bindE (view_destroy bv b1) (\<lambda>b2.
       bindE (sh_of_shards S shards' w3) (\<lambda>(flattened, w4).
       Inr ((flattened, w4), x1\<lparr>m_buffer := b2\<rparr>)))))))) x0)"

section \<open>Construction and destruction\<close>

definition DynamicExtension_new ::
    "('s, 'r::zero, 'f, 'p disk) shard_ops \<Rightarrow> json_ops \<Rightarrow> ('f, 'r) bloom_ops \<Rightarrow> 'f \<Rightarrow> LayoutPolicy \<Rightarrow> nat \<Rightarrow> nat \<Rightarrow> nat \<Rightarrow> nat \<Rightarrow> nat \<Rightarrow>
     bool \<Rightarrow> bool \<Rightarrow> 'r wal_file option \<Rightarrow> 'p disk \<Rightarrow> (('s, 'r, 'f) DynamicExtension \<times> 'p disk) res" where
  "DynamicExtension_new S J B bf0 L lwm hwm scale_factor memory_budget thread_cnt skip_checkpoint use_wal wal d =
     bindE (MutableBuffer_new B bf0 lwm hwm 0 use_wal wal) (\<lambda>b.
     assertE (L = BSM \<longrightarrow> scale_factor = 2)
       (bindE (ExtensionStructure_new S J L hwm scale_factor 1 skip_checkpoint d) (\<lambda>(vers, d1).
        Inr (\<lparr>de_scale_factor = scale_factor, de_max_delete_prop = 1,
              m_sched = SerialScheduler_new memory_budget thread_cnt, m_buffer = b, m_epoch_cnt = 0,
              m_reconstruction_scheduled = False, m_next_epoch = null_epoch,
              m_current_epoch = \<lparr>ep_epoch = Some (Epoch_new 0 vers 0), ep_refcnt = 0\<rparr>,
              m_previous_epoch = null_epoch\<rparr>, d1))))"

definition delete_ptr :: "'s epoch_ptr \<Rightarrow> unit res" where
  "delete_ptr p = (case ep_epoch p of None \<Rightarrow> Inr () | Some e \<Rightarrow> bindE (Epoch_destroy e) (\<lambda>_. Inr ()))"

definition DynamicExtension_destroy :: "('s, 'r, 'f) DynamicExtension \<Rightarrow> unit res" where
  "DynamicExtension_destroy x =
     bindE (await_next_epoch x) (\<lambda>x'.
     bindE (delete_ptr (m_next_epoch x')) (\<lambda>_.
     bindE (delete_ptr (m_current_epoch x')) (\<lambda>_.
     delete_ptr (m_previous_epoch x'))))"

end
