(* ===== verification/DE_Index.thy ===== *)
theory DE_Index
  imports DE_Extension
begin

text \<open>
  The index as a bag of records: the state between two calls, and that inserts, tombstones and
  the flushes they trigger keep it and change the bag by exactly one record. The proofs compose
  the buffer (\<open>DE_Buffer\<close>), the epochs (\<open>DE_Epoch\<close>) and the structure (\<open>DE_Rebuild\<close>) and hold for
  every shard type that satisfies the interface, and every layout policy.
\<close>

section \<open>The state between two calls\<close>

definition cur_struct :: "('s, 'r, 'f) DynamicExtension \<Rightarrow> 's ExtensionStructure" where
  "cur_struct x = the (m_structure (the (ep_epoch (m_current_epoch x))))"

text \<open>
  Between calls there is a current epoch and no next one, nobody holds a reference, the current
  epoch begins at the buffer's head, and an earlier epoch, if still there, can be retired.
\<close>

definition idle_ptr :: "'s epoch_ptr \<Rightarrow> bool" where
  "idle_ptr p \<longleftrightarrow> ep_refcnt p = 0 \<and>
     (case ep_epoch p of None \<Rightarrow> True | Some e \<Rightarrow> (case m_structure e of None \<Rightarrow> False | Some st \<Rightarrow> 0 < m_refcnt st))"

definition ext_frame :: "('s, 'r, 'f) DynamicExtension \<Rightarrow> bool" where
  "ext_frame x \<longleftrightarrow>
     \<not> m_reconstruction_scheduled x \<and> ep_epoch (m_next_epoch x) = None \<and>
     idle_ptr (m_current_epoch x) \<and> idle_ptr (m_previous_epoch x) \<and>
     (case ep_epoch (m_current_epoch x) of None \<Rightarrow> False
      | Some e \<Rightarrow> m_epoch_number e = m_epoch_cnt x \<and> m_buffer_head e = head_idx (m_head (m_buffer x))) \<and>
     (case ep_epoch (m_previous_epoch x) of None \<Rightarrow> True | Some e \<Rightarrow> m_epoch_number e < m_epoch_cnt x) \<and>
     buf_inv (m_buffer x) \<and> refcnt (m_head (m_buffer x)) = 0 \<and> refcnt (m_old_head (m_buffer x)) = 0 \<and>
     0 < m_lwm (m_buffer x) \<and> m_epoch_cnt x \<le> head_idx (m_head (m_buffer x))"

definition ext_ok ::
    "('s, 'r, 'f, 'w) shard_ops \<Rightarrow> ('s \<Rightarrow> 'r Wrapped list) \<Rightarrow> ('s \<Rightarrow> bool) \<Rightarrow> LayoutPolicy \<Rightarrow> ('r Wrapped \<Rightarrow> bool) \<Rightarrow>
     ('s, 'r, 'f) DynamicExtension \<Rightarrow> bool" where
  "ext_ok S data sinv L adm x \<longleftrightarrow> ext_frame x \<and> struct_ok S data sinv L adm (cur_struct x) \<and>
     m_buffer_size (cur_struct x) = m_hwm (m_buffer x) \<and> (\<forall>w\<in>set (buf_list (m_buffer x)). adm w)"

text \<open>What the index holds: for every record, how often it is stored less how often it is deleted.\<close>

definition ext_net :: "('s \<Rightarrow> 'r Wrapped list) \<Rightarrow> ('s, 'r, 'f) DynamicExtension \<Rightarrow> 'r \<Rightarrow> int" where
  "ext_net data x r = net (struct_data data (cur_struct x)) r + net (buf_list (m_buffer x)) r"

lemma ext_frameE:
  assumes "ext_frame x"
  obtains e st where "m_current_epoch x = \<lparr>ep_epoch = Some e, ep_refcnt = 0\<rparr>" "m_structure e = Some st" "cur_struct x = st"
    "0 < m_refcnt st" "m_epoch_number e = m_epoch_cnt x" "m_buffer_head e = head_idx (m_head (m_buffer x))"
    "ep_epoch (m_next_epoch x) = None" "\<not> m_reconstruction_scheduled x" "buf_inv (m_buffer x)"
    "refcnt (m_head (m_buffer x)) = 0" "refcnt (m_old_head (m_buffer x)) = 0" "0 < m_lwm (m_buffer x)"
    "m_epoch_cnt x \<le> head_idx (m_head (m_buffer x))" "idle_ptr (m_previous_epoch x)"
    "\<not> points_to (m_epoch_cnt x) (m_previous_epoch x)"
proof -
  obtain e where e: "ep_epoch (m_current_epoch x) = Some e" using assms by (auto simp: ext_frame_def split: option.splits)
  moreover obtain st where "m_structure e = Some st" "0 < m_refcnt st" "ep_refcnt (m_current_epoch x) = 0"
    using assms e by (auto simp: ext_frame_def idle_ptr_def split: option.splits)
  moreover have "\<not> points_to (m_epoch_cnt x) (m_previous_epoch x)"
    using assms by (auto simp: ext_frame_def points_to_def split: option.splits)
  ultimately show ?thesis
    using assms by (intro that [of e st]) (auto simp: ext_frame_def cur_struct_def)
qed

lemma get_active_epoch_ok:
  assumes "m_current_epoch x = \<lparr>ep_epoch = Some e, ep_refcnt = n\<rparr>" and "Suc n < size_max"
  shows "get_active_epoch x = Inr (e, x\<lparr>m_current_epoch := \<lparr>ep_epoch = Some e, ep_refcnt = Suc n\<rparr>\<rparr>)"
  using assms by (simp add: get_active_epoch_def Let_def)

lemma end_job_ok:
  assumes "m_current_epoch x = \<lparr>ep_epoch = Some e, ep_refcnt = Suc n\<rparr>" and "\<not> points_to m (m_previous_epoch x)"
  shows "end_job m x = Inr (x\<lparr>m_current_epoch := \<lparr>ep_epoch = Some e, ep_refcnt = n\<rparr>\<rparr>)"
  using assms by (simp add: end_job_def Let_def)

lemma size_max_gt: "1 < size_max" "2 ^ 31 < size_max"
  by (simp_all add: size_max_def)

lemma create_new_epoch_ok:
  assumes "ext_frame x" and "struct_base S data sinv L adm (cur_struct x)" and "Suc (m_epoch_cnt x) < size_max"
  shows "create_new_epoch x = Inr (Suc (m_epoch_cnt x), x\<lparr>m_epoch_cnt := Suc (m_epoch_cnt x),
      m_next_epoch := \<lparr>ep_epoch = Some \<lparr>m_structure = Some ((cur_struct x)\<lparr>m_refcnt := 1\<rparr>), m_active_merge = False,
        m_epoch_number = Suc (m_epoch_cnt x), m_buffer_head = head_idx (m_head (m_buffer x))\<rparr>, ep_refcnt = 0\<rparr>\<rparr>)"
proof -
  from assms(1) obtain e st where f: "m_current_epoch x = \<lparr>ep_epoch = Some e, ep_refcnt = 0\<rparr>" "m_structure e = Some st"
      "cur_struct x = st" "m_epoch_number e = m_epoch_cnt x" "m_buffer_head e = head_idx (m_head (m_buffer x))"
      "ep_epoch (m_next_epoch x) = None" "\<not> points_to (m_epoch_cnt x) (m_previous_epoch x)" by (rule ext_frameE)
  note cl = epoch_clone_ok [OF f(2) assms(2) [unfolded f(3)]]
  have a: "get_active_epoch x = Inr (e, x\<lparr>m_current_epoch := \<lparr>ep_epoch = Some e, ep_refcnt = Suc 0\<rparr>\<rparr>)"
    using f(1) size_max_gt by (intro get_active_epoch_ok) simp_all
  have x: "x = x\<lparr>m_current_epoch := \<lparr>ep_epoch = Some e, ep_refcnt = 0\<rparr>\<rparr>" using f(1) by simp
  show ?thesis
    using f assms(3) by (simp add: create_new_epoch_def a cl Let_def end_job_ok)
qed

text \<open>Retiring the earlier epoch and installing the next one.\<close>

lemma retire_previous_ok:
  assumes "idle_ptr (m_previous_epoch x)"
  shows "\<exists>p. retire_epoch (map_option m_epoch_number (ep_epoch (m_previous_epoch x))) x = Inr (x\<lparr>m_previous_epoch := p\<rparr>)"
proof (cases "ep_epoch (m_previous_epoch x)")
  case None
  then show ?thesis by (intro exI [of _ "m_previous_epoch x"]) (simp add: retire_epoch_def)
next
  case (Some e)
  then obtain st where "m_structure e = Some st" "0 < m_refcnt st" "ep_refcnt (m_previous_epoch x) = 0"
    using assms by (auto simp: idle_ptr_def split: option.splits)
  with Some show ?thesis
    by (intro exI [of _ null_epoch]) (simp add: retire_epoch_def Let_def points_to_def Epoch_destroy_def release_reference_def)
qed

lemma advance_epoch_ok:
  assumes "idle_ptr (m_previous_epoch x)" and "ep_epoch (m_next_epoch x) = Some e" and "buf_inv (m_buffer x)"
    and "head_idx (m_head (m_buffer x)) < new_head" and "new_head \<le> m_tail (m_buffer x)" and "refcnt (m_old_head (m_buffer x)) = 0"
  shows "\<exists>b. advance_head new_head (m_buffer x) = Inr (True, b) \<and>
    advance_epoch new_head x = Inr (x\<lparr>m_buffer := b, m_previous_epoch := m_current_epoch x,
      m_current_epoch := (m_next_epoch x)\<lparr>ep_epoch := Some (e\<lparr>m_buffer_head := new_head\<rparr>)\<rparr>, m_next_epoch := null_epoch\<rparr>)"
proof -
  obtain b where b: "advance_head new_head (m_buffer x) = Inr (True, b)" using advance_head_ok [OF assms(3-6)] by blast
  obtain p where "retire_epoch (map_option m_epoch_number (ep_epoch (m_previous_epoch x))) x = Inr (x\<lparr>m_previous_epoch := p\<rparr>)"
    using retire_previous_ok [OF assms(1)] by blast
  with b assms(2) show ?thesis
    by (simp add: advance_epoch_def Let_def advance_buffer_head_def)
qed


lemma struct_refcnt [simp]:
  "struct_ok S data sinv L adm (st\<lparr>m_refcnt := n\<rparr>) = struct_ok S data sinv L adm st"
  "struct_data data (st\<lparr>m_refcnt := n\<rparr>) = struct_data data st"
  "struct_live data (st\<lparr>m_refcnt := n\<rparr>) = struct_live data st"
  by (simp_all add: struct_ok_def struct_base_def st_levels_def calc_level_record_capacity_def entry_ok_def
      actual_state_def shard_capacity_def struct_data_def struct_live_def)

text \<open>Merges and flushes leave the references of a structure alone.\<close>

lemma reconstruction_refcnt: "reconstruction S J L i k st d = Inr (st', d') \<Longrightarrow> m_refcnt st' = m_refcnt st"
  by (clarsimp simp: reconstruction_def Let_def split del: if_split) simp

lemma run_merges_refcnt: "run_merges S J L ts st d = Inr (st', d') \<Longrightarrow> m_refcnt st' = m_refcnt st"
  by (induction S J L ts st d rule: run_merges.induct) (auto dest: reconstruction_refcnt)

lemma reconstruction_bsm_refcnt: "reconstruction_bsm S J t st d = Inr (st', d') \<Longrightarrow> m_refcnt st' = m_refcnt st"
  by (clarsimp simp: reconstruction_bsm_def Let_def split del: if_split split: prod.splits)

lemma perform_merges_refcnt: "perform_merges S J L v st d = Inr (st', d') \<Longrightarrow> m_refcnt st' = m_refcnt st"
  by (auto simp: perform_merges_def dest: run_merges_refcnt reconstruction_bsm_refcnt split: if_splits list.splits)

lemma flush_buffer_refcnt: "flush_buffer S J L v st d = Inr (st', d') \<Longrightarrow> m_refcnt st' = m_refcnt st"
  by (clarsimp simp: flush_buffer_def flush_buffer_into_l0_def Let_def split del: if_split) simp

lemma can_reconstruct_mono:
  "can_reconstruct_with L i n cs \<Longrightarrow> m \<le> n \<Longrightarrow> can_reconstruct_with L i m cs"
  by (auto simp: can_reconstruct_with_def split: LayoutPolicy.splits if_splits)

text \<open>A flush is safe when no shard is empty and, under leveling, the buffer does not cancel itself out.\<close>

definition flush_safe :: "('s \<Rightarrow> 'r Wrapped list) \<Rightarrow> LayoutPolicy \<Rightarrow> ('s, 'r, 'f) DynamicExtension \<Rightarrow> bool" where
  "flush_safe data L x \<longleftrightarrow> struct_live data (cur_struct x) \<and>
     (L = LEVELING \<longrightarrow> (\<exists>r. net (buf_list (m_buffer x)) r \<noteq> 0))"

text \<open>A version of the structure, built from another by merges and a flush.\<close>

definition rebuilt ::
    "('s, 'r, 'f, 'p disk) shard_ops \<Rightarrow> json_ops \<Rightarrow> LayoutPolicy \<Rightarrow> 's ExtensionStructure \<Rightarrow> 'p disk \<Rightarrow>
     's ExtensionStructure \<Rightarrow> 'p disk \<Rightarrow> bool" where
  "rebuilt S J L st d st' d' \<longleftrightarrow> (\<exists>merges st1 d1 v. perform_merges S J L merges st d = Inr (st1, d1) \<and>
     flush_buffer S J L v st1 d1 = Inr (st', d'))"

locale index_shard = disk_shard S data sinv winv adm
  for S :: "('s, 'r::{linorder,zero}, 'f, 'p disk) shard_ops"
    and data :: "'s \<Rightarrow> 'r Wrapped list"
    and sinv :: "'s \<Rightarrow> bool"
    and winv :: "'p disk \<Rightarrow> bool"
    and adm :: "'r Wrapped \<Rightarrow> bool"
begin

text \<open>Room is made, the buffer flushed, and the new epoch installed.\<close>

lemma reconstruction_job_ok:
  assumes "struct_ok S data sinv L adm st" and "struct_live data st" and "winv d" and "m_buffer_size st = m_hwm (m_buffer x)"
    and "get_reconstruction_tasks L junk st (m_hwm (m_buffer x)) = Inr (merges, state)"
    and "m_next_epoch x = \<lparr>ep_epoch = Some e, ep_refcnt = 0\<rparr>" and "m_structure e = Some st"
    and "m_buffer_head e = head_idx (m_head (m_buffer x))" and "m_epoch_number e = n"
    and "\<not> points_to n (m_current_epoch x)" and "\<not> points_to n (m_previous_epoch x)"
    and "buf_inv (m_buffer x)" and "refcnt (m_head (m_buffer x)) = 0" and "refcnt (m_old_head (m_buffer x)) = 0"
    and "idle_ptr (m_previous_epoch x)" and "buf_list (m_buffer x) \<noteq> []" and "\<forall>w\<in>set (buf_list (m_buffer x)). adm w"
    and "L = LEVELING \<Longrightarrow> \<exists>r. net (buf_list (m_buffer x)) r \<noteq> 0"
  shows "\<exists>st' b' d'. reconstruction_job S J L n merges False x d =
      Inr (x\<lparr>m_buffer := b', m_previous_epoch := m_current_epoch x, m_next_epoch := null_epoch,
        m_current_epoch := \<lparr>ep_epoch = Some (e\<lparr>m_structure := Some st', m_buffer_head := m_tail (m_buffer x)\<rparr>), ep_refcnt = 0\<rparr>,
        m_reconstruction_scheduled := False\<rparr>, d') \<and>
    advance_head (m_tail (m_buffer x)) (m_buffer x) = Inr (True, b') \<and> winv d' \<and> struct_ok S data sinv L adm st' \<and>
    (\<forall>r. net (struct_data data st') r = net (struct_data data st) r + net (buf_list (m_buffer x)) r) \<and>
    m_flush_seq st' = Suc (m_flush_seq st) \<and> m_buffer_size st' = m_buffer_size st \<and> m_refcnt st' = m_refcnt st \<and>
    rebuilt S J L st d st' d'"
proof -
  let ?b = "m_buffer x" and ?h = "head_idx (m_head (m_buffer x))"
  define v where "v = view_at ?h ?b"
  have v: "view_wf v" "view_list v = buf_list ?b" "v_active v" "v_head v = ?h" "v_tail v = m_tail ?b"
    using view_at_wf [OF assms(12)] by (simp_all add: v_def)
  have gv: "get_buffer_view_at ?h ?b = Inr (v, ?b\<lparr>m_head := (m_head ?b)\<lparr>refcnt := Suc (refcnt (m_head ?b))\<rparr>\<rparr>)"
    unfolding v_def using assms(12,13) size_max_gt by (intro get_buffer_view_at_head) simp_all
  have rel: "view_destroy v (?b\<lparr>m_head := (m_head ?b)\<lparr>refcnt := Suc (refcnt (m_head ?b))\<rparr>\<rparr>) = Inr ?b"
    using assms(12,13) size_max_gt gv by (intro view_round_trip) (simp_all add: get_buffer_view_def)
  have len: "length (buf_list ?b) \<le> m_hwm ?b" by (rule buf_list_length_le [OF assms(12)])
  obtain st1 d1 where m: "perform_merges S J L merges st d = Inr (st1, d1)" "winv d1" "struct_ok S data sinv L adm st1"
      "net (struct_data data st1) = net (struct_data data st)" "m_flush_seq st1 = m_flush_seq st"
      "m_buffer_size st1 = m_buffer_size st" "st_levels st1 \<noteq> [] \<longrightarrow> level_live data (st_levels st1 ! 0) \<and>
        can_reconstruct_with L 0 (m_hwm ?b) (m_current_state st1)"
    using plan_and_merge_ok [OF assms(1-3), of "m_hwm ?b" junk J] assms(4,5) by auto
  have "\<exists>st2 d2. flush_buffer S J L v st1 d1 = Inr (st2, d2) \<and> winv d2 \<and> struct_ok S data sinv L adm st2 \<and>
      (\<forall>r. net (struct_data data st2) r = net (struct_data data st1) r + net (view_list v) r) \<and>
      m_flush_seq st2 = Suc (m_flush_seq st1) \<and> m_buffer_size st2 = m_buffer_size st1 \<and> m_scale_factor st2 = m_scale_factor st1"
  proof (rule flush_buffer_ok [OF m(3,2) v(1)])
    show "view_list v \<noteq> []" "\<forall>w\<in>set (view_list v). adm w" using assms(16,17) v(2) by simp_all
    show "length (view_list v) \<le> m_buffer_size st1" using len m(6) assms(4) v(2) by simp
    show "\<exists>r. net (view_list v) r \<noteq> 0" if "L = LEVELING" using assms(18) [OF that] v(2) by simp
    show "level_live data (st_levels st1 ! 0) \<and> can_reconstruct_with L 0 (length (view_list v)) (m_current_state st1)"
      if "st_levels st1 \<noteq> []" using m(7) that can_reconstruct_mono len v(2) by metis
  qed
  then obtain st2 d2 where f: "flush_buffer S J L v st1 d1 = Inr (st2, d2)" "winv d2" "struct_ok S data sinv L adm st2"
      "\<forall>r. net (struct_data data st2) r = net (struct_data data st1) r + net (view_list v) r"
      "m_flush_seq st2 = Suc (m_flush_seq st1)" "m_buffer_size st2 = m_buffer_size st1" by blast
  define e2 where "e2 = e\<lparr>m_structure := Some st2\<rparr>"
  define x2 where "x2 = (put_epoch e2 x)\<lparr>m_buffer := ?b\<rparr>"
  have x2: "x2 = x\<lparr>m_next_epoch := \<lparr>ep_epoch = Some e2, ep_refcnt = 0\<rparr>\<rparr>"
    using assms(6,9-11) by (simp add: x2_def put_epoch_def put_in_def e2_def points_to_def)
  have "?h < m_tail ?b" using assms(16) by (auto simp: buf_list_def ring_list_def)
  then obtain b where b: "advance_head (m_tail ?b) ?b = Inr (True, b)"
      "advance_epoch (m_tail ?b) x2 = Inr (x2\<lparr>m_buffer := b, m_previous_epoch := m_current_epoch x2,
        m_current_epoch := (m_next_epoch x2)\<lparr>ep_epoch := Some (e2\<lparr>m_buffer_head := m_tail ?b\<rparr>)\<rparr>, m_next_epoch := null_epoch\<rparr>)"
    using advance_epoch_ok [of x2 e2 "m_tail ?b"] assms(12,14,15) by (auto simp: x2)
  have "reconstruction_job S J L n merges False x d = Inr (x2\<lparr>m_buffer := b, m_previous_epoch := m_current_epoch x2,
        m_current_epoch := (m_next_epoch x2)\<lparr>ep_epoch := Some (e2\<lparr>m_buffer_head := m_tail ?b\<rparr>)\<rparr>, m_next_epoch := null_epoch,
        m_reconstruction_scheduled := False\<rparr>, d2)"
    using assms(6-9) gv rel m(1) f(1) b(2) v(5)
    by (simp add: reconstruction_job_def epoch_deref_def points_to_def get_structure_def epoch_get_buffer_def Let_def
        x2_def [symmetric] e2_def [symmetric])
  moreover have "rebuilt S J L st d st2 d2" using m(1) f(1) unfolding rebuilt_def by blast
  ultimately show ?thesis
    using b(1) f(2-6) m(4-6) v(2) perform_merges_refcnt [OF m(1)] flush_buffer_refcnt [OF f(1)] by (auto simp: x2 e2_def intro!: exI [of _ st2])
qed


text \<open>The buffer a flush leaves behind, and the state of the index after it.\<close>

lemma schedule_reconstruction_ok:
  assumes "ext_ok S data sinv L adm x" and "winv d" and "struct_live data (cur_struct x)" and "buf_list (m_buffer x) \<noteq> []"
    and "L = LEVELING \<Longrightarrow> \<exists>r. net (buf_list (m_buffer x)) r \<noteq> 0" and "Suc (m_epoch_cnt x) < size_max"
  shows "\<exists>x' d'. schedule_reconstruction S J L junk (x\<lparr>m_reconstruction_scheduled := True\<rparr>) d = Inr (x', d') \<and> winv d' \<and>
    ext_ok S data sinv L adm x' \<and> buf_list (m_buffer x') = [] \<and> ext_net data x' = ext_net data x \<and>
    m_tail (m_buffer x') = m_tail (m_buffer x) \<and> m_hwm (m_buffer x') = m_hwm (m_buffer x) \<and> m_lwm (m_buffer x') = m_lwm (m_buffer x) \<and>
    m_flush_seq (cur_struct x') = Suc (m_flush_seq (cur_struct x)) \<and> m_epoch_cnt x' = Suc (m_epoch_cnt x) \<and>
    advance_head (m_tail (m_buffer x)) (m_buffer x) = Inr (True, m_buffer x') \<and>
    rebuilt S J L ((cur_struct x)\<lparr>m_refcnt := 1\<rparr>) d (cur_struct x') d'"
proof -
  let ?b = "m_buffer x" and ?n = "Suc (m_epoch_cnt x)"
  have ok: "ext_frame x" "struct_ok S data sinv L adm (cur_struct x)" "m_buffer_size (cur_struct x) = m_hwm ?b"
      "\<forall>w\<in>set (buf_list ?b). adm w" using assms(1) by (simp_all add: ext_ok_def)
  from ok(1) obtain e0 st0 where f: "m_current_epoch x = \<lparr>ep_epoch = Some e0, ep_refcnt = 0\<rparr>" "m_structure e0 = Some st0"
      "cur_struct x = st0" "0 < m_refcnt st0" "m_epoch_number e0 = m_epoch_cnt x" "ep_epoch (m_next_epoch x) = None"
      "buf_inv ?b" "refcnt (m_head ?b) = 0" "refcnt (m_old_head ?b) = 0" "0 < m_lwm ?b" "m_epoch_cnt x \<le> head_idx (m_head ?b)"
      "idle_ptr (m_previous_epoch x)" "\<not> points_to (m_epoch_cnt x) (m_previous_epoch x)" by (rule ext_frameE)
  define x0 where "x0 = x\<lparr>m_reconstruction_scheduled := True\<rparr>"
  define st where "st = (cur_struct x)\<lparr>m_refcnt := 1\<rparr>"
  define e where "e = \<lparr>m_structure = Some st, m_active_merge = False, m_epoch_number = ?n, m_buffer_head = head_idx (m_head ?b)\<rparr>"
  define x1 where "x1 = x0\<lparr>m_epoch_cnt := ?n, m_next_epoch := \<lparr>ep_epoch = Some e, ep_refcnt = 0\<rparr>\<rparr>"
  define x2 where "x2 = x1\<lparr>m_sched := next_job (m_sched x1)\<rparr>"
  have st: "struct_ok S data sinv L adm st" "struct_live data st" "m_buffer_size st = m_hwm ?b"
      "struct_data data st = struct_data data (cur_struct x)" "m_flush_seq st = m_flush_seq (cur_struct x)"
    using ok(2,3) assms(3) by (simp_all add: st_def)
  obtain v state where plan: "get_reconstruction_tasks L junk st (m_hwm ?b) = Inr (v, state)"
    using plan_and_merge_ok [OF st(1,2) assms(2), of "m_hwm ?b" junk J] st(3) by auto
  have prev: "\<not> points_to ?n (m_previous_epoch x)"
    using ok(1) by (auto simp: ext_frame_def points_to_def split: option.splits)
  have fr0: "\<not> points_to ?n (m_current_epoch x)" using f(1,5) by (simp add: points_to_def)
  have "create_new_epoch x = Inr (?n, x\<lparr>m_epoch_cnt := ?n, m_next_epoch := \<lparr>ep_epoch = Some e, ep_refcnt = 0\<rparr>\<rparr>)"
    using create_new_epoch_ok [OF ok(1) struct_okD(1) [OF ok(2)] assms(6)] by (simp add: e_def st_def)
  moreover have "create_new_epoch (x\<lparr>m_reconstruction_scheduled := True\<rparr>) =
      map_sum id (map_prod id (\<lambda>y. y\<lparr>m_reconstruction_scheduled := True\<rparr>)) (create_new_epoch x)"
    using f(1,2,3,5,6,13) epoch_clone_ok [OF f(2), of S data sinv L adm] struct_okD(1) [OF ok(2)] assms(6) size_max_gt
    by (simp add: create_new_epoch_def get_active_epoch_def Let_def end_job_ok)
  ultimately have cr: "create_new_epoch x0 = Inr (?n, x1)" by (simp add: x0_def x1_def)
  have sim: "m_buffer x2 = ?b" "m_next_epoch x2 = \<lparr>ep_epoch = Some e, ep_refcnt = 0\<rparr>" "m_current_epoch x2 = m_current_epoch x"
      "m_previous_epoch x2 = m_previous_epoch x" "m_structure e = Some st" "m_epoch_number e = ?n"
      "m_buffer_head e = head_idx (m_head ?b)"
    by (simp_all add: x2_def x1_def x0_def e_def)
  obtain st' b' d' where job: "reconstruction_job S J L ?n v False x2 d =
      Inr (x2\<lparr>m_buffer := b', m_previous_epoch := m_current_epoch x2, m_next_epoch := null_epoch,
        m_current_epoch := \<lparr>ep_epoch = Some (e\<lparr>m_structure := Some st', m_buffer_head := m_tail ?b\<rparr>), ep_refcnt = 0\<rparr>,
        m_reconstruction_scheduled := False\<rparr>, d')" "advance_head (m_tail ?b) ?b = Inr (True, b')" "winv d'"
      "struct_ok S data sinv L adm st'" "\<forall>r. net (struct_data data st') r = net (struct_data data st) r + net (buf_list ?b) r"
      "m_flush_seq st' = Suc (m_flush_seq st)" "m_buffer_size st' = m_buffer_size st" "m_refcnt st' = m_refcnt st"
      "rebuilt S J L st d st' d'"
    using reconstruction_job_ok [of L st d x2 junk v state e ?n J] st(1-3) plan assms(2,4,5) f(7-9,12) ok(4) prev fr0
    by (auto simp: sim)
  have "head_idx (m_head ?b) < m_tail ?b" using assms(4) by (auto simp: buf_list_def ring_list_def)
  with advance_head_ok [OF f(7) this order.refl f(9)] job(2)
  have b': "buf_inv b'" "buf_list b' = []" "m_old_head b' = m_head ?b" "m_head b' = \<lparr>head_idx = m_tail ?b, refcnt = 0\<rparr>"
      "m_tail b' = m_tail ?b" "m_hwm b' = m_hwm ?b" "m_lwm b' = m_lwm ?b"
    by (auto simp: buf_list_def ring_list_def)
  define x' where "x' = x2\<lparr>m_buffer := b', m_previous_epoch := m_current_epoch x2, m_next_epoch := null_epoch,
        m_current_epoch := \<lparr>ep_epoch = Some (e\<lparr>m_structure := Some st', m_buffer_head := m_tail ?b\<rparr>), ep_refcnt = 0\<rparr>,
        m_reconstruction_scheduled := False\<rparr>"
  have x': "m_buffer x' = b'" "cur_struct x' = st'" "m_epoch_cnt x' = ?n"
    by (simp_all add: x'_def cur_struct_def x2_def x1_def)
  have "m_refcnt st' = 1" using job(8) by (simp add: st_def)
  then have "ext_frame x'"
    unfolding ext_frame_def x'(1,3) using f(1-5,8,10,11) b' \<open>head_idx (m_head ?b) < m_tail ?b\<close>
    by (auto simp: x'_def sim e_def idle_ptr_def)
  moreover have "schedule_reconstruction S J L junk x0 d = Inr (x', d')"
    using cr plan job(1) by (simp add: schedule_reconstruction_def epoch_deref_def points_to_def get_structure_def
        x1_def x2_def [symmetric] sim x'_def x0_def) (simp add: e_def x2_def x1_def x0_def)
  ultimately show ?thesis
    using job(2-7) job(9) [unfolded st_def] b' st(3-5) unfolding x0_def ext_ok_def
    by (intro exI [of _ x'] exI [of _ d']) (simp add: x' ext_net_def fun_eq_iff)
qed


lemma internal_append_ok:
  assumes "ext_ok S data sinv L adm x" and "winv d" and "\<And>pos. adm (stamped pos r ts)" and "m_tail (m_buffer x) < 2 ^ 31"
    and "is_at_low_watermark (m_buffer x) \<Longrightarrow> flush_safe data L x"
  shows "\<exists>x' d'. internal_append S J B L junk r ts logging x d = Inr (1, x', d') \<and> winv d' \<and> ext_ok S data sinv L adm x' \<and>
    (\<forall>q. ext_net data x' q = ext_net data x q + (if q = r then if ts then - 1 else 1 else 0)) \<and>
    m_tail (m_buffer x') = Suc (m_tail (m_buffer x)) \<and> m_hwm (m_buffer x') = m_hwm (m_buffer x) \<and> m_lwm (m_buffer x') = m_lwm (m_buffer x)"
proof -
  let ?b = "m_buffer x"
  have ok: "ext_frame x" "buf_inv ?b" "m_epoch_cnt x \<le> head_idx (m_head ?b)" "0 < m_lwm ?b" "\<not> m_reconstruction_scheduled x"
    using assms(1) by (auto simp: ext_ok_def ext_frame_def)
  note bi = buf_invD [OF ok(2)]
  have "\<exists>x1 d1. (if is_at_low_watermark ?b \<and> \<not> m_reconstruction_scheduled x
         then schedule_reconstruction S J L junk (x\<lparr>m_reconstruction_scheduled := True\<rparr>) d else Inr (x, d)) = Inr (x1, d1) \<and>
      winv d1 \<and> ext_ok S data sinv L adm x1 \<and> length (buf_list (m_buffer x1)) < m_hwm (m_buffer x1) \<and>
      ext_net data x1 = ext_net data x \<and> m_tail (m_buffer x1) = m_tail ?b \<and> m_hwm (m_buffer x1) = m_hwm ?b \<and> m_lwm (m_buffer x1) = m_lwm ?b"
  proof (cases "is_at_low_watermark ?b")
    case True
    have ne: "buf_list ?b \<noteq> []" using True ok(2,4) by (auto simp: is_at_low_watermark_def)
    have "Suc (m_epoch_cnt x) < size_max" using ok(3) bi(5) assms(4) size_max_gt(2) by linarith
    with schedule_reconstruction_ok [OF assms(1,2) _ ne, of J junk] assms(5) [OF True] True ok(5) bi(2)
    show ?thesis unfolding flush_safe_def by fastforce
  next
    case False
    then have "length (buf_list ?b) < m_hwm ?b" using ok(2) bi(4) by (simp add: is_at_low_watermark_def)
    with False assms(1,2) show ?thesis by simp
  qed
  then obtain x1 d1 where x1: "(if is_at_low_watermark ?b \<and> \<not> m_reconstruction_scheduled x
         then schedule_reconstruction S J L junk (x\<lparr>m_reconstruction_scheduled := True\<rparr>) d else Inr (x, d)) = Inr (x1, d1)"
      "winv d1" "ext_ok S data sinv L adm x1" "length (buf_list (m_buffer x1)) < m_hwm (m_buffer x1)" "ext_net data x1 = ext_net data x"
      "m_tail (m_buffer x1) = m_tail ?b" "m_hwm (m_buffer x1) = m_hwm ?b" "m_lwm (m_buffer x1) = m_lwm ?b" by blast
  have inv1: "buf_inv (m_buffer x1)" using x1(3) by (simp add: ext_ok_def ext_frame_def)
  obtain n b where app: "buffer_append B r ts logging (m_buffer x1) = (n, b)" by fastforce
  note a = buffer_append_refines [OF inv1 x1(4) _ app]
  have t: "m_tail (m_buffer x1) < 2 ^ 31" using assms(4) x1(6) by simp
  have lwm: "m_lwm b = m_lwm (m_buffer x1)" using app [unfolded buffer_append_room [OF inv1 x1(4) t]] by auto
  have "ext_ok S data sinv L adm (x1\<lparr>m_buffer := b\<rparr>)"
    using x1(3) a(2-8) [OF t] lwm assms(3) by (auto simp: ext_ok_def ext_frame_def cur_struct_def split: option.splits)
  moreover have "ext_net data (x1\<lparr>m_buffer := b\<rparr>) q = ext_net data x q + (if q = r then if ts then - 1 else 1 else 0)" for q
    unfolding x1(5) [symmetric] using a(3) [OF t] by (simp add: ext_net_def cur_struct_def net_append net_Cons wt_def)
  ultimately show ?thesis
    using x1(1,2,6-8) a(1,7,8) [OF t] app lwm by (simp add: internal_append_def)
qed

end

section \<open>A new index\<close>

lemma DynamicExtension_new_ok:
  assumes "0 < lwm" and "lwm \<le> hwm" and "0 < scale" and "L = BSM \<longrightarrow> scale = 2" and "skip \<or> ckpt_file d = None"
  shows "\<exists>x. DynamicExtension_new S J B bf0 L lwm hwm scale mb tc skip True None d = Inr (x, d) \<and>
    ext_ok S data sinv L adm x \<and> ext_net data x = (\<lambda>_. 0) \<and> struct_data data (cur_struct x) = [] \<and> buf_list (m_buffer x) = [] \<and>
    m_tail (m_buffer x) = 0 \<and> m_hwm (m_buffer x) = hwm \<and> m_lwm (m_buffer x) = lwm"
proof -
  obtain b where b: "MutableBuffer_new B bf0 lwm hwm 0 True None = Inr b" "run_inv b" "buf_list b = []" "m_tail b = 0" "m_hwm b = hwm"
    using MutableBuffer_new_empty assms(1,2) by (metis order.strict_trans2)
  have h: "m_lwm b = lwm" "m_head b = \<lparr>head_idx = 0, refcnt = 0\<rparr>" "refcnt (m_old_head b) = 0"
    using b(1) assms(1,2) by (auto simp: MutableBuffer_new_def Let_def build_buffer_from_log_def replay_records_def insert_entries_def
      WriteAheadLogger_new_def empty_wal_file_def)
  have st: "ExtensionStructure_new S J L hwm scale 1 skip d = Inr (empty_structure hwm scale 1, d)"
    using assms(5) by (auto simp: ExtensionStructure_new_def Let_def load_checkpoint_def empty_structure_def)
  have sb: "struct_base S data sinv L adm (empty_structure hwm scale 1)"
    using assms(1-3) by (simp add: struct_base_def empty_structure_def st_levels_def)
  then have "struct_ok S data sinv L adm (take_reference (empty_structure hwm scale 1))"
    by (simp add: take_reference_def) (simp add: struct_ok_def nos_ok_def empty_structure_def st_levels_def)
  then show ?thesis
    using b h st assms(1,4) by (auto simp: DynamicExtension_new_def ext_ok_def ext_frame_def idle_ptr_def Epoch_new_def cur_struct_def
        ext_net_def run_inv_def take_reference_def empty_structure_def struct_data_def st_levels_def size_max_def)
qed

section \<open>Sequences of calls\<close>

datatype 'r ext_op = Insert 'r | Erase 'r

fun op_rec :: "'r ext_op \<Rightarrow> 'r" where
  "op_rec (Insert r) = r"
| "op_rec (Erase r) = r"

fun ext_exec ::
    "('s, 'r::zero, 'f, 'p disk) shard_ops \<Rightarrow> json_ops \<Rightarrow> ('f, 'r) bloom_ops \<Rightarrow> LayoutPolicy \<Rightarrow> nat \<Rightarrow> 'r ext_op \<Rightarrow>
     ('s, 'r, 'f) DynamicExtension \<Rightarrow> 'p disk \<Rightarrow> (nat \<times> ('s, 'r, 'f) DynamicExtension \<times> 'p disk) res" where
  "ext_exec S J B L junk (Insert r) x d = de_insert S J B L junk r True x d"
| "ext_exec S J B L junk (Erase r) x d = de_erase S J B L TOMBSTONE junk r False True x d"

fun ext_run ::
    "('s, 'r::zero, 'f, 'p disk) shard_ops \<Rightarrow> json_ops \<Rightarrow> ('f, 'r) bloom_ops \<Rightarrow> LayoutPolicy \<Rightarrow> nat \<Rightarrow> 'r ext_op list \<Rightarrow>
     ('s, 'r, 'f) DynamicExtension \<Rightarrow> 'p disk \<Rightarrow> (nat list \<times> ('s, 'r, 'f) DynamicExtension \<times> 'p disk) res" where
  "ext_run S J B L junk [] x d = Inr ([], x, d)"
| "ext_run S J B L junk (c # cs) x d =
     bindE (ext_exec S J B L junk c x d) (\<lambda>(n, x1, d1).
     bindE (ext_run S J B L junk cs x1 d1) (\<lambda>(ns, x2, d2). Inr (n # ns, x2, d2)))"

text \<open>The abstract index: a count for every record.\<close>

fun op_effect :: "'r ext_op \<Rightarrow> 'r \<Rightarrow> int" where
  "op_effect (Insert r) q = (if q = r then 1 else 0)"
| "op_effect (Erase r) q = (if q = r then - 1 else 0)"

definition spec_net :: "'r ext_op list \<Rightarrow> 'r \<Rightarrow> int" where
  "spec_net cs q = (\<Sum>c\<leftarrow>cs. op_effect c q)"

lemma spec_net_simps [simp]: "spec_net [] q = 0" "spec_net (c # cs) q = op_effect c q + spec_net cs q"
  by (simp_all add: spec_net_def)

lemma spec_net_inserts: "spec_net (map Insert rs) q = int (count_list rs q)"
  by (induction rs) simp_all

text \<open>A run during which every flush is safe.\<close>

fun safe_run ::
    "('s, 'r::zero, 'f, 'p disk) shard_ops \<Rightarrow> ('s \<Rightarrow> 'r Wrapped list) \<Rightarrow> json_ops \<Rightarrow> ('f, 'r) bloom_ops \<Rightarrow> LayoutPolicy \<Rightarrow> nat \<Rightarrow>
     'r ext_op list \<Rightarrow> ('s, 'r, 'f) DynamicExtension \<Rightarrow> 'p disk \<Rightarrow> bool" where
  "safe_run S data J B L junk [] x d \<longleftrightarrow> True"
| "safe_run S data J B L junk (c # cs) x d \<longleftrightarrow> (is_at_low_watermark (m_buffer x) \<longrightarrow> flush_safe data L x) \<and>
     (case ext_exec S J B L junk c x d of Inl _ \<Rightarrow> True | Inr (_, x', d') \<Rightarrow> safe_run S data J B L junk cs x' d')"

context index_shard
begin

lemma ext_exec_ok:
  assumes "ext_ok S data sinv L adm x" and "winv d" and "\<And>pos r ts. c = (if ts then Erase r else Insert r) \<Longrightarrow> adm (stamped pos r ts)"
    and "m_tail (m_buffer x) < 2 ^ 31" and "is_at_low_watermark (m_buffer x) \<Longrightarrow> flush_safe data L x"
  shows "\<exists>x' d'. ext_exec S J B L junk c x d = Inr (1, x', d') \<and> winv d' \<and> ext_ok S data sinv L adm x' \<and>
    (\<forall>q. ext_net data x' q = ext_net data x q + op_effect c q) \<and> m_tail (m_buffer x') = Suc (m_tail (m_buffer x))"
proof (cases c)
  case (Insert r)
  with internal_append_ok [OF assms(1,2) _ assms(4), of r False J B junk True] assms(3) [of False r] assms(5)
  show ?thesis by (auto simp: de_insert_def)
next
  case (Erase r)
  with internal_append_ok [OF assms(1,2) _ assms(4), of r True J B junk True] assms(3) [of True r] assms(5)
  show ?thesis by (auto simp: de_erase_def)
qed


lemma ext_run_ok:
  assumes "ext_ok S data sinv L adm x" and "winv d" and "\<And>pos r. Insert r \<in> set cs \<Longrightarrow> adm (stamped pos r False)"
    and "\<And>pos r. Erase r \<in> set cs \<Longrightarrow> adm (stamped pos r True)"
    and "m_tail (m_buffer x) + length cs \<le> 2 ^ 31" and "safe_run S data J B L junk cs x d"
  shows "\<exists>x' d'. ext_run S J B L junk cs x d = Inr (replicate (length cs) 1, x', d') \<and> winv d' \<and> ext_ok S data sinv L adm x' \<and>
    (\<forall>q. ext_net data x' q = ext_net data x q + spec_net cs q)"
  using assms
proof (induction cs arbitrary: x d)
  case (Cons c cs)
  have "\<exists>x1 d1. ext_exec S J B L junk c x d = Inr (1, x1, d1) \<and> winv d1 \<and> ext_ok S data sinv L adm x1 \<and>
    (\<forall>q. ext_net data x1 q = ext_net data x q + op_effect c q) \<and> m_tail (m_buffer x1) = Suc (m_tail (m_buffer x))"
    using Cons.prems by (intro ext_exec_ok) (auto split: if_splits)
  then obtain x1 d1 where 1: "ext_exec S J B L junk c x d = Inr (1, x1, d1)" "winv d1" "ext_ok S data sinv L adm x1"
      "\<forall>q. ext_net data x1 q = ext_net data x q + op_effect c q" "m_tail (m_buffer x1) = Suc (m_tail (m_buffer x))" by blast
  obtain x2 d2 where "ext_run S J B L junk cs x1 d1 = Inr (replicate (length cs) 1, x2, d2)" "winv d2" "ext_ok S data sinv L adm x2"
      "\<forall>q. ext_net data x2 q = ext_net data x1 q + spec_net cs q"
    using Cons.IH [OF 1(3,2)] Cons.prems(3-6) 1(1,5) by auto
  then show ?case using 1(1,4) by simp
qed simp

end

text \<open>Plain entries only: every flush is safe.\<close>

locale live_index = index_shard + live_shard
begin

lemma flush_safe_live:
  assumes "ext_ok S data sinv L adm x" and "is_at_low_watermark (m_buffer x)"
  shows "flush_safe data L x"
proof -
  have ok: "struct_base S data sinv L adm (cur_struct x)" "buf_inv (m_buffer x)" "0 < m_lwm (m_buffer x)"
      "\<forall>w\<in>set (buf_list (m_buffer x)). adm w"
    using assms(1) by (auto simp: ext_ok_def ext_frame_def struct_ok_def)
  have "struct_live data (cur_struct x)"
    using struct_base_in(1) [OF ok(1)] sinv_live unfolding struct_live_def level_live_def level_ok_def by blast
  moreover have "buf_list (m_buffer x) \<noteq> []" using ok(2,3) assms(2) by (auto simp: is_at_low_watermark_def)
  then have "\<exists>r. net (buf_list (m_buffer x)) r \<noteq> 0" using ok(4) adm_plain by (intro net_plain_nonzero) auto
  ultimately show ?thesis by (simp add: flush_safe_def)
qed

lemma safe_run_inserts:
  assumes "ext_ok S data sinv L adm x" and "winv d" and "\<And>pos r. adm (stamped pos r False)"
    and "m_tail (m_buffer x) + length rs \<le> 2 ^ 31"
  shows "safe_run S data J B L junk (map Insert rs) x d"
  using assms
proof (induction rs arbitrary: x d)
  case (Cons r rs)
  have "\<exists>x1 d1. ext_exec S J B L junk (Insert r) x d = Inr (1, x1, d1) \<and> winv d1 \<and> ext_ok S data sinv L adm x1 \<and>
    (\<forall>q. ext_net data x1 q = ext_net data x q + op_effect (Insert r) q) \<and> m_tail (m_buffer x1) = Suc (m_tail (m_buffer x))"
    using Cons.prems flush_safe_live [OF Cons.prems(1)] by (intro ext_exec_ok) (auto split: if_splits)
  then show ?case using Cons flush_safe_live [OF Cons.prems(1)] by (auto simp del: ext_exec.simps)
qed simp

text \<open>The stored records of a plain index, as a multiset.\<close>

lemma mset_plain:
  assumes "\<forall>w\<in>set ws. plain w" and "\<And>q. net ws q = int (count_list rs q)"
  shows "image_mset rec (mset ws) = mset rs"
proof (rule multiset_eqI)
  fix q
  have "int (count_list (map rec ws) q) = int (count_list rs q)" using net_plain [OF assms(1)] assms(2) by simp
  then show "count (image_mset rec (mset ws)) q = count (mset rs) q" by (simp add: count_mset flip: mset_map)
qed

end

section \<open>The shards of a structure\<close>

text \<open>The shards of a structure, level by level.\<close>

definition struct_shards :: "'s ExtensionStructure \<Rightarrow> 's list" where
  "struct_shards st = concat (map level_shards (st_levels st))"

lemma struct_data_shards: "struct_data data st = concat (map data (struct_shards st))"
proof -
  have "concat (map (\<lambda>l. concat (map data (level_shards l))) ls) = concat (map data (concat (map level_shards ls)))" for ls
    by (induction ls) simp_all
  then show ?thesis by (simp add: struct_data_def struct_shards_def level_data_def [abs_def])
qed


section \<open>Counting\<close>

lemma ext_okD:
  assumes "ext_ok S data sinv L adm x"
  shows "ext_frame x" "struct_base S data sinv L adm (cur_struct x)" "\<forall>w\<in>set (buf_list (m_buffer x)). adm w"
  using assms by (simp_all add: ext_ok_def struct_ok_def)

lemma get_buffer_view_at_frame:
  assumes "ext_frame x" and "ep_epoch (m_current_epoch x) = Some e"
  shows "epoch_get_buffer e (m_buffer x) = Inr (view_at (head_idx (m_head (m_buffer x))) (m_buffer x),
      m_buffer x\<lparr>m_head := (m_head (m_buffer x))\<lparr>refcnt := Suc 0\<rparr>\<rparr>)"
    and "view_destroy (view_at (head_idx (m_head (m_buffer x))) (m_buffer x))
      (m_buffer x\<lparr>m_head := (m_head (m_buffer x))\<lparr>refcnt := Suc 0\<rparr>\<rparr>) = Inr (m_buffer x)"
proof -
  have f: "buf_inv (m_buffer x)" "refcnt (m_head (m_buffer x)) = 0" "m_buffer_head e = head_idx (m_head (m_buffer x))"
    using assms by (auto simp: ext_frame_def)
  have s: "Suc (refcnt (m_head (m_buffer x))) < size_max" using f(2) size_max_gt by simp
  note g = get_buffer_view_at_head [OF f(1) s refl]
  show "epoch_get_buffer e (m_buffer x) = Inr (view_at (head_idx (m_head (m_buffer x))) (m_buffer x),
      m_buffer x\<lparr>m_head := (m_head (m_buffer x))\<lparr>refcnt := Suc 0\<rparr>\<rparr>)"
    using g f(2,3) by (simp add: epoch_get_buffer_def)
  show "view_destroy (view_at (head_idx (m_head (m_buffer x))) (m_buffer x))
      (m_buffer x\<lparr>m_head := (m_head (m_buffer x))\<lparr>refcnt := Suc 0\<rparr>\<rparr>) = Inr (m_buffer x)"
    using view_round_trip [OF f(1) s] g f(2) by (simp add: get_buffer_view_def)
qed

text \<open>An accessor that computes on the current epoch and its view leaves the state as it was.\<close>

lemma with_epoch_ok:
  assumes "ext_frame x" and "ep_epoch (m_current_epoch x) = Some e"
    and "\<And>y. m_buffer y = m_buffer x \<Longrightarrow> f e y = Inr (t, y)"
  shows "with_epoch f x = Inr (t, x)"
proof -
  from assms(1) obtain e0 st where fr: "m_current_epoch x = \<lparr>ep_epoch = Some e0, ep_refcnt = 0\<rparr>" "m_epoch_number e0 = m_epoch_cnt x"
      "\<not> points_to (m_epoch_cnt x) (m_previous_epoch x)" by (rule ext_frameE)
  have [simp]: "e0 = e" using fr(1) assms(2) by simp
  show ?thesis
    using fr size_max_gt assms(3) by (simp add: with_epoch_def get_active_epoch_ok end_job_ok)
qed

context index_shard
begin

lemma struct_count:
  assumes "struct_base S data sinv L adm st"
  shows "struct_record_count S st = length (struct_data data st)"
proof -
  have "sum_levels (level_record_count S) st = (\<Sum>l\<leftarrow>st_levels st. level_record_count S l)"
    unfolding sum_levels_def struct_baseD(1) [OF assms] by (simp add: comp_def)
  also have "\<dots> = (\<Sum>l\<leftarrow>st_levels st. length (level_data data l))"
    using struct_base_in(1) [OF assms] level_count by (intro arg_cong [of _ _ sum_list] map_cong) auto
  finally show ?thesis by (simp add: struct_record_count_def struct_data_def length_concat comp_def)
qed

lemma de_record_count_ok:
  assumes "ext_ok S data sinv L adm x" and "length (struct_data data (cur_struct x)) + length (buf_list (m_buffer x)) < size_max"
  shows "de_record_count S x = Inr (length (struct_data data (cur_struct x)) + length (buf_list (m_buffer x)), x)"
proof -
  have f: "ext_frame x" "struct_base S data sinv L adm (cur_struct x)" using assms(1) by (auto simp: ext_ok_def struct_ok_def)
  from f(1) obtain e st where e: "m_current_epoch x = \<lparr>ep_epoch = Some e, ep_refcnt = 0\<rparr>" "m_structure e = Some st" "cur_struct x = st"
    "buf_inv (m_buffer x)" by (rule ext_frameE)
  have cnt: "view_record_count (view_at (head_idx (m_head (m_buffer x))) (m_buffer x)) = length (buf_list (m_buffer x))"
    using length_view_list [OF view_at_wf(1) [OF e(4)]] unfolding view_at_wf(2) [OF e(4)] by (rule sym)
  show ?thesis
    unfolding de_record_count_def
  proof (rule with_epoch_ok [OF f(1)])
    show "ep_epoch (m_current_epoch x) = Some e" using e(1) by simp
    fix y :: "('s, 'r, 'f) DynamicExtension" assume y: "m_buffer y = m_buffer x"
    have "on_view view_record_count e y = Inr (length (buf_list (m_buffer x)), y)"
      using get_buffer_view_at_frame [OF f(1), of e] e(1) cnt y by (simp add: on_view_def)
    then show "bindE (on_view view_record_count e y) (\<lambda>(n, x2). bindE (get_structure e) (\<lambda>st. Inr (sz_add n (struct_record_count S st), x2))) =
        Inr (length (struct_data data (cur_struct x)) + length (buf_list (m_buffer x)), y)"
      using e(2,3) struct_count [OF f(2)] assms(2) by (simp add: get_structure_def add.commute)
  qed
qed

end

end
