(* ===== verification/DE_Query.thy ===== *)
theory DE_Query
  imports DE_Index
begin

text \<open>
  Queries (\<^verbatim>\<open>include/framework/interface/Query.h\<close>, \<^verbatim>\<open>DynamicExtension::async_query\<close>). A query type
  supplies the operations collected in \<open>query_ops\<close>; the framework prepares a local query for the
  buffer and for every shard, runs them in rounds, combines their results, and repeats as long as
  the query type asks for it. The parameters are passed along because a query type may keep state
  in them (a random number generator).
\<close>

section \<open>What a query type supplies\<close>

record ('s, 'r, 'f, 'p, 'lq, 'bq, 'lr, 'o) query_ops =
  q_early_abort :: bool
  q_preproc :: "'s \<Rightarrow> 'p \<Rightarrow> 'lq res"
  q_preproc_buffer :: "('r, 'f) BufferView \<Rightarrow> 'p \<Rightarrow> 'bq res"
  q_distribute :: "'p \<Rightarrow> 'lq list \<Rightarrow> 'bq \<Rightarrow> ('p \<times> 'lq list \<times> 'bq) res"
  q_local :: "bool \<Rightarrow> 's \<Rightarrow> 'lq \<Rightarrow> 'p \<Rightarrow> ('lr list \<times> 'p) res"
  q_local_buffer :: "'bq \<Rightarrow> 'p \<Rightarrow> ('lr list \<times> 'p) res"
  q_combine :: "'lr list list \<Rightarrow> 'p \<Rightarrow> 'o list \<Rightarrow> 'o list res"
  q_repeat :: "'p \<Rightarrow> 'o list \<Rightarrow> 'lq list \<Rightarrow> 'bq \<Rightarrow> (bool \<times> 'p \<times> 'lq list \<times> 'bq) res"

section \<open>Running a query\<close>

text \<open>
  One round: the buffer first, then the shards in order. With \<^verbatim>\<open>EARLY_ABORT\<close> the round ends at the
  first result; the results of what was not asked stay empty.
\<close>

fun query_shards ::
    "('s, 'r, 'f, 'p, 'lq, 'bq, 'lr, 'o) query_ops \<Rightarrow> bool \<Rightarrow> ('s \<times> 'lq) list \<Rightarrow> 'p \<Rightarrow> ('lr list list \<times> 'p) res" where
  "query_shards Q has_buffer [] p = Inr ([], p)"
| "query_shards Q has_buffer ((s, lq) # qs) p =
     bindE (q_local Q has_buffer s lq p) (\<lambda>(rs, p1).
     if q_early_abort Q \<and> rs \<noteq> [] then Inr (rs # replicate (length qs) [], p1)
     else bindE (query_shards Q has_buffer qs p1) (\<lambda>(rss, p2). Inr (rs # rss, p2)))"

definition query_results ::
    "('s, 'r, 'f, 'p, 'lq, 'bq, 'lr, 'o) query_ops \<Rightarrow> bool \<Rightarrow> 's list \<Rightarrow> 'lq list \<Rightarrow> 'bq \<Rightarrow> 'p \<Rightarrow> ('lr list list \<times> 'p) res" where
  "query_results Q has_buffer shards lqs bq p =
     bindE (q_local_buffer Q bq p) (\<lambda>(rs, p1).
     if q_early_abort Q \<and> rs \<noteq> [] then Inr (rs # replicate (length shards) [], p1)
     else bindE (query_shards Q has_buffer (zip shards lqs) p1) (\<lambda>(rss, p2). Inr (rs # rss, p2)))"

definition query_round ::
    "('s, 'r, 'f, 'p, 'lq, 'bq, 'lr, 'o) query_ops \<Rightarrow> bool \<Rightarrow> 's list \<Rightarrow> 'p \<Rightarrow> 'lq list \<Rightarrow> 'bq \<Rightarrow> 'o list \<Rightarrow>
     ('o list \<times> bool \<times> 'p \<times> 'lq list \<times> 'bq) res" where
  "query_round Q has_buffer shards p lqs bq output =
     bindE (query_results Q has_buffer shards lqs bq p) (\<lambda>(results, p1).
     bindE (q_combine Q results p1 output) (\<lambda>output'.
     bindE (q_repeat Q p1 output' lqs bq) (\<lambda>again. Inr (output', again))))"

text \<open>The loop over rounds; \<open>None\<close> when the query type asks for repetition forever.\<close>

partial_function (option) query_loop ::
    "('s, 'r, 'f, 'p, 'lq, 'bq, 'lr, 'o) query_ops \<Rightarrow> bool \<Rightarrow> 's list \<Rightarrow> 'p \<Rightarrow> 'lq list \<Rightarrow> 'bq \<Rightarrow> 'o list \<Rightarrow> 'o list res option" where
  "query_loop Q has_buffer shards p lqs bq output =
     (case query_round Q has_buffer shards p lqs bq output of
        Inl err \<Rightarrow> Some (Inl err)
      | Inr (output', again, p', lqs', bq') \<Rightarrow>
          if again then query_loop Q has_buffer shards p' lqs' bq' output' else Some (Inr output'))"

text \<open>
  \<^verbatim>\<open>async_query\<close>: the epoch is pinned and a view of its part of the buffer is held for the whole
  query; the epoch is given back first, the view when the function returns.
\<close>

definition prepare_query ::
    "('s, 'r, 'f, 'p, 'lq, 'bq, 'lr, 'o) query_ops \<Rightarrow> 'p \<Rightarrow> ('s, 'r, 'f) DynamicExtension \<Rightarrow>
     ('s Epoch \<times> ('r, 'f) BufferView \<times> ('s, 'r, 'f) DynamicExtension \<times> 's list \<times> 'p \<times> 'lq list \<times> 'bq) res" where
  "prepare_query Q parms x =
     bindE (get_active_epoch x) (\<lambda>(e, x1).
     bindE (epoch_get_buffer e (m_buffer x1)) (\<lambda>(view, b).
     bindE (get_structure e) (\<lambda>vers.
     bindE (q_preproc_buffer Q view parms) (\<lambda>bq0.
     bindE (struct_local_queries (\<lambda>s. q_preproc Q s parms) vers) (\<lambda>qs.
     bindE (q_distribute Q parms (map snd qs) bq0) (\<lambda>(p, lqs, bq).
     Inr (e, view, x1\<lparr>m_buffer := b\<rparr>, map (\<lambda>q. snd (fst q)) qs, p, lqs, bq)))))))"

definition finish_query ::
    "'s Epoch \<Rightarrow> ('r, 'f) BufferView \<Rightarrow> ('s, 'r, 'f) DynamicExtension \<Rightarrow> 'o list \<Rightarrow> ('o list \<times> ('s, 'r, 'f) DynamicExtension) res" where
  "finish_query e view x output =
     bindE (end_job (m_epoch_number e) x) (\<lambda>x1.
     bindE (view_destroy view (m_buffer x1)) (\<lambda>b. Inr (output, x1\<lparr>m_buffer := b\<rparr>)))"

definition async_query ::
    "('s, 'r, 'f, 'p, 'lq, 'bq, 'lr, 'o) query_ops \<Rightarrow> bool \<Rightarrow> 'p \<Rightarrow> ('s, 'r, 'f) DynamicExtension \<Rightarrow>
     ('o list \<times> ('s, 'r, 'f) DynamicExtension) res option" where
  "async_query Q has_buffer parms x =
     (case prepare_query Q parms x of
        Inl err \<Rightarrow> Some (Inl err)
      | Inr (e, view, x1, shards, p, lqs, bq) \<Rightarrow>
          map_option (\<lambda>out. bindE out (finish_query e view x1)) (query_loop Q has_buffer shards p lqs bq []))"

definition schedule_query ::
    "('s, 'r, 'f, 'p, 'lq, 'bq, 'lr, 'o) query_ops \<Rightarrow> bool \<Rightarrow> 'p \<Rightarrow> ('s, 'r, 'f) DynamicExtension \<Rightarrow>
     ('o list \<times> ('s, 'r, 'f) DynamicExtension) res option" where
  "schedule_query Q has_buffer parms x = async_query Q has_buffer parms (x\<lparr>m_sched := next_job (m_sched x)\<rparr>)"


section \<open>Queries on an index at rest\<close>

text \<open>The local queries: one for every shard, in the order of the levels.\<close>

lemma level_local_queries_ok:
  assumes "level_wf l" and "\<And>s. s \<in> set (level_shards l) \<Longrightarrow> preproc s = Inr (g s)"
  shows "\<exists>qs. level_local_queries preproc l = Inr qs \<and> map (\<lambda>q. snd (fst q)) qs = level_shards l \<and> map snd qs = map g (level_shards l)"
proof -
  let ?qs = "map (\<lambda>(i, s). ((\<lparr>level_idx = int (level_no l), shard_idx = int i\<rparr>, s), g s)) (used_slots l)"
  have "s \<in> set (level_shards l)" if "(i, s) \<in> set (used_slots l)" for i s
    using that unfolding used_slots_wf [OF assms(1)] by (auto dest: set_zip_rightD)
  then have "level_local_queries preproc l = Inr ?qs"
    unfolding level_local_queries_def using assms(2) by (intro mapE_Inr) auto
  moreover have "map (\<lambda>q. snd (fst q)) ?qs = level_shards l" "map snd ?qs = map g (level_shards l)"
    using map_used_slots [OF assms(1), of "\<lambda>s. s"] map_used_slots [OF assms(1), of g]
    by (simp_all add: comp_def case_prod_unfold)
  ultimately show ?thesis by blast
qed

lemma struct_local_queries_ok:
  assumes "m_levels st = map Some ls" and "\<forall>l\<in>set ls. level_wf l"
    and "\<And>l s. l \<in> set ls \<Longrightarrow> s \<in> set (level_shards l) \<Longrightarrow> preproc s = Inr (g s)"
  shows "\<exists>qs. struct_local_queries preproc st = Inr qs \<and> map (\<lambda>q. snd (fst q)) qs = concat (map level_shards ls) \<and>
    map snd qs = map g (concat (map level_shards ls))"
proof -
  have "\<exists>qss. mapE (\<lambda>lv. bindE (deref lv) (level_local_queries preproc)) (map Some ls) = Inr qss \<and>
      map (\<lambda>q. snd (fst q)) (concat qss) = concat (map level_shards ls) \<and> map snd (concat qss) = map g (concat (map level_shards ls))"
    using assms(2,3)
  proof (induction ls)
    case (Cons l ls)
    obtain qs where qs: "level_local_queries preproc l = Inr qs" "map (\<lambda>q. snd (fst q)) qs = level_shards l"
        "map snd qs = map g (level_shards l)"
      using level_local_queries_ok [of l preproc g] Cons.prems by auto
    obtain qss where "mapE (\<lambda>lv. bindE (deref lv) (level_local_queries preproc)) (map Some ls) = Inr qss"
      "map (\<lambda>q. snd (fst q)) (concat qss) = concat (map level_shards ls)" "map snd (concat qss) = map g (concat (map level_shards ls))"
      using Cons.IH Cons.prems by auto
    with qs show ?case by (intro exI [of _ "qs # qss"]) simp
  qed simp
  then show ?thesis by (auto simp: struct_local_queries_def assms(1))
qed

lemma struct_shards_inv:
  assumes "ext_ok S data sinv L adm x"
  shows "\<forall>l\<in>set (st_levels (cur_struct x)). level_ok sinv l" and "\<forall>s\<in>set (struct_shards (cur_struct x)). sinv s"
proof -
  show "\<forall>l\<in>set (st_levels (cur_struct x)). level_ok sinv l"
    using struct_baseD(5) [OF ext_okD(2) [OF assms]] by (simp add: all_set_conv_all_nth)
  then show "\<forall>s\<in>set (struct_shards (cur_struct x)). sinv s" by (auto simp: struct_shards_def level_ok_def)
qed

text \<open>A query that asks for one round returns the result of that round and leaves the index as it was.\<close>

lemma async_query_once:
  assumes "ext_ok S data sinv L adm x" and "\<And>s. sinv s \<Longrightarrow> q_preproc Q s parms = Inr (g s)"
    and "\<And>v. v = view_at (head_idx (m_head (m_buffer x))) (m_buffer x) \<Longrightarrow>
      q_preproc_buffer Q v parms = Inr bq0 \<and> q_distribute Q parms (map g (struct_shards (cur_struct x))) bq0 = Inr (p, lqs, bq)"
    and "query_round Q has_buffer (struct_shards (cur_struct x)) p lqs bq [] = Inr (out, False, p', lqs', bq')"
  shows "async_query Q has_buffer parms x = Some (Inr (out, x))"
proof -
  let ?v = "view_at (head_idx (m_head (m_buffer x))) (m_buffer x)"
  have f: "ext_frame x" "struct_base S data sinv L adm (cur_struct x)" using assms(1) by (auto simp: ext_ok_def struct_ok_def)
  from f(1) obtain e st where e: "m_current_epoch x = \<lparr>ep_epoch = Some e, ep_refcnt = 0\<rparr>" "m_structure e = Some st" "cur_struct x = st"
    "m_epoch_number e = m_epoch_cnt x" "\<not> points_to (m_epoch_cnt x) (m_previous_epoch x)" by (rule ext_frameE)
  have act: "get_active_epoch x = Inr (e, x\<lparr>m_current_epoch := \<lparr>ep_epoch = Some e, ep_refcnt = Suc 0\<rparr>\<rparr>)"
    using size_max_gt by (intro get_active_epoch_ok e(1)) simp
  have lv: "m_levels st = map Some (st_levels st)" "\<forall>l\<in>set (st_levels st). level_ok sinv l"
    using struct_baseD(1) [OF f(2)] struct_shards_inv(1) [OF assms(1)] by (simp_all add: e(3))
  obtain qs where qs: "struct_local_queries (\<lambda>s. q_preproc Q s parms) st = Inr qs" "map (\<lambda>q. snd (fst q)) qs = struct_shards st"
      "map snd qs = map g (struct_shards st)"
    using struct_local_queries_ok [OF lv(1), of "\<lambda>s. q_preproc Q s parms" g] lv(2) assms(2)
    by (auto simp: level_ok_def struct_shards_def)
  let ?x1 = "x\<lparr>m_current_epoch := \<lparr>ep_epoch = Some e, ep_refcnt = Suc 0\<rparr>,
      m_buffer := m_buffer x\<lparr>m_head := (m_head (m_buffer x))\<lparr>refcnt := Suc 0\<rparr>\<rparr>\<rparr>"
  note gb = get_buffer_view_at_frame [OF f(1), of e]
  have prep: "prepare_query Q parms x = Inr (e, ?v, ?x1, struct_shards st, p, lqs, bq)"
    using act gb(1) e(1,2) qs assms(3) [OF refl] by (simp add: prepare_query_def get_structure_def e(3))
  have "query_loop Q has_buffer (struct_shards st) p lqs bq [] = Some (Inr out)"
    using assms(4) by (subst query_loop.simps) (simp add: e(3))
  moreover have "end_job (m_epoch_number e) ?x1 = Inr (?x1\<lparr>m_current_epoch := \<lparr>ep_epoch = Some e, ep_refcnt = 0\<rparr>\<rparr>)"
    using e(4,5) by (intro end_job_ok) simp_all
  then have "finish_query e ?v ?x1 out = Inr (out, x)"
    using gb(2) e(1) by (simp add: finish_query_def)
  ultimately show ?thesis by (simp add: async_query_def prep)
qed

end
