(* ===== verification/DE_Durable.thy ===== *)
theory DE_Durable
  imports DE_Query
begin

text \<open>
  Restarting from the disk. Every flush leaves a checkpoint that names the shard files of the new
  version, these files are in the shard directory and stay there, and the log holds exactly what
  the buffer holds. So an index constructed again from the directory and the log holds the same
  records.
\<close>

section \<open>Reading a checkpoint back\<close>

lemma of_digit_char: "n < 10 \<Longrightarrow> of_char (digit_char n) = 48 + n"
  by (simp add: digit_char_def)

lemma stoi_digits:
  assumes "n < 10"
  shows "is_digit (digit_char n)" "of_char (digit_char n) - 48 = n"
  using assms by (simp_all add: is_digit_def of_digit_char)

lemma to_string_digits: "\<forall>ch\<in>set (to_string n). is_digit ch" "to_string n \<noteq> []"
proof (induction n rule: to_string.induct)
  case (1 n)
  { case 1 then show ?case using "1.IH" by (subst to_string.simps) (auto simp: stoi_digits) }
  { case 2 then show ?case by (subst to_string.simps) simp }
qed

lemma foldl_to_string: "foldl (\<lambda>a c. 10 * a + (of_char c - 48)) 0 (to_string n) = n"
proof (induction n rule: to_string.induct)
  case (1 n)
  show ?case
  proof (cases "n < 10")
    case True
    then show ?thesis by (subst to_string.simps) (simp add: stoi_digits)
  next
    case False
    then show ?thesis using 1 by (subst to_string.simps) (simp add: stoi_digits)
  qed
qed

lemma stoi_to_string: "stoi (to_string n) = Inr n"
proof -
  have tw: "takeWhile is_digit (to_string n) = to_string n" using to_string_digits(1) [of n] by (simp add: takeWhile_eq_all_conv)
  show ?thesis using to_string_digits(2) foldl_to_string unfolding stoi_def tw by (simp add: Let_def)
qed

lemma to_string_inj: "to_string m = to_string n \<longleftrightarrow> m = n"
  by (metis stoi_to_string sum.inject(2))

lemma to_string_flush_seq: "to_string n \<noteq> ''flush_seq''"
proof
  assume "to_string n = ''flush_seq''"
  then have "is_digit CHR ''f''" using to_string_digits(1) [of n] by simp
  then show False by (simp add: is_digit_def)
qed

lemma map_of_json_set: "sorted_wrt (<) (map fst j) \<Longrightarrow> map_of (json_set k v j) = (map_of j)(k \<mapsto> v)"
  by (induction k v j rule: json_set.induct) (auto simp: fun_eq_iff)

lemma fst_json_set: "set (map fst (json_set k v j)) = insert k (set (map fst j))"
  by (induction k v j rule: json_set.induct) auto

lemma sorted_json_set: "sorted_wrt (<) (map fst j) \<Longrightarrow> sorted_wrt (<) (map fst (json_set k v j))"
proof (induction k v j rule: json_set.induct)
  case (2 k v k' v' j)
  then show ?case
    using fst_json_set [of k v j] by (auto simp: not_less_iff_gr_or_eq dest: order.strict_trans)
qed simp

lemma save_levels_spec:
  assumes "save_levels S ls i j0 = Inr j" and "sorted_wrt (<) (map fst j0)"
  shows "sorted_wrt (<) (map fst j) \<and>
    (\<forall>k<length ls. \<exists>ns. shard_names S (ls ! k) = Inr ns \<and> map_of j (to_string (i + k)) = Some (JArr ns)) \<and>
    (\<forall>q. (\<forall>k<length ls. q \<noteq> to_string (i + k)) \<longrightarrow> map_of j q = map_of j0 q)"
  using assms
proof (induction ls arbitrary: i j0)
  case (Cons lv ls)
  from Cons.prems(1) obtain ns where ns: "shard_names S lv = Inr ns" "save_levels S ls (Suc i) (json_set (to_string i) (JArr ns) j0) = Inr j" by auto
  let ?j1 = "json_set (to_string i) (JArr ns) j0"
  from Cons.IH [OF ns(2) sorted_json_set [OF Cons.prems(2)]]
  have IH: "sorted_wrt (<) (map fst j)"
    "\<And>k. k < length ls \<Longrightarrow> \<exists>ns. shard_names S (ls ! k) = Inr ns \<and> map_of j (to_string (Suc i + k)) = Some (JArr ns)"
    "\<And>q. (\<forall>k<length ls. q \<noteq> to_string (Suc i + k)) \<Longrightarrow> map_of j q = map_of ?j1 q" by blast+
  have j1: "map_of ?j1 = (map_of j0)(to_string i \<mapsto> JArr ns)" by (rule map_of_json_set [OF Cons.prems(2)])
  have i: "map_of j (to_string i) = Some (JArr ns)" using IH(3) [of "to_string i"] j1 by (simp add: to_string_inj)
  have "\<exists>ns. shard_names S ((lv # ls) ! k) = Inr ns \<and> map_of j (to_string (i + k)) = Some (JArr ns)" if "k < Suc (length ls)" for k
    using that IH(2) [of "k - 1"] ns(1) i by (cases k) simp_all
  moreover have "map_of j q = map_of j0 q" if "\<forall>k<Suc (length ls). q \<noteq> to_string (i + k)" for q
  proof -
    have "q \<noteq> to_string i" "\<forall>k<length ls. q \<noteq> to_string (Suc i + k)" using that by (force, metis Suc_mono add_Suc_shift)
    then show ?thesis using IH(3) [of q] j1 by simp
  qed
  ultimately show ?case using IH(1) by simp
qed simp

lemma load_items_spec:
  assumes "\<forall>e\<in>set j. fst e = ''flush_seq'' \<or> (\<exists>n<N. e = (to_string n, JArr (nm n)))"
    and "\<And>n. n < N \<Longrightarrow> append_shards S (nm n) (InternalLevel_new n (length (nm n))) w = Inr (ld n)" and "length levels \<le> N"
  shows "\<exists>R. load_items S j w levels = Inr R \<and> length levels \<le> length R \<and> length R \<le> N \<and>
    (\<forall>n<N. to_string n \<in> fst ` set j \<longrightarrow> n < length R \<and> R ! n = Some (ld n)) \<and>
    (\<forall>n<length levels. to_string n \<notin> fst ` set j \<longrightarrow> R ! n = levels ! n)"
  using assms(1,3)
proof (induction j arbitrary: levels)
  case (Cons e j)
  show ?case
  proof (cases "fst e = ''flush_seq''")
    case True
    then obtain R where "load_items S j w levels = Inr R \<and> length levels \<le> length R \<and> length R \<le> N \<and>
      (\<forall>n<N. to_string n \<in> fst ` set j \<longrightarrow> n < length R \<and> R ! n = Some (ld n)) \<and>
      (\<forall>n<length levels. to_string n \<notin> fst ` set j \<longrightarrow> R ! n = levels ! n)" using Cons.IH [of levels] Cons.prems by auto
    then show ?thesis using True to_string_flush_seq by (cases e) (auto intro!: exI [of _ R] dest: sym)
  next
    case False
    then obtain m where m: "m < N" "e = (to_string m, JArr (nm m))" using Cons.prems(1) by auto
    define levels' where "levels' = (extend_to m levels)[m := Some (ld m)]"
    have len: "length levels' = max (length levels) (Suc m)" by (simp add: levels'_def extend_to_def)
    have nth: "levels' ! m = Some (ld m)" "\<And>n. n < length levels \<Longrightarrow> n \<noteq> m \<Longrightarrow> levels' ! n = levels ! n"
      by (simp_all add: levels'_def extend_to_def nth_append)
    obtain R where R: "load_items S j w levels' = Inr R" "length levels' \<le> length R" "length R \<le> N"
      "\<And>n. n < N \<Longrightarrow> to_string n \<in> fst ` set j \<Longrightarrow> n < length R \<and> R ! n = Some (ld n)"
      "\<And>n. n < length levels' \<Longrightarrow> to_string n \<notin> fst ` set j \<Longrightarrow> R ! n = levels' ! n"
      using Cons.IH [of levels'] Cons.prems m(1) len by auto
    have "load_items S (e # j) w levels = Inr R"
      using m False R(1) assms(2) [OF m(1)] by (simp add: stoi_to_string levels'_def)
    moreover have "n < length R \<and> R ! n = Some (ld n)" if "n < N" "to_string n \<in> fst ` set (e # j)" for n
      using that R(2) R(4) [of n] R(5) [of m] nth(1) len m(2)
      by (cases "to_string n \<in> fst ` set j") (auto simp: to_string_inj)
    moreover have "R ! n = levels ! n" if "n < length levels" "to_string n \<notin> fst ` set (e # j)" for n
      using that R(5) [of n] nth(2) [of n] len m(2) by (auto simp: to_string_inj)
    ultimately show ?thesis using R(2,3) len by (intro exI [of _ R]) simp
  qed
qed simp

section \<open>Shard files\<close>

definition dir_grows :: "'p disk \<Rightarrow> 'p disk \<Rightarrow> bool" where
  "dir_grows d d' \<longleftrightarrow> (\<forall>n f. shard_dir d n = Some f \<longrightarrow> shard_dir d' n = Some f)"

lemma dir_grows_refl [simp]: "dir_grows d d"
  by (simp add: dir_grows_def)

lemma dir_grows_trans: "dir_grows d d1 \<Longrightarrow> dir_grows d1 d2 \<Longrightarrow> dir_grows d d2"
  by (simp add: dir_grows_def)

lemma dir_grows_ckpt [simp]: "dir_grows d (d'\<lparr>ckpt_file := c\<rparr>) = dir_grows d d'" "dir_grows (d\<lparr>ckpt_file := c\<rparr>) d' = dir_grows d d'"
  by (simp_all add: dir_grows_def)

text \<open>
  Shards that live in files: \<open>file s\<close> is what the constructor wrote, a constructor leaves the files
  of other shards alone, and a shard can be opened again from its file.
\<close>

locale file_shard =
  fixes S :: "('s, 'r, 'f, 'p disk) shard_ops"
    and data :: "'s \<Rightarrow> 'r Wrapped list"
    and sinv :: "'s \<Rightarrow> bool"
    and winv :: "'p disk \<Rightarrow> bool"
    and shard_file :: "'s \<Rightarrow> 'p"
  assumes view_kept: "\<lbrakk>winv d; sh_of_view S v d = Inr (s, d')\<rbrakk> \<Longrightarrow>
      winv d' \<and> dir_grows d d' \<and> shard_dir d' (sh_filename S s) = Some (shard_file s)"
    and shards_kept: "\<lbrakk>winv d; sh_of_shards S ss d = Inr (s, d')\<rbrakk> \<Longrightarrow>
      winv d' \<and> dir_grows d d' \<and> shard_dir d' (sh_filename S s) = Some (shard_file s)"
    and file_winv_ckpt: "winv (d\<lparr>ckpt_file := c\<rparr>) = winv d"
    and reopened: "\<lbrakk>sinv s; shard_dir d (sh_filename S s) = Some (shard_file s)\<rbrakk> \<Longrightarrow>
      \<exists>s'. sh_of_file S (sh_filename S s) d = Inr s' \<and> data s' = data s"
begin

definition kept :: "'p disk \<Rightarrow> 's option \<Rightarrow> bool" where
  "kept d so \<longleftrightarrow> (case so of None \<Rightarrow> True | Some s \<Rightarrow> shard_dir d (sh_filename S s) = Some (shard_file s))"

definition level_kept :: "'p disk \<Rightarrow> 's InternalLevel \<Rightarrow> bool" where
  "level_kept d l \<longleftrightarrow> (\<forall>so\<in>set (m_shards l). kept d so) \<and> kept d (m_pending_shard l)"

definition struct_kept :: "'p disk \<Rightarrow> 's InternalLevel option list \<Rightarrow> bool" where
  "struct_kept d ls \<longleftrightarrow> (\<forall>l. Some l \<in> set ls \<longrightarrow> level_kept d l)"

definition step :: "'p disk \<Rightarrow> 'p disk \<Rightarrow> bool" where
  "step d d' \<longleftrightarrow> winv d' \<and> dir_grows d d'"

lemma kept_None [simp]: "kept d None"
  by (simp add: kept_def)

lemma kept_mono: "kept d so \<Longrightarrow> step d d' \<Longrightarrow> kept d' so"
  by (auto simp: kept_def step_def dir_grows_def split: option.splits)

lemma level_kept_mono: "level_kept d l \<Longrightarrow> step d d' \<Longrightarrow> level_kept d' l"
  by (auto simp: level_kept_def intro: kept_mono)

lemma struct_kept_mono: "struct_kept d ls \<Longrightarrow> step d d' \<Longrightarrow> struct_kept d' ls"
  by (auto simp: struct_kept_def intro: level_kept_mono)

lemma step_trans: "step d d1 \<Longrightarrow> step d1 d2 \<Longrightarrow> step d d2"
  by (auto simp: step_def intro: dir_grows_trans)

lemma made_kept:
  assumes "winv d"
  shows "sh_of_view S v d = Inr (s, d') \<Longrightarrow> step d d' \<and> kept d' (Some s)"
    and "sh_of_shards S ss d = Inr (s, d') \<Longrightarrow> step d d' \<and> kept d' (Some s)"
  using view_kept [OF assms] shards_kept [OF assms] by (auto simp: step_def kept_def)

lemma new_level_kept [simp]: "level_kept d (InternalLevel_new no cap)"
  by (simp add: level_kept_def)

lemma one_shard_kept [simp]: "level_kept d (one_shard_level no s) = kept d (Some s)"
  by (simp add: one_shard_level_def level_kept_def)

lemma level_reconstruction_kept:
  "level_reconstruction S b n d = Inr (l, d') \<Longrightarrow> winv d \<Longrightarrow> step d d' \<and> level_kept d' l"
  by (auto simp: level_reconstruction_def dest!: made_kept(2))

lemma level_reconstruction_all_kept:
  "level_reconstruction_all S ls i d = Inr (l, d') \<Longrightarrow> winv d \<Longrightarrow> step d d' \<and> level_kept d' l"
  by (auto simp: level_reconstruction_all_def dest!: made_kept(2))

lemma level_kept_put:
  assumes "level_kept d l" and "step d d'" and "kept d' so"
  shows "level_kept d' (l\<lparr>m_pending_shard := so\<rparr>)"
    and "level_kept d' (l\<lparr>m_shards := (m_shards l)[i := so], shard_cnt := n\<rparr>)"
proof -
  have "\<forall>so\<in>set (m_shards l). kept d' so" using assms by (auto simp: level_kept_def intro: kept_mono)
  then have "\<forall>so'\<in>set ((m_shards l)[i := so]). kept d' so'" using assms(3) by (intro Ball_list_update) auto
  then show "level_kept d' (l\<lparr>m_shards := (m_shards l)[i := so], shard_cnt := n\<rparr>)" "level_kept d' (l\<lparr>m_pending_shard := so\<rparr>)"
    using assms by (auto simp: level_kept_def intro: kept_mono)
qed

lemma append_level_kept:
  assumes "append_level S level l d = Inr (l', d')" and "winv d" and "level_kept d l"
  shows "step d d' \<and> level_kept d' l'"
  using assms by (auto simp: append_level_def Let_def vec_set_def step_def split: if_splits dest!: made_kept(2) intro: level_kept_put)

lemma append_buffer_kept:
  assumes "append_buffer S v l d = Inr (l', d')" and "winv d" and "level_kept d l"
  shows "step d d' \<and> level_kept d' l'"
  using assms by (auto simp: append_buffer_def vec_set_def step_def split: if_splits dest!: made_kept(1) intro: level_kept_put)

lemma finalize_kept:
  assumes "finalize l = Inr l'" and "level_kept d l"
  shows "level_kept d l'"
proof (cases "m_pending_shard l")
  case (Some p)
  have "\<forall>so\<in>set ((replicate (length (m_shards l)) None)[0 := Some p]). kept d so"
    using assms(2) Some by (intro Ball_list_update) (auto simp: level_kept_def)
  then show ?thesis using assms(1) Some by (auto simp: finalize_def vec_set_def level_kept_def split: if_splits)
qed (use assms in \<open>simp add: finalize_def\<close>)

section \<open>Versions\<close>

lemma struct_kept_update: "struct_kept d ls \<Longrightarrow> level_kept d l \<Longrightarrow> struct_kept d (ls[i := Some l])"
  by (auto simp: struct_kept_def dest!: set_update_subset_insert [THEN subsetD])

lemma struct_kept_append: "struct_kept d (ls @ [Some l]) \<longleftrightarrow> struct_kept d ls \<and> level_kept d l"
  by (auto simp: struct_kept_def)

lemma level_at_kept: "level_at st i = Inr l \<Longrightarrow> struct_kept d (m_levels st) \<Longrightarrow> level_kept d l"
  by (auto simp: level_at_def vec_get_def deref_def struct_kept_def split: if_splits option.splits dest: nth_mem)

lemma save_checkpoint_disk: "save_checkpoint S J ls n d = Inr d' \<Longrightarrow> \<exists>c. d' = d\<lparr>ckpt_file := Some c\<rparr>"
  by (auto simp: save_checkpoint_def)

lemma step_ckpt [simp]: "step d (d'\<lparr>ckpt_file := c\<rparr>) = step d d'" "step d d = winv d"
  by (simp_all add: step_def file_winv_ckpt)

lemma struct_kept_ckpt [simp]: "struct_kept (d\<lparr>ckpt_file := c\<rparr>) ls = struct_kept d ls"
  by (simp add: struct_kept_def level_kept_def kept_def split: option.split)

lemma reconstruction_kept:
  assumes "reconstruction S J L i k st d = Inr (st', d')" and "winv d" and "struct_kept d (m_levels st)"
  shows "step d d' \<and> struct_kept d' (m_levels st')"
proof -
  define cap where "cap = shard_capacity L st"
  define st1 where "st1 = (if i \<ge> length (m_levels st)
     then st\<lparr>m_levels := m_levels st @ [Some (InternalLevel_new i cap)], m_current_state := m_current_state st @ [empty_state st i cap]\<rparr> else st)"
  have k1: "struct_kept d (m_levels st1)" using assms(3) by (simp add: st1_def struct_kept_append)
  obtain base incoming l d1 ls1 ls2 d2 where r: "level_at st1 i = Inr base" "level_at st1 k = Inr incoming"
      "(if L = LEVELING then (if shard_cnt base > 0 then level_reconstruction S base incoming d else Inr (incoming, d))
        else bindE (append_level S incoming base d) (\<lambda>(l, d'). bindE (finalize l) (\<lambda>l'. Inr (l', d')))) = Inr (l, d1)"
      "vec_set (m_levels st1) i (Some l) = Inr ls1" "vec_set ls1 k (Some (InternalLevel_new k cap)) = Inr ls2"
      "save_checkpoint S J ls2 (m_flush_seq st) d1 = Inr d'" "m_levels st' = ls2"
    using assms(1) unfolding reconstruction_def Let_def cap_def [symmetric] st1_def [symmetric] by (clarsimp split del: if_split)
  note kb = level_at_kept [OF r(1) k1] level_at_kept [OF r(2) k1]
  have "step d d1 \<and> level_kept d1 l"
  proof (cases "L = LEVELING")
    case True
    then show ?thesis using r(3) kb(2) assms(2) level_reconstruction_kept by (auto split: if_splits)
  next
    case False
    then obtain l0 where "append_level S incoming base d = Inr (l0, d1)" "finalize l0 = Inr l" using r(3) by auto
    then show ?thesis using append_level_kept [OF _ assms(2) kb(1)] finalize_kept by blast
  qed
  moreover have "ls2 = (m_levels st1)[i := Some l, k := Some (InternalLevel_new k cap)]"
    using r(4,5) by (auto simp: vec_set_def split: if_splits)
  moreover obtain c where "d' = d1\<lparr>ckpt_file := Some c\<rparr>" using save_checkpoint_disk [OF r(6)] by blast
  ultimately show ?thesis using r(7) struct_kept_mono [OF k1] by (simp add: struct_kept_update)
qed

lemma run_merges_kept:
  "run_merges S J L ts st d = Inr (st', d') \<Longrightarrow> winv d \<Longrightarrow> struct_kept d (m_levels st) \<Longrightarrow> step d d' \<and> struct_kept d' (m_levels st')"
proof (induction ts arbitrary: st d)
  case (Cons t ts)
  then obtain src st1 d1 where r: "reconstruction S J L (nat (target t)) (nat src) st d = Inr (st1, d1)"
      "run_merges S J L ts st1 d1 = Inr (st', d')" by auto
  from reconstruction_kept [OF r(1) Cons.prems(2,3)] have "step d d1" "struct_kept d1 (m_levels st1)" by blast+
  with Cons.IH [OF r(2)] show ?case by (auto simp: step_def intro: dir_grows_trans)
qed simp

lemma clear_sources_kept:
  "clear_sources st tgt is (ls, cs) = Inr (ls', cs') \<Longrightarrow> struct_kept d ls \<Longrightarrow> struct_kept d ls'"
  by (induction "is" arbitrary: ls cs) (auto simp: vec_set_def struct_kept_update split: if_splits)

lemma reconstruction_bsm_kept:
  assumes "reconstruction_bsm S J t st d = Inr (st', d')" and "winv d" and "struct_kept d (m_levels st)"
  shows "step d d' \<and> struct_kept d' (m_levels st')"
proof -
  define tgt where "tgt = nat (target t)"
  define e where "e l = \<lparr>reccnt = level_record_count S l, reccap = calc_level_record_capacity st tgt, shardcnt = 1, shardcap = 1\<rparr>" for l
  define put where "put l = (if tgt \<ge> length (m_levels st) then m_levels st @ [Some l] else (m_levels st)[tgt := Some l])" for l
  define cs where "cs l = (if tgt \<ge> length (m_levels st) then m_current_state st @ [e l] else (m_current_state st)[tgt := e l])" for l
  have "reconstruction_bsm S J t st d = bindE (mapE (level_at st) (map nat (sources t))) (\<lambda>levels.
      bindE (level_reconstruction_all S levels tgt d) (\<lambda>(l, d1).
      bindE (clear_sources st tgt (map nat (sources t)) (put l, cs l)) (\<lambda>(ls', cs').
      bindE (save_checkpoint S J ls' (m_flush_seq st) d1) (\<lambda>d2. Inr (st\<lparr>m_levels := ls', m_current_state := cs'\<rparr>, d2)))))"
    unfolding reconstruction_bsm_def Let_def tgt_def [symmetric]
    by (cases "tgt \<ge> length (m_levels st)") (simp_all add: put_def cs_def e_def)
  with assms(1) obtain lvs l d1 ls' cs' where l: "level_reconstruction_all S lvs tgt d = Inr (l, d1)"
    and r: "clear_sources st tgt (map nat (sources t)) (put l, cs l) = Inr (ls', cs')"
      "save_checkpoint S J ls' (m_flush_seq st) d1 = Inr d'" "m_levels st' = ls'"
    by auto
  from level_reconstruction_all_kept [OF l assms(2)] have st: "step d d1" "level_kept d1 l" by blast+
  note k = struct_kept_mono [OF assms(3) st(1)]
  then have "struct_kept d1 (put l)" using st(2) by (simp add: put_def struct_kept_append struct_kept_update)
  then have "struct_kept d1 ls'" by (rule clear_sources_kept [OF r(1)])
  then show ?thesis using r(2,3) st(1) save_checkpoint_disk by fastforce
qed

lemma perform_merges_kept:
  "perform_merges S J L v st d = Inr (st', d') \<Longrightarrow> winv d \<Longrightarrow> struct_kept d (m_levels st) \<Longrightarrow> step d d' \<and> struct_kept d' (m_levels st')"
  by (auto simp: perform_merges_def split: if_splits list.splits dest: run_merges_kept reconstruction_bsm_kept)

lemma flush_buffer_into_l0_kept:
  assumes "flush_buffer_into_l0 S L v st d = Inr (st', d')" and "winv d" and "struct_kept d (m_levels st)"
  shows "step d d' \<and> struct_kept d' (m_levels st')"
proof -
  define cap where "cap = shard_capacity L st"
  define st1 where "st1 = (if m_levels st = [] then st\<lparr>m_levels := [Some (InternalLevel_new 0 cap)],
      m_current_state := m_current_state st @ [empty_state st 0 cap]\<rparr> else st)"
  have k1: "struct_kept d (m_levels st1)" using assms(3) by (simp add: st1_def struct_kept_def)
  obtain old l where r: "level_at st1 0 = Inr old"
      "(if L = LEVELING then bindE (append_buffer S v (InternalLevel_new 0 1) d) (\<lambda>(t, d1).
          if shard_cnt old > 0 then level_reconstruction S old t d1 else Inr (t, d1))
        else append_buffer S v old d) = Inr (l, d')" "m_levels st' = (m_levels st1)[0 := Some l]"
    using assms(1) unfolding flush_buffer_into_l0_def Let_def cap_def [symmetric] st1_def [symmetric] by (clarsimp split del: if_split)
  have "step d d' \<and> level_kept d' l"
  proof (cases "L = LEVELING")
    case True
    then obtain t d1 where t: "append_buffer S v (InternalLevel_new 0 1) d = Inr (t, d1)"
        "(if shard_cnt old > 0 then level_reconstruction S old t d1 else Inr (t, d1)) = Inr (l, d')"
      using r(2) by (auto split del: if_split)
    from append_buffer_kept [OF t(1) assms(2)] have s1: "step d d1" "level_kept d1 t" by simp_all
    then have "winv d1" by (simp add: step_def)
    show ?thesis
    proof (cases "shard_cnt old > 0")
      case pos: True
      then have "level_reconstruction S old t d1 = Inr (l, d')" using t(2) by simp
      from level_reconstruction_kept [OF this \<open>winv d1\<close>] step_trans [OF s1(1)] show ?thesis by blast
    qed (use t(2) s1 in simp)
  next
    case False
    then show ?thesis using r(2) append_buffer_kept [OF _ assms(2) level_at_kept [OF r(1) k1]] by simp
  qed
  then show ?thesis using r(3) struct_kept_mono [OF k1] by (simp add: struct_kept_update)
qed

text \<open>What a checkpoint says of a version.\<close>

definition ckpt_matches :: "json_ops \<Rightarrow> 's ExtensionStructure \<Rightarrow> 'p disk \<Rightarrow> bool" where
  "ckpt_matches J st d \<longleftrightarrow> m_levels st = [] \<and> ckpt_file d = None \<or>
     (\<exists>j. save_levels S (m_levels st) 0 (json_set ''flush_seq'' (JNum (m_flush_seq st)) []) = Inr j \<and> ckpt_file d = Some (json_dump J j))"

lemma rebuilt_kept:
  assumes "rebuilt S J L st d st' d'" and "winv d" and "struct_kept d (m_levels st)"
  shows "struct_kept d' (m_levels st')" and "ckpt_matches J st' d'"
proof -
  obtain v st1 d1 w where m: "perform_merges S J L v st d = Inr (st1, d1)" "flush_buffer S J L w st1 d1 = Inr (st', d')"
    using assms(1) by (auto simp: rebuilt_def)
  from perform_merges_kept [OF m(1) assms(2,3)] have s1: "winv d1" "struct_kept d1 (m_levels st1)" by (simp_all add: step_def)
  obtain st2 d2 where f: "flush_buffer_into_l0 S L w st1 d1 = Inr (st2, d2)" "st' = st2\<lparr>m_flush_seq := m_flush_seq st2 + 1\<rparr>"
      "save_checkpoint S J (m_levels st') (m_flush_seq st') d2 = Inr d'"
    using m(2) by (auto simp: flush_buffer_def Let_def split del: if_split)
  obtain c where c: "d' = d2\<lparr>ckpt_file := Some c\<rparr>" using save_checkpoint_disk [OF f(3)] by blast
  then show "struct_kept d' (m_levels st')"
    using flush_buffer_into_l0_kept [OF f(1) s1] f(2) by simp
  show "ckpt_matches J st' d'"
    using f(3) by (auto simp: ckpt_matches_def save_checkpoint_def)
qed

section \<open>Opening again\<close>

lemma append_shards_ok:
  assumes "list_all2 (\<lambda>n s. sh_of_file S n w = Inr s) ns ss" and "m_shards l = map Some pre @ replicate (length ss) None"
    and "shard_cnt l = length pre" and "m_pending_shard l = None"
  shows "\<exists>l'. append_shards S ns l w = Inr l' \<and> level_wf l' \<and> level_shards l' = pre @ ss"
  using assms
proof (induction arbitrary: l pre)
  case Nil
  then show ?case using level_wfI [of l pre 0] by simp
next
  case (Cons n ns s ss)
  let ?l = "l\<lparr>m_shards := (m_shards l)[shard_cnt l := Some s], shard_cnt := Suc (shard_cnt l)\<rparr>"
  have "m_shards ?l = map Some (pre @ [s]) @ replicate (length ss) None"
    using Cons.prems by (simp add: list_update_append1) (simp add: list_update_append)
  with Cons.IH [of ?l "pre @ [s]"] Cons.prems obtain l' where "append_shards S ns ?l w = Inr l'" "level_wf l'" "level_shards l' = pre @ s # ss"
    by auto
  then show ?case using Cons.hyps(1) Cons.prems by (simp add: append_shard_def)
qed

lemma reopen_shards:
  assumes "\<forall>s\<in>set ss. sinv s \<and> kept d (Some s)"
  shows "\<exists>ss'. list_all2 (\<lambda>n s. sh_of_file S n d = Inr s) (map (sh_filename S) ss) ss' \<and> map data ss' = map data ss"
  using assms
proof (induction ss)
  case (Cons s ss)
  then obtain s' ss' where "sh_of_file S (sh_filename S s) d = Inr s'" "data s' = data s"
      "list_all2 (\<lambda>n s. sh_of_file S n d = Inr s) (map (sh_filename S) ss) ss'" "map data ss' = map data ss"
    using reopened [of s d] by (auto simp: kept_def)
  then show ?case by (intro exI [of _ "s' # ss'"]) simp
qed simp

lemma reopen_level:
  assumes "level_ok sinv l" and "level_kept d l"
  shows "\<exists>l'. append_shards S (map (sh_filename S) (level_shards l)) (InternalLevel_new i (length (level_shards l))) d = Inr l' \<and>
    level_data data l' = level_data data l"
proof -
  have wf: "level_wf l" "\<forall>s\<in>set (level_shards l). sinv s" using assms(1) by (auto simp: level_ok_def)
  have "\<forall>s\<in>set (level_shards l). sinv s \<and> kept d (Some s)"
    using wf(2) assms(2) by (auto simp: level_shards_def live_shards_def level_kept_def)
  then obtain ss' where ss': "list_all2 (\<lambda>n s. sh_of_file S n d = Inr s) (map (sh_filename S) (level_shards l)) ss'"
      "map data ss' = map data (level_shards l)" using reopen_shards by blast
  have "length ss' = length (level_shards l)" using arg_cong [OF ss'(2), of length] by simp
  then show ?thesis
    using append_shards_ok [OF ss'(1), of "InternalLevel_new i (length (level_shards l))" "[]"] ss'(2) by (auto simp: level_data_def)
qed

text \<open>A version that its checkpoint describes and whose files are there can be loaded.\<close>

lemma reload_ok:
  assumes "json_ok J" and "ckpt_matches J st d" and "struct_kept d (m_levels st)" and "m_levels st = map Some (st_levels st)"
    and "\<forall>l\<in>set (st_levels st). level_ok sinv l"
  shows "\<exists>st' d'. ExtensionStructure_new S J L n sc p False d = Inr (st', d') \<and> struct_data data st' = struct_data data st \<and>
    m_levels st' = map Some (st_levels st') \<and> m_refcnt st' = 0"
proof (cases "m_levels st = [] \<and> ckpt_file d = None")
  case True
  then show ?thesis by (simp add: ExtensionStructure_new_def Let_def load_checkpoint_def empty_structure_def struct_data_def st_levels_def)
next
  case False
  let ?ls = "st_levels st"
  let ?N = "length ?ls"
  define nm where "nm n = map (sh_filename S) (level_shards (?ls ! n))" for n
  obtain j where j: "save_levels S (m_levels st) 0 (json_set ''flush_seq'' (JNum (m_flush_seq st)) []) = Inr j"
      "ckpt_file d = Some (json_dump J j)" using assms(2) False by (auto simp: ckpt_matches_def)
  have lv: "level_ok sinv (?ls ! k)" "level_kept d (?ls ! k)" if "k < ?N" for k
    using assms(3,5) that unfolding struct_kept_def assms(4) by simp_all
  have names: "shard_names S (m_levels st ! k) = Inr (nm k)" if "k < ?N" for k
    using that shard_names_wf [of "?ls ! k" S] lv(1) [OF that] by (subst assms(4)) (simp add: nm_def level_ok_def)
  have len: "length (m_levels st) = ?N" by (metis assms(4) length_map)
  from save_levels_spec [OF j(1)] have sv: "sorted_wrt (<) (map fst j)"
      "\<And>k. k < ?N \<Longrightarrow> map_of j (to_string k) = Some (JArr (nm k))"
      "\<And>q. (\<forall>k<?N. q \<noteq> to_string k) \<Longrightarrow> map_of j q = map_of [(''flush_seq'', JNum (m_flush_seq st))] q"
    using names len by fastforce+
  have fs: "map_of j ''flush_seq'' = Some (JNum (m_flush_seq st))"
    using sv(3) [of "''flush_seq''"] to_string_flush_seq by (metis map_of_Cons_code(2))
  have mem: "\<forall>e\<in>set j. fst e = ''flush_seq'' \<or> (\<exists>n<?N. e = (to_string n, JArr (nm n)))"
  proof
    fix e assume e: "e \<in> set j"
    have "distinct (map fst j)" using sv(1) by (simp add: strict_sorted_iff)
    then have me: "map_of j (fst e) = Some (snd e)" using e by simp
    show "fst e = ''flush_seq'' \<or> (\<exists>n<?N. e = (to_string n, JArr (nm n)))"
    proof (cases "\<forall>k<?N. fst e \<noteq> to_string k")
      case True
      then show ?thesis using sv(3) [OF True] me by (auto split: if_splits)
    next
      case False
      then obtain k where "k < ?N" "fst e = to_string k" by blast
      then show ?thesis using sv(2) [of k] me by (metis option.inject prod.collapse)
    qed
  qed
  have "\<forall>k. \<exists>l'. k < ?N \<longrightarrow> append_shards S (nm k) (InternalLevel_new k (length (nm k))) d = Inr l' \<and>
      level_data data l' = level_data data (?ls ! k)"
    using reopen_level [OF lv] by (auto simp: nm_def)
  from choice [OF this] obtain ld where ld: "\<And>k. k < ?N \<Longrightarrow> append_shards S (nm k) (InternalLevel_new k (length (nm k))) d = Inr (ld k) \<and>
      level_data data (ld k) = level_data data (?ls ! k)" by blast
  obtain R where R: "load_items S j d [] = Inr R" "length R \<le> ?N"
      "\<forall>n<?N. to_string n \<in> fst ` set j \<longrightarrow> n < length R \<and> R ! n = Some (ld n)"
    using load_items_spec [OF mem, of S d ld "[]"] ld by auto
  have "to_string n \<in> fst ` set j" if "n < ?N" for n using sv(2) [OF that] by (metis map_of_SomeD image_eqI fst_conv)
  with R(3) have Rn: "n < length R" "R ! n = Some (ld n)" if "n < ?N" for n using that by auto
  have "\<not> length R < ?N" using Rn(1) by blast
  then have "length R = ?N" using R(2) by simp
  then have "R = map Some (map ld [0..<?N])" using Rn(2) by (intro nth_equalityI) simp_all
  moreover have ld': "map (level_data data) (map ld [0..<?N]) = map (level_data data) ?ls"
    by (rule nth_equalityI) (simp_all add: ld)
  let ?st' = "\<lparr>m_scale_factor = sc, m_max_delete_prop = p, m_buffer_size = n, m_refcnt = 0, m_flush_seq = m_flush_seq st,
      m_levels = map Some (map ld [0..<?N]), m_current_state = map (loaded_state S L \<lparr>m_scale_factor = sc, m_max_delete_prop = p,
      m_buffer_size = n, m_refcnt = 0, m_flush_seq = m_flush_seq st, m_levels = map Some (map ld [0..<?N]), m_current_state = []\<rparr>) [0..<?N]\<rparr>"
  have lv': "st_levels ?st' = map ld [0..<?N]" by (simp add: st_levels_def comp_def)
  have "struct_data data ?st' = struct_data data st" unfolding struct_data_def lv' ld' ..
  moreover have "m_levels ?st' = map Some (st_levels ?st')" unfolding lv' by simp
  ultimately show ?thesis
    using j(2) assms(1) sv(1) fs R(1)
    by (intro exI [of _ ?st'])
      (simp add: ExtensionStructure_new_def Let_def load_checkpoint_def json_ok_def json_flush_seq_def empty_structure_def)
qed

end

section \<open>The buffer after a restart\<close>

lemma replay_into_fresh:
  assumes "buf_inv b" and "length (buf_list b) + length rs \<le> m_hwm b" and "m_tail b + length rs \<le> 2 ^ 31"
    and "\<forall>w\<in>set (buf_list b). \<not> is_deleted w"
  shows "\<forall>w\<in>set (buf_list (replay_into B rs b)). \<not> is_deleted w"
  using assms
proof (induction B rs b rule: replay_into.induct)
  case (2 B r ts rs b)
  obtain n b' where eq: "buffer_append B r ts False b = (n, b')" by fastforce
  have len: "length (buf_list b) < m_hwm b" "m_tail b < 2 ^ 31" using "2.prems" by simp_all
  note ap = buffer_append_refines [OF "2.prems"(1) len eq]
  show ?case using "2.IH" ap "2.prems" eq by simp
qed simp

lemma net_contents:
  assumes "contents ws = contents vs" and "\<forall>w\<in>set ws. \<not> is_deleted w" and "\<forall>w\<in>set vs. \<not> is_deleted w"
  shows "net ws = net vs"
proof
  fix q
  have *: "net us q = (\<Sum>(r, ts)\<leftarrow>contents us. if r = q then if ts then - 1 else 1 else 0)" if "\<forall>w\<in>set us. \<not> is_deleted w"
    for us :: "'a Wrapped list"
    using that by (induction us) (auto simp: net_Cons wt_def)
  show "net ws q = net vs q" unfolding * [OF assms(2)] * [OF assms(3)] assms(1) ..
qed

lemma restart_buffer:
  assumes "buf_inv b" and "log_mirrors b" and "m_wal b = Some l" and "m_hwm b \<le> 2 ^ 31" and "\<forall>w\<in>set (buf_list b). \<not> is_deleted w"
    and "lwm \<le> m_hwm b"
  shows "\<exists>b'. MutableBuffer_new B bf0 lwm (m_hwm b) 0 True (Some ((wal_file l)\<lparr>torn := t\<rparr>)) = Inr b' \<and>
    contents (buf_list b') = contents (buf_list b) \<and> net (buf_list b') = net (buf_list b)"
proof -
  define f where "f = (wal_file l)\<lparr>torn := t\<rparr>"
  have l: "\<forall>e\<in>set (entries f). entry_type e = INSERT" "contents (map payload (entries f)) = contents (buf_list b)"
    using assms(2,3) by (auto simp: log_mirrors_def f_def)
  have "length (entries f) = length (buf_list b)" using arg_cong [OF l(2), of length] by simp
  then have len: "length (entries f) \<le> m_hwm b" using buf_list_length_le [OF assms(1)] by simp
  note hw = buf_invD(2) [OF assms(1)]
  obtain b' where b': "MutableBuffer_new B bf0 lwm (m_hwm b) 0 True (Some f) = Inr b'" "contents (buf_list b') = contents (buf_list b)"
    using MutableBuffer_new_ok [OF hw assms(6) l(1) len, of B bf0] len assms(4) l(2) by auto
  define b0 where "b0 = \<lparr>m_lwm = lwm, m_hwm = m_hwm b, m_cap = 2 * m_hwm b, m_tail = 0,
    m_head = \<lparr>head_idx = 0, refcnt = 0\<rparr>, m_old_head = \<lparr>head_idx = m_hwm b, refcnt = 0\<rparr>,
    m_data = replicate (2 * m_hwm b) empty_payload, m_tombstone_filter = Some bf0, m_tscnt = 0,
    m_active_head_advance = False, m_wal = Some (WriteAheadLogger_new (Some f))\<rparr>"
  have b0: "buf_inv b0" "buf_list b0 = []" "m_hwm b0 = m_hwm b" "m_tail b0 = 0"
    using hw assms(6) by (simp_all add: b0_def buf_inv_def buf_list_def ring_list_def)
  have "b' = replay_into B (replay_records f) b0"
    using b'(1) hw assms(6) by (simp add: MutableBuffer_new_def Let_def b0_def build_buffer_from_log_def WriteAheadLogger_new_def)
  moreover have "length (replay_records f) \<le> m_hwm b" using replay_inserts [OF l(1)] len by simp
  ultimately have "\<forall>w\<in>set (buf_list b'). \<not> is_deleted w"
    using replay_into_fresh [of b0 "replay_records f" B] b0 assms(4) by simp
  with net_contents [OF b'(2) this assms(5)] b' show ?thesis by (auto simp: f_def)
qed

lemma buffer_append_hwm: "m_hwm (snd (buffer_append B r ts logging b)) = m_hwm b"
  by (auto simp: buffer_append_def try_advance_tail_def Let_def split: prod.splits option.splits)

section \<open>Running an index that can be opened again\<close>

locale durable_index = index_shard S data sinv winv adm + file_shard S data sinv winv shard_file
  for S :: "('s, 'r::{linorder,zero}, 'f, 'p disk) shard_ops"
    and data :: "'s \<Rightarrow> 'r Wrapped list"
    and sinv :: "'s \<Rightarrow> bool"
    and winv :: "'p disk \<Rightarrow> bool"
    and adm :: "'r Wrapped \<Rightarrow> bool"
    and shard_file :: "'s \<Rightarrow> 'p"
begin

definition durable :: "json_ops \<Rightarrow> ('s, 'r, 'f) DynamicExtension \<Rightarrow> 'p disk \<Rightarrow> bool" where
  "durable J x d \<longleftrightarrow> struct_kept d (m_levels (cur_struct x)) \<and> ckpt_matches J (cur_struct x) d \<and> log_mirrors (m_buffer x)"

lemma internal_append_durable:
  assumes "ext_ok S data sinv L adm x" and "winv d" and "durable J x d" and "m_tail (m_buffer x) < 2 ^ 31"
    and "is_at_low_watermark (m_buffer x) \<Longrightarrow> flush_safe data L x"
    and "internal_append S J B L junk r ts True x d = Inr (n, x', d')"
  shows "durable J x' d' \<and> m_hwm (m_buffer x') = m_hwm (m_buffer x)"
proof -
  let ?b = "m_buffer x"
  have ok: "ext_frame x" "buf_inv ?b" "m_epoch_cnt x \<le> head_idx (m_head ?b)" "0 < m_lwm ?b" "\<not> m_reconstruction_scheduled x"
    using assms(1) by (auto simp: ext_ok_def ext_frame_def)
  obtain x1 where x1: "(if is_at_low_watermark ?b \<and> \<not> m_reconstruction_scheduled x
       then schedule_reconstruction S J L junk (x\<lparr>m_reconstruction_scheduled := True\<rparr>) d else Inr (x, d)) = Inr (x1, d')"
      "x' = x1\<lparr>m_buffer := snd (buffer_append B r ts True (m_buffer x1))\<rparr>"
    using assms(6) by (auto simp: internal_append_def Let_def case_prod_unfold split del: if_split)
  have "durable J x1 d' \<and> buf_inv (m_buffer x1) \<and> m_tail (m_buffer x1) = m_tail ?b \<and> m_hwm (m_buffer x1) = m_hwm ?b"
  proof (cases "is_at_low_watermark ?b")
    case True
    have ne: "buf_list ?b \<noteq> []" using True ok(2,4) by (auto simp: is_at_low_watermark_def)
    have "Suc (m_epoch_cnt x) < size_max" using ok(3) buf_invD(5) [OF ok(2)] assms(4) size_max_gt(2) by linarith
    with schedule_reconstruction_ok [OF assms(1,2) _ ne, of J junk] assms(5) [OF True] True ok(5) x1(1)
    have sr: "ext_ok S data sinv L adm x1" "m_tail (m_buffer x1) = m_tail ?b" "m_hwm (m_buffer x1) = m_hwm ?b" "advance_head (m_tail ?b) ?b = Inr (True, m_buffer x1)"
      "rebuilt S J L ((cur_struct x)\<lparr>m_refcnt := 1\<rparr>) d (cur_struct x1) d'"
      unfolding flush_safe_def by fastforce+
    have "struct_kept d (m_levels ((cur_struct x)\<lparr>m_refcnt := 1\<rparr>))" using assms(3) by (simp add: durable_def)
    from rebuilt_kept [OF sr(5) assms(2) this] log_mirrors_flush [OF ok(2) _ sr(4)] assms(3) sr(1-3)
    show ?thesis by (simp add: durable_def ext_ok_def ext_frame_def)
  next
    case False
    then show ?thesis using x1(1) assms(3) ok(2) by simp
  qed
  then show ?thesis
    using log_mirrors_append [of "m_buffer x1" B r ts] assms(4) by (simp add: durable_def x1(2) cur_struct_def buffer_append_hwm)
qed

lemma ext_run_durable:
  assumes "ext_ok S data sinv L adm x" and "winv d" and "durable J x d" and "\<And>pos r. Insert r \<in> set cs \<Longrightarrow> adm (stamped pos r False)"
    and "\<And>pos r. Erase r \<in> set cs \<Longrightarrow> adm (stamped pos r True)"
    and "m_tail (m_buffer x) + length cs \<le> 2 ^ 31" and "safe_run S data J B L junk cs x d"
    and "ext_run S J B L junk cs x d = Inr (ns, x', d')"
  shows "durable J x' d' \<and> m_hwm (m_buffer x') = m_hwm (m_buffer x)"
  using assms
proof (induction cs arbitrary: x d ns)
  case (Cons c cs)
  have "\<exists>x1 d1. ext_exec S J B L junk c x d = Inr (1, x1, d1) \<and> winv d1 \<and> ext_ok S data sinv L adm x1 \<and>
    (\<forall>q. ext_net data x1 q = ext_net data x q + op_effect c q) \<and> m_tail (m_buffer x1) = Suc (m_tail (m_buffer x))"
    using Cons.prems by (intro ext_exec_ok) (auto split: if_splits)
  then obtain x1 d1 where 1: "ext_exec S J B L junk c x d = Inr (1, x1, d1)" "winv d1" "ext_ok S data sinv L adm x1"
      "m_tail (m_buffer x1) = Suc (m_tail (m_buffer x))" by blast
  have "\<exists>r ts. internal_append S J B L junk r ts True x d = Inr (1, x1, d1)"
    using 1(1) by (cases c) (auto simp: de_insert_def de_erase_def)
  then have "durable J x1 d1 \<and> m_hwm (m_buffer x1) = m_hwm (m_buffer x)"
    using internal_append_durable [OF Cons.prems(1-3)] Cons.prems(6,7) by auto
  then show ?case
    using Cons.IH [OF 1(3,2)] Cons.prems(4-8) 1(1,4) by auto
qed simp

lemma new_durable:
  assumes "DynamicExtension_new S J B bf0 L lwm hwm scale mb tc False True None d = Inr (x, d)" and "ckpt_file d = None"
    and "0 < lwm" and "lwm \<le> hwm"
  shows "durable J x d"
proof -
  obtain b where b: "MutableBuffer_new B bf0 lwm hwm 0 True None = Inr b" "run_inv b"
    using MutableBuffer_new_empty assms(3,4) by (metis order.strict_trans2)
  then have "m_buffer x = b \<and> cur_struct x = take_reference (empty_structure hwm scale 1)"
    using assms(1,2) by (auto simp: DynamicExtension_new_def ExtensionStructure_new_def Let_def load_checkpoint_def empty_structure_def
        cur_struct_def Epoch_new_def)
  then show ?thesis using b(2) assms(2)
    by (simp add: durable_def run_inv_def struct_kept_def ckpt_matches_def take_reference_def empty_structure_def)
qed

lemma restart_ok:
  assumes "ext_ok S data sinv L adm x" and "durable J x d" and "json_ok J" and "\<And>w. adm w \<Longrightarrow> \<not> is_deleted w"
    and "m_hwm (m_buffer x) = hwm" and "hwm \<le> 2 ^ 31" and "lwm \<le> hwm" and "L = BSM \<longrightarrow> scale = 2" and "m_wal (m_buffer x) = Some l"
  shows "\<exists>y d'. DynamicExtension_new S J B bf0 L lwm hwm scale mb tc False True (Some ((wal_file l)\<lparr>torn := t\<rparr>)) d = Inr (y, d') \<and>
    ext_net data y = ext_net data x \<and> contents (buf_list (m_buffer y)) = contents (buf_list (m_buffer x)) \<and>
    struct_data data (cur_struct y) = struct_data data (cur_struct x)"
proof -
  let ?b = "m_buffer x"
  have ok: "buf_inv ?b" "\<forall>w\<in>set (buf_list ?b). adm w" using assms(1) by (auto simp: ext_ok_def ext_frame_def)
  obtain b' where b': "MutableBuffer_new B bf0 lwm hwm 0 True (Some ((wal_file l)\<lparr>torn := t\<rparr>)) = Inr b'"
      "contents (buf_list b') = contents (buf_list ?b)" "net (buf_list b') = net (buf_list ?b)"
    using restart_buffer [OF ok(1) _ assms(9), of lwm B bf0 t] assms(2,4-7) ok(2) by (auto simp: durable_def)
  note sb = ext_okD(2) [OF assms(1)]
  obtain st' d' where st': "ExtensionStructure_new S J L hwm scale 1 False d = Inr (st', d')" "struct_data data st' = struct_data data (cur_struct x)"
    using reload_ok [OF assms(3) _ _ struct_baseD(1) [OF sb] struct_shards_inv(1) [OF assms(1)], of d L hwm scale 1] assms(2)
    by (auto simp: durable_def)
  let ?y = "\<lparr>de_scale_factor = scale, de_max_delete_prop = 1, m_sched = SerialScheduler_new mb tc, m_buffer = b', m_epoch_cnt = 0,
      m_reconstruction_scheduled = False, m_next_epoch = null_epoch, m_current_epoch = \<lparr>ep_epoch = Some (Epoch_new 0 st' 0), ep_refcnt = 0\<rparr>,
      m_previous_epoch = null_epoch\<rparr>"
  have "cur_struct ?y = take_reference st'" by (simp add: cur_struct_def Epoch_new_def)
  moreover have "struct_data data (take_reference st') = struct_data data st'" by (simp add: take_reference_def)
  moreover have "DynamicExtension_new S J B bf0 L lwm hwm scale mb tc False True (Some ((wal_file l)\<lparr>torn := t\<rparr>)) d = Inr (?y, d')"
    using b'(1) st'(1) assms(8) by (simp add: DynamicExtension_new_def)
  ultimately show ?thesis using b'(2,3) st'(2) by (intro exI [of _ ?y] exI [of _ d']) (simp add: ext_net_def fun_eq_iff)
qed

end

end
