(* ===== verification/DE_ExtIsam.thy ===== *)
theory DE_ExtIsam
  imports DE_Rebuild
begin

text \<open>
  The shard type the framework runs with: a static tree in a file
  (\<^verbatim>\<open>include/shard/ExternalISAMTree.h\<close>). Page 0 of the file is a header, pages \<open>1 \<dots> last_data_page\<close>
  hold the sorted records, the pages after them the internal levels, the last one being the
  root. A file is a map from page numbers to pages; a page that was never written reads as
  undefined bytes. Numbers of pages and records stay below the limits of their types (a file of
  fewer than \<open>2 ^ 32\<close> pages).
\<close>

section \<open>Pages, files and shards\<close>

record isam_header =
  hd_id :: string
  hd_root_page :: nat
  hd_last_data_page :: nat
  hd_reccnt :: nat
  hd_internal_node_cnt :: nat

datatype ('k, 'v) page =
    Header isam_header
  | DataPage "('k, 'v) Record Wrapped list"
  | NodePage "('k \<times> nat) list"

type_synonym ('k, 'v) isam_file = "nat \<Rightarrow> ('k, 'v) page option"

record ('k, 'v) ISAMTree =
  m_root_page :: nat
  m_last_data_page :: nat
  m_reccnt :: nat
  m_tombstone_cnt :: nat
  m_internal_node_cnt :: nat
  m_id :: string
  m_file :: "('k, 'v) isam_file"

text \<open>
  What the code takes from its template arguments and from libraries: the sizes of a wrapped
  record and of a key, the names \<^verbatim>\<open>uuids\<close> generates, the order in which \<^verbatim>\<open>std::sort\<close> leaves equal
  records, and which of several least entries \<^verbatim>\<open>std::priority_queue\<close> returns.
\<close>

record ('k, 'v) isam_cfg =
  rec_sz :: nat
  key_sz :: nat
  cfg_uuid :: "nat \<Rightarrow> string"
  cfg_srt :: "('k, 'v) Record Wrapped list \<Rightarrow> ('k, 'v) Record Wrapped list"
  cfg_pick :: "(('k, 'v) Record Wrapped \<times> nat) list \<Rightarrow> nat"

definition NODE_SZ :: nat where
  "NODE_SZ = 4096"

definition INTERNAL_FANOUT :: "('k, 'v) isam_cfg \<Rightarrow> nat" where
  "INTERNAL_FANOUT c = NODE_SZ div (key_sz c + 4)"

definition LEAF_FANOUT :: "('k, 'v) isam_cfg \<Rightarrow> nat" where
  "LEAF_FANOUT c = NODE_SZ div rec_sz c"

definition read_data :: "('k, 'v) isam_file \<Rightarrow> nat \<Rightarrow> ('k, 'v) Record Wrapped list res" where
  "read_data f n = (case f n of Some (DataPage ws) \<Rightarrow> Inr ws | _ \<Rightarrow> Inl UninitRead)"

definition read_node :: "('k, 'v) isam_file \<Rightarrow> nat \<Rightarrow> ('k \<times> nat) list res" where
  "read_node f n = (case f n of Some (NodePage es) \<Rightarrow> Inr es | _ \<Rightarrow> Inl UninitRead)"

definition page_rec :: "'r Wrapped list \<Rightarrow> nat \<Rightarrow> 'r Wrapped res" where
  "page_rec buf i = (if i < length buf then Inr (buf ! i) else Inl UninitRead)"

section \<open>Sorted runs\<close>

text \<open>The chunks \<open>[0, n), [n, 2n), \<dots>\<close> of the view, each fetched record by record and sorted.\<close>

definition chunk_count :: "('k, 'v) isam_cfg \<Rightarrow> nat \<Rightarrow> nat" where
  "chunk_count c n = (n + LEAF_FANOUT c - 1) div LEAF_FANOUT c"

definition chunk_len :: "('k, 'v) isam_cfg \<Rightarrow> nat \<Rightarrow> nat \<Rightarrow> nat" where
  "chunk_len c n k = min (LEAF_FANOUT c) (n - k * LEAF_FANOUT c)"

definition create_sorted_runs ::
    "('k, 'v) isam_cfg \<Rightarrow> nat \<Rightarrow> (('k, 'v) Record, 'f) BufferView \<Rightarrow> ('k, 'v) isam_file list res" where
  "create_sorted_runs c cnt bv =
     mapE (\<lambda>k.
       bindE (mapE (\<lambda>i. view_get bv (k * LEAF_FANOUT c + i)) [0..<chunk_len c cnt k]) (\<lambda>chunk.
       Inr (\<lambda>n. if n = 0 then Some (DataPage (cfg_srt c chunk)) else None)))
       [0..<chunk_count c cnt]"

section \<open>The external merge\<close>

record ('k, 'v) merge_state =
  ms_buffers :: "('k, 'v) Record Wrapped list list"
  ms_insert_cnt :: "nat list"
  ms_remaining :: "nat list"
  ms_heap :: "(('k, 'v) Record Wrapped \<times> nat) list"

text \<open>The output: the file so far, the records of the current page, and its number.\<close>

record ('k, 'v) merge_output =
  mo_file :: "('k, 'v) isam_file"
  mo_page :: "('k, 'v) Record Wrapped list"
  mo_curr :: nat

definition run_page :: "bool \<Rightarrow> nat \<Rightarrow> nat" where
  "run_page shards n = (if shards then n + 1 else n)"

text \<open>The first record of every run goes into the heap.\<close>

fun fill_heap ::
    "bool \<Rightarrow> ('k, 'v) isam_file list \<Rightarrow> nat list \<Rightarrow> nat \<Rightarrow> ('k, 'v) merge_state \<Rightarrow> ('k, 'v) merge_state res" where
  "fill_heap shards [] cnts i ms = Inr ms"
| "fill_heap shards (f # fs) cnts i ms =
     bindE (read_data f (run_page shards 0)) (\<lambda>buf.
     bindE (page_rec buf 0) (\<lambda>w.
     bindE (vec_get cnts i) (\<lambda>n.
     fill_heap shards fs cnts (Suc i)
       \<lparr>ms_buffers = ms_buffers ms @ [buf], ms_insert_cnt = ms_insert_cnt ms @ [1],
        ms_remaining = ms_remaining ms @ [sz_sub n 1], ms_heap = pq_push (w, i) (ms_heap ms)\<rparr>)))"

text \<open>After an entry of run \<open>idx\<close> was taken: queue the run's next record, if it has one left.\<close>

definition refill ::
    "('k, 'v) isam_cfg \<Rightarrow> bool \<Rightarrow> ('k, 'v) isam_file list \<Rightarrow> nat \<Rightarrow> ('k, 'v) merge_state \<Rightarrow> ('k, 'v) merge_state res" where
  "refill c shards fds idx ms =
     bindE (vec_get (ms_remaining ms) idx) (\<lambda>left.
     if left > 0 then
       (let n = ms_insert_cnt ms ! idx in
        bindE (if n mod LEAF_FANOUT c = 0
               then bindE (vec_get fds idx) (\<lambda>f. read_data f (run_page shards (n div LEAF_FANOUT c)))
               else Inr (ms_buffers ms ! idx)) (\<lambda>buf.
        bindE (page_rec buf (n mod LEAF_FANOUT c)) (\<lambda>w.
        Inr \<lparr>ms_buffers = (ms_buffers ms)[idx := buf], ms_insert_cnt = (ms_insert_cnt ms)[idx := Suc n],
             ms_remaining = (ms_remaining ms)[idx := left - 1], ms_heap = pq_push (w, idx) (ms_heap ms)\<rparr>)))
     else Inr ms)"

definition emit_page ::
    "('k, 'v) isam_cfg \<Rightarrow> ('k, 'v) Record Wrapped \<Rightarrow> ('k, 'v) merge_output \<Rightarrow> ('k, 'v) merge_output" where
  "emit_page c w o1 =
     (let o2 = (if length (mo_page o1) = LEAF_FANOUT c
                then \<lparr>mo_file = (mo_file o1)(mo_curr o1 \<mapsto> DataPage (mo_page o1)), mo_page = [],
                      mo_curr = Suc (mo_curr o1)\<rparr>
                else o1)
      in o2\<lparr>mo_page := mo_page o2 @ [w]\<rparr>)"

definition annihilate :: "'r Wrapped \<Rightarrow> 'r Wrapped \<Rightarrow> bool" where
  "annihilate a b \<longleftrightarrow> rec a = rec b \<and> is_tombstone a \<noteq> is_tombstone b"

lemma refill_measure:
  assumes "refill c shards fds idx ms = Inr ms'"
  shows "sum_list (ms_remaining ms') + length (ms_heap ms') \<le> sum_list (ms_remaining ms) + length (ms_heap ms)"
proof (cases "idx < length (ms_remaining ms) \<and> 0 < ms_remaining ms ! idx")
  case True
  then have "ms_remaining ms ! idx \<le> sum_list (ms_remaining ms)" by (intro elem_le_sum_list) simp
  then show ?thesis
    using assms True by (auto simp: refill_def Let_def sum_list_update)
next
  case False
  then show ?thesis using assms by (auto simp: refill_def vec_get_def split: if_splits)
qed

function merge_runs ::
    "('k::linorder, 'v::linorder) isam_cfg \<Rightarrow> bool \<Rightarrow> ('k, 'v) isam_file list \<Rightarrow> ('k, 'v) merge_state \<Rightarrow> nat \<Rightarrow>
     ('k, 'v) merge_output \<Rightarrow> (nat \<times> ('k, 'v) merge_output) res" where
  "merge_runs c shards fds ms cancelled out =
     (if ms_heap ms = [] then Inr (cancelled, out)
      else
        let min = pq_peek (cfg_pick c) (ms_heap ms);
            ms1 = ms\<lparr>ms_heap := pq_pop (cfg_pick c) (ms_heap ms)\<rparr> in
        case refill c shards fds (snd min) ms1 of
          Inl e \<Rightarrow> Inl e
        | Inr ms2 \<Rightarrow>
            if ms_heap ms2 \<noteq> [] \<and> annihilate (fst (pq_peek (cfg_pick c) (ms_heap ms2))) (fst min) then
              (let other = pq_peek (cfg_pick c) (ms_heap ms2);
                   ms3 = ms2\<lparr>ms_heap := pq_pop (cfg_pick c) (ms_heap ms2)\<rparr> in
               case refill c shards fds (snd other) ms3 of
                 Inl e \<Rightarrow> Inl e
               | Inr ms4 \<Rightarrow> merge_runs c shards fds ms4 (Suc cancelled) out)
            else merge_runs c shards fds ms2 cancelled (emit_page c (fst min) out))"
  by pat_completeness auto
termination
proof (relation "measure (\<lambda>(c, shards, fds, ms, n, out). sum_list (ms_remaining ms) + length (ms_heap ms))", goal_cases)
  case (2 c shards fds ms cancelled out min ms1 ms2 other ms3 ms4)
  have "sum_list (ms_remaining ms4) + length (ms_heap ms4) \<le> sum_list (ms_remaining ms3) + length (ms_heap ms3)"
    using 2 by (intro refill_measure) simp
  also have "\<dots> \<le> sum_list (ms_remaining ms2) + length (ms_heap ms2)" using 2 by simp
  also have "\<dots> \<le> sum_list (ms_remaining ms1) + length (ms_heap ms1)"
    using 2 by (intro refill_measure) simp
  also have "\<dots> < sum_list (ms_remaining ms) + length (ms_heap ms)" using 2 by simp
  finally show ?case by simp
next
  case (3 c shards fds ms cancelled out min ms1 ms2)
  have "sum_list (ms_remaining ms2) + length (ms_heap ms2) \<le> sum_list (ms_remaining ms1) + length (ms_heap ms1)"
    using 3 by (intro refill_measure) simp
  also have "\<dots> < sum_list (ms_remaining ms) + length (ms_heap ms)" using 3 by simp
  finally show ?case by simp
qed simp

declare merge_runs.simps [simp del]

text \<open>
  \<^verbatim>\<open>external_merge_sort\<close>: the last page is padded with zero bytes. The results are the file, the
  number of its last data page, and the record and tombstone counts after cancellation.
  \<open>cnts\<close> gives the number of records of each run, as both callers pass it.
\<close>

definition pad_page :: "('k::zero, 'v::zero) isam_cfg \<Rightarrow> ('k, 'v) Record Wrapped list \<Rightarrow> ('k, 'v) Record Wrapped list" where
  "pad_page c ws = ws @ replicate (LEAF_FANOUT c - length ws) \<lparr>header = 0, rec = Record 0 0\<rparr>"

definition external_merge_sort ::
    "('k::{linorder,zero}, 'v::{linorder,zero}) isam_cfg \<Rightarrow> ('k, 'v) isam_file list \<Rightarrow> bool \<Rightarrow> nat list \<Rightarrow> nat \<Rightarrow> nat \<Rightarrow>
     (('k, 'v) isam_file \<times> nat \<times> nat \<times> nat) res" where
  "external_merge_sort c run_fds shards cnts cnt tombstone_cnt =
     bindE (fill_heap shards run_fds cnts 0
       \<lparr>ms_buffers = [], ms_insert_cnt = [], ms_remaining = [], ms_heap = []\<rparr>) (\<lambda>ms.
     bindE (merge_runs c shards run_fds ms 0 \<lparr>mo_file = (\<lambda>_. None), mo_page = [], mo_curr = 1\<rparr>)
       (\<lambda>(cancelled, out).
     let file = (if mo_page out \<noteq> [] then (mo_file out)(mo_curr out \<mapsto> DataPage (pad_page c (mo_page out)))
                 else mo_file out);
         cnt' = sz_sub cnt (2 * cancelled) in
     Inr (file, if cnt' > 0 then mo_curr out else 0, cnt', sz_sub tombstone_cnt cancelled)))"

section \<open>The internal levels\<close>

text \<open>The largest key below a page, as \<^verbatim>\<open>build_internal_levels\<close> reads it.\<close>

definition node_fill :: "('k \<times> nat) list \<Rightarrow> nat" where
  "node_fill es = length (takeWhile (\<lambda>(k, ch). ch \<noteq> 0) es)"

definition child_key :: "('k, 'v) isam_cfg \<Rightarrow> nat \<Rightarrow> nat \<Rightarrow> ('k, 'v) isam_file \<Rightarrow> nat \<Rightarrow> 'k res" where
  "child_key c last_data_page cnt f child_page =
     (if child_page \<le> last_data_page then
        (let records_on_page = min (LEAF_FANOUT c) (cnt - (child_page - 1) * LEAF_FANOUT c) in
         bindE (read_data f child_page) (\<lambda>recs.
         if records_on_page = 0 then Inl OutOfBounds
         else bindE (page_rec recs (records_on_page - 1)) (\<lambda>w. Inr (key (rec w)))))
      else
        bindE (read_node f child_page) (\<lambda>es.
        let n = node_fill es in if n = 0 then Inl OutOfBounds else Inr (fst (es ! (n - 1)))))"

text \<open>One level of nodes over the pages \<open>child \<dots> last_page\<close>, written from page \<open>write_page\<close> on.\<close>

function build_level ::
    "('k::zero, 'v) isam_cfg \<Rightarrow> nat \<Rightarrow> nat \<Rightarrow> nat \<Rightarrow> nat \<Rightarrow> nat \<Rightarrow> ('k, 'v) isam_file \<Rightarrow> (nat \<times> ('k, 'v) isam_file) res" where
  "build_level c ldp cnt last_page child write_page f =
     (if child > last_page then Inr (write_page, f)
      else if INTERNAL_FANOUT c = 0 then Inl Blocked
      else
        (let m = min (INTERNAL_FANOUT c) (Suc last_page - child) in
         case mapE (\<lambda>ch. bindE (child_key c ldp cnt f ch) (\<lambda>k. Inr (k, ch))) [child..<child + m] of
           Inl e \<Rightarrow> Inl e
         | Inr es \<Rightarrow> build_level c ldp cnt last_page (child + m) (Suc write_page)
             (f(write_page \<mapsto> NodePage (es @ replicate (INTERNAL_FANOUT c - m) (0, 0))))))"
  by pat_completeness auto
termination
  by (relation "measure (\<lambda>(c, ldp, cnt, last_page, child, wp, f). Suc last_page - child)") auto

declare build_level.simps [simp del]

lemma build_level_pages:
  assumes "build_level c ldp cnt last_page child wp f = Inr (wp', f')" and "2 \<le> INTERNAL_FANOUT c"
  shows "2 * (wp' - wp) \<le> Suc last_page - child + 1 \<and> wp \<le> wp'"
  using assms
proof (induction c ldp cnt last_page child wp f rule: build_level.induct)
  case (1 c ldp cnt last_page child wp f)
  show ?case
  proof (cases "child > last_page")
    case True
    then show ?thesis using "1.prems" by (simp add: build_level.simps)
  next
    case False
    let ?m = "min (INTERNAL_FANOUT c) (Suc last_page - child)"
    obtain es where es: "mapE (\<lambda>ch. bindE (child_key c ldp cnt f ch) (\<lambda>k. Inr (k, ch))) [child..<child + ?m] = Inr es"
        "build_level c ldp cnt last_page (child + ?m) (Suc wp)
          (f(wp \<mapsto> NodePage (es @ replicate (INTERNAL_FANOUT c - ?m) (0, 0)))) = Inr (wp', f')"
      using "1.prems" False by (subst (asm) build_level.simps) (auto simp: Let_def split: sum.splits)
    have "INTERNAL_FANOUT c \<noteq> 0" using "1.prems"(2) by simp
    from "1.IH" [OF False this refl es] "1.prems"(2)
    have "2 * (wp' - Suc wp) \<le> Suc last_page - (child + ?m) + 1 \<and> Suc wp \<le> wp'" .
    moreover have "2 \<le> ?m \<or> Suc last_page - child = 1 \<and> ?m = 1" using "1.prems"(2) False by auto
    ultimately show ?thesis using False by (elim disjE conjE) arith+
  qed
qed

function build_internal_levels ::
    "('k::zero, 'v) isam_cfg \<Rightarrow> nat \<Rightarrow> nat \<Rightarrow> nat \<Rightarrow> nat \<Rightarrow> ('k, 'v) isam_file \<Rightarrow> (nat \<times> ('k, 'v) isam_file) res" where
  "build_internal_levels c ldp cnt first_page last_page f =
     (if first_page = last_page then Inr (first_page, f)
      else if INTERNAL_FANOUT c < 2 \<or> last_page < first_page then Inl Blocked
      else case build_level c ldp cnt last_page first_page (Suc last_page) f of
             Inl e \<Rightarrow> Inl e
           | Inr (wp, f') \<Rightarrow> build_internal_levels c ldp cnt (Suc last_page) (wp - 1) f')"
  by pat_completeness auto
termination
proof (relation "measure (\<lambda>(c, ldp, cnt, first_page, last_page, f). Suc last_page - first_page)", goal_cases)
  case (2 c ldp cnt first_page last_page f p wp f')
  then have "2 * (wp - Suc last_page) \<le> Suc last_page - first_page + 1" using build_level_pages by force
  moreover have "first_page < last_page" using 2 by auto
  ultimately have "wp - Suc last_page < Suc last_page - first_page" by linarith
  then show ?case by simp
qed simp

declare build_internal_levels.simps [simp del]

section \<open>Constructors\<close>

definition get_filename :: "('k, 'v) ISAMTree \<Rightarrow> string" where
  "get_filename s = m_id s @ ''.dat''"

definition write_header :: "('k, 'v) ISAMTree \<Rightarrow> ('k, 'v) ISAMTree" where
  "write_header s =
     s\<lparr>m_file := (m_file s)(0 \<mapsto> Header \<lparr>hd_id = m_id s, hd_root_page = m_root_page s,
        hd_last_data_page = m_last_data_page s, hd_reccnt = m_reccnt s,
        hd_internal_node_cnt = m_internal_node_cnt s\<rparr>)\<rparr>"

text \<open>
  The common end of both constructors: build the internal levels over the merged data, write the
  header, and rename the temporary file into the shard directory.
\<close>

definition finish_shard ::
    "('k::zero, 'v) isam_cfg \<Rightarrow> string \<Rightarrow> ('k, 'v) isam_file \<times> nat \<times> nat \<times> nat \<Rightarrow> ('k, 'v) isam_file disk \<Rightarrow>
     (('k, 'v) ISAMTree \<times> ('k, 'v) isam_file disk) res" where
  "finish_shard c name merged d =
     (case merged of (f, ldp, cnt, tscnt) \<Rightarrow>
      bindE (if cnt > 0 then build_internal_levels c ldp cnt 1 ldp f else Inr (0, f)) (\<lambda>(root, f').
      let s = write_header \<lparr>m_root_page = root, m_last_data_page = ldp, m_reccnt = cnt,
                m_tombstone_cnt = tscnt, m_internal_node_cnt = root - ldp, m_id = name, m_file = f'\<rparr>
      in Inr (s, d\<lparr>shard_dir := (shard_dir d)(get_filename s \<mapsto> m_file s)\<rparr>)))"

definition generate_uuid :: "('k, 'v) isam_cfg \<Rightarrow> 'p disk \<Rightarrow> string \<times> 'p disk" where
  "generate_uuid c d = (cfg_uuid c (uuid_cnt d), d\<lparr>uuid_cnt := Suc (uuid_cnt d)\<rparr>)"

definition isam_of_view ::
    "('k::{linorder,zero}, 'v::{linorder,zero}) isam_cfg \<Rightarrow> (('k, 'v) Record, 'f) BufferView \<Rightarrow>
     ('k, 'v) isam_file disk \<Rightarrow> (('k, 'v) ISAMTree \<times> ('k, 'v) isam_file disk) res" where
  "isam_of_view c buffer d =
     (let (name, d1) = generate_uuid c d;
          cnt = view_record_count buffer;
          records_per_run = map (chunk_len c cnt) [0..<chunk_count c cnt] in
      bindE (create_sorted_runs c cnt buffer) (\<lambda>run_fds.
      bindE (external_merge_sort c run_fds False records_per_run cnt (view_tombstone_count buffer)) (\<lambda>merged.
      finish_shard c name merged d1)))"

definition isam_of_shards ::
    "('k::{linorder,zero}, 'v::{linorder,zero}) isam_cfg \<Rightarrow> ('k, 'v) ISAMTree option list \<Rightarrow>
     ('k, 'v) isam_file disk \<Rightarrow> (('k, 'v) ISAMTree \<times> ('k, 'v) isam_file disk) res" where
  "isam_of_shards c shards d =
     (let (name, d1) = generate_uuid c d in
      bindE (mapE deref shards) (\<lambda>ss.
      bindE (external_merge_sort c (map m_file ss) True (map m_reccnt ss)
               (sum_list (map m_reccnt ss)) (sum_list (map m_tombstone_cnt ss))) (\<lambda>merged.
      finish_shard c name merged d1)))"

definition isam_of_file :: "string \<Rightarrow> ('k, 'v) isam_file disk \<Rightarrow> ('k, 'v) ISAMTree res" where
  "isam_of_file filename d =
     (case shard_dir d filename of
        None \<Rightarrow> Inl UninitRead
      | Some f \<Rightarrow> (case f 0 of
          Some (Header h) \<Rightarrow> Inr \<lparr>m_root_page = hd_root_page h, m_last_data_page = hd_last_data_page h,
             m_reccnt = hd_reccnt h, m_tombstone_cnt = 0, m_internal_node_cnt = hd_internal_node_cnt h,
             m_id = hd_id h, m_file = f\<rparr>
        | _ \<Rightarrow> Inl UninitRead))"

section \<open>Lookups\<close>

definition is_leaf :: "('k, 'v) ISAMTree \<Rightarrow> nat \<Rightarrow> bool" where
  "is_leaf s page_num \<longleftrightarrow> page_num \<ge> 1 \<and> page_num \<le> m_last_data_page s"

text \<open>
  The scan of an internal node: stop at an unused slot or at the first key that is not smaller;
  \<open>next\<close> is the child of the last slot looked at.
\<close>

fun lower_scan :: "'k::linorder \<Rightarrow> ('k \<times> nat) list \<Rightarrow> nat \<Rightarrow> nat" where
  "lower_scan kx [] next = next"
| "lower_scan kx ((k, ch) # es) next =
     (if ch = 0 then next else if kx \<le> k then ch else lower_scan kx es ch)"

fun upper_scan :: "'k::linorder \<Rightarrow> ('k \<times> nat) list \<Rightarrow> nat \<Rightarrow> nat" where
  "upper_scan kx [] next = next"
| "upper_scan kx ((k, ch) # es) next = (if kx \<le> k then ch else upper_scan kx es ch)"

text \<open>The descent from the root; \<open>fuel\<close> bounds the number of nodes visited.\<close>

fun descend_lower :: "nat \<Rightarrow> ('k::linorder, 'v) ISAMTree \<Rightarrow> 'k \<Rightarrow> nat \<Rightarrow> nat res" where
  "descend_lower fuel s kx now =
     (if is_leaf s now then Inr now
      else (case fuel of
              0 \<Rightarrow> Inl Blocked
            | Suc fuel' \<Rightarrow> bindE (read_node (m_file s) now) (\<lambda>es.
                bindE (vec_get es 0) (\<lambda>(k0, ch0). descend_lower fuel' s kx (lower_scan kx es ch0)))))"

fun descend_upper :: "nat \<Rightarrow> ('k::linorder, 'v) ISAMTree \<Rightarrow> 'k \<Rightarrow> nat \<Rightarrow> nat res" where
  "descend_upper fuel s kx now =
     (if is_leaf s now then Inr now
      else (case fuel of
              0 \<Rightarrow> Inl Blocked
            | Suc fuel' \<Rightarrow> bindE (read_node (m_file s) now) (\<lambda>es.
                bindE (vec_get es 0) (\<lambda>(k0, ch0).
                if ch0 = 0 then Inr now else descend_upper fuel' s kx (upper_scan kx es ch0)))))"

declare descend_lower.simps [simp del] descend_upper.simps [simp del]

text \<open>The position in a leaf, and the byte offset both searches return.\<close>

definition leaf_offset ::
    "('k, 'v) isam_cfg \<Rightarrow> ('k \<Rightarrow> bool) \<Rightarrow> ('k, 'v) ISAMTree \<Rightarrow> nat \<Rightarrow> nat res" where
  "leaf_offset c stop s now =
     bindE (read_data (m_file s) now) (\<lambda>recs.
     let offset = first_pos (\<lambda>w. stop (key (rec w))) (take (LEAF_FANOUT c) recs) in
     Inr (now * NODE_SZ + offset * rec_sz c))"

definition isam_get_lower_bound ::
    "('k::linorder, 'v) isam_cfg \<Rightarrow> ('k, 'v) ISAMTree \<Rightarrow> 'k \<Rightarrow> nat res" where
  "isam_get_lower_bound c s k =
     bindE (descend_lower (Suc (m_root_page s)) s k (m_root_page s)) (leaf_offset c (\<lambda>k'. k' \<ge> k) s)"

definition isam_get_upper_bound ::
    "('k::linorder, 'v) isam_cfg \<Rightarrow> ('k, 'v) ISAMTree \<Rightarrow> 'k \<Rightarrow> nat res" where
  "isam_get_upper_bound c s k =
     bindE (descend_upper (Suc (m_root_page s)) s k (m_root_page s)) (leaf_offset c (\<lambda>k'. k' > k) s)"

text \<open>
  \<^verbatim>\<open>point_lookup\<close>. No shard has a filter (\<open>m_bf\<close> is null), so a call that asks for it dereferences a
  null pointer; without a page buffer nothing is found. The record returned lies in the
  caller's buffer.
\<close>

definition isam_point_lookup ::
    "('k::linorder, 'v) isam_cfg \<Rightarrow> ('k, 'v) Record \<Rightarrow> bool \<Rightarrow> bool \<Rightarrow> ('k, 'v) ISAMTree \<Rightarrow>
     ('k, 'v) Record Wrapped option res" where
  "isam_point_lookup c r use_filter has_buffer s =
     (if use_filter then Inl NullDeref
      else if \<not> has_buffer then Inr None
      else
        bindE (isam_get_lower_bound c s (key r)) (\<lambda>offset.
        if offset \<ge> (m_last_data_page s + 1) * NODE_SZ then Inr None
        else
          bindE (read_data (m_file s) (offset div NODE_SZ)) (\<lambda>records.
          let page_offset = (offset mod NODE_SZ) div rec_sz c in
          if page_offset \<ge> LEAF_FANOUT c then Inl OutOfBounds
          else bindE (page_rec records page_offset) (\<lambda>w.
            Inr (if rec w = r then Some w else None)))))"

definition isam_get_record_at ::
    "('k, 'v) isam_cfg \<Rightarrow> ('k, 'v) ISAMTree \<Rightarrow> nat \<Rightarrow> bool \<Rightarrow> ('k, 'v) Record Wrapped option res" where
  "isam_get_record_at c s idx has_buffer =
     (if \<not> has_buffer then Inr None
      else
        let page_num = idx div LEAF_FANOUT c + 1 in
        if page_num > m_root_page s then Inr None
        else bindE (read_data (m_file s) page_num) (\<lambda>records.
             bindE (page_rec records (idx mod LEAF_FANOUT c)) (\<lambda>w. Inr (Some w))))"

section \<open>Iterators\<close>

record ('k, 'v) Iterator =
  it_file :: "('k, 'v) isam_file"
  it_idx :: nat
  it_end :: nat

definition isam_get_iterator ::
    "('k::linorder, 'v) isam_cfg \<Rightarrow> ('k, 'v) ISAMTree \<Rightarrow> 'k \<Rightarrow> ('k, 'v) Iterator res" where
  "isam_get_iterator c s lower =
     (if m_reccnt s = 0 then Inr \<lparr>it_file = m_file s, it_idx = 0, it_end = 0\<rparr>
      else
        bindE (isam_get_lower_bound c s lower) (\<lambda>offset.
        let page = offset div NODE_SZ; slot = (offset mod NODE_SZ) div rec_sz c in
        Inr \<lparr>it_file = m_file s, it_idx = (page - 1) * LEAF_FANOUT c + slot, it_end = m_reccnt s\<rparr>))"

definition get_current ::
    "('k, 'v) isam_cfg \<Rightarrow> ('k, 'v) Iterator \<Rightarrow> ('k, 'v) Record Wrapped option res" where
  "get_current c it =
     (if it_idx it \<ge> it_end it then Inr None
      else bindE (read_data (it_file it) (it_idx it div LEAF_FANOUT c + 1)) (\<lambda>recs.
           bindE (page_rec recs (it_idx it mod LEAF_FANOUT c)) (\<lambda>w. Inr (Some w))))"

definition it_get_next :: "('k, 'v) Iterator \<Rightarrow> bool \<times> ('k, 'v) Iterator" where
  "it_get_next it = (let it' = it\<lparr>it_idx := Suc (it_idx it)\<rparr> in (it_idx it' < it_end it', it'))"

section \<open>The interface\<close>

definition isam_ops ::
    "('k::{linorder,zero}, 'v::{linorder,zero}) isam_cfg \<Rightarrow>
     (('k, 'v) ISAMTree, ('k, 'v) Record, 'f, ('k, 'v) isam_file disk) shard_ops" where
  "isam_ops c =
     \<lparr>sh_of_view = isam_of_view c, sh_of_shards = isam_of_shards c, sh_of_file = isam_of_file,
      sh_filename = get_filename, sh_point_lookup = isam_point_lookup c,
      sh_mark_found = (\<lambda>r s. s), sh_record_count = m_reccnt, sh_tombstone_count = m_tombstone_cnt,
      sh_memory_usage = (\<lambda>s. m_internal_node_cnt s * NODE_SZ), sh_aux_memory_usage = (\<lambda>s. 0)\<rparr>"

end
