(* ===== verification/DE_IsamMerge.thy ===== *)
theory DE_IsamMerge
  imports DE_ExtIsam
begin

text \<open>
  The constructors of the external tree are correct: the external merge of sorted runs yields
  the sorted records less pairs of a record and its tombstone, the pages written hold exactly
  those, and building the internal levels over them succeeds. Hence the tree satisfies the shard
  interface of \<open>DE_Level\<close>, and everything proved of the framework applies to it.
\<close>

section \<open>The external merge\<close>

text \<open>A run file holds the records \<open>rs\<close>: page \<open>k\<close> holds those from \<open>k * LEAF_FANOUT\<close> on.\<close>

definition run_holds :: "('k, 'v) isam_cfg \<Rightarrow> bool \<Rightarrow> ('k, 'v) isam_file \<Rightarrow> ('k, 'v) Record Wrapped list \<Rightarrow> bool" where
  "run_holds c shards f rs \<longleftrightarrow> (\<forall>k. k * LEAF_FANOUT c < length rs \<longrightarrow>
     (\<exists>buf. read_data f (run_page shards k) = Inr buf \<and>
       (\<forall>j<LEAF_FANOUT c. k * LEAF_FANOUT c + j < length rs \<longrightarrow> j < length buf \<and> buf ! j = rs ! (k * LEAF_FANOUT c + j))))"

lemma run_holdsD:
  assumes "run_holds c shards f rs" and "k * LEAF_FANOUT c < length rs"
  obtains buf where "read_data f (run_page shards k) = Inr buf"
    and "\<And>j. j < LEAF_FANOUT c \<Longrightarrow> k * LEAF_FANOUT c + j < length rs \<Longrightarrow> j < length buf \<and> buf ! j = rs ! (k * LEAF_FANOUT c + j)"
  using assms unfolding run_holds_def by blast

text \<open>
  One run of the merge: \<open>left\<close> is what has not been taken from it (its first record being in
  the heap), \<open>n\<close> the number of records fetched so far, \<open>buf\<close> the page fetched last.
\<close>

definition run_at ::
    "('k, 'v) isam_cfg \<Rightarrow> ('k, 'v) Record Wrapped list \<Rightarrow> ('k, 'v) Record Wrapped list \<Rightarrow> nat \<Rightarrow> nat \<Rightarrow>
     ('k, 'v) Record Wrapped list \<Rightarrow> bool" where
  "run_at c rs left n remaining buf \<longleftrightarrow> tl left = drop n rs \<and> remaining = length (tl left) \<and>
     (\<forall>j<LEAF_FANOUT c. n mod LEAF_FANOUT c \<noteq> 0 \<longrightarrow> n div LEAF_FANOUT c * LEAF_FANOUT c + j < length rs \<longrightarrow>
        j < length buf \<and> buf ! j = rs ! (n div LEAF_FANOUT c * LEAF_FANOUT c + j))"

definition runs_at ::
    "('k, 'v) isam_cfg \<Rightarrow> bool \<Rightarrow> ('k, 'v) isam_file list \<Rightarrow> ('k, 'v) Record Wrapped list list \<Rightarrow>
     ('k, 'v) Record Wrapped list list \<Rightarrow> ('k, 'v) merge_state \<Rightarrow> bool" where
  "runs_at c shards fds runs left ms \<longleftrightarrow> length runs = length fds \<and> length left = length fds \<and>
     length (ms_buffers ms) = length fds \<and> length (ms_insert_cnt ms) = length fds \<and>
     length (ms_remaining ms) = length fds \<and>
     (\<forall>i<length fds. run_holds c shards (fds ! i) (runs ! i) \<and>
        run_at c (runs ! i) (left ! i) (ms_insert_cnt ms ! i) (ms_remaining ms ! i) (ms_buffers ms ! i))"

lemma runs_at_heap [simp]: "runs_at c shards fds runs left (ms\<lparr>ms_heap := q\<rparr>) = runs_at c shards fds runs left ms"
  by (simp add: runs_at_def)

lemma refill_ok:
  assumes "runs_at c shards fds runs left ms" and "idx < length left" and "left ! idx = x # xs" and "0 < LEAF_FANOUT c"
  shows "\<exists>ms'. refill c shards fds idx ms = Inr ms' \<and> runs_at c shards fds runs (left[idx := xs]) ms' \<and>
    mset (ms_heap ms') = head_of idx xs + mset (ms_heap ms)"
proof -
  let ?lf = "LEAF_FANOUT c" and ?rs = "runs ! idx"
  define n where "n = ms_insert_cnt ms ! idx"
  note at = assms(1) [unfolded runs_at_def]
  have idx: "idx < length fds" using at assms(2) by simp
  have run: "run_holds c shards (fds ! idx) ?rs" "xs = drop n ?rs" "ms_remaining ms ! idx = length xs"
    and buf: "\<And>j. j < ?lf \<Longrightarrow> n mod ?lf \<noteq> 0 \<Longrightarrow> n div ?lf * ?lf + j < length ?rs \<Longrightarrow>
        j < length (ms_buffers ms ! idx) \<and> ms_buffers ms ! idx ! j = ?rs ! (n div ?lf * ?lf + j)"
    using at idx assms(3) by (auto simp: run_at_def n_def)
  show ?thesis
  proof (cases xs)
    case Nil
    then have "refill c shards fds idx ms = Inr ms"
      using run(3) at idx by (simp add: refill_def)
    moreover have "runs_at c shards fds runs (left[idx := []]) ms"
      using at idx assms(2,3) run(2,3) Nil
      by (auto simp: runs_at_def nth_list_update run_at_def)
    ultimately show ?thesis using Nil by simp
  next
    case (Cons y ys)
    then have lt: "n < length ?rs" "?rs ! n = y" "drop (Suc n) ?rs = ys"
      using run(2) by (metis drop_eq_Nil not_le list.distinct(1), metis nth_via_drop, metis drop_Suc tl_drop list.sel(3))
    have nd: "n div ?lf * ?lf + n mod ?lf = n" "n mod ?lf < ?lf" "n div ?lf * ?lf < length ?rs"
      using assms(4) lt(1) by (auto intro: le_less_trans [OF div_times_less_eq_dividend])
    obtain b where b: "(if n mod ?lf = 0
        then bindE (vec_get fds idx) (\<lambda>f. read_data f (run_page shards (n div ?lf))) else Inr (ms_buffers ms ! idx)) = Inr b"
      and page: "\<And>j. j < ?lf \<Longrightarrow> n div ?lf * ?lf + j < length ?rs \<Longrightarrow> j < length b \<and> b ! j = ?rs ! (n div ?lf * ?lf + j)"
    proof (cases "n mod ?lf = 0")
      case True
      obtain b where "read_data (fds ! idx) (run_page shards (n div ?lf)) = Inr b"
          "\<And>j. j < ?lf \<Longrightarrow> n div ?lf * ?lf + j < length ?rs \<Longrightarrow> j < length b \<and> b ! j = ?rs ! (n div ?lf * ?lf + j)"
        using run_holdsD [OF run(1) nd(3)] by blast
      then show ?thesis using True idx by (intro that [of b]) simp_all
    next
      case False
      then show ?thesis using buf by (intro that [of "ms_buffers ms ! idx"]) simp_all
    qed
    have w: "page_rec b (n mod ?lf) = Inr y"
      using page [OF nd(2)] nd(1) lt by (simp add: page_rec_def)
    let ?ms = "\<lparr>ms_buffers = (ms_buffers ms)[idx := b], ms_insert_cnt = (ms_insert_cnt ms)[idx := Suc n],
             ms_remaining = (ms_remaining ms)[idx := length xs - 1], ms_heap = pq_push (y, idx) (ms_heap ms)\<rparr>"
    have rem: "vec_get (ms_remaining ms) idx = Inr (length xs)" using run(3) at idx by simp
    have "refill c shards fds idx ms = Inr ?ms"
      unfolding refill_def rem bindE_simps Let_def n_def [symmetric] b w using Cons by simp
    moreover have "run_at c ?rs xs (Suc n) (length xs - 1) b"
    proof -
      have "Suc n div ?lf = n div ?lf" if "Suc n mod ?lf \<noteq> 0"
        using that assms(4) by (metis div_Suc mod_Suc)
      then show ?thesis using page lt(3) Cons by (auto simp: run_at_def)
    qed
    then have "runs_at c shards fds runs (left[idx := xs]) ?ms"
      using at idx assms(2) unfolding runs_at_def by (auto simp: nth_list_update)
    ultimately show ?thesis using Cons by (simp add: mset_pq_push)
  qed
qed

definition annihilated :: "('r Wrapped \<times> 'r Wrapped) list \<Rightarrow> bool" where
  "annihilated ps \<longleftrightarrow> (\<forall>(a, b)\<in>set ps. annihilate a b)"

lemma annihilated_simps [simp]:
  "annihilated []" "annihilated (p # ps) \<longleftrightarrow> annihilate (fst p) (snd p) \<and> annihilated ps"
  by (auto simp: annihilated_def)

lemma sorted_runs_take:
  assumes "\<forall>r\<in>set rs. rec_sorted r" and "rs ! k = x # xs" and "k < length rs"
  shows "\<forall>r\<in>set (rs[k := xs]). rec_sorted r"
proof (rule Ball_list_update [OF assms(1)])
  have "rec_sorted (x # xs)" using assms by (metis nth_mem)
  then show "rec_sorted xs" by simp
qed

lemma heads_pop:
  assumes "mset q = heads rs" and "q \<noteq> []" and "(x, k) = pq_peek pk q"
  obtains xs where "k < length rs" "rs ! k = x # xs" "mset (pq_pop pk q) + {#(x, k)#} = heads rs"
    "head_of k xs + mset (pq_pop pk q) = heads (rs[k := xs])"
    "mset (concat rs) = add_mset x (mset (concat (rs[k := xs])))"
proof -
  have eq: "mset (pq_pop pk q) + {#(x, k)#} = heads rs" using mset_pq_pop [OF assms(2), of pk] assms by simp
  then have "(x, k) \<in># heads rs" by (metis union_single_eq_member add.commute add_mset_add_single union_iff)
  then have k: "k < length rs" "rs ! k \<noteq> []" "x = hd (rs ! k)" by (auto simp: in_heads)
  then obtain xs where xs: "rs ! k = x # xs" by (cases "rs ! k") auto
  have "heads (rs[k := xs]) + {#(x, k)#} = head_of k xs + mset (pq_pop pk q) + {#(x, k)#}"
    using heads_take [OF k(1) xs] eq by (simp add: ac_simps)
  then have "head_of k xs + mset (pq_pop pk q) = heads (rs[k := xs])" by simp
  with that [OF k(1) xs eq] mset_concat_take [OF k(1) xs] show ?thesis by simp
qed

text \<open>
  The loop ends without an error. It writes a sequence of the records, in order when the runs
  are sorted, and drops the others in pairs of a record and a tombstone for it.
\<close>

definition sort_pick_ok :: "('k::linorder, 'v::linorder) isam_cfg \<Rightarrow> bool" where
  "sort_pick_ok c \<longleftrightarrow> (\<forall>q. q \<noteq> [] \<longrightarrow> cfg_pick c q < length q \<and> (\<forall>e\<in>set q. rec (fst (q ! cfg_pick c q)) \<le> rec (fst e)))"

lemma merge_runs_ok:
  assumes "runs_at c shards fds runs left ms" and "mset (ms_heap ms) = heads left" and "0 < LEAF_FANOUT c"
    and "sort_pick_ok c" and "\<forall>r\<in>set left. rec_sorted r"
  shows "\<exists>outs ps. merge_runs c shards fds ms n out = Inr (n + length ps, fold (emit_page c) outs out) \<and>
    mset (concat left) = mset outs + mset (map fst ps) + mset (map snd ps) \<and> annihilated ps \<and> rec_sorted outs"
  using assms
proof (induction c shards fds ms n out arbitrary: left rule: merge_runs.induct)
  case (1 c shards fds ms n out)
  show ?case
  proof (cases "ms_heap ms = []")
    case True
    then have "concat left = []" using "1.prems"(2) heads_empty_iff [of 0 left] by simp
    then have "mset (concat left) = mset [] + mset (map fst []) + mset (map snd [])" by simp
    then show ?thesis
      using True by (intro exI [of _ "[]"]) (simp add: merge_runs.simps)
  next
    case False
    let ?pk = "cfg_pick c"
    define ms1 where "ms1 = ms\<lparr>ms_heap := pq_pop ?pk (ms_heap ms)\<rparr>"
    obtain x k where peek: "(x, k) = pq_peek ?pk (ms_heap ms)" by (metis surj_pair)
    obtain xs where xs: "k < length left" "left ! k = x # xs" "mset (ms_heap ms1) + {#(x, k)#} = heads left"
        "head_of k xs + mset (ms_heap ms1) = heads (left[k := xs])"
        "mset (concat left) = add_mset x (mset (concat (left[k := xs])))"
      using heads_pop [OF "1.prems"(2) False peek] by (auto simp: ms1_def)
    have at1: "runs_at c shards fds runs left ms1" using "1.prems"(1) by (simp add: ms1_def)
    obtain ms2 where ms2: "refill c shards fds k ms1 = Inr ms2" "runs_at c shards fds runs (left[k := xs]) ms2"
        "mset (ms_heap ms2) = heads (left[k := xs])"
      using refill_ok [OF at1 xs(1,2) "1.prems"(3)] xs(4) by auto
    have r2: "refill c shards fds (snd (pq_peek ?pk (ms_heap ms))) (ms\<lparr>ms_heap := pq_pop ?pk (ms_heap ms)\<rparr>) = Inr ms2"
      using ms2(1) unfolding ms1_def peek [symmetric] snd_conv .
    have so2: "\<forall>r\<in>set (left[k := xs]). rec_sorted r" by (rule sorted_runs_take [OF "1.prems"(5) xs(2,1)])
    have min: "rec x \<le> rec y" if "y \<in> set (concat left)" for y
    proof (rule heads_min [where ky = rec, OF "1.prems"(5) _ that])
      fix e assume "e \<in># heads left"
      then have "e \<in> set (ms_heap ms)" using "1.prems"(2) by (metis set_mset_mset)
      moreover have "pq_peek ?pk (ms_heap ms) = ms_heap ms ! ?pk (ms_heap ms)"
        using "1.prems"(4) False by (simp add: pq_peek_def top_idx_def sort_pick_ok_def)
      ultimately show "rec x \<le> rec (fst e)"
        using "1.prems"(4) False peek unfolding sort_pick_ok_def by (metis fst_conv)
    qed
    show ?thesis
    proof (cases "ms_heap ms2 \<noteq> [] \<and> annihilate (fst (pq_peek ?pk (ms_heap ms2))) x")
      case True
      define ms3 where "ms3 = ms2\<lparr>ms_heap := pq_pop ?pk (ms_heap ms2)\<rparr>"
      obtain y u where peek2: "(y, u) = pq_peek ?pk (ms_heap ms2)" by (metis surj_pair)
      obtain ys where ys: "u < length (left[k := xs])" "left[k := xs] ! u = y # ys"
          "head_of u ys + mset (ms_heap ms3) = heads (left[k := xs, u := ys])"
          "mset (concat (left[k := xs])) = add_mset y (mset (concat (left[k := xs, u := ys])))"
        using heads_pop [OF ms2(3) _ peek2] True by (auto simp: ms3_def)
      have at3: "runs_at c shards fds runs (left[k := xs]) ms3" using ms2(2) by (simp add: ms3_def)
      obtain ms4 where ms4: "refill c shards fds u ms3 = Inr ms4" "runs_at c shards fds runs (left[k := xs, u := ys]) ms4"
          "mset (ms_heap ms4) = heads (left[k := xs, u := ys])"
        using refill_ok [OF at3 ys(1,2) "1.prems"(3)] ys(3) by auto
      have so4: "\<forall>r\<in>set (left[k := xs, u := ys]). rec_sorted r" by (rule sorted_runs_take [OF so2 ys(2,1)])
      have step: "merge_runs c shards fds ms n out = merge_runs c shards fds ms4 (Suc n) out"
        using False True ms2(1) ms4(1) by (subst merge_runs.simps)
          (simp add: Let_def peek [symmetric] peek2 [symmetric] ms1_def ms3_def)
      obtain outs ps where "merge_runs c shards fds ms4 (Suc n) out = Inr (Suc n + length ps, fold (emit_page c) outs out)"
          "mset (concat (left[k := xs, u := ys])) = mset outs + mset (map fst ps) + mset (map snd ps)"
          "annihilated ps" "rec_sorted outs"
      proof -
        have c2: "ms_heap ms2 \<noteq> [] \<and> annihilate (fst (pq_peek ?pk (ms_heap ms2))) (fst (pq_peek ?pk (ms_heap ms)))"
          using True unfolding peek [symmetric] fst_conv .
        have r4: "refill c shards fds (snd (pq_peek ?pk (ms_heap ms2))) (ms2\<lparr>ms_heap := pq_pop ?pk (ms_heap ms2)\<rparr>) = Inr ms4"
          using ms4(1) unfolding ms3_def peek2 [symmetric] snd_conv .
        from "1.IH"(1) [OF False refl refl r2 c2 refl refl r4 ms4(2,3) "1.prems"(3,4) so4] that show thesis by blast
      qed
      then show ?thesis
        using step xs(5) ys(4) True peek2
        by (intro exI [of _ outs] exI [of _ "(y, x) # ps"]) (auto simp: prod_eq_iff)
    next
      case notcancel: False
      have step: "merge_runs c shards fds ms n out = merge_runs c shards fds ms2 n (emit_page c x out)"
        using False notcancel ms2(1) by (subst merge_runs.simps) (auto simp: Let_def peek [symmetric] ms1_def)
      obtain outs ps where o: "merge_runs c shards fds ms2 n (emit_page c x out) = Inr (n + length ps, fold (emit_page c) outs (emit_page c x out))"
          "mset (concat (left[k := xs])) = mset outs + mset (map fst ps) + mset (map snd ps)" "annihilated ps" "rec_sorted outs"
      proof -
        have c2: "\<not> (ms_heap ms2 \<noteq> [] \<and> annihilate (fst (pq_peek ?pk (ms_heap ms2))) (fst (pq_peek ?pk (ms_heap ms))))"
          using notcancel unfolding peek [symmetric] fst_conv .
        from "1.IH"(2) [OF False refl refl r2 c2 ms2(2,3) "1.prems"(3,4) so2] that show thesis
          unfolding peek [symmetric] fst_conv by blast
      qed
      have "\<forall>w\<in>set outs. rec x \<le> rec w"
      proof
        fix w assume "w \<in> set outs"
        then have "w \<in># mset (concat left)" unfolding xs(5) o(2) by simp
        then show "rec x \<le> rec w" using min by simp
      qed
      then show ?thesis
        using step o xs(5) by (intro exI [of _ "x # outs"] exI [of _ ps]) simp
    qed
  qed
qed

subsection \<open>Filling the heap\<close>

lemma heads_from_snoc: "heads_from n (rs @ [r]) = heads_from n rs + head_of (n + length rs) r"
  by (induction rs arbitrary: n) (simp_all add: head_of_def split: list.split)

lemma fill_heap_ok:
  assumes "runs_at c shards done_fds done_runs done_runs ms" and "mset (ms_heap ms) = heads done_runs"
    and "length fs = length runs" and "0 < LEAF_FANOUT c"
    and "\<forall>i<length fs. run_holds c shards (fs ! i) (runs ! i) \<and> runs ! i \<noteq> []"
    and "cnts = map length (done_runs @ runs)"
  shows "\<exists>ms'. fill_heap shards fs cnts (length done_fds) ms = Inr ms' \<and>
    runs_at c shards (done_fds @ fs) (done_runs @ runs) (done_runs @ runs) ms' \<and>
    mset (ms_heap ms') = heads (done_runs @ runs)"
  using assms
proof (induction fs arbitrary: runs done_fds done_runs ms)
  case (Cons f fs)
  obtain r rs where runs: "runs = r # rs" using Cons.prems(3) by (cases runs) auto
  have f: "run_holds c shards f r" "r \<noteq> []" using Cons.prems(5) runs by auto
  have at: "length done_runs = length done_fds" using Cons.prems(1) by (simp add: runs_at_def)
  obtain buf where buf: "read_data f (run_page shards 0) = Inr buf"
      "\<And>j. j < LEAF_FANOUT c \<Longrightarrow> j < length r \<Longrightarrow> j < length buf \<and> buf ! j = r ! j"
    using run_holdsD [OF f(1), of 0] f(2) by auto
  have w: "page_rec buf 0 = Inr (hd r)"
    using buf(2) [of 0] Cons.prems(4) f(2) by (simp add: page_rec_def hd_conv_nth)
  have cnt: "vec_get cnts (length done_fds) = Inr (length r)"
    using Cons.prems(6) runs at by (simp add: nth_append)
  let ?ms = "\<lparr>ms_buffers = ms_buffers ms @ [buf], ms_insert_cnt = ms_insert_cnt ms @ [1],
        ms_remaining = ms_remaining ms @ [sz_sub (length r) 1], ms_heap = pq_push (hd r, length done_fds) (ms_heap ms)\<rparr>"
  have "run_at c r r 1 (sz_sub (length r) 1) buf"
  proof -
    have "1 div LEAF_FANOUT c = 0" if "1 mod LEAF_FANOUT c \<noteq> 0"
      using that Cons.prems(4) by (cases "LEAF_FANOUT c = 1") simp_all
    then show ?thesis using buf(2) f(2) by (cases r) (auto simp: run_at_def)
  qed
  then have "runs_at c shards (done_fds @ [f]) (done_runs @ [r]) (done_runs @ [r]) ?ms"
    using Cons.prems(1) f(1) unfolding runs_at_def by (auto simp: nth_append less_Suc_eq)
  moreover have "mset (ms_heap ?ms) = heads (done_runs @ [r])"
    using Cons.prems(2) at f(2) by (cases r) (simp_all add: heads_from_snoc mset_pq_push)
  moreover have "\<forall>i<length fs. run_holds c shards (fs ! i) (rs ! i) \<and> rs ! i \<noteq> []"
    using Cons.prems(5) runs by fastforce
  ultimately have "\<exists>ms'. fill_heap shards fs cnts (length (done_fds @ [f])) ?ms = Inr ms' \<and>
      runs_at c shards ((done_fds @ [f]) @ fs) ((done_runs @ [r]) @ rs) ((done_runs @ [r]) @ rs) ms' \<and>
      mset (ms_heap ms') = heads ((done_runs @ [r]) @ rs)"
    using Cons.IH [of "done_fds @ [f]" "done_runs @ [r]" ?ms rs] Cons.prems(3,4,6) runs by simp
  then show ?case using buf(1) w cnt runs by simp
qed simp

subsection \<open>The pages written\<close>

definition page_of :: "('k, 'v) isam_cfg \<Rightarrow> 'a list \<Rightarrow> nat \<Rightarrow> 'a list" where
  "page_of c ws k = take (LEAF_FANOUT c) (drop (k * LEAF_FANOUT c) ws)"

definition out_holds :: "('k, 'v) isam_cfg \<Rightarrow> ('k, 'v) merge_output \<Rightarrow> ('k, 'v) Record Wrapped list \<Rightarrow> bool" where
  "out_holds c out ws \<longleftrightarrow> 1 \<le> mo_curr out \<and> length (mo_page out) \<le> LEAF_FANOUT c \<and>
     length ws = (mo_curr out - 1) * LEAF_FANOUT c + length (mo_page out) \<and>
     mo_page out = drop ((mo_curr out - 1) * LEAF_FANOUT c) ws \<and> (mo_page out = [] \<longrightarrow> ws = []) \<and>
     (\<forall>k<mo_curr out - 1. mo_file out (Suc k) = Some (DataPage (page_of c ws k)))"

lemma page_of_append: "Suc k * LEAF_FANOUT c \<le> length ws \<Longrightarrow> page_of c (ws @ vs) k = page_of c ws k"
  by (simp add: page_of_def)

lemma out_holdsD:
  assumes "out_holds c out ws"
  obtains n where "mo_curr out = Suc n" "length (mo_page out) \<le> LEAF_FANOUT c"
    "length ws = n * LEAF_FANOUT c + length (mo_page out)" "drop (n * LEAF_FANOUT c) ws = mo_page out"
    "mo_page out = [] \<Longrightarrow> ws = []" "\<And>k. k < n \<Longrightarrow> mo_file out (Suc k) = Some (DataPage (page_of c ws k))"
proof -
  note o = assms [unfolded out_holds_def]
  have "mo_curr out = Suc (mo_curr out - 1)" using o by linarith
  moreover note o [THEN conjunct2, THEN conjunct1] o [THEN conjunct2, THEN conjunct2, THEN conjunct1]
    o [THEN conjunct2, THEN conjunct2, THEN conjunct2, THEN conjunct1, symmetric]
  ultimately show thesis using o by (intro that) blast+
qed

lemma emit_page_holds:
  assumes "out_holds c out ws" and "0 < LEAF_FANOUT c"
  shows "out_holds c (emit_page c w out) (ws @ [w])"
proof -
  let ?lf = "LEAF_FANOUT c"
  obtain n where o: "mo_curr out = Suc n" "length (mo_page out) \<le> ?lf" "length ws = n * ?lf + length (mo_page out)"
      "drop (n * ?lf) ws = mo_page out" "\<And>k. k < n \<Longrightarrow> mo_file out (Suc k) = Some (DataPage (page_of c ws k))"
    using out_holdsD [OF assms(1)] by metis
  have pg: "page_of c (ws @ [w]) k = page_of c ws k" if "k < n" for k
  proof (rule page_of_append)
    have "Suc k * ?lf \<le> n * ?lf" using that by (intro mult_le_mono1) simp
    then show "Suc k * ?lf \<le> length ws" using o(3) by linarith
  qed
  have dr: "drop (n * ?lf) (ws @ [w]) = mo_page out @ [w]" using o(3,4) by simp
  show ?thesis
  proof (cases "length (mo_page out) = ?lf")
    case True
    have e: "emit_page c w out = \<lparr>mo_file = (mo_file out)(Suc n \<mapsto> DataPage (mo_page out)), mo_page = [w], mo_curr = Suc (Suc n)\<rparr>"
      using True o(1) by (simp add: emit_page_def Let_def)
    have len: "length ws = Suc n * ?lf" using o(3) True by simp
    have last: "page_of c (ws @ [w]) n = mo_page out" using dr True by (simp add: page_of_def)
    have "mo_file (emit_page c w out) (Suc k) = Some (DataPage (page_of c (ws @ [w]) k))" if "k < Suc n" for k
      using o(5) pg last that by (cases "k = n") (simp_all add: e)
    then show ?thesis using len assms(2) by (simp add: e out_holds_def)
  next
    case False
    then have e: "emit_page c w out = out\<lparr>mo_page := mo_page out @ [w]\<rparr>" by (simp add: emit_page_def Let_def)
    show ?thesis using False o pg dr by (simp add: e out_holds_def)
  qed
qed

lemma fold_emit_page_holds:
  assumes "out_holds c out ws" and "0 < LEAF_FANOUT c"
  shows "out_holds c (fold (emit_page c) outs out) (ws @ outs)"
  using assms(1)
proof (induction outs arbitrary: out ws)
  case (Cons w outs)
  from Cons.IH [OF emit_page_holds [OF Cons.prems assms(2)]] show ?case by simp
qed simp

text \<open>A file with the records \<open>ws\<close> in its data pages, the last one padded.\<close>

definition data_pages :: "('k, 'v) isam_cfg \<Rightarrow> nat \<Rightarrow> nat" where
  "data_pages c n = (n + LEAF_FANOUT c - 1) div LEAF_FANOUT c"

definition file_holds ::
    "('k::zero, 'v::zero) isam_cfg \<Rightarrow> ('k, 'v) isam_file \<Rightarrow> ('k, 'v) Record Wrapped list \<Rightarrow> bool" where
  "file_holds c f ws \<longleftrightarrow> (\<forall>k<data_pages c (length ws). f (Suc k) = Some (DataPage (pad_page c (page_of c ws k))))"

lemma data_pages_iff:
  assumes "0 < LEAF_FANOUT c"
  shows "k < data_pages c n \<longleftrightarrow> k * LEAF_FANOUT c < n"
proof -
  have "k < data_pages c n \<longleftrightarrow> Suc k \<le> (n + LEAF_FANOUT c - 1) div LEAF_FANOUT c" by (simp add: data_pages_def Suc_le_eq)
  also have "\<dots> \<longleftrightarrow> Suc k * LEAF_FANOUT c \<le> n + LEAF_FANOUT c - 1" by (rule less_eq_div_iff_mult_less_eq [OF assms])
  also have "\<dots> \<longleftrightarrow> k * LEAF_FANOUT c < n" using assms by auto
  finally show ?thesis .
qed

lemma pad_full: "length ws = LEAF_FANOUT c \<Longrightarrow> pad_page c ws = ws"
  by (simp add: pad_page_def)

lemma file_holds_run: 
  assumes "file_holds c f ws" and "0 < LEAF_FANOUT c"
  shows "run_holds c True f ws"
  unfolding run_holds_def
proof (intro allI impI)
  fix k assume k: "k * LEAF_FANOUT c < length ws"
  then have "f (Suc k) = Some (DataPage (pad_page c (page_of c ws k)))"
    using assms by (simp add: file_holds_def data_pages_iff)
  then have "read_data f (run_page True k) = Inr (pad_page c (page_of c ws k))"
    by (simp add: read_data_def run_page_def)
  moreover have "\<forall>j<LEAF_FANOUT c. k * LEAF_FANOUT c + j < length ws \<longrightarrow>
      j < length (pad_page c (page_of c ws k)) \<and> pad_page c (page_of c ws k) ! j = ws ! (k * LEAF_FANOUT c + j)"
    by (auto simp: pad_page_def page_of_def nth_append)
  ultimately show "\<exists>buf. read_data f (run_page True k) = Inr buf \<and>
       (\<forall>j<LEAF_FANOUT c. k * LEAF_FANOUT c + j < length ws \<longrightarrow> j < length buf \<and> buf ! j = ws ! (k * LEAF_FANOUT c + j))"
    by blast
qed

lemma out_holds_file:
  assumes "out_holds c out ws" and "0 < LEAF_FANOUT c"
  shows "file_holds c (if mo_page out \<noteq> [] then (mo_file out)(mo_curr out \<mapsto> DataPage (pad_page c (mo_page out))) else mo_file out) ws"
    and "ws \<noteq> [] \<Longrightarrow> mo_curr out = data_pages c (length ws)"
proof -
  let ?lf = "LEAF_FANOUT c"
  obtain n where o: "mo_curr out = Suc n" "length (mo_page out) \<le> ?lf" "length ws = n * ?lf + length (mo_page out)"
      "drop (n * ?lf) ws = mo_page out" "mo_page out = [] \<Longrightarrow> ws = []"
      "\<And>k. k < n \<Longrightarrow> mo_file out (Suc k) = Some (DataPage (page_of c ws k))"
    using out_holdsD [OF assms(1)] by metis
  have dp: "data_pages c (length ws) = Suc n" if "ws \<noteq> []"
  proof -
    have "n < data_pages c (length ws)" "\<not> Suc n < data_pages c (length ws)"
      using o(2,3,5) that by (auto simp: data_pages_iff [OF assms(2)])
    then show ?thesis by linarith
  qed
  then show "ws \<noteq> [] \<Longrightarrow> mo_curr out = data_pages c (length ws)" using o(1) by simp
  show "file_holds c (if mo_page out \<noteq> [] then (mo_file out)(mo_curr out \<mapsto> DataPage (pad_page c (mo_page out))) else mo_file out) ws"
  proof (cases "ws = []")
    case True
    then show ?thesis by (simp add: file_holds_def data_pages_iff [OF assms(2)])
  next
    case False
    have last: "page_of c ws n = mo_page out" using o(2,4) by (simp add: page_of_def)
    have full: "pad_page c (page_of c ws k) = page_of c ws k" if "k < n" for k
    proof (rule pad_full)
      have "Suc k * ?lf \<le> n * ?lf" using that by (intro mult_le_mono1) simp
      then show "length (page_of c ws k) = ?lf" using o(3) by (simp add: page_of_def)
    qed
    have "((mo_file out)(Suc n \<mapsto> DataPage (pad_page c (mo_page out)))) (Suc k) =
        Some (DataPage (pad_page c (page_of c ws k)))" if "k < Suc n" for k
      using o(6) full last that by (cases "k = n") simp_all
    then show ?thesis using False o(1,5) dp by (auto simp: file_holds_def)
  qed
qed

lemma external_merge_sort_ok:
  assumes "0 < LEAF_FANOUT c" and "sort_pick_ok c" and "length fds = length runs"
    and "\<forall>i<length fds. run_holds c shards (fds ! i) (runs ! i) \<and> runs ! i \<noteq> []"
    and "\<forall>r\<in>set runs. rec_sorted r"
  shows "\<exists>f ws ps. external_merge_sort c fds shards (map length runs) (length (concat runs)) ts =
      Inr (f, data_pages c (length ws), length ws, sz_sub ts (length ps)) \<and> file_holds c f ws \<and>
    mset (concat runs) = mset ws + mset (map fst ps) + mset (map snd ps) \<and> annihilated ps \<and> rec_sorted ws"
proof -
  let ?ms0 = "\<lparr>ms_buffers = [], ms_insert_cnt = [], ms_remaining = [], ms_heap = []\<rparr>"
  let ?o0 = "\<lparr>mo_file = (\<lambda>_. None), mo_page = [], mo_curr = 1\<rparr>"
  have "runs_at c shards [] [] [] ?ms0" by (simp add: runs_at_def)
  from fill_heap_ok [OF this _ assms(3,1,4)] obtain ms where
    ms: "fill_heap shards fds (map length runs) 0 ?ms0 = Inr ms" "runs_at c shards fds runs runs ms" "mset (ms_heap ms) = heads runs"
    by auto
  from merge_runs_ok [OF ms(2,3) assms(1,2,5), of 0 ?o0] obtain ws ps where
    m: "merge_runs c shards fds ms 0 ?o0 = Inr (length ps, fold (emit_page c) ws ?o0)"
      "mset (concat runs) = mset ws + mset (map fst ps) + mset (map snd ps)" "annihilated ps" "rec_sorted ws" by auto
  have "out_holds c ?o0 []" by (simp add: out_holds_def)
  from fold_emit_page_holds [OF this assms(1), of ws] have h: "out_holds c (fold (emit_page c) ws ?o0) ws" by simp
  have "length (concat runs) = length ws + 2 * length ps"
    using arg_cong [OF m(2), of size] by (simp only: size_union size_mset length_map)
  then have cnt: "sz_sub (length (concat runs)) (2 * length ps) = length ws" by simp
  have "data_pages c 0 = 0" using data_pages_iff [OF assms(1), of 0 0] by simp
  then have dp: "(if length ws > 0 then mo_curr (fold (emit_page c) ws ?o0) else 0) = data_pages c (length ws)"
    using out_holds_file(2) [OF h assms(1)] by auto
  show ?thesis
    unfolding external_merge_sort_def ms(1) bindE_simps m(1) prod.case Let_def cnt dp
    using out_holds_file(1) [OF h assms(1)] m(2-4) by blast
qed

lemma annihilated_net:
  assumes "annihilated ps" and "policy_ok (map fst ps @ map snd ps)"
  shows "net (map fst ps) r + net (map snd ps) r = 0"
proof (cases "\<forall>w\<in>set (map fst ps @ map snd ps). \<not> is_deleted w")
  case True
  then show ?thesis
    using assms(1) by (induction ps) (auto simp: net_Cons annihilate_def wt_def)
next
  case False
  then have "\<forall>w\<in>set (map fst ps @ map snd ps). \<not> is_tombstone w" using assms(2) by (auto simp: policy_ok_def)
  then have "ps = []" using assms(1) by (cases ps) (auto simp: annihilate_def)
  then show ?thesis by simp
qed

lemma merged_built_from:
  assumes "mset src = mset ws + mset (map fst ps) + mset (map snd ps)" and "annihilated ps" and "policy_ok src"
  shows "built_from src ws"
proof -
  have eq: "mset src = mset (ws @ map fst ps @ map snd ps)" using assms(1) by simp
  then have set_eq: "set src = set ws \<union> set (map fst ps @ map snd ps)" by (metis set_mset_mset set_append)
  then have "policy_ok (map fst ps @ map snd ps)" using assms(3) unfolding policy_ok_def by blast
  from annihilated_net [OF assms(2) this] have "net ws = net src"
    unfolding net_mset_eq [OF eq] by (simp add: fun_eq_iff net_append)
  moreover have "length ws \<le> length src" using arg_cong [OF eq, of size] by simp
  ultimately show ?thesis using set_eq by (auto simp: built_from_def)
qed

end
