(* ===== verification/DE_IsamTree.thy ===== *)
theory DE_IsamTree
  imports DE_IsamMerge
begin

text \<open>
  The tree of internal nodes: that \<^verbatim>\<open>build_internal_levels\<close> builds a search tree over the data pages,
  that the searches of \<^verbatim>\<open>ExternalISAMTree.h\<close> find the right page and slot in it, and that an
  iterator started by such a search delivers exactly the records from the wanted key on.
\<close>

section \<open>The records of a shard\<close>

definition isam_data :: "('k, 'v) ISAMTree \<Rightarrow> ('k, 'v) Record Wrapped list" where
  "isam_data s = take (m_reccnt s) (concat (map (\<lambda>n. case m_file s n of Some (DataPage ws) \<Rightarrow> ws | _ \<Rightarrow> [])
     [1..<Suc (m_last_data_page s)]))"

definition header_ok :: "('k, 'v) ISAMTree \<Rightarrow> bool" where
  "header_ok s \<longleftrightarrow> m_file s 0 = Some (Header \<lparr>hd_id = m_id s, hd_root_page = m_root_page s,
     hd_last_data_page = m_last_data_page s, hd_reccnt = m_reccnt s, hd_internal_node_cnt = m_internal_node_cnt s\<rparr>)"


lemma concat_pages: "concat (map (page_of c ws) [0..<m]) = take (m * LEAF_FANOUT c) ws"
proof (induction m)
  case (Suc m)
  have "take (Suc m * LEAF_FANOUT c) ws = take (m * LEAF_FANOUT c) ws @ page_of c ws m"
    by (simp add: page_of_def add.commute [of "LEAF_FANOUT c"] take_add)
  then show ?case using Suc by simp
qed simp

lemma take_concat_padded:
  assumes "0 < LEAF_FANOUT c"
  shows "take (length ws) (concat (map (\<lambda>k. pad_page c (page_of c ws k)) [0..<data_pages c (length ws)])) = ws"
proof (cases "data_pages c (length ws)")
  case 0
  then show ?thesis using data_pages_iff [OF assms, of 0 "length ws"] by simp
next
  case (Suc m)
  have le: "length ws \<le> Suc m * LEAF_FANOUT c" using data_pages_iff [OF assms, of "Suc m" "length ws"] Suc by simp
  have "pad_page c (page_of c ws k) = page_of c ws k" if "k < m" for k
  proof (rule pad_full)
    have "m * LEAF_FANOUT c < length ws" using data_pages_iff [OF assms, of m "length ws"] Suc by simp
    moreover have "Suc k * LEAF_FANOUT c \<le> m * LEAF_FANOUT c" using that by (intro mult_le_mono1) simp
    ultimately show "length (page_of c ws k) = LEAF_FANOUT c" by (simp add: page_of_def)
  qed
  then have "concat (map (\<lambda>k. pad_page c (page_of c ws k)) [0..<m]) = concat (map (page_of c ws) [0..<m])"
    by (intro arg_cong [of _ _ concat] map_cong) simp_all
  then have "concat (map (\<lambda>k. pad_page c (page_of c ws k)) [0..<Suc m]) =
      concat (map (page_of c ws) [0..<Suc m]) @ replicate (LEAF_FANOUT c - length (page_of c ws m)) \<lparr>header = 0, rec = Record 0 0\<rparr>"
    by (simp add: pad_page_def [of c "page_of c ws m"])
  also have "concat (map (page_of c ws) [0..<Suc m]) = ws" unfolding concat_pages using le by simp
  finally show ?thesis unfolding Suc by simp
qed

lemma isam_data_holds:
  assumes "file_holds c (m_file s) ws" and "0 < LEAF_FANOUT c" and "m_reccnt s = length ws"
    and "m_last_data_page s = data_pages c (length ws)"
  shows "isam_data s = ws"
proof -
  have "map (\<lambda>n. case m_file s n of Some (DataPage ws) \<Rightarrow> ws | _ \<Rightarrow> []) [1..<Suc (m_last_data_page s)] =
      map (\<lambda>k. pad_page c (page_of c ws k)) [0..<data_pages c (length ws)]"
    by (rule nth_equalityI) (use assms(1,4) in \<open>auto simp: file_holds_def nth_append simp del: upt_Suc\<close>)
  then show ?thesis unfolding isam_data_def using take_concat_padded [OF assms(2)] assms(3) by simp
qed

lemma child_key_frame:
  assumes "f' ch = f ch"
  shows "child_key c ldp cnt f' ch = child_key c ldp cnt f ch"
  using assms by (simp add: child_key_def read_data_def read_node_def)

section \<open>The tree over the data pages\<close>

text \<open>
  \<open>subtree f ldp mk p lo hi\<close>: page \<open>p\<close> is the root of a tree over the data pages \<open>lo \<dots> hi\<close>, whose
  nodes hold, for each child, the largest key \<open>mk\<close> of the child's last data page. Child \<open>i\<close> of a
  node spans \<open>b i \<dots> b (i + 1) - 1\<close>.
\<close>

inductive subtree :: "('k::zero, 'v) isam_file \<Rightarrow> nat \<Rightarrow> (nat \<Rightarrow> 'k) \<Rightarrow> nat \<Rightarrow> nat \<Rightarrow> nat \<Rightarrow> bool"
  for f :: "('k, 'v) isam_file" and ldp :: nat and mk :: "nat \<Rightarrow> 'k" where
  leaf: "1 \<le> p \<Longrightarrow> p \<le> ldp \<Longrightarrow> subtree f ldp mk p p p"
| node: "ldp < p \<Longrightarrow> f p = Some (NodePage (es @ replicate z (0, 0))) \<Longrightarrow> es \<noteq> [] \<Longrightarrow>
    (\<And>i. i < length es \<Longrightarrow> 0 < snd (es ! i) \<and> snd (es ! i) < p \<and> b i < b (Suc i) \<and> fst (es ! i) = mk (b (Suc i) - 1) \<and>
       subtree f ldp mk (snd (es ! i)) (b i) (b (Suc i) - 1)) \<Longrightarrow>
    subtree f ldp mk p (b 0) (b (length es) - 1)"

lemma subtree_frame:
  assumes "subtree f ldp mk p lo hi" and "p < wp" and "\<forall>n<wp. 0 < n \<longrightarrow> f' n = f n"
  shows "subtree f' ldp mk p lo hi"
  using assms
proof (induction rule: subtree.induct)
  case (leaf p)
  then show ?case by (intro subtree.leaf)
next
  case (node p es z b)
  have "f' p = f p" using node.hyps(1) node.prems by simp
  with node show ?case by (intro subtree.node [of ldp p f' es z b mk]) (auto intro: less_trans)
qed

lemma node_fill_padded:
  assumes "\<forall>e\<in>set es. snd e \<noteq> 0"
  shows "node_fill (es @ replicate z (0, 0)) = length es"
proof -
  have "takeWhile (\<lambda>(k, ch). ch \<noteq> 0) (es @ replicate z (0, 0)) = es"
    using assms by (induction es) (auto simp: takeWhile_replicate split: prod.splits)
  then show ?thesis by (simp add: node_fill_def)
qed

text \<open>The pages \<open>[lo, hi)\<close> of one level, page \<open>q\<close> over the data pages \<open>b q \<dots> b (q + 1) - 1\<close>.\<close>

definition level_pages ::
    "('k::zero, 'v) isam_cfg \<Rightarrow> nat \<Rightarrow> nat \<Rightarrow> (nat \<Rightarrow> 'k) \<Rightarrow> (nat \<Rightarrow> nat) \<Rightarrow> ('k, 'v) isam_file \<Rightarrow> nat \<Rightarrow> nat \<Rightarrow> bool" where
  "level_pages c ldp cnt mk b f lo hi \<longleftrightarrow> (\<forall>q. lo \<le> q \<and> q < hi \<longrightarrow> b q < b (Suc q) \<and>
     subtree f ldp mk q (b q) (b (Suc q) - 1) \<and> child_key c ldp cnt f q = Inr (mk (b (Suc q) - 1)))"

lemma level_pages_frame:
  assumes "level_pages c ldp cnt mk b f lo hi" and "hi \<le> wp" and "\<forall>n<wp. f' n = f n"
  shows "level_pages c ldp cnt mk b f' lo hi"
proof -
  have "child_key c ldp cnt f' q = child_key c ldp cnt f q" if "q < hi" for q
    using assms(2,3) that by (intro child_key_frame) simp
  then show ?thesis
    using assms subtree_frame [of f ldp mk _ _ _ wp f'] unfolding level_pages_def by auto
qed

lemma new_node_entries:
  assumes "level_pages c ldp cnt mk b f child (child + m)" and "0 < m"
  shows "mapE (\<lambda>ch. bindE (child_key c ldp cnt f ch) (\<lambda>k. Inr (k, ch))) [child..<child + m] =
      Inr (map (\<lambda>ch. (mk (b (Suc ch) - 1), ch)) [child..<child + m])"
    and "b child < b (child + m)"
proof -
  have lp: "b q < b (Suc q)" "child_key c ldp cnt f q = Inr (mk (b (Suc q) - 1))"
    if "child \<le> q" "q < child + m" for q using assms(1) that unfolding level_pages_def by blast+
  show "mapE (\<lambda>ch. bindE (child_key c ldp cnt f ch) (\<lambda>k. Inr (k, ch))) [child..<child + m] =
      Inr (map (\<lambda>ch. (mk (b (Suc ch) - 1), ch)) [child..<child + m])"
    by (rule mapE_Inr) (simp add: lp(2))
  have "b child < b (child + j)" if "0 < j" "j \<le> m" for j
    using that
  proof (induction j)
    case (Suc j)
    then show ?case using lp(1) [of "child + j"] by (cases "j = 0") auto
  qed simp
  then show "b child < b (child + m)" using assms(2) by simp
qed

lemma new_node_ok:
  fixes z :: nat
  assumes "level_pages c ldp cnt mk b f child (child + m)" and "0 < m" and "0 < child" and "child + m \<le> wp" and "ldp < wp"
  defines "es \<equiv> map (\<lambda>ch. (mk (b (Suc ch) - 1), ch)) [child..<child + m]"
  defines "f' \<equiv> f(wp \<mapsto> NodePage (es @ replicate z (0, 0)))"
  shows "subtree f' ldp mk wp (b child) (b (child + m) - 1)" and "child_key c ldp cnt f' wp = Inr (mk (b (child + m) - 1))"
proof -
  have lp: "b q < b (Suc q)" "subtree f ldp mk q (b q) (b (Suc q) - 1)" "child_key c ldp cnt f q = Inr (mk (b (Suc q) - 1))"
    if "child \<le> q" "q < child + m" for q using assms(1) that unfolding level_pages_def by blast+
  have es: "length es = m" "\<And>i. i < m \<Longrightarrow> es ! i = (mk (b (Suc (child + i)) - 1), child + i)" "\<forall>e\<in>set es. snd e \<noteq> 0"
    using assms(3) by (auto simp: es_def)
  have fr: "subtree f' ldp mk q (b q) (b (Suc q) - 1)" if "child \<le> q" "q < child + m" for q
    using that assms(4) by (intro subtree_frame [where wp = wp, OF lp(2) [OF that]]) (simp_all add: f'_def)
  have "subtree f' ldp mk wp (b (child + 0)) (b (child + length es) - 1)"
  proof (rule subtree.node [where b = "\<lambda>i. b (child + i)" and es = es and z = z])
    show "0 < snd (es ! i) \<and> snd (es ! i) < wp \<and> b (child + i) < b (child + Suc i) \<and> fst (es ! i) = mk (b (child + Suc i) - 1) \<and>
       subtree f' ldp mk (snd (es ! i)) (b (child + i)) (b (child + Suc i) - 1)" if "i < length es" for i
      using that es(1,2) lp(1) fr assms(3,4) by simp
  qed (use assms(2,5) es(1) in \<open>auto simp: f'_def\<close>)
  then show "subtree f' ldp mk wp (b child) (b (child + m) - 1)" using es(1) by simp
  show "child_key c ldp cnt f' wp = Inr (mk (b (child + m) - 1))"
    using assms(2,5) es node_fill_padded [OF es(3), of z] by (simp add: child_key_def read_node_def f'_def Let_def nth_append)
qed

lemma build_level_tree:
  assumes "2 \<le> INTERNAL_FANOUT c" and "level_pages c ldp cnt mk b f child (Suc last_page)"
    and "last_page < wp" and "0 < child" and "ldp < wp" and "child \<le> Suc last_page"
  shows "\<exists>wp' f' b'. build_level c ldp cnt last_page child wp f = Inr (wp', f') \<and> wp \<le> wp' \<and> (child \<le> last_page \<longrightarrow> wp < wp') \<and>
    (\<forall>n<wp. f' n = f n) \<and> level_pages c ldp cnt mk b' f' wp wp' \<and> b' wp = b child \<and> b' wp' = b (Suc last_page)"
  using assms
proof (induction c ldp cnt last_page child wp f rule: build_level.induct)
  case (1 c ldp cnt last_page child wp f)
  show ?case
  proof (cases "child > last_page")
    case True
    then have "child = Suc last_page" using "1.prems"(6) by simp
    with True show ?thesis
      by (intro exI [of _ wp] exI [of _ f] exI [of _ "\<lambda>_. b child"]) (auto simp: build_level.simps level_pages_def)
  next
    case False
    let ?m = "min (INTERNAL_FANOUT c) (Suc last_page - child)"
    define es where "es = map (\<lambda>ch. (mk (b (Suc ch) - 1), ch)) [child..<child + ?m]"
    let ?f = "f(wp \<mapsto> NodePage (es @ replicate (INTERNAL_FANOUT c - ?m) (0, 0)))"
    have m: "0 < ?m" "child + ?m \<le> Suc last_page" using "1.prems"(1) False by auto
    have lp: "level_pages c ldp cnt mk b f child (child + ?m)" "level_pages c ldp cnt mk b f (child + ?m) (Suc last_page)"
      using "1.prems"(2) m(2) by (auto simp: level_pages_def)
    have "child + ?m \<le> wp" using m(2) "1.prems"(3) by linarith
    note nn = new_node_entries(1) [OF lp(1) m(1), folded es_def]
      new_node_ok [OF lp(1) m(1) "1.prems"(4) this "1.prems"(5), where z = "INTERNAL_FANOUT c - ?m", folded es_def]
      new_node_entries(2) [OF lp(1) m(1)]
    have F: "INTERNAL_FANOUT c \<noteq> 0" using "1.prems"(1) by simp
    have lp2: "level_pages c ldp cnt mk b ?f (child + ?m) (Suc last_page)"
      using "1.prems"(3) by (intro level_pages_frame [OF lp(2), of wp]) simp_all
    obtain wp' f' b' where r: "build_level c ldp cnt last_page (child + ?m) (Suc wp) ?f = Inr (wp', f')" "Suc wp \<le> wp'"
        "\<forall>n<Suc wp. f' n = ?f n" "level_pages c ldp cnt mk b' f' (Suc wp) wp'" "b' (Suc wp) = b (child + ?m)" "b' wp' = b (Suc last_page)"
      using "1.IH" [OF False F refl nn(1) "1.prems"(1) lp2] "1.prems"(3-5) m(2) by fastforce
    define b'' where "b'' = b'(wp := b child)"
    have wpk: "subtree f' ldp mk wp (b child) (b (child + ?m) - 1)" "child_key c ldp cnt f' wp = Inr (mk (b (child + ?m) - 1))"
      using subtree_frame [OF nn(2), of "Suc wp" f'] child_key_frame [of f' wp ?f c ldp cnt] r(3) nn(3) by simp_all
    have "level_pages c ldp cnt mk b'' f' wp wp'"
      unfolding level_pages_def
    proof (intro allI impI)
      fix q assume q: "wp \<le> q \<and> q < wp'"
      show "b'' q < b'' (Suc q) \<and> subtree f' ldp mk q (b'' q) (b'' (Suc q) - 1) \<and> child_key c ldp cnt f' q = Inr (mk (b'' (Suc q) - 1))"
      proof (cases "q = wp")
        case True
        then show ?thesis using wpk nn(4) r(5) by (simp add: b''_def)
      next
        case False
        then show ?thesis using q r(4) by (auto simp: b''_def level_pages_def)
      qed
    qed
    moreover have "build_level c ldp cnt last_page child wp f = Inr (wp', f')"
      using False F nn(1) r(1) by (subst build_level.simps) (simp add: Let_def)
    moreover have "b'' wp = b child" "b'' wp' = b (Suc last_page)" using r(2,6) by (simp_all add: b''_def)
    ultimately show ?thesis
      using r(2,3) by (intro exI [of _ wp'] exI [of _ f'] exI [of _ b'']) simp
  qed
qed

lemma build_internal_tree:
  assumes "2 \<le> INTERNAL_FANOUT c" and "level_pages c ldp cnt mk b f first_page (Suc last_page)"
    and "first_page \<le> last_page" and "0 < first_page" and "ldp \<le> last_page"
  shows "\<exists>root f'. build_internal_levels c ldp cnt first_page last_page f = Inr (root, f') \<and> last_page \<le> root \<and>
    (\<forall>n\<le>last_page. f' n = f n) \<and> subtree f' ldp mk root (b first_page) (b (Suc last_page) - 1)"
  using assms
proof (induction c ldp cnt first_page last_page f arbitrary: b rule: build_internal_levels.induct)
  case (1 c ldp cnt first_page last_page f)
  show ?case
  proof (cases "first_page = last_page")
    case True
    then show ?thesis using "1.prems"(2) by (auto simp: build_internal_levels.simps level_pages_def)
  next
    case False
    have g: "\<not> (INTERNAL_FANOUT c < 2 \<or> last_page < first_page)" using "1.prems"(1,3) by simp
    obtain wp f1 b1 where l: "build_level c ldp cnt last_page first_page (Suc last_page) f = Inr (wp, f1)" "Suc last_page < wp"
        "\<forall>n<Suc last_page. f1 n = f n" "level_pages c ldp cnt mk b1 f1 (Suc last_page) wp" "b1 (Suc last_page) = b first_page"
        "b1 wp = b (Suc last_page)"
      using build_level_tree [OF "1.prems"(1,2), of "Suc last_page"] "1.prems"(3-5) by auto
    obtain root f' where "build_internal_levels c ldp cnt (Suc last_page) (wp - 1) f1 = Inr (root, f')" "wp - 1 \<le> root"
        "\<forall>n\<le>wp - 1. f' n = f1 n" "subtree f' ldp mk root (b1 (Suc last_page)) (b1 (Suc (wp - 1)) - 1)"
      using "1.IH" [OF False g l(1) refl "1.prems"(1), of b1] l(2,4) "1.prems"(5) by fastforce
    then show ?thesis
      using False g l by (subst build_internal_levels.simps) auto
  qed
qed

text \<open>The largest key of data page \<open>n\<close>.\<close>

definition page_max :: "('k, 'v) isam_cfg \<Rightarrow> ('k, 'v) Record Wrapped list \<Rightarrow> nat \<Rightarrow> 'k" where
  "page_max c ws n = key (rec (ws ! (min (n * LEAF_FANOUT c) (length ws) - 1)))"

definition isam_tree :: "('k::{linorder,zero}, 'v::{linorder,zero}) isam_cfg \<Rightarrow> ('k, 'v) ISAMTree \<Rightarrow> bool" where
  "isam_tree c s \<longleftrightarrow> (isam_data s \<noteq> [] \<longrightarrow>
     subtree (m_file s) (m_last_data_page s) (page_max c (isam_data s)) (m_root_page s) 1 (m_last_data_page s))"

section \<open>The invariant of a shard\<close>

definition isam_inv :: "('k::{linorder,zero}, 'v::{linorder,zero}) isam_cfg \<Rightarrow> ('k, 'v) ISAMTree \<Rightarrow> bool" where
  "isam_inv c s \<longleftrightarrow> file_holds c (m_file s) (isam_data s) \<and> length (isam_data s) = m_reccnt s \<and>
     m_last_data_page s = data_pages c (m_reccnt s) \<and> rec_sorted (isam_data s) \<and> header_ok s \<and> isam_tree c s"

definition cfg_ok :: "('k::linorder, 'v::linorder) isam_cfg \<Rightarrow> bool" where
  "cfg_ok c \<longleftrightarrow> 0 < LEAF_FANOUT c \<and> 2 \<le> INTERNAL_FANOUT c \<and> sort_pick_ok c \<and>
     (\<forall>xs. mset (cfg_srt c xs) = mset xs \<and> rec_sorted (cfg_srt c xs)) \<and> inj (cfg_uuid c)"

lemma cfg_okD:
  assumes "cfg_ok c"
  shows "0 < LEAF_FANOUT c" "2 \<le> INTERNAL_FANOUT c" "sort_pick_ok c"
    "mset (cfg_srt c xs) = mset xs" "rec_sorted (cfg_srt c xs)" "inj (cfg_uuid c)"
  using assms by (simp_all add: cfg_ok_def)

section \<open>Searching\<close>

text \<open>Where the search for a key ends: the first page whose largest key is not smaller, or the last one.\<close>

definition search_page :: "(nat \<Rightarrow> 'k::linorder) \<Rightarrow> 'k \<Rightarrow> nat \<Rightarrow> nat \<Rightarrow> nat \<Rightarrow> bool" where
  "search_page mk kx lo hi n \<longleftrightarrow> lo \<le> n \<and> n \<le> hi \<and> (\<forall>j. lo \<le> j \<and> j < n \<longrightarrow> mk j < kx) \<and> (n = hi \<or> kx \<le> mk n)"

lemma lower_scan_finds:
  assumes "es \<noteq> []" and "\<forall>e\<in>set es. snd e \<noteq> 0"
  shows "\<exists>i<length es. lower_scan kx (es @ replicate z (0, 0)) d = snd (es ! i) \<and> (\<forall>j<i. fst (es ! j) < kx) \<and>
    (Suc i = length es \<or> kx \<le> fst (es ! i))"
  using assms
proof (induction es arbitrary: d)
  case (Cons e es)
  obtain k ch where e: "e = (k, ch)" by fastforce
  show ?case
  proof (cases "kx \<le> k \<or> es = []")
    case True
    moreover have "lower_scan kx (replicate z (0, 0)) ch = ch" by (cases z) simp_all
    ultimately show ?thesis using Cons.prems e by (intro exI [of _ 0]) auto
  next
    case False
    then have "es \<noteq> []" "\<forall>e\<in>set es. snd e \<noteq> 0" using Cons.prems by simp_all
    from Cons.IH [OF this, of ch] obtain i where i: "i < length es" "lower_scan kx (es @ replicate z (0, 0)) ch = snd (es ! i)"
        "\<forall>j<i. fst (es ! j) < kx" "Suc i = length es \<or> kx \<le> fst (es ! i)" by blast
    have "\<forall>j<Suc i. fst ((e # es) ! j) < kx" using i(3) False e by (auto simp: less_Suc_eq_0_disj)
    moreover have "lower_scan kx ((e # es) @ replicate z (0, 0)) d = snd ((e # es) ! Suc i)"
      using False Cons.prems(2) e i(2) by simp
    moreover have "Suc (Suc i) = length (e # es) \<or> kx \<le> fst ((e # es) ! Suc i)" using i(4) by simp
    ultimately show ?thesis using i(1) by (intro exI [of _ "Suc i"]) simp
  qed
qed simp

lemma bounds_mono:
  assumes "\<And>i. i < n \<Longrightarrow> b i < (b (Suc i) :: nat)" and "i \<le> j" and "j \<le> n"
  shows "b i \<le> b j"
  using assms(2,3)
proof (induction rule: dec_induct)
  case (step m)
  then show ?case using assms(1) [of m] by simp
qed simp

lemma descend_lower_tree:
  assumes "subtree (m_file s) (m_last_data_page s) mk p lo hi" and "\<And>i j. lo \<le> i \<Longrightarrow> i \<le> j \<Longrightarrow> j \<le> hi \<Longrightarrow> mk i \<le> mk j"
    and "p \<le> fuel"
  shows "\<exists>n. descend_lower fuel s kx p = Inr n \<and> is_leaf s n \<and> search_page mk kx lo hi n"
  using assms
proof (induction arbitrary: fuel rule: subtree.induct)
  case (leaf p)
  then show ?case by (intro exI [of _ p]) (auto simp: descend_lower.simps is_leaf_def search_page_def)
next
  case (node p es z b)
  obtain fuel' where fuel: "fuel = Suc fuel'" using node.hyps(1) node.prems(2) by (cases fuel) auto
  have kid: "0 < snd (es ! i)" "snd (es ! i) < p" "b i < b (Suc i)" "fst (es ! i) = mk (b (Suc i) - 1)" if "i < length es" for i
    using node.IH [OF that] by blast+
  have ch: "\<forall>e\<in>set es. snd e \<noteq> 0" using kid(1) by (metis in_set_conv_nth less_not_refl)
  obtain k0 ch0 es' where es: "es = (k0, ch0) # es'" using node.hyps(3) by (cases es) auto
  obtain i where i: "i < length es" "lower_scan kx (es @ replicate z (0, 0)) ch0 = snd (es ! i)" "\<forall>j<i. fst (es ! j) < kx"
      "Suc i = length es \<or> kx \<le> fst (es ! i)" using lower_scan_finds [OF node.hyps(3) ch] by blast
  have bm: "b u \<le> b v" if "u \<le> v" "v \<le> length es" for u v
    by (rule bounds_mono [of "length es" b, OF kid(3) that])
  note bi = bm [of 0 i, OF le0 less_imp_le [OF i(1)]] bm [of "Suc i" "length es", OF Suc_leI [OF i(1)] order.refl] kid(3,4) [OF i(1)]
  have "\<exists>n. descend_lower fuel' s kx (snd (es ! i)) = Inr n \<and> is_leaf s n \<and> search_page mk kx (b i) (b (Suc i) - 1) n"
  proof (rule node.IH [OF i(1), THEN conjunct2, THEN conjunct2, THEN conjunct2, THEN conjunct2, THEN conjunct2, rule_format])
    show "mk u \<le> mk v" if "b i \<le> u" "u \<le> v" "v \<le> b (Suc i) - 1" for u v
      using that bi(1-3) by (intro node.prems(1)) linarith+
    show "snd (es ! i) \<le> fuel'" using kid(2) [OF i(1)] node.prems(2) fuel by simp
  qed
  then obtain n where n: "descend_lower fuel' s kx (snd (es ! i)) = Inr n" "is_leaf s n" "search_page mk kx (b i) (b (Suc i) - 1) n" by blast
  have below: "mk j < kx" if "b 0 \<le> j" "j < b i" for j
  proof -
    have "i \<noteq> 0" using that by (metis leD)
    then obtain i' where i': "i = Suc i'" by (cases i) auto
    then have "fst (es ! i') = mk (b i - 1)" "fst (es ! i') < kx" using kid(4) [of i'] i(1,3) by auto
    moreover have "mk j \<le> mk (b i - 1)" using that bi(1-3) by (intro node.prems(1)) linarith+
    ultimately show ?thesis by simp
  qed
  have "search_page mk kx (b 0) (b (length es) - 1) n"
    unfolding search_page_def
  proof (intro conjI allI impI)
    show "b 0 \<le> n" "n \<le> b (length es) - 1" using n(3) bi(1-3) unfolding search_page_def by linarith+
    show "mk j < kx" if "b 0 \<le> j \<and> j < n" for j
      using that below n(3) unfolding search_page_def by (cases "j < b i") auto
    show "n = b (length es) - 1 \<or> kx \<le> mk n" using n(3) i(4) unfolding search_page_def bi(4) by metis
  qed
  moreover have "descend_lower fuel s kx p = descend_lower fuel' s kx (snd (es ! i))"
    using node.hyps(1,2) fuel i(2) es by (subst descend_lower.simps) (simp add: is_leaf_def read_node_def)
  ultimately show ?case using n(1,2) by auto
qed

lemma keys_sorted:
  assumes "rec_sorted ws" and "i \<le> j" and "j < length ws"
  shows "key (rec (ws ! i)) \<le> key (rec (ws ! j :: ('k::linorder, 'v::linorder) Record Wrapped))"
  using assms by (cases "i = j") (auto intro!: key_mono simp: sorted_wrt_iff_nth_less)

text \<open>The index a lower bound search finds in the sorted records.\<close>

definition lower_at :: "'k::linorder \<Rightarrow> ('k, 'v) Record Wrapped list \<Rightarrow> nat \<Rightarrow> bool" where
  "lower_at kx ws idx \<longleftrightarrow> (\<forall>i<length ws. i < idx \<longleftrightarrow> key (rec (ws ! i)) < kx)"

lemma page_of_nth: "j < length (page_of c ws k) \<Longrightarrow> page_of c ws k ! j = ws ! (k * LEAF_FANOUT c + j)"
  by (auto simp: page_of_def)

lemma data_child_key_max:
  assumes "file_holds c f ws" and "0 < LEAF_FANOUT c" and "1 \<le> ch" and "ch \<le> data_pages c (length ws)"
  shows "child_key c (data_pages c (length ws)) (length ws) f ch = Inr (page_max c ws ch)"
proof -
  let ?lf = "LEAF_FANOUT c"
  obtain k where ch: "ch = Suc k" "k < data_pages c (length ws)" using assms(3,4) by (cases ch) auto
  then have lt: "k * ?lf < length ws" using data_pages_iff [OF assms(2)] by simp
  let ?n = "min ?lf (length ws - k * ?lf)"
  have rd: "read_data f ch = Inr (pad_page c (page_of c ws k))"
    using assms(1) ch by (simp add: file_holds_def read_data_def)
  have n0: "?n \<noteq> 0" "length (page_of c ws k) = ?n" using lt assms(2) by (simp_all add: page_of_def)
  then have "?n - 1 < length (page_of c ws k)" by linarith
  moreover note page_of_nth [OF this]
  ultimately have n: "?n - 1 < length (pad_page c (page_of c ws k))" "pad_page c (page_of c ws k) ! (?n - 1) = ws ! (k * ?lf + (?n - 1))"
    unfolding pad_page_def by (simp_all only: nth_append_left length_append)
  have "k * ?lf + (?n - 1) = min (ch * ?lf) (length ws) - 1" using lt assms(2) ch(1) by auto
  then show ?thesis using ch n n0 rd by (simp add: child_key_def Let_def page_rec_def page_max_def)
qed


text \<open>A lower bound search on a page that the tree search found.\<close>

lemma page_lower_at:
  assumes "rec_sorted ws" and "0 < LEAF_FANOUT c" and "ws \<noteq> []" and "search_page (page_max c ws) kx 1 (data_pages c (length ws)) (Suc k)"
    and "pos = first_pos (\<lambda>w. key (rec w) \<ge> kx) (take (LEAF_FANOUT c) (pad_page c (page_of c ws k)))"
  shows "lower_at kx ws (k * LEAF_FANOUT c + pos)" and "k * LEAF_FANOUT c + pos < length ws \<Longrightarrow> pos < LEAF_FANOUT c"
proof -
  let ?F = "LEAF_FANOUT c" and ?p = "pad_page c (page_of c ws k)"
  note sp = assms(4) [unfolded search_page_def]
  have k: "k < data_pages c (length ws)" using sp by simp
  then have lt: "k * ?F < length ws" using data_pages_iff [OF assms(2)] by simp
  have lp: "length (page_of c ws k) = min ?F (length ws - k * ?F)" by (simp add: page_of_def)
  have pn: "take ?F ?p ! j = ws ! (k * ?F + j)" if "j < ?F" "k * ?F + j < length ws" for j
    using that page_of_nth [of j c ws k] by (simp add: pad_page_def nth_append lp)
  have lenp: "length (take ?F ?p) = ?F" using lp by (simp add: pad_page_def)
  have before: "key (rec (ws ! i)) < kx" if "i < k * ?F" for i
  proof -
    have k0: "k \<noteq> 0" using that by (cases k) simp_all
    then have "page_max c ws k < kx" using sp by simp
    moreover have "min (k * ?F) (length ws) - 1 = k * ?F - 1" using lt by simp
    moreover have "key (rec (ws ! i)) \<le> key (rec (ws ! (k * ?F - 1)))"
      using that lt by (intro keys_sorted [OF assms(1)]) linarith+
    ultimately show ?thesis by (simp add: page_max_def)
  qed
  have posF: "pos \<le> ?F" unfolding assms(5) by (metis first_pos_le lenp)
  show inpage: "pos < ?F" if len: "k * ?F + pos < length ws"
  proof (rule ccontr)
    assume "\<not> pos < ?F"
    then have pos: "pos = ?F" using posF by simp
    have "Suc k \<noteq> data_pages c (length ws)"
      using data_pages_iff [OF assms(2), of "Suc k" "length ws"] len pos by auto
    then have "kx \<le> page_max c ws (Suc k)" using sp by simp
    moreover have "min (Suc k * ?F) (length ws) - 1 = k * ?F + (?F - 1)" using len pos assms(2) by simp
    ultimately have "kx \<le> key (rec (take ?F ?p ! (?F - 1)))" using pn [of "?F - 1"] len pos assms(2) by (simp add: page_max_def)
    moreover have "?F - 1 < pos" using pos assms(2) by simp
    ultimately show False using first_pos_before [of "?F - 1" "\<lambda>w. key (rec w) \<ge> kx" "take ?F ?p"] assms(5) by simp
  qed
  show "lower_at kx ws (k * ?F + pos)"
    unfolding lower_at_def
  proof (intro allI impI iffI)
    fix i assume i: "i < length ws" "i < k * ?F + pos"
    show "key (rec (ws ! i)) < kx"
    proof (cases "i < k * ?F")
      case False
      define j where "j = i - k * ?F"
      have j: "i = k * ?F + j" "j < pos" using False i(2) by (auto simp: j_def)
      with i(1) posF have "take ?F ?p ! j = ws ! i" using pn by simp
      then show ?thesis using first_pos_before [OF j(2) [unfolded assms(5)]] by simp
    qed (rule before)
  next
    fix i assume i: "i < length ws" "key (rec (ws ! i)) < kx"
    show "i < k * ?F + pos"
    proof (rule ccontr)
      assume ge: "\<not> i < k * ?F + pos"
      with i(1) have "k * ?F + pos < length ws" by simp
      note at = inpage [OF this] this
      then have "kx \<le> key (rec (take ?F ?p ! pos))"
        using first_pos_at [of "\<lambda>w. key (rec w) \<ge> kx" "take ?F ?p", folded assms(5), unfolded lenp] by blast
      moreover have "key (rec (ws ! (k * ?F + pos))) \<le> key (rec (ws ! i))" using ge i(1) by (intro keys_sorted [OF assms(1)]) simp_all
      ultimately show False using pn [OF at] i(2) by simp
    qed
  qed
qed

text \<open>The byte offset of slot \<open>pos\<close> of page \<open>n\<close>, read back as an index.\<close>

lemma offset_index:
  assumes "0 < LEAF_FANOUT c" and "pos \<le> LEAF_FANOUT c" and "off = Suc k * NODE_SZ + pos * rec_sz c"
  shows "(off div NODE_SZ - 1) * LEAF_FANOUT c + (off mod NODE_SZ) div rec_sz c = k * LEAF_FANOUT c + pos"
proof -
  have sz: "LEAF_FANOUT c * rec_sz c \<le> NODE_SZ" "0 < rec_sz c" "0 < NODE_SZ"
    using assms(1) by (auto simp: LEAF_FANOUT_def NODE_SZ_def div_times_less_eq_dividend intro: gr0I)
  then have "pos * rec_sz c \<le> NODE_SZ" using assms(2) by (meson le_trans mult_le_mono1)
  then consider "pos * rec_sz c < NODE_SZ" | "pos * rec_sz c = NODE_SZ" by linarith
  then show ?thesis
  proof cases
    case 1
    have "off div NODE_SZ = Suc k" "off mod NODE_SZ = pos * rec_sz c"
      unfolding assms(3) add.commute [of "Suc k * NODE_SZ"] using 1 sz(3) by (simp_all only: div_mult_self1 mod_mult_self1 div_less mod_less)
    then show ?thesis using sz(2) by simp
  next
    case 2
    then have "LEAF_FANOUT c * rec_sz c \<le> pos * rec_sz c" using sz(1) by simp
    then have "pos = LEAF_FANOUT c" using sz(2) assms(2) by simp
    moreover have "off = Suc (Suc k) * NODE_SZ" using 2 assms(3) by simp
    ultimately show ?thesis using sz(3) by simp
  qed
qed

lemma page_max_mono:
  assumes "rec_sorted ws" and "1 \<le> i" and "i \<le> j" and "0 < LEAF_FANOUT c" and "ws \<noteq> []"
  shows "page_max c ws i \<le> page_max c ws j"
proof -
  have "i * LEAF_FANOUT c \<le> j * LEAF_FANOUT c" using assms(3) by (rule mult_le_mono1)
  moreover have "0 < length ws" using assms(5) by simp
  ultimately show ?thesis unfolding page_max_def by (intro keys_sorted [OF assms(1)]) linarith+
qed

lemma isam_get_lower_bound_ok:
  assumes "cfg_ok c" and "isam_inv c s" and "isam_data s \<noteq> []"
  shows "\<exists>k pos. isam_get_lower_bound c s kx = Inr (Suc k * NODE_SZ + pos * rec_sz c) \<and> pos \<le> LEAF_FANOUT c \<and>
    k < data_pages c (m_reccnt s) \<and> lower_at kx (isam_data s) (k * LEAF_FANOUT c + pos) \<and>
    (k * LEAF_FANOUT c + pos < m_reccnt s \<longrightarrow> pos < LEAF_FANOUT c)"
proof -
  let ?ws = "isam_data s" and ?F = "LEAF_FANOUT c"
  have F: "0 < ?F" using cfg_okD(1) [OF assms(1)] .
  have inv: "file_holds c (m_file s) ?ws" "m_reccnt s = length ?ws" "m_last_data_page s = data_pages c (length ?ws)" "rec_sorted ?ws"
    using assms(2) by (auto simp: isam_inv_def)
  have tr: "subtree (m_file s) (m_last_data_page s) (page_max c ?ws) (m_root_page s) 1 (m_last_data_page s)"
    using assms(2,3) unfolding isam_inv_def isam_tree_def by blast
  have "\<exists>n. descend_lower (Suc (m_root_page s)) s kx (m_root_page s) = Inr n \<and> is_leaf s n \<and>
      search_page (page_max c ?ws) kx 1 (m_last_data_page s) n"
    by (rule descend_lower_tree [OF tr]) (use page_max_mono [OF inv(4) _ _ F assms(3)] in auto)
  then obtain n where n: "descend_lower (Suc (m_root_page s)) s kx (m_root_page s) = Inr n" "is_leaf s n"
      "search_page (page_max c ?ws) kx 1 (m_last_data_page s) n" by blast
  obtain k where k: "n = Suc k" "k < data_pages c (length ?ws)" using n(2) inv(3) by (cases n) (auto simp: is_leaf_def)
  define pos where "pos = first_pos (\<lambda>w. key (rec w) \<ge> kx) (take ?F (pad_page c (page_of c ?ws k)))"
  have "search_page (page_max c ?ws) kx 1 (data_pages c (length ?ws)) (Suc k)" using n(3) k(1) inv(3) by simp
  note page_lower_at [OF inv(4) F assms(3) this pos_def]
  moreover have "pos \<le> ?F" unfolding pos_def by (rule order_trans [OF first_pos_le]) simp
  moreover have "isam_get_lower_bound c s kx = Inr (Suc k * NODE_SZ + pos * rec_sz c)"
    using n(1) inv(1) k by (simp add: isam_get_lower_bound_def leaf_offset_def read_data_def file_holds_def Let_def pos_def)
  ultimately show ?thesis using k(2) inv(2) by auto
qed


section \<open>Iterating\<close>

text \<open>What an iterator has left, read with \<^verbatim>\<open>get_current\<close> and \<^verbatim>\<open>get_next\<close> until \<^verbatim>\<open>get_current\<close> returns null.\<close>

fun it_collect :: "('k, 'v) isam_cfg \<Rightarrow> nat \<Rightarrow> ('k, 'v) Iterator \<Rightarrow> ('k, 'v) Record Wrapped list res" where
  "it_collect c 0 it = Inl Blocked"
| "it_collect c (Suc fuel) it =
     bindE (get_current c it) (\<lambda>w. case w of None \<Rightarrow> Inr []
       | Some x \<Rightarrow> bindE (it_collect c fuel (snd (it_get_next it))) (\<lambda>ws. Inr (x # ws)))"

definition it_of :: "('k, 'v) ISAMTree \<Rightarrow> nat \<Rightarrow> ('k, 'v) Iterator" where
  "it_of s idx = \<lparr>it_file = m_file s, it_idx = idx, it_end = m_reccnt s\<rparr>"

lemma data_page_nth:
  assumes "isam_inv c s" and "0 < LEAF_FANOUT c" and "idx < m_reccnt s"
  shows "\<exists>recs. read_data (m_file s) (Suc (idx div LEAF_FANOUT c)) = Inr recs \<and> idx mod LEAF_FANOUT c < length recs \<and>
    length recs = LEAF_FANOUT c \<and> recs ! (idx mod LEAF_FANOUT c) = isam_data s ! idx"
proof -
  let ?F = "LEAF_FANOUT c" and ?ws = "isam_data s" and ?k = "idx div LEAF_FANOUT c"
  have inv: "file_holds c (m_file s) ?ws" "m_reccnt s = length ?ws" using assms(1) by (auto simp: isam_inv_def)
  have idx: "?k * ?F + idx mod ?F = idx" "idx mod ?F < ?F" using assms(2) by simp_all
  then have "?k * ?F < length ?ws" using assms(3) inv(2) by linarith
  then have "m_file s (Suc ?k) = Some (DataPage (pad_page c (page_of c ?ws ?k)))"
    using inv(1) data_pages_iff [OF assms(2)] by (simp add: file_holds_def)
  moreover have "idx mod ?F < length ?ws - ?k * ?F" using idx(1) assms(3) inv(2) by linarith
  then have "idx mod ?F < length (page_of c ?ws ?k)" using idx(2) by (simp add: page_of_def)
  ultimately show ?thesis
    using page_of_nth [of "idx mod ?F" c ?ws ?k] idx
    by (intro exI [of _ "pad_page c (page_of c ?ws ?k)"]) (simp add: read_data_def pad_page_def nth_append, simp add: page_of_def)
qed

lemma get_current_ok:
  assumes "isam_inv c s" and "0 < LEAF_FANOUT c"
  shows "get_current c (it_of s idx) = Inr (if idx < m_reccnt s then Some (isam_data s ! idx) else None)"
proof (cases "idx < m_reccnt s")
  case True
  from data_page_nth [OF assms True] obtain recs where "read_data (m_file s) (Suc (idx div LEAF_FANOUT c)) = Inr recs"
      "idx mod LEAF_FANOUT c < length recs" "recs ! (idx mod LEAF_FANOUT c) = isam_data s ! idx" by blast
  with True show ?thesis by (simp add: get_current_def it_of_def page_rec_def)
qed (simp add: get_current_def it_of_def)

lemma it_get_next_it_of: "snd (it_get_next (it_of s idx)) = it_of s (Suc idx)"
  by (simp add: it_get_next_def it_of_def Let_def)

lemma it_collect_ok:
  assumes "isam_inv c s" and "0 < LEAF_FANOUT c" and "m_reccnt s - idx < fuel"
  shows "it_collect c fuel (it_of s idx) = Inr (drop idx (isam_data s))"
  using assms(3)
proof (induction fuel arbitrary: idx)
  case (Suc fuel)
  have len: "length (isam_data s) = m_reccnt s" using assms(1) by (simp add: isam_inv_def)
  show ?case
  proof (cases "idx < m_reccnt s")
    case True
    then show ?thesis
      using Suc get_current_ok [OF assms(1,2), of idx] Cons_nth_drop_Suc [of idx "isam_data s"] len by (simp add: it_get_next_it_of)
  next
    case False
    then show ?thesis using get_current_ok [OF assms(1,2), of idx] len by simp
  qed
qed simp

lemma drop_lower_at:
  assumes "lower_at kx ws idx"
  shows "drop idx ws = filter (\<lambda>w. kx \<le> key (rec w)) ws"
proof -
  have "filter (\<lambda>w. kx \<le> key (rec w)) (take idx ws) = []" "filter (\<lambda>w. kx \<le> key (rec w)) (drop idx ws) = drop idx ws"
    using assms unfolding filter_empty_conv filter_id_conv lower_at_def
    by (auto simp: in_set_conv_nth not_less [symmetric]) (metis add.commute less_diff_conv not_add_less1)
  then show ?thesis by (metis append_take_drop_id filter_append self_append_conv2)
qed

lemma isam_get_iterator_ok:
  assumes "cfg_ok c" and "isam_inv c s"
  shows "\<exists>idx. isam_get_iterator c s kx = Inr (it_of s idx) \<and> drop idx (isam_data s) = filter (\<lambda>w. kx \<le> key (rec w)) (isam_data s)"
proof (cases "isam_data s = []")
  case True
  then have "m_reccnt s = 0" using assms(2) by (simp add: isam_inv_def)
  then show ?thesis using True by (intro exI [of _ 0]) (simp add: isam_get_iterator_def it_of_def)
next
  case False
  from isam_get_lower_bound_ok [OF assms False] obtain k pos where l: "isam_get_lower_bound c s kx = Inr (Suc k * NODE_SZ + pos * rec_sz c)"
      "pos \<le> LEAF_FANOUT c" "lower_at kx (isam_data s) (k * LEAF_FANOUT c + pos)" by blast
  have "m_reccnt s \<noteq> 0" using False assms(2) unfolding isam_inv_def by (metis length_0_conv)
  then have "isam_get_iterator c s kx = Inr (it_of s (k * LEAF_FANOUT c + pos))"
    using l(1) offset_index [OF cfg_okD(1) [OF assms(1)] l(2) refl] unfolding isam_get_iterator_def Let_def by (simp add: it_of_def)
  then show ?thesis using drop_lower_at [OF l(3)] by auto
qed

text \<open>The point lookup looks at the first record whose key is not smaller, and at no other.\<close>

lemma isam_point_lookup_ok:
  assumes "cfg_ok c" and "isam_inv c s" and "filter (\<lambda>w. key r \<le> key (rec w)) (isam_data s) = w # ws"
  shows "isam_point_lookup c r False True s = Inr (if rec w = r then Some w else None)"
proof -
  let ?F = "LEAF_FANOUT c"
  have F: "0 < ?F" using cfg_okD(1) [OF assms(1)] .
  have ne: "isam_data s \<noteq> []" using assms(3) by auto
  have len: "m_reccnt s = length (isam_data s)" "m_last_data_page s = data_pages c (m_reccnt s)" using assms(2) by (auto simp: isam_inv_def)
  from isam_get_lower_bound_ok [OF assms(1,2) ne] obtain k pos where l: "isam_get_lower_bound c s (key r) = Inr (Suc k * NODE_SZ + pos * rec_sz c)"
      "pos \<le> ?F" "lower_at (key r) (isam_data s) (k * ?F + pos)" "k * ?F + pos < m_reccnt s \<longrightarrow> pos < ?F" "k < data_pages c (m_reccnt s)" by blast
  define off where "off = Suc k * NODE_SZ + pos * rec_sz c"
  have dr: "drop (k * ?F + pos) (isam_data s) = w # ws" using drop_lower_at [OF l(3)] assms(3) by simp
  then have idx: "k * ?F + pos < m_reccnt s" "isam_data s ! (k * ?F + pos) = w" using len(1)
    by (metis drop_eq_Nil leI list.distinct(1), metis Cons_nth_drop_Suc drop_eq_Nil leI list.distinct(1) list.inject)
  have pos: "pos < ?F" using l(4) idx(1) by blast
  have sz: "?F * rec_sz c \<le> NODE_SZ" "0 < rec_sz c"
    using F by (auto simp: LEAF_FANOUT_def NODE_SZ_def div_times_less_eq_dividend intro: gr0I)
  have "pos * rec_sz c < ?F * rec_sz c" using pos sz(2) by simp
  then have lt: "pos * rec_sz c < NODE_SZ" using sz(1) by (rule less_le_trans)
  then have off: "off div NODE_SZ = Suc k" "off mod NODE_SZ = pos * rec_sz c"
    unfolding off_def add.commute [of "Suc k * NODE_SZ"] by (simp_all only: div_mult_self1 mod_mult_self1 div_less mod_less)
  have "off < Suc (Suc k) * NODE_SZ" using lt by (simp add: off_def)
  also have "\<dots> \<le> (m_last_data_page s + 1) * NODE_SZ" using l(5) len(2) by (intro mult_le_mono1) simp
  finally have in_data: "\<not> off \<ge> (m_last_data_page s + 1) * NODE_SZ" by simp
  obtain recs where recs: "read_data (m_file s) (Suc k) = Inr recs" "pos < length recs" "recs ! pos = w"
    using data_page_nth [OF assms(2) F idx(1)] idx(2) pos F by auto
  show ?thesis
    using l(1) in_data recs pos sz(2) off unfolding isam_point_lookup_def off_def [symmetric] by (simp add: page_rec_def Let_def)
qed

end
