(* ===== verification/DE_IsamShard.thy ===== *)
theory DE_IsamShard
  imports DE_IsamTree
begin

text \<open>
  The external tree satisfies the interface of shards: both constructors end without error in a
  tree that holds, net of cancellation, the records they were given.
\<close>

section \<open>The constructors\<close>

text \<open>The names still to be generated are not in use.\<close>

definition isam_winv :: "('k, 'v) isam_cfg \<Rightarrow> ('k, 'v) isam_file disk \<Rightarrow> bool" where
  "isam_winv c d \<longleftrightarrow> (\<forall>n\<ge>uuid_cnt d. shard_dir d (cfg_uuid c n @ ''.dat'') = None)"

lemma finish_shard_ok:
  assumes "cfg_ok c" and "isam_winv c d" and "file_holds c f ws" and "rec_sorted ws"
  shows "\<exists>s d'. finish_shard c (cfg_uuid c (uuid_cnt d)) (f, data_pages c (length ws), length ws, t)
      (d\<lparr>uuid_cnt := Suc (uuid_cnt d)\<rparr>) = Inr (s, d') \<and> isam_inv c s \<and> isam_data s = ws \<and> isam_winv c d'"
proof -
  note c = cfg_okD [OF assms(1)]
  let ?dp = "data_pages c (length ws)"
  have "\<exists>root f'. (if length ws > 0 then build_internal_levels c ?dp (length ws) 1 ?dp f else Inr (0, f)) = Inr (root, f') \<and>
      (\<forall>n\<le>?dp. f' n = f n) \<and> (ws \<noteq> [] \<longrightarrow> subtree f' ?dp (page_max c ws) root 1 ?dp)"
  proof (cases "ws = []")
    case False
    then have dp: "1 \<le> ?dp" using data_pages_iff [OF c(1), of 0 "length ws"] by simp
    have "level_pages c ?dp (length ws) (page_max c ws) (\<lambda>q. q) f 1 (Suc ?dp)"
      using data_child_key_max [OF assms(3) c(1)] by (auto simp: level_pages_def intro: subtree.leaf)
    from build_internal_tree [OF c(2) this dp] False show ?thesis by auto
  qed simp
  then obtain root f' where f': "(if length ws > 0 then build_internal_levels c ?dp (length ws) 1 ?dp f else Inr (0, f)) = Inr (root, f')"
      "\<forall>n\<le>?dp. f' n = f n" "ws \<noteq> [] \<longrightarrow> subtree f' ?dp (page_max c ws) root 1 ?dp" by blast
  let ?s = "write_header \<lparr>m_root_page = root, m_last_data_page = ?dp, m_reccnt = length ws, m_tombstone_cnt = t,
      m_internal_node_cnt = root - ?dp, m_id = cfg_uuid c (uuid_cnt d), m_file = f'\<rparr>"
  have holds: "file_holds c (m_file ?s) ws"
    using assms(3) f'(2) by (auto simp: write_header_def file_holds_def)
  then have data: "isam_data ?s = ws"
    by (intro isam_data_holds [OF _ c(1)]) (simp_all add: write_header_def)
  have "isam_tree c ?s"
    using f'(3) subtree_frame [of f' ?dp "page_max c ws" root 1 ?dp "Suc root" "m_file ?s"]
    unfolding isam_tree_def data by (simp add: write_header_def)
  then have "isam_inv c ?s"
    using holds assms(4) by (simp add: isam_inv_def data) (simp add: write_header_def header_ok_def)
  moreover have "isam_winv c (d\<lparr>uuid_cnt := Suc (uuid_cnt d), shard_dir := (shard_dir d)(get_filename ?s \<mapsto> m_file ?s)\<rparr>)"
    using assms(2) c(6) by (auto simp: isam_winv_def get_filename_def write_header_def inj_eq)
  ultimately show ?thesis
    using data f'(1) by (simp add: finish_shard_def Let_def)
qed

lemma isam_of_shards_ok:
  assumes "cfg_ok c" and "isam_winv c d" and "\<forall>s\<in>set ss. isam_inv c s \<and> isam_data s \<noteq> []"
    and "policy_ok (concat (map isam_data ss))"
  shows "\<exists>s d'. isam_of_shards c (map Some ss) d = Inr (s, d') \<and> isam_winv c d' \<and> isam_inv c s \<and>
    built_from (concat (map isam_data ss)) (isam_data s)"
proof -
  note c = cfg_okD [OF assms(1)]
  let ?runs = "map isam_data ss"
  have inv: "file_holds c (m_file s) (isam_data s)" "m_reccnt s = length (isam_data s)" "rec_sorted (isam_data s)" if "s \<in> set ss" for s
    using assms(3) that by (auto simp: isam_inv_def)
  have cnts: "map m_reccnt ss = map length ?runs" "sum_list (map m_reccnt ss) = length (concat ?runs)"
    using inv(2) by (simp_all add: length_concat comp_def cong: map_cong)
  have der: "mapE deref (map Some ss) = Inr ss" by (induction ss) simp_all
  obtain f ws ps where m: "external_merge_sort c (map m_file ss) True (map length ?runs) (length (concat ?runs))
        (sum_list (map m_tombstone_cnt ss)) = Inr (f, data_pages c (length ws), length ws, sz_sub (sum_list (map m_tombstone_cnt ss)) (length ps))"
      "file_holds c f ws" "mset (concat ?runs) = mset ws + mset (map fst ps) + mset (map snd ps)" "annihilated ps" "rec_sorted ws"
  proof -
    have "\<forall>i<length (map m_file ss). run_holds c True (map m_file ss ! i) (?runs ! i) \<and> ?runs ! i \<noteq> []"
      using inv(1) file_holds_run [OF _ c(1)] assms(3) by simp
    moreover have "\<forall>r\<in>set ?runs. rec_sorted r" using inv(3) by auto
    ultimately show thesis
      using external_merge_sort_ok [OF c(1,3), of "map m_file ss" ?runs True "sum_list (map m_tombstone_cnt ss)"]
      by (auto intro: that)
  qed
  have "isam_of_shards c (map Some ss) d =
      finish_shard c (cfg_uuid c (uuid_cnt d)) (f, data_pages c (length ws), length ws,
        sz_sub (sum_list (map m_tombstone_cnt ss)) (length ps)) (d\<lparr>uuid_cnt := Suc (uuid_cnt d)\<rparr>)"
    unfolding isam_of_shards_def generate_uuid_def Let_def prod.case der bindE_simps cnts(2)
    unfolding cnts(1) m(1) bindE_simps ..
  then show ?thesis
    using finish_shard_ok [OF assms(1,2) m(2,5)] merged_built_from [OF m(3,4) assms(4)] by fastforce
qed

text \<open>The sorted runs of a view.\<close>

lemma view_chunks_ok:
  assumes "view_wf v" and "cfg_ok c"
  shows "create_sorted_runs c (length (view_list v)) v =
    Inr (map (\<lambda>k n. if n = 0 then Some (DataPage (cfg_srt c (page_of c (view_list v) k))) else None) [0..<data_pages c (length (view_list v))])"
proof -
  let ?ws = "view_list v" and ?lf = "LEAF_FANOUT c"
  have "mapE (\<lambda>i. view_get v (k * ?lf + i)) [0..<chunk_len c (length ?ws) k] = Inr (page_of c ?ws k)"
    if "k < data_pages c (length ?ws)" for k
  proof -
    have "k * ?lf < length ?ws" using data_pages_iff [OF cfg_okD(1) [OF assms(2)]] that by simp
    then have "k * ?lf + i < view_record_count v" if "i < chunk_len c (length ?ws) k" for i
      using that unfolding length_view_list [OF assms(1)] chunk_len_def by linarith
    then have "view_get v (k * ?lf + i) = Inr (?ws ! (k * ?lf + i))" if "i < chunk_len c (length ?ws) k" for i
      by (rule view_get_wf [OF assms(1)]) (rule that)
    then have all: "\<forall>i\<in>set [0..<chunk_len c (length ?ws) k]. view_get v (k * ?lf + i) = Inr (?ws ! (k * ?lf + i))"
      by (simp del: length_view_list)
    have "map (\<lambda>i. ?ws ! (k * ?lf + i)) [0..<chunk_len c (length ?ws) k] = page_of c ?ws k"
      by (rule nth_equalityI) (auto simp: chunk_len_def page_of_def)
    then show ?thesis unfolding mapE_Inr [OF all] by (rule arg_cong)
  qed
  then show ?thesis
    unfolding create_sorted_runs_def chunk_count_def data_pages_def [symmetric] by (intro mapE_Inr) simp
qed

lemma isam_of_view_ok:
  assumes "cfg_ok c" and "isam_winv c d" and "view_wf v" and "policy_ok (view_list v)"
  shows "\<exists>s d'. isam_of_view c v d = Inr (s, d') \<and> isam_winv c d' \<and> isam_inv c s \<and> built_from (view_list v) (isam_data s)"
proof -
  note c = cfg_okD [OF assms(1)]
  let ?ws = "view_list v" and ?n = "data_pages c (length (view_list v))"
  let ?runs = "map (\<lambda>k. cfg_srt c (page_of c ?ws k)) [0..<?n]"
  let ?fds = "map (\<lambda>k n. if n = 0 then Some (DataPage (cfg_srt c (page_of c ?ws k))) else None) [0..<?n]"
  have cnt: "view_record_count v = length ?ws" using assms(3) by simp
  have len: "length (cfg_srt c xs) = length xs" for xs using c(4) by (metis size_mset)
  have lens: "map (chunk_len c (length ?ws)) [0..<chunk_count c (length ?ws)] = map length ?runs"
    unfolding chunk_count_def data_pages_def [symmetric] by (simp add: len comp_def chunk_len_def page_of_def min.commute)
  have tot: "mset (concat ?runs) = mset ?ws"
  proof -
    have "mset (concat ?runs) = mset (concat (map (page_of c ?ws) [0..<?n]))"
      by (simp add: mset_concat comp_def c(4))
    also have "concat (map (page_of c ?ws) [0..<?n]) = ?ws"
      unfolding concat_pages using data_pages_iff [OF c(1), of ?n "length ?ws"] by simp
    finally show ?thesis .
  qed
  then have lc: "length (concat ?runs) = length ?ws" by (metis size_mset)
  have run: "run_holds c False (?fds ! i) (?runs ! i) \<and> ?runs ! i \<noteq> []" if "i < length ?fds" for i
  proof -
    have i: "i < ?n" using that by simp
    then have "i * LEAF_FANOUT c < length ?ws" using data_pages_iff [OF c(1)] by simp
    then have ne: "page_of c ?ws i \<noteq> []" "length (page_of c ?ws i) \<le> LEAF_FANOUT c" using c(1) by (auto simp: page_of_def)
    have "k = 0" if "k * LEAF_FANOUT c < length (cfg_srt c (page_of c ?ws i))" for k
      using that ne(2) unfolding len by (cases k) auto
    moreover have "read_data (?fds ! i) (run_page False 0) = Inr (?runs ! i)" using i by (simp add: read_data_def run_page_def)
    ultimately have "run_holds c False (?fds ! i) (?runs ! i)"
      using i unfolding run_holds_def by (metis (no_types, lifting) add_0 length_map length_upt minus_nat.diff_0 mult_0 nth_map nth_upt)
    moreover have "?runs ! i \<noteq> []" using i ne(1) len by (metis (no_types, lifting) length_0_conv length_map length_upt nth_map nth_upt minus_nat.diff_0 add_0)
    ultimately show ?thesis by simp
  qed
  have "\<forall>r\<in>set ?runs. rec_sorted r" using c(5) by auto
  then obtain f ws ps where m: "external_merge_sort c ?fds False (map length ?runs) (length ?ws) (view_tombstone_count v) =
      Inr (f, data_pages c (length ws), length ws, sz_sub (view_tombstone_count v) (length ps))"
      "file_holds c f ws" "mset (concat ?runs) = mset ws + mset (map fst ps) + mset (map snd ps)" "annihilated ps" "rec_sorted ws"
    using external_merge_sort_ok [OF c(1,3), of ?fds ?runs False "view_tombstone_count v"] run unfolding lc by auto
  have "isam_of_view c v d = finish_shard c (cfg_uuid c (uuid_cnt d)) (f, data_pages c (length ws), length ws,
        sz_sub (view_tombstone_count v) (length ps)) (d\<lparr>uuid_cnt := Suc (uuid_cnt d)\<rparr>)"
    unfolding isam_of_view_def generate_uuid_def Let_def prod.case cnt view_chunks_ok [OF assms(3,1)] bindE_simps lens m(1) ..
  then show ?thesis
    using finish_shard_ok [OF assms(1,2) m(2,5)] merged_built_from [OF _ m(4) assms(4)] m(3) unfolding tot by fastforce
qed

text \<open>
  The external tree implements the interface, whatever the sizes, names and tie-breaking choices.
\<close>

locale isam_env =
  fixes c :: "('k::{linorder,zero}, 'v::{linorder,zero}) isam_cfg"
  assumes cfg: "cfg_ok c"

sublocale isam_env \<subseteq> isam: disk_shard "isam_ops c" isam_data "isam_inv c" "isam_winv c" "flags_ok D" for D
proof
  show "isam_inv c s \<Longrightarrow> sh_record_count (isam_ops c) s = length (isam_data s)" for s
    by (simp add: isam_ops_def isam_inv_def)
  show "\<exists>s w'. sh_of_view (isam_ops c) v w = Inr (s, w') \<and> isam_winv c w' \<and> isam_inv c s \<and> built_from (view_list v) (isam_data s)"
    if "isam_winv c w" "view_wf v" "\<forall>x\<in>set (view_list v). flags_ok D x" for w and v :: "(('k, 'v) Record, 'f) BufferView"
    using isam_of_view_ok [OF cfg that(1,2) flags_ok_policy [OF that(3)]] by (simp add: isam_ops_def)
  show "\<exists>s w'. sh_of_shards (isam_ops c) (map Some ss) w = Inr (s, w') \<and> isam_winv c w' \<and> isam_inv c s \<and>
      built_from (concat (map isam_data ss)) (isam_data s)"
    if "isam_winv c w" "\<forall>s\<in>set ss. isam_inv c s \<and> isam_data s \<noteq> []" "\<forall>x\<in>set (concat (map isam_data ss)). flags_ok D x" for w ss
    using isam_of_shards_ok [OF cfg that(1,2) flags_ok_policy [OF that(3)]] by (simp add: isam_ops_def)
  show "built_from src out \<Longrightarrow> \<forall>x\<in>set src. flags_ok D x \<Longrightarrow> x \<in> set out \<Longrightarrow> flags_ok D x" for src out x
    by (rule built_from_flags)
  show "isam_winv c (d\<lparr>ckpt_file := x\<rparr>)" if "isam_winv c d" for d x
    using that by (simp add: isam_winv_def)
qed

text \<open>With plain entries only, every tree that is built holds at least one.\<close>

sublocale isam_env \<subseteq> plain: live_shard "isam_ops c" isam_data "\<lambda>s. isam_inv c s \<and> isam_data s \<noteq> []" "isam_winv c" plain
proof
  show "isam_inv c s \<and> isam_data s \<noteq> [] \<Longrightarrow> sh_record_count (isam_ops c) s = length (isam_data s)" for s
    by (simp add: isam.shard_count)
  show "\<exists>s w'. sh_of_view (isam_ops c) v w = Inr (s, w') \<and> isam_winv c w' \<and> (isam_inv c s \<and> isam_data s \<noteq> []) \<and>
      built_from (view_list v) (isam_data s)"
    if "isam_winv c w" "view_wf v" "view_list v \<noteq> []" "\<forall>x\<in>set (view_list v). plain x" for w and v :: "(('k, 'v) Record, 'f) BufferView"
    using isam.of_view_ok [OF that(1-3), of TAGGING] built_from_plain(2) [OF _ that(4,3)] that(4) by (auto simp: plain_def)
  show "\<exists>s w'. sh_of_shards (isam_ops c) (map Some ss) w = Inr (s, w') \<and> isam_winv c w' \<and> (isam_inv c s \<and> isam_data s \<noteq> []) \<and>
      built_from (concat (map isam_data ss)) (isam_data s)"
    if "isam_winv c w" "ss \<noteq> []" "\<forall>s\<in>set ss. (isam_inv c s \<and> isam_data s \<noteq> []) \<and> isam_data s \<noteq> []"
      "\<forall>x\<in>set (concat (map isam_data ss)). plain x" for w ss
  proof -
    have ne: "concat (map isam_data ss) \<noteq> []" using that(2,3) by (cases ss) auto
    show ?thesis
      using isam.of_shards_ok [OF that(1,2), of TAGGING] built_from_plain(2) [OF _ that(4) ne] that(3,4) by (auto simp: plain_def)
  qed
  show "built_from src out \<Longrightarrow> \<forall>x\<in>set src. plain x \<Longrightarrow> x \<in> set out \<Longrightarrow> plain x" for src out x
    using built_from_plain(1) by blast
  show "isam_winv c d \<Longrightarrow> isam_winv c (d\<lparr>ckpt_file := x\<rparr>)" for d x
    by (rule isam.winv_ckpt)
qed simp_all

text \<open>A concrete instance: two records to a leaf, two children to a node.\<close>

definition demo_cfg :: "(nat, nat) isam_cfg" where
  "demo_cfg = \<lparr>rec_sz = 2048, key_sz = 2044, cfg_uuid = (\<lambda>n. replicate n CHR ''a''),
     cfg_srt = sort_key rec, cfg_pick = first_min (\<lambda>e. rec (fst e))\<rparr>"

lemma rec_sorted_sort: "rec_sorted (sort_key rec xs)"
  using sorted_sort_key [of rec xs] by (simp add: sorted_map)

lemma demo_cfg_ok: "cfg_ok demo_cfg"
proof -
  have "sort_pick_ok demo_cfg"
    using first_min.pick_in [where ky = "\<lambda>e :: (nat, nat) Record Wrapped \<times> nat. rec (fst e)"]
      first_min.pick_min [where ky = "\<lambda>e :: (nat, nat) Record Wrapped \<times> nat. rec (fst e)"]
    unfolding sort_pick_ok_def demo_cfg_def by auto
  moreover have "inj (\<lambda>n. replicate n CHR ''a'')" by (rule injI) (metis length_replicate)
  ultimately show ?thesis
    by (simp add: cfg_ok_def demo_cfg_def LEAF_FANOUT_def INTERNAL_FANOUT_def NODE_SZ_def rec_sorted_sort)
qed

interpretation demo: isam_env demo_cfg
  by unfold_locales (rule demo_cfg_ok)

section \<open>Properties\<close>

text \<open>
  C8. Building a shard from any well-formed view whose entries follow one delete policy, and
  merging any non-empty shards, ends without error; the new file is a complete search tree whose
  data pages hold, sorted, the same net number of every record and no more entries than the
  inputs, and the names still to be generated stay unused.
\<close>

theorem isam_construction_correct:
  assumes "cfg_ok c" and "isam_winv c d" and "view_wf v" and "policy_ok (view_list v)"
    and "\<forall>s\<in>set ss. isam_inv c s \<and> isam_data s \<noteq> []" and "policy_ok (concat (map isam_data ss))"
  shows "(\<exists>s d'. isam_of_view c v d = Inr (s, d') \<and> isam_winv c d' \<and> isam_inv c s \<and> built_from (view_list v) (isam_data s)) \<and>
    (\<exists>s d'. isam_of_shards c (map Some ss) d = Inr (s, d') \<and> isam_winv c d' \<and> isam_inv c s \<and>
      built_from (concat (map isam_data ss)) (isam_data s))"
  using isam_of_view_ok [OF assms(1-4)] isam_of_shards_ok [OF assms(1,2,5,6)] by blast

text \<open>A tree of one leaf, written out.\<close>

definition demo_tree :: "(nat, nat) ISAMTree" where
  "demo_tree = write_header \<lparr>m_root_page = 1, m_last_data_page = 1, m_reccnt = 2, m_tombstone_cnt = 0, m_internal_node_cnt = 0,
     m_id = ''b'', m_file = [1 \<mapsto> DataPage [\<lparr>header = 0, rec = Record 1 5\<rparr>, \<lparr>header = 0, rec = Record 4 6\<rparr>]]\<rparr>"

lemma demo_tree_data: "isam_data demo_tree = [\<lparr>header = 0, rec = Record 1 5\<rparr>, \<lparr>header = 0, rec = Record 4 6\<rparr>]"
  by (simp add: isam_data_def demo_tree_def write_header_def)

lemma demo_tree_inv: "isam_inv demo_cfg demo_tree"
proof -
  have F: "LEAF_FANOUT demo_cfg = 2" by (simp add: LEAF_FANOUT_def demo_cfg_def NODE_SZ_def)
  have "subtree (m_file demo_tree) 1 (page_max demo_cfg (isam_data demo_tree)) 1 1 1" by (rule subtree.leaf) simp_all
  then show ?thesis
    unfolding isam_inv_def isam_tree_def demo_tree_data
    by (simp add: demo_tree_def write_header_def header_ok_def file_holds_def data_pages_def F page_of_def pad_page_def less_eq_Record_def less_Record_def)
qed

definition demo_view :: "((nat, nat) Record, (nat, nat) Record list) BufferView" where
  "demo_view = BufferView_new [\<lparr>header = 0, rec = Record 3 1\<rparr>, \<lparr>header = 0, rec = Record 2 2\<rparr>, \<lparr>header = 0, rec = Record 0 0\<rparr>] 3 0 2 0 None"

lemma demo_view_ok: "view_wf demo_view" "view_list demo_view = [\<lparr>header = 0, rec = Record 3 1\<rparr>, \<lparr>header = 0, rec = Record 2 2\<rparr>]"
  by (simp_all add: view_wf_def demo_view_def BufferView_new_def view_list_def ring_list_def upt_rec numeral_2_eq_2)

definition demo_disk :: "'p disk" where
  "demo_disk = \<lparr>shard_dir = (\<lambda>_. None), tmp_dir = (\<lambda>_. None), ckpt_file = None, uuid_cnt = 0\<rparr>"

lemma demo_disk_inv: "isam_winv c demo_disk" "ckpt_file demo_disk = None"
  by (simp_all add: isam_winv_def demo_disk_def)

theorem isam_construction_correct_witness:
  "(\<exists>s d'. isam_of_view demo_cfg demo_view demo_disk = Inr (s, d') \<and> isam_inv demo_cfg s \<and> net (isam_data s) (Record 3 1) = 1) \<and>
   (\<exists>s d'. isam_of_shards demo_cfg (map Some [demo_tree, demo_tree]) demo_disk = Inr (s, d') \<and> isam_inv demo_cfg s \<and>
      net (isam_data s) (Record 4 6) = 2)"
proof -
  have "policy_ok (view_list demo_view)" "policy_ok (concat (map isam_data [demo_tree, demo_tree]))"
    by (auto simp: policy_ok_def demo_view_ok demo_tree_data is_deleted_def is_tombstone_def)
  moreover have "\<forall>s\<in>set [demo_tree, demo_tree]. isam_inv demo_cfg s \<and> isam_data s \<noteq> []"
    by (simp add: demo_tree_inv demo_tree_data)
  ultimately have "(\<exists>s d'. isam_of_view demo_cfg demo_view demo_disk = Inr (s, d') \<and> isam_winv demo_cfg d' \<and> isam_inv demo_cfg s \<and>
        built_from (view_list demo_view) (isam_data s)) \<and>
      (\<exists>s d'. isam_of_shards demo_cfg (map Some [demo_tree, demo_tree]) demo_disk = Inr (s, d') \<and> isam_winv demo_cfg d' \<and> isam_inv demo_cfg s \<and>
        built_from (concat (map isam_data [demo_tree, demo_tree])) (isam_data s))"
    by (intro isam_construction_correct [OF demo_cfg_ok demo_disk_inv(1) demo_view_ok(1)])
  then obtain s1 d1 s2 d2 where "isam_of_view demo_cfg demo_view demo_disk = Inr (s1, d1)" "isam_inv demo_cfg s1"
      "isam_of_shards demo_cfg (map Some [demo_tree, demo_tree]) demo_disk = Inr (s2, d2)" "isam_inv demo_cfg s2"
      "net (isam_data s1) = net (view_list demo_view)" "net (isam_data s2) = net (concat (map isam_data [demo_tree, demo_tree]))"
    unfolding built_from_def by blast
  moreover from this(5,6) have "net (isam_data s1) (Record 3 1) = 1" "net (isam_data s2) (Record 4 6) = 2"
    by (simp_all add: demo_view_ok demo_tree_data net_Cons wt_def is_deleted_def is_tombstone_def)
  ultimately show ?thesis by blast
qed

text \<open>
  C12. Range iteration: on every shard that satisfies the invariant, \<^verbatim>\<open>get_iterator\<close> with a lower key
  succeeds, and reading the iterator to its end, which takes one step more than there are records,
  yields exactly the records whose key is at least the lower key, in sorted order.
\<close>

theorem isam_iterator_correct:
  assumes "cfg_ok c" and "isam_inv c s"
  shows "\<exists>it. isam_get_iterator c s lower = Inr it \<and>
    it_collect c (Suc (m_reccnt s)) it = Inr (filter (\<lambda>w. lower \<le> key (rec w)) (isam_data s))"
proof -
  obtain idx where idx: "isam_get_iterator c s lower = Inr (it_of s idx)" "drop idx (isam_data s) = filter (\<lambda>w. lower \<le> key (rec w)) (isam_data s)"
    using isam_get_iterator_ok [OF assms] by blast
  have "it_collect c (Suc (m_reccnt s)) (it_of s idx) = Inr (drop idx (isam_data s))"
    by (rule it_collect_ok [OF assms(2) cfg_okD(1) [OF assms(1)]]) simp
  with idx show ?thesis by simp
qed

theorem isam_iterator_correct_witness:
  "\<exists>it. isam_get_iterator demo_cfg demo_tree 2 = Inr it \<and> it_collect demo_cfg 3 it = Inr [\<lparr>header = 0, rec = Record 4 6\<rparr>]"
proof -
  have "m_reccnt demo_tree = 2" by (simp add: demo_tree_def write_header_def)
  then have "Suc (m_reccnt demo_tree) = 3" by simp
  moreover have "filter (\<lambda>w. 2 \<le> key (rec w)) (isam_data demo_tree) = [\<lparr>header = 0, rec = Record 4 6\<rparr>]" by (simp add: demo_tree_data)
  ultimately show ?thesis using isam_iterator_correct [OF demo_cfg_ok demo_tree_inv, of 2] by metis
qed

text \<open>
  Point lookups: when some record of the shard has a key not below the wanted one, the lookup
  (called with a page buffer and without the filter) ends without error and compares the wanted
  record with the first such record only: it finds it exactly when that one is equal. So of
  several records with the same key only the smallest can be found.
\<close>

theorem isam_point_lookup_first_only:
  assumes "cfg_ok c" and "isam_inv c s" and "filter (\<lambda>w. key r \<le> key (rec w)) (isam_data s) = w # ws"
  shows "isam_point_lookup c r False True s = Inr (if rec w = r then Some w else None)"
  by (rule isam_point_lookup_ok [OF assms])

theorem isam_point_lookup_first_only_witness:
  "isam_point_lookup demo_cfg (Record 4 6) False True demo_tree = Inr (Some \<lparr>header = 0, rec = Record 4 6\<rparr>) \<and>
   isam_point_lookup demo_cfg (Record 4 7) False True demo_tree = Inr None"
  using isam_point_lookup_first_only [OF demo_cfg_ok demo_tree_inv, of "Record 4 6"] isam_point_lookup_first_only [OF demo_cfg_ok demo_tree_inv, of "Record 4 7"]
  by (simp add: demo_tree_data)

end
