(* ===== verification/DE_IsamIndex.thy ===== *)
theory DE_IsamIndex
  imports DE_Index DE_IsamShard
begin

text \<open>
  The index over the external tree: the theorems of \<open>DE_Index\<close> for the shard type the framework
  is used with.
\<close>

sublocale isam_env \<subseteq> ix: index_shard "isam_ops c" isam_data "isam_inv c" "isam_winv c" "flags_ok D" for D
  by unfold_locales

sublocale isam_env \<subseteq> lx: live_index "isam_ops c" isam_data "\<lambda>s. isam_inv c s \<and> isam_data s \<noteq> []" "isam_winv c" plain
  by unfold_locales

lemma stamped_flags: "flags_ok TOMBSTONE (stamped pos r ts)" "plain (stamped pos r False)"
  by (simp_all add: plain_def)

context isam_env
begin

lemma index_run:
  assumes "0 < lwm" and "lwm \<le> hwm" and "0 < scale" and "L = BSM \<longrightarrow> scale = 2" and "isam_winv c d"
    and "skip \<or> ckpt_file d = None" and "length cs \<le> 2 ^ 31"
    and "\<And>x. DynamicExtension_new (isam_ops c) J B bf0 L lwm hwm scale mb tc skip True None d = Inr (x, d) \<Longrightarrow>
      safe_run (isam_ops c) isam_data J B L junk cs x d"
  shows "\<exists>x0 x d'. DynamicExtension_new (isam_ops c) J B bf0 L lwm hwm scale mb tc skip True None d = Inr (x0, d) \<and>
    ext_run (isam_ops c) J B L junk cs x0 d = Inr (replicate (length cs) 1, x, d') \<and>
    ext_ok (isam_ops c) isam_data (isam_inv c) L (flags_ok TOMBSTONE) x \<and> ext_net isam_data x = spec_net cs"
proof -
  obtain x0 where x0: "DynamicExtension_new (isam_ops c) J B bf0 L lwm hwm scale mb tc skip True None d = Inr (x0, d)"
      "ext_ok (isam_ops c) isam_data (isam_inv c) L (flags_ok TOMBSTONE) x0" "ext_net isam_data x0 = (\<lambda>_. 0)" "m_tail (m_buffer x0) = 0"
    using DynamicExtension_new_ok [OF assms(1-4,6), where S = "isam_ops c" and data = isam_data and sinv = "isam_inv c" and
        adm = "flags_ok TOMBSTONE" and J = J and B = B and ?bf0.0 = bf0 and mb = mb and tc = tc] by blast
  have "\<exists>x' d'. ext_run (isam_ops c) J B L junk cs x0 d = Inr (replicate (length cs) 1, x', d') \<and> isam_winv c d' \<and>
      ext_ok (isam_ops c) isam_data (isam_inv c) L (flags_ok TOMBSTONE) x' \<and> (\<forall>q. ext_net isam_data x' q = ext_net isam_data x0 q + spec_net cs q)"
    using x0(4) assms(7) assms(8) [OF x0(1)] by (intro ix.ext_run_ok [OF x0(2) assms(5)]) (simp_all add: stamped_flags)
  then show ?thesis using x0(1,3) by (auto simp: fun_eq_iff)
qed


text \<open>Inserts only: the stored records are exactly the inserted ones.\<close>

lemma index_inserts:
  assumes "0 < lwm" and "lwm \<le> hwm" and "0 < scale" and "L = BSM \<longrightarrow> scale = 2" and "isam_winv c d"
    and "skip \<or> ckpt_file d = None" and "length rs \<le> 2 ^ 31"
  shows "\<exists>x0 x d'. DynamicExtension_new (isam_ops c) J B bf0 L lwm hwm scale mb tc skip True None d = Inr (x0, d) \<and>
    ext_run (isam_ops c) J B L junk (map Insert rs) x0 d = Inr (replicate (length rs) 1, x, d') \<and>
    image_mset rec (mset (struct_data isam_data (cur_struct x) @ buf_list (m_buffer x))) = mset rs \<and>
    de_record_count (isam_ops c) x = Inr (length rs, x)"
proof -
  let ?ok = "ext_ok (isam_ops c) isam_data (\<lambda>s. isam_inv c s \<and> isam_data s \<noteq> []) L plain"
  obtain x0 where x0: "DynamicExtension_new (isam_ops c) J B bf0 L lwm hwm scale mb tc skip True None d = Inr (x0, d)"
      "?ok x0" "ext_net isam_data x0 = (\<lambda>_. 0)" "m_tail (m_buffer x0) = 0"
    using DynamicExtension_new_ok [OF assms(1-4,6), where S = "isam_ops c" and data = isam_data and
        sinv = "\<lambda>s. isam_inv c s \<and> isam_data s \<noteq> []" and adm = plain and J = J and B = B and ?bf0.0 = bf0 and mb = mb and tc = tc] by blast
  have "safe_run (isam_ops c) isam_data J B L junk (map Insert rs) x0 d"
    using x0(4) assms(7) by (intro lx.safe_run_inserts [OF x0(2) assms(5)]) (simp_all add: stamped_flags)
  then have "\<exists>x' d'. ext_run (isam_ops c) J B L junk (map Insert rs) x0 d = Inr (replicate (length (map Insert rs)) 1, x', d') \<and>
      isam_winv c d' \<and> ?ok x' \<and> (\<forall>q. ext_net isam_data x' q = ext_net isam_data x0 q + spec_net (map Insert rs) q)"
    using x0(4) assms(7) by (intro lx.ext_run_ok [OF x0(2) assms(5)]) (auto simp: stamped_flags)
  then obtain x d' where x: "ext_run (isam_ops c) J B L junk (map Insert rs) x0 d = Inr (replicate (length rs) 1, x, d')" "?ok x"
      "\<And>q. ext_net isam_data x q = int (count_list rs q)"
    using x0(3) by (auto simp: spec_net_inserts)
  let ?ws = "struct_data isam_data (cur_struct x) @ buf_list (m_buffer x)"
  note sb = ext_okD(2) [OF x(2)]
  have "\<forall>w\<in>set (struct_data isam_data (cur_struct x)). plain w"
    using struct_baseD(7) [OF sb] by (simp add: set_struct_data_iff)
  moreover have "\<forall>w\<in>set (buf_list (m_buffer x)). plain w" using x(2) by (simp add: ext_ok_def)
  ultimately have ms: "image_mset rec (mset ?ws) = mset rs"
    using x(3) by (intro lx.mset_plain) (auto simp: ext_net_def net_append)
  then have len: "length ?ws = length rs" by (metis size_image_mset size_mset)
  moreover have "length rs < size_max" using assms(7) size_max_gt(2) by linarith
  ultimately have "de_record_count (isam_ops c) x = Inr (length rs, x)" using lx.de_record_count_ok [OF x(2)] by simp
  then show ?thesis using x0(1) x(1) ms by blast
qed

end

section \<open>Properties\<close>

text \<open>
  C1. The index refines a signed bag. Construct it on an empty directory, under any layout policy
  and any watermarks, and perform any sequence of inserts and tombstone deletes: provided that no
  flush meets an empty shard (or, under leveling, a buffer that cancels itself out), every call
  returns 1, no assertion fails, no call blocks, the state between the calls stays well formed,
  and for every record the index holds, buffer and shards together, exactly the number of inserts
  less the number of deletes.
\<close>

theorem index_run_correct:
  assumes "cfg_ok c" and "0 < lwm" and "lwm \<le> hwm" and "0 < scale" and "L = BSM \<longrightarrow> scale = 2" and "isam_winv c d"
    and "skip \<or> ckpt_file d = None" and "length cs \<le> 2 ^ 31"
    and "\<forall>x. DynamicExtension_new (isam_ops c) J B bf0 L lwm hwm scale mb tc skip True None d = Inr (x, d) \<longrightarrow>
      safe_run (isam_ops c) isam_data J B L junk cs x d"
  shows "\<exists>x0 x d'. DynamicExtension_new (isam_ops c) J B bf0 L lwm hwm scale mb tc skip True None d = Inr (x0, d) \<and>
    ext_run (isam_ops c) J B L junk cs x0 d = Inr (replicate (length cs) 1, x, d') \<and>
    ext_ok (isam_ops c) isam_data (isam_inv c) L (flags_ok TOMBSTONE) x \<and> ext_net isam_data x = spec_net cs"
  by (rule isam_env.index_run [OF isam_env.intro [OF assms(1)] assms(2-8)]) (use assms(9) in blast)

definition demo_json :: json_ops where
  "demo_json = \<lparr>json_dump = (\<lambda>_. ''''), json_parse = (\<lambda>_. Inl SysError)\<rparr>"

definition demo_ops :: "(nat, nat) Record ext_op list" where
  "demo_ops = [Insert (Record 1 5), Insert (Record 2 6), Erase (Record 1 5)]"

abbreviation demo_new :: "json_ops \<Rightarrow> (((nat, nat) ISAMTree, (nat, nat) Record, (nat, nat) Record list) DynamicExtension \<times> (nat, nat) isam_file disk) res" where
  "demo_new J \<equiv> DynamicExtension_new (isam_ops demo_cfg) J list_bloom [] TEIRING 2 4 2 0 1 False True None demo_disk"

lemma demo_safe:
  assumes "demo_new J = Inr (x, demo_disk)"
  shows "safe_run (isam_ops demo_cfg) isam_data J list_bloom TEIRING 0 demo_ops x demo_disk"
proof -
  have "x = \<lparr>de_scale_factor = 2, de_max_delete_prop = 1, m_sched = SerialScheduler_new 0 1,
      m_buffer = \<lparr>m_lwm = 2, m_hwm = 4, m_cap = 8, m_tail = 0, m_head = \<lparr>head_idx = 0, refcnt = 0\<rparr>,
        m_old_head = \<lparr>head_idx = 4, refcnt = 0\<rparr>, m_data = replicate 8 empty_payload, m_tombstone_filter = Some [], m_tscnt = 0,
        m_active_head_advance = False, m_wal = Some (WriteAheadLogger_new None)\<rparr>,
      m_epoch_cnt = 0, m_reconstruction_scheduled = False, m_next_epoch = null_epoch,
      m_current_epoch = \<lparr>ep_epoch = Some (Epoch_new 0 (empty_structure 4 2 1) 0), ep_refcnt = 0\<rparr>, m_previous_epoch = null_epoch\<rparr>"
    using assms [symmetric] by (simp add: DynamicExtension_new_def MutableBuffer_new_def Let_def build_buffer_from_log_def replay_records_def
      insert_entries_def WriteAheadLogger_new_def empty_wal_file_def ExtensionStructure_new_def load_checkpoint_def demo_disk_def empty_structure_def)
  then show ?thesis
    by (simp add: demo_ops_def de_insert_def internal_append_def is_at_low_watermark_def buffer_record_count_def buffer_append_def try_advance_tail_def
      to_int32_def int_to_size_def new_wrapped_def Let_def sz_sub_def sz_add_def size_max_def flush_safe_def buf_list_def ring_list_def
      cur_struct_def Epoch_new_def struct_live_def empty_structure_def take_reference_def st_levels_def net_Cons wt_def
      split: sum.split)
qed

theorem index_run_correct_witness:
  "\<exists>x0 x d'. demo_new demo_json = Inr (x0, demo_disk) \<and>
    ext_run (isam_ops demo_cfg) demo_json list_bloom TEIRING 0 demo_ops x0 demo_disk = Inr ([1, 1, 1], x, d') \<and>
    ext_net isam_data x (Record 2 6) = 1 \<and> ext_net isam_data x (Record 1 5) = 0"
proof -
  have "\<exists>x0 x d'. demo_new demo_json = Inr (x0, demo_disk) \<and>
    ext_run (isam_ops demo_cfg) demo_json list_bloom TEIRING 0 demo_ops x0 demo_disk = Inr (replicate (length demo_ops) 1, x, d') \<and>
    ext_ok (isam_ops demo_cfg) isam_data (isam_inv demo_cfg) TEIRING (flags_ok TOMBSTONE) x \<and> ext_net isam_data x = spec_net demo_ops"
    by (intro index_run_correct [OF demo_cfg_ok _ _ _ _ demo_disk_inv(1)] allI impI demo_safe) (auto simp: demo_disk_inv demo_ops_def)
  then show ?thesis by (auto simp: numeral_3_eq_3 demo_ops_def)
qed

text \<open>
  C7. Inserts only, without any condition on the run: from an empty directory, for every layout
  policy and every sequence of at most \<open>2 ^ 31\<close> inserts, all flushes and merges included, every
  call succeeds, the records stored in buffer and shards are exactly the inserted ones, with
  multiplicity, and \<^verbatim>\<open>get_record_count\<close> returns their number.
\<close>

theorem index_inserts_correct:
  assumes "cfg_ok c" and "0 < lwm" and "lwm \<le> hwm" and "0 < scale" and "L = BSM \<longrightarrow> scale = 2" and "isam_winv c d"
    and "skip \<or> ckpt_file d = None" and "length rs \<le> 2 ^ 31"
  shows "\<exists>x0 x d'. DynamicExtension_new (isam_ops c) J B bf0 L lwm hwm scale mb tc skip True None d = Inr (x0, d) \<and>
    ext_run (isam_ops c) J B L junk (map Insert rs) x0 d = Inr (replicate (length rs) 1, x, d') \<and>
    image_mset rec (mset (struct_data isam_data (cur_struct x) @ buf_list (m_buffer x))) = mset rs \<and>
    de_record_count (isam_ops c) x = Inr (length rs, x)"
  by (rule isam_env.index_inserts [OF isam_env.intro [OF assms(1)] assms(2-8)])

theorem index_inserts_correct_witness:
  "\<exists>x0 x d'. DynamicExtension_new (isam_ops demo_cfg) demo_json list_bloom [] BSM 2 4 2 0 1 False True None demo_disk = Inr (x0, demo_disk) \<and>
    ext_run (isam_ops demo_cfg) demo_json list_bloom BSM 0 (map (\<lambda>i. Insert (Record i i)) [0..<100]) x0 demo_disk =
      Inr (replicate 100 1, x, d') \<and> de_record_count (isam_ops demo_cfg) x = Inr (100, x)"
  using index_inserts_correct [OF demo_cfg_ok, of 2 4 2 BSM demo_disk False "map (\<lambda>i. Record i i) [0..<100]" demo_json list_bloom "[]" 0 1 0]
  by (simp add: demo_disk_inv comp_def) blast

end
