(* ===== verification/DE_IsamDurable.thy ===== *)
theory DE_IsamDurable
  imports DE_Durable DE_IsamIndex
begin

text \<open>
  The external tree keeps its shard in a file under its own name, so an index over external trees
  survives a restart.
\<close>

section \<open>Shard files\<close>

lemma finish_shard_file:
  assumes "cfg_ok c" and "isam_winv c d"
    and "finish_shard c (cfg_uuid c (uuid_cnt d)) m (d\<lparr>uuid_cnt := Suc (uuid_cnt d)\<rparr>) = Inr (s, d')"
  shows "isam_winv c d' \<and> dir_grows d d' \<and> shard_dir d' (get_filename s) = Some (m_file s)"
proof -
  have nm: "get_filename s = cfg_uuid c (uuid_cnt d) @ ''.dat''"
      "d' = d\<lparr>uuid_cnt := Suc (uuid_cnt d), shard_dir := (shard_dir d)(get_filename s \<mapsto> m_file s)\<rparr>"
    using assms(3) by (auto simp: finish_shard_def Let_def get_filename_def write_header_def split: prod.splits)
  have "shard_dir d (get_filename s) = None" using assms(2) nm(1) by (simp add: isam_winv_def)
  then have "dir_grows d d'" using nm(2) by (auto simp: dir_grows_def)
  moreover have "isam_winv c d'"
    using assms(2) cfg_okD(6) [OF assms(1)] by (auto simp: isam_winv_def nm inj_eq)
  ultimately show ?thesis by (simp add: nm(2))
qed

lemma isam_reopen:
  assumes "isam_inv c s" and "shard_dir d (get_filename s) = Some (m_file s)"
  shows "isam_of_file (get_filename s) d = Inr (s\<lparr>m_tombstone_cnt := 0\<rparr>)"
  using assms by (simp add: isam_of_file_def isam_inv_def header_ok_def)

sublocale isam_env \<subseteq> fs: file_shard "isam_ops c" isam_data "isam_inv c" "isam_winv c" m_file
proof
  show "isam_winv c d' \<and> dir_grows d d' \<and> shard_dir d' (sh_filename (isam_ops c) s) = Some (m_file s)"
    if "isam_winv c d" "sh_of_view (isam_ops c) v d = Inr (s, d')" for d d' s and v :: "(('k, 'v) Record, 'f) BufferView"
    using that finish_shard_file [OF cfg that(1)]
    by (auto simp: isam_ops_def isam_of_view_def generate_uuid_def Let_def)
  show "isam_winv c d' \<and> dir_grows d d' \<and> shard_dir d' (sh_filename (isam_ops c) s) = Some (m_file s)"
    if "isam_winv c d" "sh_of_shards (isam_ops c) ss d = Inr (s, d')" for d d' s ss
    using that finish_shard_file [OF cfg that(1)]
    by (auto simp: isam_ops_def isam_of_shards_def generate_uuid_def Let_def)
  show "isam_winv c (d\<lparr>ckpt_file := x\<rparr>) = isam_winv c d" for d x
    by (simp add: isam_winv_def)
  show "\<exists>s'. sh_of_file (isam_ops c) (sh_filename (isam_ops c) s) d = Inr s' \<and> isam_data s' = isam_data s"
    if "isam_inv c s" "shard_dir d (sh_filename (isam_ops c) s) = Some (m_file s)" for s d
    using isam_reopen [OF that(1)] that(2) by (simp add: isam_ops_def isam_data_def)
qed

sublocale isam_env \<subseteq> dx: durable_index "isam_ops c" isam_data "isam_inv c" "isam_winv c" "flags_ok D" m_file for D
  by unfold_locales

lemma flags_not_deleted: "flags_ok TOMBSTONE w \<Longrightarrow> \<not> is_deleted w"
  by simp

context isam_env
begin

lemma index_restart:
  assumes "json_ok J" and "0 < lwm" and "lwm \<le> hwm" and "hwm \<le> 2 ^ 31" and "0 < scale" and "L = BSM \<longrightarrow> scale = 2"
    and "isam_winv c d" and "ckpt_file d = None" and "length cs \<le> 2 ^ 31"
    and "\<And>x. DynamicExtension_new (isam_ops c) J B bf0 L lwm hwm scale mb tc False True None d = Inr (x, d) \<Longrightarrow>
      safe_run (isam_ops c) isam_data J B L junk cs x d"
  shows "\<exists>x0 x d1 l. DynamicExtension_new (isam_ops c) J B bf0 L lwm hwm scale mb tc False True None d = Inr (x0, d) \<and>
    ext_run (isam_ops c) J B L junk cs x0 d = Inr (replicate (length cs) 1, x, d1) \<and> m_wal (m_buffer x) = Some l \<and>
    (\<forall>t. \<exists>y d2. DynamicExtension_new (isam_ops c) J B bf0 L lwm hwm scale mb tc False True (Some ((wal_file l)\<lparr>torn := t\<rparr>)) d1 = Inr (y, d2) \<and>
      ext_net isam_data y = spec_net cs)"
proof -
  obtain x0 where x0: "DynamicExtension_new (isam_ops c) J B bf0 L lwm hwm scale mb tc False True None d = Inr (x0, d)"
      "ext_ok (isam_ops c) isam_data (isam_inv c) L (flags_ok TOMBSTONE) x0" "ext_net isam_data x0 = (\<lambda>_. 0)" "m_tail (m_buffer x0) = 0"
      "m_hwm (m_buffer x0) = hwm"
    using DynamicExtension_new_ok [OF assms(2,3,5,6), where S = "isam_ops c" and data = isam_data and sinv = "isam_inv c" and skip = False and
        adm = "flags_ok TOMBSTONE" and J = J and B = B and ?bf0.0 = bf0 and mb = mb and tc = tc] assms(8) by blast
  note safe = assms(10) [OF x0(1)]
  have tl: "m_tail (m_buffer x0) + length cs \<le> 2 ^ 31" using x0(4) assms(9) by simp
  have "\<exists>x' d'. ext_run (isam_ops c) J B L junk cs x0 d = Inr (replicate (length cs) 1, x', d') \<and> isam_winv c d' \<and>
      ext_ok (isam_ops c) isam_data (isam_inv c) L (flags_ok TOMBSTONE) x' \<and> (\<forall>q. ext_net isam_data x' q = ext_net isam_data x0 q + spec_net cs q)"
    by (intro ix.ext_run_ok [OF x0(2) assms(7) _ _ tl safe]) (simp_all add: stamped_flags)
  then obtain x d1 where x: "ext_run (isam_ops c) J B L junk cs x0 d = Inr (replicate (length cs) 1, x, d1)"
      "ext_ok (isam_ops c) isam_data (isam_inv c) L (flags_ok TOMBSTONE) x" "ext_net isam_data x = spec_net cs"
    using x0(3) by (auto simp: fun_eq_iff)
  have "dx.durable J x0 d"
    using dx.new_durable [OF x0(1) assms(8,2,3)] .
  then have du: "dx.durable J x d1" "m_hwm (m_buffer x) = hwm"
    using dx.ext_run_durable [OF x0(2) assms(7) _ _ _ tl safe x(1)] x0(5) by (simp_all add: stamped_flags)
  obtain l where l: "m_wal (m_buffer x) = Some l" using du(1) by (auto simp: dx.durable_def log_mirrors_def)
  have "\<exists>y d2. DynamicExtension_new (isam_ops c) J B bf0 L lwm hwm scale mb tc False True (Some ((wal_file l)\<lparr>torn := t\<rparr>)) d1 = Inr (y, d2) \<and>
      ext_net isam_data y = spec_net cs" for t
    using dx.restart_ok [OF x(2) du(1) assms(1) flags_not_deleted du(2) assms(4,3,6) l, of B bf0 mb tc t] x(3) by auto
  then show ?thesis using x0(1) x(1) l by blast
qed

end

section \<open>Properties\<close>

text \<open>
  C3. Restarting keeps the data. Construct the index on an empty directory, perform any sequence of
  inserts and tombstone deletes whose flushes are safe, and stop: the directory and the log file
  (with any incomplete entry at its end) are enough to construct the index again, which succeeds
  and holds for every record exactly the number of inserts less the number of deletes. The
  flushed records come back from the shard files the checkpoint names, the others from the log;
  the JSON library reads back what it printed.
\<close>

theorem restart_correct:
  assumes "cfg_ok c" and "json_ok J" and "0 < lwm" and "lwm \<le> hwm" and "hwm \<le> 2 ^ 31" and "0 < scale" and "L = BSM \<longrightarrow> scale = 2"
    and "isam_winv c d" and "ckpt_file d = None" and "length cs \<le> 2 ^ 31"
    and "\<forall>x. DynamicExtension_new (isam_ops c) J B bf0 L lwm hwm scale mb tc False True None d = Inr (x, d) \<longrightarrow>
      safe_run (isam_ops c) isam_data J B L junk cs x d"
  shows "\<exists>x0 x d1 l. DynamicExtension_new (isam_ops c) J B bf0 L lwm hwm scale mb tc False True None d = Inr (x0, d) \<and>
    ext_run (isam_ops c) J B L junk cs x0 d = Inr (replicate (length cs) 1, x, d1) \<and> m_wal (m_buffer x) = Some l \<and>
    (\<forall>t. \<exists>y d2. DynamicExtension_new (isam_ops c) J B bf0 L lwm hwm scale mb tc False True (Some ((wal_file l)\<lparr>torn := t\<rparr>)) d1 = Inr (y, d2) \<and>
      ext_net isam_data y = spec_net cs)"
  by (rule isam_env.index_restart [OF isam_env.intro [OF assms(1)] assms(2-10)]) (use assms(11) in blast)

text \<open>A codec that reads back what it printed.\<close>

definition put_num :: "nat \<Rightarrow> string" where
  "put_num n = replicate n CHR ''1'' @ ''0''"

definition put_str :: "string \<Rightarrow> string" where
  "put_str s = put_num (length s) @ s"

fun put_list :: "('a \<Rightarrow> string) \<Rightarrow> 'a list \<Rightarrow> string" where
  "put_list p [] = ''.''"
| "put_list p (x # xs) = '','' @ p x @ put_list p xs"

fun put_val :: "json_val \<Rightarrow> string" where
  "put_val (JNum n) = ''n'' @ put_num n"
| "put_val (JArr ss) = ''a'' @ put_list put_str ss"

definition put_entry :: "string \<times> json_val \<Rightarrow> string" where
  "put_entry e = put_str (fst e) @ put_val (snd e)"

definition get_num :: "string \<Rightarrow> nat \<times> string" where
  "get_num s = (length (takeWhile (\<lambda>ch. ch = CHR ''1'') s), tl (dropWhile (\<lambda>ch. ch = CHR ''1'') s))"

definition get_str :: "string \<Rightarrow> string \<times> string" where
  "get_str s = (let (n, r) = get_num s in (take n r, drop n r))"

fun get_list :: "(string \<Rightarrow> 'a \<times> string) \<Rightarrow> nat \<Rightarrow> string \<Rightarrow> 'a list \<times> string" where
  "get_list g 0 s = ([], s)"
| "get_list g (Suc n) s =
     (if take 1 s = '','' then let (x, r) = g (tl s); (xs, r') = get_list g n r in (x # xs, r') else ([], tl s))"

definition get_val :: "string \<Rightarrow> json_val \<times> string" where
  "get_val s = (if take 1 s = ''n'' then let (n, r) = get_num (tl s) in (JNum n, r)
     else let (xs, r) = get_list get_str (length s) (tl s) in (JArr xs, r))"

definition get_entry :: "string \<Rightarrow> (string \<times> json_val) \<times> string" where
  "get_entry s = (let (k, r) = get_str s; (v, r') = get_val r in ((k, v), r'))"

definition demo_codec :: json_ops where
  "demo_codec = \<lparr>json_dump = put_list put_entry, json_parse = (\<lambda>s. Inr (fst (get_list get_entry (length s) s)))\<rparr>"

lemma get_put_num: "get_num (put_num n @ r) = (n, r)"
  by (induction n) (auto simp: get_num_def put_num_def)

lemma get_put_str: "get_str (put_str s @ r) = (s, r)"
  by (simp add: get_str_def put_str_def get_put_num)

lemma get_put_list:
  assumes "\<And>x r. g (p x @ r) = (x, r)"
  shows "length (put_list p xs) \<le> n \<Longrightarrow> get_list g n (put_list p xs @ r) = (xs, r)"
proof (induction xs arbitrary: n)
  case Nil
  then show ?case by (cases n) simp_all
next
  case (Cons x xs)
  then obtain m where m: "n = Suc m" "length (put_list p xs) \<le> m" by (cases n) auto
  show ?case using Cons.IH [OF m(2)] by (simp add: m(1) assms)
qed

lemma get_put_entry: "get_entry (put_entry e @ r) = (e, r)"
proof -
  have "get_val (put_val v @ r) = (v, r)" for v
  proof (cases v)
    case (JArr ss)
    have "get_list get_str (length (put_val v @ r)) (put_list put_str ss @ r) = (ss, r)"
      by (rule get_put_list [OF get_put_str]) (simp add: JArr)
    then show ?thesis by (simp add: JArr get_val_def del: get_list.simps)
  qed (simp add: get_val_def get_put_num)
  then show ?thesis by (simp add: get_entry_def put_entry_def get_put_str)
qed

lemma demo_codec_ok: "json_ok demo_codec"
  using get_put_list [of get_entry put_entry, OF get_put_entry, where r = "[]"] by (simp add: json_ok_def demo_codec_def)

theorem restart_correct_witness:
  "\<exists>x0 x d1 l y d2. demo_new demo_codec = Inr (x0, demo_disk) \<and>
    ext_run (isam_ops demo_cfg) demo_codec list_bloom TEIRING 0 demo_ops x0 demo_disk = Inr ([1, 1, 1], x, d1) \<and> m_wal (m_buffer x) = Some l \<and>
    DynamicExtension_new (isam_ops demo_cfg) demo_codec list_bloom [] TEIRING 2 4 2 0 1 False True (Some ((wal_file l)\<lparr>torn := 7\<rparr>)) d1 = Inr (y, d2) \<and>
    ext_net isam_data y (Record 2 6) = 1 \<and> ext_net isam_data y (Record 1 5) = 0"
proof -
  have "\<exists>x0 x d1 l. demo_new demo_codec = Inr (x0, demo_disk) \<and>
    ext_run (isam_ops demo_cfg) demo_codec list_bloom TEIRING 0 demo_ops x0 demo_disk = Inr (replicate (length demo_ops) 1, x, d1) \<and>
    m_wal (m_buffer x) = Some l \<and>
    (\<forall>t. \<exists>y d2. DynamicExtension_new (isam_ops demo_cfg) demo_codec list_bloom [] TEIRING 2 4 2 0 1 False True
        (Some ((wal_file l)\<lparr>torn := t\<rparr>)) d1 = Inr (y, d2) \<and> ext_net isam_data y = spec_net demo_ops)"
    by (intro restart_correct [OF demo_cfg_ok demo_codec_ok _ _ _ _ _ demo_disk_inv(1)] allI impI demo_safe)
      (auto simp: demo_disk_inv demo_ops_def)
  moreover have "spec_net demo_ops (Record 2 6) = 1" "spec_net demo_ops (Record 1 5) = 0" "replicate (length demo_ops) 1 = [1, 1, 1 :: nat]"
    by (simp_all add: demo_ops_def numeral_3_eq_3)
  ultimately show ?thesis by metis
qed

end
