(* ===== verification/DE_PointLookup.thy ===== *)
theory DE_PointLookup
  imports DE_Query DE_IsamIndex
begin

text \<open>
  The point lookup query (\<^verbatim>\<open>include/query/pointlookup.h\<close>): a lookup by key that returns at most one
  record. It stops at the first local result, and is the only query of the repository whose
  \<^verbatim>\<open>local_query\<close> has the signature the framework calls.
\<close>

section \<open>The query type\<close>

record 'k pl_Parameters =
  search_key :: 'k

record ('k, 'v, 'f) pl_LocalQueryBuffer =
  pl_buffer :: "(('k, 'v) Record, 'f) BufferView"
  pl_parms :: "'k pl_Parameters"

definition pl_local_preproc :: "'s \<Rightarrow> 'k pl_Parameters \<Rightarrow> 'k pl_Parameters res" where
  "pl_local_preproc s parms = Inr parms"

definition pl_local_preproc_buffer ::
    "(('k, 'v) Record, 'f) BufferView \<Rightarrow> 'k pl_Parameters \<Rightarrow> ('k, 'v, 'f) pl_LocalQueryBuffer" where
  "pl_local_preproc_buffer v parms = \<lparr>pl_buffer = v, pl_parms = parms\<rparr>"

definition pl_local_query ::
    "('s, ('k, 'v::zero) Record, 'f, 'w) shard_ops \<Rightarrow> bool \<Rightarrow> 's \<Rightarrow> 'k pl_Parameters \<Rightarrow> 'k pl_Parameters \<Rightarrow>
     (('k, 'v) Record Wrapped list \<times> 'k pl_Parameters) res" where
  "pl_local_query S has_buffer s q p =
     bindE (sh_point_lookup S (Record (search_key q) 0) False has_buffer s) (\<lambda>r.
     Inr (case r of None \<Rightarrow> [] | Some w \<Rightarrow> [w], p))"

fun pl_scan :: "(('k, 'v) Record, 'f) BufferView \<Rightarrow> 'k \<Rightarrow> nat list \<Rightarrow> ('k, 'v) Record Wrapped list res" where
  "pl_scan v k [] = Inr []"
| "pl_scan v k (i # is) = bindE (view_get v i) (\<lambda>w. if key (rec w) = k then Inr [w] else pl_scan v k is)"

definition pl_local_query_buffer ::
    "('k, 'v, 'f) pl_LocalQueryBuffer \<Rightarrow> 'k pl_Parameters \<Rightarrow> (('k, 'v) Record Wrapped list \<times> 'k pl_Parameters) res" where
  "pl_local_query_buffer q p =
     bindE (pl_scan (pl_buffer q) (search_key (pl_parms q)) [0..<view_record_count (pl_buffer q)]) (\<lambda>rs. Inr (rs, p))"

fun pl_combine :: "('k, 'v) Record Wrapped list list \<Rightarrow> ('k, 'v) Record list \<Rightarrow> ('k, 'v) Record list" where
  "pl_combine [] output = output"
| "pl_combine (r # rs) output =
     (case r of
        [] \<Rightarrow> pl_combine rs output
      | w # _ \<Rightarrow> if is_deleted w \<or> is_tombstone w then output else output @ [rec w])"

definition pl_Query ::
    "('s, ('k, 'v::zero) Record, 'f, 'w) shard_ops \<Rightarrow>
     ('s, ('k, 'v) Record, 'f, 'k pl_Parameters, 'k pl_Parameters, ('k, 'v, 'f) pl_LocalQueryBuffer, ('k, 'v) Record Wrapped,
      ('k, 'v) Record) query_ops" where
  "pl_Query S =
     \<lparr>q_early_abort = True, q_preproc = pl_local_preproc, q_preproc_buffer = (\<lambda>v parms. Inr (pl_local_preproc_buffer v parms)),
      q_distribute = (\<lambda>p lqs bq. Inr (p, lqs, bq)), q_local = pl_local_query S, q_local_buffer = pl_local_query_buffer,
      q_combine = (\<lambda>results p output. Inr (pl_combine results output)),
      q_repeat = (\<lambda>p output lqs bq. Inr (False, p, lqs, bq))\<rparr>"

section \<open>What it answers\<close>

text \<open>
  The first entry of the buffer with the key, oldest first; failing that, for each shard in
  turn, the first record whose key is not smaller, provided it is the key with value 0. A
  tombstone or a tagged entry found first ends the search with no result.
\<close>

definition pl_candidates ::
    "'k::linorder \<Rightarrow> bool \<Rightarrow> ('k, 'v::zero) Record Wrapped list \<Rightarrow> ('k, 'v) Record Wrapped list list \<Rightarrow> ('k, 'v) Record Wrapped list" where
  "pl_candidates k has_buffer bs dss =
     filter (\<lambda>w. key (rec w) = k) bs @
     (if has_buffer
      then concat (map (\<lambda>ws. filter (\<lambda>w. rec w = Record k 0) (take 1 (filter (\<lambda>w. k \<le> key (rec w)) ws))) dss)
      else [])"

definition pl_answer :: "('k, 'v) Record Wrapped list \<Rightarrow> ('k, 'v) Record list" where
  "pl_answer ws = (case ws of [] \<Rightarrow> [] | w # _ \<Rightarrow> if is_deleted w \<or> is_tombstone w then [] else [rec w])"

lemma pl_scan_filter: "\<forall>i\<in>set is. view_get v i = Inr (ws ! i) \<Longrightarrow>
    pl_scan v k is = Inr (take 1 (filter (\<lambda>w. key (rec w) = k) (map ((!) ws) is)))"
  by (induction "is") simp_all

lemma pl_combine_answer: "\<forall>r\<in>set rss. length r \<le> 1 \<Longrightarrow> pl_combine rss out = out @ pl_answer (concat rss)"
proof (induction rss)
  case (Cons r rss)
  then show ?case by (cases r) (simp_all add: pl_answer_def)
qed (simp add: pl_answer_def)

lemma pl_combine_skip: "pl_combine (replicate n [] @ rs) out = pl_combine rs out"
  by (induction n) simp_all

lemma pl_answer_take: "pl_answer (take 1 ws @ us) = pl_answer (ws @ us)"
  by (cases ws) (simp_all add: pl_answer_def)

lemma pl_shards_answer:
  assumes "\<forall>s\<in>set ss. sh_point_lookup S (Record k 0) False has_buffer s = Inr (case f s of [] \<Rightarrow> None | w # _ \<Rightarrow> Some w) \<and> length (f s) \<le> 1"
  shows "\<exists>rss. query_shards (pl_Query S) has_buffer (zip ss (map (\<lambda>_. \<lparr>search_key = k\<rparr>) ss)) p = Inr (rss, p) \<and>
    (\<forall>r\<in>set rss. length r \<le> 1) \<and> pl_answer (concat rss) = pl_answer (concat (map f ss))"
  using assms
proof (induction ss)
  case (Cons s ss)
  then obtain rss where rss: "query_shards (pl_Query S) has_buffer (zip ss (map (\<lambda>_. \<lparr>search_key = k\<rparr>) ss)) p = Inr (rss, p)"
    "\<forall>r\<in>set rss. length r \<le> 1" "pl_answer (concat rss) = pl_answer (concat (map f ss))" by auto
  have l: "pl_local_query S has_buffer s \<lparr>search_key = k\<rparr> p = Inr (f s, p)"
    using Cons.prems by (cases "f s") (auto simp: pl_local_query_def)
  show ?case
  proof (cases "f s")
    case Nil
    then show ?thesis using rss l by (intro exI [of _ "[] # rss"]) (simp add: pl_Query_def)
  next
    case (Cons w ws)
    then show ?thesis using Cons.prems l by (intro exI [of _ "f s # replicate (length ss) []"]) (auto simp: pl_Query_def pl_answer_def)
  qed
qed simp


context isam_env
begin

lemma isam_shards_lookup:
  assumes "isam_inv c s" and "has_buffer \<Longrightarrow> \<exists>w\<in>set (isam_data s). k \<le> key (rec w)"
  defines "f \<equiv> \<lambda>ws :: ('k, 'v) Record Wrapped list. if has_buffer then filter (\<lambda>w. rec w = Record k 0) (take 1 (filter (\<lambda>w. k \<le> key (rec w)) ws)) else []"
  shows "sh_point_lookup (isam_ops c) (Record k 0) False has_buffer s = Inr (case f (isam_data s) of [] \<Rightarrow> None | w # _ \<Rightarrow> Some w)"
    and "length (f (isam_data s)) \<le> 1"
proof -
  show "sh_point_lookup (isam_ops c) (Record k 0) False has_buffer s = Inr (case f (isam_data s) of [] \<Rightarrow> None | w # _ \<Rightarrow> Some w)"
  proof (cases has_buffer)
    case True
    then have "filter (\<lambda>w. k \<le> key (rec w)) (isam_data s) \<noteq> []" using assms(2) by (auto simp: filter_empty_conv)
    then obtain w ws where w: "filter (\<lambda>w. k \<le> key (rec w)) (isam_data s) = w # ws" by (cases "filter (\<lambda>w. k \<le> key (rec w)) (isam_data s)") auto
    then show ?thesis using True isam_point_lookup_ok [OF cfg assms(1), of "Record k 0"] by (simp add: isam_ops_def f_def)
  qed (simp add: isam_ops_def isam_point_lookup_def f_def)
  have "length (take 1 xs) \<le> 1" for xs :: "('k, 'v) Record Wrapped list" by simp
  then show "length (f (isam_data s)) \<le> 1" unfolding f_def by (auto intro: order_trans [OF length_filter_le])
qed

lemma point_query_ok:
  fixes x :: "(('k, 'v) ISAMTree, ('k, 'v) Record, 'f) DynamicExtension"
  assumes "ext_ok (isam_ops c) isam_data sinv L adm x" and "\<And>s. sinv s \<Longrightarrow> isam_inv c s"
    and "\<lbrakk>has_buffer; \<forall>w\<in>set (buf_list (m_buffer x)). key (rec w) \<noteq> k\<rbrakk> \<Longrightarrow>
      \<forall>s\<in>set (struct_shards (cur_struct x)). \<exists>w\<in>set (isam_data s). k \<le> key (rec w)"
  shows "async_query (pl_Query (isam_ops c)) has_buffer \<lparr>search_key = k\<rparr> x =
    Some (Inr (pl_answer (pl_candidates k has_buffer (buf_list (m_buffer x)) (map isam_data (struct_shards (cur_struct x)))), x))"
proof -
  let ?bs = "buf_list (m_buffer x)" and ?ss = "struct_shards (cur_struct x)" and ?p = "\<lparr>search_key = k\<rparr>"
    and ?v = "view_at (head_idx (m_head (m_buffer x))) (m_buffer x)"
  define Q :: "(('k, 'v) ISAMTree, ('k, 'v) Record, 'f, 'k pl_Parameters, 'k pl_Parameters, ('k, 'v, 'f) pl_LocalQueryBuffer,
      ('k, 'v) Record Wrapped, ('k, 'v) Record) query_ops" where "Q = pl_Query (isam_ops c)"
  define f where "f = (\<lambda>ws :: ('k, 'v) Record Wrapped list. if has_buffer then filter (\<lambda>w. rec w = Record k 0) (take 1 (filter (\<lambda>w. k \<le> key (rec w)) ws)) else [])"
  have bi: "buf_inv (m_buffer x)" using ext_okD(1) [OF assms(1)] by (simp add: ext_frame_def)
  have vw: "view_wf ?v" "view_list ?v = ?bs" using view_at_wf [OF bi] by simp_all
  then have cnt: "view_record_count ?v = length ?bs" using length_view_list by metis
  have scan: "pl_scan ?v k [0..<view_record_count ?v] = Inr (take 1 (filter (\<lambda>w. key (rec w) = k) ?bs))"
    using view_get_wf [OF vw(1)] vw(2) cnt by (subst pl_scan_filter [where ws = ?bs]) (simp_all add: map_nth)
  have cand: "pl_candidates k has_buffer ?bs (map isam_data ?ss) = filter (\<lambda>w. key (rec w) = k) ?bs @ concat (map (\<lambda>s. f (isam_data s)) ?ss)"
    by (simp add: pl_candidates_def f_def comp_def)
  let ?out = "pl_answer (pl_candidates k has_buffer ?bs (map isam_data ?ss))" and ?bq = "\<lparr>pl_buffer = ?v, pl_parms = ?p\<rparr>"
  have lb: "q_local_buffer Q ?bq ?p = Inr (take 1 (filter (\<lambda>w. key (rec w) = k) ?bs), ?p)"
    using scan by (simp add: Q_def pl_Query_def pl_local_query_buffer_def)
  have "\<exists>rss. query_results Q has_buffer ?ss (map (\<lambda>_. ?p) ?ss) ?bq ?p = Inr (rss, ?p) \<and> pl_combine rss [] = ?out"
  proof (cases "filter (\<lambda>w. key (rec w) = k) ?bs")
    case (Cons w ws)
    then show ?thesis using lb by (simp add: query_results_def) (simp add: Q_def pl_Query_def cand pl_answer_def)
  next
    case Nil
    then have "\<forall>w\<in>set ?bs. key (rec w) \<noteq> k" by (simp add: filter_empty_conv)
    note ge = assms(3) [OF _ this]
    have "\<forall>s\<in>set ?ss. sh_point_lookup (isam_ops c) (Record k 0) False has_buffer s =
        Inr (case f (isam_data s) of [] \<Rightarrow> None | w # _ \<Rightarrow> Some w) \<and> length (f (isam_data s)) \<le> 1"
    proof (intro ballI conjI)
      fix s assume s: "s \<in> set ?ss"
      then have inv: "isam_inv c s" using assms(2) struct_shards_inv(2) [OF assms(1)] by blast
      show "sh_point_lookup (isam_ops c) (Record k 0) False has_buffer s = Inr (case f (isam_data s) of [] \<Rightarrow> None | w # _ \<Rightarrow> Some w)"
        unfolding f_def by (rule isam_shards_lookup(1) [OF inv]) (use ge s in blast)
      show "length (f (isam_data s)) \<le> 1"
        unfolding f_def by (rule isam_shards_lookup(2) [OF inv]) (use ge s in blast)
    qed
    then obtain rss where rss: "query_shards Q has_buffer (zip ?ss (map (\<lambda>_. ?p) ?ss)) ?p = Inr (rss, ?p)"
        "\<forall>r\<in>set rss. length r \<le> 1" "pl_answer (concat rss) = pl_answer (concat (map (\<lambda>s. f (isam_data s)) ?ss))"
      using pl_shards_answer [of ?ss "isam_ops c" k has_buffer "\<lambda>s. f (isam_data s)" ?p] unfolding Q_def by blast
    have "query_results Q has_buffer ?ss (map (\<lambda>_. ?p) ?ss) ?bq ?p = Inr ([] # rss, ?p)"
      unfolding query_results_def lb Nil take_Nil bindE_simps prod.case rss(1) by simp
    moreover have "pl_combine ([] # rss) [] = ?out" using rss(2,3) Nil by (simp add: cand pl_combine_answer)
    ultimately show ?thesis by blast
  qed
  moreover have "q_combine Q rs p out = Inr (pl_combine rs out)" "q_repeat Q p out lqs bq = Inr (False, p, lqs, bq)" for rs p out lqs bq
    by (simp_all add: Q_def pl_Query_def)
  ultimately have "query_round Q has_buffer ?ss ?p (map (\<lambda>_. ?p) ?ss) ?bq [] = Inr (?out, False, ?p, map (\<lambda>_. ?p) ?ss, ?bq)"
    by (auto simp: query_round_def)
  then have "async_query Q has_buffer ?p x = Some (Inr (?out, x))"
    by (rule async_query_once [OF assms(1), where g = "\<lambda>_. ?p", rotated 2]) (simp_all add: Q_def pl_Query_def pl_local_preproc_def pl_local_preproc_buffer_def)
  then show ?thesis by (simp add: Q_def)
qed

end


section \<open>Properties\<close>

text \<open>An index with one shard of two records and one record in the buffer.\<close>

definition demo_struct :: "(nat, nat) ISAMTree ExtensionStructure" where
  "demo_struct = \<lparr>m_scale_factor = 2, m_max_delete_prop = 1, m_buffer_size = 4, m_refcnt = 1, m_flush_seq = 1,
     m_levels = [Some \<lparr>level_no = 0, shard_cnt = 1, m_shards = [Some demo_tree, None], m_pending_shard = None\<rparr>],
     m_current_state = [\<lparr>reccnt = 2, reccap = 8, shardcnt = 1, shardcap = 2\<rparr>]\<rparr>"

definition demo_index :: "((nat, nat) ISAMTree, (nat, nat) Record, (nat, nat) Record list) DynamicExtension" where
  "demo_index =
     \<lparr>de_scale_factor = 2, de_max_delete_prop = 1, m_sched = SerialScheduler_new 0 1,
      m_buffer = \<lparr>m_lwm = 2, m_hwm = 4, m_cap = 8, m_tail = 3, m_head = \<lparr>head_idx = 2, refcnt = 0\<rparr>,
        m_old_head = \<lparr>head_idx = 0, refcnt = 0\<rparr>, m_data = (replicate 8 empty_payload)[2 := \<lparr>header = 0, rec = Record 3 7\<rparr>],
        m_tombstone_filter = Some [], m_tscnt = 0, m_active_head_advance = False, m_wal = None\<rparr>,
      m_epoch_cnt = 1, m_reconstruction_scheduled = False, m_next_epoch = null_epoch,
      m_current_epoch = \<lparr>ep_epoch = Some \<lparr>m_structure = Some demo_struct, m_active_merge = False, m_epoch_number = 1, m_buffer_head = 2\<rparr>,
        ep_refcnt = 0\<rparr>, m_previous_epoch = null_epoch\<rparr>"

lemma demo_index_parts:
  "buf_list (m_buffer demo_index) = [\<lparr>header = 0, rec = Record 3 7\<rparr>]" "struct_shards (cur_struct demo_index) = [demo_tree]"
  by (simp_all add: demo_index_def buf_list_def ring_list_def cur_struct_def demo_struct_def struct_shards_def st_levels_def level_shards_def live_shards_def)

lemma demo_index_ok: "ext_ok (isam_ops demo_cfg) isam_data (isam_inv demo_cfg) TEIRING (flags_ok TOMBSTONE) demo_index"
proof -
  have "struct_ok (isam_ops demo_cfg) isam_data (isam_inv demo_cfg) TEIRING (flags_ok TOMBSTONE) demo_struct"
    by (simp add: struct_ok_def struct_base_def demo_struct_def st_levels_def level_ok_def level_wf_def level_shards_def live_shards_def demo_tree_inv
      entry_ok_def actual_state_def level_record_count_def used_slots_def calc_level_record_capacity_def shard_capacity_def level_data_def
      demo_tree_data is_deleted_def isam_ops_def) (simp add: demo_tree_def write_header_def)
  moreover have "ext_frame demo_index"
    by (simp add: ext_frame_def demo_index_def idle_ptr_def demo_struct_def buf_inv_def old_head_valid_def)
  ultimately show ?thesis
    unfolding ext_ok_def by (simp add: demo_index_parts is_deleted_def) (simp add: demo_index_def demo_struct_def cur_struct_def)
qed

text \<open>
  C13. Point queries. On every index at rest whose shards all hold some key not below the one
  searched for (or whose buffer holds it, or when no page buffer is passed), the query ends after
  one round without error, leaves the index as it was, and returns what the reference lookup
  returns: the oldest entry of the buffer with the key; failing that, from the first shard whose
  first record with a key not below it is the key with value 0; and nothing when that entry is a
  tombstone or tagged.
\<close>

theorem point_query_correct:
  assumes "cfg_ok c" and "ext_ok (isam_ops c) isam_data (isam_inv c) L adm x"
    and "has_buffer \<longrightarrow> (\<exists>w\<in>set (buf_list (m_buffer x)). key (rec w) = k) \<or>
      (\<forall>s\<in>set (struct_shards (cur_struct x)). \<exists>w\<in>set (isam_data s). k \<le> key (rec w))"
  shows "async_query (pl_Query (isam_ops c)) has_buffer \<lparr>search_key = k\<rparr> x =
    Some (Inr (pl_answer (pl_candidates k has_buffer (buf_list (m_buffer x)) (map isam_data (struct_shards (cur_struct x)))), x))"
  by (rule isam_env.point_query_ok [OF isam_env.intro [OF assms(1)] assms(2)]) (use assms(3) in blast)+

theorem point_query_correct_witness:
  "async_query (pl_Query (isam_ops demo_cfg)) True \<lparr>search_key = 3\<rparr> demo_index = Some (Inr ([Record 3 7], demo_index))"
  using point_query_correct [OF demo_cfg_ok demo_index_ok, of True 3]
  by (simp add: demo_index_parts pl_candidates_def pl_answer_def is_deleted_def is_tombstone_def)

text \<open>
  C14. A point query finds a record with a value other than 0 while it is in the buffer, and no longer once it has
  been flushed: it looks for the key with value 0 in the shards, and the comparison there is on key and
  value. For such a record: when the buffer's oldest entry with the key is the record, neither a tombstone
  nor tagged, the answer is the record; and when the buffer has no entry with the key, a shard holds
  the record, no shard holds the key with value 0, and every shard holds a key not below it, the answer
  is empty.
\<close>

theorem point_query_misses_flushed:
  assumes "cfg_ok c" and "ext_ok (isam_ops c) isam_data (isam_inv c) L adm x" and "v \<noteq> 0"
    and "rec w = Record k v" and "\<not> is_tombstone w" and "\<not> is_deleted w"
  shows "((\<exists>bs cs. buf_list (m_buffer x) = bs @ w # cs \<and> (\<forall>u\<in>set bs. key (rec u) \<noteq> k)) \<longrightarrow>
      async_query (pl_Query (isam_ops c)) True \<lparr>search_key = k\<rparr> x = Some (Inr ([Record k v], x))) \<and>
    ((\<forall>u\<in>set (buf_list (m_buffer x)). key (rec u) \<noteq> k) \<and> w \<in> set (struct_data isam_data (cur_struct x)) \<and>
     (\<forall>u\<in>set (struct_data isam_data (cur_struct x)). rec u \<noteq> Record k 0) \<and>
     (\<forall>s\<in>set (struct_shards (cur_struct x)). \<exists>u\<in>set (isam_data s). k \<le> key (rec u)) \<longrightarrow>
      async_query (pl_Query (isam_ops c)) True \<lparr>search_key = k\<rparr> x = Some (Inr ([], x)))"
proof (intro conjI impI)
  let ?cand = "pl_candidates k True (buf_list (m_buffer x)) (map isam_data (struct_shards (cur_struct x)))"
  note query = isam_env.point_query_ok [OF isam_env.intro [OF assms(1)] assms(2)]
  show "async_query (pl_Query (isam_ops c)) True \<lparr>search_key = k\<rparr> x = Some (Inr ([Record k v], x))"
    if "\<exists>bs cs. buf_list (m_buffer x) = bs @ w # cs \<and> (\<forall>u\<in>set bs. key (rec u) \<noteq> k)"
  proof -
    have "pl_answer ?cand = [Record k v]" using that assms(4-6) by (auto simp: pl_candidates_def pl_answer_def)
    moreover have "async_query (pl_Query (isam_ops c)) True \<lparr>search_key = k\<rparr> x = Some (Inr (pl_answer ?cand, x))"
      by (rule query) (use that assms(4) in auto)
    ultimately show ?thesis by simp
  qed
  show "async_query (pl_Query (isam_ops c)) True \<lparr>search_key = k\<rparr> x = Some (Inr ([], x))"
    if h: "(\<forall>u\<in>set (buf_list (m_buffer x)). key (rec u) \<noteq> k) \<and> w \<in> set (struct_data isam_data (cur_struct x)) \<and>
     (\<forall>u\<in>set (struct_data isam_data (cur_struct x)). rec u \<noteq> Record k 0) \<and>
     (\<forall>s\<in>set (struct_shards (cur_struct x)). \<exists>u\<in>set (isam_data s). k \<le> key (rec u))"
  proof -
    have "?cand = []" using h by (auto simp: pl_candidates_def filter_empty_conv struct_data_shards dest!: in_set_takeD)
    moreover have "async_query (pl_Query (isam_ops c)) True \<lparr>search_key = k\<rparr> x = Some (Inr (pl_answer ?cand, x))"
      by (rule query) (use h in blast)+
    ultimately show ?thesis by (simp add: pl_answer_def)
  qed
qed

theorem point_query_misses_flushed_witness:
  "async_query (pl_Query (isam_ops demo_cfg)) True \<lparr>search_key = 3\<rparr> demo_index = Some (Inr ([Record 3 7], demo_index)) \<and>
   async_query (pl_Query (isam_ops demo_cfg)) True \<lparr>search_key = 4\<rparr> demo_index = Some (Inr ([], demo_index)) \<and>
   ext_net isam_data demo_index (Record 4 6) = 1"
proof -
  have "\<exists>bs cs. buf_list (m_buffer demo_index) = bs @ \<lparr>header = 0, rec = Record 3 7\<rparr> # cs \<and> (\<forall>u\<in>set bs. key (rec u) \<noteq> 3)"
    by (intro exI [of _ "[]"]) (simp add: demo_index_parts)
  then have "async_query (pl_Query (isam_ops demo_cfg)) True \<lparr>search_key = 3\<rparr> demo_index = Some (Inr ([Record 3 7], demo_index))"
    using point_query_misses_flushed [OF demo_cfg_ok demo_index_ok, of 7 "\<lparr>header = 0, rec = Record 3 7\<rparr>" 3]
    by (simp add: is_deleted_def is_tombstone_def)
  then show ?thesis
    using point_query_misses_flushed [OF demo_cfg_ok demo_index_ok, of 6 "\<lparr>header = 0, rec = Record 4 6\<rparr>" 4]
    by (simp add: demo_index_parts struct_data_shards demo_tree_data ext_net_def net_Cons wt_def is_deleted_def is_tombstone_def)
qed

end
