(* ===== verification/DE_RangeScan.thy ===== *)
theory DE_RangeScan
  imports DE_IsamIndex
begin

text \<open>
  The range scan over the whole index (\<^verbatim>\<open>include/framework/structure/RangeScanIterator.h\<close>): an
  iterator that pins the current epoch, copies the matching buffer records out, opens an iterator
  on every shard, and merges these sources with a heap. Records that are equal are gathered, and
  a record is returned as often as its inserts outnumber its tombstones. The scan needs a shard
  type with iterators, so it is modelled on the external tree. \<open>srt\<close> and \<open>pick\<close> are the choices
  \<^verbatim>\<open>std::sort\<close> and \<^verbatim>\<open>std::priority_queue\<close> have among equal records.
\<close>

section \<open>The iterator\<close>

type_synonym ('k, 'v) HeapEntry = "('k, 'v) Record Wrapped \<times> nat"

record ('k, 'v) RangeScanIterator =
  rs_epoch :: nat
  rs_finish :: "('k, 'v) Record"
  rs_buffer_recs :: "('k, 'v) Record Wrapped list"
  rs_buffer_idx :: nat
  rs_shard_iters :: "('k, 'v) Iterator list"
  rs_heap :: "('k, 'v) HeapEntry list"
  rs_current :: "('k, 'v) Record option"
  rs_pending :: nat

text \<open>Fetching the next record of a source, the buffer being source 0.\<close>

definition rs_refill ::
    "('k::linorder, 'v) isam_cfg \<Rightarrow> nat \<Rightarrow> ('k, 'v) RangeScanIterator \<Rightarrow> ('k, 'v) RangeScanIterator res" where
  "rs_refill c source it =
     (if source = 0 then
        Inr (if rs_buffer_idx it < length (rs_buffer_recs it)
             then it\<lparr>rs_heap := pq_push (rs_buffer_recs it ! rs_buffer_idx it, 0) (rs_heap it),
                     rs_buffer_idx := Suc (rs_buffer_idx it)\<rparr>
             else it)
      else
        bindE (vec_get (rs_shard_iters it) (source - 1)) (\<lambda>si.
        bindE (get_current c si) (\<lambda>cur.
        case cur of
          None \<Rightarrow> Inr it
        | Some w \<Rightarrow>
            if key (rec w) \<le> key (rs_finish it)
            then Inr (it\<lparr>rs_heap := pq_push (w, source) (rs_heap it),
                         rs_shard_iters := (rs_shard_iters it)[source - 1 := snd (it_get_next si)]\<rparr>)
            else Inr it)))"

text \<open>What the sources and the heap still hold; the loops below consume it.\<close>

definition rs_left :: "('k, 'v) RangeScanIterator \<Rightarrow> nat" where
  "rs_left it = 2 * ((length (rs_buffer_recs it) - rs_buffer_idx it) + (\<Sum>si\<leftarrow>rs_shard_iters it. it_end si - it_idx si)) +
     length (rs_heap it)"

declare bindE_cong [fundef_cong]

lemma rs_refill_left:
  assumes "rs_refill c source it = Inr it'"
  shows "rs_left it' \<le> rs_left it"
proof (cases "source = 0")
  case True
  then show ?thesis using assms by (auto simp: rs_refill_def rs_left_def split: if_splits)
next
  case False
  show ?thesis
  proof (cases "it' = it")
    case True
    then show ?thesis by simp
  next
    case ne: False
    let ?its = "rs_shard_iters it" and ?i = "source - 1"
    from assms False ne obtain w where w: "?i < length ?its" "get_current c (?its ! ?i) = Inr (Some w)"
        "it' = it\<lparr>rs_heap := pq_push (w, source) (rs_heap it), rs_shard_iters := ?its[?i := snd (it_get_next (?its ! ?i))]\<rparr>"
      by (auto simp: rs_refill_def vec_get_def split: option.splits if_splits)
    have lt: "it_idx (?its ! ?i) < it_end (?its ! ?i)" using w(2) by (auto simp: get_current_def split: if_splits)
    let ?f = "\<lambda>si. it_end si - it_idx si"
    have "?f (snd (it_get_next (?its ! ?i))) + 1 = ?f (?its ! ?i)" using lt by (simp add: it_get_next_def Let_def)
    then have "(\<Sum>si\<leftarrow>?its[?i := snd (it_get_next (?its ! ?i))]. ?f si) + 1 = (\<Sum>si\<leftarrow>?its. ?f si)"
      using sum_list_update_shift [OF w(1), of ?f "snd (it_get_next (?its ! ?i))"] by linarith
    then show ?thesis using w(3) by (simp add: rs_left_def)
  qed
qed


text \<open>Taking every entry equal to \<open>r\<close> from the heap, counting inserts less tombstones.\<close>

function (sequential) rs_gather ::
    "('k::linorder, 'v) isam_cfg \<Rightarrow> (('k, 'v) HeapEntry list \<Rightarrow> nat) \<Rightarrow> ('k, 'v) Record \<Rightarrow> int \<Rightarrow>
     ('k, 'v) RangeScanIterator \<Rightarrow> (int \<times> ('k, 'v) RangeScanIterator) res" where
  "rs_gather c pick r live it =
     (if rs_heap it = [] \<or> rec (fst (pq_peek pick (rs_heap it))) \<noteq> r then Inr (live, it)
      else
        let (w, source) = pq_peek pick (rs_heap it);
            live' = (if is_tombstone w then live - 1 else if \<not> is_deleted w then live + 1 else live) in
        bindE (rs_refill c source (it\<lparr>rs_heap := pq_pop pick (rs_heap it)\<rparr>)) (\<lambda>it'.
        rs_gather c pick r live' it'))"
  by pat_completeness auto

lemma rs_pop_left:
  assumes "rs_heap it \<noteq> []" and "rs_refill c source (it\<lparr>rs_heap := pq_pop pick (rs_heap it)\<rparr>) = Inr it'"
  shows "rs_left it' < rs_left it"
proof -
  have "rs_left (it\<lparr>rs_heap := pq_pop pick (rs_heap it)\<rparr>) < rs_left it" using assms(1) by (simp add: rs_left_def)
  then show ?thesis using rs_refill_left [OF assms(2)] by simp
qed

termination rs_gather
proof (relation "measure (\<lambda>(c, pick, r, live, it). rs_left it)")
qed (auto intro: rs_pop_left)

declare rs_gather.simps [simp del]

lemma rs_gather_left: "rs_gather c pick r live it = Inr (live', it') \<Longrightarrow> rs_left it' \<le> rs_left it"
proof (induction c pick r live it arbitrary: live' it' rule: rs_gather.induct)
  case (1 c pick r live it)
  show ?case
  proof (cases "rs_heap it = [] \<or> rec (fst (pq_peek pick (rs_heap it))) \<noteq> r")
    case True
    then show ?thesis using "1.prems" by (simp add: rs_gather.simps)
  next
    case False
    obtain w k where peek: "(w, k) = pq_peek pick (rs_heap it)" by (metis surj_pair)
    from "1.prems" False obtain it1 where it1: "rs_refill c k (it\<lparr>rs_heap := pq_pop pick (rs_heap it)\<rparr>) = Inr it1"
        "rs_gather c pick r (if is_tombstone w then live - 1 else if \<not> is_deleted w then live + 1 else live) it1 = Inr (live', it')"
      by (subst (asm) rs_gather.simps) (auto simp: Let_def peek [symmetric] split: prod.splits)
    then have "rs_left it' \<le> rs_left it1" using "1.IH" [OF False peek _ refl it1(1,2)] by simp
    then show ?thesis using rs_pop_left [OF _ it1(1)] False by simp
  qed
qed

lemma rs_gather_progress:
  assumes "rs_heap it \<noteq> []" and "rs_gather c pick (rec (fst (pq_peek pick (rs_heap it)))) live it = Inr (live', it')"
  shows "rs_left it' < rs_left it"
proof -
  obtain w k where peek: "(w, k) = pq_peek pick (rs_heap it)" by (metis surj_pair)
  from assms obtain it1 l where it1: "rs_refill c k (it\<lparr>rs_heap := pq_pop pick (rs_heap it)\<rparr>) = Inr it1"
      "rs_gather c pick (rec w) l it1 = Inr (live', it')"
    by (subst (asm) rs_gather.simps) (auto simp: Let_def peek [symmetric] split: prod.splits)
  then show ?thesis using rs_gather_left [OF it1(2)] rs_pop_left [OF assms(1) it1(1)] by simp
qed

function (sequential) rs_advance ::
    "('k::linorder, 'v) isam_cfg \<Rightarrow> (('k, 'v) HeapEntry list \<Rightarrow> nat) \<Rightarrow> ('k, 'v) RangeScanIterator \<Rightarrow>
     ('k, 'v) RangeScanIterator res" where
  "rs_advance c pick it =
     (if rs_heap it = [] then Inr (it\<lparr>rs_pending := 0\<rparr>)
      else
        let r = rec (fst (pq_peek pick (rs_heap it))) in
        bindE (rs_gather c pick r 0 it) (\<lambda>(live, it').
        if live > 0 then Inr (it'\<lparr>rs_current := Some r, rs_pending := nat live\<rparr>)
        else rs_advance c pick it'))"
  by pat_completeness auto

termination rs_advance
  by (relation "measure (\<lambda>(c, pick, it). rs_left it)") (auto intro: rs_gather_progress)

declare rs_advance.simps [simp del]

definition has_next :: "('k, 'v) RangeScanIterator \<Rightarrow> bool" where
  "has_next it \<longleftrightarrow> rs_pending it > 0"

definition rs_next ::
    "('k::linorder, 'v) isam_cfg \<Rightarrow> (('k, 'v) HeapEntry list \<Rightarrow> nat) \<Rightarrow> ('k, 'v) RangeScanIterator \<Rightarrow>
     (('k, 'v) Record \<times> ('k, 'v) RangeScanIterator) res" where
  "rs_next c pick it =
     assertE (rs_pending it > 0)
       (case rs_current it of
          None \<Rightarrow> Inl UninitRead
        | Some r \<Rightarrow>
            let it1 = it\<lparr>rs_pending := rs_pending it - 1\<rparr> in
            bindE (if rs_pending it1 = 0 then rs_advance c pick it1 else Inr it1) (\<lambda>it2. Inr (r, it2)))"

text \<open>Opening an iterator on every shard of every level.\<close>

definition level_iters ::
    "('k::linorder, 'v) isam_cfg \<Rightarrow> 'k \<Rightarrow> ('k, 'v) ISAMTree InternalLevel option \<Rightarrow> ('k, 'v) Iterator list res" where
  "level_iters c lower lv =
     (case lv of
        None \<Rightarrow> Inr []
      | Some l \<Rightarrow>
          mapE (\<lambda>s. isam_get_iterator c s lower)
            (concat (map (\<lambda>i. case get_shard l i of None \<Rightarrow> [] | Some s \<Rightarrow> [s]) [0..<shard_cnt l])))"

fun rs_refill_all ::
    "('k::linorder, 'v) isam_cfg \<Rightarrow> nat list \<Rightarrow> ('k, 'v) RangeScanIterator \<Rightarrow> ('k, 'v) RangeScanIterator res" where
  "rs_refill_all c [] it = Inr it"
| "rs_refill_all c (source # ss) it = bindE (rs_refill c source it) (\<lambda>it'. rs_refill_all c ss it')"

definition RangeScanIterator_new ::
    "('k::linorder, 'v) isam_cfg \<Rightarrow> (('k, 'v) Record Wrapped list \<Rightarrow> ('k, 'v) Record Wrapped list) \<Rightarrow>
     (('k, 'v) HeapEntry list \<Rightarrow> nat) \<Rightarrow> ('k, 'v) Record \<Rightarrow> ('k, 'v) Record \<Rightarrow>
     (('k, 'v) ISAMTree, ('k, 'v) Record, 'f) DynamicExtension \<Rightarrow>
     (('k, 'v) RangeScanIterator \<times> (('k, 'v) ISAMTree, ('k, 'v) Record, 'f) DynamicExtension) res" where
  "RangeScanIterator_new c srt pick start finish x =
     bindE (get_active_epoch x) (\<lambda>(e, x1).
     bindE (epoch_get_buffer e (m_buffer x1)) (\<lambda>(view, b1).
     bindE (mapE (view_get view) [0..<view_record_count view]) (\<lambda>recs.
     bindE (view_destroy view b1) (\<lambda>b2.
     bindE (get_structure e) (\<lambda>st.
     bindE (mapE (level_iters c (key start)) (m_levels st)) (\<lambda>its.
     let it = \<lparr>rs_epoch = m_epoch_number e, rs_finish = finish,
               rs_buffer_recs = srt (filter (\<lambda>w. key (rec w) \<ge> key start \<and> key (rec w) \<le> key finish) recs),
               rs_buffer_idx = 0, rs_shard_iters = concat its, rs_heap = [], rs_current = None, rs_pending = 0\<rparr> in
     bindE (rs_refill_all c [0..<Suc (length (rs_shard_iters it))] it) (\<lambda>it1.
     bindE (rs_advance c pick it1) (\<lambda>it2. Inr (it2, x1\<lparr>m_buffer := b2\<rparr>)))))))))"

text \<open>The destructor gives the epoch back.\<close>

definition RangeScanIterator_destroy ::
    "('k, 'v) RangeScanIterator \<Rightarrow> ('s, 'r, 'f) DynamicExtension \<Rightarrow> ('s, 'r, 'f) DynamicExtension res" where
  "RangeScanIterator_destroy it x = end_job (rs_epoch it) x"


section \<open>Correctness\<close>

text \<open>What has to hold of the choices the standard library leaves open.\<close>

definition scan_choice_ok ::
    "(('k::linorder, 'v::linorder) Record Wrapped list \<Rightarrow> ('k, 'v) Record Wrapped list) \<Rightarrow> (('k, 'v) HeapEntry list \<Rightarrow> nat) \<Rightarrow> bool" where
  "scan_choice_ok srt pick \<longleftrightarrow> (\<forall>xs. mset (srt xs) = mset xs \<and> rec_sorted (srt xs)) \<and>
     (\<forall>q. q \<noteq> [] \<longrightarrow> pick q < length q \<and> (\<forall>e\<in>set q. rec (fst (q ! pick q)) \<le> rec (fst e)))"

text \<open>
  The state of a scan: \<open>runs\<close> is what every source still has to contribute, the entry of it in
  the heap included; a source that has been emptied contributes nothing.
\<close>

definition scan_source ::
    "('k::{linorder,zero}, 'v::{linorder,zero}) isam_cfg \<Rightarrow> ('k, 'v) RangeScanIterator \<Rightarrow> nat \<Rightarrow> ('k, 'v) Record Wrapped list \<Rightarrow> bool" where
  "scan_source c it i ws \<longleftrightarrow>
     (if i = 0 then drop (rs_buffer_idx it) (rs_buffer_recs it) = ws
      else \<exists>s idx. rs_shard_iters it ! (i - 1) = it_of s idx \<and> isam_inv c s \<and>
        takeWhile (\<lambda>w. key (rec w) \<le> key (rs_finish it)) (drop idx (isam_data s)) = ws)"

definition scan_at ::
    "('k::{linorder,zero}, 'v::{linorder,zero}) isam_cfg \<Rightarrow> ('k, 'v) Record Wrapped list list \<Rightarrow> ('k, 'v) RangeScanIterator \<Rightarrow> bool" where
  "scan_at c runs it \<longleftrightarrow> length runs = Suc (length (rs_shard_iters it)) \<and> mset (rs_heap it) = heads runs \<and>
     (\<forall>i<length runs. scan_source c it i (tl (runs ! i))) \<and> (\<forall>r\<in>set runs. rec_sorted r)"

lemma scan_source_frame [simp]:
  "scan_source c (it\<lparr>rs_heap := q\<rparr>) i ws = scan_source c it i ws"
  "scan_source c (it\<lparr>rs_current := r\<rparr>) i ws = scan_source c it i ws"
  "scan_source c (it\<lparr>rs_pending := n\<rparr>) i ws = scan_source c it i ws"
  by (simp_all add: scan_source_def)

lemma rs_refill_ok:
  assumes "scan_source c it i ws" and "i \<le> length (rs_shard_iters it)" and "0 < LEAF_FANOUT c"
  shows "\<exists>it'. rs_refill c i it = Inr it' \<and> scan_source c it' i (tl ws) \<and> mset (rs_heap it') = head_of i ws + mset (rs_heap it) \<and>
    (\<forall>j vs. j \<noteq> i \<longrightarrow> scan_source c it' j vs = scan_source c it j vs) \<and>
    length (rs_shard_iters it') = length (rs_shard_iters it) \<and> rs_epoch it' = rs_epoch it"
proof (cases "i = 0")
  case True
  then have ws: "drop (rs_buffer_idx it) (rs_buffer_recs it) = ws" using assms(1) by (simp add: scan_source_def)
  show ?thesis
  proof (cases "rs_buffer_idx it < length (rs_buffer_recs it)")
    case lt: True
    then have "ws = rs_buffer_recs it ! rs_buffer_idx it # drop (Suc (rs_buffer_idx it)) (rs_buffer_recs it)"
      using ws by (simp add: Cons_nth_drop_Suc)
    then show ?thesis using True lt by (simp add: rs_refill_def scan_source_def mset_pq_push)
  next
    case False
    then show ?thesis using True ws by (auto simp: rs_refill_def scan_source_def)
  qed
next
  case False
  then obtain s idx where s: "rs_shard_iters it ! (i - 1) = it_of s idx" "isam_inv c s"
      "takeWhile (\<lambda>w. key (rec w) \<le> key (rs_finish it)) (drop idx (isam_data s)) = ws"
    using assms(1) by (auto simp: scan_source_def)
  have i: "i - 1 < length (rs_shard_iters it)" using assms(2) False by simp
  have len: "m_reccnt s = length (isam_data s)" using s(2) by (simp add: isam_inv_def)
  note cur = get_current_ok [OF s(2) assms(3), of idx]
  show ?thesis
  proof (cases ws)
    case Nil
    have "rs_refill c i it = Inr it"
    proof (cases "idx < m_reccnt s")
      case True
      then have "\<not> key (rec (isam_data s ! idx)) \<le> key (rs_finish it)"
        using s(3) Nil len by (auto simp: Cons_nth_drop_Suc [symmetric] split: if_splits)
      then show ?thesis using False i s(1) cur True by (simp add: rs_refill_def)
    next
      case ge: False
      then show ?thesis using False i s(1) cur by (simp add: rs_refill_def)
    qed
    then show ?thesis using assms(1) Nil by simp
  next
    case (Cons w ws')
    then have lt: "idx < m_reccnt s" using s(3) len by (metis drop_eq_Nil leI list.distinct(1) takeWhile.simps(1))
    have dr: "drop idx (isam_data s) = isam_data s ! idx # drop (Suc idx) (isam_data s)" using lt len by (simp add: Cons_nth_drop_Suc)
    then have w: "isam_data s ! idx = w" "key (rec w) \<le> key (rs_finish it)"
        "takeWhile (\<lambda>w. key (rec w) \<le> key (rs_finish it)) (drop (Suc idx) (isam_data s)) = ws'"
      using s(3) Cons by (auto split: if_splits)
    let ?it = "it\<lparr>rs_heap := pq_push (w, i) (rs_heap it), rs_shard_iters := (rs_shard_iters it)[i - 1 := it_of s (Suc idx)]\<rparr>"
    have "rs_refill c i it = Inr ?it"
      using False i s(1) cur lt w(1,2) by (simp add: rs_refill_def it_get_next_it_of)
    moreover have "scan_source c ?it i ws'" using False i s(2) w(3) by (auto simp: scan_source_def)
    moreover have "scan_source c ?it j vs = scan_source c it j vs" if "j \<noteq> i" for j vs
      using that False by (simp add: scan_source_def nth_list_update)
    ultimately show ?thesis using Cons by (simp add: mset_pq_push)
  qed
qed


text \<open>Popping a least entry and refilling its source.\<close>

lemma pick_least:
  assumes "scan_choice_ok srt pick" and "q \<noteq> []" and "e \<in> set q"
  shows "rec (fst (pq_peek pick q)) \<le> rec (fst e)"
  using assms unfolding scan_choice_ok_def by (simp add: pq_peek_def top_idx_def)

lemma scan_least:
  assumes "scan_at c runs it" and "scan_choice_ok srt pick" and "rs_heap it \<noteq> []" and "y \<in> set (concat runs)"
  shows "rec (fst (pq_peek pick (rs_heap it))) \<le> rec y"
proof (rule heads_min [where ky = rec, OF _ _ assms(4)])
  show "\<forall>r\<in>set runs. rec_sorted r" using assms(1) by (simp add: scan_at_def)
  fix e assume "e \<in># heads runs"
  then have "e \<in> set (rs_heap it)" using assms(1) unfolding scan_at_def by (metis set_mset_mset)
  then show "rec (fst (pq_peek pick (rs_heap it))) \<le> rec (fst e)" by (rule pick_least [OF assms(2,3)])
qed

lemma scan_pop_ok:
  assumes "scan_at c runs it" and "rs_heap it \<noteq> []" and "(w, k) = pq_peek pick (rs_heap it)" and "0 < LEAF_FANOUT c"
  shows "\<exists>it' runs'. rs_refill c k (it\<lparr>rs_heap := pq_pop pick (rs_heap it)\<rparr>) = Inr it' \<and> scan_at c runs' it' \<and>
    mset (concat runs) = add_mset w (mset (concat runs')) \<and> rs_epoch it' = rs_epoch it"
proof -
  have at: "length runs = Suc (length (rs_shard_iters it))" "mset (rs_heap it) = heads runs"
      "\<And>i. i < length runs \<Longrightarrow> scan_source c it i (tl (runs ! i))" "\<forall>r\<in>set runs. rec_sorted r"
    using assms(1) by (auto simp: scan_at_def)
  obtain xs where xs: "k < length runs" "runs ! k = w # xs" "head_of k xs + mset (pq_pop pick (rs_heap it)) = heads (runs[k := xs])"
      "mset (concat runs) = add_mset w (mset (concat (runs[k := xs])))"
    using heads_pop [OF at(2) assms(2,3)] by blast
  let ?it = "it\<lparr>rs_heap := pq_pop pick (rs_heap it)\<rparr>"
  have "scan_source c ?it k xs" using at(3) [OF xs(1)] xs(2) by simp
  then obtain it' where it': "rs_refill c k ?it = Inr it'" "scan_source c it' k (tl xs)" "mset (rs_heap it') = head_of k xs + mset (rs_heap ?it)"
      "\<And>j vs. j \<noteq> k \<Longrightarrow> scan_source c it' j vs = scan_source c ?it j vs" "length (rs_shard_iters it') = length (rs_shard_iters ?it)"
      "rs_epoch it' = rs_epoch ?it"
    using rs_refill_ok [of c ?it k xs] xs(1) at(1) assms(4) by auto
  have "scan_at c (runs[k := xs]) it'"
    unfolding scan_at_def
  proof (intro conjI allI impI)
    show "length (runs[k := xs]) = Suc (length (rs_shard_iters it'))" using at(1) it'(5) by simp
    show "mset (rs_heap it') = heads (runs[k := xs])" using it'(3) xs(3) by simp
    show "\<forall>r\<in>set (runs[k := xs]). rec_sorted r" by (rule sorted_runs_take [OF at(4) xs(2,1)])
    fix i assume "i < length (runs[k := xs])"
    then show "scan_source c it' i (tl (runs[k := xs] ! i))"
      using it'(2,4) at(3) [of i] xs(1) by (cases "i = k") simp_all
  qed
  with it'(1,6) xs(4) show ?thesis by auto
qed

text \<open>Gathering removes exactly the entries equal to the record and adds up their weights.\<close>

lemma rs_gather_ok:
  assumes "scan_at c runs it" and "scan_choice_ok srt pick" and "0 < LEAF_FANOUT c" and "\<forall>w\<in>set (concat runs). r \<le> rec w"
  shows "\<exists>it' runs'. rs_gather c pick r live it = Inr (live + net (concat runs) r, it') \<and> scan_at c runs' it' \<and>
    mset (concat runs') = filter_mset (\<lambda>w. rec w \<noteq> r) (mset (concat runs)) \<and> rs_epoch it' = rs_epoch it"
  using assms
proof (induction c pick r live it arbitrary: runs rule: rs_gather.induct)
  case (1 c pick r live it)
  show ?case
  proof (cases "rs_heap it = [] \<or> rec (fst (pq_peek pick (rs_heap it))) \<noteq> r")
    case True
    have ne: "rec w \<noteq> r" if "w \<in> set (concat runs)" for w
    proof (cases "rs_heap it = []")
      case True
      then have "concat runs = []" using "1.prems"(1) heads_empty_iff [of 0 runs] by (simp add: scan_at_def)
      then show ?thesis using that by (metis empty_iff list.set(1))
    next
      case False
      then obtain k where k: "(fst (pq_peek pick (rs_heap it)), k) \<in># heads runs"
        using pq_peek_in [OF False, of pick] "1.prems"(1) unfolding scan_at_def by (metis prod.collapse set_mset_mset)
      then have "fst (pq_peek pick (rs_heap it)) \<in> set (concat runs)"
        by (auto simp: in_heads intro!: bexI [of _ "runs ! k"])
      then have "r < rec (fst (pq_peek pick (rs_heap it)))" using "1.prems"(4) True False by force
      also have "\<dots> \<le> rec w" by (rule scan_least [OF "1.prems"(1,2) False that])
      finally show ?thesis by simp
    qed
    then have "net (concat runs) r = 0" by (intro net_notin) blast
    moreover have "filter_mset (\<lambda>w. rec w \<noteq> r) (mset (concat runs)) = mset (concat runs)"
      using ne by (auto simp: filter_mset_eq_conv)
    ultimately show ?thesis using True "1.prems"(1) by (subst rs_gather.simps) auto
  next
    case False
    obtain w k where peek: "(w, k) = pq_peek pick (rs_heap it)" by (metis surj_pair)
    define l1 where "l1 = (if is_tombstone w then live - 1 else if \<not> is_deleted w then live + 1 else live)"
    have w: "rec w = r" using False peek by (metis fst_conv)
    obtain it1 runs1 where it1: "rs_refill c k (it\<lparr>rs_heap := pq_pop pick (rs_heap it)\<rparr>) = Inr it1" "scan_at c runs1 it1"
        "mset (concat runs) = add_mset w (mset (concat runs1))" "rs_epoch it1 = rs_epoch it"
      using scan_pop_ok [OF "1.prems"(1) _ peek "1.prems"(3)] False by blast
    have "\<forall>w\<in>set (concat runs1). r \<le> rec w"
      using "1.prems"(4) it1(3) by (metis insert_iff set_mset_add_mset_insert set_mset_mset)
    then obtain it2 runs2 where it2: "rs_gather c pick r l1 it1 = Inr (l1 + net (concat runs1) r, it2)" "scan_at c runs2 it2"
        "mset (concat runs2) = filter_mset (\<lambda>w. rec w \<noteq> r) (mset (concat runs1))" "rs_epoch it2 = rs_epoch it1"
      using "1.IH" [OF False refl peek l1_def it1(1) it1(2) "1.prems"(2,3)] by blast
    have "net (concat runs) r = wt w + net (concat runs1) r"
      using net_mset_eq [of "concat runs" "w # concat runs1"] it1(3) w by (simp add: net_Cons)
    moreover have "l1 = live + wt w" by (simp add: l1_def wt_def)
    ultimately have "l1 + net (concat runs1) r = live + net (concat runs) r" by simp
    moreover have "rs_gather c pick r live it = rs_gather c pick r l1 it1"
      using False it1(1) by (subst rs_gather.simps) (simp add: Let_def peek [symmetric] l1_def)
    ultimately show ?thesis using it1(3,4) it2 w by auto
  qed
qed


lemma net_le_count: "net ws r \<le> int (length (filter (\<lambda>w. rec w = r) ws))"
  by (induction ws) (auto simp: net_Cons wt_def)

lemma net_filter_other: "q \<noteq> r \<Longrightarrow> net (filter (\<lambda>w. rec w \<noteq> r) ws) q = net ws q"
  by (induction ws) (auto simp: net_Cons)

text \<open>
  Advancing finds the least record that is left with a positive count, if there is one, and
  leaves only greater records.
\<close>

definition found_next ::
    "('k::linorder, 'v::linorder) Record Wrapped list list \<Rightarrow> ('k, 'v) RangeScanIterator \<Rightarrow> ('k, 'v) Record Wrapped list list \<Rightarrow> bool" where
  "found_next runs it' runs' \<longleftrightarrow>
    rs_pending it' + length (concat runs') \<le> length (concat runs) \<and>
    (rs_pending it' = 0 \<longrightarrow> (\<forall>q. net (concat runs) q \<le> 0) \<and> (\<forall>q. net (concat runs') q \<le> 0)) \<and>
    (0 < rs_pending it' \<longrightarrow> (\<exists>r. rs_current it' = Some r \<and> int (rs_pending it') = net (concat runs) r \<and>
      (\<forall>q<r. net (concat runs) q \<le> 0) \<and> (\<forall>q>r. net (concat runs') q = net (concat runs) q) \<and> (\<forall>w\<in>set (concat runs'). r < rec w)))"

lemma found_nextD:
  assumes "found_next runs it' runs'"
  shows "rs_pending it' + length (concat runs') \<le> length (concat runs)"
    and "rs_pending it' = 0 \<Longrightarrow> net (concat runs) q \<le> 0" "rs_pending it' = 0 \<Longrightarrow> net (concat runs') q \<le> 0"
    and "0 < rs_pending it' \<Longrightarrow> \<exists>r. rs_current it' = Some r \<and> int (rs_pending it') = net (concat runs) r \<and>
      (\<forall>q<r. net (concat runs) q \<le> 0) \<and> (\<forall>q>r. net (concat runs') q = net (concat runs) q) \<and> (\<forall>w\<in>set (concat runs'). r < rec w)"
  using assms unfolding found_next_def by blast+

lemma found_next_count:
  assumes "found_next runs it' runs'"
  shows "(if rs_current it' = Some q then int (rs_pending it') else 0) + max 0 (net (concat runs') q) = max 0 (net (concat runs) q)"
proof (cases "rs_pending it' = 0")
  case True
  then show ?thesis using found_nextD(2,3) [OF assms, of q] by simp
next
  case pos: False
  then obtain p where p: "rs_current it' = Some p" "int (rs_pending it') = net (concat runs) p"
    "\<forall>q<p. net (concat runs) q \<le> 0" "\<forall>q>p. net (concat runs') q = net (concat runs) q" "\<forall>w\<in>set (concat runs'). p < rec w"
    using found_nextD(4) [OF assms] by blast
  have "net (concat runs') q = 0" if "q \<le> p" using p(5) that by (intro net_notin) fastforce
  then show ?thesis using p pos by (cases rule: linorder_cases [of q p]) (auto simp: max_def intro: order_antisym)
qed

lemma rs_advance_ok:
  assumes "scan_at c runs it" and "scan_choice_ok srt pick" and "0 < LEAF_FANOUT c"
  shows "\<exists>it' runs'. rs_advance c pick it = Inr it' \<and> scan_at c runs' it' \<and> rs_epoch it' = rs_epoch it \<and> found_next runs it' runs'"
  using assms
proof (induction c pick it arbitrary: runs rule: rs_advance.induct)
  case (1 c pick it)
  show ?case
  proof (cases "rs_heap it = []")
    case True
    then have e: "concat runs = []" using "1.prems"(1) heads_empty_iff [of 0 runs] by (simp add: scan_at_def)
    have "net (concat runs) q = 0" "length (concat runs) = 0" for q unfolding e by simp_all
    moreover have "scan_at c runs (it\<lparr>rs_pending := 0\<rparr>)" using "1.prems"(1) by (simp add: scan_at_def)
    ultimately show ?thesis using True
      by (intro exI [of _ "it\<lparr>rs_pending := 0\<rparr>"] exI [of _ runs]) (simp add: rs_advance.simps found_next_def)
  next
    case False
    define r where "r = rec (fst (pq_peek pick (rs_heap it)))"
    have least: "\<forall>w\<in>set (concat runs). r \<le> rec w"
      using scan_least [OF "1.prems"(1,2) False] by (simp add: r_def)
    obtain it1 runs1 where g: "rs_gather c pick r 0 it = Inr (net (concat runs) r, it1)" "scan_at c runs1 it1"
        "mset (concat runs1) = filter_mset (\<lambda>w. rec w \<noteq> r) (mset (concat runs))" "rs_epoch it1 = rs_epoch it"
      using rs_gather_ok [OF "1.prems" least, of 0] by auto
    have m: "mset (concat runs1) = mset (filter (\<lambda>w. rec w \<noteq> r) (concat runs))" using g(3) by (simp only: mset_filter)
    have n1: "net (concat runs1) q = net (concat runs) q" if "q \<noteq> r" for q
      using net_mset_eq [OF m] net_filter_other [OF that] by metis
    have n1r: "net (concat runs1) r = 0"
      unfolding net_mset_eq [OF m] by (rule net_notin) auto
    have gt: "\<forall>w\<in>set (concat runs1). r < rec w"
      using least arg_cong [OF m, of set_mset] by (fastforce simp: order_less_le)
    have below: "net (concat runs) q = 0" if "q < r" for q
      using least that by (intro net_notin) (auto simp: not_le [symmetric])
    have "length (concat runs1) = length (filter (\<lambda>w. rec w \<noteq> r) (concat runs))" using m by (metis size_mset)
    then have len: "length (concat runs1) + length (filter (\<lambda>w. rec w = r) (concat runs)) = length (concat runs)"
      using sum_length_filter_compl [of "\<lambda>w. rec w = r" "concat runs"] by simp
    show ?thesis
    proof (cases "net (concat runs) r > 0")
      case True
      let ?it = "it1\<lparr>rs_current := Some r, rs_pending := nat (net (concat runs) r)\<rparr>"
      have "rs_advance c pick it = Inr ?it"
        using False True g(1) by (subst rs_advance.simps) (simp add: r_def [symmetric] Let_def)
      moreover have "scan_at c runs1 ?it" using g(2) by (simp add: scan_at_def)
      moreover have "nat (net (concat runs) r) + length (concat runs1) \<le> length (concat runs)"
        using net_le_count [of "concat runs" r] len True by linarith
      moreover have "\<forall>q<r. net (concat runs) q \<le> 0" using below by simp
      moreover have "\<forall>q>r. net (concat runs1) q = net (concat runs) q" using n1 by simp
      ultimately show ?thesis using gt True g(4)
        by (intro exI [of _ ?it] exI [of _ runs1]) (simp add: found_next_def del: length_concat set_concat)
    next
      case le: False
      have step: "rs_advance c pick it = rs_advance c pick it1"
        using False le g(1) by (subst rs_advance.simps) (simp add: r_def [symmetric] Let_def)
      obtain it2 runs2 where 2: "rs_advance c pick it1 = Inr it2" "scan_at c runs2 it2" "found_next runs1 it2 runs2" "rs_epoch it2 = rs_epoch it1"
        using "1.IH" [OF False r_def g(1) refl le g(2) "1.prems"(2,3)] by blast
      note f = found_nextD [OF 2(3)]
      have le1: "net (concat runs) q \<le> 0" if "net (concat runs1) q \<le> 0" for q
        using n1 [of q] that le by (cases "q = r") auto
      show ?thesis
      proof (intro exI conjI)
        show "rs_advance c pick it = Inr it2" using step 2(1) by simp
        show "scan_at c runs2 it2" by (fact 2(2))
        show "rs_epoch it2 = rs_epoch it" using 2(4) g(4) by simp
        show "found_next runs it2 runs2"
          unfolding found_next_def
        proof (intro conjI impI)
          show "rs_pending it2 + length (concat runs2) \<le> length (concat runs)" using f(1) len by linarith
          show "\<forall>q. net (concat runs) q \<le> 0" "\<forall>q. net (concat runs2) q \<le> 0" if "rs_pending it2 = 0" using f(2,3) that le1 by blast+
          assume pos: "0 < rs_pending it2"
          then obtain p where p: "rs_current it2 = Some p" "int (rs_pending it2) = net (concat runs1) p"
            "\<forall>q<p. net (concat runs1) q \<le> 0" "\<forall>q>p. net (concat runs2) q = net (concat runs1) q" "\<forall>w\<in>set (concat runs2). p < rec w"
            using f(4) by blast
        have "p \<noteq> r" using p(2) n1r pos by auto
        moreover have "r < p"
        proof (rule ccontr)
          assume "\<not> r < p"
          then have "net (concat runs1) p = 0" using gt by (intro net_notin) fastforce
          with p(2) pos show False by simp
        qed
        ultimately show "\<exists>r. rs_current it2 = Some r \<and> int (rs_pending it2) = net (concat runs) r \<and>
          (\<forall>q<r. net (concat runs) q \<le> 0) \<and> (\<forall>q>r. net (concat runs2) q = net (concat runs) q) \<and> (\<forall>w\<in>set (concat runs2). r < rec w)"
          using p le1 n1 by (intro exI [of _ p]) (simp del: set_concat)
        qed
      qed
    qed
  qed
qed

text \<open>Reading an iterator to its end, as its users do; \<open>fuel\<close> bounds the number of calls.\<close>

fun rs_collect ::
    "('k::linorder, 'v) isam_cfg \<Rightarrow> (('k, 'v) HeapEntry list \<Rightarrow> nat) \<Rightarrow> nat \<Rightarrow> ('k, 'v) RangeScanIterator \<Rightarrow>
     ('k, 'v) Record list res" where
  "rs_collect c pick 0 it = Inl Blocked"
| "rs_collect c pick (Suc fuel) it =
     (if has_next it then
        bindE (rs_next c pick it) (\<lambda>(r, it').
        bindE (rs_collect c pick fuel it') (\<lambda>rs. Inr (r # rs)))
      else Inr [])"

lemma rs_collect_mono: "rs_collect c pick n it = Inr out \<Longrightarrow> n \<le> m \<Longrightarrow> rs_collect c pick m it = Inr out"
proof (induction c pick n it arbitrary: m out rule: rs_collect.induct)
  case (2 c pick fuel it)
  then obtain k where "m = Suc k" "fuel \<le> k" by (cases m) auto
  with 2 show ?case by (auto split: if_splits)
qed simp

lemma rs_collect_ok:
  assumes "scan_at c runs it" and "scan_choice_ok srt pick" and "0 < LEAF_FANOUT c"
    and "rs_pending it = 0 \<Longrightarrow> \<forall>q. net (concat runs) q \<le> 0"
    and "0 < rs_pending it \<Longrightarrow> \<exists>r. rs_current it = Some r \<and> (\<forall>w\<in>set (concat runs). r < rec w)"
    and "rs_pending it + length (concat runs) < fuel"
  shows "\<exists>out. rs_collect c pick fuel it = Inr out \<and> sorted out \<and>
    (\<forall>q. int (count_list out q) = (if rs_current it = Some q then int (rs_pending it) else 0) + max 0 (net (concat runs) q))"
  using assms
proof (induction fuel arbitrary: it runs)
  case (Suc fuel)
  show ?case
  proof (cases "rs_pending it = 0")
    case True
    then show ?thesis using Suc.prems(4) by (simp add: has_next_def max_def order_antisym)
  next
    case False
    then obtain r where r: "rs_current it = Some r" "\<forall>w\<in>set (concat runs). r < rec w" using Suc.prems(5) by blast
    let ?it1 = "it\<lparr>rs_pending := rs_pending it - 1\<rparr>"
    have at1: "scan_at c runs ?it1" using Suc.prems(1) by (simp add: scan_at_def)
    have nr: "net (concat runs) q = 0" if "q \<le> r" for q using r(2) that by (intro net_notin) fastforce
    have collect: "rs_collect c pick (Suc fuel) it = bindE (if rs_pending ?it1 = 0 then rs_advance c pick ?it1 else Inr ?it1)
        (\<lambda>it2. bindE (rs_collect c pick fuel it2) (\<lambda>rs. Inr (r # rs)))"
      using False r(1) by (auto simp: has_next_def rs_next_def Let_def bindE_def split: sum.split)
    show ?thesis
    proof (cases "rs_pending it = 1")
      case one: True
      obtain it2 runs2 where 2: "rs_advance c pick ?it1 = Inr it2" "scan_at c runs2 it2" "found_next runs it2 runs2"
        using rs_advance_ok [OF at1 Suc.prems(2,3)] by blast
      note f = found_nextD [OF 2(3)]
      have "rs_pending it2 + length (concat runs2) < fuel" using f(1) Suc.prems(6) one by linarith
      then obtain out where out: "rs_collect c pick fuel it2 = Inr out" "sorted out"
        "\<And>q. int (count_list out q) = (if rs_current it2 = Some q then int (rs_pending it2) else 0) + max 0 (net (concat runs2) q)"
        using Suc.IH [OF 2(2) Suc.prems(2,3)] f(3,4) by blast
      have cnt: "int (count_list out q) = max 0 (net (concat runs) q)" for q using out(3) found_next_count [OF 2(3)] by simp
      have "sorted (r # out)"
        unfolding sorted_simps
      proof (intro conjI ballI)
        fix q assume "q \<in> set out"
        then have "net (concat runs) q \<noteq> 0" using cnt [of q] by (metis count_list_0_iff max.idem of_nat_eq_0_iff)
        then show "r \<le> q" using nr [of q] by fastforce
      qed (fact out(2))
      moreover have "rs_collect c pick (Suc fuel) it = Inr (r # out)" unfolding collect using one 2(1) out(1) by simp
      ultimately show ?thesis using cnt r(1) one nr [of r] by (intro exI [of _ "r # out"]) (simp add: max_def)
    next
      case more: False
      have "rs_pending ?it1 + length (concat runs) < fuel" using False Suc.prems(6) by simp
      moreover have "0 < rs_pending ?it1" using more False by simp
      ultimately obtain out where out: "rs_collect c pick fuel ?it1 = Inr out" "sorted out"
        "\<And>q. int (count_list out q) = (if rs_current ?it1 = Some q then int (rs_pending ?it1) else 0) + max 0 (net (concat runs) q)"
        using Suc.IH [OF at1 Suc.prems(2,3)] r by auto
      have "sorted (r # out)"
        unfolding sorted_simps
      proof (intro conjI ballI)
        fix q assume "q \<in> set out"
        then have "int (count_list out q) \<noteq> 0" by (simp add: count_list_0_iff)
        then show "r \<le> q" using nr [of q] out(3) [of q] r(1) by (fastforce split: if_splits)
      qed (fact out(2))
      moreover have "rs_collect c pick (Suc fuel) it = Inr (r # out)" unfolding collect using more False out(1) by simp
      ultimately show ?thesis using out(3) r(1) False more by (intro exI [of _ "r # out"]) (auto simp: of_nat_diff)
    qed
  qed
qed simp


text \<open>Filling the heap when the iterator is opened.\<close>

lemma rs_refill_all_ok:
  assumes "n \<le> length runs" and "length runs = Suc (length (rs_shard_iters it))" and "mset (rs_heap it) = heads (take n runs)"
    and "\<And>i. i < n \<Longrightarrow> scan_source c it i (tl (runs ! i))" and "\<And>i. n \<le> i \<Longrightarrow> i < length runs \<Longrightarrow> scan_source c it i (runs ! i)"
    and "\<forall>r\<in>set runs. rec_sorted r" and "0 < LEAF_FANOUT c"
  shows "\<exists>it'. rs_refill_all c [n..<length runs] it = Inr it' \<and> scan_at c runs it' \<and> rs_epoch it' = rs_epoch it"
  using assms
proof (induction "length runs - n" arbitrary: n it)
  case 0
  then show ?case by (simp add: scan_at_def)
next
  case (Suc m)
  then have lt: "n < length runs" by simp
  obtain it' where it': "rs_refill c n it = Inr it'" "scan_source c it' n (tl (runs ! n))"
      "mset (rs_heap it') = head_of n (runs ! n) + mset (rs_heap it)"
      "\<And>j vs. j \<noteq> n \<Longrightarrow> scan_source c it' j vs = scan_source c it j vs" "length (rs_shard_iters it') = length (rs_shard_iters it)"
      "rs_epoch it' = rs_epoch it"
    using rs_refill_ok [OF Suc.prems(5) [OF le_refl lt] _ Suc.prems(7)] Suc.prems(2) lt by auto
  have "heads (take (Suc n) runs) = heads (take n runs) + head_of n (runs ! n)"
    using lt heads_from_snoc [of 0 "take n runs" "runs ! n"] by (simp add: take_Suc_conv_app_nth)
  then have "\<exists>it2. rs_refill_all c [Suc n..<length runs] it' = Inr it2 \<and> scan_at c runs it2 \<and> rs_epoch it2 = rs_epoch it'"
    using Suc.prems Suc.hyps(2) lt it'(2-5) by (intro Suc.hyps(1)) (auto simp: less_Suc_eq)
  then show ?case using it'(1,6) lt by (auto simp: upt_conv_Cons)
qed

definition in_range :: "('k::linorder, 'v) Record \<Rightarrow> ('k, 'v) Record \<Rightarrow> ('k, 'v) Record \<Rightarrow> bool" where
  "in_range start finish r \<longleftrightarrow> key start \<le> key r \<and> key r \<le> key finish"

lemma net_range: "net (filter (\<lambda>w. in_range start finish (rec w)) ws) q = (if in_range start finish q then net ws q else 0)"
  by (induction ws) (auto simp: net_Cons)

lemma range_run:
  assumes "rec_sorted (ws :: ('k::linorder, 'v::linorder) Record Wrapped list)"
  shows "takeWhile (\<lambda>w. key (rec w) \<le> key finish) (filter (\<lambda>w. key start \<le> key (rec w)) ws) =
    filter (\<lambda>w. in_range start finish (rec w)) ws"
proof -
  have "sorted_wrt (\<lambda>a b. key (rec a) \<le> key (rec b)) (filter (\<lambda>w. key start \<le> key (rec w)) ws)"
    using assms by (intro sorted_wrt_filter) (auto elim!: sorted_wrt_mono_rel [rotated] intro: key_mono)
  then show ?thesis
    by (simp add: takeWhile_sorted_filter [where f = "\<lambda>w. key (rec w)"] in_range_def conj_commute)
qed

lemma level_iters_ok:
  assumes "level_ok sinv l" and "\<And>s. sinv s \<Longrightarrow> isam_get_iterator c s lower = Inr (g s)"
  shows "level_iters c lower (Some l) = Inr (map g (level_shards l))"
proof -
  have wf: "level_wf l" "\<forall>s\<in>set (level_shards l). sinv s" using assms(1) by (auto simp: level_ok_def)
  have "concat (map (\<lambda>i. case get_shard l i of None \<Rightarrow> [] | Some s \<Rightarrow> [s]) [0..<shard_cnt l]) = map snd (used_slots l)"
    unfolding used_slots_def map_concat map_map comp_def
    by (intro arg_cong [of _ _ concat] map_cong refl) (simp add: get_shard_def split: option.split)
  also have "\<dots> = level_shards l" using map_used_slots [OF wf(1), of "\<lambda>s. s"] by (simp add: case_prod_unfold)
  finally show ?thesis using wf(2) assms(2) by (simp add: level_iters_def mapE_Inr)
qed

lemma opened_sources:
  fixes start finish :: "('k::{linorder,zero}, 'v::{linorder,zero}) Record" and bs :: "('k, 'v) Record Wrapped list" and n :: nat
  assumes "cfg_ok c" and "scan_choice_ok srt pick" and "\<forall>s\<in>set ss. isam_inv c s \<and> isam_get_iterator c s (key start) = Inr (it_of s (g s)) \<and>
      drop (g s) (isam_data s) = filter (\<lambda>w. key start \<le> key (rec w)) (isam_data s)"
  defines "keep \<equiv> filter (\<lambda>w. in_range start finish (rec w))"
  defines "runs \<equiv> srt (keep bs) # map (\<lambda>s. keep (isam_data s)) ss"
  defines "it \<equiv> \<lparr>rs_epoch = n, rs_finish = finish, rs_buffer_recs = srt (keep bs), rs_buffer_idx = 0,
      rs_shard_iters = map (\<lambda>s. it_of s (g s)) ss, rs_heap = [], rs_current = None, rs_pending = 0\<rparr>"
  shows "\<exists>it'. rs_refill_all c [0..<Suc (length ss)] it = Inr it' \<and> scan_at c runs it' \<and> rs_epoch it' = n"
    and "net (concat runs) q = (if in_range start finish q then net (concat (map isam_data ss)) q + net bs q else 0)"
    and "length (concat runs) \<le> length (concat (map isam_data ss)) + length bs"
proof -
  have srt: "mset (srt xs) = mset xs" "rec_sorted (srt xs)" for xs using assms(2) by (auto simp: scan_choice_ok_def)
  have so: "rec_sorted (isam_data s)" if "s \<in> set ss" for s using assms(3) that by (auto simp: isam_inv_def)
  have "scan_source c it i (runs ! i)" if "i < length runs" for i
  proof (cases i)
    case 0
    then show ?thesis by (simp add: scan_source_def it_def runs_def)
  next
    case (Suc j)
    then have j: "j < length ss" using that by (simp add: runs_def)
    then have "isam_inv c (ss ! j)" "drop (g (ss ! j)) (isam_data (ss ! j)) = filter (\<lambda>w. key start \<le> key (rec w)) (isam_data (ss ! j))"
      using assms(3) by auto
    then show ?thesis using Suc j range_run [OF so [of "ss ! j"], of finish start]
      by (auto simp: scan_source_def it_def runs_def keep_def intro!: exI [of _ "ss ! j"] exI [of _ "g (ss ! j)"])
  qed
  moreover have "\<forall>r\<in>set runs. rec_sorted r" using srt(2) so by (auto simp: runs_def keep_def intro!: sorted_wrt_filter)
  ultimately have "\<exists>it'. rs_refill_all c [0..<length runs] it = Inr it' \<and> scan_at c runs it' \<and> rs_epoch it' = rs_epoch it"
    using cfg_okD(1) [OF assms(1)] by (intro rs_refill_all_ok) (simp_all add: it_def, simp add: runs_def)
  then show "\<exists>it'. rs_refill_all c [0..<Suc (length ss)] it = Inr it' \<and> scan_at c runs it' \<and> rs_epoch it' = n" by (simp add: runs_def it_def)
  have k: "concat (map (\<lambda>s. keep (isam_data s)) ss) = keep (concat (map isam_data ss))" by (simp add: keep_def filter_concat comp_def)
  have r: "net (srt (keep bs)) = net (keep bs)" by (rule net_mset_eq) (rule srt(1))
  show "net (concat runs) q = (if in_range start finish q then net (concat (map isam_data ss)) q + net bs q else 0)"
    unfolding runs_def concat.simps net_append r k by (simp add: keep_def net_range)
  have "length (srt (keep bs)) = length (keep bs)" using srt(1) by (metis size_mset)
  moreover have "length (keep bs) \<le> length bs" "length (keep (concat (map isam_data ss))) \<le> length (concat (map isam_data ss))"
    by (simp_all only: keep_def length_filter_le)
  ultimately show "length (concat runs) \<le> length (concat (map isam_data ss)) + length bs"
    unfolding runs_def concat.simps length_append k by linarith
qed

context isam_env
begin

lemma range_scan_ok:
  assumes "ext_ok (isam_ops c) isam_data sinv L adm x" and "\<And>s. sinv s \<Longrightarrow> isam_inv c s" and "scan_choice_ok srt pick"
    and "length (struct_data isam_data (cur_struct x)) + length (buf_list (m_buffer x)) < fuel"
  shows "\<exists>it x1 out. RangeScanIterator_new c srt pick start finish x = Inr (it, x1) \<and> RangeScanIterator_destroy it x1 = Inr x \<and>
    rs_collect c pick fuel it = Inr out \<and> sorted out \<and>
    (\<forall>q. int (count_list out q) = (if in_range start finish q then max 0 (ext_net isam_data x q) else 0))"
proof -
  have f: "ext_frame x" by (rule ext_okD(1) [OF assms(1)])
  note sb = ext_okD(2) [OF assms(1)]
  from f obtain e st where e: "m_current_epoch x = \<lparr>ep_epoch = Some e, ep_refcnt = 0\<rparr>" "m_structure e = Some st" "cur_struct x = st"
    "m_epoch_number e = m_epoch_cnt x" "buf_inv (m_buffer x)" "\<not> points_to (m_epoch_cnt x) (m_previous_epoch x)" by (rule ext_frameE)
  let ?v = "view_at (head_idx (m_head (m_buffer x))) (m_buffer x)" and ?bs = "buf_list (m_buffer x)"
  have act: "get_active_epoch x = Inr (e, x\<lparr>m_current_epoch := \<lparr>ep_epoch = Some e, ep_refcnt = Suc 0\<rparr>\<rparr>)"
    using size_max_gt by (intro get_active_epoch_ok e(1)) simp
  have vw: "view_wf ?v" "view_list ?v = ?bs" using view_at_wf [OF e(5)] by simp_all
  then have cnt: "view_record_count ?v = length ?bs" using length_view_list by metis
  have recs: "mapE (view_get ?v) [0..<view_record_count ?v] = Inr ?bs"
    using view_get_wf [OF vw(1)] vw(2) cnt by (subst mapE_Inr [of _ _ "\<lambda>i. ?bs ! i"]) (simp_all add: map_nth)
  obtain g where g: "\<And>s. isam_inv c s \<Longrightarrow> isam_get_iterator c s (key start) = Inr (it_of s (g s)) \<and>
      drop (g s) (isam_data s) = filter (\<lambda>w. key start \<le> key (rec w)) (isam_data s)"
    using isam_get_iterator_ok [OF cfg, of _ "key start"] by metis
  have "mapE (level_iters c (key start)) (map Some ls) = Inr (map (\<lambda>l. map (\<lambda>s. it_of s (g s)) (level_shards l)) ls)"
    if "\<forall>l\<in>set ls. level_ok sinv l" for ls
    using that g assms(2) by (induction ls) (auto intro!: level_iters_ok)
  moreover have lo: "\<forall>l\<in>set (st_levels st). level_ok sinv l"
    using struct_baseD(5) [OF sb] unfolding e(3) by (simp add: all_set_conv_all_nth)
  moreover have "m_levels st = map Some (st_levels st)" using struct_baseD(1) [OF sb] unfolding e(3) .
  ultimately have its: "mapE (level_iters c (key start)) (m_levels st) =
      Inr (map (\<lambda>l. map (\<lambda>s. it_of s (g s)) (level_shards l)) (st_levels st))" by simp
  have ss: "\<forall>s\<in>set (struct_shards st). isam_inv c s"
    using lo assms(2) by (auto simp: struct_shards_def level_ok_def)
  have mc: "concat (map (\<lambda>l. map (\<lambda>s. it_of s (g s)) (level_shards l)) (st_levels st)) = map (\<lambda>s. it_of s (g s)) (struct_shards st)"
    by (simp add: struct_shards_def map_concat comp_def)
  have "\<forall>s\<in>set (struct_shards st). isam_inv c s \<and> isam_get_iterator c s (key start) = Inr (it_of s (g s)) \<and>
      drop (g s) (isam_data s) = filter (\<lambda>w. key start \<le> key (rec w)) (isam_data s)" using ss g by blast
  note op = opened_sources [OF cfg assms(3) this, where finish = finish and bs = ?bs]
  obtain it1 runs where it1: "rs_refill_all c [0..<Suc (length (struct_shards st))]
      \<lparr>rs_epoch = m_epoch_number e, rs_finish = finish, rs_buffer_recs = srt (filter (\<lambda>w. in_range start finish (rec w)) ?bs),
       rs_buffer_idx = 0, rs_shard_iters = map (\<lambda>s. it_of s (g s)) (struct_shards st), rs_heap = [], rs_current = None, rs_pending = 0\<rparr> = Inr it1"
      "scan_at c runs it1" "\<And>q. net (concat runs) q = (if in_range start finish q then ext_net isam_data x q else 0)"
      "length (concat runs) < fuel" "rs_epoch it1 = m_epoch_number e"
  proof -
    obtain it1 where it1: "rs_refill_all c [0..<Suc (length (struct_shards st))]
      \<lparr>rs_epoch = m_epoch_number e, rs_finish = finish, rs_buffer_recs = srt (filter (\<lambda>w. in_range start finish (rec w)) ?bs),
       rs_buffer_idx = 0, rs_shard_iters = map (\<lambda>s. it_of s (g s)) (struct_shards st), rs_heap = [], rs_current = None, rs_pending = 0\<rparr> = Inr it1"
      "scan_at c (srt (filter (\<lambda>w. in_range start finish (rec w)) ?bs) #
        map (\<lambda>s. filter (\<lambda>w. in_range start finish (rec w)) (isam_data s)) (struct_shards st)) it1" "rs_epoch it1 = m_epoch_number e"
      using op(1) [where n = "m_epoch_number e"] by blast
    show ?thesis
    proof (rule that [OF it1(1,2) _ _ it1(3)])
      show "length (concat (srt (filter (\<lambda>w. in_range start finish (rec w)) ?bs) #
          map (\<lambda>s. filter (\<lambda>w. in_range start finish (rec w)) (isam_data s)) (struct_shards st))) < fuel"
        by (rule le_less_trans [OF op(3) assms(4) [unfolded e(3) struct_data_shards]])
    qed (unfold op(2) ext_net_def e(3) struct_data_shards, rule refl)
  qed
  obtain it2 runs2 where it2: "rs_advance c pick it1 = Inr it2" "scan_at c runs2 it2" "found_next runs it2 runs2" "rs_epoch it2 = rs_epoch it1"
    using rs_advance_ok [OF it1(2) assms(3) cfg_okD(1) [OF cfg]] by blast
  note f2 = found_nextD [OF it2(3)]
  have "\<exists>out. rs_collect c pick fuel it2 = Inr out \<and> sorted out \<and>
    (\<forall>q. int (count_list out q) = (if rs_current it2 = Some q then int (rs_pending it2) else 0) + max 0 (net (concat runs2) q))"
    using f2 it1(4) by (intro rs_collect_ok [OF it2(2) assms(3) cfg_okD(1) [OF cfg]]) (blast | linarith)+
  then obtain out where out: "rs_collect c pick fuel it2 = Inr out" "sorted out"
      "\<And>q. int (count_list out q) = (if in_range start finish q then max 0 (ext_net isam_data x q) else 0)"
    unfolding found_next_count [OF it2(3)] it1(3) by (metis max.idem)
  let ?x1 = "x\<lparr>m_current_epoch := \<lparr>ep_epoch = Some e, ep_refcnt = Suc 0\<rparr>\<rparr>"
  have new: "RangeScanIterator_new c srt pick start finish x = Inr (it2, ?x1)"
    using act get_buffer_view_at_frame [OF f, of e] e(1,2) recs its mc it1(1) it2(1)
    by (simp add: RangeScanIterator_new_def get_structure_def in_range_def Let_def del: upt_Suc)
  have "rs_epoch it2 = m_epoch_cnt x" using it2(4) it1(5) e(4) by simp
  then have "RangeScanIterator_destroy it2 ?x1 = Inr x"
    unfolding RangeScanIterator_destroy_def using end_job_ok [of ?x1 e 0 "m_epoch_cnt x"] e(1,6) by simp
  with new out show ?thesis by blast
qed

end


section \<open>Properties\<close>

lemma demo_choice_ok: "scan_choice_ok (sort_key rec) (first_min (\<lambda>e. rec (fst e)))"
  unfolding scan_choice_ok_def
  using first_min.pick_in [of _ "\<lambda>e. rec (fst e)"] first_min.pick_min [of _ _ "\<lambda>e. rec (fst e)"]
  by (auto intro: rec_sorted_sort)

text \<open>
  C2. A range scan returns what the index holds. Build an index on an empty directory, perform any
  sequence of inserts and tombstone deletes as in the first property, and open a scan over the keys
  from \<^verbatim>\<open>start.key\<close> to \<^verbatim>\<open>finish.key\<close>: reading it with \<^verbatim>\<open>has_next\<close> and \<^verbatim>\<open>next\<close> to its end yields, in
  sorted order, every record of the range exactly as often as its inserts outnumber its deletes,
  whether its entries are in the buffer, in one shard or spread over many. More calls than there
  are stored entries are never needed, and closing the scan leaves the index as it was.
\<close>

theorem range_scan_correct:
  assumes "cfg_ok c" and "0 < lwm" and "lwm \<le> hwm" and "0 < scale" and "L = BSM \<longrightarrow> scale = 2" and "isam_winv c d"
    and "skip \<or> ckpt_file d = None" and "length cs \<le> 2 ^ 31"
    and "\<forall>x. DynamicExtension_new (isam_ops c) J B bf0 L lwm hwm scale mb tc skip True None d = Inr (x, d) \<longrightarrow>
      safe_run (isam_ops c) isam_data J B L junk cs x d"
    and "scan_choice_ok srt pick"
  shows "\<exists>x0 x d' it x1 out. DynamicExtension_new (isam_ops c) J B bf0 L lwm hwm scale mb tc skip True None d = Inr (x0, d) \<and>
    ext_run (isam_ops c) J B L junk cs x0 d = Inr (replicate (length cs) 1, x, d') \<and>
    RangeScanIterator_new c srt pick start finish x = Inr (it, x1) \<and> RangeScanIterator_destroy it x1 = Inr x \<and>
    (\<forall>fuel. length (struct_data isam_data (cur_struct x) @ buf_list (m_buffer x)) < fuel \<longrightarrow> rs_collect c pick fuel it = Inr out) \<and>
    sorted out \<and> (\<forall>q. int (count_list out q) = (if in_range start finish q then max 0 (spec_net cs q) else 0))"
proof -
  note env = isam_env.intro [OF assms(1)]
  have "\<exists>x0 x d'. DynamicExtension_new (isam_ops c) J B bf0 L lwm hwm scale mb tc skip True None d = Inr (x0, d) \<and>
      ext_run (isam_ops c) J B L junk cs x0 d = Inr (replicate (length cs) 1, x, d') \<and>
      ext_ok (isam_ops c) isam_data (isam_inv c) L (flags_ok TOMBSTONE) x \<and> ext_net isam_data x = spec_net cs"
    by (rule isam_env.index_run [OF env assms(2-8)]) (use assms(9) in blast)
  then obtain x0 x d' where run: "DynamicExtension_new (isam_ops c) J B bf0 L lwm hwm scale mb tc skip True None d = Inr (x0, d)"
      "ext_run (isam_ops c) J B L junk cs x0 d = Inr (replicate (length cs) 1, x, d')"
      "ext_ok (isam_ops c) isam_data (isam_inv c) L (flags_ok TOMBSTONE) x" "ext_net isam_data x = spec_net cs"
    by (elim exE conjE) (rule that)
  let ?n = "length (struct_data isam_data (cur_struct x)) + length (buf_list (m_buffer x))"
  obtain it x1 out where scan: "RangeScanIterator_new c srt pick start finish x = Inr (it, x1)" "RangeScanIterator_destroy it x1 = Inr x"
      "rs_collect c pick (Suc ?n) it = Inr out" "sorted out"
      "\<forall>q. int (count_list out q) = (if in_range start finish q then max 0 (ext_net isam_data x q) else 0)"
    using isam_env.range_scan_ok [OF env run(3) _ assms(10), of "Suc ?n" start finish] lessI by fast
  have "\<forall>fuel. length (struct_data isam_data (cur_struct x) @ buf_list (m_buffer x)) < fuel \<longrightarrow> rs_collect c pick fuel it = Inr out"
    using rs_collect_mono [OF scan(3)] by simp
  with run(1,2) scan(1,2,4,5) show ?thesis unfolding run(4) by blast
qed

theorem range_scan_correct_witness:
  "\<exists>x0 x d' it x1 out. demo_new demo_json = Inr (x0, demo_disk) \<and>
    ext_run (isam_ops demo_cfg) demo_json list_bloom TEIRING 0 demo_ops x0 demo_disk = Inr ([1, 1, 1], x, d') \<and>
    RangeScanIterator_new demo_cfg (sort_key rec) (first_min (\<lambda>e. rec (fst e))) (Record 0 0) (Record 9 0) x = Inr (it, x1) \<and>
    rs_collect demo_cfg (first_min (\<lambda>e. rec (fst e))) (Suc (length (struct_data isam_data (cur_struct x) @ buf_list (m_buffer x)))) it = Inr out \<and>
    count_list out (Record 2 6) = 1 \<and> count_list out (Record 1 5) = 0"
proof -
  let ?pick = "first_min (\<lambda>e. rec (fst e)) :: (nat, nat) HeapEntry list \<Rightarrow> nat"
  have "\<exists>x0 x d' it x1 out. demo_new demo_json = Inr (x0, demo_disk) \<and>
    ext_run (isam_ops demo_cfg) demo_json list_bloom TEIRING 0 demo_ops x0 demo_disk = Inr (replicate (length demo_ops) 1, x, d') \<and>
    RangeScanIterator_new demo_cfg (sort_key rec) ?pick (Record 0 0) (Record 9 0) x = Inr (it, x1) \<and> RangeScanIterator_destroy it x1 = Inr x \<and>
    (\<forall>fuel. length (struct_data isam_data (cur_struct x) @ buf_list (m_buffer x)) < fuel \<longrightarrow> rs_collect demo_cfg ?pick fuel it = Inr out) \<and>
    sorted out \<and> (\<forall>q. int (count_list out q) = (if in_range (Record 0 0) (Record 9 0) q then max 0 (spec_net demo_ops q) else 0))"
    by (intro range_scan_correct [OF demo_cfg_ok _ _ _ _ demo_disk_inv(1)] allI impI demo_safe demo_choice_ok)
      (auto simp: demo_disk_inv demo_ops_def)
  then obtain x0 x d' it x1 out where *: "demo_new demo_json = Inr (x0, demo_disk)"
    "ext_run (isam_ops demo_cfg) demo_json list_bloom TEIRING 0 demo_ops x0 demo_disk = Inr (replicate (length demo_ops) 1, x, d')"
    "RangeScanIterator_new demo_cfg (sort_key rec) ?pick (Record 0 0) (Record 9 0) x = Inr (it, x1)"
    "\<forall>fuel. length (struct_data isam_data (cur_struct x) @ buf_list (m_buffer x)) < fuel \<longrightarrow> rs_collect demo_cfg ?pick fuel it = Inr out"
    "\<forall>q. int (count_list out q) = (if in_range (Record 0 0) (Record 9 0) q then max 0 (spec_net demo_ops q) else 0)" by blast
  from *(5) have "int (count_list out (Record 2 6)) = 1" "int (count_list out (Record 1 5)) = 0"
    by (simp_all add: in_range_def demo_ops_def)
  then have "count_list out (Record 2 6) = 1" "count_list out (Record 1 5) = 0" by linarith+
  moreover have "replicate (length demo_ops) (1::nat) = [1, 1, 1]" by (simp add: demo_ops_def)
  ultimately show ?thesis using *(1-4) lessI by metis
qed

end
