(* ===== verification/DE_SortedShard.thy ===== *)
theory DE_SortedShard
  imports DE_Merge DE_Level
begin

text \<open>
  What the in-memory shards over a sorted array have in common: the scan of a point lookup, and
  the interface that range queries rest on, a sorted array with a search for a lower bound.
\<close>

section \<open>The scan of a point lookup\<close>

text \<open>
  The scan of a point lookup from a lower bound, shared by the in-memory shards: it looks at the
  record it stops at even when it ran past the last one.
\<close>

definition scan_from :: "('k::linorder, 'v::linorder) Record Wrapped list \<Rightarrow> ('k, 'v) Record \<Rightarrow> nat \<Rightarrow> ('k, 'v) Record Wrapped option res" where
  "scan_from ws r idx =
     (if idx \<ge> length ws then Inr None
      else
        let i = idx + first_pos (\<lambda>w. \<not> rec w < r) (drop idx ws) in
        bindE (vec_get ws i) (\<lambda>w. Inr (if rec w = r then Some w else None)))"

lemma scan_from_ok:
  fixes ws :: "('k::linorder, 'v::linorder) Record Wrapped list"
  assumes "rec_sorted ws" and "\<forall>j<idx. j < length ws \<longrightarrow> rec (ws ! j) < r"
  shows "scan_from ws r idx =
    (if idx \<ge> length ws then Inr None
     else if \<exists>w\<in>set ws. r \<le> rec w then Inr (List.find (\<lambda>w. rec w = r) ws) else Inl OutOfBounds)"
proof (cases "idx \<ge> length ws")
  case False
  let ?p = "\<lambda>w. \<not> rec w < r"
  have "first_pos ?p (take idx ws) = length (take idx ws)"
    using assms(2) False first_pos_less_iff [of ?p "take idx ws"] first_pos_le [of ?p "take idx ws"]
    by (force simp: in_set_conv_nth)
  then have pos: "first_pos ?p ws = idx + first_pos ?p (drop idx ws)"
    using first_pos_append [of ?p "take idx ws" "drop idx ws"] False by simp
  show ?thesis
  proof (cases "\<exists>w\<in>set ws. r \<le> rec w")
    case True
    let ?i = "first_pos ?p ws"
    have lt: "?i < length ws" using True first_pos_less_iff [of ?p ws] by (auto simp: not_less)
    have ge: "r \<le> rec (ws ! ?i)" using first_pos_at [OF lt] by simp
    have before: "rec (ws ! j) < r" if "j < ?i" for j using first_pos_before [OF that] by simp
    have "List.find (\<lambda>w. rec w = r) ws = (if rec (ws ! ?i) = r then Some (ws ! ?i) else None)"
    proof (cases "rec (ws ! ?i) = r")
      case True
      have "\<forall>j<?i. rec (ws ! j) \<noteq> r" using before by (blast dest: less_imp_neq)
      then have "List.find (\<lambda>w. rec w = r) ws = Some (ws ! ?i)" unfolding find_Some_iff using lt True by blast
      then show ?thesis using True by simp
    next
      case ne: False
      have "rec w \<noteq> r" if "w \<in> set ws" for w
      proof -
        obtain j where j: "j < length ws" "w = ws ! j" using \<open>w \<in> set ws\<close> by (auto simp: in_set_conv_nth)
        show ?thesis
        proof (cases "j < ?i")
          case False
          then have "rec (ws ! ?i) \<le> rec w"
            using assms(1) j by (cases "j = ?i") (auto simp: sorted_wrt_iff_nth_less)
          then show ?thesis using ge ne by auto
        qed (use before j in auto)
      qed
      then show ?thesis using ne by (simp add: find_None_iff)
    qed
    then show ?thesis using True False lt pos by (simp add: scan_from_def Let_def)
  next
    case none: False
    then have "first_pos ?p ws = length ws"
      using first_pos_less_iff [of ?p ws] first_pos_le [of ?p ws] by (force simp: not_le)
    then show ?thesis using none False pos by (simp add: scan_from_def Let_def vec_get_def)
  qed
qed (simp add: scan_from_def)

lemma first_pos_filter:
  assumes "sorted_wrt (\<lambda>x y. f x \<le> f y) xs"
  shows "first_pos (\<lambda>x. (a::'b::linorder) \<le> f x) xs = length (filter (\<lambda>x. f x < a) xs)"
    and "first_pos (\<lambda>x. (a::'b::linorder) < f x) xs = length (filter (\<lambda>x. f x \<le> a) xs)"
proof -
  have "filter (\<lambda>x. f x < a) xs = takeWhile (\<lambda>x. f x < a) xs"
    using assms
  proof (induction xs)
    case (Cons x xs)
    show ?case
    proof (cases "f x < a")
      case False
      then have "filter (\<lambda>x. f x < a) xs = []" using Cons.prems by (auto simp: filter_empty_conv)
      then show ?thesis using False by simp
    qed (use Cons in simp)
  qed simp
  then show "first_pos (\<lambda>x. a \<le> f x) xs = length (filter (\<lambda>x. f x < a) xs)"
    by (simp add: first_pos_def not_le)
  show "first_pos (\<lambda>x. a < f x) xs = length (filter (\<lambda>x. f x \<le> a) xs)"
    using takeWhile_sorted_filter [OF assms, of a] by (simp add: first_pos_def not_less)
qed

text \<open>What a scan returns when it starts at the number of records with a smaller key.\<close>

definition lookup_result :: "('k::linorder, 'v::linorder) Record Wrapped list \<Rightarrow> ('k, 'v) Record \<Rightarrow> ('k, 'v) Record Wrapped option res" where
  "lookup_result ws r =
     (if \<forall>w\<in>set ws. key (rec w) < key r then Inr None
      else if \<exists>w\<in>set ws. r \<le> rec w then Inr (List.find (\<lambda>w. rec w = r) ws)
      else Inl OutOfBounds)"

lemma scan_from_lower_bound:
  fixes ws :: "('k::linorder, 'v::linorder) Record Wrapped list"
  assumes "rec_sorted ws"
  shows "scan_from ws r (length (filter (\<lambda>w. key (rec w) < key r) ws)) = lookup_result ws r"
proof -
  let ?n = "length (filter (\<lambda>w. key (rec w) < key r) ws)"
  have "sorted_wrt (\<lambda>a b. key (rec a) \<le> key (rec b)) ws"
    using assms by (rule sorted_wrt_mono_rel [rotated]) (rule key_mono)
  then have n: "?n = first_pos (\<lambda>w. key r \<le> key (rec w)) ws" by (rule first_pos_filter(1) [symmetric])
  have "rec (ws ! j) < r" if "j < ?n" for j
    using first_pos_before [of j "\<lambda>w. key r \<le> key (rec w)" ws] that unfolding n by (simp add: less_Record_def not_le)
  moreover have "?n \<ge> length ws \<longleftrightarrow> (\<forall>w\<in>set ws. key (rec w) < key r)"
    using length_filter_less [of _ ws "\<lambda>w. key (rec w) < key r"] filter_True [of ws "\<lambda>w. key (rec w) < key r"]
    by (metis leD order_refl)
  ultimately show ?thesis using scan_from_ok [OF assms, of ?n r] by (simp add: lookup_result_def)
qed

section \<open>Merging shards\<close>

lemma build_cursor_vec_Some:
  "fst (build_cursor_vec get_data reccount tscount (map Some ss)) = map (\<lambda>s. array_cursor (get_data s) (reccount s)) ss"
  by (induction ss) (simp_all add: case_prod_unfold Let_def)

lemma array_cursor_live:
  "ws \<noteq> [] \<Longrightarrow> cursor_live (array_cursor ws (length ws))" "rest (array_cursor ws (length ws)) = ws"
  by (simp_all add: cursor_live_def cursor_ok_def array_cursor_def rest_def)

lemma merge_shards_ok:
  fixes data :: "'s \<Rightarrow> 'r::linorder Wrapped list"
  assumes "min_pick (\<lambda>e. wkey_of (fst e)) pick" and "\<forall>s\<in>set ss. rec_sorted (data s) \<and> data s \<noteq> []"
    and "policy_ok (concat (map data ss))"
  shows "\<exists>out. sorted_array_merge pick B (fst (build_cursor_vec data (\<lambda>s. length (data s)) ts (map Some ss))) bf = Inr out \<and>
    shard_data_ok B (concat (map data ss)) bf out"
proof -
  let ?cs = "map (\<lambda>s. array_cursor (data s) (length (data s))) ss"
  have "map rest ?cs = map data ss" by (simp add: array_cursor_live)
  then show ?thesis
    using sorted_array_merge_ok [OF assms(1), of ?cs B bf] assms(2,3) by (simp add: build_cursor_vec_Some array_cursor_live comp_def)
qed

text \<open>A shard that keeps more than the array while merging runs the same loops on a larger state.\<close>

lemma bindE_map_sum: "bindE (map_sum (\<lambda>e. e) h m) (\<lambda>x. Inr (f x)) = map_sum (\<lambda>e. e) (\<lambda>x. f (h x)) m"
  by (cases m) simp_all

lemma map_sum_bindE: "map_sum (\<lambda>e. e) g (bindE m f) = bindE m (\<lambda>x. map_sum (\<lambda>e. e) g (f x))"
  by (cases m) simp_all

lemma bufferview_loop_map:
  assumes "\<And>w s. h (emit w s) = emit' w (h s)"
  shows "bufferview_loop_by eq emit' ws (h s) = h (bufferview_loop_by eq emit ws s)"
proof (induction ws arbitrary: s rule: length_induct)
  case (1 ws)
  then show ?case by (cases ws) (simp_all add: flip: assms)
qed

lemma merge_loop_step_cancel:
  assumes "q \<noteq> []" and "pq_peek pick q = (w, v)" and "q1 = pq_pop pick q" and "ci v < length cs"
    and "q1 \<noteq> []" and "pq_peek pick q1 = (t, u)" and "cancels_by eq w t" and "q2 = pq_pop pick q1"
    and "a1 = advance_cursor (cs ! ci v)" and "cs1 = cs[ci v := snd a1]"
    and "a2 = advance_cursor (cs1 ! ci u)" and "cs2 = cs1[ci u := snd a2]"
  shows "merge_loop_by eq ci pick emit cs q s =
    (if length cs \<le> ci u then Inl OutOfBounds else merge_loop_by eq ci pick emit cs2 (push_cursor a2 u (push_cursor a1 v q2)) s)"
  unfolding merge_loop_by.simps [of eq ci pick emit cs q] using assms by (simp add: Let_def)

lemma merge_loop_step_emit:
  assumes "q \<noteq> []" and "pq_peek pick q = (w, v)" and "q1 = pq_pop pick q" and "ci v < length cs"
    and "q1 = [] \<or> \<not> cancels_by eq w (fst (pq_peek pick q1))" and "a = advance_cursor (cs ! ci v)"
  shows "merge_loop_by eq ci pick emit cs q s =
    merge_loop_by eq ci pick emit (cs[ci v := snd a]) (push_cursor a v q1) (emit (carr (cs ! ci v) ! cptr (cs ! ci v)) s)"
  unfolding merge_loop_by.simps [of eq ci pick emit cs q] using assms by (auto simp: Let_def)

lemma merge_loop_map:
  assumes h: "\<And>w s. h (emit w s) = emit' w (h s)"
  shows "merge_loop_by eq ci pick emit' cs q (h s) = map_sum (\<lambda>e. e) h (merge_loop_by eq ci pick emit cs q s)"
  using h
proof (induction eq ci pick emit cs q s rule: merge_loop_by.induct)
  case (1 eq ci pick emit cs q s)
  show ?case
  proof (cases "q = []")
    case False
    obtain w v where now: "pq_peek pick q = (w, v)" by force
    define q1 where "q1 = pq_pop pick q"
    show ?thesis
    proof (cases "length cs \<le> ci v")
      case True
      then show ?thesis using False now by (simp add: merge_loop_by.simps [of eq ci pick _ cs q] Let_def)
    next
      case v: False
      then have vl: "ci v < length cs" by simp
      define a1 where "a1 = advance_cursor (cs ! ci v)"
      show ?thesis
      proof (cases "q1 \<noteq> [] \<and> cancels_by eq w (fst (pq_peek pick q1))")
        case c: True
        obtain t u where nxt: "pq_peek pick q1 = (t, u)" by force
        define cs1 where "cs1 = cs[ci v := snd a1]"
        define q2 where "q2 = pq_pop pick q1"
        define a2 where "a2 = advance_cursor (cs1 ! ci u)"
        define cs2 where "cs2 = cs1[ci u := snd a2]"
        have "cancels_by eq w t" "q1 \<noteq> []" using c nxt by simp_all
        note st = merge_loop_step_cancel [where ci = ci and eq = eq, OF False now q1_def vl this(2) nxt this(1) q2_def a1_def cs1_def a2_def cs2_def]
        show ?thesis
        proof (cases "length cs \<le> ci u")
          case u: False
          have "merge_loop_by eq ci pick emit' cs2 (push_cursor a2 u (push_cursor a1 v q2)) (h s) =
              map_sum (\<lambda>e. e) h (merge_loop_by eq ci pick emit cs2 (push_cursor a2 u (push_cursor a1 v q2)) s)"
            using "1.IH"(1) [OF False refl refl _ _ refl refl refl refl _ refl refl "1.prems"] u v c now nxt
            by (simp add: a1_def a2_def cs1_def cs2_def q1_def q2_def)
          then show ?thesis using u by (simp add: st)
        qed (simp add: st)
      next
        case nc: False
        then have "q1 = [] \<or> \<not> cancels_by eq w (fst (pq_peek pick q1))" by blast
        note st = merge_loop_step_emit [where ci = ci and eq = eq, OF False now q1_def vl this a1_def]
        have "merge_loop_by eq ci pick emit' (cs[ci v := snd a1]) (push_cursor a1 v q1) (h (emit (carr (cs ! ci v) ! cptr (cs ! ci v)) s)) =
            map_sum (\<lambda>e. e) h (merge_loop_by eq ci pick emit (cs[ci v := snd a1]) (push_cursor a1 v q1) (emit (carr (cs ! ci v) ! cptr (cs ! ci v)) s))"
          using "1.IH"(2) [OF False refl refl _ _ refl refl "1.prems"] v nc now
          by (simp add: a1_def q1_def)
        then show ?thesis by (simp add: st "1.prems")
      qed
    qed
  qed (simp add: merge_loop_by.simps)
qed

section \<open>The interface of a sorted shard\<close>

text \<open>
  The search returns a position that misses nothing: every record before it has a smaller key. It
  need not be the first such position, but it is the end of the array when all keys are smaller.
\<close>

locale sorted_shard =
  fixes data :: "'s \<Rightarrow> ('k::linorder, 'v::linorder) Record Wrapped list"
    and lower_bound :: "'s \<Rightarrow> 'k \<Rightarrow> nat res"
    and sinv :: "'s \<Rightarrow> bool"
  assumes data_sorted: "sinv s \<Longrightarrow> rec_sorted (data s)"
    and lower_bound_before: "sinv s \<Longrightarrow> \<exists>i. lower_bound s k = Inr i \<and> i \<le> length (data s) \<and>
      (\<forall>j<i. key (rec (data s ! j)) < k)"
    and lower_bound_end: "sinv s \<Longrightarrow> \<forall>w\<in>set (data s). key (rec w) < k \<Longrightarrow> lower_bound s k = Inr (length (data s))"
begin

lemma lookup_scan:
  assumes "sinv s"
  shows "bindE (lower_bound s (key r)) (scan_from (data s) r) = lookup_result (data s) r"
proof (cases "\<forall>w\<in>set (data s). key (rec w) < key r")
  case True
  then show ?thesis using lower_bound_end [OF assms True] by (simp add: lookup_result_def scan_from_def)
next
  case False
  obtain i where i: "lower_bound s (key r) = Inr i" "i \<le> length (data s)" "\<forall>j<i. key (rec (data s ! j)) < key r"
    using lower_bound_before [OF assms] by blast
  have "i \<noteq> length (data s)" using False i(3) by (auto simp: in_set_conv_nth)
  then have "i < length (data s)" using i(2) by simp
  moreover have "scan_from (data s) r i = (if i \<ge> length (data s) then Inr None
     else if \<exists>w\<in>set (data s). r \<le> rec w then Inr (List.find (\<lambda>w. rec w = r) (data s)) else Inl OutOfBounds)"
    using data_sorted [OF assms] i(3) by (intro scan_from_ok) (auto simp: less_Record_def)
  ultimately show ?thesis unfolding lookup_result_def if_not_P [OF False] i(1) bindE_simps by simp
qed

text \<open>Rolling forward from the position found, and stopping at the first larger key.\<close>

lemma range_from:
  assumes "sinv s"
  shows "\<exists>i. lower_bound s lo = Inr i \<and> i \<le> length (data s) \<and>
    takeWhile (\<lambda>w. key (rec w) \<le> hi) (dropWhile (\<lambda>w. key (rec w) < lo) (drop i (data s))) =
      filter (\<lambda>w. lo \<le> key (rec w) \<and> key (rec w) \<le> hi) (data s)"
proof -
  let ?p = "\<lambda>w. key (rec w) < lo" and ?q = "\<lambda>w. key (rec w) \<le> hi"
  obtain i where i: "lower_bound s lo = Inr i" "i \<le> length (data s)" "\<forall>j<i. key (rec (data s ! j)) < lo"
    using lower_bound_before [OF assms] by blast
  have srt: "sorted_wrt (\<lambda>a b. key (rec a) \<le> key (rec b)) (data s)"
    using data_sorted [OF assms] by (rule sorted_wrt_mono_rel [rotated]) (rule key_mono)
  have "\<forall>w\<in>set (take i (data s)). ?p w" using i(2,3) by (auto simp: in_set_conv_nth)
  then have "dropWhile ?p (take i (data s) @ drop i (data s)) = dropWhile ?p (drop i (data s))"
    by (intro dropWhile_append2) simp
  then have dw: "dropWhile ?p (drop i (data s)) = dropWhile ?p (data s)" by simp
  have "takeWhile ?q (dropWhile ?p ws) = filter (\<lambda>w. lo \<le> key (rec w) \<and> ?q w) ws"
    if "sorted_wrt (\<lambda>a b. key (rec a) \<le> key (rec b)) ws" for ws :: "('k, 'v) Record Wrapped list"
    using that
  proof (induction ws)
    case (Cons w ws)
    show ?case
    proof (cases "?p w")
      case True
      then show ?thesis using Cons by (simp add: not_le)
    next
      case ge: False
      have "filter (\<lambda>w. lo \<le> key (rec w) \<and> ?q w) (w # ws) = filter ?q (w # ws)"
        using Cons.prems ge by (intro filter_cong refl) fastforce
      then show ?thesis using takeWhile_sorted_filter [OF Cons.prems, of hi] ge by simp
    qed
  qed simp
  from this [OF srt] show ?thesis using i(1,2) unfolding dw [symmetric] by blast
qed

end

end
