(* ===== verification/DE_MemIsam.thy ===== *)
theory DE_MemIsam
  imports DE_SortedShard
begin

text \<open>
  The in-memory tree (\<^verbatim>\<open>include/shard/ISAMTree.h\<close>): a sorted array of records and, over it, nodes of
  \<open>INTERNAL_FANOUT\<close> separators and children. The bottom level points at every \<open>LEAF_FANOUT\<close>-th record.
  A separator is the largest key below its child, except that the separator of an incomplete child
  of an upper node is the zero the node array was filled with; the search never looks at it.
\<close>

section \<open>Nodes\<close>

text \<open>A child pointer points into the record array or into the node array.\<close>

datatype child_ptr = LeafPtr nat | NodePtr nat

type_synonym 'k mi_node = "('k \<times> child_ptr option) list"

record ('k, 'v) MemISAM =
  mi_data :: "('k, 'v) Record Wrapped list"
  mi_nodes :: "'k mi_node list"
  mi_root :: "nat option"
  mi_tombstone_cnt :: nat

text \<open>The sizes of a key and of a record.\<close>

record mi_cfg =
  mi_key_sz :: nat
  mi_rec_sz :: nat

definition MI_NODE_SZ :: nat where
  "MI_NODE_SZ = 256"

definition MI_INTERNAL_FANOUT :: "mi_cfg \<Rightarrow> nat" where
  "MI_INTERNAL_FANOUT c = MI_NODE_SZ div (mi_key_sz c + 8)"

definition MI_LEAF_FANOUT :: "mi_cfg \<Rightarrow> nat" where
  "MI_LEAF_FANOUT c = MI_NODE_SZ div mi_rec_sz c"

definition mi_reccnt :: "('k, 'v) MemISAM \<Rightarrow> nat" where
  "mi_reccnt s = length (mi_data s)"

definition ceil_div :: "nat \<Rightarrow> nat \<Rightarrow> nat" where
  "ceil_div n m = n div m + (if n mod m \<noteq> 0 then 1 else 0)"

lemma ceil_div_less:
  assumes "2 \<le> m" and "1 < n"
  shows "ceil_div n m < n"
proof -
  have "n = n div m * m + n mod m" by simp
  moreover have "n div m * 2 \<le> n div m * m" using assms(1) by simp
  ultimately have "n div m * 2 + n mod m \<le> n" by linarith
  then show ?thesis using assms by (cases "n div m = 0") (auto simp: ceil_div_def)
qed

lemma ceil_div_le_iff: "0 < m \<Longrightarrow> ceil_div n m \<le> k \<longleftrightarrow> n \<le> k * m"
proof -
  assume m: "0 < m"
  have n: "n = n div m * m + n mod m" "n mod m < m" using m by simp_all
  show ?thesis
  proof (cases "n mod m = 0")
    case True
    then have "n div m * m = n" using n(1) by linarith
    moreover have "ceil_div n m \<le> k \<longleftrightarrow> n div m * m \<le> k * m" using True m by (simp add: ceil_div_def)
    ultimately show ?thesis by simp
  next
    case False
    have "n div m < k \<longleftrightarrow> n < k * m" using m by (rule div_less_iff_less_mult)
    moreover have "n \<noteq> k * m" using False by auto
    then have "n < k * m \<longleftrightarrow> n \<le> k * m" by linarith
    moreover have "ceil_div n m = Suc (n div m)" using False by (simp add: ceil_div_def)
    ultimately show ?thesis by (simp only: Suc_le_eq)
  qed
qed

lemma ceil_div_add: "0 < m \<Longrightarrow> ceil_div (m + n) m = Suc (ceil_div n m)"
  by (simp add: ceil_div_def)

lemma ceil_div_small: "0 < n \<Longrightarrow> n < m \<Longrightarrow> ceil_div n m = 1"
  by (simp add: ceil_div_def)

section \<open>Construction\<close>

text \<open>The number of internal nodes, level by level.\<close>

function mi_node_cnt :: "mi_cfg \<Rightarrow> nat \<Rightarrow> nat res" where
  "mi_node_cnt c level_node_cnt =
     (if MI_INTERNAL_FANOUT c = 0 then Inl Blocked
      else
        let n = ceil_div level_node_cnt (MI_INTERNAL_FANOUT c) in
        if n > 1 then
          (if MI_INTERNAL_FANOUT c < 2 then Inl Blocked else bindE (mi_node_cnt c n) (\<lambda>m. Inr (n + m)))
        else Inr n)"
  by pat_completeness auto
termination
proof (relation "measure (\<lambda>(c, n). n)", goal_cases)
  case (2 c lvl n)
  have "1 < lvl"
  proof (rule ccontr)
    assume "\<not> 1 < lvl"
    then have "lvl \<le> 1 * MI_INTERNAL_FANOUT c" using 2(1) by simp
    then have "n \<le> 1" using 2(1) unfolding 2(2) by (subst ceil_div_le_iff) auto
    then show False using 2(3) by simp
  qed
  then show ?case using ceil_div_less [of "MI_INTERNAL_FANOUT c" lvl] 2 by simp
qed simp

declare mi_node_cnt.simps [simp del]

definition pad_node :: "mi_cfg \<Rightarrow> ('k::zero \<times> child_ptr option) list \<Rightarrow> 'k mi_node" where
  "pad_node c es = es @ replicate (MI_INTERNAL_FANOUT c - length es) (0, None)"

text \<open>Writing one more node: the array has room for \<open>cap\<close> nodes.\<close>

definition put_node :: "nat \<Rightarrow> 'k mi_node list \<Rightarrow> 'k mi_node \<Rightarrow> 'k mi_node list res" where
  "put_node cap nodes nd = (if length nodes < cap then Inr (nodes @ [nd]) else Inl OutOfBounds)"

function mi_bottom_level ::
    "mi_cfg \<Rightarrow> nat \<Rightarrow> ('k::zero, 'v) Record Wrapped list \<Rightarrow> nat \<Rightarrow> 'k mi_node list \<Rightarrow> 'k mi_node list res" where
  "mi_bottom_level c cap ws base nodes =
     (if base \<ge> length ws then Inr nodes
      else if MI_INTERNAL_FANOUT c = 0 \<or> MI_LEAF_FANOUT c = 0 then Inl Blocked
      else
        let fanout = min (MI_INTERNAL_FANOUT c) (ceil_div (length ws - base) (MI_LEAF_FANOUT c));
            es = map (\<lambda>i. let p = base + MI_LEAF_FANOUT c * i in
                   (key (rec (ws ! min (p + MI_LEAF_FANOUT c - 1) (length ws - 1))), Some (LeafPtr p))) [0..<fanout]
        in bindE (put_node cap nodes (pad_node c es)) (\<lambda>nodes'.
           mi_bottom_level c cap ws (base + fanout * MI_LEAF_FANOUT c) nodes'))"
  by pat_completeness auto
termination
proof (relation "measure (\<lambda>(c, cap, ws, base, nodes). length ws - base)", goal_cases)
  case (2 c cap ws base nodes fanout es nodes')
  have "\<not> ceil_div (length ws - base) (MI_LEAF_FANOUT c) \<le> 0" using 2 by (subst ceil_div_le_iff) auto
  then have "0 < fanout * MI_LEAF_FANOUT c" using 2(2,3) by simp
  moreover have "base < length ws" using 2(1) by simp
  ultimately show ?case by (simp del: mult_eq_0_iff nat_0_less_mult_iff)
qed simp

declare mi_bottom_level.simps [simp del]

text \<open>The last separator slot of a node.\<close>

definition last_sep :: "mi_cfg \<Rightarrow> 'k mi_node list \<Rightarrow> nat \<Rightarrow> 'k" where
  "last_sep c nodes q = fst (nodes ! q ! (MI_INTERNAL_FANOUT c - 1))"

function mi_upper_level ::
    "mi_cfg \<Rightarrow> nat \<Rightarrow> nat \<Rightarrow> nat \<Rightarrow> 'k::zero mi_node list \<Rightarrow> 'k mi_node list res" where
  "mi_upper_level c cap now stop nodes =
     (if now \<ge> stop then Inr nodes
      else if MI_INTERNAL_FANOUT c = 0 then Inl Blocked
      else
        let m = min (MI_INTERNAL_FANOUT c) (stop - now);
            child_cnt = (if m < MI_INTERNAL_FANOUT c then Suc m else m);
            es = map (\<lambda>q. (last_sep c nodes q, Some (NodePtr q))) [now..<now + m]
        in bindE (put_node cap nodes (pad_node c es)) (\<lambda>nodes'.
           mi_upper_level c cap (now + child_cnt) stop nodes'))"
  by pat_completeness auto
termination
  by (relation "measure (\<lambda>(c, cap, now, stop, nodes). stop - now)") auto

declare mi_upper_level.simps [simp del]

lemma mi_upper_level_length:
  assumes "mi_upper_level c cap now stop nodes = Inr nodes'" and "2 \<le> MI_INTERNAL_FANOUT c"
  shows "length nodes' = length nodes + ceil_div (stop - now) (MI_INTERNAL_FANOUT c)"
  using assms
proof (induction c cap now stop nodes rule: mi_upper_level.induct)
  case (1 c cap now stop nodes)
  let ?F = "MI_INTERNAL_FANOUT c"
  show ?case
  proof (cases "now \<ge> stop")
    case True
    then show ?thesis using "1.prems" by (simp add: mi_upper_level.simps ceil_div_def)
  next
    case False
    let ?m = "min ?F (stop - now)"
    let ?cc = "if ?m < ?F then Suc ?m else ?m"
    let ?es = "map (\<lambda>q. (last_sep c nodes q, Some (NodePtr q))) [now..<now + ?m]"
    have F: "?F \<noteq> 0" using "1.prems"(2) by simp
    obtain n1 where n1: "put_node cap nodes (pad_node c ?es) = Inr n1" "mi_upper_level c cap (now + ?cc) stop n1 = Inr nodes'"
      using "1.prems" False by (subst (asm) mi_upper_level.simps) (auto simp: Let_def simp del: upt_Suc split del: if_split)
    have len: "length nodes' = length n1 + ceil_div (stop - (now + ?cc)) ?F"
      using "1.IH" [OF False F refl refl refl n1(2) "1.prems"(2)] .
    have "ceil_div (stop - now) ?F = Suc (ceil_div (stop - (now + ?cc)) ?F)"
    proof (cases "?F \<le> stop - now")
      case True
      then have eq: "stop - now = ?F + (stop - (now + ?cc))" by simp
      show ?thesis by (subst eq, rule ceil_div_add) (use F in simp)
    next
      case lt: False
      then have "stop - (now + ?cc) = 0" by simp
      moreover have "0 < stop - now" "stop - now < ?F" using lt False by simp_all
      ultimately show ?thesis by (simp add: ceil_div_small ceil_div_def [of 0])
    qed
    then show ?thesis using len n1(1) by (auto simp: put_node_def split: if_splits)
  qed
qed

function mi_upper_levels ::
    "mi_cfg \<Rightarrow> nat \<Rightarrow> nat \<Rightarrow> 'k::zero mi_node list \<Rightarrow> (nat \<times> 'k mi_node list) res" where
  "mi_upper_levels c cap start nodes =
     (if length nodes - start \<le> 1 then assertE (length nodes - start = 1) (Inr (start, nodes))
      else if MI_INTERNAL_FANOUT c < 2 then Inl Blocked
      else case mi_upper_level c cap start (length nodes) nodes of
             Inl e \<Rightarrow> Inl e
           | Inr nodes' \<Rightarrow> mi_upper_levels c cap (length nodes) nodes')"
  by pat_completeness auto
termination
proof (relation "measure (\<lambda>(c, cap, start, nodes). length nodes - start)", goal_cases)
  case (2 c cap start nodes nodes')
  then have "length nodes' - length nodes = ceil_div (length nodes - start) (MI_INTERNAL_FANOUT c)"
    using mi_upper_level_length by force
  then show ?case using 2 ceil_div_less by force
qed simp

declare mi_upper_levels.simps [simp del]

definition mi_build_internal_levels ::
    "mi_cfg \<Rightarrow> ('k::zero, 'v) Record Wrapped list \<Rightarrow> ('k mi_node list \<times> nat) res" where
  "mi_build_internal_levels c ws =
     (if MI_LEAF_FANOUT c = 0 then Inl Blocked
      else
        bindE (mi_node_cnt c (ceil_div (length ws) (MI_LEAF_FANOUT c))) (\<lambda>node_cnt.
        bindE (mi_bottom_level c node_cnt ws 0 []) (\<lambda>nodes.
        bindE (mi_upper_levels c node_cnt 0 nodes) (\<lambda>(root, nodes').
        Inr (nodes', root)))))"

text \<open>Both constructors; no filter is ever allocated.\<close>

definition mi_finish ::
    "mi_cfg \<Rightarrow> (('k::zero, 'v) Record, 'f) merge_out \<Rightarrow> ('k, 'v) MemISAM res" where
  "mi_finish c out =
     (case out of (info, ws, bf) \<Rightarrow>
      if record_count info > 0
      then bindE (mi_build_internal_levels c ws) (\<lambda>(nodes, root).
             Inr \<lparr>mi_data = ws, mi_nodes = nodes, mi_root = Some root, mi_tombstone_cnt = tombstone_count info\<rparr>)
      else Inr \<lparr>mi_data = ws, mi_nodes = [], mi_root = None, mi_tombstone_cnt = tombstone_count info\<rparr>)"

definition mi_of_view ::
    "mi_cfg \<Rightarrow> ('f, ('k::{linorder,zero}, 'v::linorder) Record) bloom_ops \<Rightarrow> (('k, 'v) Record, 'b) BufferView \<Rightarrow> ('k, 'v) MemISAM res" where
  "mi_of_view c B buffer = bindE (sorted_array_from_bufferview B buffer None) (mi_finish c)"

definition mi_of_shards ::
    "mi_cfg \<Rightarrow> ((('k, 'v) Record Wrapped \<times> nat) list \<Rightarrow> nat) \<Rightarrow> ('f, ('k::{linorder,zero}, 'v::linorder) Record) bloom_ops \<Rightarrow>
     ('k, 'v) MemISAM option list \<Rightarrow> ('k, 'v) MemISAM res" where
  "mi_of_shards c pick B shards =
     (case build_cursor_vec mi_data mi_reccnt mi_tombstone_cnt shards of (cursors, _, _) \<Rightarrow>
      bindE (sorted_array_merge pick B cursors None) (mi_finish c))"

section \<open>Searches\<close>

text \<open>
  One node: the first child whose separator satisfies the stop test, or that is followed by an unused
  slot; the last slot if there is none.
\<close>

fun mi_scan :: "('k \<Rightarrow> bool) \<Rightarrow> 'k mi_node \<Rightarrow> child_ptr option" where
  "mi_scan st (e # e' # es) = (if snd e' = None \<or> st (fst e) then snd e else mi_scan st (e' # es))"
| "mi_scan st _ = None"

definition mi_next :: "('k \<Rightarrow> bool) \<Rightarrow> 'k mi_node \<Rightarrow> child_ptr option" where
  "mi_next st nd = (case mi_scan st nd of Some p \<Rightarrow> Some p | None \<Rightarrow> if nd = [] then None else snd (last nd))"

text \<open>The descent to a leaf; \<open>fuel\<close> bounds the number of nodes visited.\<close>

fun mi_descend :: "('k \<Rightarrow> bool) \<Rightarrow> ('k, 'v) MemISAM \<Rightarrow> nat \<Rightarrow> child_ptr option \<Rightarrow> nat res" where
  "mi_descend st s fuel None = Inl NullDeref"
| "mi_descend st s fuel (Some (LeafPtr i)) = (if i < mi_reccnt s then Inr i else Inl OutOfBounds)"
| "mi_descend st s 0 (Some (NodePtr q)) = Inl Blocked"
| "mi_descend st s (Suc fuel) (Some (NodePtr q)) =
     bindE (vec_get (mi_nodes s) q) (\<lambda>nd. mi_descend st s fuel (mi_next st nd))"

definition mi_bound :: "('k \<Rightarrow> bool) \<Rightarrow> ('k, 'v) MemISAM \<Rightarrow> nat res" where
  "mi_bound st s =
     bindE (mi_descend st s (Suc (length (mi_nodes s))) (map_option NodePtr (mi_root s))) (\<lambda>p.
     Inr (p + first_pos (\<lambda>w. st (key (rec w))) (drop p (mi_data s))))"

definition mi_get_lower_bound :: "('k::linorder, 'v) MemISAM \<Rightarrow> 'k \<Rightarrow> nat res" where
  "mi_get_lower_bound s k = mi_bound (\<lambda>k'. k \<le> k') s"

definition mi_get_upper_bound :: "('k::linorder, 'v) MemISAM \<Rightarrow> 'k \<Rightarrow> nat res" where
  "mi_get_upper_bound s k = mi_bound (\<lambda>k'. k < k') s"

definition mi_get_record_at :: "('k, 'v) MemISAM \<Rightarrow> nat \<Rightarrow> ('k, 'v) Record Wrapped option" where
  "mi_get_record_at s idx = (if idx < mi_reccnt s then Some (mi_data s ! idx) else None)"

definition mi_point_lookup ::
    "('k::linorder, 'v::linorder) MemISAM \<Rightarrow> ('k, 'v) Record \<Rightarrow> bool \<Rightarrow> ('k, 'v) Record Wrapped option res" where
  "mi_point_lookup s r use_filter =
     (if use_filter then Inl NullDeref else bindE (mi_get_lower_bound s (key r)) (scan_from (mi_data s) r))"

section \<open>The tree over the records\<close>

text \<open>
  Chunk \<open>j\<close> is the records from \<open>j * lf\<close> on. A tree over the chunks \<open>lo \<dots> hi\<close> has, for each child but
  the last, the largest key \<open>mk\<close> of the child's last chunk as separator.
\<close>

fun ptr_below :: "child_ptr \<Rightarrow> nat \<Rightarrow> bool" where
  "ptr_below (LeafPtr i) q = True"
| "ptr_below (NodePtr p) q = (p < q)"

inductive mi_tree :: "nat \<Rightarrow> 'k::zero mi_node list \<Rightarrow> (nat \<Rightarrow> 'k) \<Rightarrow> child_ptr \<Rightarrow> nat \<Rightarrow> nat \<Rightarrow> bool"
  for lf :: nat and nodes :: "'k mi_node list" and mk :: "nat \<Rightarrow> 'k" where
  leaf: "mi_tree lf nodes mk (LeafPtr (j * lf)) j j"
| node: "q < length nodes \<Longrightarrow> nodes ! q = es @ replicate z (0, None) \<Longrightarrow> es \<noteq> [] \<Longrightarrow>
    (\<And>i. i < length es \<Longrightarrow> b i < b (Suc i) \<and> snd (es ! i) = Some (cp i) \<and> ptr_below (cp i) q \<and>
       (Suc i < length es \<longrightarrow> fst (es ! i) = mk (b (Suc i) - 1)) \<and> mi_tree lf nodes mk (cp i) (b i) (b (Suc i) - 1)) \<Longrightarrow>
    mi_tree lf nodes mk (NodePtr q) (b 0) (b (length es) - 1)"

lemma mi_tree_frame: "mi_tree lf nodes mk p lo hi \<Longrightarrow> mi_tree lf (nodes @ nds) mk p lo hi"
proof (induction rule: mi_tree.induct)
  case (node q es z b cp)
  then show ?case by (intro mi_tree.node [of q _ es z b cp]) (auto simp: nth_append)
qed (rule mi_tree.leaf)

definition mi_level :: "mi_cfg \<Rightarrow> 'k::zero mi_node list \<Rightarrow> (nat \<Rightarrow> 'k) \<Rightarrow> (nat \<Rightarrow> nat) \<Rightarrow> nat \<Rightarrow> nat \<Rightarrow> bool" where
  "mi_level c nodes mk b lo hi \<longleftrightarrow> (\<forall>q. lo \<le> q \<and> q < hi \<longrightarrow> b q < b (Suc q) \<and>
     mi_tree (MI_LEAF_FANOUT c) nodes mk (NodePtr q) (b q) (b (Suc q) - 1) \<and>
     (Suc q < hi \<longrightarrow> last_sep c nodes q = mk (b (Suc q) - 1)))"

lemma mi_level_frame:
  assumes "mi_level c nodes mk b lo hi" and "hi \<le> length nodes"
  shows "mi_level c (nodes @ nds) mk b lo hi"
  using assms unfolding mi_level_def last_sep_def
  by (auto simp: nth_append intro: mi_tree_frame)

text \<open>The node that a step of either construction loop appends.\<close>

lemma mi_new_node:
  assumes "0 < m" and "m \<le> MI_INTERNAL_FANOUT c" and "es = map f [0..<m]"
    and kid: "\<And>i. i < m \<Longrightarrow> b i < b (Suc i) \<and> snd (f i) = Some (cp i) \<and> ptr_below (cp i) (length nodes) \<and>
       (Suc i < m \<longrightarrow> fst (f i) = mk (b (Suc i) - 1)) \<and> mi_tree (MI_LEAF_FANOUT c) nodes mk (cp i) (b i) (b (Suc i) - 1)"
  shows "b 0 < b m" and "mi_tree (MI_LEAF_FANOUT c) (nodes @ [pad_node c es]) mk (NodePtr (length nodes)) (b 0) (b m - 1)"
    and "m = MI_INTERNAL_FANOUT c \<Longrightarrow> last_sep c (nodes @ [pad_node c es]) (length nodes) = fst (f (m - 1))"
proof -
  have "b 0 < b j" if "0 < j" "j \<le> m" for j
    using that
  proof (induction j)
    case (Suc j)
    then show ?case using kid [of j] by (cases "j = 0") auto
  qed simp
  then show "b 0 < b m" using assms(1) by simp
  have es: "length es = m" "\<And>i. i < m \<Longrightarrow> es ! i = f i" using assms(3) by simp_all
  have "mi_tree (MI_LEAF_FANOUT c) (nodes @ [pad_node c es]) mk (NodePtr (length nodes)) (b 0) (b (length es) - 1)"
  proof (rule mi_tree.node [where es = es and z = "MI_INTERNAL_FANOUT c - length es" and cp = cp])
    show "b i < b (Suc i) \<and> snd (es ! i) = Some (cp i) \<and> ptr_below (cp i) (length nodes) \<and>
        (Suc i < length es \<longrightarrow> fst (es ! i) = mk (b (Suc i) - 1)) \<and>
        mi_tree (MI_LEAF_FANOUT c) (nodes @ [pad_node c es]) mk (cp i) (b i) (b (Suc i) - 1)" if "i < length es" for i
      using kid [of i] that es mi_tree_frame by auto
  qed (use assms(1) es(1) in \<open>auto simp: pad_node_def\<close>)
  then show "mi_tree (MI_LEAF_FANOUT c) (nodes @ [pad_node c es]) mk (NodePtr (length nodes)) (b 0) (b m - 1)" using es(1) by simp
  show "last_sep c (nodes @ [pad_node c es]) (length nodes) = fst (f (m - 1))" if "m = MI_INTERNAL_FANOUT c"
    using that es assms(1) by (simp add: last_sep_def pad_node_def)
qed

text \<open>A level grows by a node and stays a level.\<close>

lemma mi_level_Cons:
  assumes "mi_level c nodes mk b (Suc q) hi" and "x < b (Suc q)" and "mi_tree (MI_LEAF_FANOUT c) nodes mk (NodePtr q) x (b (Suc q) - 1)"
    and "Suc q < hi \<Longrightarrow> last_sep c nodes q = mk (b (Suc q) - 1)"
  shows "mi_level c nodes mk (b(q := x)) q hi"
  unfolding mi_level_def
proof (intro allI impI)
  fix q' assume q': "q \<le> q' \<and> q' < hi"
  show "(b(q := x)) q' < (b(q := x)) (Suc q') \<and>
      mi_tree (MI_LEAF_FANOUT c) nodes mk (NodePtr q') ((b(q := x)) q') ((b(q := x)) (Suc q') - 1) \<and>
      (Suc q' < hi \<longrightarrow> last_sep c nodes q' = mk ((b(q := x)) (Suc q') - 1))"
  proof (cases "q' = q")
    case False
    then show ?thesis using q' assms(1) unfolding mi_level_def by auto
  qed (use assms in simp)
qed

section \<open>What the construction builds\<close>

lemma ceil_div_step: "0 < n \<Longrightarrow> 0 < m \<Longrightarrow> ceil_div n m = Suc (ceil_div (n - min m n) m)"
  using ceil_div_add [of m "n - m"] ceil_div_small [of n m] by (cases "m \<le> n") (auto simp: ceil_div_def [of 0])

lemma ceil_div_minus: "0 < m \<Longrightarrow> ceil_div (n - j * m) m = ceil_div n m - j"
proof (induction j arbitrary: n)
  case (Suc j)
  show ?case
  proof (cases "n = 0")
    case False
    have "n - min m n = n - m" "n - Suc j * m = (n - m) - j * m" by simp_all
    then show ?thesis using Suc.IH [of "n - m"] Suc.prems ceil_div_step [of n m] False by simp
  qed (simp add: ceil_div_def)
qed simp

definition mi_chunks :: "mi_cfg \<Rightarrow> 'a list \<Rightarrow> nat" where
  "mi_chunks c ws = ceil_div (length ws) (MI_LEAF_FANOUT c)"

definition mi_sep :: "mi_cfg \<Rightarrow> ('k, 'v) Record Wrapped list \<Rightarrow> nat \<Rightarrow> 'k" where
  "mi_sep c ws j = key (rec (ws ! (min (Suc j * MI_LEAF_FANOUT c) (length ws) - 1)))"

lemma mi_chunks_iff: "0 < MI_LEAF_FANOUT c \<Longrightarrow> j < mi_chunks c ws \<longleftrightarrow> j * MI_LEAF_FANOUT c < length ws"
  using ceil_div_le_iff [of "MI_LEAF_FANOUT c" "length ws" j] by (metis mi_chunks_def not_le)

lemma mi_bottom_level_ok:
  assumes "0 < MI_INTERNAL_FANOUT c" and "0 < MI_LEAF_FANOUT c" and "base = j * MI_LEAF_FANOUT c" and "j \<le> mi_chunks c ws"
    and "length nodes + ceil_div (mi_chunks c ws - j) (MI_INTERNAL_FANOUT c) \<le> cap"
  shows "\<exists>new b. mi_bottom_level c cap ws base nodes = Inr (nodes @ new) \<and>
    length new = ceil_div (mi_chunks c ws - j) (MI_INTERNAL_FANOUT c) \<and>
    mi_level c (nodes @ new) (mi_sep c ws) b (length nodes) (length nodes + length new) \<and>
    b (length nodes) = j \<and> b (length nodes + length new) = mi_chunks c ws"
  using assms
proof (induction c cap ws base nodes arbitrary: j rule: mi_bottom_level.induct)
  case (1 c cap ws base nodes)
  let ?F = "MI_INTERNAL_FANOUT c" and ?L = "MI_LEAF_FANOUT c" and ?J = "mi_chunks c ws"
  show ?case
  proof (cases "base \<ge> length ws")
    case True
    then have "?J = j" using mi_chunks_iff [OF "1.prems"(2), of j ws] "1.prems"(3,4) by simp
    then show ?thesis using True by (intro exI [of _ "[]"] exI [of _ "\<lambda>_. j"]) (simp add: mi_bottom_level.simps mi_level_def ceil_div_def)
  next
    case False
    have jJ: "j < ?J" using mi_chunks_iff [OF "1.prems"(2), of j ws] "1.prems"(3) False by simp
    have g: "\<not> (?F = 0 \<or> ?L = 0)" using "1.prems"(1,2) by simp
    have cd: "ceil_div (length ws - base) ?L = ?J - j" using ceil_div_minus [OF "1.prems"(2)] "1.prems"(3) by (simp add: mi_chunks_def)
    define m where "m = min ?F (ceil_div (length ws - base) ?L)"
    define f where "f = (\<lambda>i. let p = base + ?L * i in (key (rec (ws ! min (p + ?L - 1) (length ws - 1))), Some (LeafPtr p)))"
    define es where "es = map f [0..<m]"
    define nd where "nd = pad_node c es"
    have m: "0 < m" "m \<le> ?F" "j + m \<le> ?J" "m = min ?F (?J - j)" using jJ g cd by (auto simp: m_def)
    have cs: "ceil_div (?J - j) ?F = Suc (ceil_div (?J - (j + m)) ?F)"
      using ceil_div_step [of "?J - j" ?F] jJ "1.prems"(1) m(4) by (simp add: diff_diff_add del: min_less_iff_conj)
    have put: "put_node cap nodes nd = Inr (nodes @ [nd])" using "1.prems"(5) cs by (simp add: put_node_def)
    have b2: "base + m * ?L = (j + m) * ?L" using "1.prems"(3) by (simp add: add_mult_distrib)
    obtain new b where IH: "mi_bottom_level c cap ws (base + m * ?L) (nodes @ [nd]) = Inr (nodes @ [nd] @ new)"
        "length new = ceil_div (?J - (j + m)) ?F"
        "mi_level c (nodes @ [nd] @ new) (mi_sep c ws) b (Suc (length nodes)) (Suc (length nodes) + length new)"
        "b (Suc (length nodes)) = j + m" "b (Suc (length nodes) + length new) = ?J"
      using "1.IH" [OF False g m_def es_def [unfolded f_def] "1.prems"(1,2) b2 m(3), of "nodes @ [nd]"] "1.prems"(5) cs by auto
    have fst_f: "fst (f i) = mi_sep c ws (j + i)" for i
    proof -
      have "min (base + ?L * i + ?L - 1) (length ws - 1) = min (Suc (j + i) * ?L) (length ws) - 1"
        using False "1.prems"(2,3) by (simp add: min_diff algebra_simps)
      then show ?thesis by (simp only: f_def mi_sep_def Let_def fst_conv)
    qed
    have kid: "j + i < j + Suc i \<and> snd (f i) = Some (LeafPtr ((j + i) * ?L)) \<and> ptr_below (LeafPtr ((j + i) * ?L)) (length nodes) \<and>
       (Suc i < m \<longrightarrow> fst (f i) = mi_sep c ws (j + Suc i - 1)) \<and>
       mi_tree ?L nodes (mi_sep c ws) (LeafPtr ((j + i) * ?L)) (j + i) (j + Suc i - 1)" for i
      using fst_f [of i] mi_tree.leaf [of ?L nodes "mi_sep c ws" "j + i"] "1.prems"(3) by (simp add: f_def Let_def algebra_simps)
    note nn = mi_new_node [where f = f and b = "\<lambda>i. j + i" and cp = "\<lambda>i. LeafPtr ((j + i) * ?L)" and nodes = nodes and mk = "mi_sep c ws",
        OF m(1,2) es_def kid, folded nd_def]
    have tree: "mi_tree ?L (nodes @ [nd] @ new) (mi_sep c ws) (NodePtr (length nodes)) j (b (Suc (length nodes)) - 1)"
      using mi_tree_frame [OF nn(2), of new] IH(4) by simp
    have "last_sep c (nodes @ [nd] @ new) (length nodes) = mi_sep c ws (b (Suc (length nodes)) - 1)" if "new \<noteq> []"
    proof -
      have "j + m < ?J" using that IH(2) by (cases "?J - (j + m) = 0") (auto simp: ceil_div_def)
      then have mF: "m = ?F" using m(4) by simp
      have "last_sep c (nodes @ [nd] @ new) (length nodes) = last_sep c (nodes @ [nd]) (length nodes)"
        by (simp add: last_sep_def nth_append)
      also have "\<dots> = mi_sep c ws (j + m - 1)" using nn(3) [OF mF] fst_f [of "m - 1"] m(1) by simp
      finally show ?thesis using IH(4) by simp
    qed
    moreover define b' where "b' = b(length nodes := j)"
    ultimately have "mi_level c (nodes @ [nd] @ new) (mi_sep c ws) b' (length nodes) (Suc (length nodes) + length new)"
      unfolding b'_def
      using IH(4) m(1) tree by (intro mi_level_Cons [OF IH(3)]) auto
    moreover have "mi_bottom_level c cap ws base nodes = Inr (nodes @ [nd] @ new)"
      using False g put IH(1) by (subst mi_bottom_level.simps) (simp add: Let_def m_def nd_def es_def f_def)
    moreover have "b' (length nodes) = j" "b' (Suc (length nodes) + length new) = ?J" using IH(5) by (simp_all add: b'_def)
    ultimately show ?thesis
      using IH(2) cs by (intro exI [of _ "nd # new"] exI [of _ b']) simp
  qed
qed

lemma mi_upper_level_ok:
  assumes "2 \<le> MI_INTERNAL_FANOUT c" and "mi_level c nodes mk b now stop" and "now \<le> stop" and "stop \<le> length nodes"
    and "length nodes + ceil_div (stop - now) (MI_INTERNAL_FANOUT c) \<le> cap"
  shows "\<exists>new b'. mi_upper_level c cap now stop nodes = Inr (nodes @ new) \<and>
    length new = ceil_div (stop - now) (MI_INTERNAL_FANOUT c) \<and>
    mi_level c (nodes @ new) mk b' (length nodes) (length nodes + length new) \<and>
    b' (length nodes) = b now \<and> b' (length nodes + length new) = b stop"
  using assms
proof (induction c cap now stop nodes rule: mi_upper_level.induct)
  case (1 c cap now stop nodes)
  let ?F = "MI_INTERNAL_FANOUT c" and ?L = "MI_LEAF_FANOUT c"
  show ?case
  proof (cases "now \<ge> stop")
    case True
    then show ?thesis using "1.prems"(3)
      by (intro exI [of _ "[]"] exI [of _ "\<lambda>_. b now"]) (simp add: mi_upper_level.simps mi_level_def ceil_div_def)
  next
    case False
    have F: "?F \<noteq> 0" using "1.prems"(1) by simp
    define m where "m = min ?F (stop - now)"
    define cc where "cc = (if m < ?F then Suc m else m)"
    define es where "es = map (\<lambda>q. (last_sep c nodes q, Some (NodePtr q))) [now..<now + m]"
    define nd where "nd = pad_node c es"
    define f where "f i = (last_sep c nodes (now + i), Some (NodePtr (now + i)))" for i
    have m: "0 < m" "m \<le> ?F" "now + m \<le> stop" "now + m < stop \<longrightarrow> m = ?F" using F False by (auto simp: m_def)
    have lv: "b q < b (Suc q)" "mi_tree ?L nodes mk (NodePtr q) (b q) (b (Suc q) - 1)" "Suc q < stop \<longrightarrow> last_sep c nodes q = mk (b (Suc q) - 1)"
      if "now \<le> q" "q < stop" for q using "1.prems"(2) that unfolding mi_level_def by blast+
    have cs: "ceil_div (stop - now) ?F = Suc (ceil_div (stop - (now + m)) ?F)"
      using ceil_div_step [of "stop - now" ?F] False F by (simp add: m_def)
    have put: "put_node cap nodes nd = Inr (nodes @ [nd])" using "1.prems"(5) cs by (simp add: put_node_def)
    have "\<exists>new b'. mi_upper_level c cap (now + cc) stop (nodes @ [nd]) = Inr (nodes @ [nd] @ new) \<and>
        length new = ceil_div (stop - (now + m)) ?F \<and>
        mi_level c (nodes @ [nd] @ new) mk b' (Suc (length nodes)) (Suc (length nodes) + length new) \<and>
        b' (Suc (length nodes)) = b (now + m) \<and> b' (Suc (length nodes) + length new) = b stop"
    proof (cases "now + m < stop")
      case True
      then have "cc = m" using m(4) by (simp add: cc_def)
      moreover have "mi_level c (nodes @ [nd]) mk b (now + m) stop"
        using "1.prems"(4) mi_level_frame [of c nodes mk b "now + m" stop "[nd]"] "1.prems"(2) unfolding mi_level_def by simp
      ultimately show ?thesis
        using "1.IH" [OF False F m_def cc_def es_def, of "nodes @ [nd]"] m(3) "1.prems"(1,4,5) cs by auto
    next
      case nlt: False
      then have "now + m = stop" "stop \<le> now + cc" using m(3) by (auto simp: cc_def)
      then show ?thesis
        by (intro exI [of _ "[]"] exI [of _ "\<lambda>_. b stop"]) (simp add: mi_upper_level.simps mi_level_def ceil_div_def)
    qed
    then obtain new b1 where IH: "mi_upper_level c cap (now + cc) stop (nodes @ [nd]) = Inr (nodes @ [nd] @ new)"
        "length new = ceil_div (stop - (now + m)) ?F"
        "mi_level c (nodes @ [nd] @ new) mk b1 (Suc (length nodes)) (Suc (length nodes) + length new)"
        "b1 (Suc (length nodes)) = b (now + m)" "b1 (Suc (length nodes) + length new) = b stop" by blast
    have es: "es = map f [0..<m]" by (rule nth_equalityI) (simp_all add: es_def f_def)
    have kid: "b (now + i) < b (now + Suc i) \<and> snd (f i) = Some (NodePtr (now + i)) \<and> ptr_below (NodePtr (now + i)) (length nodes) \<and>
       (Suc i < m \<longrightarrow> fst (f i) = mk (b (now + Suc i) - 1)) \<and>
       mi_tree ?L nodes mk (NodePtr (now + i)) (b (now + i)) (b (now + Suc i) - 1)" if "i < m" for i
      using lv [of "now + i"] that m(3) "1.prems"(4) by (simp add: f_def)
    note nn = mi_new_node [where f = f and b = "\<lambda>i. b (now + i)" and cp = "\<lambda>i. NodePtr (now + i)" and nodes = nodes and mk = mk,
        OF m(1,2) es kid, folded nd_def]
    have tree: "mi_tree ?L (nodes @ [nd] @ new) mk (NodePtr (length nodes)) (b now) (b1 (Suc (length nodes)) - 1)"
      using mi_tree_frame [OF nn(2), of new] IH(4) by simp
    have "last_sep c (nodes @ [nd] @ new) (length nodes) = mk (b1 (Suc (length nodes)) - 1)" if "new \<noteq> []"
    proof -
      have lt: "now + m < stop" using that IH(2) by (cases "stop - (now + m) = 0") (auto simp: ceil_div_def)
      have "last_sep c (nodes @ [nd] @ new) (length nodes) = last_sep c (nodes @ [nd]) (length nodes)"
        by (simp add: last_sep_def nth_append)
      also have "\<dots> = mk (b (now + m) - 1)"
      proof -
        have mF: "m = ?F" "Suc (now + (m - 1)) = now + m" using lt m(1,4) by simp_all
        then have "last_sep c nodes (now + (m - 1)) = mk (b (now + m) - 1)" using lv(3) [of "now + (m - 1)"] lt m(1) by simp
        then show ?thesis using nn(3) [OF _ mF(1)] by (simp only: f_def fst_conv)
      qed
      finally show ?thesis using IH(4) by simp
    qed
    moreover define b' where "b' = b1(length nodes := b now)"
    ultimately have "mi_level c (nodes @ [nd] @ new) mk b' (length nodes) (Suc (length nodes) + length new)"
      unfolding b'_def using IH(4) nn(1) tree by (intro mi_level_Cons [OF IH(3)]) auto
    moreover have "mi_upper_level c cap now stop nodes = Inr (nodes @ [nd] @ new)"
      using False F put IH(1) by (subst mi_upper_level.simps)
        (simp add: Let_def m_def [symmetric] cc_def [symmetric] es_def [symmetric] nd_def [symmetric] del: upt_Suc split del: if_split)
    moreover have "b' (length nodes) = b now" "b' (Suc (length nodes) + length new) = b stop" using IH(5) by (simp_all add: b'_def)
    ultimately show ?thesis
      using IH(2) cs by (intro exI [of _ "nd # new"] exI [of _ b']) simp
  qed
qed

lemma mi_upper_levels_ok:
  assumes "2 \<le> MI_INTERNAL_FANOUT c" and "mi_level c nodes mk b start (length nodes)" and "start < length nodes"
    and "1 < length nodes - start \<Longrightarrow> \<exists>t. mi_node_cnt c (length nodes - start) = Inr t \<and> length nodes + t \<le> cap"
  shows "\<exists>root nodes'. mi_upper_levels c cap start nodes = Inr (root, nodes') \<and>
    mi_tree (MI_LEAF_FANOUT c) nodes' mk (NodePtr root) (b start) (b (length nodes) - 1) \<and> root < length nodes'"
  using assms
proof (induction c cap start nodes arbitrary: b rule: mi_upper_levels.induct)
  case (1 c cap start nodes)
  let ?F = "MI_INTERNAL_FANOUT c" and ?N = "length nodes - start"
  show ?case
  proof (cases "?N \<le> 1")
    case True
    then have "?N = 1" "length nodes = Suc start" using "1.prems"(3) by simp_all
    then show ?thesis using "1.prems"(2) unfolding mi_level_def by (subst mi_upper_levels.simps) simp
  next
    case False
    have F: "\<not> ?F < 2" using "1.prems"(1) by simp
    obtain t where t: "mi_node_cnt c ?N = Inr t" "length nodes + t \<le> cap" using "1.prems"(4) False by auto
    let ?n = "ceil_div ?N ?F"
    have n: "0 < ?n" using ceil_div_step [of ?N ?F] False F by simp
    have tn: "if ?n > 1 then \<exists>t'. mi_node_cnt c ?n = Inr t' \<and> t = ?n + t' else t = ?n"
      using t(1) F by (subst (asm) mi_node_cnt.simps) (auto simp: Let_def split: if_splits)
    then have "length nodes + ?n \<le> cap" using t(2) by (auto split: if_splits)
    then obtain new b1 where new: "mi_upper_level c cap start (length nodes) nodes = Inr (nodes @ new)" "length new = ?n"
        "mi_level c (nodes @ new) mk b1 (length nodes) (length nodes + length new)" "b1 (length nodes) = b start"
        "b1 (length nodes + length new) = b (length nodes)"
      using mi_upper_level_ok [OF "1.prems"(1,2) less_imp_le [OF "1.prems"(3)] order.refl] by blast
    have "\<exists>root nodes'. mi_upper_levels c cap (length nodes) (nodes @ new) = Inr (root, nodes') \<and>
        mi_tree (MI_LEAF_FANOUT c) nodes' mk (NodePtr root) (b1 (length nodes)) (b1 (length (nodes @ new)) - 1) \<and> root < length nodes'"
    proof (rule "1.IH" [OF False F new(1) "1.prems"(1)])
      show "mi_level c (nodes @ new) mk b1 (length nodes) (length (nodes @ new))" using new(3) by simp
      show "length nodes < length (nodes @ new)" using n new(2) by simp
      show "\<exists>t. mi_node_cnt c (length (nodes @ new) - length nodes) = Inr t \<and> length (nodes @ new) + t \<le> cap"
        if "1 < length (nodes @ new) - length nodes"
        using that tn new(2) t(2) by auto
    qed
    then show ?thesis using new(1,2,4,5) False F by (subst mi_upper_levels.simps) simp
  qed
qed

lemma mi_node_cnt_ok:
  assumes "2 \<le> MI_INTERNAL_FANOUT c"
  shows "\<exists>t. mi_node_cnt c n = Inr t \<and> ceil_div n (MI_INTERNAL_FANOUT c) \<le> t \<and>
    (1 < ceil_div n (MI_INTERNAL_FANOUT c) \<longrightarrow>
      (\<exists>t'. mi_node_cnt c (ceil_div n (MI_INTERNAL_FANOUT c)) = Inr t' \<and> t = ceil_div n (MI_INTERNAL_FANOUT c) + t'))"
  using assms
proof (induction c n rule: mi_node_cnt.induct)
  case (1 c n)
  then show ?case by (subst mi_node_cnt.simps) (auto simp: Let_def)
qed

definition mi_cfg_ok :: "mi_cfg \<Rightarrow> bool" where
  "mi_cfg_ok c \<longleftrightarrow> 2 \<le> MI_INTERNAL_FANOUT c \<and> 0 < MI_LEAF_FANOUT c"

lemma mi_build_internal_levels_ok:
  assumes "mi_cfg_ok c" and "ws \<noteq> []"
  shows "\<exists>nodes root. mi_build_internal_levels c ws = Inr (nodes, root) \<and>
    mi_tree (MI_LEAF_FANOUT c) nodes (mi_sep c ws) (NodePtr root) 0 (mi_chunks c ws - 1) \<and> root < length nodes"
proof -
  let ?F = "MI_INTERNAL_FANOUT c"
  have c: "2 \<le> ?F" "0 < ?F" "0 < MI_LEAF_FANOUT c" using assms(1) by (auto simp: mi_cfg_ok_def)
  obtain t where t: "mi_node_cnt c (mi_chunks c ws) = Inr t" "ceil_div (mi_chunks c ws) ?F \<le> t"
      "1 < ceil_div (mi_chunks c ws) ?F \<Longrightarrow> \<exists>t'. mi_node_cnt c (ceil_div (mi_chunks c ws) ?F) = Inr t' \<and> t = ceil_div (mi_chunks c ws) ?F + t'"
    using mi_node_cnt_ok [OF c(1), of "mi_chunks c ws"] by blast
  obtain nodes b where n: "mi_bottom_level c t ws 0 [] = Inr nodes" "length nodes = ceil_div (mi_chunks c ws) ?F"
      "mi_level c nodes (mi_sep c ws) b 0 (length nodes)" "b 0 = 0" "b (length nodes) = mi_chunks c ws"
    using mi_bottom_level_ok [OF c(2,3), of 0 0 ws "[]" t] t(2) by auto
  have "0 < mi_chunks c ws" using mi_chunks_iff [OF c(3), of 0 ws] assms(2) by simp
  then have "0 < length nodes" using ceil_div_le_iff [OF c(2), of "mi_chunks c ws" 0] n(2) by simp
  then obtain root nodes' where "mi_upper_levels c t 0 nodes = Inr (root, nodes')" "root < length nodes'"
      "mi_tree (MI_LEAF_FANOUT c) nodes' (mi_sep c ws) (NodePtr root) (b 0) (b (length nodes) - 1)"
    using mi_upper_levels_ok [OF c(1) n(3), of t] t(3) n(2) by auto
  then show ?thesis
    using t(1) n(1,4,5) c(3) by (simp add: mi_build_internal_levels_def mi_chunks_def)
qed

section \<open>Searching the tree\<close>

lemma mi_scan_finds:
  assumes "es \<noteq> []" and "\<forall>e\<in>set es. snd e \<noteq> None"
  shows "\<exists>i<length es. mi_next st (es @ replicate z (0, None)) = snd (es ! i) \<and> (\<forall>j<i. \<not> st (fst (es ! j))) \<and>
    (Suc i = length es \<or> st (fst (es ! i)))"
  using assms
proof (induction es)
  case (Cons e es)
  show ?case
  proof (cases es)
    case Nil
    then show ?thesis using Cons.prems by (cases z; cases "z - 1") (auto simp: mi_next_def split: option.splits)
  next
    case es: (Cons e' es')
    show ?thesis
    proof (cases "st (fst e)")
      case True
      then show ?thesis using Cons.prems es by (intro exI [of _ 0]) (auto simp: mi_next_def)
    next
      case False
      obtain i where i: "i < length es" "mi_next st (es @ replicate z (0, None)) = snd (es ! i)" "\<forall>j<i. \<not> st (fst (es ! j))"
          "Suc i = length es \<or> st (fst (es ! i))" using Cons es by auto
      have "mi_next st ((e # es) @ replicate z (0, None)) = mi_next st (es @ replicate z (0, None))"
        using False Cons.prems(2) by (auto simp: mi_next_def es split: option.split)
      then show ?thesis using i False by (intro exI [of _ "Suc i"]) (auto simp: less_Suc_eq_0_disj)
    qed
  qed
qed simp

text \<open>The search ends in the first chunk whose separator passes the test, or in the last one.\<close>

definition search_chunk :: "(nat \<Rightarrow> 'k) \<Rightarrow> ('k \<Rightarrow> bool) \<Rightarrow> nat \<Rightarrow> nat \<Rightarrow> nat \<Rightarrow> bool" where
  "search_chunk mk st lo hi n \<longleftrightarrow> lo \<le> n \<and> n \<le> hi \<and> (\<forall>j. lo \<le> j \<and> j < n \<longrightarrow> \<not> st (mk j)) \<and> (n = hi \<or> st (mk n))"

lemma mi_descend_tree:
  assumes "mi_tree lf (mi_nodes s) mk p lo hi" and "\<And>i j. lo \<le> i \<Longrightarrow> i \<le> j \<Longrightarrow> j \<le> hi \<Longrightarrow> st (mk i) \<Longrightarrow> st (mk j)"
    and "ptr_below p fuel" and "hi * lf < mi_reccnt s"
  shows "\<exists>n. mi_descend st s fuel (Some p) = Inr (n * lf) \<and> search_chunk mk st lo hi n"
  using assms
proof (induction arbitrary: fuel rule: mi_tree.induct)
  case (leaf j)
  then show ?case by (auto simp: search_chunk_def)
next
  case (node q es z b cp)
  obtain f where f: "fuel = Suc f" "q \<le> f" using node.prems(2) by (cases fuel) auto
  have kid: "b i < b (Suc i)" "snd (es ! i) = Some (cp i)" "ptr_below (cp i) q" "Suc i < length es \<Longrightarrow> fst (es ! i) = mk (b (Suc i) - 1)"
    if "i < length es" for i using node.IH [OF that] by blast+
  have ch: "\<forall>e\<in>set es. snd e \<noteq> None" using kid(2) by (metis in_set_conv_nth option.distinct(1))
  obtain i where i: "i < length es" "mi_next st (es @ replicate z (0, None)) = snd (es ! i)" "\<forall>j<i. \<not> st (fst (es ! j))"
      "Suc i = length es \<or> st (fst (es ! i))" using mi_scan_finds [OF node.hyps(3) ch] by blast
  have bm: "b u \<le> b v" if "u \<le> v" "v \<le> length es" for u v
    using that
  proof (induction rule: dec_induct)
    case (step m)
    then show ?case using kid(1) [of m] by simp
  qed simp
  note bi = bm [of 0 i, OF le0 less_imp_le [OF i(1)]] bm [of "Suc i" "length es", OF Suc_leI [OF i(1)] order.refl] kid(1) [OF i(1)]
  have pb: "ptr_below (cp i) f" using kid(3) [OF i(1)] f(2) by (cases "cp i") auto
  have "(b (Suc i) - 1) * lf \<le> (b (length es) - 1) * lf" using bi by (intro mult_le_mono1) simp
  then have last: "(b (Suc i) - 1) * lf < mi_reccnt s" using node.prems(3) by linarith
  have "\<exists>n. mi_descend st s f (Some (cp i)) = Inr (n * lf) \<and> search_chunk mk st (b i) (b (Suc i) - 1) n"
  proof (rule node.IH [OF i(1), THEN conjunct2, THEN conjunct2, THEN conjunct2, THEN conjunct2, THEN conjunct2, rule_format, OF _ pb last])
    show "st (mk v)" if "b i \<le> u" "u \<le> v" "v \<le> b (Suc i) - 1" "st (mk u)" for u v
      using that(1-3) bi by (intro node.prems(1) [OF _ _ _ that(4)]) linarith+
  qed
  then obtain n where n: "mi_descend st s f (Some (cp i)) = Inr (n * lf)" "search_chunk mk st (b i) (b (Suc i) - 1) n" by blast
  have below: "\<not> st (mk j)" if "b 0 \<le> j" "j < b i" for j
  proof
    assume "st (mk j)"
    have "i \<noteq> 0" using that by (metis leD)
    then obtain i' where i': "i = Suc i'" by (cases i) auto
    then have "\<not> st (mk (b i - 1))" using kid(4) [of i'] i(1,3) by auto
    moreover have "st (mk (b i - 1))"
      using that bi by (intro node.prems(1) [OF _ _ _ \<open>st (mk j)\<close>]) simp_all
    ultimately show False by simp
  qed
  have "search_chunk mk st (b 0) (b (length es) - 1) n"
    unfolding search_chunk_def
  proof (intro conjI allI impI)
    show "b 0 \<le> n" "n \<le> b (length es) - 1" using n(2) bi unfolding search_chunk_def by linarith+
    show "\<not> st (mk j)" if "b 0 \<le> j \<and> j < n" for j
      using that below n(2) unfolding search_chunk_def by (cases "j < b i") auto
    show "n = b (length es) - 1 \<or> st (mk n)"
    proof (cases "Suc i = length es")
      case True
      then show ?thesis using n(2) unfolding search_chunk_def by auto
    next
      case False
      then have "st (mk (b (Suc i) - 1))" using i(1,4) kid(4) by simp
      then show ?thesis using n(2) unfolding search_chunk_def by auto
    qed
  qed
  moreover have "mi_descend st s fuel (Some (NodePtr q)) = mi_descend st s f (Some (cp i))"
    using node.hyps(1,2) i(1,2) kid(2) f(1) by simp
  ultimately show ?case using n(1) by auto
qed

definition mi_inv :: "mi_cfg \<Rightarrow> ('k::{linorder,zero}, 'v::linorder) MemISAM \<Rightarrow> bool" where
  "mi_inv c s \<longleftrightarrow> rec_sorted (mi_data s) \<and>
     (case mi_root s of
        None \<Rightarrow> mi_data s = []
      | Some r \<Rightarrow> mi_data s \<noteq> [] \<and> r < length (mi_nodes s) \<and>
          mi_tree (MI_LEAF_FANOUT c) (mi_nodes s) (mi_sep c (mi_data s)) (NodePtr r) 0 (mi_chunks c (mi_data s) - 1))"

lemma mi_bound_ok:
  fixes s :: "('k::{linorder,zero}, 'v::linorder) MemISAM"
  assumes "mi_cfg_ok c" and "mi_inv c s" and "mi_data s \<noteq> []" and "\<And>x y. x \<le> y \<Longrightarrow> st x \<Longrightarrow> st y"
  shows "mi_bound st s = Inr (first_pos (\<lambda>w. st (key (rec w))) (mi_data s))"
proof -
  let ?L = "MI_LEAF_FANOUT c" and ?ws = "mi_data s" and ?J = "mi_chunks c (mi_data s)"
  have L: "0 < ?L" using assms(1) by (simp add: mi_cfg_ok_def)
  obtain r where r: "mi_root s = Some r" "r < length (mi_nodes s)" "rec_sorted ?ws"
      "mi_tree ?L (mi_nodes s) (mi_sep c ?ws) (NodePtr r) 0 (?J - 1)"
    using assms(2,3) by (auto simp: mi_inv_def split: option.splits)
  have ord: "key (rec (?ws ! i)) \<le> key (rec (?ws ! j))" if "i \<le> j" "j < length ?ws" for i j
    using that r(3) by (cases "i = j") (auto intro!: key_mono simp: sorted_wrt_iff_nth_less)
  have pos: "0 < length ?ws" using assms(3) by simp
  have J: "0 < ?J" using mi_chunks_iff [OF L, of 0 ?ws] assms(3) by simp
  have mono: "st (mi_sep c ?ws j)" if "i \<le> j" "st (mi_sep c ?ws i)" for i j
  proof -
    have "Suc i * ?L \<le> Suc j * ?L" using that(1) by (intro mult_le_mono1) simp
    then have "mi_sep c ?ws i \<le> mi_sep c ?ws j"
      unfolding mi_sep_def using pos by (intro ord diff_le_mono min.mono order.refl) linarith+
    then show ?thesis using that(2) assms(4) by blast
  qed
  have "(?J - 1) * ?L < mi_reccnt s" using mi_chunks_iff [OF L, of "?J - 1" ?ws] J by (simp add: mi_reccnt_def)
  then obtain n where n: "mi_descend st s (Suc (length (mi_nodes s))) (Some (NodePtr r)) = Inr (n * ?L)"
      "search_chunk (mi_sep c ?ws) st 0 (?J - 1) n"
    using mi_descend_tree [OF r(4), of st "Suc (length (mi_nodes s))"] mono r(2) by auto
  have "n < ?J" using n(2) J unfolding search_chunk_def by linarith
  then have nl: "n * ?L < length ?ws" using mi_chunks_iff [OF L] by blast
  have "first_pos (\<lambda>w. st (key (rec w))) (take (n * ?L) ?ws) = length (take (n * ?L) ?ws)"
  proof -
    have "\<not> st (key (rec (?ws ! i)))" if "i < n * ?L" for i
    proof
      assume st: "st (key (rec (?ws ! i)))"
      have "n \<noteq> 0" using that by (cases n) simp_all
      then obtain n' where n': "n = Suc n'" by (cases n) auto
      then have "\<not> st (mi_sep c ?ws n')" using n(2) unfolding search_chunk_def by auto
      moreover have "key (rec (?ws ! i)) \<le> mi_sep c ?ws n'"
        unfolding mi_sep_def using that nl unfolding n' by (intro ord) linarith+
      ultimately show False using st assms(4) by blast
    qed
    then have "\<forall>x\<in>set (take (n * ?L) ?ws). \<not> st (key (rec x))" by (auto simp: in_set_conv_nth)
    then show ?thesis using first_pos_less_iff [of "\<lambda>w. st (key (rec w))" "take (n * ?L) ?ws"] first_pos_le le_neq_implies_less by blast
  qed
  then have "first_pos (\<lambda>w. st (key (rec w))) ?ws = n * ?L + first_pos (\<lambda>w. st (key (rec w))) (drop (n * ?L) ?ws)"
    using first_pos_append [of "\<lambda>w. st (key (rec w))" "take (n * ?L) ?ws" "drop (n * ?L) ?ws"] nl by simp
  then show ?thesis unfolding mi_bound_def r(1) option.map(2) n(1) bindE_simps by simp
qed

lemma mi_lower_bound_ok:
  assumes "mi_cfg_ok c" and "mi_inv c s" and "mi_data s \<noteq> []"
  shows "mi_get_lower_bound s k = Inr (length (filter (\<lambda>w. key (rec w) < k) (mi_data s)))"
    and "mi_get_upper_bound s k = Inr (length (filter (\<lambda>w. key (rec w) \<le> k) (mi_data s)))"
proof -
  have "rec_sorted (mi_data s)" using assms(2) by (simp add: mi_inv_def)
  then have "sorted_wrt (\<lambda>a b. key (rec a) \<le> key (rec b)) (mi_data s)"
    by (rule sorted_wrt_mono_rel [rotated]) (rule key_mono)
  note fp = first_pos_filter [OF this, of k]
  show "mi_get_lower_bound s k = Inr (length (filter (\<lambda>w. key (rec w) < k) (mi_data s)))"
    unfolding mi_get_lower_bound_def fp(1) [symmetric] by (rule mi_bound_ok [OF assms]) (rule order_trans)
  show "mi_get_upper_bound s k = Inr (length (filter (\<lambda>w. key (rec w) \<le> k) (mi_data s)))"
    unfolding mi_get_upper_bound_def fp(2) [symmetric] by (rule mi_bound_ok [OF assms]) (rule less_le_trans)
qed

section \<open>The constructors\<close>

lemma mi_finish_ok:
  assumes "mi_cfg_ok c" and "shard_data_ok B src bf out"
  shows "\<exists>s. mi_finish c out = Inr s \<and> mi_inv c s \<and> net (mi_data s) = net src \<and>
    mi_tombstone_cnt s = length (filter is_tombstone (mi_data s)) \<and> length (mi_data s) \<le> length src"
proof -
  obtain info ws bf' where out: "out = (info, ws, bf')" using prod_cases3 by blast
  have ok: "record_count info = length ws" "tombstone_count info = length (filter is_tombstone ws)" "rec_sorted ws" "net ws = net src"
      "length ws \<le> length src" using assms(2) by (simp_all add: shard_data_ok_def out)
  show ?thesis
  proof (cases "ws = []")
    case True
    then show ?thesis using ok out by (simp add: mi_finish_def mi_inv_def)
  next
    case False
    obtain nodes root where "mi_build_internal_levels c ws = Inr (nodes, root)" "root < length nodes"
        "mi_tree (MI_LEAF_FANOUT c) nodes (mi_sep c ws) (NodePtr root) 0 (mi_chunks c ws - 1)"
      using mi_build_internal_levels_ok [OF assms(1) False] by blast
    then show ?thesis using False ok out by (simp add: mi_finish_def mi_inv_def)
  qed
qed

lemma mi_of_view_ok:
  assumes "mi_cfg_ok c" and "view_wf v" and "policy_ok (view_list v)"
  shows "\<exists>s. mi_of_view c B v = Inr s \<and> mi_inv c s \<and> net (mi_data s) = net (view_list v) \<and>
    mi_tombstone_cnt s = length (filter is_tombstone (mi_data s)) \<and> length (mi_data s) \<le> length (view_list v)"
  using sorted_array_from_bufferview_ok [OF assms(2,3), of B None] mi_finish_ok [OF assms(1)]
  by (auto simp: mi_of_view_def)

lemma mi_of_shards_ok:
  assumes "mi_cfg_ok c" and "min_pick (\<lambda>e. wkey_of (fst e)) pick" and "\<forall>s\<in>set ss. mi_inv c s \<and> mi_data s \<noteq> []"
    and "policy_ok (concat (map mi_data ss))"
  shows "\<exists>s. mi_of_shards c pick B (map Some ss) = Inr s \<and> mi_inv c s \<and> net (mi_data s) = net (concat (map mi_data ss)) \<and>
    mi_tombstone_cnt s = length (filter is_tombstone (mi_data s)) \<and> length (mi_data s) \<le> length (concat (map mi_data ss))"
proof -
  have "\<forall>s\<in>set ss. rec_sorted (mi_data s) \<and> mi_data s \<noteq> []" using assms(3) by (simp add: mi_inv_def)
  from merge_shards_ok [OF assms(2) this assms(4), of B mi_tombstone_cnt None]
  obtain out where out: "sorted_array_merge pick B (fst (build_cursor_vec mi_data mi_reccnt mi_tombstone_cnt (map Some ss))) None = Inr out"
      "shard_data_ok B (concat (map mi_data ss)) None out" by (auto simp: mi_reccnt_def [abs_def])
  show ?thesis using mi_finish_ok [OF assms(1) out(2)] out(1) by (simp add: mi_of_shards_def case_prod_unfold)
qed


text \<open>A tree that holds records is a sorted shard.\<close>

definition mi_ready :: "mi_cfg \<Rightarrow> ('k::{linorder,zero}, 'v::linorder) MemISAM \<Rightarrow> bool" where
  "mi_ready c s \<longleftrightarrow> mi_cfg_ok c \<and> mi_inv c s \<and> mi_data s \<noteq> []"

interpretation mi: sorted_shard mi_data mi_get_lower_bound "mi_ready c" for c
proof
  fix s :: "('k::{linorder,zero}, 'v::linorder) MemISAM" and k
  assume s: "mi_ready c s"
  then show srt: "rec_sorted (mi_data s)" by (simp add: mi_ready_def mi_inv_def)
  have lb: "mi_get_lower_bound s k = Inr (length (filter (\<lambda>w. key (rec w) < k) (mi_data s)))"
    using s by (intro mi_lower_bound_ok(1) [of c]) (simp_all add: mi_ready_def)
  have fp: "length (filter (\<lambda>w. key (rec w) < k) (mi_data s)) = first_pos (\<lambda>w. k \<le> key (rec w)) (mi_data s)"
    by (intro first_pos_filter(1) [symmetric] sorted_wrt_mono_rel [OF _ srt] key_mono)
  show "\<exists>i. mi_get_lower_bound s k = Inr i \<and> i \<le> length (mi_data s) \<and> (\<forall>j<i. key (rec (mi_data s ! j)) < k)"
    using lb first_pos_before [of _ "\<lambda>w. k \<le> key (rec w)" "mi_data s"] by (auto simp: fp not_le)
  assume "\<forall>w\<in>set (mi_data s). key (rec w) < k"
  then show "mi_get_lower_bound s k = Inr (length (mi_data s))" using lb by simp
qed

section \<open>Properties\<close>

text \<open>
  C24. An in-memory tree built from a buffer view never overflows its node array, keeps the net
  records of the view in sorted order, and its searches return the number of records with a
  smaller key and with a key not greater; on a tree without records they dereference the null root.
  So a search between two keys returns the position of the next larger key. A test that is defined but not registered
  (\<^verbatim>\<open>t_lower_bound\<close> in \<^verbatim>\<open>tests/include/rangequery.h\<close>) expects a smaller key there.
\<close>

theorem mem_isam_view_correct:
  fixes v :: "(('k::{linorder,zero}, 'v::linorder) Record, 'b) BufferView"
  assumes "mi_cfg_ok c" and "view_wf v" and "policy_ok (view_list v)"
  shows "\<exists>s. mi_of_view c B v = Inr s \<and> mi_inv c s \<and> net (mi_data s) = net (view_list v) \<and>
    mi_tombstone_cnt s = length (filter is_tombstone (mi_data s)) \<and>
    (\<forall>k. mi_get_lower_bound s k =
           (if mi_data s = [] then Inl NullDeref else Inr (length (filter (\<lambda>w. key (rec w) < k) (mi_data s)))) \<and>
         mi_get_upper_bound s k =
           (if mi_data s = [] then Inl NullDeref else Inr (length (filter (\<lambda>w. key (rec w) \<le> k) (mi_data s)))))"
proof -
  obtain s where s: "mi_of_view c B v = Inr s" "mi_inv c s" "net (mi_data s) = net (view_list v)"
      "mi_tombstone_cnt s = length (filter is_tombstone (mi_data s))"
    using mi_of_view_ok [OF assms, of B] by blast
  have "mi_root s = None" if "mi_data s = []" using s(2) that by (auto simp: mi_inv_def split: option.splits)
  then have "mi_bound st s = Inl NullDeref" if "mi_data s = []" for st using that by (simp add: mi_bound_def)
  then show ?thesis using s mi_lower_bound_ok [OF assms(1) s(2)]
    by (intro exI [of _ s]) (simp add: mi_get_lower_bound_def mi_get_upper_bound_def)
qed

text \<open>
  C25. Merging in-memory trees that hold records keeps the invariant (sorted records under a
  complete search tree) and the net records.
\<close>

theorem mem_isam_merge_invariant:
  fixes ss :: "('k::{linorder,zero}, 'v::linorder) MemISAM list"
  assumes "mi_cfg_ok c" and "min_pick (\<lambda>e. wkey_of (fst e)) pick" and "\<forall>s\<in>set ss. mi_inv c s \<and> mi_data s \<noteq> []"
    and "policy_ok (concat (map mi_data ss))"
  shows "\<exists>s. mi_of_shards c pick B (map Some ss) = Inr s \<and> mi_inv c s \<and> net (mi_data s) = net (concat (map mi_data ss)) \<and>
    mi_reccnt s \<le> (\<Sum>s\<leftarrow>ss. mi_reccnt s)"
  using mi_of_shards_ok [OF assms, of B] by (auto simp: mi_reccnt_def length_concat comp_def)

text \<open>
  C27. A point lookup on a tree with records finds the first equal record; when every record is
  smaller than the one looked for although some key is not, it reads the entry after the last.
\<close>

theorem mem_isam_point_lookup:
  fixes s :: "('k::{linorder,zero}, 'v::linorder) MemISAM"
  assumes "mi_cfg_ok c" and "mi_inv c s" and "mi_data s \<noteq> []"
  shows "mi_point_lookup s r False = lookup_result (mi_data s) r"
  using mi.lookup_scan [of c s r] assms by (simp add: mi_point_lookup_def mi_ready_def)

text \<open>A node of fan-out two over leaves of two records.\<close>

definition demo_mi_cfg :: mi_cfg where
  "demo_mi_cfg = \<lparr>mi_key_sz = 120, mi_rec_sz = 128\<rparr>"

lemma demo_mi_cfg_ok: "mi_cfg_ok demo_mi_cfg"
  by (simp add: mi_cfg_ok_def demo_mi_cfg_def MI_INTERNAL_FANOUT_def MI_LEAF_FANOUT_def MI_NODE_SZ_def)

definition demo_mem_view :: "((nat, nat) Record, unit) BufferView" where
  "demo_mem_view = BufferView_new (map (\<lambda>i. \<lparr>header = 0, rec = Record (i * 10) 1\<rparr>) [3, 1, 2, 5, 4, 0]) 6 0 5 0 None"

lemma demo_mem_view_ok:
  "view_wf demo_mem_view" "policy_ok (view_list demo_mem_view)"
  "view_list demo_mem_view = map (\<lambda>i. \<lparr>header = 0, rec = Record (i * 10) 1\<rparr>) [3, 1, 2, 5, 4]"
proof -
  show l: "view_list demo_mem_view = map (\<lambda>i. \<lparr>header = 0, rec = Record (i * 10) 1\<rparr>) [3, 1, 2, 5, 4]"
    by (simp add: demo_mem_view_def view_list_def ring_list_def BufferView_new_def upt_rec)
  show "view_wf demo_mem_view" by (simp add: demo_mem_view_def view_wf_def BufferView_new_def)
  show "policy_ok (view_list demo_mem_view)" unfolding l by (simp add: policy_ok_def is_deleted_def)
qed

theorem mem_isam_view_correct_witness:
  "\<exists>s. mi_of_view demo_mi_cfg list_bloom demo_mem_view = Inr s \<and> mi_inv demo_mi_cfg s \<and>
    net (mi_data s) = net (map (\<lambda>i. \<lparr>header = 0, rec = Record (i * 10) 1\<rparr>) [3, 1, 2, 5, 4])"
  using mem_isam_view_correct [OF demo_mi_cfg_ok demo_mem_view_ok(1,2), of list_bloom] demo_mem_view_ok(3) by auto

definition demo_mi :: "(nat, nat) MemISAM" where
  "demo_mi = \<lparr>mi_data = map (\<lambda>i. \<lparr>header = 0, rec = Record (i * 10) 1\<rparr>) [1, 2, 3, 4, 5],
     mi_nodes = [[(20, Some (LeafPtr 0)), (40, Some (LeafPtr 2))], [(50, Some (LeafPtr 4)), (0, None)],
       [(40, Some (NodePtr 0)), (0, Some (NodePtr 1))]], mi_root = Some 2, mi_tombstone_cnt = 0\<rparr>"

lemma demo_mi_inv: "mi_inv demo_mi_cfg demo_mi" and demo_mi_data: "mi_data demo_mi \<noteq> []"
proof -
  have ws: "rec_sorted (map (\<lambda>i. \<lparr>header = 0, rec = Record (i * 10) (1::nat)\<rparr>) [1, 2, 3, 4, 5::nat])"
    by (simp add: less_eq_Record_def less_Record_def)
  have "mi_build_internal_levels demo_mi_cfg (mi_data demo_mi) = Inr (mi_nodes demo_mi, 2)"
    by (simp add: demo_mi_def mi_build_internal_levels_def demo_mi_cfg_def MI_INTERNAL_FANOUT_def MI_LEAF_FANOUT_def MI_NODE_SZ_def
      mi_node_cnt.simps mi_bottom_level.simps mi_upper_levels.simps mi_upper_level.simps ceil_div_def Let_def put_node_def pad_node_def last_sep_def upt_rec)
  then show "mi_inv demo_mi_cfg demo_mi"
    using mi_build_internal_levels_ok [OF demo_mi_cfg_ok, of "mi_data demo_mi"] ws by (simp add: mi_inv_def demo_mi_def)
  show "mi_data demo_mi \<noteq> []" by (simp add: demo_mi_def)
qed

lemma demo_mi_ready: "mi_ready demo_mi_cfg demo_mi"
  by (simp add: mi_ready_def demo_mi_cfg_ok demo_mi_inv demo_mi_data)

theorem mem_isam_merge_invariant_witness:
  "\<exists>s. mi_of_shards demo_mi_cfg (first_min (\<lambda>e. wkey_of (fst e))) list_bloom (map Some [demo_mi, demo_mi]) = Inr s \<and>
    mi_inv demo_mi_cfg s \<and> mi_reccnt s \<le> 10"
proof -
  have "policy_ok (concat (map mi_data [demo_mi, demo_mi]))"
    by (simp add: demo_mi_def policy_ok_def is_deleted_def)
  then show ?thesis
    using mem_isam_merge_invariant [OF demo_mi_cfg_ok first_min.min_pick_axioms, of "[demo_mi, demo_mi]" list_bloom] demo_mi_inv demo_mi_data
    by (auto simp: mi_reccnt_def demo_mi_def)
qed

theorem mem_isam_point_lookup_witness:
  "mi_point_lookup demo_mi (Record 30 1) False = Inr (Some \<lparr>header = 0, rec = Record 30 1\<rparr>) \<and>
   mi_point_lookup demo_mi (Record 50 2) False = Inl OutOfBounds"
  using mem_isam_point_lookup [OF demo_mi_cfg_ok demo_mi_inv demo_mi_data, of "Record 30 1"]
    mem_isam_point_lookup [OF demo_mi_cfg_ok demo_mi_inv demo_mi_data, of "Record 50 2"]
  by (simp add: lookup_result_def demo_mi_def less_eq_Record_def less_Record_def)

end
