(* ===== verification/DE_RangeQuery.thy ===== *)
theory DE_RangeQuery
  imports DE_MemIsam DE_Query
begin

text \<open>
  Range queries (\<^verbatim>\<open>include/query/rangequery.h\<close>) over shards that are sorted arrays with a search
  for a lower bound. Every local result is a list of entries; the results are merged by the same
  queue as a shard reconstruction, which drops a record together with the tombstone next to it.
\<close>

section \<open>The query type\<close>

record 'k rq_Parameters =
  rq_lower :: 'k
  rq_upper :: 'k

record 'k rq_LocalQuery =
  start_idx :: nat
  stop_idx :: nat
  global_parms :: "'k rq_Parameters"

record ('k, 'v, 'f) rq_LocalQueryBuffer =
  rq_buffer :: "(('k, 'v) Record, 'f) BufferView"
  rq_parms :: "'k rq_Parameters"

text \<open>The shard is known by its array and its search.\<close>

definition rq_local_preproc ::
    "('s \<Rightarrow> ('k, 'v) Record Wrapped list) \<Rightarrow> ('s \<Rightarrow> 'k \<Rightarrow> nat res) \<Rightarrow> 's \<Rightarrow> 'k rq_Parameters \<Rightarrow> 'k rq_LocalQuery res" where
  "rq_local_preproc get_data lower_bound s parms =
     bindE (lower_bound s (rq_lower parms)) (\<lambda>i.
     Inr \<lparr>start_idx = i, stop_idx = length (get_data s), global_parms = parms\<rparr>)"

definition rq_local_preproc_buffer ::
    "(('k, 'v) Record, 'f) BufferView \<Rightarrow> 'k rq_Parameters \<Rightarrow> ('k, 'v, 'f) rq_LocalQueryBuffer" where
  "rq_local_preproc_buffer v parms = \<lparr>rq_buffer = v, rq_parms = parms\<rparr>"

definition rq_local_query ::
    "('s \<Rightarrow> ('k::linorder, 'v) Record Wrapped list) \<Rightarrow> 's \<Rightarrow> 'k rq_LocalQuery \<Rightarrow> ('k, 'v) Record Wrapped list res" where
  "rq_local_query get_data s q =
     (if start_idx q = length (get_data s) then Inr []
      else if start_idx q > length (get_data s) then Inl NullDeref
      else
        let ptr = dropWhile (\<lambda>w. key (rec w) < rq_lower (global_parms q))
                    (drop (start_idx q) (take (stop_idx q) (get_data s)))
        in Inr (takeWhile (\<lambda>w. key (rec w) \<le> rq_upper (global_parms q)) ptr))"

fun rq_scan :: "(('k::linorder, 'v) Record, 'f) BufferView \<Rightarrow> 'k rq_Parameters \<Rightarrow> nat list \<Rightarrow> ('k, 'v) Record Wrapped list res" where
  "rq_scan v p [] = Inr []"
| "rq_scan v p (i # is) =
     bindE (view_get v i) (\<lambda>w.
     bindE (rq_scan v p is) (\<lambda>ws.
     Inr (if key (rec w) \<ge> rq_lower p \<and> key (rec w) \<le> rq_upper p then w # ws else ws)))"

definition rq_local_query_buffer ::
    "('k::linorder, 'v, 'f) rq_LocalQueryBuffer \<Rightarrow> ('k, 'v) Record Wrapped list res" where
  "rq_local_query_buffer q = rq_scan (rq_buffer q) (rq_parms q) [0..<view_record_count (rq_buffer q)]"

text \<open>
  The merge: an empty local result has a null cursor and no entry in the queue; versions count
  down, so that a later result has a smaller version.
\<close>

definition rq_cursor :: "'r Wrapped list \<Rightarrow> 'r Wrapped Cursor" where
  "rq_cursor r = (if r = [] then null_cursor else array_cursor r (length r))"

fun rq_push :: "nat \<Rightarrow> nat \<Rightarrow> 'r Wrapped list list \<Rightarrow> ('r Wrapped \<times> nat) list \<Rightarrow> ('r Wrapped \<times> nat) list" where
  "rq_push n i [] q = q"
| "rq_push n i (r # rs) q = rq_push n (Suc i) rs (if r \<noteq> [] then pq_push (hd r, n - i - 1) q else q)"

definition rq_emit :: "'r Wrapped \<Rightarrow> 'r list \<Rightarrow> 'r list" where
  "rq_emit w output = (if \<not> is_tombstone w then output @ [rec w] else output)"

definition rq_combine ::
    "(('r Wrapped \<times> nat) list \<Rightarrow> nat) \<Rightarrow> 'r Wrapped list list \<Rightarrow> 'r list \<Rightarrow> 'r list res" where
  "rq_combine pick results output =
     (let n = length results in
      if (\<Sum>r\<leftarrow>results. length r) = 0 then Inr output
      else merge_loop (\<lambda>v. n - v - 1) pick rq_emit (map rq_cursor results) (rq_push n 0 results []) output)"

text \<open>
  The operations as the framework calls them; the page buffer it offers to a local query is not
  used.
\<close>

definition rq_Query ::
    "('s \<Rightarrow> ('k::linorder, 'v) Record Wrapped list) \<Rightarrow> ('s \<Rightarrow> 'k \<Rightarrow> nat res) \<Rightarrow>
     ((('k, 'v) Record Wrapped \<times> nat) list \<Rightarrow> nat) \<Rightarrow>
     ('s, ('k, 'v) Record, 'f, 'k rq_Parameters, 'k rq_LocalQuery, ('k, 'v, 'f) rq_LocalQueryBuffer,
      ('k, 'v) Record Wrapped, ('k, 'v) Record) query_ops" where
  "rq_Query get_data lower_bound pick =
     \<lparr>q_early_abort = False, q_preproc = rq_local_preproc get_data lower_bound, q_preproc_buffer = (\<lambda>v parms. Inr (rq_local_preproc_buffer v parms)),
      q_distribute = (\<lambda>p lqs bq. Inr (p, lqs, bq)),
      q_local = (\<lambda>has_buffer s q p. bindE (rq_local_query get_data s q) (\<lambda>rs. Inr (rs, p))),
      q_local_buffer = (\<lambda>q p. bindE (rq_local_query_buffer q) (\<lambda>rs. Inr (rs, p))),
      q_combine = (\<lambda>results p output. rq_combine pick results output),
      q_repeat = (\<lambda>p output lqs bq. Inr (False, p, lqs, bq))\<rparr>"

section \<open>Which pairs the merge drops\<close>

text \<open>
  A record and a tombstone for it meet in the queue when they come from different results, there is
  no third entry of the record, and the record's header is not the larger one.
\<close>

definition two_meet :: "'r Wrapped multiset \<Rightarrow> bool" where
  "two_meet M \<longleftrightarrow> (\<forall>w\<in>#M. \<forall>t\<in>#M. cancels w t \<longrightarrow>
     size (filter_mset (\<lambda>x. rec x = rec w) M) = 2 \<and> header w \<le> header t)"

definition apart :: "'r Wrapped list \<Rightarrow> bool" where
  "apart ws \<longleftrightarrow> sorted_wrt (\<lambda>a b. \<not> cancels a b \<and> \<not> cancels b a) ws"

definition survives :: "'r Wrapped multiset \<Rightarrow> 'r Wrapped \<Rightarrow> bool" where
  "survives M x \<longleftrightarrow> (\<forall>y\<in>#M. \<not> cancels x y \<and> \<not> cancels y x)"

lemma cancelsD: "cancels w t \<Longrightarrow> w \<noteq> t" "cancels w t \<Longrightarrow> rec t = rec w" "cancels w t \<Longrightarrow> header w \<noteq> header t"
  by (auto simp: cancels_def is_tombstone_def)

lemma pair_of_two:
  assumes "w \<in># M" "t \<in># M" "w \<noteq> t"
  shows "{#w, t#} \<subseteq># M"
  using assms by (metis insert_DiffM insert_noteq_member mset_subset_eq_add_mset_cancel single_subset_iff)

lemma only_two:
  assumes "two_meet M" and "w \<in># M" "t \<in># M" "cancels w t"
  shows "filter_mset (\<lambda>x. rec x = rec w) M = {#w, t#}"
proof -
  have "{#w, t#} \<subseteq># filter_mset (\<lambda>x. rec x = rec w) M"
    using assms cancelsD [OF assms(4)] by (intro pair_of_two) auto
  moreover have "size (filter_mset (\<lambda>x. rec x = rec w) M) = 2" using assms by (auto simp: two_meet_def)
  ultimately show ?thesis by (metis size_add_mset size_single mset_subset_size nat_less_le one_add_one plus_1_eq_Suc subset_mset.le_neq_trans)
qed

lemma two_meet_sub:
  assumes "two_meet M" and "N \<subseteq># M"
  shows "two_meet N"
  unfolding two_meet_def
proof (intro ballI impI)
  fix w t assume wt: "w \<in># N" "t \<in># N" "cancels w t"
  have "{#w, t#} \<subseteq># filter_mset (\<lambda>x. rec x = rec w) N"
    using wt cancelsD [OF wt(3)] by (intro pair_of_two) auto
  then have ge: "2 \<le> size (filter_mset (\<lambda>x. rec x = rec w) N)" using size_mset_mono by fastforce
  have M: "w \<in># M" "t \<in># M" using wt assms(2) mset_subset_eqD by metis+
  have "size (filter_mset (\<lambda>x. rec x = rec w) N) \<le> size (filter_mset (\<lambda>x. rec x = rec w) M)"
    using assms(2) by (intro size_mset_mono multiset_filter_mono)
  then show "size (filter_mset (\<lambda>x. rec x = rec w) N) = 2 \<and> header w \<le> header t"
    using ge assms(1) M wt(3) by (auto simp: two_meet_def)
qed

lemma heads_from_sub: "image_mset fst (heads_from i rs) \<subseteq># mset (concat rs)"
proof (induction rs arbitrary: i)
  case (Cons r rs)
  have "image_mset fst (heads_from (Suc i) rs) \<subseteq># mset ws + mset (concat rs)" for ws
    using Cons.IH [of "Suc i"] by (rule subset_mset.order_trans) simp
  then show ?case using Cons.IH by (cases r) simp_all
qed simp

text \<open>
  The other half of a pair is in the queue when the first half is taken: it heads its cursor, since
  all entries before it have been merged.
\<close>

lemma partner_in_queue:
  assumes "merge_inv ci cs q" and "mset q = add_mset (w, v) (mset q1)" and "\<forall>c\<in>set cs. rec_sorted (rest c) \<and> apart (rest c)"
    and "\<And>y. y \<in># mset (concat (map rest cs)) \<Longrightarrow> rec w \<le> rec y"
    and "mset (concat (map rest cs)) = add_mset w M'" and "cancels w y \<or> cancels y w" and "y \<in># M'"
    and "filter_mset (\<lambda>x. rec x = rec w) M' = {#y#}"
  shows "y \<in># image_mset fst (mset q1)" and "image_mset fst (mset q1) \<subseteq># M'"
proof -
  let ?rs = "map rest cs"
  have h: "heads ?rs = add_mset (w, ci v) (image_mset (map_prod id ci) (mset q1))"
    using assms(1) unfolding merge_inv_def assms(2) by simp
  have "image_mset fst (heads ?rs) = add_mset w (image_mset fst (mset q1))"
    unfolding h by (simp add: image_mset.compositionality comp_def)
  then show "image_mset fst (mset q1) \<subseteq># M'" using heads_from_sub [of 0 ?rs] assms(5) by simp
  have "(w, ci v) \<in># heads ?rs" unfolding h by simp
  then have w: "ci v < length ?rs" "?rs ! ci v \<noteq> []" "w = hd (?rs ! ci v)" unfolding in_heads by blast+
  have yw: "y \<noteq> w" "rec y = rec w" using assms(6) cancelsD by metis+
  have "y \<in># mset (concat ?rs)" using assms(5,7) by simp
  then obtain r where "r \<in> set ?rs" "y \<in> set r" by auto
  then obtain i where i: "i < length ?rs" "y \<in> set (?rs ! i)" by (metis in_set_conv_nth)
  have srt: "rec_sorted (?rs ! i)" "apart (?rs ! i)" using assms(3) i(1) by auto
  obtain z zs where z: "?rs ! i = z # zs" using i(2) by (cases "?rs ! i") auto
  have ne: "i \<noteq> ci v"
  proof
    assume "i = ci v"
    then have "z = w" using w z by simp
    then show False using srt(2) i(2) z yw(1) assms(6) by (auto simp: apart_def)
  qed
  have zh: "(z, i) \<in># heads ?rs" using i(1) z by (auto simp: in_heads)
  have "z \<in> set (concat ?rs)" using nth_mem [OF i(1)] z by (metis UN_I list.set_intros(1) set_concat)
  then have "rec w \<le> rec z" by (intro assms(4)) simp
  moreover have "rec z \<le> rec y" using srt(1) i(2) z by auto
  ultimately have "rec z = rec w" using yw(2) by simp
  have zq: "(z, i) \<in># image_mset (map_prod id ci) (mset q1)" using zh ne unfolding h by simp
  then have zq1: "z \<in># image_mset fst (mset q1)" by force
  then have "z \<in># filter_mset (\<lambda>x. rec x = rec w) M'"
    using \<open>image_mset fst (mset q1) \<subseteq># M'\<close> \<open>rec z = rec w\<close> by (simp add: mset_subset_eqD)
  then show "y \<in># image_mset fst (mset q1)" using zq1 unfolding assms(8) by simp
qed

lemma survives_add:
  assumes "survives (add_mset w M) w" and "x \<in># M"
  shows "survives (add_mset w M) x = survives M x"
  using assms by (auto simp: survives_def)


lemma merge_loop_exact:
  fixes cs :: "'r::linorder Wrapped Cursor list"
  assumes "min_pick (\<lambda>e. wkey_of (fst e)) pick" and "merge_inv ci cs q" and "\<forall>c\<in>set cs. rec_sorted (rest c) \<and> apart (rest c)"
    and "two_meet (mset (concat (map rest cs)))"
  shows "\<exists>outs. merge_loop ci pick emit cs q s = Inr (fold emit outs s) \<and> rec_sorted outs \<and>
    mset outs = filter_mset (survives (mset (concat (map rest cs)))) (mset (concat (map rest cs)))"
  using assms
proof (induction "(=) :: 'r \<Rightarrow> 'r \<Rightarrow> bool" ci pick emit cs q s rule: merge_loop_by.induct)
  case (1 ci pick emit cs q s)
  have srt: "\<forall>c\<in>set cs. rec_sorted (rest c)" and ap: "\<forall>c\<in>set cs. apart (rest c)" using "1.prems"(3) by simp_all
  show ?case
  proof (cases "q = []")
    case True
    then have "concat (map rest cs) = []"
      using "1.prems"(2) heads_empty_iff [of 0 "map rest cs"] by (simp add: merge_inv_def)
    with True show ?thesis by (subst merge_loop_simps) (auto intro!: exI [of _ "[]"])
  next
    case False
    define M where "M = mset (concat (map rest cs))"
    obtain w v where now: "pq_peek pick q = (w, v)" by force
    let ?q1 = "pq_pop pick q"
    have q: "mset q = add_mset (w, v) (mset ?q1)" using mset_pq_pop [OF False, of pick] now by simp
    have least: "rec w \<le> rec y" if "y \<in># M" for y
      using merge_peek_min [where kf = "\<lambda>r. r", OF "1.prems"(1,2) False srt] that now by (simp add: M_def)
    define a1 where "a1 = advance_cursor (cs ! ci v)"
    note E = merge_take_emit [OF "1.prems"(2) q a1_def]
    show ?thesis
    proof (cases "?q1 \<noteq> [] \<and> cancels w (fst (pq_peek pick ?q1))")
      case True
      obtain t u where nxt: "pq_peek pick ?q1 = (t, u)" by force
      let ?q2 = "pq_pop pick ?q1"
      have q1: "mset ?q1 = add_mset (t, u) (mset ?q2)" using mset_pq_pop [of ?q1 pick] nxt True by simp
      define cs1 where "cs1 = cs[ci v := snd a1]"
      define a2 where "a2 = advance_cursor (cs1 ! ci u)"
      define cs2 where "cs2 = cs1[ci u := snd a2]"
      define q' where "q' = push_cursor a2 u (push_cursor a1 v ?q2)"
      define M' where "M' = mset (concat (map rest cs2))"
      note C = merge_take_cancel [OF "1.prems"(2) q q1 a1_def cs1_def a2_def cs2_def, folded q'_def]
      have eq: "merge_loop ci pick emit cs q s = merge_loop ci pick emit cs2 q' s"
        using False True C(1,2) now nxt
        by (subst merge_loop_simps) (simp add: Let_def a1_def a2_def cs1_def cs2_def q'_def)
      have M: "M = add_mset w (add_mset t M')" using C(4) by (simp add: M_def M'_def)
      have ct: "cancels w t" using True nxt by simp
      have "\<forall>c\<in>set cs2. rec_sorted (rest c) \<and> apart (rest c)"
        using C(5) [OF srt] C(5) [OF ap [unfolded apart_def]] by (simp add: apart_def)
      moreover have "two_meet M'" using "1.prems"(4) two_meet_sub [of M M'] M by (simp add: M_def)
      ultimately have "\<exists>outs. merge_loop ci pick emit cs2 q' s = Inr (fold emit outs s) \<and> rec_sorted outs \<and>
          mset outs = filter_mset (survives M') M'"
        using "1.hyps"(1) [OF False refl refl _ _ refl refl refl refl _ refl refl "1.prems"(1)] C False True now nxt
        by (simp add: a1_def a2_def cs1_def cs2_def q'_def M'_def)
      moreover have "filter_mset (survives M) M = filter_mset (survives M') M'"
      proof -
        have "filter_mset (\<lambda>x. rec x = rec w) M = {#w, t#}"
          by (rule only_two [OF "1.prems"(4) [folded M_def] _ _ ct]) (simp_all add: M)
        then have "filter_mset (\<lambda>x. rec x = rec w) M' = {#}" using cancelsD(2) [OF ct] by (simp add: M)
        then have other: "rec x \<noteq> rec w" if "x \<in># M'" for x using that by (metis (mono_tags, lifting) empty_not_add_mset filter_mset_eq_conv mem_Collect_eq set_mset_filter set_mset_empty empty_iff)
        have "survives M x = survives M' x" if "x \<in># M'" for x
          using other [OF that] cancelsD(2) [OF ct] unfolding survives_def M by (auto simp: cancels_def)
        then have "filter_mset (survives M) M' = filter_mset (survives M') M'" by (intro filter_mset_cong refl) simp
        moreover have "\<not> survives M w" "\<not> survives M t" using ct by (auto simp: survives_def M)
        ultimately show ?thesis by (simp add: M)
      qed
      ultimately show ?thesis unfolding eq M_def [symmetric] by simp
    next
      case nc: False
      define cs1 where "cs1 = cs[ci v := snd a1]"
      define q' where "q' = push_cursor a1 v ?q1"
      define M' where "M' = mset (concat (map rest cs1))"
      have eq: "merge_loop ci pick emit cs q s = merge_loop ci pick emit cs1 q' (emit w s)"
        using False nc E(1,2) now
        by (subst merge_loop_simps) (auto simp: Let_def a1_def cs1_def q'_def)
      have M: "M = add_mset w M'" using E(4) by (simp add: M_def M'_def cs1_def)
      have sw: "survives M w"
        unfolding survives_def
      proof (intro ballI, rule ccontr)
        fix y assume y: "y \<in># M" and "\<not> (\<not> cancels w y \<and> \<not> cancels y w)"
        then have c: "cancels w y \<or> cancels y w" by blast
        then have yw: "y \<in># M'" "rec y = rec w" using y cancelsD unfolding M by auto
        have tm: "two_meet M" using "1.prems"(4) by (simp add: M_def)
        have "filter_mset (\<lambda>x. rec x = rec w) M = {#w, y#}"
        proof (cases "cancels w y")
          case True
          show ?thesis by (rule only_two [OF tm _ y True]) (simp add: M)
        next
          case False
          then have "cancels y w" using c by simp
          from only_two [OF tm y _ this] show ?thesis using yw(2) by (simp add: M add_mset_commute)
        qed
        then have f: "filter_mset (\<lambda>x. rec x = rec w) M' = {#y#}" by (simp add: M)
        note P = partner_in_queue [OF "1.prems"(2) q "1.prems"(3) least [unfolded M_def] M [unfolded M_def] c yw(1) f]
        show False
        proof (cases "cancels w y")
          case True
          have ne: "?q1 \<noteq> []" using P(1) by auto
          obtain t u where nxt: "pq_peek pick ?q1 = (t, u)" by force
          obtain u' where "(y, u') \<in> set ?q1" using P(1) by auto
          then have "wkey_of t \<le> wkey_of y" using min_pick.peek_min [OF "1.prems"(1), of "(y, u')" ?q1] nxt by simp
          then have "rec t \<le> rec w" using yw(2) by (auto simp: less_eq_prod_def)
          have "(t, u) \<in> set ?q1" using pq_peek_in [OF ne, of pick] nxt by simp
          then have "t \<in># image_mset fst (mset ?q1)" by force
          then have t: "t \<in># M'" using P(2) mset_subset_eqD by metis
          then have "rec w \<le> rec t" by (intro least) (simp add: M)
          then have "t \<in># filter_mset (\<lambda>x. rec x = rec w) M'" using t \<open>rec t \<le> rec w\<close> by simp
          then have "t = y" unfolding f by simp
          then show False using nc ne nxt True by simp
        next
          case False
          then have cy: "cancels y w" using c by simp
          obtain u' where "(y, u') \<in> set ?q1" using P(1) by auto
          then have "(y, u') \<in># mset q" unfolding q by simp
          then have "wkey_of w \<le> wkey_of y" using min_pick.peek_min [OF "1.prems"(1), of "(y, u')" q] now by simp
          then have "header w \<le> header y" using yw(2) by (auto simp: less_eq_prod_def)
          moreover have "header y \<le> header w" using tm y cy by (auto simp: two_meet_def M)
          ultimately show False using cancelsD(3) [OF cy] by simp
        qed
      qed
      have "\<forall>c\<in>set cs1. rec_sorted (rest c) \<and> apart (rest c)"
        using E(5) [OF srt] E(5) [OF ap [unfolded apart_def]] by (simp add: apart_def cs1_def)
      moreover have "two_meet M'" using "1.prems"(4) two_meet_sub [of M M'] M by (simp add: M_def)
      ultimately obtain outs where *: "merge_loop ci pick emit cs1 q' (emit w s) = Inr (fold emit outs (emit w s))" "rec_sorted outs"
          "mset outs = filter_mset (survives M') M'"
        using "1.hyps"(2) [OF False refl refl _ _ refl refl "1.prems"(1)] E False nc now
        by (auto simp: a1_def cs1_def q'_def M'_def)
      have "rec w \<le> rec y" if "y \<in> set outs" for y
      proof -
        have "y \<in># filter_mset (survives M') M'" using that *(3) by (metis set_mset_mset)
        then show ?thesis by (intro least) (simp add: M)
      qed
      moreover have "filter_mset (survives M) M = add_mset w (filter_mset (survives M') M')"
        using sw survives_add [OF sw [unfolded M]] unfolding M by (simp cong: filter_mset_cong)
      ultimately show ?thesis using * unfolding eq M_def [symmetric] by (intro exI [of _ "w # outs"]) simp
    qed
  qed
qed


section \<open>What the merge never drops\<close>

text \<open>
  At any time a cursor has one entry in the queue, its next one. So the two halves of a dropped
  pair come from different cursors. \<open>P i\<close> marks entries of cursor \<open>i\<close> that no other cursor can cancel.
\<close>

definition kept_entries :: "(nat \<Rightarrow> 'a \<Rightarrow> bool) \<Rightarrow> 'a list list \<Rightarrow> 'a multiset" where
  "kept_entries P rs = (\<Sum>i<length rs. filter_mset (P i) (mset (rs ! i)))"

lemma image_mset_sum_lessThan: "image_mset f (\<Sum>i<n. M i) = (\<Sum>i<(n::nat). image_mset f (M i))"
  by (induction n) simp_all

lemma in_kept_entries: "x \<in># kept_entries P rs \<longleftrightarrow> (\<exists>i<length rs. x \<in> set (rs ! i) \<and> P i x)"
  by (auto simp: kept_entries_def set_mset_sum)

lemma kept_entries_take:
  assumes "i < length rs" and "rs ! i = x # xs"
  shows "kept_entries P rs = (if P i x then {#x#} else {#}) + kept_entries P (rs[i := xs])"
proof -
  have split: "(\<Sum>j<length rs. f j) = f i + (\<Sum>j\<in>{..<length rs} - {i}. f j)" for f :: "nat \<Rightarrow> 'a multiset"
    using assms(1) by (intro sum.remove) auto
  have "(\<Sum>j\<in>{..<length rs} - {i}. filter_mset (P j) (mset (rs[i := xs] ! j))) =
      (\<Sum>j\<in>{..<length rs} - {i}. filter_mset (P j) (mset (rs ! j)))" by (intro sum.cong) auto
  then show ?thesis unfolding kept_entries_def length_list_update split using assms by simp
qed

lemma heads_from_index: "size (filter_mset (\<lambda>e. snd e = k) (heads_from n rs)) \<le> (if n \<le> k then 1 else 0)"
proof (induction rs arbitrary: n)
  case (Cons r rs)
  have "size (filter_mset (\<lambda>e. snd e = k) (heads_from n (r # rs))) \<le>
      (if n = k then 1 else 0) + size (filter_mset (\<lambda>e. snd e = k) (heads_from (Suc n) rs))" by (cases r) auto
  also have "\<dots> \<le> (if n = k then 1 else 0) + (if Suc n \<le> k then 1 else 0)" using Cons.IH by (rule add_left_mono)
  also have "\<dots> \<le> (if n \<le> k then 1 else 0)" by simp
  finally show ?case .
qed simp

lemma set_tl_subset: "set (tl xs) \<subseteq> set xs"
  by (cases xs) auto

lemma heads_indices_differ:
  assumes "heads rs = add_mset (x, i) (add_mset (y, j) Q)"
  shows "i \<noteq> j"
proof
  assume "i = j"
  then have "size (filter_mset (\<lambda>e. snd e = i) (heads rs)) \<ge> 2" unfolding assms by simp
  then show False using heads_from_index [of i 0 rs] by simp
qed

lemma merge_loop_keeps:
  fixes cs :: "'r Wrapped Cursor list"
  assumes "merge_inv ci cs q" and "\<And>i w. P i w \<Longrightarrow> \<not> is_tombstone w"
    and "\<And>i j w t. i < length cs \<Longrightarrow> j < length cs \<Longrightarrow> i \<noteq> j \<Longrightarrow> w \<in> set (rest (cs ! i)) \<Longrightarrow> t \<in> set (rest (cs ! j)) \<Longrightarrow>
      P i w \<Longrightarrow> \<not> cancels w t"
  shows "\<exists>outs. merge_loop ci pick emit cs q s = Inr (fold emit outs s) \<and> kept_entries P (map rest cs) \<subseteq># mset outs"
  using assms(1,3)
proof (induction "(=) :: 'r \<Rightarrow> 'r \<Rightarrow> bool" ci pick emit cs q s rule: merge_loop_by.induct)
  case (1 ci pick emit cs q s)
  show ?case
  proof (cases "q = []")
    case True
    then have "concat (map rest cs) = []"
      using "1.prems"(1) heads_empty_iff [of 0 "map rest cs"] by (simp add: merge_inv_def)
    then have "kept_entries P (map rest cs) = {#}" by (simp add: kept_entries_def)
    with True show ?thesis by (subst merge_loop_simps) (auto intro!: exI [of _ "[]"])
  next
    case False
    obtain w v where now: "pq_peek pick q = (w, v)" by force
    let ?q1 = "pq_pop pick q"
    have q: "mset q = add_mset (w, v) (mset ?q1)" using mset_pq_pop [OF False, of pick] now by simp
    have h: "image_mset (map_prod id ci) (add_mset (w, v) (mset ?q1)) = heads (map rest cs)" and ok: "\<forall>c\<in>set cs. cursor_ok c"
      using "1.prems"(1) unfolding merge_inv_def q by simp_all
    define a1 where "a1 = advance_cursor (cs ! ci v)"
    define cs1 where "cs1 = cs[ci v := snd a1]"
    note T = merge_inv_take [OF h ok, folded a1_def, folded cs1_def]
    have w: "rest (cs ! ci v) = w # tl (rest (cs ! ci v))" using T(2,3) by simp
    have sub1: "set (rest (cs1 ! i)) \<subseteq> set (rest (cs ! i))" if "i < length cs" for i
    proof -
      have "rest (cs1 ! i) = (map rest cs)[ci v := tl (rest (cs ! ci v))] ! i"
        using T(5) that by (metis cs1_def length_list_update nth_map)
      then show ?thesis using that by (cases "i = ci v") (auto dest: subsetD [OF set_tl_subset])
    qed
    have apart1: "\<not> cancels x y"
      if "i < length cs1" "j < length cs1" "i \<noteq> j" "x \<in> set (rest (cs1 ! i))" "y \<in> set (rest (cs1 ! j))" "P i x" for i j x y
      using "1.prems"(2) [of i j x y] that sub1 by (auto simp: cs1_def)
    have keep1: "kept_entries P (map rest cs) = (if P (ci v) w then {#w#} else {#}) + kept_entries P (map rest cs1)"
      unfolding T(5) by (rule kept_entries_take) (use T(1) w in simp_all)
    show ?thesis
    proof (cases "?q1 \<noteq> [] \<and> cancels w (fst (pq_peek pick ?q1))")
      case True
      obtain t u where nxt: "pq_peek pick ?q1 = (t, u)" by force
      let ?q2 = "pq_pop pick ?q1"
      have q1: "mset ?q1 = add_mset (t, u) (mset ?q2)" using mset_pq_pop [of ?q1 pick] nxt True by simp
      define a2 where "a2 = advance_cursor (cs1 ! ci u)"
      define cs2 where "cs2 = cs1[ci u := snd a2]"
      define q' where "q' = push_cursor a2 u (push_cursor a1 v ?q2)"
      note C = merge_take_cancel [OF "1.prems"(1) q q1 a1_def cs1_def a2_def cs2_def, folded q'_def]
      have eq: "merge_loop ci pick emit cs q s = merge_loop ci pick emit cs2 q' s"
        using False True C(1,2) now nxt
        by (subst merge_loop_simps) (simp add: Let_def a1_def a2_def cs1_def cs2_def q'_def)
      have ct: "cancels w t" using True nxt by simp
      have h2: "heads (map rest cs) = add_mset (w, ci v) (add_mset (t, ci u) (image_mset (map_prod id ci) (mset ?q2)))"
        using h unfolding q1 by simp
      have ne: "ci v \<noteq> ci u" by (rule heads_indices_differ [OF h2])
      have "(t, ci u) \<in># heads (map rest cs)" unfolding h2 by simp
      then have u: "ci u < length cs" "rest (cs ! ci u) \<noteq> []" "t = hd (rest (cs ! ci u))" by (auto simp: in_heads)
      have cu: "cs1 ! ci u = cs ! ci u" using ne by (simp add: cs1_def)
      have t: "rest (cs1 ! ci u) = t # tl (rest (cs1 ! ci u))" using u cu by simp
      have ok1: "\<forall>c\<in>set cs1. cursor_ok c" by (rule T(4))
      have len1: "ci u < length cs1" using u(1) by (simp add: cs1_def)
      have r2: "map rest cs2 = (map rest cs1)[ci u := tl (rest (cs1 ! ci u))]"
        unfolding cs2_def a2_def using advance_cursor_ok(3) [OF _ t] ok1 len1 by (simp add: map_update)
      have "\<not> P (ci v) w"
        using "1.prems"(2) [OF T(1) u(1) ne, of w t] w u ct by (metis list.set_intros(1) hd_in_set)
      moreover have "\<not> P (ci u) t" using assms(2) ct by (auto simp: cancels_def)
      moreover have "kept_entries P (map rest cs1) = (if P (ci u) t then {#t#} else {#}) + kept_entries P (map rest cs2)"
        unfolding r2 by (rule kept_entries_take) (use len1 t in simp_all)
      ultimately have keep: "kept_entries P (map rest cs) = kept_entries P (map rest cs2)" using keep1 by simp
      have sub2: "set (rest (cs2 ! i)) \<subseteq> set (rest (cs1 ! i))" if "i < length cs1" for i
      proof -
        have "rest (cs2 ! i) = (map rest cs1)[ci u := tl (rest (cs1 ! ci u))] ! i"
          using r2 that by (metis cs2_def length_list_update nth_map)
        then show ?thesis using that by (cases "i = ci u") (auto dest: subsetD [OF set_tl_subset])
      qed
      have apart2: "\<not> cancels x y"
        if "i < length cs2" "j < length cs2" "i \<noteq> j" "x \<in> set (rest (cs2 ! i))" "y \<in> set (rest (cs2 ! j))" "P i x" for i j x y
        using apart1 [of i j x y] that sub2 by (auto simp: cs2_def)
      have "\<exists>outs. merge_loop ci pick emit cs2 q' s = Inr (fold emit outs s) \<and> kept_entries P (map rest cs2) \<subseteq># mset outs"
        using "1.hyps"(1) [OF False refl refl _ _ refl refl refl refl _ refl refl] C(1-3) apart2 False True now nxt
        by (simp add: a1_def a2_def cs1_def cs2_def q'_def)
      then show ?thesis unfolding eq keep .
    next
      case nc: False
      define q' where "q' = push_cursor a1 v ?q1"
      note E = merge_take_emit [OF "1.prems"(1) q a1_def]
      have eq: "merge_loop ci pick emit cs q s = merge_loop ci pick emit cs1 q' (emit w s)"
        using False nc E(1,2) now
        by (subst merge_loop_simps) (auto simp: Let_def a1_def cs1_def q'_def)
      obtain outs where *: "merge_loop ci pick emit cs1 q' (emit w s) = Inr (fold emit outs (emit w s))"
          "kept_entries P (map rest cs1) \<subseteq># mset outs"
        using "1.hyps"(2) [OF False refl refl _ _ refl refl] E(1-3) apart1 False nc now
        by (auto simp: a1_def cs1_def q'_def)
      have "kept_entries P (map rest cs) \<subseteq># mset (w # outs)"
        unfolding keep1 using *(2) by (auto intro: subset_mset.order_trans)
      then show ?thesis using *(1) unfolding eq by (intro exI [of _ "w # outs"]) simp
    qed
  qed
qed

section \<open>What the merge answers\<close>

definition pairs_meet :: "'r Wrapped list list \<Rightarrow> bool" where
  "pairs_meet rss \<longleftrightarrow> two_meet (mset (concat rss)) \<and> (\<forall>r\<in>set rss. apart r)"

text \<open>The records without a tombstone.\<close>

definition undeleted :: "'r Wrapped list \<Rightarrow> 'r multiset" where
  "undeleted ws = image_mset rec (filter_mset (\<lambda>w. \<not> is_tombstone w \<and> (\<forall>t\<in>set ws. \<not> cancels w t)) (mset ws))"

lemma rq_cursor_simps [simp]:
  "cursor_ok (rq_cursor r)" "rest (rq_cursor r) = r"
  by (simp_all add: rq_cursor_def cursor_ok_def null_cursor_def array_cursor_def rest_def)

lemma rq_push_heads:
  assumes "i + length rs \<le> n"
  shows "image_mset (map_prod id (\<lambda>v. n - v - 1)) (mset (rq_push n i rs q)) =
    image_mset (map_prod id (\<lambda>v. n - v - 1)) (mset q) + heads_from i rs"
  using assms
proof (induction rs arbitrary: i q)
  case (Cons r rs)
  show ?case
  proof (cases r)
    case Nil
    then show ?thesis using Cons.IH [of "Suc i" q] Cons.prems by simp
  next
    case (Cons x xs)
    moreover have "n - (n - i - 1) - 1 = i" using Cons.prems by simp
    ultimately show ?thesis using Cons.IH [of "Suc i" "pq_push (x, n - i - 1) q"] Cons.prems by (simp add: mset_pq_push)
  qed
qed simp

lemma rq_merge_inv: "merge_inv (\<lambda>v. length rss - v - 1) (map rq_cursor rss) (rq_push (length rss) 0 rss [])"
  using rq_push_heads [of 0 rss "length rss" "[]"] by (auto simp: merge_inv_def comp_def)

lemma fold_rq_emit: "fold rq_emit outs out = out @ map rec (filter (\<lambda>w. \<not> is_tombstone w) outs)"
  by (induction outs arbitrary: out) (simp_all add: rq_emit_def)

lemma rq_combine_loop:
  "rq_combine pick rss out = merge_loop (\<lambda>v. length rss - v - 1) pick rq_emit (map rq_cursor rss) (rq_push (length rss) 0 rss []) out"
proof (cases "(\<Sum>r\<leftarrow>rss. length r) = 0")
  case True
  then have "rq_push n i rss q = q" for n i q by (induction rss arbitrary: i) simp_all
  then show ?thesis using True by (simp add: rq_combine_def merge_loop_simps)
next
  case False
  then show ?thesis unfolding rq_combine_def Let_def by (simp only: if_False)
qed

lemma rq_combine_exact:
  assumes "min_pick (\<lambda>e. wkey_of (fst e)) pick" and "\<forall>r\<in>set rss. rec_sorted r" and "pairs_meet rss"
  shows "\<exists>res. rq_combine pick rss out = Inr (out @ res) \<and> sorted_wrt (\<le>) res \<and> mset res = undeleted (concat rss)"
proof -
  let ?M = "mset (concat rss)"
  have "concat (map rest (map rq_cursor rss)) = concat rss" by (simp add: comp_def)
  then obtain outs where o: "rq_combine pick rss out = Inr (fold rq_emit outs out)" "rec_sorted outs"
      "mset outs = filter_mset (survives ?M) ?M"
    using merge_loop_exact [OF assms(1) rq_merge_inv [of rss], of rq_emit out] assms(2,3)
    by (auto simp: pairs_meet_def rq_combine_loop simp del: mset_concat)
  have "mset (filter (\<lambda>w. \<not> is_tombstone w) outs) = filter_mset (\<lambda>w. \<not> is_tombstone w \<and> (\<forall>t\<in>set (concat rss). \<not> cancels w t)) ?M"
    unfolding mset_filter o(3) filter_filter_mset
    by (intro filter_mset_cong refl) (auto simp: survives_def cancels_def)
  then have "mset (map rec (filter (\<lambda>w. \<not> is_tombstone w) outs)) = undeleted (concat rss)" by (simp add: undeleted_def del: mset_concat)
  moreover have "sorted_wrt (\<le>) (map rec (filter (\<lambda>w. \<not> is_tombstone w) outs))"
    using o(2) by (simp add: sorted_wrt_map sorted_wrt_filter)
  ultimately show ?thesis using o(1) by (simp add: fold_rq_emit)
qed

lemma rq_combine_inserts:
  assumes "min_pick (\<lambda>e. wkey_of (fst e)) pick" and "\<forall>w\<in>set (concat rss). \<not> is_tombstone w"
  shows "\<exists>res. rq_combine pick rss out = Inr (out @ res) \<and> mset res = mset (map rec (concat rss)) \<and>
    ((\<forall>r\<in>set rss. rec_sorted r) \<longrightarrow> sorted_wrt (\<le>) res)"
proof -
  have "merge_result rq_emit (map rq_cursor rss) out (rq_combine pick rss out)"
    unfolding rq_combine_loop by (rule merge_loop_spec [OF assms(1) rq_merge_inv])
  moreover have "concat (map rest (map rq_cursor rss)) = concat rss" by (simp add: comp_def)
  ultimately obtain outs ps where o: "rq_combine pick rss out = Inr (fold rq_emit outs out)"
      "mset (concat rss) = mset outs + mset (map fst ps) + mset (map snd ps)" "cancelled_pairs ps"
      "(\<forall>r\<in>set rss. rec_sorted r) \<longrightarrow> rec_sorted outs"
    unfolding merge_result_def by (auto simp del: mset_concat)
  have "ps = []"
  proof (rule ccontr)
    assume "ps \<noteq> []"
    then obtain p where p: "p \<in> set ps" by (cases ps) auto
    then have "snd p \<in># mset (concat rss)" unfolding o(2) by simp
    moreover have "is_tombstone (snd p)" using p o(3) by (auto simp: cancelled_pairs_def cancels_def)
    ultimately show False using assms(2) by simp
  qed
  then have m: "mset outs = mset (concat rss)" using o(2) by simp
  then have "set outs = set (concat rss)" by (rule mset_eq_setD)
  then have "filter (\<lambda>w. \<not> is_tombstone w) outs = outs" using assms(2) by (simp add: filter_id_conv)
  moreover have "mset (map rec outs) = mset (map rec (concat rss))" using m by (simp only: mset_map)
  ultimately show ?thesis using o(1,4) by (intro exI [of _ "map rec outs"]) (simp add: fold_rq_emit sorted_wrt_map del: mset_concat)
qed


section \<open>The query over a buffer and shards\<close>

definition rq_in_range :: "'k::linorder rq_Parameters \<Rightarrow> ('k, 'v) Record Wrapped \<Rightarrow> bool" where
  "rq_in_range p w \<longleftrightarrow> rq_lower p \<le> key (rec w) \<and> key (rec w) \<le> rq_upper p"

lemma rq_scan_ok:
  assumes "\<forall>i\<in>set is. view_get v i = Inr (ws ! i)"
  shows "rq_scan v p is = Inr (filter (rq_in_range p) (map ((!) ws) is))"
  using assms by (induction "is") (simp_all add: rq_in_range_def)

lemma rq_buffer_ok:
  assumes "view_wf v"
  shows "rq_local_query_buffer (rq_local_preproc_buffer v p) = Inr (filter (rq_in_range p) (view_list v))"
proof -
  have "\<forall>i\<in>set [0..<view_record_count v]. view_get v i = Inr (view_list v ! i)"
    using view_get_wf [OF assms] by simp
  from rq_scan_ok [OF this, of p] have "rq_scan v p [0..<view_record_count v] = Inr (filter (rq_in_range p) (view_list v))"
    unfolding length_view_list [OF assms, symmetric] map_nth .
  then show ?thesis by (simp add: rq_local_query_buffer_def rq_local_preproc_buffer_def)
qed

text \<open>The local results: the entries in range of the buffer and of each shard.\<close>

definition range_results ::
    "('s \<Rightarrow> ('k::linorder, 'v) Record Wrapped list) \<Rightarrow> 'k rq_Parameters \<Rightarrow> (('k, 'v) Record, 'f) BufferView \<Rightarrow> 's list \<Rightarrow> ('k, 'v) Record Wrapped list list" where
  "range_results get_data p v ss = map (filter (rq_in_range p)) (view_list v # map get_data ss)"

context sorted_shard
begin

lemma rq_local_ok:
  assumes "sinv s"
  shows "\<exists>q. rq_local_preproc data lower_bound s p = Inr q \<and> rq_local_query data s q = Inr (filter (rq_in_range p) (data s))"
proof -
  obtain i where i: "lower_bound s (rq_lower p) = Inr i" "i \<le> length (data s)"
    "takeWhile (\<lambda>w. key (rec w) \<le> rq_upper p) (dropWhile (\<lambda>w. key (rec w) < rq_lower p) (drop i (data s))) = filter (rq_in_range p) (data s)"
    using range_from [OF assms, of "rq_lower p" "rq_upper p"] by (auto simp: rq_in_range_def [abs_def])
  then show ?thesis by (auto simp: rq_local_preproc_def rq_local_query_def)
qed

lemma rq_locals_ok:
  fixes Q :: "('s, ('k, 'v) Record, 'f, 'k rq_Parameters, 'k rq_LocalQuery, ('k, 'v, 'f) rq_LocalQueryBuffer,
      ('k, 'v) Record Wrapped, ('k, 'v) Record) query_ops"
  assumes Q: "Q = rq_Query data lower_bound pick"
    and "\<forall>s\<in>set ss. sinv s"
  shows "\<exists>lqs. mapE (\<lambda>s. rq_local_preproc data lower_bound s p) ss = Inr lqs \<and>
    query_shards Q has_buffer (zip ss lqs) p' = Inr (map (\<lambda>s. filter (rq_in_range p) (data s)) ss, p')"
  using assms(2)
proof (induction ss)
  case (Cons s ss)
  then obtain lqs where "mapE (\<lambda>s. rq_local_preproc data lower_bound s p) ss = Inr lqs"
    "query_shards Q has_buffer (zip ss lqs) p' = Inr (map (\<lambda>s. filter (rq_in_range p) (data s)) ss, p')"
    by auto
  moreover obtain q where "rq_local_preproc data lower_bound s p = Inr q" "rq_local_query data s q = Inr (filter (rq_in_range p) (data s))"
    using rq_local_ok [of s p] Cons.prems by auto
  ultimately show ?case by (intro exI [of _ "q # lqs"]) (simp add: Q rq_Query_def)
qed simp

lemma rq_results_ok:
  fixes Q :: "('s, ('k, 'v) Record, 'f, 'k rq_Parameters, 'k rq_LocalQuery, ('k, 'v, 'f) rq_LocalQueryBuffer,
      ('k, 'v) Record Wrapped, ('k, 'v) Record) query_ops"
  assumes Q: "Q = rq_Query data lower_bound pick"
    and "\<forall>s\<in>set ss. sinv s" and "view_wf v"
  shows "\<exists>lqs. mapE (\<lambda>s. rq_local_preproc data lower_bound s p) ss = Inr lqs \<and>
    query_results Q has_buffer ss lqs (rq_local_preproc_buffer v p) p = Inr (range_results data p v ss, p)"
proof -
  obtain lqs where lqs: "mapE (\<lambda>s. rq_local_preproc data lower_bound s p) ss = Inr lqs"
      "query_shards Q has_buffer (zip ss lqs) p = Inr (map (\<lambda>s. filter (rq_in_range p) (data s)) ss, p)"
    using rq_locals_ok [OF Q assms(2), where p = p and p' = p and has_buffer = has_buffer] by blast
  moreover have "q_local_buffer Q (rq_local_preproc_buffer v p) p = Inr (filter (rq_in_range p) (view_list v), p)"
    using rq_buffer_ok [OF assms(3), of p] by (simp add: Q rq_Query_def)
  moreover have "\<not> q_early_abort Q" by (simp add: Q rq_Query_def)
  ultimately show ?thesis by (intro exI [of _ lqs]) (simp add: query_results_def range_results_def comp_def)
qed

lemma range_round:
  fixes Q :: "('s, ('k, 'v) Record, 'f, 'k rq_Parameters, 'k rq_LocalQuery, ('k, 'v, 'f) rq_LocalQueryBuffer,
      ('k, 'v) Record Wrapped, ('k, 'v) Record) query_ops"
  assumes Q: "Q = rq_Query data lower_bound pick"
    and "\<forall>s\<in>set ss. sinv s" and "view_wf v" and "rq_combine pick (range_results data p v ss) [] = Inr res"
  shows "\<exists>lqs. mapE (\<lambda>s. rq_local_preproc data lower_bound s p) ss = Inr lqs \<and>
    query_round Q has_buffer ss p lqs (rq_local_preproc_buffer v p) [] =
      Inr (res, False, p, lqs, rq_local_preproc_buffer v p)"
proof -
  obtain lqs where "mapE (\<lambda>s. rq_local_preproc data lower_bound s p) ss = Inr lqs"
    "query_results Q has_buffer ss lqs (rq_local_preproc_buffer v p) p = Inr (range_results data p v ss, p)"
    using rq_results_ok [OF Q assms(2,3)] by blast
  moreover have "q_combine Q rs p' out = rq_combine pick rs out"
      "q_repeat Q p' out lqs bq = Inr (False, p', lqs, bq)" for rs p' out lqs bq
    by (simp_all add: Q rq_Query_def)
  ultimately show ?thesis using assms(4) by (intro exI [of _ lqs]) (simp add: query_round_def)
qed

lemma range_results_sorted: "\<forall>s\<in>set ss. sinv s \<Longrightarrow> rec_sorted (filter (rq_in_range p) (view_list v)) \<Longrightarrow> \<forall>r\<in>set (range_results data p v ss). rec_sorted r"
  using data_sorted by (auto simp: range_results_def intro: sorted_wrt_filter)

lemma round_exact:
  assumes "\<forall>s\<in>set ss. sinv s" and "view_wf v" and "min_pick (\<lambda>e. wkey_of (fst e)) pick"
    and "rec_sorted (filter (rq_in_range p) (view_list v))" and "pairs_meet (range_results data p v ss)"
  shows "\<exists>lqs res. mapE (\<lambda>s. rq_local_preproc data lower_bound s p) ss = Inr lqs \<and>
    query_round (rq_Query data lower_bound pick) has_buffer ss p lqs (rq_local_preproc_buffer v p) [] =
      Inr (res, False, p, lqs, rq_local_preproc_buffer v p) \<and>
    sorted_wrt (\<le>) res \<and> mset res = undeleted (filter (rq_in_range p) (view_list v @ concat (map data ss)))"
proof -
  obtain res where res: "rq_combine pick (range_results data p v ss) [] = Inr res" "sorted_wrt (\<le>) res"
      "mset res = undeleted (concat (range_results data p v ss))"
    using rq_combine_exact [OF assms(3) range_results_sorted [OF assms(1,4)] assms(5), of "[]"] by auto
  have "concat (range_results data p v ss) = filter (rq_in_range p) (view_list v @ concat (map data ss))"
    by (simp add: range_results_def filter_concat comp_def)
  then show ?thesis using range_round [OF refl assms(1,2) res(1)] res(2,3) by metis
qed

lemma round_inserts:
  assumes "\<forall>s\<in>set ss. sinv s" and "view_wf v" and "min_pick (\<lambda>e. wkey_of (fst e)) pick"
    and "\<forall>w\<in>set (view_list v @ concat (map data ss)). \<not> is_tombstone w"
  shows "\<exists>lqs res. mapE (\<lambda>s. rq_local_preproc data lower_bound s p) ss = Inr lqs \<and>
    query_round (rq_Query data lower_bound pick) has_buffer ss p lqs (rq_local_preproc_buffer v p) [] =
      Inr (res, False, p, lqs, rq_local_preproc_buffer v p) \<and>
    mset res = mset (map rec (filter (rq_in_range p) (view_list v @ concat (map data ss))))"
proof -
  have c: "concat (range_results data p v ss) = filter (rq_in_range p) (view_list v @ concat (map data ss))"
    by (simp add: range_results_def filter_concat comp_def)
  then have "\<forall>w\<in>set (concat (range_results data p v ss)). \<not> is_tombstone w" using assms(4) unfolding c by auto
  from rq_combine_inserts [OF assms(3) this, of "[]"] obtain res where
      "rq_combine pick (range_results data p v ss) [] = Inr res" "mset res = mset (map rec (concat (range_results data p v ss)))" by auto
  then show ?thesis using range_round [OF refl assms(1,2)] c by metis
qed

end


section \<open>Properties\<close>

text \<open>
  C6. A range query over a buffer and in-memory trees ends without error and answers, in order, with the untombstoned
  records in range: every entry in range that is not a tombstone and that no tombstone in range
  matches, with its multiplicity. This assumes that the entries in range come out of the buffer already sorted,
  and that whenever a record and a tombstone for it are both in range they come from different
  sources, are the only two entries of the record in range, and the record's header is not the larger one.
\<close>

theorem range_query_exact:
  fixes ss :: "('k::{linorder,zero}, 'v::linorder) MemISAM list" and v :: "(('k, 'v) Record, 'f) BufferView"
  assumes "\<forall>s\<in>set ss. mi_ready c s" and "view_wf v" and "min_pick (\<lambda>e. wkey_of (fst e)) pick"
    and "rec_sorted (filter (rq_in_range p) (view_list v))" and "pairs_meet (range_results mi_data p v ss)"
  shows "\<exists>lqs res. mapE (\<lambda>s. rq_local_preproc mi_data mi_get_lower_bound s p) ss = Inr lqs \<and>
    query_round (rq_Query mi_data mi_get_lower_bound pick) has_buffer ss p lqs (rq_local_preproc_buffer v p) [] =
      Inr (res, False, p, lqs, rq_local_preproc_buffer v p) \<and>
    sorted_wrt (\<le>) res \<and> mset res = undeleted (filter (rq_in_range p) (view_list v @ concat (map mi_data ss)))"
  by (rule mi.round_exact [OF assms])

text \<open>
  Without tombstones the answer is every entry in range, whatever the order of the buffer; the
  tag of a record deleted by tagging is not looked at.
\<close>

theorem range_query_inserts:
  fixes ss :: "('k::{linorder,zero}, 'v::linorder) MemISAM list" and v :: "(('k, 'v) Record, 'f) BufferView"
  assumes "\<forall>s\<in>set ss. mi_ready c s" and "view_wf v" and "min_pick (\<lambda>e. wkey_of (fst e)) pick"
    and "\<forall>w\<in>set (view_list v @ concat (map mi_data ss)). \<not> is_tombstone w"
  shows "\<exists>lqs res. mapE (\<lambda>s. rq_local_preproc mi_data mi_get_lower_bound s p) ss = Inr lqs \<and>
    query_round (rq_Query mi_data mi_get_lower_bound pick) has_buffer ss p lqs (rq_local_preproc_buffer v p) [] =
      Inr (res, False, p, lqs, rq_local_preproc_buffer v p) \<and>
    mset res = mset (map rec (filter (rq_in_range p) (view_list v @ concat (map mi_data ss))))"
  by (rule mi.round_inserts [OF assms])

text \<open>
  C23. The merge never drops an entry because of a tombstone from its own source. Whatever the sources, their
  order and the tie choice of the queue, the answer holds every entry that is not a tombstone and
  that no tombstone of another source matches, with its multiplicity, even when a tombstone in
  its own source, the buffer say, has deleted it.
\<close>

theorem range_query_same_source:
  "\<exists>res. rq_combine pick rss output = Inr (output @ res) \<and>
    (\<Sum>i<length rss. image_mset rec (filter_mset (\<lambda>w. \<not> is_tombstone w \<and>
       \<not> (\<exists>j<length rss. j \<noteq> i \<and> (\<exists>t\<in>set (rss ! j). cancels w t))) (mset (rss ! i)))) \<subseteq># mset res"
proof -
  define P where "P i w \<longleftrightarrow> \<not> is_tombstone w \<and> \<not> (\<exists>j<length rss. j \<noteq> i \<and> (\<exists>t\<in>set (rss ! j). cancels w t))"
    for i and w :: "'a Wrapped"
  obtain outs where o: "rq_combine pick rss output = Inr (fold rq_emit outs output)" "kept_entries P rss \<subseteq># mset outs"
    using merge_loop_keeps [OF rq_merge_inv [of rss], where P = P and pick = pick and emit = rq_emit and s = "output"] unfolding rq_combine_loop
    by (auto simp: P_def comp_def)
  have tomb: "filter_mset (\<lambda>w. \<not> is_tombstone w) (kept_entries P rss) = kept_entries P rss"
    by (auto simp: filter_mset_eq_conv in_kept_entries P_def)
  have "image_mset rec (kept_entries P rss) \<subseteq># image_mset rec (filter_mset (\<lambda>w. \<not> is_tombstone w) (mset outs))"
    using multiset_filter_mono [OF o(2), of "\<lambda>w. \<not> is_tombstone w"] unfolding tomb by (rule image_mset_subseteq_mono)
  moreover have "image_mset rec (kept_entries P rss) = (\<Sum>i<length rss. image_mset rec (filter_mset (P i) (mset (rss ! i))))"
    unfolding kept_entries_def by (rule image_mset_sum_lessThan)
  ultimately show ?thesis using o(1) by (simp add: fold_rq_emit P_def [abs_def] mset_filter)
qed

definition demo_range_view :: "((nat, nat) Record, unit) BufferView" where
  "demo_range_view = BufferView_new [\<lparr>header = 12, rec = Record 35 1\<rparr>, \<lparr>header = 21, rec = Record 40 1\<rparr>, \<lparr>header = 0, rec = Record 0 0\<rparr>] 3 0 2 0 None"

lemma demo_range_view_ok:
  "view_wf demo_range_view" "view_list demo_range_view = [\<lparr>header = 12, rec = Record 35 1\<rparr>, \<lparr>header = 21, rec = Record 40 1\<rparr>]"
  by (simp_all add: demo_range_view_def view_list_def ring_list_def BufferView_new_def upt_rec view_wf_def)

theorem range_query_exact_witness:
  "\<exists>lqs res. query_round (rq_Query mi_data mi_get_lower_bound (first_min (\<lambda>e. wkey_of (fst e)))) False [demo_mi]
      \<lparr>rq_lower = 20, rq_upper = 45\<rparr> lqs (rq_local_preproc_buffer demo_range_view \<lparr>rq_lower = 20, rq_upper = 45\<rparr>) [] =
      Inr (res, False, \<lparr>rq_lower = 20, rq_upper = 45\<rparr>, lqs, rq_local_preproc_buffer demo_range_view \<lparr>rq_lower = 20, rq_upper = 45\<rparr>) \<and>
    mset res = {#Record 35 1, Record 20 1, Record 30 1#}"
proof -
  let ?p = "\<lparr>rq_lower = 20, rq_upper = 45\<rparr> :: nat rq_Parameters"
  have r: "range_results mi_data ?p demo_range_view [demo_mi] =
      [[\<lparr>header = 12, rec = Record 35 1\<rparr>, \<lparr>header = 21, rec = Record 40 1\<rparr>],
       [\<lparr>header = 0, rec = Record 20 1\<rparr>, \<lparr>header = 0, rec = Record 30 1\<rparr>, \<lparr>header = 0, rec = Record 40 1\<rparr>]]"
    by (simp add: range_results_def rq_in_range_def demo_range_view_ok demo_mi_def)
  have "pairs_meet (range_results mi_data ?p demo_range_view [demo_mi])"
    unfolding r by (simp add: pairs_meet_def two_meet_def apart_def cancels_def is_tombstone_def)
  note pm = this
  have srt: "rec_sorted (filter (rq_in_range ?p) (view_list demo_range_view))"
    by (simp add: demo_range_view_ok rq_in_range_def less_eq_Record_def less_Record_def)
  have un: "undeleted (filter (rq_in_range ?p) (view_list demo_range_view @ concat (map mi_data [demo_mi]))) = {#Record 35 1, Record 20 1, Record 30 1#}"
    by (simp add: undeleted_def demo_range_view_ok demo_mi_def rq_in_range_def is_tombstone_def cancels_def)
  have "\<forall>s\<in>set [demo_mi]. mi_ready demo_mi_cfg s" by (simp add: demo_mi_ready)
  from range_query_exact [OF this demo_range_view_ok(1) first_min.min_pick_axioms srt pm, of False] show ?thesis unfolding un by blast
qed

theorem range_query_inserts_witness:
  "\<exists>lqs res. query_round (rq_Query mi_data mi_get_lower_bound (first_min (\<lambda>e. wkey_of (fst e)))) False [demo_mi]
      \<lparr>rq_lower = 10, rq_upper = 20\<rparr> lqs (rq_local_preproc_buffer demo_mem_view \<lparr>rq_lower = 10, rq_upper = 20\<rparr>) [] =
      Inr (res, False, \<lparr>rq_lower = 10, rq_upper = 20\<rparr>, lqs, rq_local_preproc_buffer demo_mem_view \<lparr>rq_lower = 10, rq_upper = 20\<rparr>) \<and>
    mset res = {#Record 10 1, Record 20 1, Record 10 1, Record 20 1#}"
proof -
  let ?p = "\<lparr>rq_lower = 10, rq_upper = 20\<rparr> :: nat rq_Parameters"
  have m: "mset (map rec (filter (rq_in_range ?p) (view_list demo_mem_view @ concat (map mi_data [demo_mi])))) =
      {#Record 10 1, Record 20 1, Record 10 1, Record 20 1#}"
    by (simp add: demo_mem_view_ok demo_mi_def rq_in_range_def)
  have nt: "\<forall>w\<in>set (view_list demo_mem_view @ concat (map mi_data [demo_mi])). \<not> is_tombstone w"
    by (simp add: demo_mem_view_ok demo_mi_def is_tombstone_def)
  have "\<forall>s\<in>set [demo_mi]. mi_ready demo_mi_cfg s" by (simp add: demo_mi_ready)
  from range_query_inserts [OF this demo_mem_view_ok(1) first_min.min_pick_axioms nt, of ?p False] show ?thesis unfolding m by blast
qed

end
