(* ===== verification/DE_RangeCount.thy ===== *)
theory DE_RangeCount
  imports DE_RangeQuery
begin

text \<open>
  Range counts (\<^verbatim>\<open>include/query/rangecount.h\<close>): the same local queries as a range query, but a local
  result is one pair of counts, of entries and of tombstones. The parameters and local queries
  have the fields of those of the range query.
\<close>

section \<open>The query type\<close>

record rc_LocalResult =
  rc_record_count :: nat
  rc_tombstone_count :: nat

definition rc_step :: "'r Wrapped \<Rightarrow> rc_LocalResult \<Rightarrow> rc_LocalResult" where
  "rc_step w c =
     (if \<not> is_deleted w
      then \<lparr>rc_record_count = Suc (rc_record_count c),
            rc_tombstone_count = (if is_tombstone w then Suc (rc_tombstone_count c) else rc_tombstone_count c)\<rparr>
      else c)"

fun rc_loop :: "'k::linorder \<Rightarrow> ('k, 'v) Record Wrapped list \<Rightarrow> rc_LocalResult \<Rightarrow> rc_LocalResult" where
  "rc_loop upper [] c = c"
| "rc_loop upper (w # ws) c = (if key (rec w) \<le> upper then rc_loop upper ws (rc_step w c) else c)"

definition rc_local_query ::
    "('s \<Rightarrow> ('k::linorder, 'v) Record Wrapped list) \<Rightarrow> 's \<Rightarrow> 'k rq_LocalQuery \<Rightarrow> rc_LocalResult list res" where
  "rc_local_query get_data s q =
     (if start_idx q = length (get_data s) then Inr []
      else if start_idx q > length (get_data s) then Inl NullDeref
      else
        let ptr = dropWhile (\<lambda>w. key (rec w) < rq_lower (global_parms q))
                    (drop (start_idx q) (take (stop_idx q) (get_data s)))
        in Inr [rc_loop (rq_upper (global_parms q)) ptr \<lparr>rc_record_count = 0, rc_tombstone_count = 0\<rparr>])"

fun rc_scan :: "(('k::linorder, 'v) Record, 'f) BufferView \<Rightarrow> 'k rq_Parameters \<Rightarrow> nat list \<Rightarrow> rc_LocalResult \<Rightarrow> rc_LocalResult res" where
  "rc_scan v p [] c = Inr c"
| "rc_scan v p (i # is) c =
     bindE (view_get v i) (\<lambda>w.
     rc_scan v p is (if key (rec w) \<ge> rq_lower p \<and> key (rec w) \<le> rq_upper p then rc_step w c else c))"

definition rc_local_query_buffer ::
    "('k::linorder, 'v, 'f) rq_LocalQueryBuffer \<Rightarrow> rc_LocalResult list res" where
  "rc_local_query_buffer q =
     bindE (rc_scan (rq_buffer q) (rq_parms q) [0..<view_record_count (rq_buffer q)] \<lparr>rc_record_count = 0, rc_tombstone_count = 0\<rparr>)
       (\<lambda>c. Inr [c])"

text \<open>The sums read the first entry of every local result.\<close>

fun rc_sum :: "rc_LocalResult list list \<Rightarrow> nat \<times> nat \<Rightarrow> (nat \<times> nat) res" where
  "rc_sum [] rt = Inr rt"
| "rc_sum (r # rs) (n, t) =
     bindE (vec_get r 0) (\<lambda>c. rc_sum rs (n + rc_record_count c, t + rc_tombstone_count c))"

definition rc_combine :: "rc_LocalResult list list \<Rightarrow> nat list \<Rightarrow> nat list res" where
  "rc_combine results output =
     bindE (rc_sum results (0, 0)) (\<lambda>(n, t).
     Inr (output @ [n - (if t > n then n else t)]))"

definition rc_Query ::
    "('s \<Rightarrow> ('k::linorder, 'v) Record Wrapped list) \<Rightarrow> ('s \<Rightarrow> 'k \<Rightarrow> nat res) \<Rightarrow>
     ('s, ('k, 'v) Record, 'f, 'k rq_Parameters, 'k rq_LocalQuery, ('k, 'v, 'f) rq_LocalQueryBuffer, rc_LocalResult, nat) query_ops" where
  "rc_Query get_data lower_bound =
     \<lparr>q_early_abort = False, q_preproc = rq_local_preproc get_data lower_bound, q_preproc_buffer = (\<lambda>v parms. Inr (rq_local_preproc_buffer v parms)),
      q_distribute = (\<lambda>p lqs bq. Inr (p, lqs, bq)),
      q_local = (\<lambda>has_buffer s q p. bindE (rc_local_query get_data s q) (\<lambda>rs. Inr (rs, p))),
      q_local_buffer = (\<lambda>q p. bindE (rc_local_query_buffer q) (\<lambda>rs. Inr (rs, p))),
      q_combine = (\<lambda>results p output. rc_combine results output),
      q_repeat = (\<lambda>p output lqs bq. Inr (False, p, lqs, bq))\<rparr>"

section \<open>What it counts\<close>

definition counts_of :: "'r Wrapped list \<Rightarrow> rc_LocalResult" where
  "counts_of ws = \<lparr>rc_record_count = length (filter (\<lambda>w. \<not> is_deleted w) ws),
     rc_tombstone_count = length (filter (\<lambda>w. \<not> is_deleted w \<and> is_tombstone w) ws)\<rparr>"

lemma fold_rc_step:
  "fold rc_step ws c = \<lparr>rc_record_count = rc_record_count c + rc_record_count (counts_of ws),
     rc_tombstone_count = rc_tombstone_count c + rc_tombstone_count (counts_of ws)\<rparr>"
  by (induction ws arbitrary: c) (simp_all add: rc_step_def counts_of_def)

lemma rc_loop_fold: "rc_loop u ws c = fold rc_step (takeWhile (\<lambda>w. key (rec w) \<le> u) ws) c"
  by (induction ws arbitrary: c) simp_all

lemma rc_scan_ok:
  assumes "\<forall>i\<in>set is. view_get v i = Inr (ws ! i)"
  shows "rc_scan v p is c = Inr (fold rc_step (filter (rq_in_range p) (map ((!) ws) is)) c)"
  using assms by (induction "is" arbitrary: c) (simp_all add: rq_in_range_def)

lemma rc_buffer_ok:
  assumes "view_wf v"
  shows "rc_local_query_buffer (rq_local_preproc_buffer v p) = Inr [counts_of (filter (rq_in_range p) (view_list v))]"
proof -
  have "\<forall>i\<in>set [0..<view_record_count v]. view_get v i = Inr (view_list v ! i)"
    using view_get_wf [OF assms] by simp
  from rc_scan_ok [OF this, of p] have "rc_scan v p [0..<view_record_count v] c = Inr (fold rc_step (filter (rq_in_range p) (view_list v)) c)" for c
    unfolding length_view_list [OF assms, symmetric] map_nth .
  then show ?thesis by (simp add: rc_local_query_buffer_def rq_local_preproc_buffer_def fold_rc_step)
qed

lemma rc_sum_ok:
  "rc_sum rss (n, t) = (if [] \<in> set rss then Inl OutOfBounds
     else Inr (n + (\<Sum>r\<leftarrow>rss. rc_record_count (hd r)), t + (\<Sum>r\<leftarrow>rss. rc_tombstone_count (hd r))))"
proof (induction rss arbitrary: n t)
  case (Cons r rss)
  then show ?case by (cases r) (simp_all add: vec_get_def)
qed simp

lemma counts_le: "rc_tombstone_count (counts_of ws) \<le> rc_record_count (counts_of ws)"
  by (induction ws) (simp_all add: counts_of_def)

lemma counts_diff: "rc_record_count (counts_of ws) = rc_tombstone_count (counts_of ws) + length (filter (\<lambda>w. \<not> is_deleted w \<and> \<not> is_tombstone w) ws)"
  by (induction ws) (simp_all add: counts_of_def)

context sorted_shard
begin

lemma rc_local_ok:
  assumes "sinv s"
  shows "\<exists>q. rq_local_preproc data lower_bound s p = Inr q \<and>
    rc_local_query data s q = Inr (if \<forall>w\<in>set (data s). key (rec w) < rq_lower p then [] else [counts_of (filter (rq_in_range p) (data s))])"
proof -
  obtain i where i: "lower_bound s (rq_lower p) = Inr i" "i \<le> length (data s)"
    "takeWhile (\<lambda>w. key (rec w) \<le> rq_upper p) (dropWhile (\<lambda>w. key (rec w) < rq_lower p) (drop i (data s))) = filter (rq_in_range p) (data s)"
    using range_from [OF assms, of "rq_lower p" "rq_upper p"] by (auto simp: rq_in_range_def [abs_def])
  have "i = length (data s) \<longleftrightarrow> (\<forall>w\<in>set (data s). key (rec w) < rq_lower p)"
    using lower_bound_before [OF assms, of "rq_lower p"] lower_bound_end [OF assms, of "rq_lower p"] i(1) by (auto simp: in_set_conv_nth)
  then show ?thesis
    using i by (auto simp: rq_local_preproc_def rc_local_query_def rc_loop_fold fold_rc_step)
qed

lemma rc_locals_ok:
  fixes Q :: "('s, ('k, 'v) Record, 'f, 'k rq_Parameters, 'k rq_LocalQuery, ('k, 'v, 'f) rq_LocalQueryBuffer, rc_LocalResult, nat) query_ops"
  assumes Q: "Q = rc_Query data lower_bound" and "\<forall>s\<in>set ss. sinv s"
  shows "\<exists>lqs. mapE (\<lambda>s. rq_local_preproc data lower_bound s p) ss = Inr lqs \<and>
    query_shards Q has_buffer (zip ss lqs) p' =
      Inr (map (\<lambda>s. if \<forall>w\<in>set (data s). key (rec w) < rq_lower p then [] else [counts_of (filter (rq_in_range p) (data s))]) ss, p')"
  using assms(2)
proof (induction ss)
  case (Cons s ss)
  then obtain lqs where "mapE (\<lambda>s. rq_local_preproc data lower_bound s p) ss = Inr lqs"
    "query_shards Q has_buffer (zip ss lqs) p' =
      Inr (map (\<lambda>s. if \<forall>w\<in>set (data s). key (rec w) < rq_lower p then [] else [counts_of (filter (rq_in_range p) (data s))]) ss, p')"
    by auto
  moreover obtain q where "rq_local_preproc data lower_bound s p = Inr q"
      "rc_local_query data s q = Inr (if \<forall>w\<in>set (data s). key (rec w) < rq_lower p then [] else [counts_of (filter (rq_in_range p) (data s))])"
    using rc_local_ok [of s p] Cons.prems by auto
  ultimately show ?case by (intro exI [of _ "q # lqs"]) (simp add: Q rc_Query_def)
qed simp

lemma round_count:
  fixes v :: "(('k, 'v) Record, 'f) BufferView"
  assumes "\<forall>s\<in>set ss. sinv s" and "view_wf v"
  shows "\<exists>lqs. mapE (\<lambda>s. rq_local_preproc data lower_bound s p) ss = Inr lqs \<and>
    query_round (rc_Query data lower_bound) has_buffer ss p lqs (rq_local_preproc_buffer v p) [] =
      (if \<exists>s\<in>set ss. \<forall>w\<in>set (data s). key (rec w) < rq_lower p then Inl OutOfBounds
       else Inr ([length (filter (\<lambda>w. rq_in_range p w \<and> \<not> is_deleted w \<and> \<not> is_tombstone w) (view_list v @ concat (map data ss)))],
                 False, p, lqs, rq_local_preproc_buffer v p))"
proof -
  define Q :: "('s, ('k, 'v) Record, 'f, 'k rq_Parameters, 'k rq_LocalQuery, ('k, 'v, 'f) rq_LocalQueryBuffer, rc_LocalResult, nat) query_ops"
    where "Q = rc_Query data lower_bound"
  let ?low = "\<lambda>s. \<forall>w\<in>set (data s). key (rec w) < rq_lower p"
  define f where "f = (\<lambda>ws :: ('k, 'v) Record Wrapped list. counts_of (filter (rq_in_range p) ws))"
  define rss where "rss = map (\<lambda>s. if ?low s then [] else [f (data s)]) ss"
  obtain lqs where lqs: "mapE (\<lambda>s. rq_local_preproc data lower_bound s p) ss = Inr lqs"
      "query_shards Q has_buffer (zip ss lqs) p = Inr (rss, p)"
    using rc_locals_ok [OF Q_def assms(1), of p has_buffer p] unfolding rss_def f_def by blast
  have "query_results Q has_buffer ss lqs (rq_local_preproc_buffer v p) p = Inr ([f (view_list v)] # rss, p)"
    unfolding query_results_def using rc_buffer_ok [OF assms(2), of p] lqs(2) by (simp add: Q_def rc_Query_def f_def)
  then have round: "query_round Q has_buffer ss p lqs (rq_local_preproc_buffer v p) [] =
      bindE (rc_combine ([f (view_list v)] # rss) []) (\<lambda>out. Inr (out, False, p, lqs, rq_local_preproc_buffer v p))"
    by (simp add: query_round_def) (simp add: Q_def rc_Query_def)
  have low: "[] \<in> set rss \<longleftrightarrow> (\<exists>s\<in>set ss. ?low s)" by (auto simp: rss_def)
  have count: "rc_record_count (f ws) = rc_tombstone_count (f ws) + length (filter (\<lambda>w. rq_in_range p w \<and> \<not> is_deleted w \<and> \<not> is_tombstone w) ws)" for ws
    unfolding f_def by (subst counts_diff) (simp add: conj_commute conj_left_commute)
  have hds: "\<not> (\<exists>s\<in>set ss. ?low s) \<Longrightarrow> map hd rss = map (\<lambda>s. f (data s)) ss" by (auto simp: rss_def)
  have sums: "(\<Sum>s\<leftarrow>us. rc_record_count (f (data s))) = (\<Sum>s\<leftarrow>us. rc_tombstone_count (f (data s))) +
      length (filter (\<lambda>w. rq_in_range p w \<and> \<not> is_deleted w \<and> \<not> is_tombstone w) (concat (map data us)))" for us
    by (induction us) (simp_all add: count)
  have "rc_combine ([f (view_list v)] # rss) [] = (if \<exists>s\<in>set ss. ?low s then Inl OutOfBounds
      else Inr [length (filter (\<lambda>w. rq_in_range p w \<and> \<not> is_deleted w \<and> \<not> is_tombstone w) (view_list v @ concat (map data ss)))])"
  proof (cases "\<exists>s\<in>set ss. ?low s")
    case False
    then have "map (\<lambda>r. rc_record_count (hd r)) rss = map (\<lambda>s. rc_record_count (f (data s))) ss"
        "map (\<lambda>r. rc_tombstone_count (hd r)) rss = map (\<lambda>s. rc_tombstone_count (f (data s))) ss"
      by (auto simp: rss_def)
    then show ?thesis using False low sums [of ss] count [of "view_list v"] by (simp add: rc_combine_def rc_sum_ok vec_get_def)
  qed (use low in \<open>simp add: rc_combine_def rc_sum_ok vec_get_def\<close>)
  then show ?thesis using lqs(1) round unfolding Q_def by auto
qed

end

section \<open>Property\<close>

text \<open>
  C32. A range count over a buffer and in-memory trees is the number of records in range that were
  inserted and not tagged: tombstones never lower it. When all the keys of a shard are below the range the
  local result is empty and the combination reads past its end.
\<close>

theorem range_count_result:
  fixes ss :: "('k::{linorder,zero}, 'v::linorder) MemISAM list" and v :: "(('k, 'v) Record, 'f) BufferView"
  assumes "\<forall>s\<in>set ss. mi_ready c s" and "view_wf v"
  shows "\<exists>lqs. mapE (\<lambda>s. rq_local_preproc mi_data mi_get_lower_bound s p) ss = Inr lqs \<and>
    query_round (rc_Query mi_data mi_get_lower_bound) has_buffer ss p lqs (rq_local_preproc_buffer v p) [] =
      (if \<exists>s\<in>set ss. \<forall>w\<in>set (mi_data s). key (rec w) < rq_lower p then Inl OutOfBounds
       else Inr ([length (filter (\<lambda>w. rq_in_range p w \<and> \<not> is_deleted w \<and> \<not> is_tombstone w) (view_list v @ concat (map mi_data ss)))],
                 False, p, lqs, rq_local_preproc_buffer v p))"
  by (rule mi.round_count [OF assms])

text \<open>Four insertions in range and a tombstone for one of them: the count is four.\<close>

theorem range_count_result_witness:
  "\<exists>lqs. query_round (rc_Query mi_data mi_get_lower_bound) False [demo_mi]
      \<lparr>rq_lower = 20, rq_upper = 40\<rparr> lqs (rq_local_preproc_buffer demo_range_view \<lparr>rq_lower = 20, rq_upper = 40\<rparr>) [] =
      Inr ([4], False, \<lparr>rq_lower = 20, rq_upper = 40\<rparr>, lqs, rq_local_preproc_buffer demo_range_view \<lparr>rq_lower = 20, rq_upper = 40\<rparr>)"
proof -
  let ?p = "\<lparr>rq_lower = 20, rq_upper = 40\<rparr> :: nat rq_Parameters"
  have four: "length (filter (\<lambda>w. rq_in_range ?p w \<and> \<not> is_deleted w \<and> \<not> is_tombstone w) (view_list demo_range_view @ concat (map mi_data [demo_mi]))) = 4"
    by (simp add: demo_range_view_ok demo_mi_def rq_in_range_def is_tombstone_def is_deleted_def)
  have low: "\<not> (\<exists>s\<in>set [demo_mi]. \<forall>w\<in>set (mi_data s). key (rec w) < rq_lower ?p)" by (simp add: demo_mi_def)
  have "\<forall>s\<in>set [demo_mi]. mi_ready demo_mi_cfg s" by (simp add: demo_mi_ready)
  from range_count_result [OF this demo_range_view_ok(1), of ?p False] show ?thesis
    unfolding if_not_P [OF low] four by blast
qed

end
