(* ===== verification/DE_LearnedSearch.thy ===== *)
theory DE_LearnedSearch
  imports DE_SortedShard
begin

text \<open>
  The search the shards over a learned index share (\<^verbatim>\<open>get_lower_bound\<close> of \<^verbatim>\<open>include/shard/PGM.h\<close> and
  \<^verbatim>\<open>include/shard/TrieSpline.h\<close>): the index, third-party code, bounds a window of the array; the window is
  searched, linearly if it is short, by halving otherwise.
\<close>

section \<open>The code\<close>

function lin_search :: "('k::linorder, 'v) Record Wrapped list \<Rightarrow> 'k \<Rightarrow> nat \<Rightarrow> nat \<Rightarrow> nat res" where
  "lin_search ws k hi idx =
     (if idx < hi then bindE (vec_get ws idx) (\<lambda>w. if key (rec w) < k then lin_search ws k hi (Suc idx) else Inr idx)
      else Inr idx)"
  by pat_completeness auto
termination
  by (relation "measure (\<lambda>(ws, k, hi, idx). hi - idx)") auto

function bin_search :: "('k::linorder, 'v) Record Wrapped list \<Rightarrow> 'k \<Rightarrow> nat \<Rightarrow> nat \<Rightarrow> nat res" where
  "bin_search ws k idx hi =
     (if idx < hi then
        let mid = (idx + hi) div 2 in
        bindE (vec_get ws mid) (\<lambda>w. if k > key (rec w) then bin_search ws k (mid + 1) hi else bin_search ws k idx mid)
      else Inr idx)"
  by pat_completeness auto
termination
  by (relation "measure (\<lambda>(ws, k, idx, hi). hi - idx)") auto

declare lin_search.simps [simp del] bin_search.simps [simp del]

definition window_search :: "('k::linorder, 'v) Record Wrapped list \<Rightarrow> 'k \<Rightarrow> nat \<Rightarrow> nat \<Rightarrow> nat res" where
  "window_search ws k lo hi =
     (if sz_sub hi lo < 256 then lin_search ws k hi lo else bin_search ws k lo hi)"

text \<open>The index before, if the record there has a key not greater and this one a greater key.\<close>

definition step_back :: "('k::linorder, 'v) Record Wrapped list \<Rightarrow> 'k \<Rightarrow> nat \<Rightarrow> nat option res" where
  "step_back ws k idx =
     bindE (vec_get ws idx) (\<lambda>w.
     if key (rec w) > k \<and> idx > 0
     then bindE (vec_get ws (idx - 1)) (\<lambda>w'. Inr (if key (rec w') \<le> k then Some (idx - 1) else None))
     else Inr None)"

section \<open>What it finds\<close>

definition lower_count :: "'k::linorder \<Rightarrow> ('k, 'v) Record Wrapped list \<Rightarrow> nat" where
  "lower_count k ws = length (filter (\<lambda>w. key (rec w) < k) ws)"

abbreviation keys_of :: "('k, 'v) Record Wrapped list \<Rightarrow> 'k list" where
  "keys_of ws \<equiv> map (\<lambda>w. key (rec w)) ws"

lemma lower_count_le: "lower_count k ws \<le> length ws"
  by (simp add: lower_count_def)

lemma less_lower_count:
  assumes "sorted (keys_of ws)" and "i < length ws"
  shows "i < lower_count k ws \<longleftrightarrow> key (rec (ws ! i)) < k"
proof -
  have "sorted_wrt (\<lambda>a b. key (rec a) \<le> key (rec b)) ws" using assms(1) by (simp add: sorted_wrt_map)
  then have n: "lower_count k ws = first_pos (\<lambda>w. k \<le> key (rec w)) ws"
    unfolding lower_count_def by (rule first_pos_filter(1) [symmetric])
  show ?thesis
  proof
    assume "i < lower_count k ws"
    then show "key (rec (ws ! i)) < k"
      using first_pos_before [of i "\<lambda>w. k \<le> key (rec w)" ws] unfolding n by simp
  next
    assume lt: "key (rec (ws ! i)) < k"
    show "i < lower_count k ws"
    proof (rule ccontr)
      assume ge: "\<not> i < lower_count k ws"
      then have "lower_count k ws < length ws" using assms(2) by simp
      then have "k \<le> key (rec (ws ! lower_count k ws))" unfolding n by (rule first_pos_at)
      moreover have "key (rec (ws ! lower_count k ws)) \<le> key (rec (ws ! i))"
        using sorted_nth_mono [OF assms(1), of "lower_count k ws" i] ge assms(2) \<open>lower_count k ws < length ws\<close> by simp
      ultimately show False using lt by simp
    qed
  qed
qed

lemma lin_search_ok:
  assumes "sorted (keys_of ws)" and "idx \<le> lower_count k ws" and "lower_count k ws \<le> hi" and "hi \<le> length ws"
  shows "lin_search ws k hi idx = Inr (lower_count k ws)"
  using assms
proof (induction ws k hi idx rule: lin_search.induct)
  case (1 ws k hi idx)
  show ?case
  proof (cases "idx < hi")
    case True
    then have i: "idx < length ws" using "1.prems"(4) by simp
    then show ?thesis
      using "1.IH" [OF True, of "ws ! idx"] "1.prems" True less_lower_count [OF "1.prems"(1) i, of k]
      by (subst lin_search.simps) (auto simp: vec_get_def)
  next
    case False
    then show ?thesis using "1.prems" by (subst lin_search.simps) simp
  qed
qed

lemma bin_search_ok:
  assumes "sorted (keys_of ws)" and "idx \<le> lower_count k ws" and "lower_count k ws \<le> hi" and "hi \<le> length ws"
  shows "bin_search ws k idx hi = Inr (lower_count k ws)"
  using assms
proof (induction ws k idx hi rule: bin_search.induct)
  case (1 ws k idx hi)
  show ?case
  proof (cases "idx < hi")
    case True
    define mid where "mid = (idx + hi) div 2"
    have mid: "idx \<le> mid" "mid < hi" using True by (simp_all add: mid_def)
    then have i: "mid < length ws" using "1.prems"(4) by simp
    have l: "mid < lower_count k ws \<longleftrightarrow> key (rec (ws ! mid)) < k" by (rule less_lower_count [OF "1.prems"(1) i])
    have v: "vec_get ws mid = Inr (ws ! mid)" using i by (simp add: vec_get_def)
    show ?thesis
    proof (cases "key (rec (ws ! mid)) < k")
      case lt: True
      have "bin_search ws k (mid + 1) hi = Inr (lower_count k ws)"
        using "1.IH"(1) [OF True mid_def lt "1.prems"(1)] "1.prems"(3,4) l lt by simp
      then show ?thesis using True lt v by (subst bin_search.simps) (simp add: Let_def flip: mid_def)
    next
      case ge: False
      have "bin_search ws k idx mid = Inr (lower_count k ws)"
        using "1.IH"(2) [OF True mid_def ge "1.prems"(1)] "1.prems"(2) l ge i by simp
      then show ?thesis using True ge v by (subst bin_search.simps) (simp add: Let_def flip: mid_def)
    qed
  next
    case False
    then show ?thesis using "1.prems" by (subst bin_search.simps) simp
  qed
qed

lemma window_search_ok:
  assumes "sorted (keys_of ws)" and "lo \<le> lower_count k ws" and "lower_count k ws \<le> hi" and "hi \<le> length ws"
  shows "window_search ws k lo hi = Inr (lower_count k ws)"
  using lin_search_ok [OF assms] bin_search_ok [OF assms] by (simp add: window_search_def)

lemma step_back_ok:
  assumes "sorted (keys_of ws)" and "lower_count k ws < length ws"
  shows "step_back ws k (lower_count k ws) =
    Inr (if key (rec (ws ! lower_count k ws)) > k \<and> lower_count k ws > 0 then Some (lower_count k ws - 1) else None)"
proof -
  have "key (rec (ws ! (lower_count k ws - 1))) \<le> k" if "lower_count k ws > 0"
    using less_lower_count [OF assms(1), of "lower_count k ws - 1" k] assms(2) that by (intro less_imp_le) simp
  then show ?thesis using assms(2) by (simp add: step_back_def vec_get_def less_imp_diff_less)
qed

text \<open>The position both shards return: one too low when the key is absent and not below all others.\<close>

definition learned_pos :: "'k::linorder \<Rightarrow> ('k, 'v) Record Wrapped list \<Rightarrow> nat" where
  "learned_pos k ws =
     (let n = lower_count k ws in
      if n < length ws \<and> 0 < n \<and> key (rec (ws ! n)) > k then n - 1 else n)"

lemma learned_pos_ok:
  assumes "rec_sorted (ws :: ('k::linorder, 'v::linorder) Record Wrapped list)"
  shows "learned_pos k ws \<le> length ws" and "j < learned_pos k ws \<Longrightarrow> key (rec (ws ! j)) < k"
    and "\<forall>w\<in>set ws. key (rec w) < k \<Longrightarrow> learned_pos k ws = length ws"
proof -
  have srt: "sorted (keys_of ws)"
    using sorted_wrt_mono_rel [OF _ assms, of "\<lambda>a b. key (rec a) \<le> key (rec b)"] key_mono by (auto simp: sorted_wrt_map)
  have le: "learned_pos k ws \<le> lower_count k ws" by (simp add: learned_pos_def Let_def)
  then show "learned_pos k ws \<le> length ws" using lower_count_le order_trans by blast
  show "key (rec (ws ! j)) < k" if "j < learned_pos k ws"
    using that le lower_count_le [of k ws] less_lower_count [OF srt, of j k] by simp
  assume "\<forall>w\<in>set ws. key (rec w) < k"
  then have "lower_count k ws = length ws" by (simp add: lower_count_def)
  then show "learned_pos k ws = length ws" by (simp add: learned_pos_def)
qed

end
