(* ===== verification/DE_PGM.thy ===== *)
theory DE_PGM
  imports DE_LearnedSearch
begin

text \<open>
  The shard over a PGM index (\<^verbatim>\<open>include/shard/PGM.h\<close>): a sorted array and a learned index of its keys.
  The index is third-party code (\<^verbatim>\<open>pgm/pgm_index.hpp\<close>) and a parameter of the model. No filter is ever
  allocated.
\<close>

section \<open>The shard\<close>

text \<open>
  The third-party index: building it from the keys, the bounds \<open>lo\<close> and \<open>hi\<close> of a search, and the
  value a default-constructed index has.
\<close>

record ('k, 'i) pgm_ops =
  pgm_build :: "'k list \<Rightarrow> 'i"
  pgm_search :: "'i \<Rightarrow> 'k \<Rightarrow> nat \<times> nat"
  pgm_default :: 'i

record ('k, 'v, 'i) PGM =
  pgm_data :: "('k, 'v) Record Wrapped list"
  pgm_tombstone_cnt :: nat
  m_pgm :: 'i

definition pgm_reccnt :: "('k, 'v, 'i) PGM \<Rightarrow> nat" where
  "pgm_reccnt s = length (pgm_data s)"

text \<open>Both constructors collect the keys beside the records.\<close>

fun pgm_emit ::
    "('f, ('k, 'v) Record) bloom_ops \<Rightarrow> ('k, 'v) Record Wrapped \<Rightarrow> (('k, 'v) Record, 'f) merge_out \<times> 'k list \<Rightarrow>
     (('k, 'v) Record, 'f) merge_out \<times> 'k list" where
  "pgm_emit B w (out, keys) = (emit_record B w out, keys @ [key (rec w)])"

definition pgm_merge_emit ::
    "('f, ('k, 'v) Record) bloom_ops \<Rightarrow> ('k, 'v) Record Wrapped \<Rightarrow> (('k, 'v) Record, 'f) merge_out \<times> 'k list \<Rightarrow>
     (('k, 'v) Record, 'f) merge_out \<times> 'k list" where
  "pgm_merge_emit B w s = (if \<not> is_deleted w then pgm_emit B w s else s)"

definition pgm_finish ::
    "('k, 'i) pgm_ops \<Rightarrow> (('k, 'v) Record, 'f) merge_out \<times> 'k list \<Rightarrow> ('k, 'v, 'i) PGM" where
  "pgm_finish P s =
     (case s of ((info, ws, bf), keys) \<Rightarrow>
        \<lparr>pgm_data = ws, pgm_tombstone_cnt = tombstone_count info,
         m_pgm = (if record_count info > 0 then pgm_build P keys else pgm_default P)\<rparr>)"

definition pgm_of_view ::
    "('k, 'i) pgm_ops \<Rightarrow> ('f, ('k::linorder, 'v::linorder) Record) bloom_ops \<Rightarrow> (('k, 'v) Record, 'b) BufferView \<Rightarrow> ('k, 'v, 'i) PGM res" where
  "pgm_of_view P B buffer =
     bindE (copy_to_buffer buffer) (\<lambda>temp.
     Inr (pgm_finish P (bufferview_loop (pgm_emit B) (sort_key wkey_of temp) (merge_start None, []))))"

definition pgm_of_shards ::
    "('k, 'i) pgm_ops \<Rightarrow> ((('k, 'v) Record Wrapped \<times> nat) list \<Rightarrow> nat) \<Rightarrow> ('f, ('k::linorder, 'v::linorder) Record) bloom_ops \<Rightarrow>
     ('k, 'v, 'i) PGM option list \<Rightarrow> ('k, 'v, 'i) PGM res" where
  "pgm_of_shards P pick B shards =
     (case build_cursor_vec pgm_data pgm_reccnt pgm_tombstone_cnt shards of (cursors, _, _) \<Rightarrow>
      bindE (push_all 0 id cursors []) (\<lambda>q.
      bindE (merge_loop id pick (pgm_merge_emit B) cursors q (merge_start None, [])) (\<lambda>s.
      Inr (pgm_finish P s))))"

definition pgm_get_lower_bound :: "('k::linorder, 'i) pgm_ops \<Rightarrow> ('k, 'v, 'i) PGM \<Rightarrow> 'k \<Rightarrow> nat res" where
  "pgm_get_lower_bound P s k =
     (let n = pgm_reccnt s; (lo, hi) = pgm_search P (m_pgm s) k in
      if lo \<ge> n then Inr n
      else
        bindE (window_search (pgm_data s) k lo hi) (\<lambda>idx.
        if idx = n then Inr idx
        else
          bindE (step_back (pgm_data s) k idx) (\<lambda>back.
          case back of
            Some i \<Rightarrow> Inr i
          | None \<Rightarrow> bindE (vec_get (pgm_data s) idx) (\<lambda>w. Inr (if key (rec w) \<ge> k then idx else n)))))"

definition pgm_point_lookup ::
    "('k::linorder, 'i) pgm_ops \<Rightarrow> ('k, 'v::linorder, 'i) PGM \<Rightarrow> ('k, 'v) Record \<Rightarrow> bool \<Rightarrow> ('k, 'v) Record Wrapped option res" where
  "pgm_point_lookup P s r use_filter = bindE (pgm_get_lower_bound P s (key r)) (scan_from (pgm_data s) r)"

definition pgm_get_record_at :: "('k, 'v, 'i) PGM \<Rightarrow> nat \<Rightarrow> ('k, 'v) Record Wrapped option" where
  "pgm_get_record_at s idx = (if idx \<ge> pgm_reccnt s then None else Some (pgm_data s ! idx))"

section \<open>What it relies on and what it keeps\<close>

text \<open>
  What the code relies on: an index built from sorted keys bounds the position of the first key that
  is not smaller (the documented use of \<^verbatim>\<open>search\<close> with \<^verbatim>\<open>std::lower_bound\<close>).
\<close>

definition pgm_ops_ok :: "('k::linorder, 'i) pgm_ops \<Rightarrow> bool" where
  "pgm_ops_ok P \<longleftrightarrow> (\<forall>ks k. sorted ks \<and> ks \<noteq> [] \<longrightarrow>
     (case pgm_search P (pgm_build P ks) k of (lo, hi) \<Rightarrow>
        lo \<le> length (filter (\<lambda>x. x < k) ks) \<and> length (filter (\<lambda>x. x < k) ks) \<le> hi \<and> hi \<le> length ks))"

definition pgm_inv :: "('k::linorder, 'i) pgm_ops \<Rightarrow> ('k, 'v::linorder, 'i) PGM \<Rightarrow> bool" where
  "pgm_inv P s \<longleftrightarrow> pgm_ops_ok P \<and> rec_sorted (pgm_data s) \<and>
     (pgm_data s \<noteq> [] \<longrightarrow> m_pgm s = pgm_build P (keys_of (pgm_data s)))"

lemma pgm_keys_sorted: "rec_sorted (ws :: ('k::linorder, 'v::linorder) Record Wrapped list) \<Longrightarrow> sorted (keys_of ws)"
  using sorted_wrt_mono_rel [of ws "\<lambda>a b. rec a \<le> rec b" "\<lambda>a b. key (rec a) \<le> key (rec b)"] key_mono
  by (auto simp: sorted_wrt_map)

lemma pgm_lower_bound_ok:
  assumes "pgm_inv P s"
  shows "pgm_get_lower_bound P s k = Inr (learned_pos k (pgm_data s))"
proof -
  let ?ws = "pgm_data s" and ?n = "lower_count k (pgm_data s)"
  obtain lo hi where b: "pgm_search P (m_pgm s) k = (lo, hi)" by force
  have srt: "sorted (keys_of ?ws)" using assms pgm_keys_sorted by (auto simp: pgm_inv_def)
  show ?thesis
  proof (cases "?ws = []")
    case True
    then show ?thesis by (simp add: pgm_get_lower_bound_def b pgm_reccnt_def learned_pos_def lower_count_def)
  next
    case False
    have f: "length (filter (\<lambda>x. x < k) (keys_of ?ws)) = ?n" by (simp add: lower_count_def filter_map comp_def)
    have "m_pgm s = pgm_build P (keys_of ?ws)" "pgm_ops_ok P" using assms False by (simp_all add: pgm_inv_def)
    then have w: "lo \<le> ?n" "?n \<le> hi" "hi \<le> length ?ws"
      using b srt False f unfolding pgm_ops_ok_def by (metis (no_types, lifting) case_prod_conv length_map map_is_Nil_conv)+
    note ws = window_search_ok [OF srt w]
    show ?thesis
    proof (cases "?n < length ?ws")
      case lt: True
      have "\<not> key (rec (?ws ! ?n)) < k" using less_lower_count [OF srt lt, of k] by simp
      then show ?thesis using lt w(1) ws step_back_ok [OF srt lt]
        by (simp add: pgm_get_lower_bound_def b pgm_reccnt_def learned_pos_def vec_get_def not_less)
    next
      case False
      then have "?n = length ?ws" using lower_count_le [of k ?ws] by simp
      then show ?thesis using ws w by (auto simp: pgm_get_lower_bound_def b pgm_reccnt_def learned_pos_def)
    qed
  qed
qed

interpretation pgm: sorted_shard pgm_data "pgm_get_lower_bound P" "pgm_inv P" for P :: "('k::linorder, 'i) pgm_ops"
proof
  fix s :: "('k::linorder, 'v::linorder, 'i) PGM" and k
  assume s: "pgm_inv P s"
  then show srt: "rec_sorted (pgm_data s)" by (simp add: pgm_inv_def)
  note lb = pgm_lower_bound_ok [OF s, of k] and p = learned_pos_ok [OF srt]
  show "\<exists>i. pgm_get_lower_bound P s k = Inr i \<and> i \<le> length (pgm_data s) \<and> (\<forall>j<i. key (rec (pgm_data s ! j)) < k)"
    using lb p(1,2) by auto
  assume "\<forall>w\<in>set (pgm_data s). key (rec w) < k"
  then show "pgm_get_lower_bound P s k = Inr (length (pgm_data s))" using lb p(3) by simp
qed

section \<open>The constructors\<close>

definition with_keys :: "(('k, 'v) Record, 'f) merge_out \<Rightarrow> (('k, 'v) Record, 'f) merge_out \<times> 'k list" where
  "with_keys out = (out, keys_of (fst (snd out)))"

lemma with_keys_emit: "with_keys (emit_record B w out) = pgm_emit B w (with_keys out)"
  by (cases out rule: prod_cases3) (simp add: with_keys_def)

lemma with_keys_merge: "with_keys (merge_emit B w out) = pgm_merge_emit B w (with_keys out)"
  by (simp add: merge_emit_def pgm_merge_emit_def with_keys_emit)

lemma with_keys_start: "with_keys (merge_start bf) = (merge_start bf, [])"
  by (simp add: with_keys_def merge_start_def)

lemma pgm_finish_ok:
  assumes "pgm_ops_ok P" and "shard_data_ok B src bf out"
  shows "pgm_inv P (pgm_finish P (with_keys out)) \<and> net (pgm_data (pgm_finish P (with_keys out))) = net src \<and>
    pgm_tombstone_cnt (pgm_finish P (with_keys out)) = length (filter is_tombstone (pgm_data (pgm_finish P (with_keys out))))"
proof -
  obtain info ws bf' where out: "out = (info, ws, bf')" using prod_cases3 by blast
  then show ?thesis using assms by (auto simp: shard_data_ok_def pgm_finish_def with_keys_def pgm_inv_def)
qed

lemma pgm_of_view_ok:
  assumes "pgm_ops_ok P" and "view_wf v" and "policy_ok (view_list v)"
  shows "\<exists>s. pgm_of_view P B v = Inr s \<and> pgm_inv P s \<and> net (pgm_data s) = net (view_list v) \<and>
    pgm_tombstone_cnt s = length (filter is_tombstone (pgm_data s))"
proof -
  obtain out where out: "sorted_array_from_bufferview B v None = Inr out" "shard_data_ok B (view_list v) None out"
    using sorted_array_from_bufferview_ok [OF assms(2,3)] by blast
  have "pgm_of_view P B v = map_sum (\<lambda>e. e) (\<lambda>out. pgm_finish P (with_keys out)) (sorted_array_from_bufferview B v None)"
    by (cases "copy_to_buffer v") (simp_all add: pgm_of_view_def sorted_array_from_bufferview_by_def
      bufferview_loop_map [where h = with_keys and emit = "emit_record B" and emit' = "pgm_emit B", OF with_keys_emit] flip: with_keys_start)
  then show ?thesis using out(1) pgm_finish_ok [OF assms(1) out(2)] by auto
qed

lemma pgm_of_shards_ok:
  assumes "pgm_ops_ok P" and "min_pick (\<lambda>e. wkey_of (fst e)) pick" and "\<forall>s\<in>set ss. pgm_inv P s \<and> pgm_data s \<noteq> []"
    and "policy_ok (concat (map pgm_data ss))"
  shows "\<exists>s. pgm_of_shards P pick B (map Some ss) = Inr s \<and> pgm_inv P s \<and> net (pgm_data s) = net (concat (map pgm_data ss)) \<and>
    pgm_tombstone_cnt s = length (filter is_tombstone (pgm_data s))"
proof -
  have "\<forall>s\<in>set ss. rec_sorted (pgm_data s) \<and> pgm_data s \<noteq> []" using assms(3) by (simp add: pgm_inv_def)
  from merge_shards_ok [OF assms(2) this assms(4), of B pgm_tombstone_cnt None]
  obtain out where out: "sorted_array_merge pick B (fst (build_cursor_vec pgm_data pgm_reccnt pgm_tombstone_cnt (map Some ss))) None = Inr out"
      "shard_data_ok B (concat (map pgm_data ss)) None out" by (auto simp: pgm_reccnt_def [abs_def])
  have "pgm_of_shards P pick B (map Some ss) = map_sum (\<lambda>e. e) (\<lambda>out. pgm_finish P (with_keys out))
      (sorted_array_merge pick B (fst (build_cursor_vec pgm_data pgm_reccnt pgm_tombstone_cnt (map Some ss))) None)"
    unfolding pgm_of_shards_def sorted_array_merge_by_def case_prod_unfold with_keys_start [symmetric]
      merge_loop_map [where h = with_keys and emit = "merge_emit B" and emit' = "pgm_merge_emit B", OF with_keys_merge]
    by (simp add: bindE_map_sum map_sum_bindE)
  then show ?thesis using out(1) pgm_finish_ok [OF assms(1) out(2)] by auto
qed


section \<open>Properties\<close>

text \<open>
  C28. A PGM shard built from a view keeps its net records in sorted order. Its search returns the
  first record with the key if there is one; otherwise it steps back to the last smaller key, or to
  the end when all keys are smaller. A point lookup from there finds the first equal record.
\<close>

theorem pgm_view_correct:
  fixes v :: "(('k::linorder, 'v::linorder) Record, 'b) BufferView"
  assumes "pgm_ops_ok P" and "view_wf v" and "policy_ok (view_list v)"
  shows "\<exists>s. pgm_of_view P B v = Inr s \<and> pgm_inv P s \<and> net (pgm_data s) = net (view_list v) \<and>
    (\<forall>k. pgm_get_lower_bound P s k = Inr (learned_pos k (pgm_data s))) \<and>
    (\<forall>r f. pgm_point_lookup P s r f = lookup_result (pgm_data s) r)"
  using pgm_of_view_ok [OF assms, of B] pgm_lower_bound_ok pgm.lookup_scan by (auto simp: pgm_point_lookup_def)

text \<open>
  Merging PGM shards that hold records keeps the invariant, and with it every search exact.
\<close>

theorem pgm_merge_correct:
  fixes ss :: "('k::linorder, 'v::linorder, 'i) PGM list"
  assumes "pgm_ops_ok P" and "min_pick (\<lambda>e. wkey_of (fst e)) pick" and "\<forall>s\<in>set ss. pgm_inv P s \<and> pgm_data s \<noteq> []"
    and "policy_ok (concat (map pgm_data ss))"
  shows "\<exists>s. pgm_of_shards P pick B (map Some ss) = Inr s \<and> pgm_inv P s \<and> net (pgm_data s) = net (concat (map pgm_data ss)) \<and>
    (\<forall>k. pgm_get_lower_bound P s k = Inr (learned_pos k (pgm_data s)))"
  using pgm_of_shards_ok [OF assms, of B] pgm_lower_bound_ok by auto

text \<open>An index that is off by one on both sides, with as many keys as it was built from.\<close>

definition demo_pgm_ops :: "(nat, nat list) pgm_ops" where
  "demo_pgm_ops =
     \<lparr>pgm_build = (\<lambda>ks. ks),
      pgm_search = (\<lambda>ks k. (length (filter (\<lambda>x. x < k) ks) - 1, min (Suc (length (filter (\<lambda>x. x < k) ks))) (length ks))),
      pgm_default = []\<rparr>"

lemma demo_pgm_ops_ok: "pgm_ops_ok demo_pgm_ops"
  by (auto simp: pgm_ops_ok_def demo_pgm_ops_def)

definition demo_pgm_view :: "((nat, nat) Record, unit) BufferView" where
  "demo_pgm_view = BufferView_new (map (\<lambda>i. \<lparr>header = 0, rec = Record (i * 10) 1\<rparr>) [3, 1, 2, 0]) 4 0 3 0 None"

lemma demo_pgm_view_ok:
  "view_wf demo_pgm_view" "policy_ok (view_list demo_pgm_view)"
  "view_list demo_pgm_view = map (\<lambda>i. \<lparr>header = 0, rec = Record (i * 10) 1\<rparr>) [3, 1, 2]"
proof -
  show l: "view_list demo_pgm_view = map (\<lambda>i. \<lparr>header = 0, rec = Record (i * 10) 1\<rparr>) [3, 1, 2]"
    by (simp add: demo_pgm_view_def view_list_def ring_list_def BufferView_new_def upt_rec)
  show "view_wf demo_pgm_view" by (simp add: demo_pgm_view_def view_wf_def BufferView_new_def)
  show "policy_ok (view_list demo_pgm_view)" unfolding l by (simp add: policy_ok_def is_deleted_def)
qed

theorem pgm_view_correct_witness:
  "\<exists>s. pgm_of_view demo_pgm_ops list_bloom demo_pgm_view = Inr s \<and> pgm_inv demo_pgm_ops s \<and>
    net (pgm_data s) = net (map (\<lambda>i. \<lparr>header = 0, rec = Record (i * 10) 1\<rparr>) [3, 1, 2])"
  using pgm_view_correct [OF demo_pgm_ops_ok demo_pgm_view_ok(1,2), of list_bloom] demo_pgm_view_ok(3) by auto

definition demo_pgm :: "nat \<Rightarrow> (nat, nat, nat list) PGM" where
  "demo_pgm k = \<lparr>pgm_data = [\<lparr>header = 0, rec = Record k 1\<rparr>, \<lparr>header = 0, rec = Record (k + 20) 1\<rparr>], pgm_tombstone_cnt = 0, m_pgm = [k, k + 20]\<rparr>"

lemma demo_pgm_inv: "pgm_inv demo_pgm_ops (demo_pgm k)"
  unfolding pgm_inv_def using demo_pgm_ops_ok by (simp add: demo_pgm_def demo_pgm_ops_def less_eq_Record_def less_Record_def)

lemma demo_pgm_data: "pgm_data (demo_pgm k) \<noteq> []"
  by (simp add: demo_pgm_def)

theorem pgm_merge_correct_witness:
  "\<exists>s. pgm_of_shards demo_pgm_ops (first_min (\<lambda>e. wkey_of (fst e))) list_bloom (map Some [demo_pgm 10, demo_pgm 20]) = Inr s \<and>
    pgm_inv demo_pgm_ops s"
proof -
  have "policy_ok (concat (map pgm_data [demo_pgm 10, demo_pgm 20]))" by (simp add: demo_pgm_def policy_ok_def is_deleted_def)
  moreover have "\<forall>s\<in>set [demo_pgm 10, demo_pgm 20]. pgm_inv demo_pgm_ops s \<and> pgm_data s \<noteq> []"
    using demo_pgm_inv demo_pgm_data by simp
  ultimately show ?thesis
    using pgm_merge_correct [OF demo_pgm_ops_ok first_min.min_pick_axioms, of "[demo_pgm 10, demo_pgm 20]" list_bloom] by blast
qed

end
