(* ===== verification/DE_TrieSpline.thy ===== *)
theory DE_TrieSpline
  imports DE_PGM
begin

text \<open>
  The shard over a trie spline (\<^verbatim>\<open>include/shard/TrieSpline.h\<close>): a sorted array, the least and greatest key,
  and a learned index built only for more than fifty records. The index is third-party code
  (\<^verbatim>\<open>ts/builder.h\<close>) and a parameter of the model. No filter is ever allocated.
\<close>

section \<open>The shard\<close>

text \<open>
  The third-party index: the builder is given a least and a greatest key and then the keys one by one;
  a default-constructed index has a value of its own.
\<close>

record ('k, 'i) ts_ops =
  ts_build :: "'k \<Rightarrow> 'k \<Rightarrow> 'k list \<Rightarrow> 'i"
  ts_bound :: "'i \<Rightarrow> 'k \<Rightarrow> nat \<times> nat"
  ts_default :: 'i

record ('k, 'v, 'i) TrieSpline =
  ts_data :: "('k, 'v) Record Wrapped list"
  ts_tombstone_cnt :: nat
  ts_max_key :: 'k
  ts_min_key :: 'k
  m_ts :: 'i

definition ts_reccnt :: "('k, 'v, 'i) TrieSpline \<Rightarrow> nat" where
  "ts_reccnt s = length (ts_data s)"

text \<open>The state of the construction loops: the records, the builder's keys, the least and greatest key so far.\<close>

type_synonym ('k, 'v, 'f) ts_state = "(('k, 'v) Record, 'f) merge_out \<times> 'k list \<times> 'k \<times> 'k"

fun ts_emit :: "('f, ('k::linorder, 'v) Record) bloom_ops \<Rightarrow> ('k, 'v) Record Wrapped \<Rightarrow> ('k, 'v, 'f) ts_state \<Rightarrow> ('k, 'v, 'f) ts_state" where
  "ts_emit B w (out, keys, mn, mx) =
     (emit_record B w out, keys @ [key (rec w)],
      if key (rec w) < mn then key (rec w) else mn, if key (rec w) > mx then key (rec w) else mx)"

definition ts_merge_emit :: "('f, ('k::linorder, 'v) Record) bloom_ops \<Rightarrow> ('k, 'v) Record Wrapped \<Rightarrow> ('k, 'v, 'f) ts_state \<Rightarrow> ('k, 'v, 'f) ts_state" where
  "ts_merge_emit B w s = (if \<not> is_deleted w then ts_emit B w s else s)"

definition ts_finish :: "('k, 'i) ts_ops \<Rightarrow> 'k \<Rightarrow> 'k \<Rightarrow> ('k, 'v, 'f) ts_state \<Rightarrow> ('k, 'v, 'i) TrieSpline" where
  "ts_finish T tmp_min tmp_max s =
     (case s of ((info, ws, bf), keys, mn, mx) \<Rightarrow>
        \<lparr>ts_data = ws, ts_tombstone_cnt = tombstone_count info, ts_max_key = mx, ts_min_key = mn,
         m_ts = (if record_count info > 50 then ts_build T tmp_min tmp_max keys else ts_default T)\<rparr>)"

definition ts_of_view ::
    "('k, 'i) ts_ops \<Rightarrow> ('f, ('k::linorder, 'v::linorder) Record) bloom_ops \<Rightarrow> (('k, 'v) Record, 'b) BufferView \<Rightarrow> ('k, 'v, 'i) TrieSpline res" where
  "ts_of_view T B buffer =
     bindE (copy_to_buffer buffer) (\<lambda>copied.
     let temp = sort_key wkey_of copied in
     bindE (vec_get temp 0) (\<lambda>w0.
     bindE (vec_get temp (sz_sub (length temp) 1)) (\<lambda>w1.
     let tmp_min = key (rec w0); tmp_max = key (rec w1) in
     Inr (ts_finish T tmp_min tmp_max (bufferview_loop (ts_emit B) temp (merge_start None, [], tmp_max, tmp_min))))))"

fun ts_key_bounds :: "('k::linorder, 'v, 'i) TrieSpline option list \<Rightarrow> 'k \<Rightarrow> 'k \<Rightarrow> ('k \<times> 'k) res" where
  "ts_key_bounds [] mx mn = Inr (mx, mn)"
| "ts_key_bounds (s # ss) mx mn =
     bindE (deref s) (\<lambda>sh.
     ts_key_bounds ss (if ts_max_key sh > mx then ts_max_key sh else mx) (if ts_min_key sh < mn then ts_min_key sh else mn))"

definition ts_of_shards ::
    "('k, 'i) ts_ops \<Rightarrow> ((('k, 'v) Record Wrapped \<times> nat) list \<Rightarrow> nat) \<Rightarrow> ('f, ('k::linorder, 'v::linorder) Record) bloom_ops \<Rightarrow>
     ('k, 'v, 'i) TrieSpline option list \<Rightarrow> ('k, 'v, 'i) TrieSpline res" where
  "ts_of_shards T pick B shards =
     (case build_cursor_vec ts_data ts_reccnt ts_tombstone_cnt shards of (cursors, _, _) \<Rightarrow>
      bindE (push_all 0 id cursors []) (\<lambda>q.
      bindE (vec_get shards 0) (\<lambda>s0.
      bindE (deref s0) (\<lambda>sh0.
      bindE (ts_key_bounds shards (ts_max_key sh0) (ts_min_key sh0)) (\<lambda>(tmp_max, tmp_min).
      bindE (merge_loop id pick (ts_merge_emit B) cursors q (merge_start None, [], tmp_max, tmp_min)) (\<lambda>s.
      Inr (ts_finish T tmp_min tmp_max s)))))))"

definition ts_get_lower_bound :: "('k::linorder, 'i) ts_ops \<Rightarrow> ('k, 'v, 'i) TrieSpline \<Rightarrow> 'k \<Rightarrow> nat res" where
  "ts_get_lower_bound T s k =
     (let n = ts_reccnt s in
      if n < 50 then Inr (first_pos (\<lambda>w. key (rec w) \<ge> k) (ts_data s))
      else
        let (lo, hi) = ts_bound T (m_ts s) k in
        if lo \<ge> n then Inr n
        else
          bindE (window_search (ts_data s) k lo hi) (\<lambda>idx.
          if idx = n then Inr n
          else
            bindE (step_back (ts_data s) k idx) (\<lambda>back.
            Inr (case back of Some i \<Rightarrow> i | None \<Rightarrow> idx))))"

definition ts_point_lookup ::
    "('k::linorder, 'i) ts_ops \<Rightarrow> ('k, 'v, 'i) TrieSpline \<Rightarrow> ('k, 'v::linorder) Record \<Rightarrow> bool \<Rightarrow> ('k, 'v) Record Wrapped option res" where
  "ts_point_lookup T s r use_filter = bindE (ts_get_lower_bound T s (key r)) (scan_from (ts_data s) r)"

definition ts_get_record_at :: "('k, 'v, 'i) TrieSpline \<Rightarrow> nat \<Rightarrow> ('k, 'v) Record Wrapped option" where
  "ts_get_record_at s idx = (if idx \<ge> ts_reccnt s then None else Some (ts_data s ! idx))"

section \<open>What it relies on and what it keeps\<close>

text \<open>
  What the code relies on: an index built from sorted keys, all between the bounds the builder was
  given, bounds the position of the first key that is not smaller (the documented use of
  \<^verbatim>\<open>GetSearchBound\<close> with \<^verbatim>\<open>std::lower_bound\<close>).
\<close>

definition ts_ops_ok :: "('k::linorder, 'i) ts_ops \<Rightarrow> bool" where
  "ts_ops_ok T \<longleftrightarrow> (\<forall>mn mx ks k. sorted ks \<and> ks \<noteq> [] \<and> (\<forall>x\<in>set ks. mn \<le> x \<and> x \<le> mx) \<longrightarrow>
     (case ts_bound T (ts_build T mn mx ks) k of (lo, hi) \<Rightarrow>
        lo \<le> length (filter (\<lambda>x. x < k) ks) \<and> length (filter (\<lambda>x. x < k) ks) \<le> hi \<and> hi \<le> length ks))"

definition keys_within :: "'k::linorder \<Rightarrow> 'k \<Rightarrow> ('k, 'v) Record Wrapped list \<Rightarrow> bool" where
  "keys_within mn mx ws \<longleftrightarrow> (\<forall>w\<in>set ws. mn \<le> key (rec w) \<and> key (rec w) \<le> mx)"

definition ts_inv :: "('k::linorder, 'i) ts_ops \<Rightarrow> ('k, 'v::linorder, 'i) TrieSpline \<Rightarrow> bool" where
  "ts_inv T s \<longleftrightarrow> ts_ops_ok T \<and> rec_sorted (ts_data s) \<and> keys_within (ts_min_key s) (ts_max_key s) (ts_data s) \<and>
     (if length (ts_data s) \<le> 50 then m_ts s = ts_default T
      else \<exists>mn mx. m_ts s = ts_build T mn mx (keys_of (ts_data s)) \<and> keys_within mn mx (ts_data s))"

definition ts_pos :: "'k::linorder \<Rightarrow> ('k, 'v) Record Wrapped list \<Rightarrow> nat" where
  "ts_pos k ws = (if length ws < 50 then lower_count k ws else learned_pos k ws)"

lemma ts_lower_bound_ok:
  assumes "ts_inv T s" and "length (ts_data s) \<noteq> 50"
  shows "ts_get_lower_bound T s k = Inr (ts_pos k (ts_data s))"
proof -
  let ?ws = "ts_data s" and ?n = "lower_count k (ts_data s)"
  have srt: "sorted (keys_of ?ws)" using assms(1) pgm_keys_sorted by (auto simp: ts_inv_def)
  show ?thesis
  proof (cases "length ?ws < 50")
    case True
    have "sorted_wrt (\<lambda>a b. key (rec a) \<le> key (rec b)) ?ws" using srt by (simp add: sorted_wrt_map)
    then have "first_pos (\<lambda>w. k \<le> key (rec w)) ?ws = ?n" unfolding lower_count_def by (rule first_pos_filter(1))
    then show ?thesis using True by (simp add: ts_get_lower_bound_def ts_reccnt_def ts_pos_def)
  next
    case False
    obtain lo hi where b: "ts_bound T (m_ts s) k = (lo, hi)" by force
    have f: "length (filter (\<lambda>x. x < k) (keys_of ?ws)) = ?n" by (simp add: lower_count_def filter_map comp_def)
    have "\<not> length ?ws \<le> 50" using False assms(2) by simp
    then obtain mn mx where m: "m_ts s = ts_build T mn mx (keys_of ?ws)" "keys_within mn mx ?ws" "ts_ops_ok T"
      using assms(1) by (auto simp: ts_inv_def)
    have "\<forall>x\<in>set (keys_of ?ws). mn \<le> x \<and> x \<le> mx" using m(2) by (simp add: keys_within_def)
    moreover have "keys_of ?ws \<noteq> []" using False by auto
    ultimately have w: "lo \<le> ?n" "?n \<le> hi" "hi \<le> length ?ws"
      using b srt m(1,3) f unfolding ts_ops_ok_def by (metis (no_types, lifting) case_prod_conv length_map)+
    note ws = window_search_ok [OF srt w]
    show ?thesis
    proof (cases "?n < length ?ws")
      case lt: True
      then show ?thesis using w(1) ws step_back_ok [OF srt lt] False
        by (simp add: ts_get_lower_bound_def b ts_reccnt_def ts_pos_def learned_pos_def Let_def)
    next
      case ge: False
      then have "?n = length ?ws" using lower_count_le [of k ?ws] by simp
      then show ?thesis using ws w False by (auto simp: ts_get_lower_bound_def b ts_reccnt_def ts_pos_def learned_pos_def)
    qed
  qed
qed

lemma ts_pos_ok:
  assumes "rec_sorted (ws :: ('k::linorder, 'v::linorder) Record Wrapped list)"
  shows "ts_pos k ws \<le> length ws" and "j < ts_pos k ws \<Longrightarrow> key (rec (ws ! j)) < k"
    and "\<forall>w\<in>set ws. key (rec w) < k \<Longrightarrow> ts_pos k ws = length ws"
proof -
  have "key (rec (ws ! j)) < k" if "j < lower_count k ws"
    using that less_lower_count [OF pgm_keys_sorted [OF assms], of j k] lower_count_le [of k ws] by simp
  then show "ts_pos k ws \<le> length ws" "j < ts_pos k ws \<Longrightarrow> key (rec (ws ! j)) < k"
    using learned_pos_ok(1,2) [OF assms] lower_count_le [of k ws] by (auto simp: ts_pos_def split: if_splits)
  assume "\<forall>w\<in>set ws. key (rec w) < k"
  then show "ts_pos k ws = length ws" using learned_pos_ok(3) [OF assms] by (simp add: ts_pos_def lower_count_def)
qed

definition ts_ready :: "('k::linorder, 'i) ts_ops \<Rightarrow> ('k, 'v::linorder, 'i) TrieSpline \<Rightarrow> bool" where
  "ts_ready T s \<longleftrightarrow> ts_inv T s \<and> length (ts_data s) \<noteq> 50"

interpretation ts: sorted_shard ts_data "ts_get_lower_bound T" "ts_ready T" for T :: "('k::linorder, 'i) ts_ops"
proof
  fix s :: "('k::linorder, 'v::linorder, 'i) TrieSpline" and k
  assume s: "ts_ready T s"
  then show srt: "rec_sorted (ts_data s)" by (simp add: ts_ready_def ts_inv_def)
  have lb: "ts_get_lower_bound T s k = Inr (ts_pos k (ts_data s))" using s ts_lower_bound_ok by (auto simp: ts_ready_def)
  note p = ts_pos_ok [OF srt]
  show "\<exists>i. ts_get_lower_bound T s k = Inr i \<and> i \<le> length (ts_data s) \<and> (\<forall>j<i. key (rec (ts_data s ! j)) < k)"
    using lb p(1,2) by auto
  assume "\<forall>w\<in>set (ts_data s). key (rec w) < k"
  then show "ts_get_lower_bound T s k = Inr (length (ts_data s))" using lb p(3) by simp
qed


section \<open>The constructors\<close>

definition least_from :: "'k::linorder \<Rightarrow> 'k list \<Rightarrow> 'k" where
  "least_from = foldl (\<lambda>m x. if x < m then x else m)"

definition greatest_from :: "'k::linorder \<Rightarrow> 'k list \<Rightarrow> 'k" where
  "greatest_from = foldl (\<lambda>m x. if x > m then x else m)"

lemma least_from_le: "least_from m xs \<le> m \<and> (\<forall>x\<in>set xs. least_from m xs \<le> x)"
  unfolding least_from_def
proof (induction xs arbitrary: m)
  case (Cons x xs)
  show ?case
  proof (cases "x < m")
    case True
    then show ?thesis using Cons.IH [of x] by (auto intro: order_trans less_imp_le)
  next
    case False
    then show ?thesis using Cons.IH [of m] by (auto intro: order_trans)
  qed
qed simp

lemma greatest_from_ge: "m \<le> greatest_from m xs \<and> (\<forall>x\<in>set xs. x \<le> greatest_from m xs)"
  unfolding greatest_from_def
proof (induction xs arbitrary: m)
  case (Cons x xs)
  show ?case
  proof (cases "x > m")
    case True
    then show ?thesis using Cons.IH [of x] by (auto intro: order_trans less_imp_le)
  next
    case False
    then show ?thesis using Cons.IH [of m] by (auto intro: order_trans)
  qed
qed simp

definition with_bounds :: "'k::linorder \<Rightarrow> 'k \<Rightarrow> (('k, 'v) Record, 'f) merge_out \<Rightarrow> ('k, 'v, 'f) ts_state" where
  "with_bounds mn mx out = (let ks = keys_of (fst (snd out)) in (out, ks, least_from mn ks, greatest_from mx ks))"

lemma with_bounds_emit: "with_bounds mn mx (emit_record B w out) = ts_emit B w (with_bounds mn mx out)"
  by (cases out rule: prod_cases3) (simp add: with_bounds_def least_from_def greatest_from_def Let_def)

lemma with_bounds_merge: "with_bounds mn mx (merge_emit B w out) = ts_merge_emit B w (with_bounds mn mx out)"
  by (simp add: merge_emit_def ts_merge_emit_def with_bounds_emit)

lemma with_bounds_start: "with_bounds mn mx (merge_start bf) = (merge_start bf, [], mn, mx)"
  by (simp add: with_bounds_def merge_start_def least_from_def greatest_from_def)

lemma ts_finish_ok:
  fixes out :: "(('k::linorder, 'v::linorder) Record, 'f) merge_out"
  assumes "ts_ops_ok T" and "shard_data_ok B src bf out" and "keys_within tmp_min tmp_max src"
  defines "s \<equiv> ts_finish T tmp_min tmp_max (with_bounds tmp_max tmp_min out)"
  shows "ts_inv T s \<and> net (ts_data s) = net src \<and> ts_tombstone_cnt s = length (filter is_tombstone (ts_data s)) \<and>
    (\<forall>w\<in>set (ts_data s). rec w \<in> rec ` set src)"
proof -
  obtain info ws bf' where out: "out = (info, ws, bf')" using prod_cases3 by blast
  have d: "record_count info = length ws" "tombstone_count info = length (filter is_tombstone ws)" "rec_sorted ws" "net ws = net src"
      "rec ` set ws \<subseteq> rec ` set src" using assms(2) by (auto simp: shard_data_ok_def out)
  have s: "ts_data s = ws" "ts_tombstone_cnt s = tombstone_count info" "ts_min_key s = least_from tmp_max (keys_of ws)"
      "ts_max_key s = greatest_from tmp_min (keys_of ws)" "m_ts s = (if length ws > 50 then ts_build T tmp_min tmp_max (keys_of ws) else ts_default T)"
    using d(1) by (simp_all add: s_def out with_bounds_def ts_finish_def Let_def)
  have "keys_within tmp_min tmp_max ws"
    unfolding keys_within_def
  proof
    fix w assume "w \<in> set ws"
    then obtain w' where "w' \<in> set src" "rec w = rec w'" using d(5) by auto
    then show "tmp_min \<le> key (rec w) \<and> key (rec w) \<le> tmp_max" using assms(3) by (simp add: keys_within_def)
  qed
  moreover have "keys_within (ts_min_key s) (ts_max_key s) ws"
    using least_from_le [of tmp_max "keys_of ws"] greatest_from_ge [of tmp_min "keys_of ws"] by (auto simp: keys_within_def s)
  ultimately show ?thesis using d assms(1) by (auto simp: ts_inv_def s)
qed

lemma ts_of_view_ok:
  fixes v :: "(('k::linorder, 'v::linorder) Record, 'b) BufferView"
  assumes "ts_ops_ok T" and "view_wf v" and "policy_ok (view_list v)" and "view_list v \<noteq> []"
  shows "\<exists>s. ts_of_view T B v = Inr s \<and> ts_inv T s \<and> net (ts_data s) = net (view_list v) \<and>
    ts_tombstone_cnt s = length (filter is_tombstone (ts_data s))"
proof -
  obtain out where out: "sorted_array_from_bufferview B v None = Inr out" "shard_data_ok B (view_list v) None out"
    using sorted_array_from_bufferview_ok [OF assms(2,3)] by blast
  define temp where "temp = sort_key wkey_of (view_list v)"
  have cp: "copy_to_buffer v = Inr (view_list v)" by (rule copy_to_buffer_ok [OF assms(2)])
  have len: "length temp = length (view_list v)" "0 < length temp" using assms(4) by (simp_all add: temp_def)
  let ?mn = "key (rec (temp ! 0))" and ?mx = "key (rec (temp ! (length temp - 1)))"
  have srt: "sorted (keys_of temp)" unfolding temp_def by (rule pgm_keys_sorted [OF rec_sorted_sort_key])
  have "keys_within ?mn ?mx temp"
    unfolding keys_within_def
  proof
    fix w assume "w \<in> set temp"
    then obtain i where i: "i < length temp" "w = temp ! i" by (auto simp: in_set_conv_nth)
    then show "?mn \<le> key (rec w) \<and> key (rec w) \<le> ?mx"
      using sorted_nth_mono [OF srt, of 0 i] sorted_nth_mono [OF srt, of i "length temp - 1"] len(2) by simp
  qed
  then have within: "keys_within ?mn ?mx (view_list v)" by (simp add: keys_within_def temp_def)
  have o: "out = bufferview_loop (emit_record B) temp (merge_start None)"
    using out(1) cp by (simp add: sorted_array_from_bufferview_by_def temp_def)
  have g: "vec_get temp 0 = Inr (temp ! 0)" "vec_get temp (sz_sub (length temp) 1) = Inr (temp ! (length temp - 1))"
    using len(2) by (simp_all add: vec_get_def Suc_le_eq)
  have "bufferview_loop (ts_emit B) temp (with_bounds ?mx ?mn (merge_start None)) = with_bounds ?mx ?mn out"
    unfolding o by (rule bufferview_loop_map) (rule with_bounds_emit)
  then have "ts_of_view T B v = Inr (ts_finish T ?mn ?mx (with_bounds ?mx ?mn out))"
    unfolding ts_of_view_def cp bindE_simps Let_def temp_def [symmetric] g by (simp add: with_bounds_start)
  then show ?thesis using ts_finish_ok [OF assms(1) out(2) within] by auto
qed


lemma ts_key_bounds_ok:
  "\<exists>mx' mn'. ts_key_bounds (map Some ss) mx mn = Inr (mx', mn') \<and> mx \<le> mx' \<and> mn' \<le> mn \<and>
    (\<forall>s\<in>set ss. ts_max_key s \<le> mx' \<and> mn' \<le> ts_min_key s)"
proof (induction ss arbitrary: mx mn)
  case (Cons s ss)
  obtain mx' mn' where "ts_key_bounds (map Some ss) (max mx (ts_max_key s)) (min mn (ts_min_key s)) = Inr (mx', mn')"
      "max mx (ts_max_key s) \<le> mx'" "mn' \<le> min mn (ts_min_key s)" "\<forall>s\<in>set ss. ts_max_key s \<le> mx' \<and> mn' \<le> ts_min_key s"
    using Cons.IH by blast
  moreover have "(if ts_max_key s > mx then ts_max_key s else mx) = max mx (ts_max_key s)"
      "(if ts_min_key s < mn then ts_min_key s else mn) = min mn (ts_min_key s)" by (auto simp: max_def min_def)
  ultimately show ?case by simp
qed simp

lemma ts_of_shards_ok:
  assumes "ts_ops_ok T" and "min_pick (\<lambda>e. wkey_of (fst e)) pick" and "\<forall>s\<in>set ss. ts_inv T s \<and> ts_data s \<noteq> []" and "ss \<noteq> []"
    and "policy_ok (concat (map ts_data ss))"
  shows "\<exists>s. ts_of_shards T pick B (map Some ss) = Inr s \<and> ts_inv T s \<and> net (ts_data s) = net (concat (map ts_data ss)) \<and>
    ts_tombstone_cnt s = length (filter is_tombstone (ts_data s))"
proof -
  let ?cs = "fst (build_cursor_vec ts_data ts_reccnt ts_tombstone_cnt (map Some ss))"
  have "\<forall>s\<in>set ss. rec_sorted (ts_data s) \<and> ts_data s \<noteq> []" using assms(3) by (simp add: ts_inv_def)
  from merge_shards_ok [OF assms(2) this assms(5), of B ts_tombstone_cnt None]
  obtain out where out: "sorted_array_merge pick B ?cs None = Inr out"
      "shard_data_ok B (concat (map ts_data ss)) None out" by (auto simp: ts_reccnt_def [abs_def])
  then obtain q where q: "push_all 0 id ?cs [] = Inr q" "merge_loop id pick (merge_emit B) ?cs q (merge_start None) = Inr out"
    by (auto simp: sorted_array_merge_by_def)
  obtain s0 ss' where ss: "ss = s0 # ss'" using assms(4) by (cases ss) auto
  obtain mx mn where b: "ts_key_bounds (map Some ss) (ts_max_key s0) (ts_min_key s0) = Inr (mx, mn)"
      "\<forall>s\<in>set ss. ts_max_key s \<le> mx \<and> mn \<le> ts_min_key s" using ts_key_bounds_ok by blast
  have "keys_within mn mx (concat (map ts_data ss))"
    unfolding keys_within_def
  proof
    fix w assume "w \<in> set (concat (map ts_data ss))"
    then obtain s where s: "s \<in> set ss" "w \<in> set (ts_data s)" by auto
    then have "ts_min_key s \<le> key (rec w)" "key (rec w) \<le> ts_max_key s"
      using assms(3) by (auto simp: ts_inv_def keys_within_def)
    then show "mn \<le> key (rec w) \<and> key (rec w) \<le> mx" using b(2) s(1) order_trans by blast
  qed
  note fin = ts_finish_ok [OF assms(1) out(2) this]
  have "merge_loop id pick (ts_merge_emit B) ?cs q (with_bounds mx mn (merge_start None)) =
      map_sum (\<lambda>e. e) (with_bounds mx mn) (merge_loop id pick (merge_emit B) ?cs q (merge_start None))"
    by (rule merge_loop_map) (rule with_bounds_merge)
  then have m: "merge_loop id pick (ts_merge_emit B) ?cs q (merge_start None, [], mx, mn) = Inr (with_bounds mx mn out)"
    using q(2) by (simp add: with_bounds_start)
  have "vec_get (map Some ss) 0 = Inr (Some s0)" by (simp add: ss vec_get_def)
  then have "ts_of_shards T pick B (map Some ss) = Inr (ts_finish T mn mx (with_bounds mx mn out))"
    unfolding ts_of_shards_def case_prod_unfold q(1) bindE_simps by (simp add: b(1) m)
  then show ?thesis using fin by blast
qed

section \<open>Properties\<close>

text \<open>
  C29. A trie spline shard built from a view that holds records keeps its net records in sorted order and
  its key bounds. Unless it has exactly fifty records, \<^verbatim>\<open>get_lower_bound\<close> returns the number of records with a
  smaller key, or, from 51 records on, a position that may be one too low (\<open>learned_pos\<close>); and \<^verbatim>\<open>point_lookup\<close>
  finds the first equal record or nothing, except that it reads past the array when every record is smaller
  than the one searched although some key is not smaller than its key (\<open>lookup_result\<close>). From an empty view the constructor reads the first
  record of an empty array.
\<close>

theorem trie_spline_view_correct:
  fixes v :: "(('k::linorder, 'v::linorder) Record, 'b) BufferView"
  assumes "ts_ops_ok T" and "view_wf v" and "policy_ok (view_list v)"
  shows "if view_list v = [] then ts_of_view T B v = Inl OutOfBounds
    else \<exists>s. ts_of_view T B v = Inr s \<and> ts_inv T s \<and> net (ts_data s) = net (view_list v) \<and>
      (length (ts_data s) \<noteq> 50 \<longrightarrow> (\<forall>k. ts_get_lower_bound T s k = Inr (ts_pos k (ts_data s))) \<and>
         (\<forall>r f. ts_point_lookup T s r f = lookup_result (ts_data s) r))"
proof (cases "view_list v = []")
  case True
  then show ?thesis using copy_to_buffer_ok [OF assms(2)] by (simp add: ts_of_view_def vec_get_def)
next
  case False
  from ts_of_view_ok [OF assms False, of B] obtain s where s: "ts_of_view T B v = Inr s" "ts_inv T s" "net (ts_data s) = net (view_list v)"
    by blast
  then show ?thesis using False ts_lower_bound_ok [OF s(2)] ts.lookup_scan [of T s]
    by (auto simp: ts_point_lookup_def ts_ready_def)
qed

text \<open>
  The index is built for more than fifty records and the array is scanned for fewer than fifty. A
  shard with exactly fifty records searches the index it never built: when that index answers
  with a position past the array every record is missed.
\<close>

theorem trie_spline_fifty:
  fixes s :: "('k::linorder, 'v::linorder, 'i) TrieSpline"
  assumes "ts_inv T s" and "length (ts_data s) = 50" and "50 \<le> fst (ts_bound T (ts_default T) (key r))"
  shows "ts_get_lower_bound T s (key r) = Inr 50 \<and> ts_point_lookup T s r f = Inr None"
proof -
  have "ts_get_lower_bound T s (key r) = Inr 50"
    using assms by (auto simp: ts_inv_def ts_get_lower_bound_def ts_reccnt_def case_prod_unfold Let_def)
  then show ?thesis using assms(2) by (simp add: ts_point_lookup_def scan_from_def)
qed

text \<open>Merging trie splines that hold records keeps the invariant and the net records.\<close>

theorem trie_spline_merge_invariant:
  fixes ss :: "('k::linorder, 'v::linorder, 'i) TrieSpline list"
  assumes "ts_ops_ok T" and "min_pick (\<lambda>e. wkey_of (fst e)) pick" and "\<forall>s\<in>set ss. ts_inv T s \<and> ts_data s \<noteq> []" and "ss \<noteq> []"
    and "policy_ok (concat (map ts_data ss))"
  shows "\<exists>s. ts_of_shards T pick B (map Some ss) = Inr s \<and> ts_inv T s \<and> net (ts_data s) = net (concat (map ts_data ss))"
  using ts_of_shards_ok [OF assms, of B] by blast

definition demo_ts_ops :: "(nat, nat list) ts_ops" where
  "demo_ts_ops =
     \<lparr>ts_build = (\<lambda>mn mx ks. 0 # ks),
      ts_bound = (\<lambda>ks k. if ks = [] then (50, 50) else (length (filter (\<lambda>x. x < k) (tl ks)), length (tl ks))),
      ts_default = []\<rparr>"

lemma demo_ts_ops_ok: "ts_ops_ok demo_ts_ops"
  by (simp add: ts_ops_ok_def demo_ts_ops_def)

theorem trie_spline_view_correct_witness:
  "\<exists>s. ts_of_view demo_ts_ops list_bloom demo_pgm_view = Inr s \<and> ts_inv demo_ts_ops s \<and>
    net (ts_data s) = net (map (\<lambda>i. \<lparr>header = 0, rec = Record (i * 10) 1\<rparr>) [3, 1, 2])"
  using trie_spline_view_correct [OF demo_ts_ops_ok demo_pgm_view_ok(1,2), of list_bloom] demo_pgm_view_ok(3) by auto

definition demo_fifty :: "(nat, nat, nat list) TrieSpline" where
  "demo_fifty = \<lparr>ts_data = map (\<lambda>i. \<lparr>header = 0, rec = Record i 1\<rparr>) [0..<50], ts_tombstone_cnt = 0,
     ts_max_key = 49, ts_min_key = 0, m_ts = []\<rparr>"

lemma demo_fifty_inv: "ts_inv demo_ts_ops demo_fifty"
proof -
  have "rec_sorted (map (\<lambda>i. \<lparr>header = 0, rec = Record i (1::nat)\<rparr>) [0..<50::nat])"
    by (simp add: sorted_wrt_iff_nth_less less_eq_Record_def less_Record_def)
  then show ?thesis using demo_ts_ops_ok by (auto simp: ts_inv_def demo_fifty_def keys_within_def demo_ts_ops_def)
qed

theorem trie_spline_fifty_witness:
  "ts_get_lower_bound demo_ts_ops demo_fifty 7 = Inr 50 \<and> ts_point_lookup demo_ts_ops demo_fifty (Record 7 1) False = Inr None \<and>
    Record 7 1 \<in> rec ` set (ts_data demo_fifty)"
proof -
  have "length (ts_data demo_fifty) = 50" by (simp add: demo_fifty_def)
  moreover have "50 \<le> fst (ts_bound demo_ts_ops (ts_default demo_ts_ops) (key (Record 7 (1::nat))))" by (simp add: demo_ts_ops_def)
  ultimately show ?thesis
    using trie_spline_fifty [OF demo_fifty_inv _ _, of "Record 7 1" False] by (simp add: demo_fifty_def image_image image_iff)
qed

definition demo_ts :: "nat \<Rightarrow> (nat, nat, nat list) TrieSpline" where
  "demo_ts k = \<lparr>ts_data = [\<lparr>header = 0, rec = Record k 1\<rparr>], ts_tombstone_cnt = 0, ts_max_key = k, ts_min_key = k, m_ts = []\<rparr>"

theorem trie_spline_merge_invariant_witness:
  "\<exists>s. ts_of_shards demo_ts_ops (first_min (\<lambda>e. wkey_of (fst e))) list_bloom (map Some [demo_ts 10, demo_ts 20]) = Inr s \<and> ts_inv demo_ts_ops s"
proof -
  have "ts_inv demo_ts_ops (demo_ts k) \<and> ts_data (demo_ts k) \<noteq> []" for k
    using demo_ts_ops_ok by (simp add: ts_inv_def demo_ts_def keys_within_def demo_ts_ops_def)
  then have "\<forall>s\<in>set [demo_ts 10, demo_ts 20]. ts_inv demo_ts_ops s \<and> ts_data s \<noteq> []" by simp
  moreover have "policy_ok (concat (map ts_data [demo_ts 10, demo_ts 20]))" by (simp add: demo_ts_def policy_ok_def is_deleted_def)
  ultimately show ?thesis
    using trie_spline_merge_invariant [OF demo_ts_ops_ok first_min.min_pick_axioms, of "[demo_ts 10, demo_ts 20]" list_bloom] by blast
qed

end
