(* ===== verification/DE_VPTree.thy ===== *)
theory DE_VPTree
  imports DE_SortedShard
begin

text \<open>
  The vantage-point tree (\<^verbatim>\<open>include/shard/VPTree.h\<close>). The records stay where they were copied to; an array
  of pointers to them is permuted so that every node covers a range of it. The distance of records is a
  parameter with exact values; the largest double, the initial bound of a search, is \<open>None\<close>. The random
  number generator is third-party code: a parameter that yields a number below the bound it is given.
\<close>

section \<open>Nodes and the array of pointers\<close>

datatype 'd vpnode =
    vp_null
  | vpnode (vp_start: nat) (vp_stop: nat) (vp_leaf: bool) (vp_radius: 'd) (vp_inside: "'d vpnode") (vp_outside: "'d vpnode")

text \<open>
  A pointer is an index of the record array. Its distance is written before it is read; the zero it
  starts with stands for memory not yet written.
\<close>

type_synonym 'd vp_ptr = "nat \<times> 'd"

record ('r, 'd) VPTree =
  vp_data :: "'r Wrapped list"
  vp_ptrs :: "'d vp_ptr list"
  vp_node_cnt :: nat
  vp_root :: "'d vpnode"

definition vp_reccnt :: "('r, 'd) VPTree \<Rightarrow> nat" where
  "vp_reccnt t = length (vp_data t)"

definition swap_ptrs :: "'a list \<Rightarrow> nat \<Rightarrow> nat \<Rightarrow> 'a list" where
  "swap_ptrs ps i j = ps[i := ps ! j, j := ps ! i]"

section \<open>Selecting the median\<close>

function partition_loop :: "'d::linorder vp_ptr list \<Rightarrow> nat \<Rightarrow> nat \<Rightarrow> nat \<Rightarrow> 'd vp_ptr list \<times> nat" where
  "partition_loop ps stop i j =
     (if i < stop then
        (if snd (ps ! i) < snd (ps ! stop) then partition_loop (swap_ptrs ps j i) stop (Suc i) (Suc j)
         else partition_loop ps stop (Suc i) j)
      else (ps, j))"
  by pat_completeness auto
termination
  by (relation "measure (\<lambda>(ps, stop, i, j). stop - i)") auto

declare partition_loop.simps [simp del]

definition vp_partition :: "'g rng_ops \<Rightarrow> 'd::linorder vp_ptr list \<Rightarrow> nat \<Rightarrow> nat \<Rightarrow> 'g \<Rightarrow> 'd vp_ptr list \<times> nat \<times> 'g" where
  "vp_partition U ps start stop g =
     (let (off, g') = U g (stop - start);
          (ps', j) = partition_loop (swap_ptrs ps (start + off) stop) stop start start
      in (swap_ptrs ps' j stop, j, g'))"

lemma partition_loop_bounds:
  assumes "j \<le> i" and "i \<le> stop"
  shows "j \<le> snd (partition_loop ps stop i j)" and "snd (partition_loop ps stop i j) \<le> stop"
proof -
  have "j \<le> snd (partition_loop ps stop i j) \<and> snd (partition_loop ps stop i j) \<le> stop"
    using assms
  proof (induction ps stop i j rule: partition_loop.induct)
    case (1 ps stop i j)
    show ?case
    proof (cases "i < stop")
      case True
      then show ?thesis using 1 by (subst (1 2) partition_loop.simps) fastforce
    next
      case False
      then show ?thesis using 1 by (subst (1 2) partition_loop.simps) simp
    qed
  qed
  then show "j \<le> snd (partition_loop ps stop i j)" "snd (partition_loop ps stop i j) \<le> stop" by simp_all
qed

lemma vp_partition_bounds:
  assumes "vp_partition U ps start stop g = (ps', pivot, g')" and "start \<le> stop"
  shows "start \<le> pivot \<and> pivot \<le> stop"
proof -
  define qs where "qs = swap_ptrs ps (start + fst (U g (stop - start))) stop"
  have "snd (partition_loop qs stop start start) = pivot"
    using assms(1) by (simp add: vp_partition_def Let_def case_prod_unfold qs_def)
  then show ?thesis using partition_loop_bounds [of start start stop qs] assms(2) by simp
qed

function quickselect :: "'g rng_ops \<Rightarrow> 'd::linorder vp_ptr list \<Rightarrow> nat \<Rightarrow> nat \<Rightarrow> nat \<Rightarrow> 'g \<Rightarrow> ('d vp_ptr list \<times> 'g) res" where
  "quickselect U ps start stop k g =
     (if start = stop then Inr (ps, g)
      else if start > stop \<or> stop \<ge> length ps then Inl OutOfBounds
      else case vp_partition U ps start stop g of (ps', pivot, g') \<Rightarrow>
        if k < pivot then quickselect U ps' start (pivot - 1) k g'
        else if k > pivot then quickselect U ps' (pivot + 1) stop k g'
        else Inr (ps', g'))"
  by pat_completeness auto
termination
proof (relation "measure (\<lambda>(U, ps, start, stop, k, g). stop - start)", goal_cases)
  case 1
  show ?case by simp
qed (auto dest!: vp_partition_bounds [OF sym])

declare quickselect.simps [simp del]

section \<open>Building the tree\<close>

text \<open>\<open>dd i j\<close> is the distance of the records at the places \<open>i\<close> and \<open>j\<close> of the record array.\<close>

definition set_distances :: "(nat \<Rightarrow> nat \<Rightarrow> 'd) \<Rightarrow> nat \<Rightarrow> nat \<Rightarrow> 'd vp_ptr list \<Rightarrow> 'd vp_ptr list" where
  "set_distances dd start stop ps =
     fold (\<lambda>i ps. ps[i := (fst (ps ! i), dd (fst (ps ! start)) (fst (ps ! i)))]) [start + 1..<stop + 1] ps"

function build_subtree ::
    "nat \<Rightarrow> (nat \<Rightarrow> nat \<Rightarrow> 'd::{linorder,zero}) \<Rightarrow> 'g rng_ops \<Rightarrow> 'd vp_ptr list \<Rightarrow> nat \<Rightarrow> nat \<Rightarrow> 'g \<Rightarrow>
     ('d vpnode \<times> nat \<times> 'd vp_ptr list \<times> 'g) res" where
  "build_subtree LEAFSZ dd U ps start stop g =
     (if start > stop then Inr (vp_null, 0, ps, g)
      else if stop - start \<le> LEAFSZ then Inr (vpnode start stop True 0 vp_null vp_null, 1, ps, g)
      else
        let (off, g1) = U g (stop - start + 1);
            ps1 = set_distances dd start stop (swap_ptrs ps start (start + off));
            mid = (start + 1 + stop) div 2
        in bindE (quickselect U ps1 (start + 1) stop mid g1) (\<lambda>(ps2, g2).
           let radius = dd (fst (ps2 ! start)) (fst (ps2 ! mid));
               ps3 = ps2[start := (fst (ps2 ! start), radius)]
           in bindE (build_subtree LEAFSZ dd U ps3 (start + 1) (mid - 1) g2) (\<lambda>(inside, n1, ps4, g3).
              bindE (build_subtree LEAFSZ dd U ps4 mid stop g3) (\<lambda>(outside, n2, ps5, g4).
              Inr (vpnode start 0 False radius inside outside, n1 + n2 + 1, ps5, g4)))))"
  by pat_completeness auto
termination
  by (relation "measure (\<lambda>(L, dd, U, ps, start, stop, g). Suc stop - start)") auto

declare build_subtree.simps [simp del]


section \<open>Permutations of a range\<close>

definition perm_in :: "nat \<Rightarrow> nat \<Rightarrow> 'a list \<Rightarrow> 'a list \<Rightarrow> bool" where
  "perm_in lo hi ps ps' \<longleftrightarrow> mset ps' = mset ps \<and> (\<forall>i<length ps. i < lo \<or> hi \<le> i \<longrightarrow> ps' ! i = ps ! i)"

lemma perm_in_length: "perm_in lo hi ps ps' \<Longrightarrow> length ps' = length ps"
  by (metis perm_in_def size_mset)

lemma perm_in_refl [simp]: "perm_in lo hi ps ps"
  by (simp add: perm_in_def)

lemma perm_in_trans: "perm_in lo hi ps qs \<Longrightarrow> perm_in lo hi qs rs \<Longrightarrow> perm_in lo hi ps rs"
  using perm_in_length [of lo hi ps qs] by (auto simp: perm_in_def)

lemma perm_in_widen: "perm_in lo hi ps qs \<Longrightarrow> lo' \<le> lo \<Longrightarrow> hi \<le> hi' \<Longrightarrow> perm_in lo' hi' ps qs"
  by (auto simp: perm_in_def)

lemma perm_in_outside: "perm_in lo hi ps qs \<Longrightarrow> i < length ps \<Longrightarrow> i < lo \<or> hi \<le> i \<Longrightarrow> qs ! i = ps ! i"
  by (auto simp: perm_in_def)

lemma perm_in_swap:
  assumes "lo \<le> i" "i < hi" "lo \<le> j" "j < hi" "hi \<le> length ps"
  shows "perm_in lo hi ps (swap_ptrs ps i j)"
  using assms mset_swap [of j ps i] by (auto simp: perm_in_def swap_ptrs_def nth_list_update)

lemma swap_ptrs_nth: "i < length ps \<Longrightarrow> j < length ps \<Longrightarrow> x < length ps \<Longrightarrow>
    swap_ptrs ps i j ! x = (if x = j then ps ! i else if x = i then ps ! j else ps ! x)"
  by (simp add: swap_ptrs_def nth_list_update)

lemma length_swap_ptrs [simp]: "length (swap_ptrs ps i j) = length ps"
  by (simp add: swap_ptrs_def)

lemma perm_in_range:
  assumes "perm_in lo hi ps qs" and "hi \<le> length ps" and "\<And>i. lo \<le> i \<Longrightarrow> i < hi \<Longrightarrow> P (ps ! i)" and "lo \<le> x" "x < hi"
  shows "P (qs ! x)"
proof -
  let ?sl = "\<lambda>xs :: 'a list. take (hi - lo) (drop lo xs)"
  have len: "length qs = length ps" by (rule perm_in_length [OF assms(1)])
  have split: "xs = take lo xs @ ?sl xs @ drop hi xs" if "length xs = length ps" for xs :: "'a list"
  proof -
    have "drop (hi - lo) (drop lo xs) = drop hi xs" using assms(2,4,5) by simp
    then show ?thesis by (metis append_take_drop_id)
  qed
  have "take lo qs = take lo ps" "drop hi qs = drop hi ps"
    using assms len by (auto intro!: nth_equalityI simp: perm_in_def)
  moreover have "mset qs = mset ps" using assms(1) by (simp add: perm_in_def)
  ultimately have "mset (?sl qs) = mset (?sl ps)"
    using split [OF len] split [of ps] by (metis (no_types, lifting) mset_append add_left_imp_eq add_right_imp_eq)
  then have eq: "set (?sl qs) = set (?sl ps)" by (rule mset_eq_setD)
  have "qs ! x \<in> set (?sl qs)"
    using assms(2,4,5) len by (auto simp: in_set_conv_nth intro!: exI [of _ "x - lo"])
  then have "qs ! x \<in> set (?sl ps)" unfolding eq .
  then obtain i where "i < hi - lo" "qs ! x = ps ! (lo + i)" using assms(2) by (auto simp: in_set_conv_nth)
  then show ?thesis using assms(3) [of "lo + i"] by simp
qed

section \<open>What the selection does\<close>

lemma partition_loop_ok:
  assumes "start \<le> j" "j \<le> i" "i \<le> stop" "stop < length ps"
    and "\<And>x. start \<le> x \<Longrightarrow> x < j \<Longrightarrow> snd (ps ! x) < snd (ps ! stop)"
    and "\<And>x. j \<le> x \<Longrightarrow> x < i \<Longrightarrow> snd (ps ! stop) \<le> snd (ps ! x)"
    and "partition_loop ps stop i j = (ps', j')"
  shows "perm_in start stop ps ps' \<and> (\<forall>x. start \<le> x \<and> x < j' \<longrightarrow> snd (ps' ! x) < snd (ps' ! stop)) \<and>
    (\<forall>x. j' \<le> x \<and> x < stop \<longrightarrow> snd (ps' ! stop) \<le> snd (ps' ! x))"
  using assms
proof (induction ps stop i j rule: partition_loop.induct)
  case (1 ps stop i j)
  show ?case
  proof (cases "i < stop")
    case i: True
    show ?thesis
    proof (cases "snd (ps ! i) < snd (ps ! stop)")
      case True
      let ?qs = "swap_ptrs ps j i"
      have qs: "?qs ! x = (if x = i then ps ! j else if x = j then ps ! i else ps ! x)" if "x < length ps" for x
        using that i "1.prems" by (simp add: swap_ptrs_nth)
      have res: "partition_loop ?qs stop (Suc i) (Suc j) = (ps', j')"
        using "1.prems"(7) i True by (subst (asm) partition_loop.simps) simp
      have "perm_in start stop ?qs ps' \<and> (\<forall>x. start \<le> x \<and> x < j' \<longrightarrow> snd (ps' ! x) < snd (ps' ! stop)) \<and>
          (\<forall>x. j' \<le> x \<and> x < stop \<longrightarrow> snd (ps' ! stop) \<le> snd (ps' ! x))"
      proof (rule "1.IH"(1) [OF i True _ _ _ _ _ _ res])
        show "snd (?qs ! x) < snd (?qs ! stop)" if "start \<le> x" "x < Suc j" for x
          using that i True "1.prems" qs [of x] qs [of stop] by (auto simp: less_Suc_eq)
        show "snd (?qs ! stop) \<le> snd (?qs ! x)" if "Suc j \<le> x" "x < Suc i" for x
          using that i True "1.prems" qs [of x] qs [of stop] by (auto simp: less_Suc_eq)
      qed (use i "1.prems" in auto)
      moreover have "perm_in start stop ps ?qs" using i "1.prems" by (intro perm_in_swap) auto
      ultimately show ?thesis using perm_in_trans by blast
    next
      case False
      have res: "partition_loop ps stop (Suc i) j = (ps', j')"
        using "1.prems"(7) i False by (subst (asm) partition_loop.simps) simp
      show ?thesis
        by (rule "1.IH"(2) [OF i False _ _ _ _ _ _ res]) (use i False "1.prems" in \<open>auto simp: less_Suc_eq\<close>)
    qed
  next
    case False
    then have "ps' = ps" "j' = j" "i = stop" using "1.prems"(3,7) by (auto simp: partition_loop.simps)
    then show ?thesis using "1.prems"(5,6) by auto
  qed
qed

lemma vp_partition_ok:
  assumes "rng_ok U" and "start < stop" and "stop < length ps" and "vp_partition U ps start stop g = (ps', pivot, g')"
  shows "perm_in start (Suc stop) ps ps'" and "\<And>x. start \<le> x \<Longrightarrow> x < pivot \<Longrightarrow> snd (ps' ! x) < snd (ps' ! pivot)"
    and "\<And>x. pivot \<le> x \<Longrightarrow> x \<le> stop \<Longrightarrow> snd (ps' ! pivot) \<le> snd (ps' ! x)"
proof -
  define qs where "qs = swap_ptrs ps (start + fst (U g (stop - start))) stop"
  obtain rs where rs: "partition_loop qs stop start start = (rs, pivot)" "ps' = swap_ptrs rs pivot stop"
    using assms(4) by (auto simp: vp_partition_def Let_def case_prod_unfold qs_def prod_eq_iff)
  have "fst (U g (stop - start)) < stop - start" using assms(1,2) by (simp add: rng_ok_def)
  then have q: "perm_in start (Suc stop) ps qs" unfolding qs_def using assms(2,3) by (intro perm_in_swap) auto
  have b: "start \<le> pivot" "pivot \<le> stop" using vp_partition_bounds [OF assms(4)] assms(2) by simp_all
  have len: "length qs = length ps" by (rule perm_in_length [OF q])
  have l: "perm_in start stop qs rs \<and> (\<forall>x. start \<le> x \<and> x < pivot \<longrightarrow> snd (rs ! x) < snd (rs ! stop)) \<and>
    (\<forall>x. pivot \<le> x \<and> x < stop \<longrightarrow> snd (rs ! stop) \<le> snd (rs ! x))"
    by (rule partition_loop_ok [OF _ _ _ _ _ _ rs(1)]) (use assms(2,3) len in auto)
  then have lr: "length rs = length ps" using perm_in_length len by metis
  have at: "ps' ! x = (if x = stop then rs ! pivot else if x = pivot then rs ! stop else rs ! x)" if "x \<le> stop" for x
    unfolding rs(2) using that b assms(3) lr by (subst swap_ptrs_nth) auto
  have "perm_in start (Suc stop) qs rs" by (rule perm_in_widen [OF l [THEN conjunct1]]) simp_all
  moreover have "perm_in start (Suc stop) rs ps'" unfolding rs(2) using b assms(3) lr by (intro perm_in_swap) auto
  ultimately show "perm_in start (Suc stop) ps ps'" using q perm_in_trans by blast
  show "snd (ps' ! x) < snd (ps' ! pivot)" if "start \<le> x" "x < pivot" for x
    using l that b at [of x] at [of pivot] by (cases "pivot = stop") auto
  show "snd (ps' ! pivot) \<le> snd (ps' ! x)" if "pivot \<le> x" "x \<le> stop" for x
    using l that b at [of x] at [of pivot] by (cases "pivot = stop"; cases "x = stop") auto
qed

lemma quickselect_ok:
  assumes "rng_ok U" and "start \<le> k" and "k \<le> stop" and "stop < length ps"
  shows "\<exists>ps' g'. quickselect U ps start stop k g = Inr (ps', g') \<and> perm_in start (Suc stop) ps ps' \<and>
    (\<forall>x. start \<le> x \<and> x < k \<longrightarrow> snd (ps' ! x) \<le> snd (ps' ! k)) \<and> (\<forall>x. k \<le> x \<and> x \<le> stop \<longrightarrow> snd (ps' ! k) \<le> snd (ps' ! x))"
  using assms
proof (induction U ps start stop k g rule: quickselect.induct)
  case (1 U ps start stop k g)
  show ?case
  proof (cases "start = stop")
    case True
    then show ?thesis using "1.prems" by (subst quickselect.simps) auto
  next
    case ne: False
    then have lt: "start < stop" using "1.prems" by simp
    obtain qs pivot g1 where p: "vp_partition U ps start stop g = (qs, pivot, g1)" using prod_cases3 by blast
    note P = vp_partition_ok [OF "1.prems"(1) lt "1.prems"(4) p] and b = vp_partition_bounds [OF p] lt
    have ok: "\<not> (stop < start \<or> length ps \<le> stop)" using lt "1.prems" by simp
    have len: "length qs = length ps" by (rule perm_in_length [OF P(1)])
    note eq = quickselect.simps [of U ps start stop k g, unfolded if_not_P [OF ne] if_not_P [OF ok] p prod.case]
    show ?thesis
    proof (cases "k < pivot")
      case True
      have "\<exists>ps' g'. quickselect U qs start (pivot - 1) k g1 = Inr (ps', g') \<and> perm_in start (Suc (pivot - 1)) qs ps' \<and>
          (\<forall>x. start \<le> x \<and> x < k \<longrightarrow> snd (ps' ! x) \<le> snd (ps' ! k)) \<and> (\<forall>x. k \<le> x \<and> x \<le> pivot - 1 \<longrightarrow> snd (ps' ! k) \<le> snd (ps' ! x))"
        by (rule "1.IH"(1) [OF ne ok p [symmetric] refl True "1.prems"(1,2)]) (use True b len "1.prems" in auto)
      then obtain ps' g' where r: "quickselect U qs start (pivot - 1) k g1 = Inr (ps', g')" "perm_in start pivot qs ps'"
          "\<forall>x. start \<le> x \<and> x < k \<longrightarrow> snd (ps' ! x) \<le> snd (ps' ! k)" "\<forall>x. k \<le> x \<and> x \<le> pivot - 1 \<longrightarrow> snd (ps' ! k) \<le> snd (ps' ! x)"
        using True by auto
      have "snd (ps' ! k) \<le> snd (ps' ! x)" if "k \<le> x" "x \<le> stop" for x
      proof (cases "x < pivot")
        case False
        have "snd (ps' ! k) < snd (qs ! pivot)"
          by (rule perm_in_range [OF r(2), of "\<lambda>e. snd e < snd (qs ! pivot)"]) (use P(2) True "1.prems" b len in auto)
        moreover have "ps' ! x = qs ! x" using perm_in_outside [OF r(2), of x] False that len "1.prems"(4) by simp
        moreover have "snd (qs ! pivot) \<le> snd (qs ! x)" using P(3) [of x] False that by simp
        ultimately show ?thesis by simp
      qed (use r(4) that True in auto)
      moreover have "perm_in start (Suc stop) ps ps'"
        using perm_in_trans [OF P(1) perm_in_widen [OF r(2)]] b by simp
      moreover have "quickselect U ps start stop k g = Inr (ps', g')" unfolding eq using r(1) True by simp
      ultimately show ?thesis using r(3) by blast
    next
      case nlt: False
      show ?thesis
      proof (cases "k > pivot")
        case True
        have "\<exists>ps' g'. quickselect U qs (pivot + 1) stop k g1 = Inr (ps', g') \<and> perm_in (pivot + 1) (Suc stop) qs ps' \<and>
            (\<forall>x. pivot + 1 \<le> x \<and> x < k \<longrightarrow> snd (ps' ! x) \<le> snd (ps' ! k)) \<and> (\<forall>x. k \<le> x \<and> x \<le> stop \<longrightarrow> snd (ps' ! k) \<le> snd (ps' ! x))"
          by (rule "1.IH"(2) [OF ne ok p [symmetric] refl nlt True "1.prems"(1)]) (use True b len "1.prems" in auto)
        then obtain ps' g' where r: "quickselect U qs (pivot + 1) stop k g1 = Inr (ps', g')" "perm_in (pivot + 1) (Suc stop) qs ps'"
            "\<forall>x. pivot + 1 \<le> x \<and> x < k \<longrightarrow> snd (ps' ! x) \<le> snd (ps' ! k)" "\<forall>x. k \<le> x \<and> x \<le> stop \<longrightarrow> snd (ps' ! k) \<le> snd (ps' ! x)"
          by blast
        have "snd (ps' ! x) \<le> snd (ps' ! k)" if "start \<le> x" "x < k" for x
        proof (cases "x \<le> pivot")
          case le: True
          have "snd (qs ! pivot) \<le> snd (ps' ! k)"
            by (rule perm_in_range [OF r(2), of "\<lambda>e. snd (qs ! pivot) \<le> snd e"]) (use P(3) True "1.prems" b len in auto)
          moreover have "ps' ! x = qs ! x" using perm_in_outside [OF r(2), of x] le b len "1.prems"(4) by simp
          ultimately show ?thesis using P(2) [of x] le that by (cases "x = pivot") (auto intro: order_trans less_imp_le)
        qed (use r(3) that in auto)
        moreover have "perm_in start (Suc stop) ps ps'"
          using perm_in_trans [OF P(1) perm_in_widen [OF r(2)]] b by simp
        moreover have "quickselect U ps start stop k g = Inr (ps', g')" unfolding eq using r(1) True nlt by simp
        ultimately show ?thesis using r(4) by blast
      next
        case False
        then have "k = pivot" using nlt by simp
        then have "quickselect U ps start stop k g = Inr (qs, g1)" unfolding eq by simp
        moreover have "snd (qs ! x) \<le> snd (qs ! k)" if "start \<le> x" "x < k" for x
          using P(2) [of x] that \<open>k = pivot\<close> by simp
        moreover have "snd (qs ! k) \<le> snd (qs ! x)" if "k \<le> x" "x \<le> stop" for x
          using P(3) [of x] that \<open>k = pivot\<close> by simp
        ultimately show ?thesis using P(1) by blast
      qed
    qed
  qed
qed


section \<open>What the construction builds\<close>

text \<open>
  A tree over the range from \<open>lo\<close> to before \<open>hi\<close>: below an inner node lie first the records not farther from
  its first record than its radius, then those not nearer.
\<close>

fun vp_tree :: "(nat \<Rightarrow> nat \<Rightarrow> 'd::linorder) \<Rightarrow> nat list \<Rightarrow> 'd vpnode \<Rightarrow> nat \<Rightarrow> nat \<Rightarrow> bool" where
  "vp_tree dd idx vp_null lo hi \<longleftrightarrow> hi \<le> lo"
| "vp_tree dd idx (vpnode s e lf r a b) lo hi \<longleftrightarrow> s = lo \<and> lo < hi \<and>
     (if lf then Suc e = hi
      else e = 0 \<and> (\<exists>mid. lo < mid \<and> mid < hi \<and> (\<forall>i. lo < i \<and> i < mid \<longrightarrow> dd (idx ! lo) (idx ! i) \<le> r) \<and>
        (\<forall>i. mid \<le> i \<and> i < hi \<longrightarrow> r \<le> dd (idx ! lo) (idx ! i)) \<and> vp_tree dd idx a (Suc lo) mid \<and> vp_tree dd idx b mid hi))"

lemma vp_tree_frame:
  assumes "vp_tree dd is nd lo hi" and "\<And>i. lo \<le> i \<Longrightarrow> i < hi \<Longrightarrow> js ! i = is ! i"
  shows "vp_tree dd js nd lo hi"
  using assms
proof (induction dd "is" nd lo hi rule: vp_tree.induct)
  case (2 dd "is" s e lf r a b lo hi)
  show ?case
  proof (cases lf)
    case False
    then obtain mid where mid: "lo < mid" "mid < hi" "\<forall>i. lo < i \<and> i < mid \<longrightarrow> dd (is ! lo) (is ! i) \<le> r"
        "\<forall>i. mid \<le> i \<and> i < hi \<longrightarrow> r \<le> dd (is ! lo) (is ! i)" "vp_tree dd is a (Suc lo) mid" "vp_tree dd is b mid hi"
      using "2.prems"(1) by auto
    have "vp_tree dd js a (Suc lo) mid" by (rule "2.IH"(1) [OF False mid(5)]) (use mid "2.prems"(2) in auto)
    moreover have "vp_tree dd js b mid hi" by (rule "2.IH"(2) [OF False mid(6)]) (use mid "2.prems"(2) in auto)
    ultimately show ?thesis using "2.prems" mid False by auto
  qed (use "2.prems" in auto)
qed simp

lemma set_distances_ok:
  assumes "stop < length ps"
  shows "map fst (set_distances dd start stop ps) = map fst ps"
    and "start < x \<Longrightarrow> x \<le> stop \<Longrightarrow> snd (set_distances dd start stop ps ! x) = dd (fst (ps ! start)) (fst (ps ! x))"
proof -
  have *: "map fst (fold (\<lambda>i ps. ps[i := (fst (ps ! i), dd (fst (ps ! start)) (fst (ps ! i)))]) is qs) = map fst qs \<and>
      (\<forall>x<length qs. snd (fold (\<lambda>i ps. ps[i := (fst (ps ! i), dd (fst (ps ! start)) (fst (ps ! i)))]) is qs ! x) =
        (if x \<in> set is then dd (fst (qs ! start)) (fst (qs ! x)) else snd (qs ! x)))"
    if "start < length qs" "\<forall>i\<in>set is. i < length qs" for "is" and qs :: "'a vp_ptr list"
    using that
  proof (induction "is" arbitrary: qs)
    case (Cons i "is")
    let ?qs = "qs[i := (fst (qs ! i), dd (fst (qs ! start)) (fst (qs ! i)))]"
    have f: "fst (?qs ! x) = fst (qs ! x)" if "x < length qs" for x using that by (cases "i = x") simp_all
    have "map fst ?qs = map fst qs" using f by (intro nth_equalityI) simp_all
    moreover have "start < length ?qs" "\<forall>i\<in>set is. i < length ?qs" using Cons.prems by simp_all
    note IH = Cons.IH [OF this]
    ultimately show ?case using IH Cons.prems f by (auto simp: nth_list_update)
  qed simp
  show "map fst (set_distances dd start stop ps) = map fst ps"
    unfolding set_distances_def using * [of ps "[start + 1..<stop + 1]"] assms by (cases "start < length ps") auto
  show "snd (set_distances dd start stop ps ! x) = dd (fst (ps ! start)) (fst (ps ! x))" if "start < x" "x \<le> stop"
    unfolding set_distances_def using * [of ps "[start + 1..<stop + 1]"] assms that by auto
qed

lemma perm_in_map: "perm_in lo hi ps qs \<Longrightarrow> perm_in lo hi (map f ps) (map f qs)"
  using perm_in_length [of lo hi ps qs] by (auto simp: perm_in_def)

lemma build_subtree_ok:
  fixes dd :: "nat \<Rightarrow> nat \<Rightarrow> 'd::{linorder,zero}"
  assumes "rng_ok U" and "stop < length ps" and "start \<le> Suc stop"
  shows "\<exists>nd n ps' g'. build_subtree L dd U ps start stop g = Inr (nd, n, ps', g') \<and>
    perm_in start (Suc stop) (map fst ps) (map fst ps') \<and> vp_tree dd (map fst ps') nd start (Suc stop)"
  using assms
proof (induction L dd U ps start stop g rule: build_subtree.induct)
  case (1 L dd U ps start stop g)
  show ?case
  proof (cases "start > stop")
    case True
    then show ?thesis using "1.prems"(3) by (subst build_subtree.simps) simp
  next
    case a: False
    show ?thesis
    proof (cases "stop - start \<le> L")
      case True
      then show ?thesis using a by (subst build_subtree.simps) auto
    next
      case b: False
      then have lt: "start < stop" by simp
      obtain off g1 where off: "U g (stop - start + 1) = (off, g1)" by force
      define ps0 where "ps0 = swap_ptrs ps start (start + off)"
      define ps1 where "ps1 = set_distances dd start stop ps0"
      define mid where "mid = (start + 1 + stop) div 2"
      have mid: "start < mid" "mid \<le> stop" using lt by (simp_all add: mid_def)
      have "off < stop - start + 1" using "1.prems"(1) off unfolding rng_ok_def by (metis add_is_0 fst_conv gr0I one_neq_zero)
      then have perm0: "perm_in start (Suc stop) ps ps0" unfolding ps0_def using lt "1.prems"(2) by (intro perm_in_swap) auto
      then have len0: "length ps0 = length ps" by (rule perm_in_length)
      have s0: "stop < length ps0" using "1.prems"(2) len0 by simp
      note sd = set_distances_ok [OF s0, where dd = dd and start = start, folded ps1_def]
      have len1: "length ps1 = length ps" using arg_cong [OF sd(1), of length] len0 by simp
      obtain ps2 g2 where q: "quickselect U ps1 (start + 1) stop mid g1 = Inr (ps2, g2)" "perm_in (start + 1) (Suc stop) ps1 ps2"
          "\<forall>x. start + 1 \<le> x \<and> x < mid \<longrightarrow> snd (ps2 ! x) \<le> snd (ps2 ! mid)" "\<forall>x. mid \<le> x \<and> x \<le> stop \<longrightarrow> snd (ps2 ! mid) \<le> snd (ps2 ! x)"
        using quickselect_ok [OF "1.prems"(1), of "start + 1" mid stop ps1 g1] mid len1 "1.prems"(2) by auto
      have len2: "length ps2 = length ps" using perm_in_length [OF q(2)] len1 by simp
      have v2: "fst (ps2 ! start) = fst (ps0 ! start)"
      proof -
        have "ps2 ! start = ps1 ! start" by (rule perm_in_outside [OF q(2)]) (use lt "1.prems"(2) len1 in auto)
        moreover have "map fst ps1 ! start = map fst ps0 ! start" by (simp only: sd(1))
        ultimately show ?thesis using len0 len1 lt "1.prems"(2) by simp
      qed
      have d2: "snd (ps2 ! x) = dd (fst (ps2 ! start)) (fst (ps2 ! x))" if "start < x" "x \<le> stop" for x
      proof (rule perm_in_range [OF q(2), of "\<lambda>e. snd e = dd (fst (ps2 ! start)) (fst e)"])
        fix i assume i: "start + 1 \<le> i" "i < Suc stop"
        have "map fst ps1 ! i = map fst ps0 ! i" by (simp only: sd(1))
        then have "fst (ps1 ! i) = fst (ps0 ! i)" using i len0 len1 "1.prems"(2) by simp
        then show "snd (ps1 ! i) = dd (fst (ps2 ! start)) (fst (ps1 ! i))" using sd(2) [of i] i v2 by simp
      qed (use that len1 "1.prems"(2) in auto)
      define radius where "radius = dd (fst (ps2 ! start)) (fst (ps2 ! mid))"
      define ps3 where "ps3 = ps2[start := (fst (ps2 ! start), radius)]"
      have m3: "map fst ps3 = map fst ps2" unfolding ps3_def by (metis fst_conv map_update list_update_id)
      have len3: "length ps3 = length ps" by (simp add: ps3_def len2)
      have "\<exists>nd n ps' g'. build_subtree L dd U ps3 (start + 1) (mid - 1) g2 = Inr (nd, n, ps', g') \<and>
          perm_in (start + 1) (Suc (mid - 1)) (map fst ps3) (map fst ps') \<and> vp_tree dd (map fst ps') nd (start + 1) (Suc (mid - 1))"
        by (rule "1.IH"(1) [OF a b refl off [symmetric] ps1_def [unfolded ps0_def] mid_def radius_def ps3_def "1.prems"(1)])
          (use mid len3 "1.prems"(2) in auto)
      then obtain inside n1 ps4 g3 where i: "build_subtree L dd U ps3 (start + 1) (mid - 1) g2 = Inr (inside, n1, ps4, g3)"
          "perm_in (Suc start) mid (map fst ps3) (map fst ps4)" "vp_tree dd (map fst ps4) inside (Suc start) mid"
        using mid by auto
      have len4: "length ps4 = length ps" using perm_in_length [OF i(2)] len3 by simp
      have "\<exists>nd n ps' g'. build_subtree L dd U ps4 mid stop g3 = Inr (nd, n, ps', g') \<and>
          perm_in mid (Suc stop) (map fst ps4) (map fst ps') \<and> vp_tree dd (map fst ps') nd mid (Suc stop)"
        by (rule "1.IH"(2) [OF a b refl off [symmetric] ps1_def [unfolded ps0_def] mid_def radius_def ps3_def "1.prems"(1)])
          (use mid len4 "1.prems"(2) in auto)
      then obtain outside n2 ps5 g4 where o: "build_subtree L dd U ps4 mid stop g3 = Inr (outside, n2, ps5, g4)"
          "perm_in mid (Suc stop) (map fst ps4) (map fst ps5)" "vp_tree dd (map fst ps5) outside mid (Suc stop)" by blast
      define v where "v = fst (ps2 ! start)"
      define is3 where "is3 = map fst ps3"
      define is4 where "is4 = map fst ps4"
      define is5 where "is5 = map fst ps5"
      note ds = is3_def [symmetric] is4_def [symmetric] is5_def [symmetric]
      note p4 = i(2) [unfolded ds] and p5 = o(2) [unfolded ds]
      have li: "length is3 = length ps" "length is4 = length ps" using len3 len4 by (simp_all add: is3_def is4_def)
      have at3: "is3 ! x = fst (ps2 ! x)" if "x \<le> stop" for x
        using that "1.prems"(2) len2 unfolding is3_def m3 by simp
      have v: "is5 ! start = v"
        using perm_in_outside [OF p4, of start] perm_in_outside [OF p5, of start] at3 [of start] lt mid "1.prems"(2) li by (simp add: v_def)
      have near: "dd v (is5 ! x) \<le> radius" if "start < x" "x < mid" for x
      proof -
        have "dd v (is4 ! x) \<le> radius"
        proof (rule perm_in_range [OF p4, of "\<lambda>j. dd v j \<le> radius"])
          fix y assume y: "Suc start \<le> y" "y < mid"
          have "snd (ps2 ! y) \<le> snd (ps2 ! mid)" using q(3) y by simp
          then show "dd v (is3 ! y) \<le> radius" using d2 [of y] d2 [of mid] y mid at3 [of y] by (simp add: v_def radius_def)
        qed (use that mid li "1.prems"(2) in auto)
        moreover have "is5 ! x = is4 ! x" by (rule perm_in_outside [OF p5]) (use that mid li "1.prems"(2) in auto)
        ultimately show ?thesis by simp
      qed
      have far: "radius \<le> dd v (is5 ! x)" if "mid \<le> x" "x < Suc stop" for x
      proof (rule perm_in_range [OF p5, of "\<lambda>j. radius \<le> dd v j"])
        fix y assume y: "mid \<le> y" "y < Suc stop"
        have "snd (ps2 ! mid) \<le> snd (ps2 ! y)" using q(4) y by simp
        then have "radius \<le> dd v (is3 ! y)" using d2 [of y] d2 [of mid] y mid at3 [of y] by (simp add: v_def radius_def)
        moreover have "is4 ! y = is3 ! y" by (rule perm_in_outside [OF p4]) (use y mid li "1.prems"(2) in auto)
        ultimately show "radius \<le> dd v (is4 ! y)" by simp
      qed (use that li "1.prems"(2) in auto)
      have "vp_tree dd is5 inside (Suc start) mid"
        by (rule vp_tree_frame [OF i(3) [unfolded ds]], rule perm_in_outside [OF p5]) (use mid li "1.prems"(2) in auto)
      then have "vp_tree dd is5 (vpnode start 0 False radius inside outside) start (Suc stop)"
        using near far o(3) [unfolded ds] mid v by (auto intro!: exI [of _ mid])
      moreover have "perm_in start (Suc stop) (map fst ps) is5"
      proof -
        have "perm_in start (Suc stop) (map fst ps0) (map fst ps2)"
          using perm_in_widen [OF perm_in_map [OF q(2), of fst], of start "Suc stop"] by (simp add: sd(1))
        then have "perm_in start (Suc stop) (map fst ps) is3"
          using perm_in_trans [OF perm_in_map [OF perm0, of fst]] by (simp add: is3_def m3)
        then have "perm_in start (Suc stop) (map fst ps) is4"
          by (rule perm_in_trans) (rule perm_in_widen [OF p4], use mid in auto)
        then show ?thesis by (rule perm_in_trans) (rule perm_in_widen [OF p5], use mid in auto)
      qed
      moreover have "build_subtree L dd U ps start stop g = Inr (vpnode start 0 False radius inside outside, n1 + n2 + 1, ps5, g4)"
        unfolding build_subtree.simps [of L dd U ps start stop g] if_not_P [OF a] if_not_P [OF b] off Let_def prod.case
          ps0_def [symmetric] ps1_def [symmetric] mid_def [symmetric] q(1) bindE_simps
          radius_def [symmetric] ps3_def [symmetric] i(1) o(1) ..
      ultimately show ?thesis unfolding is5_def by blast
    qed
  qed
qed



section \<open>The shard\<close>

text \<open>The template parameters; the hash map of the records exists only with \<open>HMAP\<close>.\<close>

record vp_cfg =
  LEAFSZ :: nat
  HMAP :: bool

definition vp_dd :: "('r \<Rightarrow> 'r \<Rightarrow> 'd) \<Rightarrow> 'r Wrapped list \<Rightarrow> nat \<Rightarrow> nat \<Rightarrow> 'd" where
  "vp_dd cd ws i j = cd (rec (ws ! i)) (rec (ws ! j))"

definition build_vptree ::
    "nat \<Rightarrow> (nat \<Rightarrow> nat \<Rightarrow> 'd::{linorder,zero}) \<Rightarrow> 'g rng_ops \<Rightarrow> 'g \<Rightarrow> 'd vp_ptr list \<Rightarrow> ('d vpnode \<times> nat \<times> 'd vp_ptr list) res" where
  "build_vptree L dd U g ps =
     (if ps = [] then Inr (vp_null, 0, ps)
      else bindE (build_subtree L dd U ps 0 (length ps - 1) g) (\<lambda>(nd, n, ps', g'). Inr (nd, n, ps')))"

text \<open>What both constructors do once the records are copied.\<close>

definition vp_finish ::
    "vp_cfg \<Rightarrow> ('r \<Rightarrow> 'r \<Rightarrow> 'd::{linorder,zero}) \<Rightarrow> 'g rng_ops \<Rightarrow> 'g \<Rightarrow> 'r Wrapped list \<Rightarrow> ('r, 'd) VPTree res" where
  "vp_finish c cd U g ws =
     bindE (build_vptree (LEAFSZ c) (vp_dd cd ws) U g (map (\<lambda>i. (i, 0)) [0..<length ws])) (\<lambda>(nd, n, ps).
     Inr \<lparr>vp_data = ws, vp_ptrs = ps, vp_node_cnt = n, vp_root = nd\<rparr>)"

text \<open>The copy out of the buffer clears the headers of the buffer's own records on the way.\<close>

fun vp_copy :: "('r, 'b) BufferView \<Rightarrow> nat list \<Rightarrow> 'r Wrapped list \<Rightarrow> (('r, 'b) BufferView \<times> 'r Wrapped list) res" where
  "vp_copy v [] ws = Inr (v, ws)"
| "vp_copy v (i # is) ws =
     bindE (to_idx v i) (\<lambda>idx.
     let w = v_data v ! idx in
     if is_deleted w then vp_copy v is ws
     else vp_copy (v\<lparr>v_data := (v_data v)[idx := mask_header w]\<rparr>) is (ws @ [mask_header w]))"

definition vp_of_view ::
    "vp_cfg \<Rightarrow> ('r \<Rightarrow> 'r \<Rightarrow> 'd::{linorder,zero}) \<Rightarrow> 'g rng_ops \<Rightarrow> 'g \<Rightarrow> ('r, 'b) BufferView \<Rightarrow>
     (('r, 'b) BufferView \<times> ('r, 'd) VPTree) res" where
  "vp_of_view c cd U g buffer =
     bindE (vp_copy buffer [0..<view_record_count buffer] []) (\<lambda>(buffer', ws).
     bindE (vp_finish c cd U g ws) (\<lambda>t. Inr (buffer', t)))"

definition vp_get_record_at :: "('r, 'd) VPTree \<Rightarrow> nat \<Rightarrow> 'r Wrapped option" where
  "vp_get_record_at t idx = (if idx \<ge> vp_reccnt t then None else Some (vp_data t ! idx))"

fun vp_gather :: "('r, 'd) VPTree option list \<Rightarrow> 'r Wrapped list res" where
  "vp_gather [] = Inr []"
| "vp_gather (s # ss) =
     bindE (deref s) (\<lambda>t.
     bindE (mapE (\<lambda>j. deref (vp_get_record_at t j)) [0..<vp_reccnt t]) (\<lambda>ws.
     bindE (vp_gather ss) (\<lambda>wss. Inr (filter (\<lambda>w. \<not> is_deleted w) ws @ wss))))"

definition vp_of_shards ::
    "vp_cfg \<Rightarrow> ('r \<Rightarrow> 'r \<Rightarrow> 'd::{linorder,zero}) \<Rightarrow> 'g rng_ops \<Rightarrow> 'g \<Rightarrow> ('r, 'd) VPTree option list \<Rightarrow> ('r, 'd) VPTree res" where
  "vp_of_shards c cd U g shards = bindE (vp_gather shards) (vp_finish c cd U g)"

text \<open>The hash map: an insertion of a record that is present is ignored.\<close>

definition build_map :: "'r Wrapped list \<Rightarrow> 'r \<rightharpoonup> nat" where
  "build_map ws = fold (\<lambda>i m. if rec (ws ! i) \<in> dom m then m else m(rec (ws ! i) \<mapsto> i)) [0..<length ws] Map.empty"

text \<open>
  The lookup without the map goes down until it meets the record or a leaf and then scans from the
  node's first to its last place, which is place 0 for an inner node.
\<close>

definition scan_node :: "('r, 'd) VPTree \<Rightarrow> 'r \<Rightarrow> nat \<Rightarrow> nat \<Rightarrow> nat option" where
  "scan_node t r s e = map_option (\<lambda>i. fst (vp_ptrs t ! i)) (List.find (\<lambda>i. rec (vp_data t ! fst (vp_ptrs t ! i)) = r) [s..<e + 1])"

fun vp_descend :: "('r, 'd::linorder) VPTree \<Rightarrow> ('r \<Rightarrow> 'r \<Rightarrow> 'd) \<Rightarrow> 'r \<Rightarrow> 'd vpnode \<Rightarrow> nat option res" where
  "vp_descend t cd r vp_null = Inl NullDeref"
| "vp_descend t cd r (vpnode s e lf radius inside outside) =
     (if \<not> lf \<and> rec (vp_data t ! fst (vp_ptrs t ! s)) \<noteq> r then
        (if cd r (rec (vp_data t ! fst (vp_ptrs t ! s))) \<ge> radius then vp_descend t cd r outside
         else vp_descend t cd r inside)
      else Inr (scan_node t r s e))"

definition vp_point_lookup :: "vp_cfg \<Rightarrow> ('r \<Rightarrow> 'r \<Rightarrow> 'd::linorder) \<Rightarrow> ('r, 'd) VPTree \<Rightarrow> 'r \<Rightarrow> bool \<Rightarrow> nat option res" where
  "vp_point_lookup c cd t r use_filter =
     (if HMAP c then Inr (build_map (vp_data t) r) else vp_descend t cd r (vp_root t))"

section \<open>What the constructors establish\<close>

definition vp_inv :: "('r \<Rightarrow> 'r \<Rightarrow> 'd::linorder) \<Rightarrow> ('r, 'd) VPTree \<Rightarrow> bool" where
  "vp_inv cd t \<longleftrightarrow> mset (map fst (vp_ptrs t)) = mset [0..<vp_reccnt t] \<and>
     vp_tree (vp_dd cd (vp_data t)) (map fst (vp_ptrs t)) (vp_root t) 0 (vp_reccnt t)"

lemma vp_finish_ok:
  fixes cd :: "'r \<Rightarrow> 'r \<Rightarrow> 'd::{linorder,zero}"
  assumes "rng_ok U"
  shows "\<exists>t. vp_finish c cd U g ws = Inr t \<and> vp_inv cd t \<and> vp_data t = ws"
proof (cases "ws = []")
  case True
  then show ?thesis by (simp add: vp_finish_def build_vptree_def vp_inv_def vp_reccnt_def)
next
  case False
  define ps where "ps = map (\<lambda>i. (i, 0 :: 'd)) [0..<length ws]"
  have ps: "length ps = length ws" "map fst ps = [0..<length ws]" "ps \<noteq> []" using False by (simp_all add: ps_def comp_def)
  obtain nd n ps' g' where b: "build_subtree (LEAFSZ c) (vp_dd cd ws) U ps 0 (length ps - 1) g = Inr (nd, n, ps', g')"
      "perm_in 0 (Suc (length ps - 1)) (map fst ps) (map fst ps')" "vp_tree (vp_dd cd ws) (map fst ps') nd 0 (Suc (length ps - 1))"
    using build_subtree_ok [OF assms, of "length ps - 1" ps 0 "LEAFSZ c" "vp_dd cd ws" g] ps(1) False by auto
  have "Suc (length ps - 1) = length ws" using ps by (cases ps) auto
  then show ?thesis using b ps
    by (auto simp: vp_finish_def build_vptree_def vp_inv_def vp_reccnt_def perm_in_def simp flip: ps_def)
qed

lemma vp_gather_ok: "vp_gather (map Some ts) = Inr (filter (\<lambda>w. \<not> is_deleted w) (concat (map vp_data ts)))"
proof (induction ts)
  case (Cons t ts)
  have "mapE (\<lambda>j. deref (vp_get_record_at t j)) [0..<vp_reccnt t] = Inr (map ((!) (vp_data t)) [0..<vp_reccnt t])"
    by (intro mapE_Inr) (simp add: vp_get_record_at_def)
  then show ?case using Cons.IH by (simp add: vp_reccnt_def map_nth)
qed simp

lemma build_map_find: "build_map ws r = (if r \<in> rec ` set ws then Some (first_pos (\<lambda>w. rec w = r) ws) else None)"
proof -
  let ?f = "\<lambda>i m. if rec (ws ! i) \<in> dom m then m else m(rec (ws ! i) \<mapsto> i)"
  have "fold ?f [0..<n] Map.empty r = (if r \<in> rec ` set (take n ws) then Some (first_pos (\<lambda>w. rec w = r) ws) else None)" if "n \<le> length ws" for n
    using that
  proof (induction n)
    case (Suc n)
    let ?m = "fold ?f [0..<n] Map.empty"
    have n: "n < length ws" using Suc.prems by simp
    have tk: "take (Suc n) ws = take n ws @ [ws ! n]" using n by (rule take_Suc_conv_app_nth)
    have IH: "?m r = (if r \<in> rec ` set (take n ws) then Some (first_pos (\<lambda>w. rec w = r) ws) else None)" using Suc by simp
    show ?case
    proof (cases "r \<in> rec ` set (take n ws)")
      case True
      then show ?thesis using IH by (auto simp: tk)
    next
      case new: False
      then have none: "?m r = None" using IH by simp
      show ?thesis
      proof (cases "rec (ws ! n) = r")
        case True
        have "rec (ws ! i) \<noteq> r" if "i < n" for i
          using new nth_mem [of i "take n ws"] that n by force
        then have "first_pos (\<lambda>w. rec w = r) ws = n" using n True by (intro first_posI) simp_all
        then show ?thesis using True none by (auto simp: tk)
      next
        case False
        then show ?thesis using none new by (auto simp: tk)
      qed
    qed
  qed simp
  from this [of "length ws"] show ?thesis by (simp add: build_map_def)
qed


definition mask_live :: "'r Wrapped \<Rightarrow> 'r Wrapped" where
  "mask_live w = (if is_deleted w then w else mask_header w)"

lemma vp_copy_ok:
  assumes "view_wf v" and "i \<le> n" and "n = view_record_count v"
  shows "\<exists>v'. vp_copy v [i..<n] ws = Inr (v', ws @ map mask_header (filter (\<lambda>w. \<not> is_deleted w) (drop i (view_list v)))) \<and>
    view_wf v' \<and> view_list v' = take i (view_list v) @ map mask_live (drop i (view_list v))"
  using assms
proof (induction "n - i" arbitrary: i v ws)
  case 0
  then have "drop i (view_list v) = []" "take i (view_list v) = view_list v" by simp_all
  then show ?case using 0 by simp
next
  case (Suc d)
  have i: "i < n" "n - Suc i = d" using Suc.hyps(2) by simp_all
  have ups: "[i..<n] = i # [Suc i..<n]" using i(1) by (rule upt_conv_Cons)
  note wf = view_wfD [OF Suc.prems(1)]
  have cnt: "n = v_tail v - v_head v" using Suc.prems(1,3) by simp
  let ?idx = "(v_head v + i) mod v_cap v" and ?w = "view_list v ! i"
  have idx: "to_idx v i = Inr ?idx" by (rule to_idx_wf [OF Suc.prems(1)]) (use i(1) cnt wf(4) in linarith)
  have w: "v_data v ! ?idx = ?w" using i(1) cnt by (simp add: view_list_def nth_ring_list)
  have len: "length (view_list v) = n" using Suc.prems by simp
  have dr: "drop i (view_list v) = ?w # drop (Suc i) (view_list v)" using i(1) len by (simp add: Cons_nth_drop_Suc)
  have tk: "take (Suc i) (view_list v) = take i (view_list v) @ [?w]" using i(1) len by (simp add: take_Suc_conv_app_nth)
  show ?case
  proof (cases "is_deleted ?w")
    case True
    obtain v' where "vp_copy v [Suc i..<n] ws = Inr (v', ws @ map mask_header (filter (\<lambda>w. \<not> is_deleted w) (drop (Suc i) (view_list v))))"
        "view_wf v'" "view_list v' = take (Suc i) (view_list v) @ map mask_live (drop (Suc i) (view_list v))"
      using Suc.hyps(1) [OF i(2) [symmetric] Suc.prems(1) _ Suc.prems(3), of ws] i(1) by auto
    then show ?thesis using True by (simp add: ups idx w dr tk mask_live_def)
  next
    case False
    define u where "u = v\<lparr>v_data := (v_data v)[?idx := mask_header ?w]\<rparr>"
    have u: "view_wf u" "view_record_count u = n" "view_list u = (view_list v)[i := mask_header ?w]"
    proof -
      show "view_wf u" using Suc.prems(1) by (auto simp: u_def view_wf_def)
      then show "view_record_count u = n" using cnt by (simp add: u_def)
      show "view_list u = (view_list v)[i := mask_header ?w]"
        unfolding view_list_def u_def by (simp, rule ring_list_update) (use wf cnt i(1) in auto)
    qed
    obtain v' where v': "vp_copy u [Suc i..<n] (ws @ [mask_header ?w]) =
          Inr (v', (ws @ [mask_header ?w]) @ map mask_header (filter (\<lambda>w. \<not> is_deleted w) (drop (Suc i) (view_list u))))"
        "view_wf v'" "view_list v' = take (Suc i) (view_list u) @ map mask_live (drop (Suc i) (view_list u))"
      using Suc.hyps(1) [OF i(2) [symmetric] u(1) _ u(2) [symmetric], of "ws @ [mask_header ?w]"] i(1) by auto
    have "drop (Suc i) (view_list u) = drop (Suc i) (view_list v)" "take (Suc i) (view_list u) = take i (view_list v) @ [mask_header ?w]"
      using i(1) len by (simp_all add: u(3) take_Suc_conv_app_nth)
    moreover have "vp_copy v [i..<n] ws = vp_copy u [Suc i..<n] (ws @ [mask_header ?w])"
      unfolding ups vp_copy.simps idx bindE_simps Let_def w if_not_P [OF False] u_def ..
    ultimately show ?thesis using v' False by (simp add: dr mask_live_def)
  qed
qed

lemma vp_of_view_ok:
  fixes cd :: "'r \<Rightarrow> 'r \<Rightarrow> 'd::{linorder,zero}"
  assumes "rng_ok U" and "view_wf v"
  shows "\<exists>v' t. vp_of_view c cd U g v = Inr (v', t) \<and> vp_inv cd t \<and>
    vp_data t = map mask_header (filter (\<lambda>w. \<not> is_deleted w) (view_list v)) \<and> view_wf v' \<and> view_list v' = map mask_live (view_list v)"
proof -
  obtain v' where v': "vp_copy v [0..<view_record_count v] [] = Inr (v', map mask_header (filter (\<lambda>w. \<not> is_deleted w) (view_list v)))"
      "view_wf v'" "view_list v' = map mask_live (view_list v)"
    using vp_copy_ok [OF assms(2) _ refl, of 0 "[]"] by auto
  then show ?thesis
    using vp_finish_ok [OF assms(1), of c cd g "map mask_header (filter (\<lambda>w. \<not> is_deleted w) (view_list v))"]
    by (auto simp: vp_of_view_def)
qed

lemma vp_of_shards_ok:
  fixes cd :: "'r \<Rightarrow> 'r \<Rightarrow> 'd::{linorder,zero}"
  assumes "rng_ok U"
  shows "\<exists>t. vp_of_shards c cd U g (map Some ts) = Inr t \<and> vp_inv cd t \<and>
    vp_data t = filter (\<lambda>w. \<not> is_deleted w) (concat (map vp_data ts))"
  using vp_finish_ok [OF assms, of c cd g "filter (\<lambda>w. \<not> is_deleted w) (concat (map vp_data ts))"]
  by (auto simp: vp_of_shards_def vp_gather_ok)


section \<open>Properties\<close>

text \<open>
  C9. Building a vantage-point tree ends: quickselect and the recursion terminate whatever the random
  choices are, stay inside the array, only permute it, and split every range at the radius. The tree
  holds the records of the view that are not tagged; the view's own headers are cleared.
\<close>

theorem vp_build_correct:
  fixes cd :: "'r \<Rightarrow> 'r \<Rightarrow> 'd::{linorder,zero}"
  assumes "rng_ok U" and "view_wf v"
  shows "\<exists>v' t. vp_of_view c cd U g v = Inr (v', t) \<and> vp_inv cd t \<and>
    vp_data t = map mask_header (filter (\<lambda>w. \<not> is_deleted w) (view_list v)) \<and> view_list v' = map mask_live (view_list v)"
  using vp_of_view_ok [OF assms, of c cd g] by blast

text \<open>Merging trees gathers their records that are not tagged and builds a tree over them.\<close>

theorem vp_merge_invariant:
  fixes cd :: "'r \<Rightarrow> 'r \<Rightarrow> 'd::{linorder,zero}"
  assumes "rng_ok U"
  shows "\<exists>t. vp_of_shards c cd U g (map Some ts) = Inr t \<and> vp_inv cd t \<and>
    vp_data t = filter (\<lambda>w. \<not> is_deleted w) (concat (map vp_data ts))"
  by (rule vp_of_shards_ok [OF assms])

text \<open>
  A lookup that meets the record at an inner node other than the root scans from that node's place
  to place 0, that is not at all: the record is not found.
\<close>

theorem vp_lookup_misses_inner:
  assumes "vp_inv cd t" and "vp_root t = vpnode s e False radius (vpnode s1 e1 False radius1 a b) out"
    and "rec (vp_data t ! fst (vp_ptrs t ! s1)) = r" and "rec (vp_data t ! fst (vp_ptrs t ! s)) \<noteq> r"
    and "cd r (rec (vp_data t ! fst (vp_ptrs t ! s))) < radius" and "\<not> HMAP c"
  shows "vp_point_lookup c cd t r f = Inr None"
proof -
  have "s1 = Suc 0" "e1 = 0" using assms(1,2) by (auto simp: vp_inv_def)
  moreover have "\<not> radius \<le> cd r (rec (vp_data t ! fst (vp_ptrs t ! s)))" using assms(5) by (simp add: not_le)
  ultimately show ?thesis using assms(2-4,6) by (simp add: vp_point_lookup_def scan_node_def)
qed

text \<open>With the hash map a lookup finds the first record that is equal, and nothing else.\<close>

theorem vp_lookup_map:
  assumes "HMAP c"
  shows "vp_point_lookup c cd t r f =
    Inr (if r \<in> rec ` set (vp_data t) then Some (first_pos (\<lambda>w. rec w = r) (vp_data t)) else None)"
  using assms by (simp add: vp_point_lookup_def build_map_find)

definition abs_dist :: "int \<Rightarrow> int \<Rightarrow> int" where
  "abs_dist a b = \<bar>a - b\<bar>"

definition demo_vp :: "(int, int) VPTree" where
  "demo_vp = \<lparr>vp_data = map (\<lambda>x. \<lparr>header = 0, rec = x\<rparr>) [0, 1, 2, 3, 4, 5],
     vp_ptrs = map (\<lambda>i. (i, 0)) [0, 1, 2, 3, 4, 5], vp_node_cnt = 6,
     vp_root = vpnode 0 0 False 3 (vpnode 1 0 False 1 vp_null (vpnode 2 2 True 0 vp_null vp_null))
       (vpnode 3 0 False 1 vp_null (vpnode 4 0 False 1 vp_null (vpnode 5 5 True 0 vp_null vp_null)))\<rparr>"

lemma vp_tree_node:
  assumes "lo < mid" and "mid < hi" and "\<forall>i. lo < i \<and> i < mid \<longrightarrow> dd (idx ! lo) (idx ! i) \<le> r"
    and "\<forall>i. mid \<le> i \<and> i < hi \<longrightarrow> r \<le> dd (idx ! lo) (idx ! i)" and "vp_tree dd idx a (Suc lo) mid" and "vp_tree dd idx b mid hi"
  shows "vp_tree dd idx (vpnode lo 0 False r a b) lo hi"
  using assms by auto

lemma demo_vp_inv: "vp_inv abs_dist demo_vp"
proof -
  define dd where "dd = vp_dd abs_dist (vp_data demo_vp)"
  define idx where "idx = [0, 1, 2, 3, 4, 5::nat]"
  have range: "(\<forall>i. lo < i \<and> i < hi \<longrightarrow> P i) \<longleftrightarrow> list_all P [Suc lo..<hi]" "(\<forall>i. lo \<le> i \<and> i < hi \<longrightarrow> P i) \<longleftrightarrow> list_all P [lo..<hi]"
    for lo hi :: nat and P by (auto simp: list_all_iff)
  note s = dd_def idx_def vp_dd_def abs_dist_def demo_vp_def range upt_rec
  have far: "vp_tree dd idx (vpnode 4 0 False 1 vp_null (vpnode 5 5 True 0 vp_null vp_null)) 4 6"
    by (rule vp_tree_node [of _ 5]) (simp_all add: s)
  have outside: "vp_tree dd idx (vpnode 3 0 False 1 vp_null (vpnode 4 0 False 1 vp_null (vpnode 5 5 True 0 vp_null vp_null))) 3 6"
    by (rule vp_tree_node [OF _ _ _ _ _ far]) (simp_all add: s)
  have inside: "vp_tree dd idx (vpnode 1 0 False 1 vp_null (vpnode 2 2 True 0 vp_null vp_null)) (Suc 0) 3"
    unfolding One_nat_def by (rule vp_tree_node [of _ 2]) (simp_all add: s)
  have "vp_tree dd idx (vp_root demo_vp) 0 6"
    unfolding demo_vp_def VPTree.select_convs by (rule vp_tree_node [OF _ _ _ _ inside outside]) (simp_all add: s)
  moreover have "map fst (vp_ptrs demo_vp) = idx" "vp_reccnt demo_vp = 6" by (simp_all add: demo_vp_def idx_def vp_reccnt_def)
  moreover have "[0..<6] = idx" by (simp add: idx_def upt_rec numeral_eq_Suc)
  ultimately show ?thesis by (simp add: vp_inv_def flip: dd_def)
qed


theorem vp_build_correct_witness:
  "\<exists>v' t. vp_of_view \<lparr>LEAFSZ = 0, HMAP = False\<rparr> abs_dist first_rng ()
      (BufferView_new [\<lparr>header = 12, rec = 7\<rparr>, \<lparr>header = 4, rec = 3\<rparr>, \<lparr>header = 6, rec = 5\<rparr>, \<lparr>header = 0, rec = 0\<rparr>] 4 0 3 0 (None :: unit option)) = Inr (v', t) \<and>
    vp_inv abs_dist t \<and> vp_data t = [\<lparr>header = 0, rec = 7\<rparr>, \<lparr>header = 0, rec = 3\<rparr>] \<and>
    view_list v' = [\<lparr>header = 0, rec = 7\<rparr>, \<lparr>header = 0, rec = 3\<rparr>, \<lparr>header = 6, rec = 5\<rparr>]"
proof -
  let ?v = "BufferView_new [\<lparr>header = 12, rec = 7 :: int\<rparr>, \<lparr>header = 4, rec = 3\<rparr>, \<lparr>header = 6, rec = 5\<rparr>, \<lparr>header = 0, rec = 0\<rparr>] 4 0 3 0 (None :: unit option)"
  have l: "view_list ?v = [\<lparr>header = 12, rec = 7\<rparr>, \<lparr>header = 4, rec = 3\<rparr>, \<lparr>header = 6, rec = 5\<rparr>]"
    by (simp add: view_list_def ring_list_def BufferView_new_def upt_rec)
  have "view_wf ?v" by (simp add: view_wf_def BufferView_new_def)
  from vp_build_correct [OF first_rng_ok this, of "\<lparr>LEAFSZ = 0, HMAP = False\<rparr>" abs_dist "()"] show ?thesis
    by (simp add: l is_deleted_def mask_header_def mask_live_def)
qed

theorem vp_merge_invariant_witness:
  "\<exists>t. vp_of_shards \<lparr>LEAFSZ = 1, HMAP = False\<rparr> abs_dist first_rng () (map Some [demo_vp, demo_vp]) = Inr t \<and> vp_inv abs_dist t \<and>
    length (vp_data t) = 12"
  using vp_merge_invariant [OF first_rng_ok, of "\<lparr>LEAFSZ = 1, HMAP = False\<rparr>" abs_dist "()" "[demo_vp, demo_vp]"]
  by (auto simp: demo_vp_def is_deleted_def)

theorem vp_lookup_misses_inner_witness:
  "1 \<in> rec ` set (vp_data demo_vp) \<and> vp_point_lookup \<lparr>LEAFSZ = 0, HMAP = False\<rparr> abs_dist demo_vp 1 False = Inr None"
  using vp_lookup_misses_inner [OF demo_vp_inv, of 0 0 3 1 0 1 vp_null "vpnode 2 2 True 0 vp_null vp_null"
      "vpnode 3 0 False 1 vp_null (vpnode 4 0 False 1 vp_null (vpnode 5 5 True 0 vp_null vp_null))" 1 "\<lparr>LEAFSZ = 0, HMAP = False\<rparr>" False]
  by (simp add: demo_vp_def abs_dist_def)

theorem vp_lookup_map_witness:
  "vp_point_lookup \<lparr>LEAFSZ = 0, HMAP = True\<rparr> abs_dist demo_vp 1 False = Inr (Some 1)"
  using vp_lookup_map [of "\<lparr>LEAFSZ = 0, HMAP = True\<rparr>" abs_dist demo_vp 1 False] by (simp add: demo_vp_def first_pos_def)

end
