(* ===== verification/DE_Distance.thy ===== *)
theory DE_Distance
  imports DE_Record Complex_Main
begin

text \<open>
  The distances of the point records (\<^verbatim>\<open>calc_distance\<close> of \<^verbatim>\<open>include/framework/interface/Record.h\<close>), over
  the real numbers in place of \<^verbatim>\<open>double\<close>, and the interface a metric search relies on.
\<close>

section \<open>The code\<close>

definition euclid_distance :: "nat \<Rightarrow> real list \<Rightarrow> real list \<Rightarrow> real" where
  "euclid_distance D a b = sqrt (fold (\<lambda>i s. s + (a ! i - b ! i) * (a ! i - b ! i)) [0..<D] 0)"

definition cosine_distance :: "nat \<Rightarrow> real list \<Rightarrow> real list \<Rightarrow> real" where
  "cosine_distance D a b =
     (case fold (\<lambda>i (dot, asq, bsq). (dot + a ! i * b ! i, asq + a ! i * a ! i, bsq + b ! i * b ! i)) [0..<D] (0, 0, 0) of
        (dot, asq, bsq) \<Rightarrow> dot / sqrt (asq * bsq))"

section \<open>The interface of a metric search\<close>

locale metric_distance =
  fixes cd :: "'r \<Rightarrow> 'r \<Rightarrow> 'd::linordered_ab_group_add"
  assumes symmetric: "cd a b = cd b a"
    and triangle: "cd a c \<le> cd a b + cd b c"
begin

lemma triangle_other: "cd a b \<le> cd c a + cd c b"
  using triangle [of a b c] by (simp add: symmetric)

end

section \<open>Sums of squares\<close>

abbreviation sumsq :: "nat \<Rightarrow> (nat \<Rightarrow> real) \<Rightarrow> real" where
  "sumsq n f \<equiv> (\<Sum>i<n. (f i)\<^sup>2)"

lemma sumsq_nonneg: "0 \<le> sumsq n f"
  by (simp add: sum_nonneg)

lemma sumsq_triangle: "sqrt (sumsq n (\<lambda>i. f i + g i)) \<le> sqrt (sumsq n f) + sqrt (sumsq n g)"
proof (induction n)
  case (Suc n)
  let ?p = "sqrt (sumsq n f)" and ?q = "sqrt (sumsq n g)"
  have "sqrt (sumsq (Suc n) (\<lambda>i. f i + g i)) \<le> sqrt ((?p + ?q)\<^sup>2 + (f n + g n)\<^sup>2)"
  proof -
    have "sumsq n (\<lambda>i. f i + g i) = (sqrt (sumsq n (\<lambda>i. f i + g i)))\<^sup>2" by (simp add: sumsq_nonneg)
    also have "\<dots> \<le> (?p + ?q)\<^sup>2" by (intro power_mono Suc.IH real_sqrt_ge_zero sumsq_nonneg)
    finally show ?thesis by simp
  qed
  also have "\<dots> \<le> sqrt (?p\<^sup>2 + (f n)\<^sup>2) + sqrt (?q\<^sup>2 + (g n)\<^sup>2)" by (rule real_sqrt_sum_squares_triangle_ineq)
  finally show ?case by (simp add: sumsq_nonneg)
qed simp

lemma product_squares: "(p * q + u * v)\<^sup>2 \<le> (p\<^sup>2 + u\<^sup>2) * (q\<^sup>2 + (v::real)\<^sup>2)"
proof -
  have "0 \<le> (p * v - q * u)\<^sup>2" by simp
  then show ?thesis by (simp add: power2_eq_square algebra_simps)
qed

lemma sumsq_product: "\<bar>\<Sum>i<n. f i * g i\<bar> \<le> sqrt (sumsq n f) * sqrt (sumsq n g)"
proof (induction n)
  case (Suc n)
  let ?p = "sqrt (sumsq n f)" and ?q = "sqrt (sumsq n g)"
  have sq: "(?p * ?q + \<bar>f n * g n\<bar>)\<^sup>2 \<le> (?p\<^sup>2 + (f n)\<^sup>2) * (?q\<^sup>2 + (g n)\<^sup>2)"
    using product_squares [of ?p ?q "\<bar>f n\<bar>" "\<bar>g n\<bar>"] by (simp add: abs_mult)
  have "\<bar>\<Sum>i<Suc n. f i * g i\<bar> \<le> ?p * ?q + \<bar>f n * g n\<bar>" using Suc.IH by simp
  also have "\<dots> \<le> sqrt ((?p\<^sup>2 + (f n)\<^sup>2) * (?q\<^sup>2 + (g n)\<^sup>2))" by (rule real_le_rsqrt [OF sq])
  also have "\<dots> = sqrt (sumsq (Suc n) f) * sqrt (sumsq (Suc n) g)" by (simp add: real_sqrt_mult sumsq_nonneg)
  finally show ?case .
qed simp

lemma fold_sum: "fold (\<lambda>i s. s + f i) [0..<n] c = c + (\<Sum>i<n. f i :: real)"
  by (induction n arbitrary: c) simp_all

lemma euclid_distance_sum: "euclid_distance D a b = sqrt (sumsq D (\<lambda>i. a ! i - b ! i))"
  by (simp add: euclid_distance_def fold_sum power2_eq_square)

lemma cosine_distance_sum: "cosine_distance D a b = (\<Sum>i<D. a ! i * b ! i) / (sqrt (sumsq D ((!) a)) * sqrt (sumsq D ((!) b)))"
proof -
  have "fold (\<lambda>i (p, q, r). (p + a ! i * b ! i, q + a ! i * a ! i, r + b ! i * b ! i)) [0..<D] (p, q, r) =
      (p + (\<Sum>i<D. a ! i * b ! i), q + sumsq D ((!) a), r + sumsq D ((!) b))" for p q r
    by (induction D) (simp_all add: power2_eq_square)
  then show ?thesis by (simp add: cosine_distance_def real_sqrt_mult)
qed

interpretation euclid: metric_distance "euclid_distance D" for D
proof
  fix a b c :: "real list"
  show "euclid_distance D a b = euclid_distance D b a" by (simp add: euclid_distance_sum power2_commute)
  show "euclid_distance D a c \<le> euclid_distance D a b + euclid_distance D b c"
    using sumsq_triangle [where n = D and f = "\<lambda>i. a ! i - b ! i" and g = "\<lambda>i. b ! i - c ! i"] by (simp add: euclid_distance_sum)
qed

section \<open>Properties\<close>

text \<open>The Euclidean distance of points is symmetric, never negative, and obeys the triangle inequality.\<close>

theorem euclid_distance_metric:
  "euclid_distance D a b = euclid_distance D b a \<and> 0 \<le> euclid_distance D a b \<and>
   euclid_distance D a c \<le> euclid_distance D a b + euclid_distance D b c"
  using euclid.symmetric [of D a b] euclid.triangle [of D a c b]
  by (metis euclid_distance_sum real_sqrt_ge_zero sumsq_nonneg)

text \<open>
  The cosine distance is a similarity: of all points that are not the origin the point itself is at the
  greatest distance from it, so a search for the nearest points returns the least similar ones.
\<close>

theorem cosine_distance_reversed:
  assumes "0 < sumsq D ((!) a)" and "0 < sumsq D ((!) b)"
  shows "cosine_distance D a a = 1 \<and> cosine_distance D a b \<le> cosine_distance D a a"
proof -
  let ?n = "\<lambda>v. sqrt (sumsq D ((!) v))"
  have "(\<Sum>i<D. a ! i * a ! i) = ?n a * ?n a" using assms(1) by (simp add: power2_eq_square)
  then have self: "cosine_distance D a a = 1" using assms(1) by (simp add: cosine_distance_sum)
  have "(\<Sum>i<D. a ! i * b ! i) \<le> ?n a * ?n b" using sumsq_product [where n = D and f = "(!) a" and g = "(!) b"] by simp
  then have "cosine_distance D a b \<le> 1" using assms by (simp add: cosine_distance_sum divide_le_eq_1)
  then show ?thesis using self by simp
qed

theorem cosine_distance_reversed_witness:
  "cosine_distance 2 [1, 0] [0, 1] \<le> cosine_distance 2 [1, 0] [1, 0]"
  using cosine_distance_reversed [of "[1, 0]" 2 "[0, 1]"] by (simp add: numeral_2_eq_2 lessThan_Suc)

end
