(* ===== verification/DE_VPSearch.thy ===== *)
theory DE_VPSearch
  imports DE_VPTree DE_Distance
begin

text \<open>
  Nearest-neighbour search in a vantage-point tree (\<^verbatim>\<open>VPTree::search\<close>, \<^verbatim>\<open>internal_search\<close>). The search
  keeps the \<open>k\<close> nearest records seen and leaves out a subtree when the triangle inequality shows that
  it holds nothing nearer.
\<close>

section \<open>Searching\<close>

text \<open>
  The queue of a search holds at most \<open>k\<close> pointers and gives the farthest first; \<open>pd\<close> is the distance of
  a place of the record array from the point. The bound is the distance of the farthest once the
  queue is full.
\<close>

definition nearer :: "'d::linorder \<Rightarrow> 'd option \<Rightarrow> bool" where
  "nearer d farthest = (case farthest of None \<Rightarrow> True | Some f \<Rightarrow> d < f)"

definition vp_visit ::
    "('a list \<Rightarrow> nat) \<Rightarrow> nat \<Rightarrow> ('a \<Rightarrow> 'd::linorder) \<Rightarrow> 'a \<Rightarrow> 'a list \<times> 'd option \<Rightarrow> 'a list \<times> 'd option" where
  "vp_visit pick k pd x st =
     (case st of (pq, farthest) \<Rightarrow>
      if nearer (pd x) farthest then
        let pq1 = (if length pq = k then pq_pop pick pq else pq);
            pq2 = pq_push x pq1
        in (pq2, if length pq2 = k then Some (pd (pq_peek pick pq2)) else farthest)
      else (pq, farthest))"

definition may_inside :: "'d::linordered_ab_group_add \<Rightarrow> 'd \<Rightarrow> 'd option \<Rightarrow> bool" where
  "may_inside d radius farthest = (case farthest of None \<Rightarrow> True | Some f \<Rightarrow> d - f \<le> radius)"

definition may_outside :: "'d::linordered_ab_group_add \<Rightarrow> 'd \<Rightarrow> 'd option \<Rightarrow> bool" where
  "may_outside d radius farthest = (case farthest of None \<Rightarrow> True | Some f \<Rightarrow> d + f \<ge> radius)"

fun internal_search ::
    "(nat list \<Rightarrow> nat) \<Rightarrow> nat \<Rightarrow> (nat \<Rightarrow> 'd::linordered_ab_group_add) \<Rightarrow> 'd vp_ptr list \<Rightarrow> 'd vpnode \<Rightarrow>
     nat list \<times> 'd option \<Rightarrow> nat list \<times> 'd option" where
  "internal_search pick k pd ps vp_null st = st"
| "internal_search pick k pd ps (vpnode s e lf radius inside outside) st =
     (if lf then fold (\<lambda>i st. vp_visit pick k pd (fst (ps ! i)) st) [s..<e + 1] st
      else
        let d = pd (fst (ps ! s));
            st1 = vp_visit pick k pd (fst (ps ! s)) st
        in
          if d < radius then
            let st2 = (if may_inside d radius (snd st1) then internal_search pick k pd ps inside st1 else st1)
            in if may_outside d radius (snd st2) then internal_search pick k pd ps outside st2 else st2
          else
            let st2 = (if may_outside d radius (snd st1) then internal_search pick k pd ps outside st1 else st1)
            in if may_inside d radius (snd st2) then internal_search pick k pd ps inside st2 else st2)"

section \<open>The nearest records\<close>

text \<open>\<open>Q\<close> is a choice of the \<open>k\<close> elements of \<open>M\<close> nearest by \<open>d\<close>.\<close>

definition nearest :: "nat \<Rightarrow> ('a \<Rightarrow> 'd::linorder) \<Rightarrow> 'a multiset \<Rightarrow> 'a multiset \<Rightarrow> bool" where
  "nearest k d M Q \<longleftrightarrow> Q \<subseteq># M \<and> size Q = min k (size M) \<and> (\<forall>x\<in>#Q. \<forall>y\<in>#M - Q. d x \<le> d y)"

lemma nearest_empty: "nearest k d {#} {#}"
  by (simp add: nearest_def)

lemma nearest_all:
  assumes "nearest k d M Q" and "size Q < k"
  shows "Q = M"
proof (rule ccontr)
  assume "Q \<noteq> M"
  then have "Q \<subset># M" using assms(1) by (simp add: nearest_def subset_mset.le_neq_trans)
  then have "size Q < size M" by (rule mset_subset_size)
  then show False using assms by (simp add: nearest_def)
qed

lemma nearest_add_far:
  assumes "nearest k d M Q" and "size Q = k" and "\<forall>x\<in>#Q. \<forall>y\<in>#N. d x \<le> d y"
  shows "nearest k d (M + N) Q"
proof -
  have sub: "Q \<subseteq># M" and sz: "k \<le> size M" using assms(1,2) by (auto simp: nearest_def)
  have e: "M + N - Q = (M - Q) + N" using sub by (simp add: subset_mset.add_diff_assoc2)
  have "Q \<subseteq># M + N" using sub by (simp add: subset_mset.add_increasing2)
  moreover have "d x \<le> d y" if "x \<in># Q" "y \<in># M + N - Q" for x y
  proof -
    have "y \<in># M - Q \<or> y \<in># N" using that(2) unfolding e union_iff .
    then show ?thesis using assms(1,3) that(1) unfolding nearest_def by blast
  qed
  ultimately show ?thesis using assms(2) sz by (simp add: nearest_def)
qed

lemma nearest_add_new:
  assumes "nearest k d M Q" and "size Q < k"
  shows "nearest k d (add_mset x M) (add_mset x Q)"
  using nearest_all [OF assms] assms by (auto simp: nearest_def)

lemma nearest_exchange:
  assumes "nearest k d M (add_mset m Q)" and "\<forall>x\<in>#Q. d x \<le> d m" and "d x \<le> d m" and "size (add_mset m Q) = k"
  shows "nearest k d (add_mset x M) (add_mset x Q)"
proof -
  have sub: "add_mset m Q \<subseteq># M" and far: "\<forall>u\<in>#add_mset m Q. \<forall>y\<in>#M - add_mset m Q. d u \<le> d y" and sz: "k \<le> size M"
    using assms(1,4) by (auto simp: nearest_def)
  obtain N where N: "M = add_mset m Q + N" using sub by (metis subset_mset.le_iff_add)
  have "add_mset x M - add_mset x Q = add_mset m N" by (simp add: N)
  moreover have "M - add_mset m Q = N" by (simp add: N)
  ultimately have "\<forall>u\<in>#add_mset x Q. \<forall>y\<in>#add_mset x M - add_mset x Q. d u \<le> d y"
    using far assms(2,3) by (auto intro: order_trans)
  then show ?thesis using assms(4) sz by (simp add: nearest_def N)
qed

text \<open>A part may be replaced by its nearest elements: what the part leaves out lies beyond the answer.\<close>

lemma nearest_replace:
  assumes "nearest k d M P" and "nearest k d (P + X) R"
  shows "nearest k d (M + X) R"
proof -
  obtain M' where M: "M = P + M'" using assms(1) by (auto simp: nearest_def subset_mset.le_iff_add)
  obtain R' where R: "P + X = R + R'" using assms(2) by (auto simp: nearest_def subset_mset.le_iff_add)
  have "size P + size X = size R + size R'" using arg_cong [OF R, of size] by simp
  then have near: "\<forall>x\<in>#R. \<forall>y\<in>#R'. d x \<le> d y" "size R = min k (size P + size X)"
    using assms(2) by (simp_all add: nearest_def R)
  have part: "\<forall>x\<in>#P. \<forall>y\<in>#M'. d x \<le> d y" "size P = min k (size P + size M')"
    using assms(1) by (simp_all add: nearest_def M)
  have beyond: "d x \<le> d y" if x: "x \<in># R" and y: "y \<in># M'" for x y
  proof (cases "x \<in># P")
    case False
    have "M' \<noteq> {#}" using y by auto
    then have "size P = k" using part(2) by (metis min_def add_cancel_right_right size_eq_0_iff_empty)
    then have sz: "size R = size P" using near(2) by simp
    show ?thesis
    proof (cases "set_mset P \<inter> set_mset R' = {}")
      case True
      have "P \<subseteq># R"
      proof (rule mset_subset_eqI)
        fix a
        show "count P a \<le> count R a"
        proof (cases "a \<in># P")
          case in_P: True
          then have "count R' a = 0" using True by (auto simp: not_in_iff)
          then show ?thesis using arg_cong [OF R, of "\<lambda>X. count X a"] by simp
        qed (simp add: not_in_iff)
      qed
      then have "P = R" using sz by (metis mset_subset_size nat_less_le subset_mset.le_neq_trans)
      then show ?thesis using False x by simp
    next
      case ne: False
      then obtain a where "a \<in># P" "a \<in># R'" by blast
      then have "d x \<le> d a" "d a \<le> d y" using near(1) part(1) x y by blast+
      then show ?thesis by simp
    qed
  qed (use part(1) y in blast)
  have eq: "M + X = R + (R' + M')" using M R by (metis add.assoc add.commute)
  then have "M + X - R = R' + M'" "R \<subseteq># M + X" by simp_all
  moreover have "d x \<le> d y" if "x \<in># R" "y \<in># R' + M'" for x y
    using that near(1) beyond by auto
  moreover have "size R = min k (size (M + X))" using near(2) part(2) M by simp
  ultimately show ?thesis by (simp add: nearest_def)
qed

lemma nearest_concat:
  assumes "\<forall>t\<in>set ts. nearest k d (mset (f t)) (mset (g t))" and "nearest k d (X + mset (concat (map g ts))) R"
  shows "nearest k d (X + mset (concat (map f ts))) R"
  using assms
proof (induction ts arbitrary: X)
  case (Cons t ts)
  have "nearest k d (mset (f t) + (X + mset (concat (map g ts)))) R"
    by (rule nearest_replace [of _ _ _ "mset (g t)"]) (use Cons.prems in \<open>simp_all add: ac_simps\<close>)
  then have "nearest k d ((X + mset (f t)) + mset (concat (map g ts))) R" by (simp add: ac_simps)
  then have "nearest k d ((X + mset (f t)) + mset (concat (map f ts))) R" using Cons.IH Cons.prems(1) by simp
  then show ?case by (simp add: ac_simps)
qed simp

lemma nearest_image:
  assumes "nearest k (\<lambda>x. d (f x)) M Q"
  shows "nearest k d (image_mset f M) (image_mset f Q)"
proof -
  obtain N where N: "M = Q + N" using assms by (auto simp: nearest_def subset_mset.le_iff_add)
  then show ?thesis using assms by (auto simp: nearest_def)
qed

section \<open>What a search finds\<close>

definition search_inv :: "nat \<Rightarrow> ('a \<Rightarrow> 'd::linorder) \<Rightarrow> 'a multiset \<Rightarrow> 'a list \<times> 'd option \<Rightarrow> bool" where
  "search_inv k d M st \<longleftrightarrow> nearest k d M (mset (fst st)) \<and>
     (case snd st of None \<Rightarrow> length (fst st) < k
      | Some f \<Rightarrow> length (fst st) = k \<and> (\<forall>x\<in>set (fst st). d x \<le> f) \<and> (\<exists>x\<in>set (fst st). d x = f))"

lemma search_inv_full:
  assumes "min_pick (\<lambda>e. - d e) pick" and "nearest k d M (mset pq)" and "length pq = k" and "0 < k"
  shows "search_inv k (d :: 'a \<Rightarrow> 'd::linordered_ab_group_add) M (pq, Some (d (pq_peek pick pq)))"
proof -
  have "pq \<noteq> []" using assms(3,4) by auto
  then show ?thesis using assms min_pick.peek_min [OF assms(1), of _ pq] pq_peek_in [of pq pick] by (auto simp: search_inv_def)
qed

lemma vp_visit_ok:
  fixes d :: "'a \<Rightarrow> 'd::linordered_ab_group_add"
  assumes pick: "min_pick (\<lambda>e. - d e) pick" and k: "0 < k" and inv: "search_inv k d M st"
  shows "search_inv k d (add_mset x M) (vp_visit pick k d x st)"
proof -
  obtain pq far where st: "st = (pq, far)" by force
  have near: "nearest k d M (mset pq)" using inv by (simp add: search_inv_def st)
  show ?thesis
  proof (cases "nearer (d x) far")
    case False
    then obtain f where f: "far = Some f" "f \<le> d x" by (auto simp: nearer_def split: option.splits)
    then have "length pq = k" "\<forall>y\<in>set pq. d y \<le> f" using inv by (auto simp: search_inv_def st)
    then have "nearest k d (M + {#x#}) (mset pq)" using near f(2) by (intro nearest_add_far) (auto intro: order_trans)
    then show ?thesis using inv False f by (simp add: search_inv_def st vp_visit_def)
  next
    case nr: True
    show ?thesis
    proof (cases "length pq = k")
      case True
      then obtain f where f: "far = Some f" "\<exists>y\<in>set pq. d y = f" "d x < f"
        using inv nr by (auto simp: search_inv_def st nearer_def split: option.splits)
      have ne: "pq \<noteq> []" using True k by auto
      define m where "m = pq_peek pick pq"
      have pop: "mset pq = add_mset m (mset (pq_pop pick pq))" unfolding m_def by (rule mset_pq_pop [OF ne])
      have mx: "d y \<le> d m" if "y \<in> set pq" for y
        using min_pick.peek_min [OF pick that] by (simp add: m_def)
      have "nearest k d (add_mset x M) (add_mset x (mset (pq_pop pick pq)))"
      proof (rule nearest_exchange)
        show "nearest k d M (add_mset m (mset (pq_pop pick pq)))" using near pop by simp
        show "\<forall>y\<in>#mset (pq_pop pick pq). d y \<le> d m" using mx arg_cong [OF pop, of set_mset] by auto
        show "d x \<le> d m" using f(2,3) mx by fastforce
        show "size (add_mset m (mset (pq_pop pick pq))) = k" using True pop by (metis size_mset)
      qed
      then have "nearest k d (add_mset x M) (mset (pq_push x (pq_pop pick pq)))" by (simp add: mset_pq_push)
      moreover have "length (pq_push x (pq_pop pick pq)) = k" using True ne k by simp
      ultimately show ?thesis using search_inv_full [OF pick _ _ k] nr True by (simp add: vp_visit_def st Let_def)
    next
      case False
      then have lt: "length pq < k" "far = None" using inv by (auto simp: search_inv_def st split: option.splits)
      have n: "nearest k d (add_mset x M) (mset (pq_push x pq))" using nearest_add_new [OF near] lt by (simp add: mset_pq_push)
      show ?thesis
      proof (cases "length (pq_push x pq) = k")
        case True
        then show ?thesis using search_inv_full [OF pick n True k] nr False by (simp add: vp_visit_def st Let_def)
      next
        case f: False
        then show ?thesis using n nr False lt by (simp add: vp_visit_def st Let_def search_inv_def)
      qed
    qed
  qed
qed

lemma vp_visit_fold:
  fixes d :: "'a \<Rightarrow> 'd::linordered_ab_group_add"
  assumes "min_pick (\<lambda>e. - d e) pick" and "0 < k" and "search_inv k d M st"
  shows "search_inv k d (M + mset xs) (fold (vp_visit pick k d) xs st)"
  using assms(3)
proof (induction xs arbitrary: M st)
  case (Cons x xs)
  have "search_inv k d (add_mset x M + mset xs) (fold (vp_visit pick k d) xs (vp_visit pick k d x st))"
    by (rule Cons.IH) (rule vp_visit_ok [OF assms(1,2) Cons.prems])
  then show ?case by simp
qed simp

lemma search_inv_skip:
  assumes "search_inv k d M (pq, Some f)" and "\<forall>y\<in>#N. f \<le> d y"
  shows "search_inv k d (M + N) (pq, Some f)"
proof -
  have inv: "nearest k d M (mset pq)" "length pq = k" "\<forall>x\<in>set pq. d x \<le> f" "\<exists>x\<in>set pq. d x = f"
    using assms(1) by (simp_all add: search_inv_def)
  have "nearest k d (M + N) (mset pq)"
    by (rule nearest_add_far [OF inv(1)]) (use inv(2,3) assms(2) in \<open>auto intro: order_trans\<close>)
  then show ?thesis using inv(2-4) by (simp add: search_inv_def)
qed


text \<open>What the pruning of a search relies on: the distance of a pair bounds how far apart they are from the point.\<close>

definition triangle_at :: "(nat \<Rightarrow> 'd::linordered_ab_group_add) \<Rightarrow> (nat \<Rightarrow> nat \<Rightarrow> 'd) \<Rightarrow> bool" where
  "triangle_at pd dd \<longleftrightarrow> (\<forall>i j. pd j \<le> pd i + dd j i \<and> dd j i \<le> pd j + pd i)"

lemma internal_search_ok:
  fixes pd :: "nat \<Rightarrow> 'd::linordered_ab_group_add"
  assumes "min_pick (\<lambda>e. - pd e) pick" and "0 < k" and "triangle_at pd dd"
    and "vp_tree dd idx nd lo hi" and "idx = map fst ps" and "hi \<le> length ps" and "search_inv k pd M st"
  shows "search_inv k pd (M + mset (map ((!) idx) [lo..<hi])) (internal_search pick k pd ps nd st)"
  using assms(4,6,7)
proof (induction nd arbitrary: lo hi M st)
  case vp_null
  then show ?case by simp
next
  case (vpnode s e lf r a b)
  have at: "fst (ps ! i) = idx ! i" if "i < hi" for i using that vpnode.prems(2) assms(5) by simp
  show ?case
  proof (cases lf)
    case True
    then have se: "s = lo" "Suc e = hi" "lo < hi" using vpnode.prems(1) by simp_all
    have "fold (\<lambda>i st. vp_visit pick k pd (fst (ps ! i)) st) [lo..<hi] st = fold (vp_visit pick k pd) (map ((!) idx) [lo..<hi]) st"
      unfolding fold_map comp_def by (intro fold_cong) (auto simp: at)
    then show ?thesis using vp_visit_fold [OF assms(1,2) vpnode.prems(3), of "map ((!) idx) [lo..<hi]"] True se by simp
  next
    case False
    then obtain mid where s: "s = lo" "lo < hi" and mid: "lo < mid" "mid < hi"
        "\<forall>i. lo < i \<and> i < mid \<longrightarrow> dd (idx ! lo) (idx ! i) \<le> r" "\<forall>i. mid \<le> i \<and> i < hi \<longrightarrow> r \<le> dd (idx ! lo) (idx ! i)"
        "vp_tree dd idx a (Suc lo) mid" "vp_tree dd idx b mid hi" using vpnode.prems(1) by auto
    define d where "d = pd (idx ! lo)"
    let ?N = "\<lambda>u v. mset (map ((!) idx) [u..<v])"
    have "[lo..<hi] = lo # [Suc lo..<mid] @ [mid..<hi]"
      using mid(1,2) by (metis Suc_leI le_add_diff_inverse less_imp_le s(2) upt_add_eq_append upt_conv_Cons)
    then have N: "?N lo hi = add_mset (idx ! lo) (?N (Suc lo) mid + ?N mid hi)" by simp
    define st1 where "st1 = vp_visit pick k pd (idx ! lo) st"
    have i1: "search_inv k pd (add_mset (idx ! lo) M) st1"
      unfolding st1_def by (rule vp_visit_ok [OF assms(1,2) vpnode.prems(3)])
    define sin where "sin = (\<lambda>st. if may_inside d r (snd st) then internal_search pick k pd ps a st else st)"
    define sout where "sout = (\<lambda>st. if may_outside d r (snd st) then internal_search pick k pd ps b st else st)"
    have inside: "search_inv k pd (M' + ?N (Suc lo) mid) (sin st')" if "search_inv k pd M' st'" for M' st'
    proof (cases "may_inside d r (snd st')")
      case True
      then show ?thesis using vpnode.IH(1) [OF mid(5) _ that] mid(2) vpnode.prems(2) by (simp add: sin_def)
    next
      case no: False
      obtain pq f where st': "st' = (pq, Some f)" "\<not> d - f \<le> r" using no by (cases st') (auto simp: may_inside_def split: option.splits)
      have "f \<le> pd y" if "y \<in># ?N (Suc lo) mid" for y
      proof -
        have "dd (idx ! lo) y \<le> r" using that mid(3) by auto
        moreover have "d \<le> pd y + dd (idx ! lo) y" using assms(3) by (simp add: triangle_at_def d_def)
        ultimately have "d \<le> pd y + r" by (meson add_left_mono order_trans)
        moreover have "r + f < d" using st'(2) by (simp add: not_le less_diff_eq)
        ultimately have "r + f < r + pd y" by (metis add.commute order_less_le_trans)
        then show ?thesis by simp
      qed
      then show ?thesis using search_inv_skip [of k pd M' pq f "?N (Suc lo) mid"] that st' no by (simp add: sin_def)
    qed
    have outside: "search_inv k pd (M' + ?N mid hi) (sout st')" if "search_inv k pd M' st'" for M' st'
    proof (cases "may_outside d r (snd st')")
      case True
      then show ?thesis using vpnode.IH(2) [OF mid(6) _ that] vpnode.prems(2) by (simp add: sout_def)
    next
      case no: False
      obtain pq f where st': "st' = (pq, Some f)" "d + f < r" using no by (cases st') (auto simp: may_outside_def split: option.splits)
      have "f \<le> pd y" if "y \<in># ?N mid hi" for y
      proof -
        have "r \<le> dd (idx ! lo) y" using that mid(4) by auto
        moreover have "dd (idx ! lo) y \<le> d + pd y" using assms(3) by (simp add: triangle_at_def d_def)
        ultimately have "d + f < d + pd y" using st'(2) by (metis order_less_le_trans order_trans)
        then show ?thesis by simp
      qed
      then show ?thesis using search_inv_skip [of k pd M' pq f "?N mid hi"] that st' no by (simp add: sout_def)
    qed
    have eq: "internal_search pick k pd ps (vpnode s e lf r a b) st = (if d < r then sout (sin st1) else sin (sout st1))"
      using False at [OF s(2)] by (simp add: s(1) d_def st1_def sin_def sout_def Let_def)
    have "search_inv k pd (add_mset (idx ! lo) M + ?N (Suc lo) mid + ?N mid hi) (sout (sin st1))"
      by (rule outside [OF inside [OF i1]])
    moreover have "search_inv k pd (add_mset (idx ! lo) M + ?N mid hi + ?N (Suc lo) mid) (sin (sout st1))"
      by (rule inside [OF outside [OF i1]])
    ultimately show ?thesis unfolding eq N by (simp add: ac_simps)
  qed
qed


section \<open>The search of a tree\<close>

text \<open>
  A queue chooses by the distances of its entries: \<open>pick\<close> returns a place of a least element, and the
  queue is ordered by the negated distance.
\<close>

definition far_pick :: "('d::linordered_ab_group_add list \<Rightarrow> nat) \<Rightarrow> ('a \<Rightarrow> 'd) \<Rightarrow> 'a list \<Rightarrow> nat" where
  "far_pick pick d q = pick (map (\<lambda>e. - d e) q)"

lemma far_pick_ok:
  fixes d :: "'a \<Rightarrow> 'd::linordered_ab_group_add"
  assumes "min_pick (\<lambda>x. x) pick"
  shows "min_pick (\<lambda>e. - d e) (far_pick pick d)"
proof
  fix q :: "'a list" and e
  assume q: "q \<noteq> []"
  show "far_pick pick d q < length q"
    using min_pick.pick_in [OF assms, of "map (\<lambda>e. - d e) q"] q by (simp add: far_pick_def)
  assume "e \<in> set q"
  then have "map (\<lambda>e. - d e) q ! pick (map (\<lambda>e. - d e) q) \<le> - d e"
    using min_pick.pick_min [OF assms, of "map (\<lambda>e. - d e) q" "- d e"] q by auto
  then show "- d (q ! far_pick pick d q) \<le> - d e"
    using min_pick.pick_in [OF assms, of "map (\<lambda>e. - d e) q"] q by (simp add: far_pick_def)
qed

definition vp_search ::
    "('r \<Rightarrow> 'r \<Rightarrow> 'd::linordered_ab_group_add) \<Rightarrow> ('d list \<Rightarrow> nat) \<Rightarrow> ('r, 'd) VPTree \<Rightarrow> 'r \<Rightarrow> nat \<Rightarrow> nat list \<Rightarrow> nat list" where
  "vp_search cd pick t point k pq =
     fst (internal_search (far_pick pick (\<lambda>i. cd (rec (vp_data t ! i)) point)) k (\<lambda>i. cd point (rec (vp_data t ! i)))
       (vp_ptrs t) (vp_root t) (pq, None))"

context metric_distance
begin

lemma search_nearest:
  assumes "min_pick (\<lambda>x. x) pick" and "0 < k" and "vp_inv cd t"
  shows "nearest k (\<lambda>i. cd point (rec (vp_data t ! i))) (mset [0..<vp_reccnt t]) (mset (vp_search cd pick t point k []))"
proof -
  let ?pd = "\<lambda>i. cd point (rec (vp_data t ! i))"
  have flip: "(\<lambda>i. cd (rec (vp_data t ! i)) point) = ?pd" by (simp add: symmetric)
  have len: "length (vp_ptrs t) = vp_reccnt t"
    using assms(3) by (metis diff_zero length_map length_upt size_mset vp_inv_def)
  have "triangle_at ?pd (vp_dd cd (vp_data t))"
    using triangle [of point _ _] triangle_other symmetric by (auto simp: triangle_at_def vp_dd_def) (metis symmetric triangle)+
  from internal_search_ok [OF far_pick_ok [OF assms(1)] assms(2) this _ refl, where nd = "vp_root t" and lo = 0 and hi = "vp_reccnt t" and ps = "vp_ptrs t" and M = "{#}" and st = "([], None)"]
  have "search_inv k ?pd (mset (map ((!) (map fst (vp_ptrs t))) [0..<vp_reccnt t]))
      (internal_search (far_pick pick ?pd) k ?pd (vp_ptrs t) (vp_root t) ([], None))"
    using assms(2,3) len by (simp add: vp_inv_def search_inv_def nearest_empty)
  moreover have "map ((!) (map fst (vp_ptrs t))) [0..<vp_reccnt t] = map fst (vp_ptrs t)"
    using len by (metis length_map map_nth)
  moreover have "mset (map fst (vp_ptrs t)) = mset [0..<vp_reccnt t]" using assms(3) by (simp add: vp_inv_def)
  ultimately show ?thesis by (simp add: search_inv_def vp_search_def flip)
qed

end

end
