(* ===== verification/DE_Knn.thy ===== *)
theory DE_Knn
  imports DE_VPSearch DE_Query
begin

text \<open>
  Nearest-neighbour queries (\<^verbatim>\<open>include/query/knn.h\<close>) over a buffer and vantage-point trees. Every local
  result holds the nearest records of its part, farthest first; the combination chooses among them by
  the same bounded queue. Tombstones are not looked at.
\<close>

section \<open>The query type\<close>

record 'r knn_Parameters =
  knn_point :: 'r
  knn_k :: nat

record ('r, 'f) knn_LocalQueryBuffer =
  knn_buffer :: "('r, 'f) BufferView"
  knn_parms :: "'r knn_Parameters"

text \<open>Emptying a queue, farthest first.\<close>

function drain :: "('a list \<Rightarrow> nat) \<Rightarrow> 'a list \<Rightarrow> 'a list" where
  "drain pick pq = (if pq = [] then [] else pq_peek pick pq # drain pick (pq_pop pick pq))"
  by pat_completeness auto
termination
  by (relation "measure (\<lambda>(pick, pq). length pq)") (auto simp: length_greater_0_conv)

declare drain.simps [simp del]

definition knn_local_query ::
    "('r \<Rightarrow> 'r \<Rightarrow> 'd::linordered_ab_group_add) \<Rightarrow> ('d list \<Rightarrow> nat) \<Rightarrow> ('r, 'd) VPTree \<Rightarrow> 'r knn_Parameters \<Rightarrow> 'r Wrapped list" where
  "knn_local_query cd pick t q =
     map ((!) (vp_data t))
       (drain (far_pick pick (\<lambda>i. cd (rec (vp_data t ! i)) (knn_point q))) (vp_search cd pick t (knn_point q) (knn_k q) []))"

text \<open>One more record for a queue that holds at most \<open>k\<close>; with \<open>k = 0\<close> the empty queue is read.\<close>

definition knn_insert :: "('a list \<Rightarrow> nat) \<Rightarrow> ('a \<Rightarrow> 'd::linorder) \<Rightarrow> nat \<Rightarrow> 'a \<Rightarrow> 'a list \<Rightarrow> 'a list res" where
  "knn_insert pick d k x pq =
     (if length pq < k then Inr (pq_push x pq)
      else if pq = [] then Inl NullDeref
      else Inr (if d x < d (pq_peek pick pq) then pq_push x (pq_pop pick pq) else pq))"

fun knn_scan ::
    "(('r Wrapped) list \<Rightarrow> nat) \<Rightarrow> ('r Wrapped \<Rightarrow> 'd::linorder) \<Rightarrow> nat \<Rightarrow> ('r, 'f) BufferView \<Rightarrow> nat list \<Rightarrow> 'r Wrapped list \<Rightarrow> 'r Wrapped list res" where
  "knn_scan pick d k v [] pq = Inr pq"
| "knn_scan pick d k v (i # is) pq =
     bindE (view_get v i) (\<lambda>w.
     if is_deleted w then knn_scan pick d k v is pq
     else bindE (knn_insert pick d k w pq) (knn_scan pick d k v is))"

definition knn_local_query_buffer ::
    "('r \<Rightarrow> 'r \<Rightarrow> 'd::linordered_ab_group_add) \<Rightarrow> ('d list \<Rightarrow> nat) \<Rightarrow> ('r, 'f) knn_LocalQueryBuffer \<Rightarrow> 'r Wrapped list res" where
  "knn_local_query_buffer cd pick q =
     (let d = (\<lambda>w. cd (rec w) (knn_point (knn_parms q))) in
      bindE (knn_scan (far_pick pick d) d (knn_k (knn_parms q)) (knn_buffer q) [0..<view_record_count (knn_buffer q)] []) (\<lambda>pq.
      Inr (drain (far_pick pick d) pq)))"

fun knn_merge :: "('a list \<Rightarrow> nat) \<Rightarrow> ('a \<Rightarrow> 'd::linorder) \<Rightarrow> nat \<Rightarrow> 'a list \<Rightarrow> 'a list \<Rightarrow> 'a list res" where
  "knn_merge pick d k [] pq = Inr pq"
| "knn_merge pick d k (x # xs) pq = bindE (knn_insert pick d k x pq) (knn_merge pick d k xs)"

definition knn_combine ::
    "('r \<Rightarrow> 'r \<Rightarrow> 'd::linordered_ab_group_add) \<Rightarrow> ('d list \<Rightarrow> nat) \<Rightarrow> 'r Wrapped list list \<Rightarrow> 'r knn_Parameters \<Rightarrow> 'r list \<Rightarrow> 'r list res" where
  "knn_combine cd pick results parms output =
     (let d = (\<lambda>r. cd r (knn_point parms)) in
      bindE (knn_merge (far_pick pick d) d (knn_k parms) (map rec (concat results)) []) (\<lambda>pq.
      Inr (output @ drain (far_pick pick d) pq)))"

definition knn_Query ::
    "('r \<Rightarrow> 'r \<Rightarrow> 'd::linordered_ab_group_add) \<Rightarrow> ('d list \<Rightarrow> nat) \<Rightarrow>
     (('r, 'd) VPTree, 'r, 'f, 'r knn_Parameters, 'r knn_Parameters, ('r, 'f) knn_LocalQueryBuffer, 'r Wrapped, 'r) query_ops" where
  "knn_Query cd pick =
     \<lparr>q_early_abort = False, q_preproc = (\<lambda>s parms. Inr parms),
      q_preproc_buffer = (\<lambda>v parms. Inr \<lparr>knn_buffer = v, knn_parms = parms\<rparr>),
      q_distribute = (\<lambda>p lqs bq. Inr (p, lqs, bq)),
      q_local = (\<lambda>has_buffer s q p. Inr (knn_local_query cd pick s q, p)),
      q_local_buffer = (\<lambda>q p. bindE (knn_local_query_buffer cd pick q) (\<lambda>rs. Inr (rs, p))),
      q_combine = (\<lambda>results p output. knn_combine cd pick results p output),
      q_repeat = (\<lambda>p output lqs bq. Inr (False, p, lqs, bq))\<rparr>"

section \<open>The bounded queue\<close>

lemma mset_drain [simp]: "mset (drain pick pq) = mset pq"
proof (induction pick pq rule: drain.induct)
  case (1 pick pq)
  then show ?case by (cases "pq = []") (subst drain.simps, simp add: mset_pq_pop [of pq pick])+
qed

lemma drain_sorted:
  assumes "min_pick (\<lambda>e. - d e) pick"
  shows "sorted_wrt (\<lambda>x y. d y \<le> (d x :: 'd::linordered_ab_group_add)) (drain pick pq)"
  using assms
proof (induction pick pq rule: drain.induct)
  case (1 pick pq)
  show ?case
  proof (cases "pq = []")
    case False
    have "d y \<le> d (pq_peek pick pq)" if "y \<in> set (drain pick (pq_pop pick pq))" for y
    proof -
      have "y \<in># mset (pq_pop pick pq)" using that by (metis mset_drain set_mset_mset)
      then have "y \<in> set pq" using arg_cong [OF mset_pq_pop [OF False, of pick], of set_mset] by auto
      then show ?thesis using min_pick.peek_min [OF "1.prems", of y pq] by simp
    qed
    then show ?thesis using "1.IH" [OF False "1.prems"] False by (subst drain.simps) simp
  qed (subst drain.simps, simp)
qed

lemma knn_insert_ok:
  fixes d :: "'a \<Rightarrow> 'd::linordered_ab_group_add"
  assumes "min_pick (\<lambda>e. - d e) pick" and "0 < k" and "nearest k d M (mset pq)"
  shows "\<exists>pq'. knn_insert pick d k x pq = Inr pq' \<and> nearest k d (add_mset x M) (mset pq')"
proof (cases "length pq < k")
  case True
  then show ?thesis using nearest_add_new [OF assms(3)] by (simp add: knn_insert_def mset_pq_push)
next
  case False
  have sz: "length pq = k" using assms(3) False by (simp add: nearest_def min_def split: if_splits)
  then have ne: "pq \<noteq> []" using assms(2) by auto
  define m where "m = pq_peek pick pq"
  have pop: "mset pq = add_mset m (mset (pq_pop pick pq))" unfolding m_def by (rule mset_pq_pop [OF ne])
  have mx: "d y \<le> d m" if "y \<in> set pq" for y using min_pick.peek_min [OF assms(1) that] by (simp add: m_def)
  show ?thesis
  proof (cases "d x < d m")
    case True
    have "nearest k d (add_mset x M) (add_mset x (mset (pq_pop pick pq)))"
    proof (rule nearest_exchange)
      show "nearest k d M (add_mset m (mset (pq_pop pick pq)))" using assms(3) pop by simp
      show "\<forall>y\<in>#mset (pq_pop pick pq). d y \<le> d m" using mx arg_cong [OF pop, of set_mset] by auto
      show "size (add_mset m (mset (pq_pop pick pq))) = k" using sz pop by (metis size_mset)
    qed (use True in simp)
    then show ?thesis using False ne True by (simp add: knn_insert_def m_def mset_pq_push)
  next
    case far: False
    have "nearest k d (M + {#x#}) (mset pq)"
      by (rule nearest_add_far [OF assms(3)]) (use sz mx far in \<open>auto simp: not_less intro: order_trans\<close>)
    then show ?thesis using False ne far by (simp add: knn_insert_def m_def)
  qed
qed

lemma knn_merge_ok:
  fixes d :: "'a \<Rightarrow> 'd::linordered_ab_group_add"
  assumes "min_pick (\<lambda>e. - d e) pick" and "0 < k" and "nearest k d M (mset pq)"
  shows "\<exists>pq'. knn_merge pick d k xs pq = Inr pq' \<and> nearest k d (M + mset xs) (mset pq')"
  using assms(3)
proof (induction xs arbitrary: M pq)
  case (Cons x xs)
  obtain pq1 where 1: "knn_insert pick d k x pq = Inr pq1" "nearest k d (add_mset x M) (mset pq1)"
    using knn_insert_ok [OF assms(1,2) Cons.prems] by blast
  then show ?case using Cons.IH [OF 1(2)] by auto
qed auto

lemma knn_scan_merge:
  assumes "\<forall>i\<in>set is. view_get v i = Inr (ws ! i)"
  shows "knn_scan pick d k v is pq = knn_merge pick d k (filter (\<lambda>w. \<not> is_deleted w) (map ((!) ws) is)) pq"
  using assms
proof (induction "is" arbitrary: pq)
  case (Cons i "is")
  then show ?case by (simp add: bindE_def split: sum.split)
qed simp

section \<open>The query\<close>

definition live_entries :: "'r Wrapped list \<Rightarrow> 'r Wrapped list" where
  "live_entries = filter (\<lambda>w. \<not> is_deleted w)"

context metric_distance
begin

lemma knn_buffer_ok:
  assumes "min_pick (\<lambda>x. x) pick" and "0 < knn_k p" and "view_wf v"
  shows "\<exists>ws. knn_local_query_buffer cd pick \<lparr>knn_buffer = v, knn_parms = p\<rparr> = Inr ws \<and>
    nearest (knn_k p) (cd (knn_point p)) (mset (map rec (live_entries (view_list v)))) (mset (map rec ws))"
proof -
  define d where "d = (\<lambda>w :: 'r Wrapped. cd (rec w) (knn_point p))"
  note pick = far_pick_ok [OF assms(1), of d]
  have "\<forall>i\<in>set [0..<view_record_count v]. view_get v i = Inr (view_list v ! i)" using view_get_wf [OF assms(3)] by simp
  from knn_scan_merge [OF this, of "far_pick pick d" d "knn_k p" "[]"]
  have s: "knn_scan (far_pick pick d) d (knn_k p) v [0..<view_record_count v] [] = knn_merge (far_pick pick d) d (knn_k p) (live_entries (view_list v)) []"
    unfolding length_view_list [OF assms(3), symmetric] map_nth live_entries_def .
  obtain pq where pq: "knn_merge (far_pick pick d) d (knn_k p) (live_entries (view_list v)) [] = Inr pq"
      "nearest (knn_k p) d (mset (live_entries (view_list v))) (mset pq)"
    using knn_merge_ok [OF pick assms(2), of "{#}" "[]"] by (auto simp: nearest_empty)
  have "knn_local_query_buffer cd pick \<lparr>knn_buffer = v, knn_parms = p\<rparr> = Inr (drain (far_pick pick d) pq)"
    using s pq(1) by (simp add: knn_local_query_buffer_def Let_def flip: d_def)
  moreover have "d = (\<lambda>w. cd (knn_point p) (rec w))" by (simp add: d_def symmetric)
  then have "nearest (knn_k p) (cd (knn_point p)) (image_mset rec (mset (live_entries (view_list v)))) (image_mset rec (mset pq))"
    using pq(2) by (intro nearest_image) simp
  ultimately show ?thesis by (auto simp flip: mset_map) (metis mset_drain mset_map)
qed

lemma knn_local_ok:
  assumes "min_pick (\<lambda>x. x) pick" and "0 < knn_k p" and "vp_inv cd t"
  shows "nearest (knn_k p) (cd (knn_point p)) (mset (map rec (vp_data t))) (mset (map rec (knn_local_query cd pick t p)))"
proof -
  let ?q = "mset (vp_search cd pick t (knn_point p) (knn_k p) [])"
  have "nearest (knn_k p) (cd (knn_point p)) (image_mset (\<lambda>i. rec (vp_data t ! i)) (mset [0..<vp_reccnt t])) (image_mset (\<lambda>i. rec (vp_data t ! i)) ?q)"
    by (rule nearest_image [where f = "\<lambda>i. rec (vp_data t ! i)" and d = "cd (knn_point p)"], rule search_nearest [OF assms])
  moreover have "image_mset (\<lambda>i. rec (vp_data t ! i)) (mset [0..<vp_reccnt t]) = mset (map rec (vp_data t))"
  proof -
    have "map (\<lambda>i. rec (vp_data t ! i)) [0..<vp_reccnt t] = map rec (vp_data t)"
      by (intro nth_equalityI) (simp_all add: vp_reccnt_def)
    then show ?thesis by (metis mset_map)
  qed
  moreover have "mset (map rec (knn_local_query cd pick t p)) = image_mset (\<lambda>i. rec (vp_data t ! i)) ?q"
    by (simp add: knn_local_query_def image_mset.compositionality comp_def)
  ultimately show ?thesis by simp
qed

lemma knn_round:
  fixes v :: "('r, 'f) BufferView"
  assumes "min_pick (\<lambda>x. x) pick" and "0 < knn_k p" and "\<forall>t\<in>set ts. vp_inv cd t" and "view_wf v"
  shows "\<exists>res. query_round (knn_Query cd pick) has_buffer ts p (map (\<lambda>_. p) ts) \<lparr>knn_buffer = v, knn_parms = p\<rparr> [] =
      Inr (res, False, p, map (\<lambda>_. p) ts, \<lparr>knn_buffer = v, knn_parms = p\<rparr>) \<and>
    nearest (knn_k p) (cd (knn_point p)) (mset (map rec (live_entries (view_list v) @ concat (map vp_data ts)))) (mset res) \<and>
    sorted_wrt (\<lambda>x y. cd (knn_point p) y \<le> cd (knn_point p) x) res"
proof -
  define Q :: "(('r, 'd) VPTree, 'r, 'f, 'r knn_Parameters, 'r knn_Parameters, ('r, 'f) knn_LocalQueryBuffer, 'r Wrapped, 'r) query_ops"
    where "Q = knn_Query cd pick"
  let ?k = "knn_k p" and ?pt = "knn_point p" and ?bq = "\<lparr>knn_buffer = v, knn_parms = p\<rparr>"
  let ?loc = "\<lambda>t. knn_local_query cd pick t p"
  obtain ws where ws: "knn_local_query_buffer cd pick ?bq = Inr ws" "nearest ?k (cd ?pt) (mset (map rec (live_entries (view_list v)))) (mset (map rec ws))"
    using knn_buffer_ok [OF assms(1,2,4)] by blast
  have sh: "query_shards Q has_buffer (zip us (map (\<lambda>_. p) us)) p = Inr (map ?loc us, p)" for us
    by (induction us) (simp_all add: Q_def knn_Query_def)
  have "query_results Q has_buffer ts (map (\<lambda>_. p) ts) ?bq p = Inr (ws # map ?loc ts, p)"
  proof -
    have "q_local_buffer Q ?bq p = Inr (ws, p)" "\<not> q_early_abort Q" using ws(1) by (simp_all add: Q_def knn_Query_def)
    then show ?thesis by (simp add: query_results_def sh)
  qed
  then have round: "query_round Q has_buffer ts p (map (\<lambda>_. p) ts) ?bq [] =
      bindE (knn_combine cd pick (ws # map ?loc ts) p []) (\<lambda>out. Inr (out, False, p, map (\<lambda>_. p) ts, ?bq))"
    by (simp add: query_round_def) (simp add: Q_def knn_Query_def)
  define d where "d = (\<lambda>r. cd r ?pt)"
  have d: "d = cd ?pt" by (simp add: d_def symmetric [of _ ?pt])
  note pick = far_pick_ok [OF assms(1), of d]
  obtain pq where pq: "knn_merge (far_pick pick d) d ?k (map rec (concat (ws # map ?loc ts))) [] = Inr pq"
      "nearest ?k d (mset (map rec (concat (ws # map ?loc ts)))) (mset pq)"
    using knn_merge_ok [OF pick assms(2), of "{#}" "[]" "map rec (concat (ws # map ?loc ts))"] by (auto simp: nearest_empty)
  let ?res = "drain (far_pick pick d) pq"
  have "knn_combine cd pick (ws # map ?loc ts) p [] = Inr ?res"
    using pq(1) by (simp add: knn_combine_def Let_def flip: d_def)
  moreover have "nearest ?k d (mset (map rec (live_entries (view_list v) @ concat (map vp_data ts)))) (mset ?res)"
  proof -
    have "nearest ?k d (mset (map rec ws) + mset (concat (map (\<lambda>t. map rec (?loc t)) ts))) (mset ?res)"
      using pq(2) by (simp add: map_concat comp_def)
    then have "nearest ?k d (mset (map rec ws) + mset (concat (map (\<lambda>t. map rec (vp_data t)) ts))) (mset ?res)"
      by (rule nearest_concat [rotated]) (use assms(3) knn_local_ok [OF assms(1,2)] in \<open>simp add: d\<close>)
    from nearest_replace [OF ws(2) [folded d] this] show ?thesis by (simp add: map_concat comp_def)
  qed
  moreover have "sorted_wrt (\<lambda>x y. d y \<le> d x) ?res" by (rule drain_sorted [OF pick])
  ultimately show ?thesis using round unfolding Q_def d by auto
qed

end

section \<open>Property\<close>

text \<open>
  C10. A nearest-neighbour query with \<open>k > 0\<close> over a buffer and vantage-point trees answers with the \<open>k\<close> nearest
  entries (all of them when there are fewer), farthest first, among the entries of the buffer that are not tagged
  and all entries of the trees, for every distance that is symmetric and obeys the triangle inequality. Entries
  of the trees count even when they have been tagged since, and tombstones count as records.
\<close>

theorem knn_query_correct:
  fixes v :: "('r, 'f) BufferView" and cd :: "'r \<Rightarrow> 'r \<Rightarrow> 'd::linordered_ab_group_add"
  assumes "metric_distance cd" and "min_pick (\<lambda>x. x) pick" and "0 < knn_k p" and "\<forall>t\<in>set ts. vp_inv cd t" and "view_wf v"
  shows "\<exists>res. query_round (knn_Query cd pick) has_buffer ts p (map (\<lambda>_. p) ts) \<lparr>knn_buffer = v, knn_parms = p\<rparr> [] =
      Inr (res, False, p, map (\<lambda>_. p) ts, \<lparr>knn_buffer = v, knn_parms = p\<rparr>) \<and>
    nearest (knn_k p) (cd (knn_point p)) (mset (map rec (live_entries (view_list v) @ concat (map vp_data ts)))) (mset res) \<and>
    sorted_wrt (\<lambda>x y. cd (knn_point p) y \<le> cd (knn_point p) x) res"
  by (rule metric_distance.knn_round [OF assms])

lemma abs_dist_metric: "metric_distance abs_dist"
  by standard (auto simp: abs_dist_def)

theorem knn_query_correct_witness:
  "\<exists>res. query_round (knn_Query abs_dist (first_min (\<lambda>x. x))) False [demo_vp] \<lparr>knn_point = 2, knn_k = 3\<rparr> [\<lparr>knn_point = 2, knn_k = 3\<rparr>]
      \<lparr>knn_buffer = BufferView_new [\<lparr>header = 4, rec = 9\<rparr>, \<lparr>header = 4, rec = 2\<rparr>] 2 0 1 0 (None :: unit option), knn_parms = \<lparr>knn_point = 2, knn_k = 3\<rparr>\<rparr> [] =
      Inr (res, False, \<lparr>knn_point = 2, knn_k = 3\<rparr>, [\<lparr>knn_point = 2, knn_k = 3\<rparr>],
        \<lparr>knn_buffer = BufferView_new [\<lparr>header = 4, rec = 9\<rparr>, \<lparr>header = 4, rec = 2\<rparr>] 2 0 1 0 None, knn_parms = \<lparr>knn_point = 2, knn_k = 3\<rparr>\<rparr>) \<and>
    nearest 3 (abs_dist 2) {#9, 0, 1, 2, 3, 4, 5#} (mset res)"
proof -
  let ?v = "BufferView_new [\<lparr>header = 4, rec = 9 :: int\<rparr>, \<lparr>header = 4, rec = 2\<rparr>] 2 0 1 0 (None :: unit option)"
  let ?p = "\<lparr>knn_point = 2 :: int, knn_k = 3\<rparr>"
  have l: "view_list ?v = [\<lparr>header = 4, rec = 9\<rparr>]" by (simp add: view_list_def ring_list_def BufferView_new_def upt_rec)
  have wf: "view_wf ?v" by (simp add: view_wf_def BufferView_new_def)
  have trees: "\<forall>t\<in>set [demo_vp]. vp_inv abs_dist t" by (simp add: demo_vp_inv)
  have m: "mset (map rec (live_entries (view_list ?v) @ concat (map vp_data [demo_vp]))) = {#9, 0, 1, 2, 3, 4, 5#}"
    unfolding l by (simp add: live_entries_def is_deleted_def demo_vp_def)
  have k: "0 < knn_k ?p" by simp
  from knn_query_correct [OF abs_dist_metric first_min.min_pick_axioms k trees wf, of False] show ?thesis unfolding m by auto
qed

end
