(* ===== verification/DE_Doubles.thy ===== *)
theory DE_Doubles
  imports DE_Prelude Complex_Main
begin

text \<open>
  Weights as doubles, and the alias structure over them. The sampling code converts integer weights to
  \<^verbatim>\<open>double\<close>, divides them by their total and hands the quotients to Walker's alias structure, which is
  third-party. The machine's rounding is a parameter: a conversion and a division each round their exact
  result once.
\<close>

section \<open>The alias structure\<close>

text \<open>\<open>al_round\<close> is the rounding of a number to a double; building the structure, and a draw.\<close>

record ('d, 'al, 'g) alias_ops =
  al_round :: "rat \<Rightarrow> rat"
  al_new :: "'d list \<Rightarrow> 'al"
  al_get :: "'al \<Rightarrow> 'g \<Rightarrow> nat \<times> 'g"

section \<open>Rounded quotients\<close>

text \<open>\<^verbatim>\<open>(double) a / (double) b\<close> for unsigned integers.\<close>

definition dbl_quot :: "(rat \<Rightarrow> rat) \<Rightarrow> nat \<Rightarrow> nat \<Rightarrow> rat" where
  "dbl_quot rnd a b = rnd (rnd (of_nat a) / rnd (of_nat b))"

text \<open>
  The standard model of floating-point arithmetic: rounding has a relative error of at most \<open>u\<close>, that
  is \<open>2\<^bsup>-53\<^esup>\<close> for doubles. (Weights of at most 64 bits and their quotients neither overflow nor underflow.)
\<close>

definition rounding_ok :: "(rat \<Rightarrow> rat) \<Rightarrow> rat \<Rightarrow> bool" where
  "rounding_ok rnd u \<longleftrightarrow> 0 \<le> u \<and> u \<le> 1 / 5 \<and> (\<forall>x\<ge>0. \<bar>rnd x - x\<bar> \<le> u * x)"

lemma rounding_okD:
  assumes "rounding_ok rnd u" and "0 \<le> x"
  shows "(1 - u) * x \<le> rnd x" and "rnd x \<le> (1 + u) * x"
proof -
  have "\<bar>rnd x - x\<bar> \<le> u * x" using assms by (simp add: rounding_ok_def)
  then show "(1 - u) * x \<le> rnd x" "rnd x \<le> (1 + u) * x" by (simp_all add: abs_le_iff algebra_simps)
qed

lemma rounding_exact: "rounding_ok (\<lambda>x. x) 0"
  by (simp add: rounding_ok_def)

lemma dbl_quot_bounds:
  assumes r: "rounding_ok rnd u" and b: "0 < b"
  shows "\<bar>dbl_quot rnd a b - of_nat a / of_nat b\<bar> \<le> 4 * u * (of_nat a / of_nat b)"
proof -
  define x y q where "x = rnd (of_nat a)" and "y = rnd (of_nat b)" and "q = of_nat a / (of_nat b :: rat)"
  have u: "0 \<le> u" "u \<le> 1 / 5" using r by (simp_all add: rounding_ok_def)
  have b0: "(0::rat) < of_nat b" using b by simp
  have q: "0 \<le> q" by (simp add: q_def)
  have x: "(1 - u) * of_nat a \<le> x" "x \<le> (1 + u) * of_nat a" unfolding x_def using rounding_okD [OF r, of "of_nat a"] by simp_all
  have y: "(1 - u) * of_nat b \<le> y" "y \<le> (1 + u) * of_nat b" unfolding y_def using rounding_okD [OF r, of "of_nat b"] by simp_all
  have lowb: "0 < (1 - u) * of_nat b" using u b0 by simp
  then have y0: "0 < y" using y(1) by linarith
  have u1: "0 \<le> 1 - u" using u by linarith
  have "0 \<le> (1 - u) * of_nat a" by (rule mult_nonneg_nonneg [OF u1]) simp
  then have x0: "0 \<le> x" using x(1) by linarith
  have lo: "(1 - u) * q \<le> (1 + u) * (x / y)"
  proof -
    have "(1 - u) * of_nat a * y \<le> x * ((1 + u) * of_nat b)" using x(1) y(2) x0 y0 by (intro mult_mono) simp_all
    then show ?thesis using b0 y0 by (simp add: q_def field_simps)
  qed
  have hi: "(1 - u) * (x / y) \<le> (1 + u) * q"
  proof -
    have "x * ((1 - u) * of_nat b) \<le> (1 + u) * of_nat a * y" using x(2) y(1) x0 u lowb by (intro mult_mono) simp_all
    then show ?thesis using b0 y0 by (simp add: q_def field_simps)
  qed
  have z0: "0 \<le> x / y" using x0 y0 by simp
  have r1: "(1 - u) * (x / y) \<le> rnd (x / y)" and r2: "rnd (x / y) \<le> (1 + u) * (x / y)" using rounding_okD [OF r z0] by simp_all
  have up: "rnd (x / y) \<le> (1 + 4 * u) * q"
  proof -
    have "(1 - u) * rnd (x / y) \<le> (1 - u) * ((1 + u) * (x / y))" using r2 u by (intro mult_left_mono) simp_all
    also have "\<dots> = (1 + u) * ((1 - u) * (x / y))" by (simp add: algebra_simps)
    also have "\<dots> \<le> (1 + u) * ((1 + u) * q)" using hi u by (intro mult_left_mono) simp_all
    also have "\<dots> \<le> (1 - u) * ((1 + 4 * u) * q)"
    proof -
      have "u * u \<le> u * (1 / 5)" using u by (intro mult_left_mono) simp_all
      then have "(1 + u) * (1 + u) \<le> (1 - u) * (1 + 4 * u)" by (simp add: algebra_simps)
      then show ?thesis using q by (metis mult.assoc mult_right_mono)
    qed
    finally show ?thesis using u by (simp add: mult_le_cancel_left)
  qed
  have down: "(1 - 4 * u) * q \<le> rnd (x / y)"
  proof -
    have "(1 + u) * ((1 - 4 * u) * q) \<le> (1 - u) * ((1 - u) * q)"
    proof -
      have "(1 + u) * (1 - 4 * u) \<le> (1 - u) * (1 - u)" using u by (simp add: algebra_simps)
      then show ?thesis using q by (metis mult.assoc mult_right_mono)
    qed
    also have "\<dots> \<le> (1 - u) * ((1 + u) * (x / y))" using lo u by (intro mult_left_mono) simp_all
    also have "\<dots> = (1 + u) * ((1 - u) * (x / y))" by (simp add: algebra_simps)
    also have "\<dots> \<le> (1 + u) * rnd (x / y)" using r1 u by (intro mult_left_mono) simp_all
    finally show ?thesis using u by (simp add: mult_le_cancel_left)
  qed
  show ?thesis using up down unfolding dbl_quot_def x_def [symmetric] y_def [symmetric] q_def [symmetric]
    by (simp add: abs_le_iff algebra_simps)
qed

lemma dbl_quot_nonneg:
  assumes "rounding_ok rnd u" and "0 < b"
  shows "0 \<le> dbl_quot rnd a b" and "0 < dbl_quot rnd a b \<longleftrightarrow> 0 < a"
proof -
  let ?q = "of_nat a / of_nat b :: rat"
  have d: "\<bar>dbl_quot rnd a b - ?q\<bar> \<le> 4 * u * ?q" by (rule dbl_quot_bounds [OF assms])
  have u: "u \<le> 1 / 5" using assms(1) by (simp add: rounding_ok_def)
  have q: "0 \<le> ?q" by simp
  have "4 * u * ?q \<le> 4 * (1 / 5) * ?q" using u q by (intro mult_right_mono) simp_all
  then have low: "1 / 5 * ?q \<le> dbl_quot rnd a b" using d by (simp add: abs_le_iff)
  then show "0 \<le> dbl_quot rnd a b" using q by linarith
  show "0 < dbl_quot rnd a b \<longleftrightarrow> 0 < a"
  proof (cases "a = 0")
    case False
    then have "0 < ?q" using assms(2) by simp
    then show ?thesis using low False by linarith
  qed (use d in simp)
qed

text \<open>The rounded quotients of some weights by their total add up to 1, to within four times the error.\<close>

lemma dbl_quot_sum:
  assumes "rounding_ok rnd u" and "0 < sum_list ns"
  shows "\<bar>(\<Sum>n\<leftarrow>ns. dbl_quot rnd n (sum_list ns)) - 1\<bar> \<le> 4 * u"
proof -
  have "\<bar>(\<Sum>n\<leftarrow>ms. dbl_quot rnd n t) - of_nat (sum_list ms) / of_nat t\<bar> \<le> 4 * u * (of_nat (sum_list ms) / of_nat t)"
    if "0 < t" for ms t
  proof (induction ms)
    case (Cons m ms)
    then show ?case using dbl_quot_bounds [OF assms(1) that, of m] by (simp add: add_divide_distrib algebra_simps)
  qed simp
  moreover have "of_nat (sum_list ns) / of_nat (sum_list ns) = (1 :: rat)" using assms(2) by (intro divide_self) (metis less_irrefl of_nat_eq_0_iff)
  ultimately show ?thesis using assms(2) by (metis mult.right_neutral)
qed

end
