(* ===== verification/DE_Irs.thy ===== *)
theory DE_Irs
  imports DE_MemIsam DE_Query DE_Doubles
begin

text \<open>
  Independent range sampling (\<^verbatim>\<open>include/query/irs.h\<close>): every shard and the buffer get a share of the
  sample, drawn by an alias table over the numbers of records in range, and draw from their part of
  the range. The alias table and the random number generator are third-party and parameters of the
  model; the generator is shared by pointer, so its state is threaded through the parameters.
\<close>

section \<open>The query type\<close>

record ('k, 'g) irs_Parameters =
  irs_lower :: 'k
  irs_upper :: 'k
  irs_sample_size :: nat
  irs_rng :: 'g

record irs_LocalQuery =
  irs_lower_idx :: nat
  irs_upper_idx :: nat
  irs_weight :: nat
  irs_samples :: nat
  irs_global_samples :: nat

record ('k, 'v, 'f, 'g, 'al) irs_LocalQueryBuffer =
  irs_buffer :: "(('k, 'v) Record, 'f) BufferView"
  irs_cutoff :: nat
  irs_records :: "('k, 'v) Record Wrapped list"
  irs_alias :: "'al option"
  irs_buffer_samples :: nat
  irs_buffer_parms :: "('k, 'g) irs_Parameters"

definition irs_in_range :: "('k::linorder, 'g) irs_Parameters \<Rightarrow> ('k, 'v) Record Wrapped \<Rightarrow> bool" where
  "irs_in_range p w \<longleftrightarrow> key (rec w) \<ge> irs_lower p \<and> key (rec w) \<le> irs_upper p"

definition irs_local_preproc ::
    "('s \<Rightarrow> ('k, 'v) Record Wrapped list) \<Rightarrow> ('s \<Rightarrow> 'k \<Rightarrow> nat res) \<Rightarrow> ('s \<Rightarrow> 'k \<Rightarrow> nat res) \<Rightarrow> 's \<Rightarrow>
     ('k, 'g) irs_Parameters \<Rightarrow> irs_LocalQuery res" where
  "irs_local_preproc get_data lower_bound upper_bound s parms =
     bindE (lower_bound s (irs_lower parms)) (\<lambda>l.
     bindE (upper_bound s (irs_upper parms)) (\<lambda>u.
     Inr \<lparr>irs_lower_idx = l, irs_upper_idx = u,
          irs_weight = (if l = length (get_data s) then 0 else sz_sub u l), irs_samples = 0,
          irs_global_samples = irs_sample_size parms\<rparr>))"

definition irs_local_preproc_buffer ::
    "bool \<Rightarrow> (('k::linorder, 'v) Record, 'f) BufferView \<Rightarrow> ('k, 'g) irs_Parameters \<Rightarrow>
     ('k, 'v, 'f, 'g, 'al) irs_LocalQueryBuffer res" where
  "irs_local_preproc_buffer REJECTION v parms =
     (let q = \<lparr>irs_buffer = v, irs_cutoff = view_record_count v, irs_records = [], irs_alias = None,
               irs_buffer_samples = 0, irs_buffer_parms = parms\<rparr> in
      if REJECTION then Inr q
      else bindE (mapE (view_get v) [0..<irs_cutoff q]) (\<lambda>ws.
           Inr (q\<lparr>irs_records := filter (irs_in_range parms) ws\<rparr>)))"

section \<open>Distributing the sample\<close>

text \<open>The draws: how often the buffer (index 0) and each shard is drawn.\<close>

fun irs_draw ::
    "(rat, 'al, 'g) alias_ops \<Rightarrow> 'al \<Rightarrow> nat \<Rightarrow> nat \<Rightarrow> nat list \<Rightarrow> 'g \<Rightarrow> (nat \<times> nat list \<times> 'g) res" where
  "irs_draw A al 0 buffer_sz sizes g = Inr (buffer_sz, sizes, g)"
| "irs_draw A al (Suc n) buffer_sz sizes g =
     (let (idx, g1) = al_get A al g in
      if idx = 0 then irs_draw A al n (sz_add buffer_sz 1) sizes g1
      else if idx - 1 < length sizes then irs_draw A al n buffer_sz (sizes[idx - 1 := sz_add (sizes ! (idx - 1)) 1]) g1
      else Inl OutOfBounds)"

text \<open>
  The weights are divided by their total, as doubles; a total of zero ends the function before the alias table
  exists. Without a buffer query (static structures) the only shard gets the
  whole sample of the parameters it was prepared with.
\<close>

definition irs_distribute_query ::
    "bool \<Rightarrow> (rat, 'al, 'g) alias_ops \<Rightarrow> ('k, 'g) irs_Parameters \<Rightarrow> irs_LocalQuery list \<Rightarrow>
     ('k, 'v, 'f, 'g, 'al) irs_LocalQueryBuffer option \<Rightarrow>
     (('k, 'g) irs_Parameters \<times> irs_LocalQuery list \<times> ('k, 'v, 'f, 'g, 'al) irs_LocalQueryBuffer option) res" where
  "irs_distribute_query REJECTION A parms lqs buffer_query =
     (case buffer_query of
        None \<Rightarrow> assertE (length lqs = 1) (Inr (parms, map (\<lambda>q. q\<lparr>irs_samples := irs_global_samples q\<rparr>) lqs, None))
      | Some bq \<Rightarrow>
          let weights = (if REJECTION then irs_cutoff bq else length (irs_records bq)) # map irs_weight lqs;
              total_weight = fold (\<lambda>w t. sz_add t w) (tl weights) (hd weights);
              draw = (\<lambda>al. bindE (irs_draw A al (irs_sample_size parms) 0 (replicate (length lqs + 1) 0) (irs_rng parms))
                (\<lambda>(buffer_sz, sizes, g).
                 Inr (parms\<lparr>irs_rng := g\<rparr>, map (\<lambda>(q, n). q\<lparr>irs_samples := n\<rparr>) (zip lqs sizes),
                      Some (bq\<lparr>irs_alias := Some al, irs_buffer_samples := buffer_sz\<rparr>))))
          in case irs_alias bq of
               Some al \<Rightarrow> draw al
             | None \<Rightarrow>
                 if total_weight = 0 then Inr (parms, map (\<lambda>q. q\<lparr>irs_samples := 0\<rparr>) lqs, Some bq)
                 else draw (al_new A (map (\<lambda>w. dbl_quot (al_round A) w total_weight) weights)))"

section \<open>Drawing\<close>

fun irs_sample_shard :: "'g rng_ops \<Rightarrow> 'r Wrapped list \<Rightarrow> nat \<Rightarrow> nat \<Rightarrow> nat \<Rightarrow> 'g \<Rightarrow> ('r Wrapped list \<times> 'g) res" where
  "irs_sample_shard U ws lower range_length 0 g = Inr ([], g)"
| "irs_sample_shard U ws lower range_length (Suc n) g =
     (let (idx, g1) = (if range_length > 0 then U g range_length else (0, g)) in
      bindE (if lower + idx < length ws then Inr (ws ! (lower + idx)) else Inl NullDeref) (\<lambda>w.
      bindE (irs_sample_shard U ws lower range_length n g1) (\<lambda>(rs, g2). Inr (w # rs, g2))))"

definition irs_local_query ::
    "'g rng_ops \<Rightarrow> ('s \<Rightarrow> ('k, 'v) Record Wrapped list) \<Rightarrow> 's \<Rightarrow> irs_LocalQuery \<Rightarrow> ('k, 'g) irs_Parameters \<Rightarrow>
     (('k, 'v) Record Wrapped list \<times> ('k, 'g) irs_Parameters) res" where
  "irs_local_query U get_data s q p =
     (if irs_samples q = 0 \<or> irs_lower_idx q = length (get_data s) then Inr ([], p)
      else bindE (irs_sample_shard U (get_data s) (irs_lower_idx q) (sz_sub (irs_upper_idx q) (irs_lower_idx q)) (irs_samples q) (irs_rng p))
        (\<lambda>(rs, g). Inr (rs, p\<lparr>irs_rng := g\<rparr>)))"

fun irs_reject ::
    "'g rng_ops \<Rightarrow> ('k::linorder, 'v, 'f, 'g, 'al) irs_LocalQueryBuffer \<Rightarrow> nat \<Rightarrow> 'g \<Rightarrow> (('k, 'v) Record Wrapped list \<times> 'g) res" where
  "irs_reject U q 0 g = Inr ([], g)"
| "irs_reject U q (Suc n) g =
     (let (idx, g1) = U g (irs_cutoff q) in
      bindE (view_get (irs_buffer q) idx) (\<lambda>w.
      bindE (irs_reject U q n g1) (\<lambda>(rs, g2).
      Inr (if irs_in_range (irs_buffer_parms q) w then w # rs else rs, g2))))"

fun irs_pick_records ::
    "'g rng_ops \<Rightarrow> ('k, 'v) Record Wrapped list \<Rightarrow> nat \<Rightarrow> 'g \<Rightarrow> (('k, 'v) Record Wrapped list \<times> 'g) res" where
  "irs_pick_records U ws 0 g = Inr ([], g)"
| "irs_pick_records U ws (Suc n) g =
     (let (idx, g1) = U g (length ws) in
      bindE (vec_get ws idx) (\<lambda>w.
      bindE (irs_pick_records U ws n g1) (\<lambda>(rs, g2). Inr (w # rs, g2))))"

definition irs_local_query_buffer ::
    "bool \<Rightarrow> 'g rng_ops \<Rightarrow> ('k::linorder, 'v, 'f, 'g, 'al) irs_LocalQueryBuffer \<Rightarrow> ('k, 'g) irs_Parameters \<Rightarrow>
     (('k, 'v) Record Wrapped list \<times> ('k, 'g) irs_Parameters) res" where
  "irs_local_query_buffer REJECTION U q p =
     bindE (if REJECTION then irs_reject U q (irs_buffer_samples q) (irs_rng p)
            else irs_pick_records U (irs_records q) (irs_buffer_samples q) (irs_rng p))
       (\<lambda>(rs, g). Inr (rs, p\<lparr>irs_rng := g\<rparr>))"

definition irs_combine :: "'r Wrapped list list \<Rightarrow> 'r list \<Rightarrow> 'r list" where
  "irs_combine results output = output @ map rec (concat results)"

definition irs_repeat ::
    "bool \<Rightarrow> (rat, 'al, 'g) alias_ops \<Rightarrow> ('k, 'g) irs_Parameters \<Rightarrow> 'r list \<Rightarrow> irs_LocalQuery list \<Rightarrow>
     ('k, 'v, 'f, 'g, 'al) irs_LocalQueryBuffer option \<Rightarrow>
     (bool \<times> ('k, 'g) irs_Parameters \<times> irs_LocalQuery list \<times> ('k, 'v, 'f, 'g, 'al) irs_LocalQueryBuffer option) res" where
  "irs_repeat REJECTION A parms output lqs bq =
     (if length output < irs_sample_size parms then
        let parms' = parms\<lparr>irs_sample_size := irs_sample_size parms - length output\<rparr> in
        bindE (irs_distribute_query REJECTION A parms' lqs bq) (\<lambda>(p, lqs', bq'). Inr (True, p, lqs', bq'))
      else Inr (False, parms, lqs, bq))"

definition irs_Query ::
    "bool \<Rightarrow> (rat, 'al, 'g) alias_ops \<Rightarrow> 'g rng_ops \<Rightarrow> ('s \<Rightarrow> ('k::linorder, 'v) Record Wrapped list) \<Rightarrow> ('s \<Rightarrow> 'k \<Rightarrow> nat res) \<Rightarrow>
     ('s \<Rightarrow> 'k \<Rightarrow> nat res) \<Rightarrow>
     ('s, ('k, 'v) Record, 'f, ('k, 'g) irs_Parameters, irs_LocalQuery, ('k, 'v, 'f, 'g, 'al) irs_LocalQueryBuffer option,
      ('k, 'v) Record Wrapped, ('k, 'v) Record) query_ops" where
  "irs_Query REJECTION A U get_data lower_bound upper_bound =
     \<lparr>q_early_abort = False, q_preproc = irs_local_preproc get_data lower_bound upper_bound,
      q_preproc_buffer = (\<lambda>v parms. bindE (irs_local_preproc_buffer REJECTION v parms) (\<lambda>q. Inr (Some q))),
      q_distribute = irs_distribute_query REJECTION A,
      q_local = (\<lambda>has_buffer s q p. irs_local_query U get_data s q p),
      q_local_buffer = (\<lambda>bq p. bindE (deref bq) (\<lambda>q. irs_local_query_buffer REJECTION U q p)),
      q_combine = (\<lambda>results p output. Inr (irs_combine results output)),
      q_repeat = irs_repeat REJECTION A\<rparr>"

section \<open>What the third-party parts promise\<close>

text \<open>An alias table draws an index of its weights, and never one of weight zero; doubles are rounded.\<close>

definition alias_ok :: "(rat, 'al, 'g) alias_ops \<Rightarrow> bool" where
  "alias_ok A \<longleftrightarrow> (\<exists>u. rounding_ok (al_round A) u) \<and>
     (\<forall>ws g. (\<forall>w\<in>set ws. 0 \<le> w) \<longrightarrow> (\<exists>w\<in>set ws. 0 < w) \<longrightarrow>
        fst (al_get A (al_new A ws) g) < length ws \<and> 0 < ws ! fst (al_get A (al_new A ws) g))"

text \<open>A table made from some weights draws indices of positive ones.\<close>

definition good_draws :: "(rat, 'al, 'g) alias_ops \<Rightarrow> 'al \<Rightarrow> nat list \<Rightarrow> bool" where
  "good_draws A al weights \<longleftrightarrow> (\<forall>g. fst (al_get A al g) < length weights \<and> 0 < weights ! fst (al_get A al g))"

lemma alias_new_good:
  assumes "alias_ok A" and "0 < sum_list weights"
  shows "good_draws A (al_new A (map (\<lambda>w. dbl_quot (al_round A) w (sum_list weights)) weights)) weights"
proof -
  let ?t = "sum_list weights"
  let ?ws = "map (\<lambda>w. dbl_quot (al_round A) w ?t) weights"
  obtain u where u: "rounding_ok (al_round A) u" using assms(1) by (auto simp: alias_ok_def)
  note q = dbl_quot_nonneg [OF u assms(2)]
  have "\<exists>w\<in>set weights. 0 < w" using assms(2) by (metis bot_nat_0.not_eq_extremum sum_list_eq_0_iff)
  then have "\<exists>w\<in>set ?ws. 0 < w" "\<forall>w\<in>set ?ws. 0 \<le> w" using q by auto
  then have d: "fst (al_get A (al_new A ?ws) g) < length ?ws \<and> 0 < ?ws ! fst (al_get A (al_new A ?ws) g)" for g
    using assms(1) unfolding alias_ok_def by blast
  have "fst (al_get A (al_new A ?ws) g) < length weights \<and> 0 < weights ! fst (al_get A (al_new A ?ws) g)" for g
    using d [of g] q(2) by (elim conjE) simp
  then show ?thesis by (simp add: good_draws_def)
qed

section \<open>Sharing out the sample\<close>

lemma irs_draw_ok:
  assumes "\<And>g. fst (al_get A al g) < Suc m \<and> 0 < weights ! fst (al_get A al g)"
    and "length sizes = Suc m" and "b + sum_list sizes + n < size_max"
    and "0 < b \<Longrightarrow> 0 < weights ! 0" and "\<And>j. j < m \<Longrightarrow> 0 < sizes ! j \<Longrightarrow> 0 < weights ! Suc j" and "sizes ! m = 0"
  shows "\<exists>b' sizes' g'. irs_draw A al n b sizes g = Inr (b', sizes', g') \<and> length sizes' = Suc m \<and>
    b' + sum_list sizes' = b + sum_list sizes + n \<and> (0 < b' \<longrightarrow> 0 < (weights ! 0 :: nat)) \<and>
    (\<forall>j<m. 0 < sizes' ! j \<longrightarrow> 0 < weights ! Suc j) \<and> sizes' ! m = 0"
  using assms(2-)
proof (induction n arbitrary: b sizes g)
  case (Suc n)
  obtain idx g1 where d: "al_get A al g = (idx, g1)" by fastforce
  then have idx: "idx < Suc m" "0 < weights ! idx" using assms(1) [of g] by auto
  show ?case
  proof (cases idx)
    case 0
    have "sz_add b 1 = Suc b" using Suc.prems(2) by simp
    moreover obtain b' sizes' g' where "irs_draw A al n (Suc b) sizes g1 = Inr (b', sizes', g')" "length sizes' = Suc m"
      "b' + sum_list sizes' = Suc b + sum_list sizes + n" "0 < b' \<longrightarrow> 0 < weights ! 0"
      "\<forall>j<m. 0 < sizes' ! j \<longrightarrow> 0 < weights ! Suc j" "sizes' ! m = 0"
      using Suc.IH [of sizes "Suc b" g1] Suc.prems idx 0 by auto
    ultimately show ?thesis using d 0 by auto
  next
    case (Suc j)
    then have j: "j < m" using idx(1) by simp
    have le: "sizes ! j \<le> sum_list sizes" using j Suc.prems(1) by (intro elem_le_sum_list) simp
    have "sz_add (sizes ! j) 1 = Suc (sizes ! j)" using le Suc.prems(2) by simp
    moreover have "sum_list (sizes[j := Suc (sizes ! j)]) = Suc (sum_list sizes)"
      using sum_list_update [of j sizes "Suc (sizes ! j)"] j Suc.prems(1) le by simp
    moreover have "0 < weights ! Suc i" if "i < m" "0 < sizes[j := Suc (sizes ! j)] ! i" for i
      using that Suc.prems(4) [of i] idx(2) Suc by (cases "i = j") auto
    ultimately obtain b' sizes' g' where "irs_draw A al n b (sizes[j := Suc (sizes ! j)]) g1 = Inr (b', sizes', g')" "length sizes' = Suc m"
      "b' + sum_list sizes' = Suc (b + sum_list sizes + n)" "0 < b' \<longrightarrow> 0 < weights ! 0"
      "\<forall>j<m. 0 < sizes' ! j \<longrightarrow> 0 < weights ! Suc j" "sizes' ! m = 0"
      using Suc.IH [of "sizes[j := Suc (sizes ! j)]" b g1] Suc.prems j by auto
    then show ?thesis using d Suc j Suc.prems(1) \<open>sz_add (sizes ! j) 1 = Suc (sizes ! j)\<close> by simp
  qed
qed simp

lemma fold_sz_add:
  "t + sum_list ws < size_max \<Longrightarrow> fold (\<lambda>w t. sz_add t w) ws t = t + sum_list ws"
  by (induction ws arbitrary: t) simp_all

text \<open>The parts of one share: where it draws from, and how often.\<close>

lemma irs_draw_all:
  assumes "good_draws A al weights" and "length weights = Suc m" and "n < size_max"
  shows "\<exists>b sizes g'. irs_draw A al n 0 (replicate (Suc m) 0) g = Inr (b, sizes @ [0], g') \<and> length sizes = m \<and>
    b + sum_list sizes = n \<and> (0 < b \<longrightarrow> 0 < weights ! 0) \<and> (\<forall>j<m. 0 < sizes ! j \<longrightarrow> 0 < weights ! Suc j)"
proof -
  have "replicate (Suc m) (0 :: nat) ! j = 0" if "j \<le> m" for j using that by (simp add: nth_replicate del: replicate_Suc)
  moreover have "fst (al_get A al g) < Suc m \<and> 0 < weights ! fst (al_get A al g)" for g
    using assms(1,2) by (simp add: good_draws_def)
  moreover have "sum_list (replicate (Suc m) (0 :: nat)) = 0" by simp
  ultimately obtain b sizes g' where d: "irs_draw A al n 0 (replicate (Suc m) 0) g = Inr (b, sizes, g')"
      "length sizes = Suc m" "b + sum_list sizes = n" "0 < b \<longrightarrow> 0 < weights ! 0"
      "\<forall>j<m. 0 < sizes ! j \<longrightarrow> 0 < weights ! Suc j" "sizes ! m = 0"
    using irs_draw_ok [of A al m weights "replicate (Suc m) 0" 0 n g] assms(3)
    by (metis add_0 length_replicate less_imp_le_nat less_irrefl order_refl)
  have split: "sizes = take m sizes @ [0]" using d(2,6) by (metis append_take_drop_id Cons_nth_drop_Suc drop_eq_Nil2 lessI order_refl)
  then have "sum_list sizes = sum_list (take m sizes)" by (metis add.right_neutral sum_list.Cons sum_list.Nil sum_list_append)
  then show ?thesis using d split by (intro exI [of _ b] exI [of _ "take m sizes"] exI [of _ g']) simp
qed

definition shares :: "irs_LocalQuery list \<Rightarrow> nat list \<Rightarrow> irs_LocalQuery list" where
  "shares lqs sizes = map (\<lambda>(q, n). q\<lparr>irs_samples := n\<rparr>) (zip lqs sizes)"

lemma shares_simps [simp]:
  "length sizes = length lqs \<Longrightarrow> length (shares lqs sizes) = length lqs"
  "length sizes = length lqs \<Longrightarrow> map irs_weight (shares lqs sizes) = map irs_weight lqs"
  "length ns = length lqs \<Longrightarrow> length sizes = length lqs \<Longrightarrow> shares (shares lqs ns) sizes = shares lqs sizes"
  by (auto simp: shares_def list_eq_iff_nth_eq)

definition buffer_share :: "bool \<Rightarrow> ('k, 'v, 'f, 'g, 'al) irs_LocalQueryBuffer \<Rightarrow> nat" where
  "buffer_share REJECTION bq = (if REJECTION then irs_cutoff bq else length (irs_records bq))"

lemma irs_distribute_ok:
  fixes bq :: "('k, 'v, 'f, 'g, 'al) irs_LocalQueryBuffer"
  assumes "alias_ok A" and n: "irs_sample_size p < size_max"
    and weights: "weights = buffer_share REJECTION bq # map irs_weight lqs"
    and total: "0 < sum_list weights" "sum_list weights < size_max"
    and al: "case irs_alias bq of None \<Rightarrow> True | Some al \<Rightarrow> good_draws A al weights"
  shows "\<exists>b sizes g al. irs_distribute_query REJECTION A p lqs (Some bq) =
      Inr (p\<lparr>irs_rng := g\<rparr>, shares lqs sizes, Some (bq\<lparr>irs_alias := Some al, irs_buffer_samples := b\<rparr>)) \<and>
    length sizes = length lqs \<and> b + sum_list sizes = irs_sample_size p \<and> good_draws A al weights \<and>
    (0 < b \<longrightarrow> 0 < weights ! 0) \<and> (\<forall>j<length lqs. 0 < sizes ! j \<longrightarrow> 0 < irs_weight (lqs ! j))"
proof -
  let ?m = "length lqs" and ?t = "sum_list weights" and ?new = "al_new A (map (\<lambda>w. dbl_quot (al_round A) w (sum_list weights)) weights)"
  have tot: "fold (\<lambda>w t. sz_add t w) (tl weights) (hd weights) = ?t"
    using fold_sz_add [of "hd weights" "tl weights"] total(2) by (simp add: weights)
  have nz: "?t \<noteq> 0" using total(1) by blast
  define al where "al = (case irs_alias bq of None \<Rightarrow> ?new | Some al \<Rightarrow> al)"
  have good: "good_draws A al weights" using assms(6) alias_new_good [OF assms(1) total(1)] by (simp add: al_def split: option.splits)
  have len: "length weights = Suc ?m" by (simp add: weights)
  obtain b sizes g where d: "irs_draw A al (irs_sample_size p) 0 (replicate (Suc ?m) 0) (irs_rng p) = Inr (b, sizes @ [0], g)"
      "length sizes = ?m" "b + sum_list sizes = irs_sample_size p" "0 < b \<longrightarrow> 0 < weights ! 0"
      "\<forall>j<?m. 0 < sizes ! j \<longrightarrow> 0 < weights ! Suc j"
    using irs_draw_all [OF good len n, of "irs_rng p"] by blast
  have "zip lqs (sizes @ [0]) = zip lqs sizes" using d(2) by (simp add: zip_append2)
  moreover have "bq\<lparr>irs_alias := Some al, irs_buffer_samples := b\<rparr> = bq\<lparr>irs_buffer_samples := b, irs_alias := Some al\<rparr>" by simp
  ultimately have "irs_distribute_query REJECTION A p lqs (Some bq) =
      Inr (p\<lparr>irs_rng := g\<rparr>, shares lqs sizes, Some (bq\<lparr>irs_alias := Some al, irs_buffer_samples := b\<rparr>))"
    unfolding irs_distribute_query_def option.case Let_def buffer_share_def [symmetric] weights [symmetric] tot if_not_P [OF nz]
    using d(1) by (cases "irs_alias bq") (simp_all add: al_def shares_def)
  then show ?thesis
    using d(2-5) good by (intro exI [of _ b] exI [of _ sizes] exI [of _ g] exI [of _ al]) (auto simp: weights)
qed

section \<open>Drawing from the range\<close>

lemma irs_sample_shard_ok:
  assumes "rng_ok U" and "0 < range_length" and "lower + range_length \<le> length ws"
  shows "\<exists>rs g'. irs_sample_shard U ws lower range_length n g = Inr (rs, g') \<and> length rs = n \<and>
    set rs \<subseteq> set (take range_length (drop lower ws))"
proof (induction n arbitrary: g)
  case (Suc n)
  obtain idx g1 where u: "U g range_length = (idx, g1)" by fastforce
  then have idx: "idx < range_length" using assms(1,2) unfolding rng_ok_def by (metis fst_conv)
  then have "take range_length (drop lower ws) ! idx = ws ! (lower + idx)" using assms(3) by simp
  then have "ws ! (lower + idx) \<in> set (take range_length (drop lower ws))"
    using idx assms(3) by (metis length_drop length_take min.absorb2 nth_mem add_leD1 le_diff_conv2 add.commute)
  then show ?case using Suc.IH [of g1] u idx assms(2,3) by auto
qed simp

lemma irs_pick_records_ok:
  assumes "rng_ok U" and "0 < n \<longrightarrow> ws \<noteq> []"
  shows "\<exists>rs g'. irs_pick_records U ws n g = Inr (rs, g') \<and> length rs = n \<and> set rs \<subseteq> set ws"
  using assms(2)
proof (induction n arbitrary: g)
  case (Suc n)
  obtain idx g1 where u: "U g (length ws) = (idx, g1)" by fastforce
  then have "idx < length ws" using assms(1) Suc.prems unfolding rng_ok_def by (metis fst_conv length_greater_0_conv zero_less_Suc)
  then show ?case using Suc.IH [of g1] Suc.prems u by (auto simp: vec_get_def)
qed simp

text \<open>In a sorted array the records in range are a slice.\<close>

lemma range_slice:
  fixes ws :: "('k::linorder, 'v::linorder) Record Wrapped list"
  assumes "rec_sorted ws" and "irs_lower p \<le> irs_upper p"
  defines "l \<equiv> length (filter (\<lambda>w. key (rec w) < irs_lower p) ws)" and "u \<equiv> length (filter (\<lambda>w. key (rec w) \<le> irs_upper p) ws)"
  shows "l \<le> u" and "u \<le> length ws" and "take (u - l) (drop l ws) = filter (irs_in_range p) ws"
proof -
  let ?lt = "\<lambda>w :: ('k, 'v) Record Wrapped. key (rec w) < irs_lower p" and ?le = "\<lambda>w :: ('k, 'v) Record Wrapped. key (rec w) \<le> irs_upper p"
  have srt: "sorted_wrt (\<lambda>a b. key (rec a) \<le> key (rec b)) ws"
    using assms(1) by (rule sorted_wrt_mono_rel [rotated]) (rule key_mono)
  have front: "take (length (filter P ws)) ws = filter P ws \<and> drop (length (filter P ws)) ws = filter (\<lambda>w. \<not> P w) ws"
    if "sorted_wrt (\<lambda>a b. key (rec a) \<le> key (rec b)) ws" and P: "\<And>a b. key (rec a) \<le> key (rec b) \<Longrightarrow> P b \<Longrightarrow> P a"
    for P and ws :: "('k, 'v) Record Wrapped list"
    using that(1)
  proof (induction ws)
    case (Cons w ws)
    show ?case
    proof (cases "P w")
      case False
      then have "\<not> P x" if "x \<in> set ws" for x using that Cons.prems P by auto
      then show ?thesis using False by simp
    qed (use Cons in simp)
  qed simp
  have le: "take u ws = filter ?le ws" unfolding u_def using front [OF srt, of ?le] by auto
  have "filter ?lt (filter ?le ws) = filter ?lt ws" using assms(2) by (auto intro!: filter_cong)
  then have l: "l = length (filter ?lt (take u ws))" by (simp add: l_def le)
  show "u \<le> length ws" by (simp add: u_def)
  show "l \<le> u" unfolding l le unfolding u_def by (rule length_filter_le)
  have "take (u - l) (drop l ws) = drop l (take u ws)" by (simp add: drop_take)
  also have "\<dots> = filter (\<lambda>w. \<not> ?lt w) (take u ws)"
    unfolding l using front [OF sorted_wrt_take [OF srt], of ?lt u] by auto
  also have "\<dots> = filter (\<lambda>w. \<not> ?lt w) (filter ?le ws)" by (simp only: le)
  also have "\<dots> = filter (irs_in_range p) ws" by (auto simp: irs_in_range_def not_less intro!: filter_cong)
  finally show "take (u - l) (drop l ws) = filter (irs_in_range p) ws" .
qed

text \<open>Drawing from the buffer with rejection keeps the records in range.\<close>

lemma irs_reject_ok:
  fixes q :: "('k::linorder, 'v, 'f, 'g, 'al) irs_LocalQueryBuffer"
  assumes "rng_ok U" and "view_wf (irs_buffer q)" and "irs_cutoff q = view_record_count (irs_buffer q)" and "0 < n \<longrightarrow> 0 < irs_cutoff q"
  shows "\<exists>rs g'. irs_reject U q n g = Inr (rs, g') \<and> length rs \<le> n \<and>
    set rs \<subseteq> set (filter (irs_in_range (irs_buffer_parms q)) (view_list (irs_buffer q))) \<and>
    ((\<forall>w\<in>set (view_list (irs_buffer q)). irs_in_range (irs_buffer_parms q) w) \<longrightarrow> length rs = n)"
  using assms(4)
proof (induction n arbitrary: g)
  case (Suc n)
  obtain idx g1 where u: "U g (irs_cutoff q) = (idx, g1)" by fastforce
  then have idx: "idx < view_record_count (irs_buffer q)"
    using assms(1,3) Suc.prems unfolding rng_ok_def by (metis fst_conv zero_less_Suc)
  then have get: "view_get (irs_buffer q) idx = Inr (view_list (irs_buffer q) ! idx)" by (rule view_get_wf [OF assms(2)])
  have mem: "view_list (irs_buffer q) ! idx \<in> set (view_list (irs_buffer q))"
    by (rule nth_mem) (simp only: length_view_list [OF assms(2)] idx)
  obtain rs g' where "irs_reject U q n g1 = Inr (rs, g')" "length rs \<le> n"
      "set rs \<subseteq> set (filter (irs_in_range (irs_buffer_parms q)) (view_list (irs_buffer q)))"
      "(\<forall>w\<in>set (view_list (irs_buffer q)). irs_in_range (irs_buffer_parms q) w) \<longrightarrow> length rs = n"
    using Suc.IH [of g1] Suc.prems by auto
  then show ?case using u get mem by auto
qed simp

section \<open>The loop over rounds\<close>

text \<open>What every round keeps holds of what the loop returns, if it returns.\<close>

lemma query_loop_invariant:
  assumes step: "\<And>p lqs bq out out' again p' lqs' bq'. I p lqs bq out \<Longrightarrow>
      query_round Q has_buffer ss p lqs bq out = Inr (out', again, p', lqs', bq') \<Longrightarrow>
      (again \<longrightarrow> I p' lqs' bq' out') \<and> (\<not> again \<longrightarrow> R (Inr out'))"
    and err: "\<And>p lqs bq out e. I p lqs bq out \<Longrightarrow> query_round Q has_buffer ss p lqs bq out = Inl e \<Longrightarrow> R (Inl e)"
    and "I p lqs bq out" and "query_loop Q has_buffer ss p lqs bq out = Some y"
  shows "R y"
proof -
  have "Q = Q \<longrightarrow> has_buffer = has_buffer \<longrightarrow> ss = ss \<longrightarrow> I p lqs bq out \<longrightarrow> R y"
  proof (rule query_loop.raw_induct [where P =
        "\<lambda>Q' hb ss' p lqs bq out y. Q' = Q \<longrightarrow> hb = has_buffer \<longrightarrow> ss' = ss \<longrightarrow> I p lqs bq out \<longrightarrow> R y", OF _ assms(4)], intro impI)
    fix f Q' hb ss' p lqs bq out y
    assume IH: "\<And>hb ss' p lqs bq out Q' y. f hb ss' p lqs bq out Q' = Some y \<Longrightarrow>
        hb = Q \<longrightarrow> ss' = has_buffer \<longrightarrow> p = ss \<longrightarrow> I lqs bq out Q' \<longrightarrow> R y"
      and run: "(case query_round Q' hb ss' p lqs bq out of Inl err \<Rightarrow> Some (Inl err)
        | Inr (out', again, p', lqs', bq') \<Rightarrow> if again then f Q' hb ss' p' lqs' bq' out' else Some (Inr out')) = Some y"
      and eq: "Q' = Q" "hb = has_buffer" "ss' = ss" and I: "I p lqs bq out"
    show "R y"
    proof (cases "query_round Q has_buffer ss p lqs bq out")
      case (Inl e)
      then show ?thesis using run err [OF I Inl] by (simp add: eq)
    next
      case (Inr r)
      obtain out' again p' lqs' bq' where r: "r = (out', again, p', lqs', bq')" by (cases r) auto
      note s = step [OF I Inr [unfolded r]]
      show ?thesis
      proof (cases again)
        case True
        then have "f Q has_buffer ss p' lqs' bq' out' = Some y" using run Inr r by (simp add: eq)
        then show ?thesis using IH s True by blast
      qed (use run s Inr r in \<open>simp add: eq\<close>)
    qed
  qed
  then show ?thesis using assms(3) by blast
qed

lemma query_loop_diverges:
  assumes "\<And>p lqs bq. I p lqs bq \<Longrightarrow> \<exists>p' lqs' bq'. query_round Q has_buffer ss p lqs bq out = Inr (out, True, p', lqs', bq') \<and> I p' lqs' bq'"
    and "I p lqs bq"
  shows "query_loop Q has_buffer ss p lqs bq out = None"
proof (cases "query_loop Q has_buffer ss p lqs bq out")
  case (Some y)
  have False
    by (rule query_loop_invariant [where I = "\<lambda>p lqs bq out'. out' = out \<and> I p lqs bq" and R = "\<lambda>_. False", OF _ _ _ Some])
      (use assms in \<open>fastforce+\<close>)
  then show ?thesis ..
qed simp

section \<open>A round over exact searches\<close>

text \<open>The searches of an in-memory tree count: more than a range query asks for.\<close>

locale counted_shard = sorted_shard data lower_bound sinv
  for data :: "'s \<Rightarrow> ('k::linorder, 'v::linorder) Record Wrapped list" and lower_bound :: "'s \<Rightarrow> 'k \<Rightarrow> nat res" and sinv +
  fixes upper_bound :: "'s \<Rightarrow> 'k \<Rightarrow> nat res"
  assumes lower_count: "sinv s \<Longrightarrow> lower_bound s k = Inr (length (filter (\<lambda>w. key (rec w) < k) (data s)))"
    and upper_count: "sinv s \<Longrightarrow> upper_bound s k = Inr (length (filter (\<lambda>w. key (rec w) \<le> k) (data s)))"
begin

definition "local_of p s =
  \<lparr>irs_lower_idx = length (filter (\<lambda>w. key (rec w) < irs_lower p) (data s)),
   irs_upper_idx = length (filter (\<lambda>w. key (rec w) \<le> irs_upper p) (data s)),
   irs_weight = length (filter (irs_in_range p) (data s)), irs_samples = 0,
   irs_global_samples = irs_sample_size p\<rparr>"

lemma preproc_ok:
  assumes "sinv s" and "irs_lower p \<le> irs_upper p"
  shows "irs_local_preproc data lower_bound upper_bound s p = Inr (local_of p s)"
proof -
  note sl = range_slice [OF data_sorted [OF assms(1)] assms(2)]
  let ?l = "length (filter (\<lambda>w. key (rec w) < irs_lower p) (data s))" and ?u = "length (filter (\<lambda>w. key (rec w) \<le> irs_upper p) (data s))"
  have "length (filter (irs_in_range p) (data s)) = ?u - ?l" using min_absorb2 [OF diff_le_mono [OF sl(2), of ?l]] by (subst sl(3) [symmetric]) simp
  moreover have "?u - ?l = 0" if "?l = length (data s)" using sl(1,2) that by simp
  ultimately show ?thesis using sl(1)
    by (simp add: irs_local_preproc_def local_of_def lower_count [OF assms(1)] upper_count [OF assms(1)])
qed

lemma local_ok:
  assumes "sinv s" and "irs_lower p \<le> irs_upper p" and "rng_ok U" and "0 < n \<longrightarrow> 0 < irs_weight (local_of p s)"
  shows "\<exists>rs g'. irs_local_query U data s ((local_of p s)\<lparr>irs_samples := n\<rparr>) p1 = Inr (rs, p1\<lparr>irs_rng := g'\<rparr>) \<and>
    length rs = n \<and> set rs \<subseteq> {w \<in> set (data s). irs_in_range p w}"
proof (cases "n = 0")
  case True
  then show ?thesis by (intro exI [of _ "[]"] exI [of _ "irs_rng p1"]) (simp add: irs_local_query_def)
next
  case False
  note sl = range_slice [OF data_sorted [OF assms(1)] assms(2)]
  let ?l = "length (filter (\<lambda>w. key (rec w) < irs_lower p) (data s))" and ?u = "length (filter (\<lambda>w. key (rec w) \<le> irs_upper p) (data s))"
  have "0 < length (take (?u - ?l) (drop ?l (data s)))" using False assms(4) by (subst sl(3)) (simp add: local_of_def)
  then have pos: "0 < ?u - ?l" "?l < length (data s)" by simp_all
  have "?l + (?u - ?l) \<le> length (data s)" using sl(1,2) by simp
  from irs_sample_shard_ok [OF assms(3) pos(1) this, of n "irs_rng p1"] obtain rs g' where
    "irs_sample_shard U (data s) ?l (?u - ?l) n (irs_rng p1) = Inr (rs, g')" "length rs = n"
    "set rs \<subseteq> set (filter (irs_in_range p) (data s))" unfolding sl(3) by blast
  then show ?thesis using False pos(2) sl(1)
    by (intro exI [of _ rs] exI [of _ g']) (auto simp: irs_local_query_def local_of_def)
qed

lemma shards_ok:
  fixes Q :: "('s, ('k, 'v) Record, 'f, ('k, 'g) irs_Parameters, irs_LocalQuery, ('k, 'v, 'f, 'g, 'al) irs_LocalQueryBuffer option,
      ('k, 'v) Record Wrapped, ('k, 'v) Record) query_ops"
  assumes Q: "Q = irs_Query REJECTION A U data lower_bound upper_bound"
    and "irs_lower p \<le> irs_upper p" and "rng_ok U"
    and "\<forall>s\<in>set ss. sinv s" and "length sizes = length ss"
    and "\<forall>j<length ss. 0 < sizes ! j \<longrightarrow> 0 < irs_weight (local_of p (ss ! j))"
  shows "\<exists>rss g'. query_shards Q has_buffer (zip ss (map (\<lambda>(q, n). q\<lparr>irs_samples := n\<rparr>) (zip (map (local_of p) ss) sizes))) p1 =
      Inr (rss, p1\<lparr>irs_rng := g'\<rparr>) \<and> length (concat rss) = sum_list sizes \<and>
    set (concat rss) \<subseteq> {w \<in> set (concat (map data ss)). irs_in_range p w}"
  using assms(4-)
proof (induction ss arbitrary: sizes p1)
  case Nil
  then show ?case by (intro exI [of _ "[]"] exI [of _ "irs_rng p1"]) simp
next
  case (Cons s ss)
  obtain n ns where sizes: "sizes = n # ns" using Cons.prems(2) by (cases sizes) auto
  have s: "sinv s" "0 < n \<longrightarrow> 0 < irs_weight (local_of p s)" using Cons.prems(1,3) sizes by auto
  obtain rs g' where rs: "irs_local_query U data s ((local_of p s)\<lparr>irs_samples := n\<rparr>) p1 = Inr (rs, p1\<lparr>irs_rng := g'\<rparr>)"
      "length rs = n" "set rs \<subseteq> {w \<in> set (data s). irs_in_range p w}"
    using local_ok [OF s(1) assms(2,3) s(2)] by blast
  have "\<forall>s\<in>set ss. sinv s" "length ns = length ss" "\<forall>j<length ss. 0 < ns ! j \<longrightarrow> 0 < irs_weight (local_of p (ss ! j))"
    using Cons.prems sizes by auto
  from Cons.IH [OF this, of "p1\<lparr>irs_rng := g'\<rparr>"] obtain rss g'' where
    "query_shards Q has_buffer (zip ss (map (\<lambda>(q, n). q\<lparr>irs_samples := n\<rparr>) (zip (map (local_of p) ss) ns))) (p1\<lparr>irs_rng := g'\<rparr>) =
      Inr (rss, p1\<lparr>irs_rng := g''\<rparr>)" "length (concat rss) = sum_list ns"
    "set (concat rss) \<subseteq> {w \<in> set (concat (map data ss)). irs_in_range p w}" by auto
  then show ?case using rs by (intro exI [of _ "rs # rss"] exI [of _ g'']) (auto simp: sizes Q irs_Query_def)
qed

lemma preprocs_ok:
  assumes "irs_lower p \<le> irs_upper p" and "\<forall>s\<in>set ss. sinv s"
  shows "mapE (\<lambda>s. irs_local_preproc data lower_bound upper_bound s p) ss = Inr (map (local_of p) ss)"
  using assms(2) preproc_ok [OF _ assms(1)] by (intro mapE_Inr) auto

text \<open>The buffer query: without rejection it holds copies of the records in range.\<close>

definition "buffer_of REJECTION v p =
  \<lparr>irs_buffer = v, irs_cutoff = view_record_count v, irs_records = (if REJECTION then [] else filter (irs_in_range p) (view_list v)),
   irs_alias = None, irs_buffer_samples = 0, irs_buffer_parms = p\<rparr>"

lemma buffer_of_ok:
  assumes "view_wf v"
  shows "irs_local_preproc_buffer REJECTION v p = Inr (buffer_of REJECTION v p)"
proof -
  have "mapE (view_get v) [0..<view_record_count v] = Inr (map ((!) (view_list v)) [0..<view_record_count v])"
    using view_get_wf [OF assms] by (intro mapE_Inr) simp
  also have "map ((!) (view_list v)) [0..<view_record_count v] = view_list v"
    unfolding length_view_list [OF assms, symmetric] by (rule map_nth)
  finally show ?thesis by (simp add: irs_local_preproc_buffer_def buffer_of_def)
qed

definition "weights_of REJECTION v p ss =
  (if REJECTION then view_record_count v else length (filter (irs_in_range p) (view_list v))) # map irs_weight (map (local_of p) ss)"

lemma shard_weights: "sum_list (map irs_weight (map (local_of p) ss)) = length (filter (irs_in_range p) (concat (map data ss)))"
  by (simp add: local_of_def filter_concat length_concat comp_def)

lemma weights_sum:
  assumes "view_wf v"
  shows "length (filter (irs_in_range p) (view_list v @ concat (map data ss))) \<le> sum_list (weights_of REJECTION v p ss)"
    and "sum_list (weights_of REJECTION v p ss) \<le> length (view_list v @ concat (map data ss))"
proof -
  have "length (view_list v) = view_record_count v" by (rule length_view_list [OF assms])
  then have "length (filter P (view_list v)) \<le> view_record_count v" for P by (metis length_filter_le)
  then show "length (filter (irs_in_range p) (view_list v @ concat (map data ss))) \<le> sum_list (weights_of REJECTION v p ss)"
    unfolding weights_of_def sum_list.Cons shard_weights by simp
  show "sum_list (weights_of REJECTION v p ss) \<le> length (view_list v @ concat (map data ss))"
    unfolding weights_of_def sum_list.Cons shard_weights using \<open>length (view_list v) = view_record_count v\<close>
    by (auto intro!: add_mono simp: length_filter_le [of _ "view_list v", THEN order_trans])
qed

text \<open>
  Between two rounds: the sample that is still missing has been shared out among the parts with a
  positive weight. Of the parameters only the sample size and the generator have changed.
\<close>

definition "shared_out REJECTION A v p0 ss p lqs bq \<longleftrightarrow>
  irs_lower p = irs_lower p0 \<and> irs_upper p = irs_upper p0 \<and> irs_sample_size p < size_max \<and>
  (\<exists>al b sizes. good_draws A al (weights_of REJECTION v p0 ss) \<and>
     lqs = shares (map (local_of p0) ss) sizes \<and> bq = Some ((buffer_of REJECTION v p0)\<lparr>irs_alias := Some al, irs_buffer_samples := b\<rparr>) \<and>
     length sizes = length ss \<and> b + sum_list sizes = irs_sample_size p \<and>
     (0 < b \<longrightarrow> 0 < weights_of REJECTION v p0 ss ! 0) \<and> (\<forall>j<length ss. 0 < sizes ! j \<longrightarrow> 0 < irs_weight (local_of p0 (ss ! j))))"

text \<open>Sharing out, the first time and again.\<close>

lemma share_out:
  fixes bq :: "('k, 'v, 'f, 'g, 'al) irs_LocalQueryBuffer"
  assumes "alias_ok A" and "irs_sample_size p < size_max" and "irs_lower p = irs_lower p0" "irs_upper p = irs_upper p0"
    and total: "0 < sum_list (weights_of REJECTION v p0 ss)" "sum_list (weights_of REJECTION v p0 ss) < size_max"
    and lqs: "lqs = map (local_of p0) ss \<or> (\<exists>ns. length ns = length ss \<and> lqs = shares (map (local_of p0) ss) ns)"
    and bq: "bq = buffer_of REJECTION v p0 \<or>
      (\<exists>al b. good_draws A al (weights_of REJECTION v p0 ss) \<and> bq = (buffer_of REJECTION v p0)\<lparr>irs_alias := Some al, irs_buffer_samples := b\<rparr>)"
  shows "\<exists>p' lqs' bq'. irs_distribute_query REJECTION A p lqs (Some bq) = Inr (p', lqs', bq') \<and>
    irs_sample_size p' = irs_sample_size p \<and> shared_out REJECTION A v p0 ss p' lqs' bq'"
proof -
  let ?ws = "weights_of REJECTION v p0 ss" and ?L = "map (local_of p0) ss"
  have w: "map irs_weight lqs = map irs_weight ?L" "length lqs = length ?L" using lqs by (auto simp del: map_map)
  have "buffer_share REJECTION bq = hd ?ws" using bq by (auto simp: buffer_share_def weights_of_def buffer_of_def)
  then have weights: "?ws = buffer_share REJECTION bq # map irs_weight lqs" unfolding w(1) by (simp add: weights_of_def)
  have al: "case irs_alias bq of None \<Rightarrow> True | Some al \<Rightarrow> good_draws A al ?ws" using bq by (auto simp: buffer_of_def)
  obtain b sizes g al where d: "irs_distribute_query REJECTION A p lqs (Some bq) =
      Inr (p\<lparr>irs_rng := g\<rparr>, shares lqs sizes, Some (bq\<lparr>irs_alias := Some al, irs_buffer_samples := b\<rparr>))"
      "length sizes = length lqs" "b + sum_list sizes = irs_sample_size p" "good_draws A al ?ws"
      "0 < b \<longrightarrow> 0 < ?ws ! 0" "\<forall>j<length lqs. 0 < sizes ! j \<longrightarrow> 0 < irs_weight (lqs ! j)"
    using irs_distribute_ok [OF assms(1,2) weights total al] by blast
  have "shares lqs sizes = shares ?L sizes" using lqs d(2) w(2) by auto
  moreover have "bq\<lparr>irs_alias := Some al, irs_buffer_samples := b\<rparr> = (buffer_of REJECTION v p0)\<lparr>irs_alias := Some al, irs_buffer_samples := b\<rparr>"
    using bq by auto
  moreover have "irs_weight (lqs ! j) = irs_weight (local_of p0 (ss ! j))" if "j < length ss" for j
    using arg_cong [OF w(1), of "\<lambda>xs. xs ! j"] that w(2) by simp
  ultimately have "shared_out REJECTION A v p0 ss (p\<lparr>irs_rng := g\<rparr>) (shares lqs sizes) (Some (bq\<lparr>irs_alias := Some al, irs_buffer_samples := b\<rparr>))"
    unfolding shared_out_def using d(2-6) w(2) assms(2-4) by (auto intro!: exI [of _ al] exI [of _ b] exI [of _ sizes])
  then show ?thesis using d(1) by auto
qed

text \<open>
  A round: it adds records in range, no more than are missing, and exactly as many when no draw
  can be rejected; then it ends or shares out what is still missing.
\<close>

lemma sample_round:
  fixes Q :: "('s, ('k, 'v) Record, 'f, ('k, 'g) irs_Parameters, irs_LocalQuery, ('k, 'v, 'f, 'g, 'al) irs_LocalQueryBuffer option,
      ('k, 'v) Record Wrapped, ('k, 'v) Record) query_ops"
  assumes Q: "Q = irs_Query REJECTION A U data lower_bound upper_bound"
    and ok: "alias_ok A" "rng_ok U" and range: "irs_lower p0 \<le> irs_upper p0"
    and ss: "\<forall>s\<in>set ss. sinv s" and v: "view_wf v"
    and total: "0 < sum_list (weights_of REJECTION v p0 ss)" "sum_list (weights_of REJECTION v p0 ss) < size_max"
    and inv: "shared_out REJECTION A v p0 ss p lqs bq"
  shows "\<exists>rs again p' lqs' bq'. query_round Q has_buffer ss p lqs bq out = Inr (out @ rs, again, p', lqs', bq') \<and>
    length rs \<le> irs_sample_size p \<and> set rs \<subseteq> rec ` {w \<in> set (view_list v @ concat (map data ss)). irs_in_range p0 w} \<and>
    ((REJECTION \<longrightarrow> (\<forall>w\<in>set (view_list v). irs_in_range p0 w)) \<longrightarrow> length rs = irs_sample_size p) \<and>
    (again \<longleftrightarrow> length (out @ rs) < irs_sample_size p) \<and>
    (again \<longrightarrow> shared_out REJECTION A v p0 ss p' lqs' bq' \<and> irs_sample_size p' = irs_sample_size p - length (out @ rs))"
proof -
  let ?B = "buffer_of REJECTION v p0 :: ('k, 'v, 'f, 'g, 'al) irs_LocalQueryBuffer" and ?L = "map (local_of p0) ss"
  obtain al b sizes where st: "good_draws A al (weights_of REJECTION v p0 ss)" "lqs = shares ?L sizes"
      "bq = Some (?B\<lparr>irs_alias := Some al, irs_buffer_samples := b\<rparr>)" "length sizes = length ss" "b + sum_list sizes = irs_sample_size p"
      "0 < b \<longrightarrow> 0 < weights_of REJECTION v p0 ss ! 0" "\<forall>j<length ss. 0 < sizes ! j \<longrightarrow> 0 < irs_weight (local_of p0 (ss ! j))"
    and p: "irs_lower p = irs_lower p0" "irs_upper p = irs_upper p0" "irs_sample_size p < size_max"
    using inv unfolding shared_out_def by blast
  let ?bq = "?B\<lparr>irs_alias := Some al, irs_buffer_samples := b\<rparr>"
  have "\<exists>rs g1. irs_local_query_buffer REJECTION U ?bq p = Inr (rs, p\<lparr>irs_rng := g1\<rparr>) \<and> length rs \<le> b \<and>
      set rs \<subseteq> set (filter (irs_in_range p0) (view_list v)) \<and>
      ((REJECTION \<longrightarrow> (\<forall>w\<in>set (view_list v). irs_in_range p0 w)) \<longrightarrow> length rs = b)"
  proof (cases REJECTION)
    case True
    have "0 < b \<longrightarrow> 0 < irs_cutoff ?bq" using st(6) True by (simp add: weights_of_def buffer_of_def)
    from irs_reject_ok [OF ok(2) _ _ this, of "irs_rng p"] v True show ?thesis
      by (auto simp: irs_local_query_buffer_def buffer_of_def)
  next
    case False
    then have "0 < b \<longrightarrow> irs_records ?bq \<noteq> []" using st(6) by (auto simp: weights_of_def buffer_of_def)
    from irs_pick_records_ok [OF ok(2) this, of "irs_rng p"] False show ?thesis
      by (auto simp: irs_local_query_buffer_def buffer_of_def)
  qed
  then obtain rs0 g1 where rs0: "irs_local_query_buffer REJECTION U ?bq p = Inr (rs0, p\<lparr>irs_rng := g1\<rparr>)" "length rs0 \<le> b"
      "set rs0 \<subseteq> set (filter (irs_in_range p0) (view_list v))"
      "(REJECTION \<longrightarrow> (\<forall>w\<in>set (view_list v). irs_in_range p0 w)) \<longrightarrow> length rs0 = b" by blast
  obtain rss g2 where rss: "query_shards Q has_buffer (zip ss lqs) (p\<lparr>irs_rng := g1\<rparr>) = Inr (rss, p\<lparr>irs_rng := g1, irs_rng := g2\<rparr>)"
      "length (concat rss) = sum_list sizes" "set (concat rss) \<subseteq> {w \<in> set (concat (map data ss)). irs_in_range p0 w}"
    using shards_ok [OF Q range ok(2) ss st(4,7), where ?p1.0 = "p\<lparr>irs_rng := g1\<rparr>"] unfolding st(2) shares_def by blast
  define rs where "rs = map rec (rs0 @ concat rss)"
  have results: "query_results Q has_buffer ss lqs bq p = Inr (rs0 # rss, p\<lparr>irs_rng := g2\<rparr>)"
    using rss(1) rs0(1) by (simp add: query_results_def Q irs_Query_def st(3))
  have len: "length rs \<le> irs_sample_size p" "(REJECTION \<longrightarrow> (\<forall>w\<in>set (view_list v). irs_in_range p0 w)) \<longrightarrow> length rs = irs_sample_size p"
    using rs0(2,4) rss(2) st(5) by (auto simp: rs_def)
  have mem: "set rs \<subseteq> rec ` {w \<in> set (view_list v @ concat (map data ss)). irs_in_range p0 w}"
    using rs0(3) rss(3) unfolding rs_def set_map set_append by (intro image_mono) auto
  have ops: "q_combine Q r p' out = Inr (irs_combine r out)" "q_repeat Q p' out l c = irs_repeat REJECTION A p' out l c" for r p' out l c
    by (simp_all add: Q irs_Query_def)
  have comb: "irs_combine (rs0 # rss) out = out @ rs" by (simp add: irs_combine_def rs_def)
  have round: "query_round Q has_buffer ss p lqs bq out =
      bindE (irs_repeat REJECTION A (p\<lparr>irs_rng := g2\<rparr>) (out @ rs) lqs bq) (\<lambda>again. Inr (out @ rs, again))"
    unfolding query_round_def results by (simp add: ops comb)
  show ?thesis
  proof (cases "length (out @ rs) < irs_sample_size p")
    case False
    then have "irs_repeat REJECTION A (p\<lparr>irs_rng := g2\<rparr>) (out @ rs) lqs bq = Inr (False, p\<lparr>irs_rng := g2\<rparr>, lqs, bq)"
      by (simp add: irs_repeat_def)
    then show ?thesis using round len mem False
      by (intro exI [of _ rs] exI [of _ False] exI [of _ "p\<lparr>irs_rng := g2\<rparr>"] exI [of _ lqs] exI [of _ bq]) simp
  next
    case True
    let ?p = "p\<lparr>irs_rng := g2, irs_sample_size := irs_sample_size p - length (out @ rs)\<rparr>"
    have "\<exists>p' lqs' bq'. irs_distribute_query REJECTION A ?p lqs (Some ?bq) = Inr (p', lqs', bq') \<and>
        irs_sample_size p' = irs_sample_size ?p \<and> shared_out REJECTION A v p0 ss p' lqs' bq'"
      by (rule share_out [OF ok(1) _ _ _ total]) (use p st(1,2,4) in auto)
    then obtain p' lqs' bq' where d: "irs_distribute_query REJECTION A ?p lqs (Some ?bq) = Inr (p', lqs', bq')"
        "irs_sample_size p' = irs_sample_size ?p" "shared_out REJECTION A v p0 ss p' lqs' bq'" by blast
    then have "irs_repeat REJECTION A (p\<lparr>irs_rng := g2\<rparr>) (out @ rs) lqs bq = Inr (True, p', lqs', bq')"
      using True by (simp add: irs_repeat_def st(3) Let_def)
    then show ?thesis using round len mem True d
      by (intro exI [of _ rs] exI [of _ True] exI [of _ p'] exI [of _ lqs'] exI [of _ bq']) simp
  qed
qed

text \<open>Whatever a sample returns lies in range, and is not more than was asked for.\<close>

lemma sample_loop_sound:
  fixes Q :: "('s, ('k, 'v) Record, 'f, ('k, 'g) irs_Parameters, irs_LocalQuery, ('k, 'v, 'f, 'g, 'al) irs_LocalQueryBuffer option,
      ('k, 'v) Record Wrapped, ('k, 'v) Record) query_ops"
  assumes Q: "Q = irs_Query REJECTION A U data lower_bound upper_bound"
    and ok: "alias_ok A" "rng_ok U" and range: "irs_lower p0 \<le> irs_upper p0"
    and ss: "\<forall>s\<in>set ss. sinv s" and v: "view_wf v"
    and total: "0 < sum_list (weights_of REJECTION v p0 ss)" "sum_list (weights_of REJECTION v p0 ss) < size_max"
    and "shared_out REJECTION A v p0 ss p lqs bq" and "query_loop Q has_buffer ss p lqs bq [] = Some y"
  shows "\<exists>out. y = Inr out \<and> length out \<le> irs_sample_size p \<and>
    set out \<subseteq> rec ` {w \<in> set (view_list v @ concat (map data ss)). irs_in_range p0 w}"
proof -
  let ?n = "irs_sample_size p" and ?R = "rec ` {w \<in> set (view_list v @ concat (map data ss)). irs_in_range p0 w}"
  note round = sample_round [OF Q ok range ss v total]
  show ?thesis
  proof (rule query_loop_invariant [where R = "\<lambda>y. \<exists>out. y = Inr out \<and> length out \<le> ?n \<and> set out \<subseteq> ?R" and
        I = "\<lambda>p lqs bq out. shared_out REJECTION A v p0 ss p lqs bq \<and> length out + irs_sample_size p \<le> ?n \<and> set out \<subseteq> ?R", OF _ _ _ assms(10)])
    fix p1 p' :: "('k, 'g) irs_Parameters" and lqs1 lqs' out out' again
      and bq1 bq' :: "('k, 'v, 'f, 'g, 'al) irs_LocalQueryBuffer option"
    assume I: "shared_out REJECTION A v p0 ss p1 lqs1 bq1 \<and> length out + irs_sample_size p1 \<le> ?n \<and> set out \<subseteq> ?R"
      and r: "query_round Q has_buffer ss p1 lqs1 bq1 out = Inr (out', again, p', lqs', bq')"
    from round [OF conjunct1 [OF I], of has_buffer out] r obtain rs where rs: "out' = out @ rs" "length rs \<le> irs_sample_size p1"
        "set rs \<subseteq> ?R" "again \<Longrightarrow> length (out @ rs) < irs_sample_size p1"
        "again \<Longrightarrow> shared_out REJECTION A v p0 ss p' lqs' bq' \<and> irs_sample_size p' = irs_sample_size p1 - length (out @ rs)" by fastforce
    show "(again \<longrightarrow> shared_out REJECTION A v p0 ss p' lqs' bq' \<and> length out' + irs_sample_size p' \<le> ?n \<and> set out' \<subseteq> ?R) \<and>
        (\<not> again \<longrightarrow> (\<exists>o'. Inr out' = Inr o' \<and> length o' \<le> ?n \<and> set o' \<subseteq> ?R))"
      using rs I by auto
  next
    fix p1 :: "('k, 'g) irs_Parameters" and lqs1 out e and bq1 :: "('k, 'v, 'f, 'g, 'al) irs_LocalQueryBuffer option"
    assume I: "shared_out REJECTION A v p0 ss p1 lqs1 bq1 \<and> length out + irs_sample_size p1 \<le> ?n \<and> set out \<subseteq> ?R"
      and r: "query_round Q has_buffer ss p1 lqs1 bq1 out = Inl e"
    from round [OF conjunct1 [OF I], of has_buffer out] r show "\<exists>o'. Inl e = Inr o' \<and> length o' \<le> ?n \<and> set o' \<subseteq> ?R" by fastforce
  qed (use assms(9) in simp)
qed

lemma sample_loop_exact:
  fixes Q :: "('s, ('k, 'v) Record, 'f, ('k, 'g) irs_Parameters, irs_LocalQuery, ('k, 'v, 'f, 'g, 'al) irs_LocalQueryBuffer option,
      ('k, 'v) Record Wrapped, ('k, 'v) Record) query_ops"
  assumes Q: "Q = irs_Query REJECTION A U data lower_bound upper_bound"
    and ok: "alias_ok A" "rng_ok U" and range: "irs_lower p0 \<le> irs_upper p0"
    and ss: "\<forall>s\<in>set ss. sinv s" and v: "view_wf v"
    and total: "0 < sum_list (weights_of REJECTION v p0 ss)" "sum_list (weights_of REJECTION v p0 ss) < size_max"
    and "shared_out REJECTION A v p0 ss p lqs bq" and "REJECTION \<longrightarrow> (\<forall>w\<in>set (view_list v). irs_in_range p0 w)"
  shows "\<exists>out. query_loop Q has_buffer ss p lqs bq [] = Some (Inr out) \<and> length out = irs_sample_size p \<and>
    set out \<subseteq> rec ` {w \<in> set (view_list v @ concat (map data ss)). irs_in_range p0 w}"
proof -
  obtain rs p' lqs' bq' where r: "query_round Q has_buffer ss p lqs bq [] = Inr (rs, False, p', lqs', bq')" "length rs = irs_sample_size p"
      "set rs \<subseteq> rec ` {w \<in> set (view_list v @ concat (map data ss)). irs_in_range p0 w}"
    using sample_round [OF Q ok range ss v total assms(9), of has_buffer "[]"] assms(10) by fastforce
  then have "query_loop Q has_buffer ss p lqs bq [] = Some (Inr rs)" by (subst query_loop.simps) simp
  then show ?thesis using r by blast
qed

text \<open>Nothing in range: with nothing to draw from either, or with every draw rejected.\<close>

lemma sample_loop_empty:
  fixes Q :: "('s, ('k, 'v) Record, 'f, ('k, 'g) irs_Parameters, irs_LocalQuery, ('k, 'v, 'f, 'g, 'al) irs_LocalQueryBuffer option,
      ('k, 'v) Record Wrapped, ('k, 'v) Record) query_ops"
  assumes Q: "Q = irs_Query REJECTION A U data lower_bound upper_bound"
    and ok: "alias_ok A" "rng_ok U" and range: "irs_lower p0 \<le> irs_upper p0"
    and ss: "\<forall>s\<in>set ss. sinv s" and v: "view_wf v"
    and total: "0 < sum_list (weights_of REJECTION v p0 ss)" "sum_list (weights_of REJECTION v p0 ss) < size_max"
    and inv: "shared_out REJECTION A v p0 ss p lqs bq" and n: "0 < irs_sample_size p"
    and none: "\<forall>w\<in>set (view_list v @ concat (map data ss)). \<not> irs_in_range p0 w"
  shows "query_loop Q has_buffer ss p lqs bq [] = None"
proof (rule query_loop_diverges [where I = "\<lambda>p lqs bq. shared_out REJECTION A v p0 ss p lqs bq \<and> 0 < irs_sample_size p"])
  fix p1 :: "('k, 'g) irs_Parameters" and lqs1 and bq1 :: "('k, 'v, 'f, 'g, 'al) irs_LocalQueryBuffer option"
  assume I: "shared_out REJECTION A v p0 ss p1 lqs1 bq1 \<and> 0 < irs_sample_size p1"
  have none': "rec ` {w \<in> set (view_list v @ concat (map data ss)). irs_in_range p0 w} = {}" using none by blast
  obtain rs again p' lqs' bq' where r: "query_round Q has_buffer ss p1 lqs1 bq1 [] = Inr ([] @ rs, again, p', lqs', bq')" "set rs \<subseteq> {}"
      "again \<longleftrightarrow> length ([] @ rs) < irs_sample_size p1"
      "again \<longrightarrow> shared_out REJECTION A v p0 ss p' lqs' bq' \<and> irs_sample_size p' = irs_sample_size p1 - length ([] @ rs)"
    using sample_round [OF Q ok range ss v total conjunct1 [OF I], of has_buffer "[]", unfolded none'] by (elim exE conjE)
  have "rs = []" using r(2) by simp
  then show "\<exists>p' lqs' bq'. query_round Q has_buffer ss p1 lqs1 bq1 [] = Inr ([], True, p', lqs', bq') \<and>
      shared_out REJECTION A v p0 ss p' lqs' bq' \<and> 0 < irs_sample_size p'"
    using r I by (intro exI [of _ p'] exI [of _ lqs'] exI [of _ bq']) simp
qed (use inv n in simp)

lemma sample_none:
  fixes Q :: "('s, ('k, 'v) Record, 'f, ('k, 'g) irs_Parameters, irs_LocalQuery, ('k, 'v, 'f, 'g, 'al) irs_LocalQueryBuffer option,
      ('k, 'v) Record Wrapped, ('k, 'v) Record) query_ops"
  assumes Q: "Q = irs_Query REJECTION A U data lower_bound upper_bound"
    and total: "sum_list (weights_of REJECTION v p ss) = 0" and n: "0 < irs_sample_size p"
  shows "irs_distribute_query REJECTION A p (map (local_of p) ss) (Some (buffer_of REJECTION v p)) =
      Inr (p, map (local_of p) ss, Some (buffer_of REJECTION v p))"
    and "query_loop Q has_buffer ss p (map (local_of p) ss) (Some (buffer_of REJECTION v p)) [] = None"
proof -
  let ?B = "buffer_of REJECTION v p :: ('k, 'v, 'f, 'g, 'al) irs_LocalQueryBuffer"
  have sum: "buffer_share REJECTION ?B + sum_list (map irs_weight (map (local_of p) ss)) = 0"
    using total unfolding weights_of_def sum_list.Cons by (simp only: buffer_share_def buffer_of_def irs_LocalQueryBuffer.simps) auto
  have "fold (\<lambda>w t. sz_add t w) (map irs_weight (map (local_of p) ss)) (buffer_share REJECTION ?B) = 0"
    using fold_sz_add [of "buffer_share REJECTION ?B" "map irs_weight (map (local_of p) ss)", unfolded sum] size_max_gt by linarith
  moreover have "map (\<lambda>q. q\<lparr>irs_samples := 0\<rparr>) (map (local_of p) ss) = map (local_of p) ss" by (simp add: local_of_def)
  moreover have "irs_alias ?B = None" by (simp add: buffer_of_def)
  ultimately show dist: "irs_distribute_query REJECTION A p (map (local_of p) ss) (Some ?B) = Inr (p, map (local_of p) ss, Some ?B)"
    unfolding irs_distribute_query_def option.case Let_def buffer_share_def [symmetric] by simp
  have shards: "query_shards Q has_buffer (zip zs (map (local_of p) zs)) p = Inr (replicate (length zs) [], p)" for zs
    by (induction zs) (simp_all add: Q irs_Query_def irs_local_query_def local_of_def)
  have "q_local_buffer Q (Some ?B) p = Inr ([], p)" "\<not> q_early_abort Q"
    by (simp_all add: Q irs_Query_def irs_local_query_buffer_def buffer_of_def)
  then have "query_results Q has_buffer ss (map (local_of p) ss) (Some ?B) p = Inr (replicate (Suc (length ss)) [], p)"
    using shards [of ss] by (simp add: query_results_def del: map_map)
  moreover have "q_combine Q r p' out = Inr (irs_combine r out)" "q_repeat Q p' out l c = irs_repeat REJECTION A p' out l c" for r p' out l c
    by (simp_all add: Q irs_Query_def)
  ultimately have "query_round Q has_buffer ss p (map (local_of p) ss) (Some ?B) [] = Inr ([], True, p, map (local_of p) ss, Some ?B)"
    using n dist by (simp add: query_round_def irs_combine_def irs_repeat_def Let_def)
  then show "query_loop Q has_buffer ss p (map (local_of p) ss) (Some ?B) [] = None"
    by (intro query_loop_diverges [where I = "\<lambda>p' lqs bq. p' = p \<and> lqs = map (local_of p) ss \<and> bq = Some ?B"]) blast+
qed

end

interpretation mi_counted: counted_shard mi_data mi_get_lower_bound "mi_ready c" mi_get_upper_bound for c
proof
qed (auto simp: mi_ready_def intro: mi_lower_bound_ok)

section \<open>Properties\<close>

text \<open>
  C11. Range samples with and without rejection, over a buffer and in-memory trees that hold a record in range, for
  every alias table and every random generator that keep their promises. Without rejection, or when
  all records of the buffer lie in range, the query ends after one round with exactly as many records as
  asked for, each of them a record in range. With rejection, the default, it ends with no error: whenever it
  returns, after any number of rounds, its records lie in range and are at most as many as asked for.
\<close>

theorem irs_sample_exact:
  fixes ss :: "('k::{linorder,zero}, 'v::linorder) MemISAM list" and v :: "(('k, 'v) Record, 'f) BufferView"
  assumes "\<forall>s\<in>set ss. mi_ready c s" and "view_wf v" and "alias_ok A" and "rng_ok U" and "irs_lower p \<le> irs_upper p"
    and "irs_sample_size p < size_max" and "length (view_list v @ concat (map mi_data ss)) < size_max"
    and "\<exists>w\<in>set (view_list v @ concat (map mi_data ss)). irs_in_range p w"
  shows "\<exists>lqs bq p1 lqs1 bq1. mapE (\<lambda>s. irs_local_preproc mi_data mi_get_lower_bound mi_get_upper_bound s p) ss = Inr lqs \<and>
    irs_local_preproc_buffer REJECTION v p = Inr bq \<and> irs_distribute_query REJECTION A p lqs (Some bq) = Inr (p1, lqs1, bq1) \<and>
    ((REJECTION \<longrightarrow> (\<forall>w\<in>set (view_list v). irs_in_range p w)) \<longrightarrow>
      (\<exists>out. query_loop (irs_Query REJECTION A U mi_data mi_get_lower_bound mi_get_upper_bound) has_buffer ss p1 lqs1 bq1 [] = Some (Inr out) \<and>
         length out = irs_sample_size p \<and> set out \<subseteq> rec ` {w \<in> set (view_list v @ concat (map mi_data ss)). irs_in_range p w})) \<and>
    (\<forall>res. query_loop (irs_Query REJECTION A U mi_data mi_get_lower_bound mi_get_upper_bound) has_buffer ss p1 lqs1 bq1 [] = Some res \<longrightarrow>
      (\<exists>out. res = Inr out \<and> length out \<le> irs_sample_size p \<and>
         set out \<subseteq> rec ` {w \<in> set (view_list v @ concat (map mi_data ss)). irs_in_range p w}))"
proof -
  let ?L = "map (mi_counted.local_of p) ss" and ?B = "mi_counted.buffer_of REJECTION v p" and ?ws = "mi_counted.weights_of REJECTION v p ss"
  have "0 < length (filter (irs_in_range p) (view_list v @ concat (map mi_data ss)))"
    using assms(8) by (simp only: length_greater_0_conv filter_empty_conv) blast
  then have total: "0 < sum_list ?ws" "sum_list ?ws < size_max"
    using mi_counted.weights_sum [OF assms(2), where p = p and ss = ss and REJECTION = REJECTION] assms(7) by linarith+
  obtain p1 lqs1 bq1 where d: "irs_distribute_query REJECTION A p ?L (Some ?B) = Inr (p1, lqs1, bq1)"
      "irs_sample_size p1 = irs_sample_size p" "mi_counted.shared_out REJECTION A v p ss p1 lqs1 bq1"
    using mi_counted.share_out [OF assms(3,6) refl refl total, of ?L ?B] by blast
  show ?thesis
    using mi_counted.preprocs_ok [OF assms(5,1)] mi_counted.buffer_of_ok [OF assms(2), of REJECTION p] d
      mi_counted.sample_loop_exact [OF refl assms(3-5,1,2) total d(3), of has_buffer]
      mi_counted.sample_loop_sound [OF refl assms(3-5,1,2) total d(3), of has_buffer]
    by (intro exI [of _ ?L] exI [of _ ?B] exI [of _ p1] exI [of _ lqs1] exI [of _ bq1]) simp
qed

text \<open>
  C40. When a sample of at least one record is asked for, from a range whose lower end is not above its upper end and in which no
  record lies, the query never returns, with or without rejection: every round adds nothing,
  be it that nothing is drawn or that every draw from the buffer is rejected, and asks to be repeated.
\<close>

theorem irs_empty_range_never_returns:
  fixes ss :: "('k::{linorder,zero}, 'v::linorder) MemISAM list" and v :: "(('k, 'v) Record, 'f) BufferView"
  assumes "\<forall>s\<in>set ss. mi_ready c s" and "view_wf v" and "alias_ok A" and "rng_ok U" and "irs_lower p \<le> irs_upper p"
    and "0 < irs_sample_size p" and "irs_sample_size p < size_max" and "length (view_list v @ concat (map mi_data ss)) < size_max"
    and "\<forall>w\<in>set (view_list v @ concat (map mi_data ss)). \<not> irs_in_range p w"
  shows "\<exists>lqs bq p1 lqs1 bq1. mapE (\<lambda>s. irs_local_preproc mi_data mi_get_lower_bound mi_get_upper_bound s p) ss = Inr lqs \<and>
    irs_local_preproc_buffer REJECTION v p = Inr bq \<and> irs_distribute_query REJECTION A p lqs (Some bq) = Inr (p1, lqs1, bq1) \<and>
    query_loop (irs_Query REJECTION A U mi_data mi_get_lower_bound mi_get_upper_bound) has_buffer ss p1 lqs1 bq1 [] = None"
proof -
  let ?L = "map (mi_counted.local_of p) ss" and ?B = "mi_counted.buffer_of REJECTION v p" and ?ws = "mi_counted.weights_of REJECTION v p ss"
  note prep = mi_counted.preprocs_ok [OF assms(5,1)] mi_counted.buffer_of_ok [OF assms(2), of REJECTION p]
  show ?thesis
  proof (cases "sum_list ?ws = 0")
    case True
    show ?thesis using prep mi_counted.sample_none [OF refl True assms(6)] by blast
  next
    case False
    then have total: "0 < sum_list ?ws" "sum_list ?ws < size_max"
      using mi_counted.weights_sum(2) [OF assms(2), of REJECTION p ss] assms(8) by linarith+
    obtain p1 lqs1 bq1 where d: "irs_distribute_query REJECTION A p ?L (Some ?B) = Inr (p1, lqs1, bq1)"
        "irs_sample_size p1 = irs_sample_size p" "mi_counted.shared_out REJECTION A v p ss p1 lqs1 bq1"
      using mi_counted.share_out [OF assms(3,7) refl refl total, of ?L ?B] by blast
    have "0 < irs_sample_size p1" using d(2) assms(6) by simp
    from mi_counted.sample_loop_empty [OF refl assms(3-5,1,2) total d(3) this assms(9), of has_buffer]
    show ?thesis using prep d(1) by blast
  qed
qed

text \<open>
  A round that falls short is repeated for the missing records, but the next comparison counts
  all records so far against the missing ones only: when the first round has found at least half of the
  sample, the query stops after the second round, whatever it adds, even with fewer records than asked for.
\<close>

theorem irs_stops_short:
  assumes "length output < irs_sample_size p" and "irs_sample_size p \<le> 2 * length output"
    and "irs_repeat REJECTION A p output lqs bq = Inr (again, p', lqs', bq')" and "irs_sample_size p'' = irs_sample_size p'"
  shows "again \<and> irs_sample_size p' = irs_sample_size p - length output \<and>
    irs_repeat REJECTION A p'' (output @ extra) lqs' bq' = Inr (False, p'', lqs', bq')"
proof -
  have size: "irs_sample_size p2 = irs_sample_size p1" if "irs_distribute_query REJECTION A p1 l b = Inr (p2, l2, b2)" for p1 p2 l b l2 b2
    using that by (auto simp: irs_distribute_query_def Let_def bindE_eq_Inr assertE_eq_Inr split: option.splits if_splits)
  have "again" "irs_sample_size p' = irs_sample_size p - length output"
    using assms(1,3) by (auto simp: irs_repeat_def Let_def bindE_eq_Inr dest: size)
  then show ?thesis using assms(2,4) by (simp add: irs_repeat_def)
qed

text \<open>An alias table that always draws the first index of positive weight.\<close>

definition demo_alias :: "(rat, rat list, unit) alias_ops" where
  "demo_alias = \<lparr>al_round = (\<lambda>x. x), al_new = (\<lambda>ws. ws), al_get = (\<lambda>ws g. (length (takeWhile (\<lambda>w. \<not> 0 < w) ws), g))\<rparr>"

lemma demo_alias_ok: "alias_ok demo_alias"
proof -
  have "length (takeWhile (\<lambda>w. \<not> 0 < w) ws) < length ws \<and> 0 < ws ! length (takeWhile (\<lambda>w. \<not> 0 < w) ws)"
    if "\<exists>w\<in>set ws. 0 < w" for ws :: "rat list"
    using that by (induction ws) auto
  then show ?thesis using rounding_exact by (auto simp: alias_ok_def demo_alias_def)
qed

theorem irs_sample_exact_witness:
  "\<exists>p1 lqs1 bq1 out. query_loop (irs_Query True demo_alias first_rng mi_data mi_get_lower_bound mi_get_upper_bound) True [demo_mi]
      (p1 :: (nat, unit) irs_Parameters) lqs1 (bq1 :: (nat, nat, unit, unit, rat list) irs_LocalQueryBuffer option) [] = Some (Inr out) \<and>
    length out = 3 \<and> set out \<subseteq> {Record 10 1, Record 20 1, Record 30 1, Record 40 1, Record 50 1}"
proof -
  let ?p = "\<lparr>irs_lower = 10, irs_upper = 50, irs_sample_size = 3, irs_rng = ()\<rparr> :: (nat, unit) irs_Parameters"
  have ws: "rec ` {w \<in> set (view_list demo_mem_view @ concat (map mi_data [demo_mi])). irs_in_range ?p w} \<subseteq>
      {Record 10 1, Record 20 1, Record 30 1, Record 40 1, Record 50 1}"
    by (auto simp: demo_mem_view_ok demo_mi_def irs_in_range_def)
  have rd: "\<forall>s\<in>set [demo_mi]. mi_ready demo_mi_cfg s" by (simp add: demo_mi_ready)
  have all: "True \<longrightarrow> (\<forall>w\<in>set (view_list demo_mem_view). irs_in_range ?p w)" by (simp add: demo_mem_view_ok irs_in_range_def)
  have prem: "irs_lower ?p \<le> irs_upper ?p" "irs_sample_size ?p < size_max"
    "length (view_list demo_mem_view @ concat (map mi_data [demo_mi])) < size_max"
    "\<exists>w\<in>set (view_list demo_mem_view @ concat (map mi_data [demo_mi])). irs_in_range ?p w"
    by (simp_all add: demo_mem_view_ok demo_mi_def irs_in_range_def size_max_def)
  note exact = irs_sample_exact [OF rd demo_mem_view_ok(1) demo_alias_ok first_rng_ok prem, of True True]
  obtain p1 lqs1 and bq1 :: "(nat, nat, unit, unit, rat list) irs_LocalQueryBuffer option" and out where
    "query_loop (irs_Query True demo_alias first_rng mi_data mi_get_lower_bound mi_get_upper_bound) True [demo_mi] p1 lqs1 bq1 [] = Some (Inr out)"
    "length out = irs_sample_size ?p" "set out \<subseteq> rec ` {w \<in> set (view_list demo_mem_view @ concat (map mi_data [demo_mi])). irs_in_range ?p w}"
    using exact all by (elim exE conjE) blast
  then show ?thesis using ws by (intro exI [of _ p1] exI [of _ lqs1] exI [of _ bq1] exI [of _ out]) auto
qed

theorem irs_empty_range_never_returns_witness:
  "\<exists>lqs bq p1 lqs1 bq1. irs_local_preproc_buffer True demo_mem_view \<lparr>irs_lower = 21, irs_upper = 29, irs_sample_size = 3, irs_rng = ()\<rparr> = Inr bq \<and>
    irs_distribute_query True demo_alias \<lparr>irs_lower = 21, irs_upper = 29, irs_sample_size = 3, irs_rng = ()\<rparr> lqs (Some bq) = Inr (p1, lqs1, bq1) \<and>
    query_loop (irs_Query True demo_alias first_rng mi_data mi_get_lower_bound mi_get_upper_bound) True [demo_mi]
      p1 lqs1 (bq1 :: (nat, nat, unit, unit, rat list) irs_LocalQueryBuffer option) [] = None"
proof -
  let ?p = "\<lparr>irs_lower = 21, irs_upper = 29, irs_sample_size = 3, irs_rng = ()\<rparr> :: (nat, unit) irs_Parameters"
  have rd: "\<forall>s\<in>set [demo_mi]. mi_ready demo_mi_cfg s" by (simp add: demo_mi_ready)
  have prem: "irs_lower ?p \<le> irs_upper ?p" "0 < irs_sample_size ?p" "irs_sample_size ?p < size_max"
    "length (view_list demo_mem_view @ concat (map mi_data [demo_mi])) < size_max"
    "\<forall>w\<in>set (view_list demo_mem_view @ concat (map mi_data [demo_mi])). \<not> irs_in_range ?p w"
    by (simp_all add: demo_mem_view_ok demo_mi_def irs_in_range_def size_max_def)
  from irs_empty_range_never_returns [OF rd demo_mem_view_ok(1) demo_alias_ok first_rng_ok prem, of True True] show ?thesis by blast
qed

theorem irs_stops_short_witness:
  "irs_repeat False demo_alias \<lparr>irs_lower = 0, irs_upper = 9 :: nat, irs_sample_size = 1, irs_rng = ()\<rparr> [5, 6 :: nat]
     [\<lparr>irs_lower_idx = 0, irs_upper_idx = 4, irs_weight = 4, irs_samples = 3, irs_global_samples = 3\<rparr>] (None :: (nat, nat, unit, unit, rat list) irs_LocalQueryBuffer option) =
   Inr (False, \<lparr>irs_lower = 0, irs_upper = 9, irs_sample_size = 1, irs_rng = ()\<rparr>,
     [\<lparr>irs_lower_idx = 0, irs_upper_idx = 4, irs_weight = 4, irs_samples = 3, irs_global_samples = 3\<rparr>], None)"
proof -
  let ?q = "\<lparr>irs_lower_idx = 0, irs_upper_idx = 4, irs_weight = 4, irs_samples = 3, irs_global_samples = 3\<rparr>"
  have "irs_repeat False demo_alias \<lparr>irs_lower = 0, irs_upper = 9 :: nat, irs_sample_size = 3, irs_rng = ()\<rparr> [5, 6 :: nat] [?q]
      (None :: (nat, nat, unit, unit, rat list) irs_LocalQueryBuffer option) =
    Inr (True, \<lparr>irs_lower = 0, irs_upper = 9, irs_sample_size = 1, irs_rng = ()\<rparr>, [?q], None)"
    by (simp add: irs_repeat_def irs_distribute_query_def Let_def)
  from irs_stops_short [OF _ _ this, of "\<lparr>irs_lower = 0, irs_upper = 9, irs_sample_size = 1, irs_rng = ()\<rparr>" "[]"] show ?thesis by simp
qed

end
