(* ===== verification/DE_KeyedMerge.thy ===== *)
theory DE_KeyedMerge
  imports DE_Merge
begin

text \<open>
  Sorted merges for record types whose comparisons go by a key: weighted records (the weight takes
  no part), string records (the value takes no part). What the merges of \<^verbatim>\<open>include/util/SortedMerge.h\<close>, and
  the copies of their loops in the trie shards, guarantee there is stated on the keyed entries, that is,
  every record replaced by its key.
\<close>

section \<open>Keyed entries\<close>

definition keyed :: "('r \<Rightarrow> 'k) \<Rightarrow> 'r Wrapped list \<Rightarrow> 'k Wrapped list" where
  "keyed kf ws = map (\<lambda>w. \<lparr>header = header w, rec = kf (rec w)\<rparr>) ws"

lemma keyed_simps [simp]:
  "keyed kf [] = []"
  "keyed kf (w # ws) = \<lparr>header = header w, rec = kf (rec w)\<rparr> # keyed kf ws"
  "keyed kf (xs @ ys) = keyed kf xs @ keyed kf ys"
  "length (keyed kf ws) = length ws"
  by (simp_all add: keyed_def)

lemma keyed_flags [simp]:
  "is_tombstone \<lparr>header = header w, rec = x\<rparr> = is_tombstone w"
  "is_deleted \<lparr>header = header w, rec = x\<rparr> = is_deleted w"
  "is_visible \<lparr>header = header w, rec = x\<rparr> = is_visible w"
  by (simp_all add: is_tombstone_def is_deleted_def is_visible_def)

lemma keyed_policy [simp]: "policy_ok (keyed kf ws) = policy_ok ws"
  by (simp add: policy_ok_def keyed_def)

lemma keyed_sorted [simp]: "rec_sorted (keyed kf ws) = sorted_by kf ws"
  by (simp add: keyed_def sorted_wrt_map)

lemma keyed_filter: "filter (\<lambda>w. \<not> is_deleted w) (keyed kf ws) = keyed kf (filter (\<lambda>w. \<not> is_deleted w) ws)"
  by (simp add: keyed_def filter_map comp_def)

lemma keyed_mset: "mset (keyed kf ws) = image_mset (\<lambda>w. \<lparr>header = header w, rec = kf (rec w)\<rparr>) (mset ws)"
  by (simp add: keyed_def)

lemma net_keyed_mask [simp]: "net (keyed kf (map mask_header ws)) = net (keyed kf ws)"
  by (induction ws) (auto simp: net_Cons fun_eq_iff wt_def)

text \<open>The entries \<open>ws\<close> of a shard built from \<open>src\<close>, with its tombstone count.\<close>

definition keyed_data_ok :: "('r \<Rightarrow> 'k::linorder) \<Rightarrow> 'r Wrapped list \<Rightarrow> 'r Wrapped list \<Rightarrow> nat \<Rightarrow> bool" where
  "keyed_data_ok kf src ws ts \<longleftrightarrow>
     sorted_by kf ws \<and> net (keyed kf ws) = net (keyed kf src) \<and> (\<forall>w\<in>set ws. \<not> is_deleted w) \<and>
     ts = length (filter is_tombstone ws) \<and> length ws \<le> length src \<and> rec ` set ws \<subseteq> rec ` set src"

section \<open>What survives the loops\<close>

lemma keyed_after_cancel:
  assumes src: "mset src = mset outs + mset (map fst ps) + mset (map snd ps)"
    and ps: "cancelled_pairs_by eq ps" and pol: "policy_ok src"
    and ord: "ordered_by lt eq ok kf" and ok: "\<forall>w\<in>set src. ok (rec w)"
  shows "net (keyed kf (filter (\<lambda>w. \<not> is_deleted w) outs)) = net (keyed kf src)"
    and "length outs \<le> length src" and "set outs \<subseteq> set src"
proof -
  let ?g = "\<lambda>w. \<lparr>header = header w, rec = kf (rec w)\<rparr>"
  show len: "length outs \<le> length src" using arg_cong [OF src, of size] by simp
  have sets: "set src = set outs \<union> fst ` set ps \<union> snd ` set ps" using arg_cong [OF src, of set_mset] by simp
  then show "set outs \<subseteq> set src" by blast
  have m: "mset (keyed kf src) = mset (keyed kf outs) + mset (map fst (map (map_prod ?g ?g) ps)) + mset (map snd (map (map_prod ?g ?g) ps))"
    unfolding keyed_mset src by (simp add: image_mset.compositionality comp_def)
  have "cancelled_pairs (map (map_prod ?g ?g) ps)"
    unfolding cancelled_pairs_by_def
  proof (intro ballI, clarsimp)
    fix w t assume wt: "(w, t) \<in> set ps"
    then have "ok (rec w)" "ok (rec t)" using sets ok by force+
    then show "cancels (?g w) (?g t)"
      using ps wt ordered_byD(2) [OF ord] by (auto simp: cancelled_pairs_by_def cancels_by_def)
  qed
  from net_after_cancel [OF m this] pol
  show "net (keyed kf (filter (\<lambda>w. \<not> is_deleted w) outs)) = net (keyed kf src)" by (simp add: keyed_filter)
qed

lemma sort_sorted_by:
  assumes "ordered_by lt eq ok kf" and "sort_ok (Wrapped_less_by lt eq) (\<lambda>w. ok (rec w)) srt" and "\<forall>w\<in>set ws. ok (rec w)"
  shows "mset (srt ws) = mset ws" and "sorted_by kf (srt ws)"
proof -
  show m: "mset (srt ws) = mset ws" using assms(2,3) by (simp add: sort_ok_def)
  have "sorted_wrt (\<lambda>a b. \<not> Wrapped_less_by lt eq b a) (srt ws)" using assms(2,3) by (simp add: sort_ok_def)
  then show "sorted_by kf (srt ws)"
  proof (rule sorted_wrt_mono_rel [rotated])
    fix a b assume "a \<in> set (srt ws)" "b \<in> set (srt ws)" "\<not> Wrapped_less_by lt eq b a"
    moreover have "set (srt ws) = set ws" using arg_cong [OF m, of set_mset] by simp
    ultimately show "kf (rec a) \<le> kf (rec b)"
      using assms(3) ordered_byD(1) [OF assms(1), of "rec b" "rec a"] by (auto simp: Wrapped_less_by_def not_less)
  qed
qed

lemma view_loop_ok:
  assumes "ordered_by lt eq ok kf" and "sort_ok (Wrapped_less_by lt eq) (\<lambda>w. ok (rec w)) srt"
    and "\<forall>w\<in>set src. ok (rec w)" and "policy_ok src"
  shows "\<exists>ws. bufferview_loop_by eq emit (srt src) out = fold emit ws out \<and>
    keyed_data_ok kf src ws (length (filter is_tombstone ws))"
proof -
  note s = sort_sorted_by [OF assms(1-3)]
  obtain outs ps where *: "bufferview_loop_by eq emit (srt src) out =
      fold emit (map mask_header (filter (\<lambda>w. \<not> is_deleted w) outs)) out"
      "mset (srt src) = mset outs + mset (map fst ps) + mset (map snd ps)" "cancelled_pairs_by eq ps"
      "sorted_by kf outs"
    using bufferview_loop_by_spec [of eq emit "srt src" out kf] s(2) by blast
  note c = keyed_after_cancel [OF *(2) [unfolded s(1)] *(3) assms(4,1,3)]
  let ?outs = "filter (\<lambda>w. \<not> is_deleted w) outs"
  have "rec ` set (map mask_header ?outs) \<subseteq> rec ` set src" using c(3) by (auto simp: image_image)
  moreover have "length (map mask_header ?outs) \<le> length src"
    using le_trans [OF length_filter_le [of "\<lambda>w. \<not> is_deleted w" outs] c(2)] by simp
  moreover have "sorted_by kf (map mask_header ?outs)" using *(4) by (simp add: sorted_wrt_map sorted_wrt_filter)
  ultimately have "keyed_data_ok kf src (map mask_header ?outs) (length (filter is_tombstone (map mask_header ?outs)))"
    using c(1) unfolding keyed_data_ok_def by simp
  with *(1) show ?thesis by blast
qed

lemma from_view_by_ok:
  assumes "view_wf v" and "ordered_by lt eq ok kf" and "sort_ok (Wrapped_less_by lt eq) (\<lambda>w. ok (rec w)) srt"
    and "\<forall>w\<in>set (view_list v). ok (rec w)" and "policy_ok (view_list v)"
  shows "\<exists>info ws bf'. sorted_array_from_bufferview_by srt eq B v bf = Inr (info, ws, bf') \<and>
    record_count info = length ws \<and> keyed_data_ok kf (view_list v) ws (tombstone_count info)"
proof -
  obtain ws where ws: "bufferview_loop_by eq (emit_record B) (srt (view_list v)) (merge_start bf) = fold (emit_record B) ws (merge_start bf)"
    "keyed_data_ok kf (view_list v) ws (length (filter is_tombstone ws))"
    using view_loop_ok [OF assms(2-5), of "emit_record B" "merge_start bf"] by blast
  have "sorted_array_from_bufferview_by srt eq B v bf = Inr (fold (emit_record B) ws (merge_start bf))"
    unfolding sorted_array_from_bufferview_by_def copy_to_buffer_ok [OF assms(1)] bindE_simps ws(1) ..
  note r = this [unfolded fold_emit_start]
  show ?thesis by (intro exI conjI, rule r) (use ws(2) in simp_all)
qed

lemma merge_loop_keyed:
  assumes pick: "min_pick (\<lambda>e. wkey_by kf (fst e)) pick" and ord: "ordered_by lt eq ok kf"
    and live: "\<forall>c\<in>set cs. cursor_live c" and sorted: "\<forall>c\<in>set cs. sorted_by kf (rest c)"
    and ok: "\<forall>w\<in>set (concat (map rest cs)). ok (rec w)" and pol: "policy_ok (concat (map rest cs))"
  shows "\<exists>q outs. push_all 0 id cs [] = Inr q \<and> merge_loop_by eq id pick emit cs q s = Inr (fold emit outs s) \<and>
    keyed_data_ok kf (concat (map rest cs)) (filter (\<lambda>w. \<not> is_deleted w) outs) (length (filter is_tombstone (filter (\<lambda>w. \<not> is_deleted w) outs)))"
proof -
  obtain q where q: "push_all 0 id cs [] = Inr q" "mset q = heads (map rest cs)"
    using push_all_live [OF live, of 0 "[]"] by auto
  have "merge_inv id cs q" using live q(2) by (simp add: merge_inv_def cursor_live_def map_prod.id)
  from merge_loop_by_spec [OF pick this, of eq emit s] obtain outs ps where
      *: "merge_loop_by eq id pick emit cs q s = Inr (fold emit outs s)"
      "mset (concat (map rest cs)) = mset outs + mset (map fst ps) + mset (map snd ps)" "cancelled_pairs_by eq ps" "sorted_by kf outs"
    using sorted unfolding merge_result_by_def by blast
  note c = keyed_after_cancel [OF *(2,3) pol ord ok]
  let ?outs = "filter (\<lambda>w. \<not> is_deleted w) outs"
  have "length ?outs \<le> length (concat (map rest cs))"
    by (rule le_trans [OF length_filter_le c(2)])
  moreover have "sorted_by kf ?outs" using *(4) by (simp add: sorted_wrt_filter)
  moreover have "rec ` set ?outs \<subseteq> rec ` set (concat (map rest cs))" using c(3) by (intro image_mono) (auto simp del: set_concat)
  ultimately have "keyed_data_ok kf (concat (map rest cs)) ?outs (length (filter is_tombstone ?outs))"
    using c(1) unfolding keyed_data_ok_def by (simp del: length_concat set_concat)
  with q(1) *(1) show ?thesis by blast
qed

lemma merge_by_ok:
  assumes "min_pick (\<lambda>e. wkey_by kf (fst e)) pick" and "ordered_by lt eq ok kf"
    and "\<forall>c\<in>set cs. cursor_live c" and "\<forall>c\<in>set cs. sorted_by kf (rest c)"
    and "\<forall>w\<in>set (concat (map rest cs)). ok (rec w)" and "policy_ok (concat (map rest cs))"
  shows "\<exists>info ws bf'. sorted_array_merge_by eq pick B cs bf = Inr (info, ws, bf') \<and>
    record_count info = length ws \<and> keyed_data_ok kf (concat (map rest cs)) ws (tombstone_count info)"
proof -
  obtain q outs where o: "push_all 0 id cs [] = Inr q"
    "merge_loop_by eq id pick (merge_emit B) cs q (merge_start bf) = Inr (fold (merge_emit B) outs (merge_start bf))"
    "keyed_data_ok kf (concat (map rest cs)) (filter (\<lambda>w. \<not> is_deleted w) outs) (length (filter is_tombstone (filter (\<lambda>w. \<not> is_deleted w) outs)))"
    using merge_loop_keyed [OF assms, of "merge_emit B" "merge_start bf"] by blast
  have "sorted_array_merge_by eq pick B cs bf = Inr (fold (merge_emit B) outs (merge_start bf))"
    unfolding sorted_array_merge_by_def o(1) bindE_simps by (rule o(2))
  note r = this [unfolded fold_merge_emit fold_emit_start]
  show ?thesis by (intro exI conjI, rule r) (use o(3) in simp_all)
qed

end
