(* ===== verification/DE_Alias.thy ===== *)
theory DE_Alias
  imports DE_KeyedMerge DE_SortedShard DE_Doubles
begin

text \<open>
  The shard over Walker's alias structure (\<^verbatim>\<open>include/shard/Alias.h\<close>): a sorted array of weighted
  records, the sum of their weights, an alias structure over the normalised weights (third-party, a
  parameter of the model) and a filter. Weights are machine words, so that the sum wraps; a normalised
  weight is a rounded quotient (\<open>DE_Doubles\<close>), or what a division of doubles by zero yields.
\<close>

section \<open>The shard\<close>

datatype dbl = Finite rat | Infinite | NaN

definition dbl_div :: "(rat \<Rightarrow> rat) \<Rightarrow> nat \<Rightarrow> nat \<Rightarrow> dbl" where
  "dbl_div rnd a b = (if b \<noteq> 0 then Finite (dbl_quot rnd a b) else if a = 0 then NaN else Infinite)"

record ('k, 'v, 'w, 'f, 'al) AliasShard =
  as_data :: "('k, 'v, 'w) WeightedRecord Wrapped list"
  as_tombstone_cnt :: nat
  as_total_weight :: 'w
  as_alias :: "'al option"
  as_bf :: "'f option"

definition as_reccnt :: "('k, 'v, 'n::len word, 'f, 'al) AliasShard \<Rightarrow> nat" where
  "as_reccnt s = length (as_data s)"

text \<open>\<^verbatim>\<open>m_total_weight\<close> is summed up in the type of the weights.\<close>

definition total_weight_of :: "'n::len word list \<Rightarrow> 'n word" where
  "total_weight_of weights = fold (\<lambda>w t. t + w) weights 0"

definition build_alias_structure ::
    "(dbl, 'al, 'g) alias_ops \<Rightarrow> 'n::len word list \<Rightarrow> 'n word \<Rightarrow> 'al" where
  "build_alias_structure A weights tot = al_new A (map (\<lambda>w. dbl_div (al_round A) (unat w) (unat tot)) weights)"

definition alias_finish ::
    "(dbl, 'al, 'g) alias_ops \<Rightarrow> (('k, 'v, 'n::len word) WeightedRecord, 'f) merge_out \<Rightarrow> ('k, 'v, 'n word, 'f, 'al) AliasShard" where
  "alias_finish A out =
     (case out of (info, ws, bf) \<Rightarrow>
      let weights = map (\<lambda>w. weight (rec w)) ws; tot = total_weight_of weights in
      if record_count info > 0
      then \<lparr>as_data = ws, as_tombstone_cnt = tombstone_count info, as_total_weight = tot,
             as_alias = Some (build_alias_structure A weights tot), as_bf = bf\<rparr>
      else \<lparr>as_data = ws, as_tombstone_cnt = tombstone_count info, as_total_weight = 0, as_alias = None, as_bf = bf\<rparr>)"

definition alias_of_view ::
    "(dbl, 'al, 'g) alias_ops \<Rightarrow> (('k, 'v, 'n::len word) WeightedRecord Wrapped list \<Rightarrow> ('k, 'v, 'n word) WeightedRecord Wrapped list) \<Rightarrow>
     (nat \<Rightarrow> 'f) \<Rightarrow> ('f, ('k, 'v, 'n word) WeightedRecord) bloom_ops \<Rightarrow> (('k, 'v, 'n word) WeightedRecord, 'b) BufferView \<Rightarrow>
     ('k, 'v, 'n word, 'f, 'al) AliasShard res" where
  "alias_of_view A srt new B buffer =
     bindE (sorted_array_from_bufferview_by srt WeightedRecord_eq B buffer (Some (new (view_tombstone_count buffer))))
       (\<lambda>out. Inr (alias_finish A out))"

definition alias_of_shards ::
    "(dbl, 'al, 'g) alias_ops \<Rightarrow> ((('k, 'v, 'n::len word) WeightedRecord Wrapped \<times> nat) list \<Rightarrow> nat) \<Rightarrow>
     (nat \<Rightarrow> 'f) \<Rightarrow> ('f, ('k, 'v, 'n word) WeightedRecord) bloom_ops \<Rightarrow> ('k, 'v, 'n word, 'f, 'al) AliasShard option list \<Rightarrow>
     ('k, 'v, 'n word, 'f, 'al) AliasShard res" where
  "alias_of_shards A pick new B shards =
     (case build_cursor_vec as_data as_reccnt as_tombstone_cnt shards of (cursors, _, tscnt) \<Rightarrow>
      bindE (sorted_array_merge_by WeightedRecord_eq pick B cursors (Some (new tscnt))) (\<lambda>out. Inr (alias_finish A out)))"

text \<open>
  The search starts with the last position as upper end, which wraps in an empty shard. (Positions are far
  below \<open>2 ^ 63\<close>, so that the sum in \<open>mid\<close> does not wrap.)
\<close>

function as_bound_loop :: "('k::linorder, 'v, 'w) WeightedRecord Wrapped list \<Rightarrow> 'k \<Rightarrow> nat \<Rightarrow> nat \<Rightarrow> nat res" where
  "as_bound_loop ws k lo hi =
     (if lo < hi then
        let mid = (lo + hi) div 2 in
        bindE (vec_get ws mid) (\<lambda>w. if k > wkey (rec w) then as_bound_loop ws k (mid + 1) hi else as_bound_loop ws k lo mid)
      else Inr lo)"
  by pat_completeness auto
termination
  by (relation "measure (\<lambda>(ws, k, lo, hi). hi - lo)") auto

definition as_get_lower_bound :: "('k::linorder, 'v, 'n::len word, 'f, 'al) AliasShard \<Rightarrow> 'k \<Rightarrow> nat res" where
  "as_get_lower_bound s k = as_bound_loop (as_data s) k 0 (sz_sub (as_reccnt s) 1)"

text \<open>The scan of a point lookup, which runs in a shard that has records.\<close>

function as_scan :: "('k::linorder, 'v::linorder, 'w) WeightedRecord Wrapped list \<Rightarrow> ('k, 'v, 'w) WeightedRecord \<Rightarrow> nat \<Rightarrow> nat" where
  "as_scan ws r idx = (if idx < length ws - 1 \<and> WeightedRecord_less (rec (ws ! idx)) r then as_scan ws r (Suc idx) else idx)"
  by pat_completeness auto
termination
  by (relation "measure (\<lambda>(ws, r, idx). length ws - idx)") auto

declare as_bound_loop.simps [simp del] as_scan.simps [simp del]

definition as_point_lookup ::
    "('f, ('k::linorder, 'v::linorder, 'n::len word) WeightedRecord) bloom_ops \<Rightarrow> ('k, 'v, 'n word, 'f, 'al) AliasShard \<Rightarrow>
     ('k, 'v, 'n word) WeightedRecord \<Rightarrow> bool \<Rightarrow> ('k, 'v, 'n word) WeightedRecord Wrapped option res" where
  "as_point_lookup B s r use_filter =
     bindE (if use_filter then bindE (deref (as_bf s)) (\<lambda>f. Inr (bf_lookup B f r)) else Inr True) (\<lambda>found.
     if \<not> found then Inr None
     else bindE (as_get_lower_bound s (wkey r)) (\<lambda>idx.
       if idx \<ge> as_reccnt s then Inr None
       else let w = as_data s ! as_scan (as_data s) r idx in
         Inr (if WeightedRecord_eq (rec w) r then Some w else None)))"

definition as_get_record_at :: "('k, 'v, 'n::len word, 'f, 'al) AliasShard \<Rightarrow> nat \<Rightarrow> ('k, 'v, 'n word) WeightedRecord Wrapped option" where
  "as_get_record_at s idx = (if idx \<ge> as_reccnt s then None else Some (as_data s ! idx))"

definition get_weighted_sample :: "(dbl, 'al, 'g) alias_ops \<Rightarrow> ('k, 'v, 'n::len word, 'f, 'al) AliasShard \<Rightarrow> 'g \<Rightarrow> (nat \<times> 'g) res" where
  "get_weighted_sample A s g = bindE (deref (as_alias s)) (\<lambda>al. Inr (al_get A al g))"

section \<open>Searches\<close>

abbreviation kv :: "('k, 'v, 'w) WeightedRecord \<Rightarrow> 'k \<times> 'v" where
  "kv r \<equiv> (wkey r, wvalue r)"

lemma kv_sorted: "sorted_by kv ws \<Longrightarrow> sorted_wrt (\<lambda>a b. wkey (rec a) \<le> wkey (rec b)) ws"
  by (erule sorted_wrt_mono_rel [rotated]) (auto simp: less_eq_prod_def)

text \<open>The binary search finds the first key that is not smaller, but never goes past the last record.\<close>

lemma as_bound_loop_ok:
  assumes "sorted_wrt (\<lambda>a b. wkey (rec a) \<le> wkey (rec b)) ws" and "hi < length ws" and "lo \<le> hi"
    and "\<forall>j<lo. wkey (rec (ws ! j)) < k" and "\<forall>j. hi \<le> j \<longrightarrow> j < length ws - 1 \<longrightarrow> \<not> wkey (rec (ws ! j)) < k"
  shows "\<exists>i. as_bound_loop ws k lo hi = Inr i \<and> i < length ws \<and> (\<forall>j<i. wkey (rec (ws ! j)) < k) \<and>
    (i < length ws - 1 \<longrightarrow> \<not> wkey (rec (ws ! i)) < k)"
  using assms
proof (induction ws k lo hi rule: as_bound_loop.induct)
  case (1 ws k lo hi)
  show ?case
  proof (cases "lo < hi")
    case True
    define mid where "mid = (lo + hi) div 2"
    have mid: "lo \<le> mid" "mid < hi" "mid < length ws" using True "1.prems"(2) by (simp_all add: mid_def)
    have mono: "wkey (rec (ws ! i)) \<le> wkey (rec (ws ! j))" if "i \<le> j" "j < length ws" for i j
      using that "1.prems"(1) by (cases "i = j") (auto simp: sorted_wrt_iff_nth_less)
    have v: "vec_get ws mid = Inr (ws ! mid)" using mid(3) by (simp add: vec_get_def)
    show ?thesis
    proof (cases "k > wkey (rec (ws ! mid))")
      case lt: True
      have "\<forall>j<mid + 1. wkey (rec (ws ! j)) < k"
        using mono [OF _ mid(3)] lt by (auto simp: less_Suc_eq_le intro: le_less_trans)
      from "1.IH"(1) [OF True mid_def lt "1.prems"(1,2) _ this "1.prems"(5)] mid(2) show ?thesis
        using True lt v by (subst as_bound_loop.simps) (simp add: Let_def flip: mid_def)
    next
      case ge: False
      have "\<forall>j. mid \<le> j \<longrightarrow> j < length ws - 1 \<longrightarrow> \<not> wkey (rec (ws ! j)) < k"
      proof (intro allI impI)
        fix j assume "mid \<le> j" "j < length ws - 1"
        then have "wkey (rec (ws ! mid)) \<le> wkey (rec (ws ! j))" by (intro mono) simp_all
        then show "\<not> wkey (rec (ws ! j)) < k" using ge by simp
      qed
      from "1.IH"(2) [OF True mid_def ge "1.prems"(1) mid(3,1) "1.prems"(4) this] show ?thesis
        using True ge v by (subst as_bound_loop.simps) (simp add: Let_def flip: mid_def)
    qed
  next
    case False
    then have "lo = hi" using "1.prems"(3) by simp
    then show ?thesis using "1.prems"(2,4,5) by (subst as_bound_loop.simps) auto
  qed
qed

lemma as_scan_ok:
  assumes "idx < length ws" and "\<forall>j<idx. WeightedRecord_less (rec (ws ! j)) r"
  shows "\<exists>i. as_scan ws r idx = i \<and> i < length ws \<and> (\<forall>j<i. WeightedRecord_less (rec (ws ! j)) r) \<and>
    (i = length ws - 1 \<or> \<not> WeightedRecord_less (rec (ws ! i)) r)"
  using assms
proof (induction ws r idx rule: as_scan.induct)
  case (1 ws r idx)
  show ?case
  proof (cases "idx < length ws - 1 \<and> WeightedRecord_less (rec (ws ! idx)) r")
    case True
    then have "\<forall>j<Suc idx. WeightedRecord_less (rec (ws ! j)) r" using "1.prems"(2) by (simp add: less_Suc_eq)
    with "1.IH" [OF True] True show ?thesis by (subst as_scan.simps) simp
  next
    case False
    then have "idx = length ws - 1 \<or> \<not> WeightedRecord_less (rec (ws ! idx)) r" using "1.prems"(1) by linarith
    with False "1.prems" show ?thesis by (subst as_scan.simps) auto
  qed
qed

lemma find_at:
  assumes "sorted_by kv ws" and "i < length ws" and "\<forall>j<i. WeightedRecord_less (rec (ws ! j)) r"
    and "i = length ws - 1 \<or> \<not> WeightedRecord_less (rec (ws ! i)) r"
  shows "List.find (\<lambda>w. WeightedRecord_eq (rec w) r) ws = (if WeightedRecord_eq (rec (ws ! i)) r then Some (ws ! i) else None)"
proof -
  note conv = ordered_byD [OF WeightedRecord_ordered TrueI TrueI]
  have before: "\<not> WeightedRecord_eq (rec (ws ! j)) r" if "j < i" for j using assms(3) that by (simp add: conv less_le)
  show ?thesis
  proof (cases "WeightedRecord_eq (rec (ws ! i)) r")
    case True
    then show ?thesis unfolding if_P [OF True] find_Some_iff using assms(2) before by blast
  next
    case False
    have "\<not> WeightedRecord_eq (rec (ws ! j)) r" if j: "j < length ws" for j
    proof (cases "i < j")
      case True
      then have "kv (rec (ws ! i)) \<le> kv (rec (ws ! j))" using assms(1) j unfolding sorted_wrt_iff_nth_less by blast
      moreover have "\<not> WeightedRecord_less (rec (ws ! i)) r" using True j assms(4) by auto
      then have "kv r < kv (rec (ws ! i))" using False unfolding conv by (simp only: not_less_iff_gr_or_eq) auto
      ultimately show ?thesis unfolding conv by auto
    qed (use before False in \<open>auto simp: not_less_iff_gr_or_eq\<close>)
    then show ?thesis unfolding if_not_P [OF False] find_None_iff by (auto simp: in_set_conv_nth)
  qed
qed

lemma as_point_lookup_ok:
  assumes "sorted_by kv (as_data s)" and "as_data s \<noteq> []"
  shows "as_point_lookup B s r False = Inr (List.find (\<lambda>w. WeightedRecord_eq (rec w) r) (as_data s))"
proof -
  let ?ws = "as_data s"
  have "sz_sub (length ?ws) 1 = length ?ws - 1" using assms(2) by (cases ?ws) simp_all
  moreover have "length ?ws - 1 < length ?ws" using assms(2) by simp
  ultimately obtain i where i: "as_get_lower_bound s (wkey r) = Inr i" "i < length ?ws" "\<forall>j<i. wkey (rec (?ws ! j)) < wkey r"
    using as_bound_loop_ok [OF kv_sorted [OF assms(1)], of "length ?ws - 1" 0 "wkey r"]
    unfolding as_get_lower_bound_def as_reccnt_def by auto
  have "\<forall>j<i. WeightedRecord_less (rec (?ws ! j)) r" using i(3) by (simp add: WeightedRecord_less_def)
  from as_scan_ok [OF i(2) this] have j: "as_scan ?ws r i < length ?ws"
    "\<forall>j<as_scan ?ws r i. WeightedRecord_less (rec (?ws ! j)) r"
    "as_scan ?ws r i = length ?ws - 1 \<or> \<not> WeightedRecord_less (rec (?ws ! as_scan ?ws r i)) r" by blast+
  show ?thesis
    unfolding find_at [OF assms(1) j] as_point_lookup_def Let_def as_reccnt_def using i(1,2) by simp
qed

section \<open>Weights\<close>

lemma total_weight_of_unat: "unat (total_weight_of (ws :: 'n::len word list)) = sum_list (map unat ws) mod 2 ^ LENGTH('n)"
proof -
  have "unat (fold (\<lambda>w t. t + w) ws t) = (unat t + sum_list (map unat ws)) mod 2 ^ LENGTH('n)" for t
  proof (induction ws arbitrary: t)
    case Nil
    show ?case using unsigned_less [of t] by simp
  next
    case (Cons w ws)
    show ?case by (simp add: Cons.IH unat_word_ariths mod_simps add.assoc)
  qed
  from this [of 0] show ?thesis by (simp add: total_weight_of_def)
qed

lemma fractions_ok:
  fixes weights :: "'n::len word list"
  assumes "rounding_ok rnd u" and "0 < sum_list (map unat weights)" and "sum_list (map unat weights) < 2 ^ LENGTH('n)"
  defines "qs \<equiv> map (\<lambda>w. dbl_quot rnd (unat w) (sum_list (map unat weights))) weights"
  shows "map (\<lambda>w. dbl_div rnd (unat w) (unat (total_weight_of weights))) weights = map Finite qs"
    and "\<bar>sum_list qs - 1\<bar> \<le> 4 * u" and "\<forall>q\<in>set qs. 0 \<le> q"
proof -
  have t: "unat (total_weight_of weights) = sum_list (map unat weights)" using assms(3) by (simp add: total_weight_of_unat)
  have n: "sum_list (map unat weights) \<noteq> 0" using assms(2) by (rule gr_implies_not0)
  show "map (\<lambda>w. dbl_div rnd (unat w) (unat (total_weight_of weights))) weights = map Finite qs"
    unfolding t dbl_div_def qs_def if_P [OF n] by (simp only: map_map comp_def)
  show "\<bar>sum_list qs - 1\<bar> \<le> 4 * u" using dbl_quot_sum [OF assms(1,2)] by (simp only: qs_def map_map comp_def)
  show "\<forall>q\<in>set qs. 0 \<le> q" using dbl_quot_nonneg(1) [OF assms(1,2)] by (auto simp: qs_def)
qed

section \<open>Construction\<close>

text \<open>What holds of a shard that one of the constructors returns.\<close>

definition alias_ready :: "(dbl, 'al, 'g) alias_ops \<Rightarrow> ('k::linorder, 'v::linorder, 'n::len word, 'f, 'al) AliasShard \<Rightarrow> bool" where
  "alias_ready A s \<longleftrightarrow> sorted_by kv (as_data s) \<and>
     as_total_weight s = total_weight_of (map (\<lambda>w. weight (rec w)) (as_data s)) \<and>
     as_alias s = (if as_data s = [] then None
       else Some (build_alias_structure A (map (\<lambda>w. weight (rec w)) (as_data s)) (as_total_weight s)))"

lemma alias_finish_ok:
  assumes "record_count info = length ws" and "keyed_data_ok kv src ws (tombstone_count info)"
  shows "alias_ready A (alias_finish A (info, ws, bf))"
    and "keyed_data_ok kv src (as_data (alias_finish A (info, ws, bf))) (as_tombstone_cnt (alias_finish A (info, ws, bf)))"
proof -
  have "sorted_by kv ws" using assms(2) by (simp add: keyed_data_ok_def)
  then show "alias_ready A (alias_finish A (info, ws, bf))"
    using assms(1) by (cases "ws = []") (simp_all add: alias_ready_def alias_finish_def Let_def total_weight_of_def)
  show "keyed_data_ok kv src (as_data (alias_finish A (info, ws, bf))) (as_tombstone_cnt (alias_finish A (info, ws, bf)))"
    using assms by (cases "ws = []") (simp_all add: alias_finish_def Let_def)
qed

lemma as_point_lookup_empty:
  assumes "as_data s = []"
  shows "as_point_lookup B s r False = Inl OutOfBounds"
proof -
  have "(0::nat) < sz_sub 0 1" by (simp add: sz_sub_def size_max_def)
  then have "as_get_lower_bound s (wkey r) = Inl OutOfBounds"
    unfolding as_get_lower_bound_def as_reccnt_def assms by (subst as_bound_loop.simps) (simp add: vec_get_def Let_def)
  then show ?thesis by (simp add: as_point_lookup_def)
qed

lemma alias_lookup_result:
  assumes "alias_ready A s"
  shows "as_point_lookup B s r False =
    (if as_data s = [] then Inl OutOfBounds else Inr (List.find (\<lambda>w. WeightedRecord_eq (rec w) r) (as_data s)))"
  using assms as_point_lookup_ok [of s B r] as_point_lookup_empty [of s B r] by (simp add: alias_ready_def)

text \<open>
  C30. The shard built from a well-formed view holds, sorted by key and value, the net records of the view
  (records that differ in their weight only count as equal), its total weight and its alias
  structure are those of its records, and a point lookup finds the first record equal to the one asked for;
  in a shard without records it reads past the array.
\<close>

theorem alias_view_correct:
  fixes v :: "(('k::linorder, 'v::linorder, 'n::len word) WeightedRecord, 'b) BufferView"
  assumes "view_wf v" and "policy_ok (view_list v)"
    and "sort_ok (Wrapped_less_by WeightedRecord_less WeightedRecord_eq) (\<lambda>_. True) srt"
  shows "\<exists>s. alias_of_view A srt new B v = Inr s \<and> alias_ready A s \<and>
    keyed_data_ok kv (view_list v) (as_data s) (as_tombstone_cnt s) \<and>
    (\<forall>r. as_point_lookup B s r False =
      (if as_data s = [] then Inl OutOfBounds else Inr (List.find (\<lambda>w. WeightedRecord_eq (rec w) r) (as_data s))))"
proof -
  obtain info ws bf where o: "sorted_array_from_bufferview_by srt WeightedRecord_eq B v (Some (new (view_tombstone_count v))) = Inr (info, ws, bf)"
    "record_count info = length ws" "keyed_data_ok kv (view_list v) ws (tombstone_count info)"
    using from_view_by_ok [OF assms(1) WeightedRecord_ordered assms(3) _ assms(2)] by blast
  note f = alias_finish_ok [OF o(2,3), of A bf]
  have "alias_of_view A srt new B v = Inr (alias_finish A (info, ws, bf))" by (simp add: alias_of_view_def o(1))
  with f alias_lookup_result [OF f(1)] show ?thesis by blast
qed

text \<open>Merging shards that have records gives the same guarantees.\<close>

theorem alias_merge_correct:
  fixes ss :: "('k::linorder, 'v::linorder, 'n::len word, 'f, 'al) AliasShard list"
  assumes "min_pick (\<lambda>e. wkey_by kv (fst e)) pick" and "\<forall>s\<in>set ss. alias_ready A s \<and> as_data s \<noteq> []"
    and "policy_ok (concat (map as_data ss))"
  shows "\<exists>s. alias_of_shards A pick new B (map Some ss) = Inr s \<and> alias_ready A s \<and>
    keyed_data_ok kv (concat (map as_data ss)) (as_data s) (as_tombstone_cnt s)"
proof -
  let ?cs = "map (\<lambda>s. array_cursor (as_data s) (as_reccnt s)) ss"
  have cs: "map rest ?cs = map as_data ss" by (simp add: array_cursor_live as_reccnt_def)
  have live: "\<forall>c\<in>set ?cs. cursor_live c" using assms(2) by (simp add: array_cursor_live as_reccnt_def)
  have srt: "\<forall>c\<in>set ?cs. sorted_by kv (rest c)" using assms(2) by (simp add: array_cursor_live as_reccnt_def alias_ready_def)
  have oks: "\<forall>w\<in>set (concat (map rest ?cs)). (\<lambda>_. True) (rec w)" by simp
  obtain n t where cv: "build_cursor_vec as_data as_reccnt as_tombstone_cnt (map Some ss) = (?cs, n, t)"
    using build_cursor_vec_Some [of as_data as_reccnt as_tombstone_cnt ss]
    by (cases "build_cursor_vec as_data as_reccnt as_tombstone_cnt (map Some ss)") simp
  have pol: "policy_ok (concat (map rest ?cs))" unfolding cs by (rule assms(3))
  from merge_by_ok [OF assms(1) WeightedRecord_ordered live srt oks pol, of B "Some (new t)"] obtain info ws bf where
    o: "sorted_array_merge_by WeightedRecord_eq pick B ?cs (Some (new t)) = Inr (info, ws, bf)"
      "record_count info = length ws" "keyed_data_ok kv (concat (map as_data ss)) ws (tombstone_count info)"
    unfolding cs by (elim exE conjE)
  note f = alias_finish_ok [OF o(2,3), of A bf]
  have "alias_of_shards A pick new B (map Some ss) = Inr (alias_finish A (info, ws, bf))"
    by (simp add: alias_of_shards_def cv o(1))
  with f show ?thesis by blast
qed

text \<open>
  C35. The total weight is the sum of the weights modulo the width of their type. While the sum fits and is
  positive, the alias structure gets one finite double for each weight, within a relative error of \<open>4 u\<close> of its share
  of the sum, so that they add up to 1 only to within \<open>4 u\<close>, where \<open>u\<close> is the relative error of one rounding. When
  the total is 0, for weights that are all 0 or whose sum wraps to 0, it gets infinities and values
  that are not numbers.
\<close>

theorem alias_weights_normalised:
  fixes weights :: "'n::len word list"
  assumes "rounding_ok (al_round A) u"
  defines "S \<equiv> sum_list (map unat weights)"
  shows "unat (total_weight_of weights) = S mod 2 ^ LENGTH('n) \<and>
    (\<exists>fs. build_alias_structure A weights (total_weight_of weights) = al_new A fs \<and>
      (0 < S \<and> S < 2 ^ LENGTH('n) \<longrightarrow> (\<exists>qs. fs = map Finite qs \<and> \<bar>sum_list qs - 1\<bar> \<le> 4 * u \<and>
         list_all2 (\<lambda>w q. \<bar>q - of_nat (unat w) / of_nat S\<bar> \<le> 4 * u * (of_nat (unat w) / of_nat S)) weights qs)) \<and>
      (S mod 2 ^ LENGTH('n) = 0 \<longrightarrow> set fs \<subseteq> {Infinite, NaN}))"
proof -
  have t: "unat (total_weight_of weights) = S mod 2 ^ LENGTH('n)" unfolding S_def by (rule total_weight_of_unat)
  let ?fs = "map (\<lambda>w. dbl_div (al_round A) (unat w) (unat (total_weight_of weights))) weights"
  have a: "\<exists>qs. ?fs = map Finite qs \<and> \<bar>sum_list qs - 1\<bar> \<le> 4 * u \<and>
      list_all2 (\<lambda>w q. \<bar>q - of_nat (unat w) / of_nat S\<bar> \<le> 4 * u * (of_nat (unat w) / of_nat S)) weights qs"
    if "0 < S" "S < 2 ^ LENGTH('n)"
  proof (intro exI conjI)
    note F = fractions_ok [OF assms(1) that [unfolded S_def]]
    show "?fs = map Finite (map (\<lambda>w. dbl_quot (al_round A) (unat w) S) weights)" using F(1) by (simp only: S_def)
    show "\<bar>sum_list (map (\<lambda>w. dbl_quot (al_round A) (unat w) S) weights) - 1\<bar> \<le> 4 * u" using F(2) by (simp only: S_def)
    show "list_all2 (\<lambda>w q. \<bar>q - of_nat (unat w) / of_nat S\<bar> \<le> 4 * u * (of_nat (unat w) / of_nat S)) weights
        (map (\<lambda>w. dbl_quot (al_round A) (unat w) S) weights)"
      unfolding list_all2_map2 by (rule list.rel_refl) (rule dbl_quot_bounds [OF assms(1) that(1)])
  qed
  have b: "set ?fs \<subseteq> {Infinite, NaN}" if "S mod 2 ^ LENGTH('n) = 0" using that unfolding t by (auto simp: dbl_div_def)
  have c: "build_alias_structure A weights (total_weight_of weights) = al_new A ?fs" by (simp add: build_alias_structure_def)
  have ab: "(0 < S \<and> S < 2 ^ LENGTH('n) \<longrightarrow> (\<exists>qs. ?fs = map Finite qs \<and> \<bar>sum_list qs - 1\<bar> \<le> 4 * u \<and>
      list_all2 (\<lambda>w q. \<bar>q - of_nat (unat w) / of_nat S\<bar> \<le> 4 * u * (of_nat (unat w) / of_nat S)) weights qs))"
    by (intro impI a) simp_all
  show ?thesis by (intro conjI exI [of _ ?fs] t c ab impI b)
qed

section \<open>Witnesses\<close>

definition demo_weighted_view :: "((nat, nat, 8 word) WeightedRecord, unit) BufferView" where
  "demo_weighted_view = BufferView_new
     [\<lparr>header = 4, rec = \<lparr>wkey = 5, wvalue = 1, weight = 3\<rparr>\<rparr>, \<lparr>header = 12, rec = \<lparr>wkey = 2, wvalue = 7, weight = 1\<rparr>\<rparr>, \<lparr>header = 0, rec = \<lparr>wkey = 0, wvalue = 0, weight = 1\<rparr>\<rparr>] 3 0 2 0 None"

lemma demo_weighted_view_ok:
  "view_list demo_weighted_view =
     [\<lparr>header = 4, rec = \<lparr>wkey = 5, wvalue = 1, weight = 3\<rparr>\<rparr>, \<lparr>header = 12, rec = \<lparr>wkey = 2, wvalue = 7, weight = 1\<rparr>\<rparr>]"
  "view_wf demo_weighted_view" "policy_ok (view_list demo_weighted_view)"
proof -
  show l: "view_list demo_weighted_view =
     [\<lparr>header = 4, rec = \<lparr>wkey = 5, wvalue = 1, weight = 3\<rparr>\<rparr>, \<lparr>header = 12, rec = \<lparr>wkey = 2, wvalue = 7, weight = 1\<rparr>\<rparr>]"
    by (simp add: demo_weighted_view_def view_list_def ring_list_def BufferView_new_def upt_rec)
  show "view_wf demo_weighted_view" by (simp add: demo_weighted_view_def view_wf_def BufferView_new_def)
  show "policy_ok (view_list demo_weighted_view)" unfolding l by (simp add: policy_ok_def is_deleted_def)
qed

lemma weighted_sort_ok: "sort_ok (Wrapped_less_by WeightedRecord_less WeightedRecord_eq) (\<lambda>_. True) (sort_key (wkey_by kv))"
  by (rule Wrapped_sort_ok [OF WeightedRecord_ordered])

text \<open>A rounding that keeps every number but one third.\<close>

definition demo_round :: "rat \<Rightarrow> rat" where
  "demo_round x = (if x = 1 / 3 then 3333 / 10000 else x)"

definition demo_alias_ops :: "(dbl, dbl list, unit) alias_ops" where
  "demo_alias_ops = \<lparr>al_round = demo_round, al_new = (\<lambda>ws. ws), al_get = (\<lambda>_ g. (0, g))\<rparr>"

lemma demo_alias_ops_round: "rounding_ok (al_round demo_alias_ops) (1 / 1000)"
  by (auto simp: rounding_ok_def demo_round_def demo_alias_ops_def)

theorem alias_view_correct_witness:
  "\<exists>s. alias_of_view demo_alias_ops (sort_key (wkey_by kv)) (\<lambda>_. []) list_bloom demo_weighted_view = Inr s \<and>
    keyed_data_ok kv (view_list demo_weighted_view) (as_data s) (as_tombstone_cnt s)"
  using alias_view_correct [OF demo_weighted_view_ok(2,3) weighted_sort_ok] by blast

theorem alias_weights_normalised_witness:
  "unat (total_weight_of [1, 2 :: 8 word]) = 3 \<and>
   build_alias_structure demo_alias_ops [1, 2 :: 8 word] (total_weight_of [1, 2]) = [Finite (3333 / 10000), Finite (2 / 3)] \<and>
   (\<exists>qs. [Finite (3333 / 10000), Finite (2 / 3)] = map Finite qs \<and> \<bar>sum_list qs - 1\<bar> \<le> 4 / 1000)"
proof -
  have "build_alias_structure demo_alias_ops [1, 2 :: 8 word] (total_weight_of [1, 2]) = [Finite (3333 / 10000), Finite (2 / 3)]"
    by (simp add: build_alias_structure_def demo_alias_ops_def dbl_div_def dbl_quot_def demo_round_def total_weight_of_def)
  moreover have "al_new demo_alias_ops = (\<lambda>ws. ws)" by (simp add: demo_alias_ops_def)
  moreover have "unat (total_weight_of [1, 2 :: 8 word]) = sum_list (map unat [1, 2 :: 8 word]) mod 2 ^ LENGTH(8) \<and>
    (\<exists>fs. build_alias_structure demo_alias_ops [1, 2 :: 8 word] (total_weight_of [1, 2]) = al_new demo_alias_ops fs \<and>
      (\<exists>qs. fs = map Finite qs \<and> \<bar>sum_list qs - 1\<bar> \<le> 4 * (1 / 1000)))"
    using alias_weights_normalised [OF demo_alias_ops_round, of "[1, 2 :: 8 word]"] by auto
  ultimately show ?thesis by auto
qed

end
