(* ===== verification/DE_Wss.thy ===== *)
theory DE_Wss
  imports DE_Alias DE_Query
begin

text \<open>
  Weighted set sampling (\<^verbatim>\<open>include/query/wss.h\<close>) over the alias shards: the sample is shared out by an
  alias structure over the total weights of the buffer and the shards; a shard draws by its own
  structure, the buffer by rejection against its largest weight. The generator is shared by pointer, so
  its state is threaded through the parameters.
\<close>

section \<open>The query type\<close>

record 'g wss_Parameters =
  wss_sample_size :: nat
  wss_rng :: 'g

record 'w wss_LocalQuery =
  wss_samples :: nat
  wss_total_weight :: 'w
  wss_global_samples :: nat

record ('k, 'v, 'w, 'f, 'al) wss_LocalQueryBuffer =
  wss_buffer :: "(('k, 'v, 'w) WeightedRecord, 'f) BufferView"
  wss_buffer_samples :: nat
  wss_buffer_weight :: 'w
  wss_max_weight :: 'w
  wss_cutoff :: nat
  wss_alias :: "'al option"

definition wss_local_preproc ::
    "('k, 'v, 'n::len word, 'f, 'al) AliasShard \<Rightarrow> 'g wss_Parameters \<Rightarrow> 'n word wss_LocalQuery res" where
  "wss_local_preproc s parms =
     Inr \<lparr>wss_samples = 0, wss_total_weight = as_total_weight s, wss_global_samples = wss_sample_size parms\<rparr>"

text \<open>The loop over the buffer: the total and the largest weight.\<close>

fun wss_weigh :: "('k, 'v, 'n::len word) WeightedRecord Wrapped list \<Rightarrow> 'n word \<Rightarrow> 'n word \<Rightarrow> 'n word \<times> 'n word" where
  "wss_weigh [] tw mw = (tw, mw)"
| "wss_weigh (w # ws) tw mw =
     wss_weigh ws (tw + weight (rec w)) (if weight (rec w) > mw then weight (rec w) else mw)"

definition wss_local_preproc_buffer ::
    "(('k, 'v, 'n::len word) WeightedRecord, 'f) BufferView \<Rightarrow> 'g wss_Parameters \<Rightarrow>
     ('k, 'v, 'n word, 'f, 'al) wss_LocalQueryBuffer res" where
  "wss_local_preproc_buffer v parms =
     bindE (mapE (view_get v) [0..<view_record_count v]) (\<lambda>ws.
     case wss_weigh ws 0 0 of (tw, mw) \<Rightarrow>
       Inr \<lparr>wss_buffer = v, wss_buffer_samples = 0, wss_buffer_weight = tw, wss_max_weight = mw,
            wss_cutoff = sz_sub (view_record_count v) 1, wss_alias = None\<rparr>)"

text \<open>
  The draws: index 0 stands for the buffer. The sample sizes are counted up from what they are; they are
  set to zero only when the alias structure is built, in the first distribution.
\<close>

fun wss_draw ::
    "('d, 'al, 'g) alias_ops \<Rightarrow> 'al \<Rightarrow> nat \<Rightarrow> nat \<Rightarrow> 'w wss_LocalQuery list \<Rightarrow> 'g \<Rightarrow> (nat \<times> 'w wss_LocalQuery list \<times> 'g) res" where
  "wss_draw A al 0 b lqs g = Inr (b, lqs, g)"
| "wss_draw A al (Suc n) b lqs g =
     (case al_get A al g of (idx, g1) \<Rightarrow>
      if idx = 0 then wss_draw A al n (sz_add b 1) lqs g1
      else if idx - 1 < length lqs
      then wss_draw A al n b (lqs[idx - 1 := (lqs ! (idx - 1))\<lparr>wss_samples := sz_add (wss_samples (lqs ! (idx - 1))) 1\<rparr>]) g1
      else Inl OutOfBounds)"

definition wss_distribute_query ::
    "(dbl, 'al, 'g) alias_ops \<Rightarrow> 'g wss_Parameters \<Rightarrow> 'n::len word wss_LocalQuery list \<Rightarrow>
     ('k, 'v, 'n word, 'f, 'al) wss_LocalQueryBuffer option \<Rightarrow>
     ('g wss_Parameters \<times> 'n word wss_LocalQuery list \<times> ('k, 'v, 'n word, 'f, 'al) wss_LocalQueryBuffer option) res" where
  "wss_distribute_query A parms lqs buffer_query =
     (case buffer_query of
        None \<Rightarrow> assertE (length lqs = 1) (Inr (parms, map (\<lambda>q. q\<lparr>wss_samples := wss_global_samples q\<rparr>) lqs, None))
      | Some bq \<Rightarrow>
          let (al, lqs0) = (case wss_alias bq of
                Some al \<Rightarrow> (al, lqs)
              | None \<Rightarrow>
                  let weights = wss_buffer_weight bq # map wss_total_weight lqs in
                  (build_alias_structure A weights (total_weight_of weights), map (\<lambda>q. q\<lparr>wss_samples := 0\<rparr>) lqs))
          in bindE (wss_draw A al (wss_sample_size parms) (wss_buffer_samples bq) lqs0 (wss_rng parms)) (\<lambda>(b, lqs1, g).
             Inr (parms\<lparr>wss_rng := g\<rparr>, lqs1, Some (bq\<lparr>wss_alias := Some al, wss_buffer_samples := b\<rparr>))))"

section \<open>Drawing\<close>

fun wss_sample_shard ::
    "(dbl, 'al, 'g) alias_ops \<Rightarrow> ('k, 'v, 'n::len word, 'f, 'al) AliasShard \<Rightarrow> nat \<Rightarrow> 'g \<Rightarrow>
     (('k, 'v, 'n word) WeightedRecord Wrapped list \<times> 'g) res" where
  "wss_sample_shard A s 0 g = Inr ([], g)"
| "wss_sample_shard A s (Suc n) g =
     bindE (get_weighted_sample A s g) (\<lambda>(idx, g1).
     bindE (deref (as_get_record_at s idx)) (\<lambda>w.
     bindE (wss_sample_shard A s n g1) (\<lambda>(rs, g2). Inr (if \<not> is_deleted w then w # rs else rs, g2))))"

definition wss_local_query ::
    "(dbl, 'al, 'g) alias_ops \<Rightarrow> ('k, 'v, 'n::len word, 'f, 'al) AliasShard \<Rightarrow> 'n word wss_LocalQuery \<Rightarrow> 'g wss_Parameters \<Rightarrow>
     (('k, 'v, 'n word) WeightedRecord Wrapped list \<times> 'g wss_Parameters) res" where
  "wss_local_query A s q p =
     (if wss_samples q = 0 then Inr ([], p)
      else bindE (wss_sample_shard A s (wss_samples q) (wss_rng p)) (\<lambda>(rs, g). Inr (rs, p\<lparr>wss_rng := g\<rparr>)))"

text \<open>
  \<^verbatim>\<open>gsl_rng_uniform_int\<close> calls the error handler of the library, which aborts, for the bound 0; \<open>R\<close> is
  \<^verbatim>\<open>gsl_rng_uniform\<close>, a number from 0 up to, but not including, 1.
\<close>

definition uniform_int :: "'g rng_ops \<Rightarrow> 'g \<Rightarrow> nat \<Rightarrow> (nat \<times> 'g) res" where
  "uniform_int U g n = (if n = 0 then Inl SysError else Inr (U g n))"

fun wss_reject ::
    "'g rng_ops \<Rightarrow> ('g \<Rightarrow> rat \<times> 'g) \<Rightarrow> ('k, 'v, 'n::len word, 'f, 'al) wss_LocalQueryBuffer \<Rightarrow> nat \<Rightarrow> 'g \<Rightarrow>
     (('k, 'v, 'n word) WeightedRecord Wrapped list \<times> 'g) res" where
  "wss_reject U R q 0 g = Inr ([], g)"
| "wss_reject U R q (Suc n) g =
     bindE (uniform_int U g (wss_cutoff q)) (\<lambda>(idx, g1).
     bindE (view_get (wss_buffer q) idx) (\<lambda>w.
     case R g1 of (u, g2) \<Rightarrow>
     bindE (wss_reject U R q n g2) (\<lambda>(rs, g3).
     Inr (if u * of_nat (unat (wss_max_weight q)) \<le> of_nat (unat (weight (rec w))) \<and> \<not> is_deleted w then w # rs else rs, g3))))"

definition wss_local_query_buffer ::
    "'g rng_ops \<Rightarrow> ('g \<Rightarrow> rat \<times> 'g) \<Rightarrow> ('k, 'v, 'n::len word, 'f, 'al) wss_LocalQueryBuffer \<Rightarrow> 'g wss_Parameters \<Rightarrow>
     (('k, 'v, 'n word) WeightedRecord Wrapped list \<times> 'g wss_Parameters) res" where
  "wss_local_query_buffer U R q p =
     bindE (wss_reject U R q (wss_buffer_samples q) (wss_rng p)) (\<lambda>(rs, g). Inr (rs, p\<lparr>wss_rng := g\<rparr>))"

definition wss_combine :: "'r Wrapped list list \<Rightarrow> 'r list \<Rightarrow> 'r list" where
  "wss_combine results output = output @ concat (map (map rec) results)"

definition wss_repeat ::
    "(dbl, 'al, 'g) alias_ops \<Rightarrow> 'g wss_Parameters \<Rightarrow> 'r list \<Rightarrow> 'n::len word wss_LocalQuery list \<Rightarrow>
     ('k, 'v, 'n word, 'f, 'al) wss_LocalQueryBuffer option \<Rightarrow>
     (bool \<times> 'g wss_Parameters \<times> 'n word wss_LocalQuery list \<times> ('k, 'v, 'n word, 'f, 'al) wss_LocalQueryBuffer option) res" where
  "wss_repeat A parms output lqs bq =
     (if length output < wss_sample_size parms then
        let parms' = parms\<lparr>wss_sample_size := wss_sample_size parms - length output\<rparr> in
        bindE (wss_distribute_query A parms' lqs bq) (\<lambda>(p, lqs', bq'). Inr (True, p, lqs', bq'))
      else Inr (False, parms, lqs, bq))"

definition wss_Query ::
    "(dbl, 'al, 'g) alias_ops \<Rightarrow> 'g rng_ops \<Rightarrow> ('g \<Rightarrow> rat \<times> 'g) \<Rightarrow>
     (('k, 'v, 'n::len word, 'f, 'al) AliasShard, ('k, 'v, 'n word) WeightedRecord, 'b, 'g wss_Parameters, 'n word wss_LocalQuery,
      ('k, 'v, 'n word, 'b, 'al) wss_LocalQueryBuffer option, ('k, 'v, 'n word) WeightedRecord Wrapped, ('k, 'v, 'n word) WeightedRecord) query_ops" where
  "wss_Query A U R =
     \<lparr>q_early_abort = False, q_preproc = wss_local_preproc,
      q_preproc_buffer = (\<lambda>v parms. bindE (wss_local_preproc_buffer v parms) (\<lambda>q. Inr (Some q))),
      q_distribute = wss_distribute_query A,
      q_local = (\<lambda>has_buffer s q p. wss_local_query A s q p),
      q_local_buffer = (\<lambda>bq p. bindE (deref bq) (\<lambda>q. wss_local_query_buffer U R q p)),
      q_combine = (\<lambda>results p output. Inr (wss_combine results output)),
      q_repeat = wss_repeat A\<rparr>"

section \<open>Sharing out the sample\<close>

text \<open>
  An alias structure over non-negative doubles that add up to 1, to within the error of their rounding,
  draws the index of one of them.
\<close>

definition draws_ok :: "(dbl, 'al, 'g) alias_ops \<Rightarrow> bool" where
  "draws_ok A \<longleftrightarrow> (\<exists>u. rounding_ok (al_round A) u \<and>
     (\<forall>qs g. \<bar>sum_list qs - 1\<bar> \<le> 4 * u \<longrightarrow> (\<forall>q\<in>set qs. 0 \<le> q) \<longrightarrow> fst (al_get A (al_new A (map Finite qs)) g) < length qs))"

abbreviation samples_of :: "nat \<Rightarrow> 'w wss_LocalQuery list \<Rightarrow> nat" where
  "samples_of b lqs \<equiv> b + sum_list (map wss_samples lqs)"

lemma wss_draw_ok:
  assumes "\<And>g. fst (al_get A al g) \<le> length lqs" and "samples_of b lqs + n < size_max"
  shows "\<exists>b' lqs' g'. wss_draw A al n b lqs g = Inr (b', lqs', g') \<and> length lqs' = length lqs \<and>
    samples_of b' lqs' = samples_of b lqs + n"
  using assms
proof (induction n arbitrary: b lqs g)
  case (Suc n)
  obtain idx g1 where d: "al_get A al g = (idx, g1)" by fastforce
  then have idx: "idx \<le> length lqs" using Suc.prems(1) [of g] by simp
  show ?case
  proof (cases idx)
    case 0
    obtain b' lqs' g' where "wss_draw A al n (Suc b) lqs g1 = Inr (b', lqs', g')" "length lqs' = length lqs"
      "samples_of b' lqs' = samples_of (Suc b) lqs + n"
      using Suc.IH [of lqs "Suc b" g1] Suc.prems by fastforce
    then show ?thesis using d 0 Suc.prems(2) by simp
  next
    case (Suc j)
    then have j: "j < length lqs" using idx by simp
    let ?q = "lqs ! j" and ?lqs = "lqs[j := (lqs ! j)\<lparr>wss_samples := Suc (wss_samples (lqs ! j))\<rparr>]"
    have le: "wss_samples ?q \<le> sum_list (map wss_samples lqs)" using elem_le_sum_list [of j "map wss_samples lqs"] j by simp
    have sum: "sum_list (map wss_samples ?lqs) = Suc (sum_list (map wss_samples lqs))"
      using sum_list_update [of j "map wss_samples lqs" "Suc (wss_samples ?q)"] j le by (simp add: map_update)
    obtain b' lqs' g' where "wss_draw A al n b ?lqs g1 = Inr (b', lqs', g')" "length lqs' = length lqs"
      "samples_of b' lqs' = samples_of b ?lqs + n"
      using Suc.IH [of ?lqs b g1] Suc.prems sum by fastforce
    moreover have "sz_add (wss_samples ?q) 1 = Suc (wss_samples ?q)" using le Suc.prems(2) by simp
    ultimately show ?thesis using d Suc j sum by simp
  qed
qed simp

text \<open>
  C33. The first distribution shares out exactly the sample size. When a round falls short, the missing
  records are drawn on top of the sample sizes of the round before, which nobody resets: the next round
  draws the whole sample again and the missing records besides.
\<close>

theorem wss_repeat_oversamples:
  fixes bq :: "('k, 'v, 'n::len word, 'f, 'al) wss_LocalQueryBuffer"
  assumes "draws_ok A" and "wss_alias bq = None" and "wss_buffer_samples bq = 0" and "2 * wss_sample_size p < size_max"
    and "0 < sum_list (map unat (wss_buffer_weight bq # map wss_total_weight lqs))"
    and "sum_list (map unat (wss_buffer_weight bq # map wss_total_weight lqs)) < 2 ^ LENGTH('n)"
  shows "\<exists>p1 lqs1 bq1. wss_distribute_query A p lqs (Some bq) = Inr (p1, lqs1, Some bq1) \<and>
    samples_of (wss_buffer_samples bq1) lqs1 = wss_sample_size p \<and>
    (\<forall>output :: 'r list. length output < wss_sample_size p \<longrightarrow>
       (\<exists>p2 lqs2 bq2. wss_repeat A p1 output lqs1 (Some bq1) = Inr (True, p2, lqs2, Some bq2) \<and>
          samples_of (wss_buffer_samples bq2) lqs2 = wss_sample_size p + (wss_sample_size p - length output)))"
proof -
  let ?ws = "wss_buffer_weight bq # map wss_total_weight lqs" and ?n = "wss_sample_size p"
  let ?lqs = "map (\<lambda>q. q\<lparr>wss_samples := 0\<rparr>) lqs"
  define al where "al = build_alias_structure A ?ws (total_weight_of ?ws)"
  obtain u where u: "rounding_ok (al_round A) u" "\<And>qs g. \<bar>sum_list qs - 1\<bar> \<le> 4 * u \<Longrightarrow> \<forall>q\<in>set qs. 0 \<le> q \<Longrightarrow>
      fst (al_get A (al_new A (map Finite qs)) g) < length qs" using assms(1) unfolding draws_ok_def by blast
  have draw: "fst (al_get A al g) \<le> length lqs" for g
    using u(2) [OF fractions_ok(2,3) [OF u(1) assms(5,6)], of g]
    unfolding al_def build_alias_structure_def fractions_ok(1) [OF u(1) assms(5,6)] by simp
  have z: "samples_of 0 ?lqs = 0" by (induction lqs) simp_all
  obtain b lqs1 g1 where 1: "wss_draw A al ?n 0 ?lqs (wss_rng p) = Inr (b, lqs1, g1)" "length lqs1 = length lqs" "samples_of b lqs1 = ?n"
    using wss_draw_ok [of A al ?lqs 0 ?n "wss_rng p", unfolded z] draw assms(4) by auto
  let ?p1 = "p\<lparr>wss_rng := g1\<rparr>" and ?bq1 = "bq\<lparr>wss_alias := Some al, wss_buffer_samples := b\<rparr>"
  have dist: "wss_distribute_query A p lqs (Some bq) = Inr (?p1, lqs1, Some ?bq1)"
    using 1(1) assms(2,3) by (simp add: wss_distribute_query_def Let_def al_def)
  have "\<exists>p2 lqs2 bq2. wss_repeat A ?p1 outs lqs1 (Some ?bq1) = Inr (True, p2, lqs2, Some bq2) \<and>
      samples_of (wss_buffer_samples bq2) lqs2 = ?n + (?n - length outs)" if "length outs < ?n" for outs :: "'r list"
  proof -
    have "?n + (?n - length outs) < size_max" using assms(4) by simp
    then obtain b2 lqs2 g2 where 2: "wss_draw A al (?n - length outs) b lqs1 g1 = Inr (b2, lqs2, g2)"
      "samples_of b2 lqs2 = ?n + (?n - length outs)"
      using wss_draw_ok [of A al lqs1 b "?n - length outs" g1] draw 1(2,3) by auto
    then show ?thesis using that by (simp add: wss_repeat_def wss_distribute_query_def Let_def)
  qed
  with dist 1(3) show ?thesis by (intro exI [of _ ?p1] exI [of _ lqs1] exI [of _ ?bq1]) simp
qed

section \<open>Sampling the buffer\<close>

lemma wss_reject_ok:
  assumes "view_wf (wss_buffer q)" and "rng_ok U" and "0 < wss_cutoff q" and "wss_cutoff q < length (view_list (wss_buffer q))"
  shows "\<exists>rs g'. wss_reject U R q n g = Inr (rs, g') \<and> set rs \<subseteq> set (take (wss_cutoff q) (view_list (wss_buffer q)))"
proof (induction n arbitrary: g)
  case (Suc n)
  obtain idx g1 where u: "U g (wss_cutoff q) = (idx, g1)" by fastforce
  then have idx: "idx < wss_cutoff q" using assms(2,3) unfolding rng_ok_def by (metis fst_conv)
  have v: "view_get (wss_buffer q) idx = Inr (view_list (wss_buffer q) ! idx)"
    using idx assms(4) by (intro view_get_wf [OF assms(1)]) (simp add: view_count [OF assms(1)] length_view_list [OF assms(1)])
  have m: "view_list (wss_buffer q) ! idx \<in> set (take (wss_cutoff q) (view_list (wss_buffer q)))"
    using idx assms(4) by (auto simp: in_set_conv_nth intro!: exI [of _ idx])
  obtain x g2 where r: "R g1 = (x, g2)" by fastforce
  obtain rs g3 where "wss_reject U R q n g2 = Inr (rs, g3)" "set rs \<subseteq> set (take (wss_cutoff q) (view_list (wss_buffer q)))"
    using Suc.IH by blast
  then show ?case using u v r m assms(3) by (simp add: uniform_int_def)
qed simp

text \<open>
  C34. The draw from the buffer is bounded by the number of records less one, and the bound itself is
  excluded: the newest record of the buffer is never sampled, and with a single record the draw fails.
\<close>

theorem wss_newest_never_sampled:
  fixes v :: "(('k, 'v, 'n::len word) WeightedRecord, 'f) BufferView"
  assumes "view_wf v" and "rng_ok U"
  shows "\<exists>q. wss_local_preproc_buffer v p = Inr (q :: ('k, 'v, 'n word, 'f, 'al) wss_LocalQueryBuffer) \<and>
    (\<forall>n p1. 2 \<le> view_record_count v \<longrightarrow>
       (\<exists>rs p2. wss_local_query_buffer U R (q\<lparr>wss_buffer_samples := n\<rparr>) p1 = Inr (rs, p2) \<and> set rs \<subseteq> set (butlast (view_list v)))) \<and>
    (\<forall>n p1. view_record_count v = 1 \<and> 0 < n \<longrightarrow>
       wss_local_query_buffer U R (q\<lparr>wss_buffer_samples := n\<rparr>) p1 = Inl SysError)"
proof -
  have cnt: "view_record_count v = length (view_list v)" by (simp add: view_count [OF assms(1)] length_view_list [OF assms(1)])
  have "mapE (view_get v) [0..<view_record_count v] = Inr (map ((!) (view_list v)) [0..<view_record_count v])"
    by (rule mapE_Inr) (simp add: view_get_wf [OF assms(1)])
  then have m: "mapE (view_get v) [0..<view_record_count v] = Inr (view_list v)" unfolding cnt by (simp add: map_nth)
  obtain tw mw where w: "wss_weigh (view_list v) 0 0 = (tw, mw)" by fastforce
  define q :: "('k, 'v, 'n word, 'f, 'al) wss_LocalQueryBuffer" where
    "q = \<lparr>wss_buffer = v, wss_buffer_samples = 0, wss_buffer_weight = tw, wss_max_weight = mw,
          wss_cutoff = sz_sub (view_record_count v) 1, wss_alias = None\<rparr>"
  have a: "wss_local_preproc_buffer v p = Inr q" by (simp add: wss_local_preproc_buffer_def m w q_def)
  have b: "\<exists>rs p2. wss_local_query_buffer U R (q\<lparr>wss_buffer_samples := n\<rparr>) p1 = Inr (rs, p2) \<and> set rs \<subseteq> set (butlast (view_list v))"
    if "2 \<le> view_record_count v" for n p1
    using wss_reject_ok [of "q\<lparr>wss_buffer_samples := n\<rparr>" U R n "wss_rng p1"] assms that
    by (auto simp: q_def butlast_conv_take wss_local_query_buffer_def)
  have c: "wss_local_query_buffer U R (q\<lparr>wss_buffer_samples := n\<rparr>) p1 = Inl SysError"
    if "view_record_count v = 1" "0 < n" for n p1
    using that by (cases n) (simp_all add: q_def wss_local_query_buffer_def uniform_int_def)
  show ?thesis
  proof (rule exI [of _ q], intro conjI allI impI)
    show "wss_local_preproc_buffer v p = Inr q" by (rule a)
  next
    fix n :: nat and p1 assume "2 \<le> view_record_count v"
    then show "\<exists>rs p2. wss_local_query_buffer U R (q\<lparr>wss_buffer_samples := n\<rparr>) p1 = Inr (rs, p2) \<and> set rs \<subseteq> set (butlast (view_list v))"
      by (rule b)
  next
    fix n :: nat and p1 assume "view_record_count v = 1 \<and> 0 < n"
    then show "wss_local_query_buffer U R (q\<lparr>wss_buffer_samples := n\<rparr>) p1 = Inl SysError" by (blast intro: c)
  qed
qed

section \<open>Witnesses\<close>

text \<open>An alias structure that always draws its first index, and a generator that always yields 0.\<close>

definition first_alias :: "(dbl, dbl list, unit) alias_ops" where
  "first_alias = \<lparr>al_round = demo_round, al_new = (\<lambda>ws. ws), al_get = (\<lambda>_ g. (0, g))\<rparr>"

lemma first_alias_ok: "draws_ok first_alias"
proof -
  have "0 < length qs" if "\<bar>sum_list qs - 1\<bar> \<le> 4 * (1 / 1000 :: rat)" for qs using that by (cases qs) auto
  then show ?thesis using demo_alias_ops_round
    unfolding draws_ok_def by (intro exI [of _ "1 / 1000"]) (simp add: first_alias_def demo_alias_ops_def)
qed

theorem wss_repeat_oversamples_witness:
  "\<exists>p1 lqs1 bq1. wss_distribute_query first_alias \<lparr>wss_sample_size = 5, wss_rng = ()\<rparr>
      [\<lparr>wss_samples = 0, wss_total_weight = 4 :: 8 word, wss_global_samples = 5\<rparr>]
      (Some \<lparr>wss_buffer = demo_weighted_view, wss_buffer_samples = 0, wss_buffer_weight = 4, wss_max_weight = 3, wss_cutoff = 1, wss_alias = None\<rparr>) =
      Inr (p1, lqs1, Some bq1) \<and>
    (\<exists>p2 lqs2 bq2. wss_repeat first_alias p1 [1, 2 :: nat] lqs1 (Some bq1) = Inr (True, p2, lqs2, Some bq2) \<and>
       samples_of (wss_buffer_samples bq2) lqs2 = 8)"
proof -
  let ?p = "\<lparr>wss_sample_size = 5, wss_rng = ()\<rparr>"
  let ?lqs = "[\<lparr>wss_samples = 0, wss_total_weight = 4 :: 8 word, wss_global_samples = 5\<rparr>]"
  let ?bq = "\<lparr>wss_buffer = demo_weighted_view, wss_buffer_samples = 0, wss_buffer_weight = 4, wss_max_weight = 3, wss_cutoff = 1, wss_alias = None\<rparr>
    :: (nat, nat, 8 word, unit, dbl list) wss_LocalQueryBuffer"
  have prem: "wss_alias ?bq = None" "wss_buffer_samples ?bq = 0" "2 * wss_sample_size ?p < size_max"
    "0 < sum_list (map unat (wss_buffer_weight ?bq # map wss_total_weight ?lqs))"
    "sum_list (map unat (wss_buffer_weight ?bq # map wss_total_weight ?lqs)) < 2 ^ LENGTH(8)"
    by (simp_all add: size_max_def)
  obtain p1 lqs1 bq1 where r: "wss_distribute_query first_alias ?p ?lqs (Some ?bq) = Inr (p1, lqs1, Some bq1)"
    "\<forall>output :: nat list. length output < 5 \<longrightarrow> (\<exists>p2 lqs2 bq2. wss_repeat first_alias p1 output lqs1 (Some bq1) = Inr (True, p2, lqs2, Some bq2) \<and>
       samples_of (wss_buffer_samples bq2) lqs2 = 5 + (5 - length output))"
    using wss_repeat_oversamples [OF first_alias_ok prem, where 'r = nat] by auto
  from r(2) [THEN spec, of "[1, 2]"] r(1) show ?thesis by auto
qed

theorem wss_newest_never_sampled_witness:
  "\<exists>q rs p2. wss_local_preproc_buffer demo_weighted_view \<lparr>wss_sample_size = 5, wss_rng = ()\<rparr> =
      Inr (q :: (nat, nat, 8 word, unit, dbl list) wss_LocalQueryBuffer) \<and>
    wss_local_query_buffer first_rng (\<lambda>g. (0, g)) (q\<lparr>wss_buffer_samples := 5\<rparr>) \<lparr>wss_sample_size = 5, wss_rng = ()\<rparr> = Inr (rs, p2) \<and>
    set rs \<subseteq> {\<lparr>header = 4, rec = \<lparr>wkey = 5, wvalue = 1, weight = 3\<rparr>\<rparr>}"
proof -
  have "view_record_count demo_weighted_view = 2"
    using length_view_list [OF demo_weighted_view_ok(2)] view_count [OF demo_weighted_view_ok(2)] unfolding demo_weighted_view_ok(1) by simp
  with wss_newest_never_sampled [OF demo_weighted_view_ok(2) first_rng_ok,
      where 'al = "dbl list" and p = "\<lparr>wss_sample_size = 5, wss_rng = ()\<rparr>" and R = "\<lambda>g. (0, g)"]
  show ?thesis unfolding demo_weighted_view_ok(1) by simp blast
qed

end
