(* ===== verification/DE_Trie.thy ===== *)
theory DE_Trie
  imports DE_KeyedMerge DE_SortedShard
begin

text \<open>
  The shards over string keys: \<^verbatim>\<open>include/shard/FSTrie.h\<close> and \<^verbatim>\<open>include/shard/LoudsPatricia.h\<close>. Both keep a
  sorted array of string records and a third-party trie over the keys (a parameter of the model), and both
  copy the construction loops of the other shards with changes: from a buffer view nothing is
  cancelled, tombstones stay and are not counted, and records that are not yet visible are left out.
\<close>

section \<open>The construction loops\<close>

text \<open>
  \<^verbatim>\<open>rec.key == ""\<close> compares pointers: it holds when the key is the very literal of the program, never for
  another empty string. Which records that is depends on the linker and the caller: a parameter \<open>lit\<close>.
\<close>

fun trie_view_loop ::
    "('v StringRecord \<Rightarrow> bool) \<Rightarrow> ('v StringRecord Wrapped \<Rightarrow> 's \<Rightarrow> 's) \<Rightarrow> 'v StringRecord Wrapped list \<Rightarrow> 's \<Rightarrow> 's" where
  "trie_view_loop lit emit [] s = s"
| "trie_view_loop lit emit (w # ws) s =
     (if is_deleted w \<or> \<not> is_visible w \<or> lit (rec w) then trie_view_loop lit emit ws s
      else trie_view_loop lit emit ws (emit (clear_timestamp w) s))"

definition trie_merge_emit ::
    "('v StringRecord \<Rightarrow> bool) \<Rightarrow> ('v StringRecord Wrapped \<Rightarrow> 's \<Rightarrow> 's) \<Rightarrow> 'v StringRecord Wrapped \<Rightarrow> 's \<Rightarrow> 's" where
  "trie_merge_emit lit emit w s = (if \<not> is_deleted w \<and> \<not> lit (rec w) then emit w s else s)"

section \<open>The FST shard\<close>

record 't fst_ops =
  fst_build :: "string list \<Rightarrow> 't"
  fst_search :: "'t \<Rightarrow> string \<Rightarrow> nat option"

text \<open>The pointer to the trie is set only when there are records; before that it has no defined value.\<close>

record ('v, 't) FSTrie =
  ft_data :: "'v StringRecord Wrapped list"
  m_fst :: "'t option"

definition ft_reccnt :: "('v, 't) FSTrie \<Rightarrow> nat" where
  "ft_reccnt s = length (ft_data s)"

definition ft_get_tombstone_count :: "('v, 't) FSTrie \<Rightarrow> nat" where
  "ft_get_tombstone_count s = 0"

fun fst_emit :: "'v StringRecord Wrapped \<Rightarrow> 'v StringRecord Wrapped list \<times> string list \<Rightarrow> 'v StringRecord Wrapped list \<times> string list" where
  "fst_emit w (ws, keys) = (ws @ [w], keys @ [skey (rec w)])"

fun fst_finish :: "'t fst_ops \<Rightarrow> 'v StringRecord Wrapped list \<times> string list \<Rightarrow> ('v, 't) FSTrie" where
  "fst_finish T (ws, keys) = \<lparr>ft_data = ws, m_fst = (if length ws > 0 then Some (fst_build T keys) else None)\<rparr>"

definition fst_of_view ::
    "'t fst_ops \<Rightarrow> ('v StringRecord \<Rightarrow> bool) \<Rightarrow> ('v StringRecord Wrapped list \<Rightarrow> 'v StringRecord Wrapped list) \<Rightarrow>
     ('v StringRecord, 'f) BufferView \<Rightarrow> ('v, 't) FSTrie res" where
  "fst_of_view T lit srt buffer =
     bindE (mapE (view_get buffer) [0..<view_record_count buffer]) (\<lambda>temp.
     Inr (fst_finish T (trie_view_loop lit fst_emit (srt temp) ([], []))))"

definition fst_of_shards ::
    "'t fst_ops \<Rightarrow> ('v StringRecord \<Rightarrow> bool) \<Rightarrow> (('v StringRecord Wrapped \<times> nat) list \<Rightarrow> nat) \<Rightarrow>
     ('v, 't) FSTrie option list \<Rightarrow> ('v, 't) FSTrie res" where
  "fst_of_shards T lit pick shards =
     (case build_cursor_vec ft_data ft_reccnt ft_get_tombstone_count shards of (cursors, _, _) \<Rightarrow>
      bindE (push_all 0 id cursors []) (\<lambda>q.
      bindE (merge_loop_by StringRecord_eq id pick (trie_merge_emit lit fst_emit) cursors q ([], [])) (\<lambda>s.
      Inr (fst_finish T s))))"

definition fst_point_lookup :: "'t fst_ops \<Rightarrow> ('v, 't) FSTrie \<Rightarrow> 'v StringRecord \<Rightarrow> 'v StringRecord Wrapped option res" where
  "fst_point_lookup T s r =
     (case m_fst s of
        None \<Rightarrow> Inl UninitRead
      | Some t \<Rightarrow> (case fst_search T t (skey r) of
            None \<Rightarrow> Inr None
          | Some idx \<Rightarrow> bindE (vec_get (ft_data s) idx) (\<lambda>w. Inr (Some w))))"

definition ft_get_record_at :: "('v, 't) FSTrie \<Rightarrow> nat \<Rightarrow> 'v StringRecord Wrapped option" where
  "ft_get_record_at s idx = (if idx \<ge> ft_reccnt s then None else Some (ft_data s ! idx))"

definition ft_get_lower_bound :: "('v, 't) FSTrie \<Rightarrow> 'v StringRecord \<Rightarrow> nat" where
  "ft_get_lower_bound s r = 0"

definition ft_get_upper_bound :: "('v, 't) FSTrie \<Rightarrow> 'v StringRecord \<Rightarrow> nat" where
  "ft_get_upper_bound s r = 0"

section \<open>The Patricia shard\<close>

text \<open>The trie is filled key by key; a search yields a number, \<open>-1\<close> when there is none.\<close>

record 't louds_ops =
  lp_new :: 't
  lp_add :: "string \<Rightarrow> 't \<Rightarrow> 't"
  lp_build :: "'t \<Rightarrow> 't"
  lp_lookup :: "'t \<Rightarrow> string \<Rightarrow> int"

record ('v, 't) LoudsPatricia =
  lt_data :: "'v StringRecord Wrapped list"
  m_louds :: 't

definition lt_reccnt :: "('v, 't) LoudsPatricia \<Rightarrow> nat" where
  "lt_reccnt s = length (lt_data s)"

definition lt_get_tombstone_count :: "('v, 't) LoudsPatricia \<Rightarrow> nat" where
  "lt_get_tombstone_count s = 0"

fun louds_emit :: "'t louds_ops \<Rightarrow> 'v StringRecord Wrapped \<Rightarrow> 'v StringRecord Wrapped list \<times> 't \<Rightarrow> 'v StringRecord Wrapped list \<times> 't" where
  "louds_emit T w (ws, t) = (ws @ [w], lp_add T (skey (rec w)) t)"

fun louds_finish :: "'t louds_ops \<Rightarrow> 'v StringRecord Wrapped list \<times> 't \<Rightarrow> ('v, 't) LoudsPatricia" where
  "louds_finish T (ws, t) = \<lparr>lt_data = ws, m_louds = (if length ws > 0 then lp_build T t else t)\<rparr>"

definition louds_of_view ::
    "'t louds_ops \<Rightarrow> ('v StringRecord \<Rightarrow> bool) \<Rightarrow> ('v StringRecord Wrapped list \<Rightarrow> 'v StringRecord Wrapped list) \<Rightarrow>
     ('v StringRecord, 'f) BufferView \<Rightarrow> ('v, 't) LoudsPatricia res" where
  "louds_of_view T lit srt buffer =
     bindE (mapE (view_get buffer) [0..<view_record_count buffer]) (\<lambda>temp.
     Inr (louds_finish T (trie_view_loop lit (louds_emit T) (srt temp) ([], lp_new T))))"

definition louds_of_shards ::
    "'t louds_ops \<Rightarrow> ('v StringRecord \<Rightarrow> bool) \<Rightarrow> (('v StringRecord Wrapped \<times> nat) list \<Rightarrow> nat) \<Rightarrow>
     ('v, 't) LoudsPatricia option list \<Rightarrow> ('v, 't) LoudsPatricia res" where
  "louds_of_shards T lit pick shards =
     (case build_cursor_vec lt_data lt_reccnt lt_get_tombstone_count shards of (cursors, _, _) \<Rightarrow>
      bindE (push_all 0 id cursors []) (\<lambda>q.
      bindE (merge_loop_by StringRecord_eq id pick (trie_merge_emit lit (louds_emit T)) cursors q ([], lp_new T)) (\<lambda>s.
      Inr (louds_finish T s))))"

definition louds_point_lookup :: "'t louds_ops \<Rightarrow> ('v, 't) LoudsPatricia \<Rightarrow> 'v StringRecord \<Rightarrow> 'v StringRecord Wrapped option res" where
  "louds_point_lookup T s r =
     (let idx = lp_lookup T (m_louds s) (skey r) in
      if idx = -1 then Inr None
      else if idx < 0 then Inl OutOfBounds
      else bindE (vec_get (lt_data s) (nat idx)) (\<lambda>w. Inr (Some w)))"

definition lt_get_record_at :: "('v, 't) LoudsPatricia \<Rightarrow> nat \<Rightarrow> 'v StringRecord Wrapped option" where
  "lt_get_record_at s idx = (if idx \<ge> lt_reccnt s then None else Some (lt_data s ! idx))"

definition lt_get_lower_bound :: "('v, 't) LoudsPatricia \<Rightarrow> 'v StringRecord \<Rightarrow> nat" where
  "lt_get_lower_bound s r = 0"

definition lt_get_upper_bound :: "('v, 't) LoudsPatricia \<Rightarrow> 'v StringRecord \<Rightarrow> nat" where
  "lt_get_upper_bound s r = 0"

section \<open>What the loops collect\<close>

definition trie_live :: "('v StringRecord \<Rightarrow> bool) \<Rightarrow> 'v StringRecord Wrapped \<Rightarrow> bool" where
  "trie_live lit w \<longleftrightarrow> \<not> is_deleted w \<and> is_visible w \<and> \<not> lit (rec w)"

lemma trie_view_loop_fold:
  "trie_view_loop lit emit ws s = fold emit (map clear_timestamp (filter (trie_live lit) ws)) s"
  by (induction ws arbitrary: s) (simp_all add: trie_live_def)

lemma fold_fst_emit: "fold fst_emit ws (us, keys) = (us @ ws, keys @ map (\<lambda>w. skey (rec w)) ws)"
  by (induction ws arbitrary: us keys) simp_all

lemma fold_louds_emit: "fold (louds_emit T) ws (us, t) = (us @ ws, fold (\<lambda>w. lp_add T (skey (rec w))) ws t)"
  by (induction ws arbitrary: us t) simp_all

lemma fold_trie_merge_emit:
  "fold (trie_merge_emit lit emit) ws s = fold emit (filter (\<lambda>w. \<not> is_deleted w \<and> \<not> lit (rec w)) ws) s"
  by (induction ws arbitrary: s) (simp_all add: trie_merge_emit_def)

text \<open>The sorted copy of a view, and what is left of it.\<close>

lemma trie_copy_ok:
  assumes "view_wf v"
  shows "mapE (view_get v) [0..<view_record_count v] = Inr (view_list v)"
proof -
  have "mapE (view_get v) [0..<view_record_count v] = Inr (map ((!) (view_list v)) [0..<view_record_count v])"
    by (rule mapE_Inr) (simp add: view_get_wf [OF assms])
  then show ?thesis using map_nth [of "view_list v"] length_view_list [OF assms] by simp
qed

lemma trie_sorted_ok:
  assumes "sort_ok (Wrapped_less_by StringRecord_less StringRecord_eq) (\<lambda>w. StringRecord_wf (rec w)) srt"
    and "\<forall>w\<in>set ws. StringRecord_wf (rec w)"
  shows "mset (map clear_timestamp (filter (trie_live lit) (srt ws))) = mset (map clear_timestamp (filter (trie_live lit) ws))"
    and "sorted_by skey (map clear_timestamp (filter (trie_live lit) (srt ws)))"
proof -
  note s = sort_sorted_by [OF StringRecord_ordered assms]
  show "mset (map clear_timestamp (filter (trie_live lit) (srt ws))) = mset (map clear_timestamp (filter (trie_live lit) ws))"
    using s(1) by simp
  show "sorted_by skey (map clear_timestamp (filter (trie_live lit) (srt ws)))"
    using s(2) by (simp add: sorted_wrt_map sorted_wrt_filter)
qed

section \<open>Lookups in the FST shard\<close>

text \<open>A trie over strictly increasing keys finds the position of each of them and nothing else.\<close>

definition fst_ok :: "'t fst_ops \<Rightarrow> bool" where
  "fst_ok T \<longleftrightarrow> (\<forall>keys. keys \<noteq> [] \<longrightarrow> sorted_wrt (<) keys \<longrightarrow>
     (\<forall>i<length keys. fst_search T (fst_build T keys) (keys ! i) = Some i) \<and>
     (\<forall>k. k \<notin> set keys \<longrightarrow> fst_search T (fst_build T keys) k = None))"

lemma fst_lookup_ok:
  assumes "fst_ok T" and "ws \<noteq> []" and "sorted_by skey ws" and "distinct (map (\<lambda>w. skey (rec w)) ws)"
  shows "fst_point_lookup T (fst_finish T (ws, map (\<lambda>w. skey (rec w)) ws)) r = Inr (List.find (\<lambda>w. skey (rec w) = skey r) ws)"
proof -
  let ?keys = "map (\<lambda>w. skey (rec w)) ws"
  have "sorted ?keys" using assms(3) by (simp add: sorted_wrt_map)
  then have srt: "sorted_wrt (<) ?keys" using assms(4) by (simp add: strict_sorted_iff)
  have ok: "\<And>i. i < length ws \<Longrightarrow> fst_search T (fst_build T ?keys) (?keys ! i) = Some i"
    "\<And>k. k \<notin> set ?keys \<Longrightarrow> fst_search T (fst_build T ?keys) k = None"
    using assms(1,2) srt unfolding fst_ok_def by (metis length_map map_is_Nil_conv)+
  show ?thesis
  proof (cases "skey r \<in> set ?keys")
    case True
    then obtain i where i: "i < length ws" "skey (rec (ws ! i)) = skey r" by (auto simp: in_set_conv_nth)
    have "skey (rec (ws ! j)) \<noteq> skey r" if "j < i" for j
      using assms(4) that i nth_eq_iff_index_eq [OF assms(4), of j i] by simp
    then have "List.find (\<lambda>w. skey (rec w) = skey r) ws = Some (ws ! i)" unfolding find_Some_iff using i by blast
    then show ?thesis using ok(1) [OF i(1)] i assms(2) by (simp add: fst_point_lookup_def vec_get_def)
  next
    case False
    then have "List.find (\<lambda>w. skey (rec w) = skey r) ws = None" by (force simp: find_None_iff)
    then show ?thesis using ok(2) [OF False] assms(2) by (simp add: fst_point_lookup_def)
  qed
qed

text \<open>
  C31. From a view whose visible, undeleted records have distinct keys the shard holds exactly these
  records, tombstones among them as if they were records (none is counted), sorted by key, and a point
  lookup finds the one with the key asked for; without such a record the trie pointer is read before it is set.
\<close>

theorem fst_view_correct:
  fixes v :: "('v StringRecord, 'f) BufferView" and lit :: "'v StringRecord \<Rightarrow> bool"
  defines "live \<equiv> filter (trie_live lit) (view_list v)"
  assumes "view_wf v" and "\<forall>w\<in>set (view_list v). StringRecord_wf (rec w)" and "fst_ok T"
    and "sort_ok (Wrapped_less_by StringRecord_less StringRecord_eq) (\<lambda>w. StringRecord_wf (rec w)) srt"
    and "distinct (map (\<lambda>w. skey (rec w)) live)"
  shows "\<exists>s. fst_of_view T lit srt v = Inr s \<and> mset (ft_data s) = mset (map clear_timestamp live) \<and> sorted_by skey (ft_data s) \<and>
    ft_get_tombstone_count s = 0 \<and>
    (\<forall>r. fst_point_lookup T s r = (if live = [] then Inl UninitRead else Inr (List.find (\<lambda>w. skey (rec w) = skey r) (ft_data s))))"
proof -
  define ws where "ws = map clear_timestamp (filter (trie_live lit) (srt (view_list v)))"
  note w = trie_sorted_ok [OF assms(5,3), of lit, folded ws_def live_def]
  have s: "fst_of_view T lit srt v = Inr (fst_finish T (ws, map (\<lambda>w. skey (rec w)) ws))"
    by (simp add: fst_of_view_def trie_copy_ok [OF assms(2)] trie_view_loop_fold fold_fst_emit ws_def)
  have "mset (map (\<lambda>w. skey (rec w)) ws) = mset (map (\<lambda>w. skey (rec w)) live)"
    using arg_cong [OF w(1), of "image_mset (\<lambda>w. skey (rec w))"] by (simp add: image_mset.compositionality comp_def)
  then have d: "distinct (map (\<lambda>w. skey (rec w)) ws)" using assms(6) mset_eq_imp_distinct_iff by blast
  have e: "ws = [] \<longleftrightarrow> live = []" using w(1) by (metis map_is_Nil_conv mset_zero_iff)
  have "fst_point_lookup T (fst_finish T (ws, map (\<lambda>w. skey (rec w)) ws)) r =
      (if live = [] then Inl UninitRead else Inr (List.find (\<lambda>w. skey (rec w) = skey r) ws))" for r
    using fst_lookup_ok [OF assms(4) _ w(2) d, of r] e by (cases "live = []") (simp_all add: fst_point_lookup_def)
  with s w show ?thesis by (intro exI [of _ "fst_finish T (ws, map (\<lambda>w. skey (rec w)) ws)"]) (simp add: ft_get_tombstone_count_def)
qed

text \<open>The Patricia shard collects the same records and adds their keys in order.\<close>

theorem louds_view_data:
  assumes "view_wf v" and "\<forall>w\<in>set (view_list v). StringRecord_wf (rec w)"
    and "sort_ok (Wrapped_less_by StringRecord_less StringRecord_eq) (\<lambda>w. StringRecord_wf (rec w)) srt"
  shows "\<exists>s. louds_of_view T lit srt v = Inr s \<and> sorted_by skey (lt_data s) \<and>
    mset (lt_data s) = mset (map clear_timestamp (filter (trie_live lit) (view_list v))) \<and>
    m_louds s = (let t = fold (\<lambda>w. lp_add T (skey (rec w))) (lt_data s) (lp_new T) in if lt_data s = [] then t else lp_build T t)"
proof -
  define ws where "ws = map clear_timestamp (filter (trie_live lit) (srt (view_list v)))"
  note w = trie_sorted_ok [OF assms(3,2), of lit, folded ws_def]
  have "louds_of_view T lit srt v = Inr (louds_finish T (ws, fold (\<lambda>w. lp_add T (skey (rec w))) ws (lp_new T)))"
    by (simp add: louds_of_view_def trie_copy_ok [OF assms(1)] trie_view_loop_fold fold_louds_emit ws_def)
  then show ?thesis using w by (intro exI conjI) (assumption, simp_all add: Let_def)
qed

section \<open>Merging\<close>

text \<open>
  Merging shards that have records keeps, key by key, the net records: a record and a tombstone
  with the same key cancel, whatever their values. (No key is the literal of the program.)
\<close>

theorem fst_merge_correct:
  assumes "min_pick (\<lambda>e. wkey_by skey (fst e)) pick"
    and "\<forall>s\<in>set ss. sorted_by skey (ft_data s) \<and> ft_data s \<noteq> [] \<and> (\<forall>w\<in>set (ft_data s). StringRecord_wf (rec w))"
    and "policy_ok (concat (map ft_data ss))"
  shows "\<exists>s. fst_of_shards T (\<lambda>_. False) pick (map Some ss) = Inr s \<and>
    keyed_data_ok skey (concat (map ft_data ss)) (ft_data s) (length (filter is_tombstone (ft_data s)))"
proof -
  let ?cs = "map (\<lambda>s. array_cursor (ft_data s) (ft_reccnt s)) ss"
  have cs: "map rest ?cs = map ft_data ss" by (simp add: array_cursor_live ft_reccnt_def)
  have live: "\<forall>c\<in>set ?cs. cursor_live c" using assms(2) by (simp add: array_cursor_live ft_reccnt_def)
  have srt: "\<forall>c\<in>set ?cs. sorted_by skey (rest c)" using assms(2) by (simp add: array_cursor_live ft_reccnt_def)
  have oks: "\<forall>w\<in>set (concat (map rest ?cs)). StringRecord_wf (rec w)" unfolding cs using assms(2) by auto
  have pol: "policy_ok (concat (map rest ?cs))" unfolding cs by (rule assms(3))
  obtain n t where cv: "build_cursor_vec ft_data ft_reccnt ft_get_tombstone_count (map Some ss) = (?cs, n, t)"
    using build_cursor_vec_Some [of ft_data ft_reccnt ft_get_tombstone_count ss]
    by (cases "build_cursor_vec ft_data ft_reccnt ft_get_tombstone_count (map Some ss)") simp
  let ?emit = "trie_merge_emit (\<lambda>_. False) fst_emit :: 'a StringRecord Wrapped \<Rightarrow> _"
  from merge_loop_keyed [OF assms(1) StringRecord_ordered live srt oks pol, of ?emit "([], [])"] obtain q outs where
    o: "push_all 0 id ?cs [] = Inr q" "merge_loop_by StringRecord_eq id pick ?emit ?cs q ([], []) = Inr (fold ?emit outs ([], []))"
      "keyed_data_ok skey (concat (map ft_data ss)) (filter (\<lambda>w. \<not> is_deleted w) outs) (length (filter is_tombstone (filter (\<lambda>w. \<not> is_deleted w) outs)))"
    unfolding cs by (elim exE conjE)
  let ?ws = "filter (\<lambda>w. \<not> is_deleted w) outs"
  have "fold ?emit outs ([], []) = (?ws, map (\<lambda>w. skey (rec w)) ?ws)" by (simp add: fold_trie_merge_emit fold_fst_emit)
  then have "fst_of_shards T (\<lambda>_. False) pick (map Some ss) = Inr (fst_finish T (?ws, map (\<lambda>w. skey (rec w)) ?ws))"
    by (simp only: fst_of_shards_def cv prod.case o(1,2) bindE_simps)
  then show ?thesis using o(3) by (intro exI conjI) (assumption, simp)
qed

section \<open>Witnesses\<close>

text \<open>A trie that keeps the list of its keys.\<close>

definition list_fst :: "string list fst_ops" where
  "list_fst = \<lparr>fst_build = (\<lambda>keys. keys), fst_search = (\<lambda>keys k. if k \<in> set keys then Some (first_pos (\<lambda>x. x = k) keys) else None)\<rparr>"

lemma list_fst_ok: "fst_ok list_fst"
  unfolding fst_ok_def
proof (intro allI impI conjI)
  fix keys :: "string list" and i assume k: "sorted_wrt (<) keys" and i: "i < length keys"
  have "first_pos (\<lambda>x. x = keys ! i) keys = i"
  proof (rule first_posI)
    show "keys ! j \<noteq> keys ! i" if "j < i" for j
      using sorted_wrt_nth_less [OF k that i] by simp
  qed (use i in simp_all)
  then show "fst_search list_fst (fst_build list_fst keys) (keys ! i) = Some i" using i by (simp add: list_fst_def)
qed (simp add: list_fst_def)

definition demo_string_view :: "(nat StringRecord, unit) BufferView" where
  "demo_string_view = BufferView_new
     [\<lparr>header = 4, rec = \<lparr>skey = ''b'', svalue = 1, slen = 1\<rparr>\<rparr>, \<lparr>header = 12, rec = \<lparr>skey = ''a'', svalue = 2, slen = 1\<rparr>\<rparr>,
      \<lparr>header = 0, rec = \<lparr>skey = ''c'', svalue = 3, slen = 1\<rparr>\<rparr>] 3 0 2 0 None"

lemma demo_string_view_ok:
  "view_list demo_string_view =
     [\<lparr>header = 4, rec = \<lparr>skey = ''b'', svalue = 1, slen = 1\<rparr>\<rparr>, \<lparr>header = 12, rec = \<lparr>skey = ''a'', svalue = 2, slen = 1\<rparr>\<rparr>]"
  "view_wf demo_string_view" "\<forall>w\<in>set (view_list demo_string_view). StringRecord_wf (rec w)"
proof -
  show l: "view_list demo_string_view =
     [\<lparr>header = 4, rec = \<lparr>skey = ''b'', svalue = 1, slen = 1\<rparr>\<rparr>, \<lparr>header = 12, rec = \<lparr>skey = ''a'', svalue = 2, slen = 1\<rparr>\<rparr>]"
    by (simp add: demo_string_view_def view_list_def ring_list_def BufferView_new_def upt_rec)
  show "view_wf demo_string_view" by (simp add: demo_string_view_def view_wf_def BufferView_new_def)
  show "\<forall>w\<in>set (view_list demo_string_view). StringRecord_wf (rec w)"
    unfolding l by (simp add: StringRecord_wf_def c_string_def)
qed

theorem fst_view_correct_witness:
  "\<exists>s. fst_of_view list_fst (\<lambda>_. False) (sort_key (\<lambda>w. (skey (rec w), header w))) demo_string_view = Inr s \<and>
    (\<forall>r. fst_point_lookup list_fst s r = Inr (List.find (\<lambda>w. skey (rec w) = skey r) (ft_data s))) \<and>
    mset (ft_data s) = {#\<lparr>header = 4, rec = \<lparr>skey = ''b'', svalue = 1, slen = 1\<rparr>\<rparr>, \<lparr>header = 4, rec = \<lparr>skey = ''a'', svalue = 2, slen = 1\<rparr>\<rparr>#}"
proof -
  let ?live = "filter (trie_live (\<lambda>_. False)) (view_list demo_string_view)"
  have l: "?live = view_list demo_string_view"
    unfolding demo_string_view_ok(1) by (simp add: trie_live_def is_deleted_def is_visible_def)
  have "distinct (map (\<lambda>w. skey (rec w)) ?live)" unfolding l unfolding demo_string_view_ok(1) by simp
  from fst_view_correct [OF demo_string_view_ok(2,3) list_fst_ok Wrapped_sort_ok [OF StringRecord_ordered] this]
  show ?thesis unfolding l unfolding demo_string_view_ok(1) by (auto simp: clear_timestamp_def add_mset_commute)
qed

end
