(* ===== verification/DE_Scheduler.thy ===== *)
theory DE_Scheduler
  imports DE_Epoch
begin

text \<open>
  Tasks, their statistics and the FIFO scheduler (\<^verbatim>\<open>include/framework/scheduling/Task.h\<close>,
  \<^verbatim>\<open>statistics.h\<close>, \<^verbatim>\<open>FIFOScheduler.h\<close>). The scheduler thread moves tasks, oldest first, from a queue to a thread
  pool as long as the pool reports an idle thread. The queue is third-party; its tasks are ordered by their
  timestamps and it pops a least one. The pool is third-party too: the model knows it by the
  calls the scheduler makes, and everything its threads do between these calls is an event of its own.
  (The FIFO scheduler declares its jobs with \<^verbatim>\<open>std::byte\<close> where tasks take \<^verbatim>\<open>std::byte *\<close>, so it does not compile as it is;
  the model reads both as the pointer.)
\<close>

section \<open>Statistics\<close>

record SchedulerStatistics =
  m_type_1_cnt :: nat
  m_type_1_total_time :: nat
  m_type_1_largest_time :: nat
  m_type_2_cnt :: nat
  m_type_2_total_time :: nat
  m_type_2_largest_time :: nat

definition no_statistics :: SchedulerStatistics where
  "no_statistics = \<lparr>m_type_1_cnt = 0, m_type_1_total_time = 0, m_type_1_largest_time = 0,
     m_type_2_cnt = 0, m_type_2_total_time = 0, m_type_2_largest_time = 0\<rparr>"

definition log_time_data :: "nat \<Rightarrow> nat \<Rightarrow> SchedulerStatistics \<Rightarrow> SchedulerStatistics res" where
  "log_time_data len ty s =
     assertE (ty = 1 \<or> ty = 2)
       (Inr (if ty = 1
         then s\<lparr>m_type_1_cnt := sz_add (m_type_1_cnt s) 1, m_type_1_total_time := sz_add (m_type_1_total_time s) len,
                m_type_1_largest_time := (if len > m_type_1_largest_time s then len else m_type_1_largest_time s)\<rparr>
         else s\<lparr>m_type_2_cnt := sz_add (m_type_2_cnt s) 1, m_type_2_total_time := sz_add (m_type_2_total_time s) len,
                m_type_2_largest_time := (if len > m_type_2_largest_time s then len else m_type_2_largest_time s)\<rparr>))"

text \<open>What is printed for a type of jobs: count, average and maximum, when there was one.\<close>

definition print_statistics :: "SchedulerStatistics \<Rightarrow> (nat \<times> nat \<times> nat) list" where
  "print_statistics s =
     (if m_type_1_cnt s > 0 then [(m_type_1_cnt s, m_type_1_total_time s div m_type_1_cnt s, m_type_1_largest_time s)] else []) @
     (if m_type_2_cnt s > 0 then [(m_type_2_cnt s, m_type_2_total_time s div m_type_2_cnt s, m_type_2_largest_time s)] else [])"

section \<open>Tasks\<close>

text \<open>A job gets its arguments and a buffer that may be null, and works on the state of the program.\<close>

record ('a, 'b, 'x) Task =
  t_job :: "'a \<Rightarrow> 'b option \<Rightarrow> 'x \<Rightarrow> 'x res"
  t_size :: nat
  t_timestamp :: nat
  t_args :: 'a
  t_type :: nat
  t_buff :: "'b option"

definition Task_less :: "('a, 'b, 'x) Task \<Rightarrow> ('a, 'b, 'x) Task \<Rightarrow> bool" where
  "Task_less self other \<longleftrightarrow> t_timestamp self < t_timestamp other"

definition Task_greater :: "('a, 'b, 'x) Task \<Rightarrow> ('a, 'b, 'x) Task \<Rightarrow> bool" where
  "Task_greater self other \<longleftrightarrow> t_timestamp self > t_timestamp other"

definition task_run ::
    "nat \<Rightarrow> ('a, 'b, 'x) Task \<Rightarrow> SchedulerStatistics option \<Rightarrow> 'x \<Rightarrow> (SchedulerStatistics option \<times> 'x) res" where
  "task_run time t stats x =
     bindE (t_job t (t_args t) (t_buff t) x) (\<lambda>x'.
     case stats of
       None \<Rightarrow> Inr (None, x')
     | Some s \<Rightarrow> bindE (log_time_data time (t_type t) s) (\<lambda>s'. Inr (Some s', x')))"

text \<open>
  \<^verbatim>\<open>SerialScheduler::schedule_job\<close> in full: the job runs inside the call. (For the index, where a job works on the
  state that contains the scheduler, \<open>DE_Epoch\<close> has the counter alone.)
\<close>

definition serial_schedule_job ::
    "nat \<Rightarrow> ('a \<Rightarrow> 'b option \<Rightarrow> 'x \<Rightarrow> 'x res) \<Rightarrow> nat \<Rightarrow> 'a \<Rightarrow> 'b option \<Rightarrow> nat \<Rightarrow>
     SerialScheduler \<times> SchedulerStatistics \<times> 'x \<Rightarrow> (SerialScheduler \<times> SchedulerStatistics option \<times> 'x) res" where
  "serial_schedule_job time job sz args buffer ty = (\<lambda>(s, stats, x).
     bindE (task_run time \<lparr>t_job = job, t_size = sz, t_timestamp = m_counter s, t_args = args, t_type = ty, t_buff = buffer\<rparr> (Some stats) x)
       (\<lambda>(stats', x'). Inr (next_job s, stats', x')))"

text \<open>A job runs exactly once; the type 0, the default of the parameter, ends in a failed assertion after the job.\<close>

theorem serial_job_runs:
  assumes "job args buffer x = Inr x'"
  shows "ty = 1 \<or> ty = 2 \<Longrightarrow> \<exists>stats'. serial_schedule_job time job sz args buffer ty (s, stats, x) = Inr (next_job s, Some stats', x')"
    and "serial_schedule_job time job sz args buffer 0 (s, stats, x) = Inl AssertFail"
  using assms by (auto simp: serial_schedule_job_def task_run_def log_time_data_def)

section \<open>The FIFO scheduler\<close>

text \<open>The calls to the pool: tasks handed over, the number of idle threads, the end.\<close>

record ('t, 'p) pool_ops =
  pool_new :: "nat \<Rightarrow> 'p"
  pool_push :: "'t \<Rightarrow> 'p \<Rightarrow> 'p"
  pool_n_idle :: "'p \<Rightarrow> nat"
  pool_stop :: "'p \<Rightarrow> 'p"

record ('t, 'p) FIFOScheduler =
  f_task_queue :: "'t list"
  f_memory_budget :: nat
  f_thrd_cnt :: nat
  f_counter :: nat
  f_thrd_pool :: 'p
  f_shutdown :: bool

definition DEFAULT_MAX_THREADS :: nat where
  "DEFAULT_MAX_THREADS = 8"

definition FIFOScheduler_new :: "('t, 'p) pool_ops \<Rightarrow> nat \<Rightarrow> nat \<Rightarrow> ('t, 'p) FIFOScheduler" where
  "FIFOScheduler_new P memory_budget thread_cnt =
     (let n = (if thread_cnt \<noteq> 0 then thread_cnt else DEFAULT_MAX_THREADS) in
      \<lparr>f_task_queue = [], f_memory_budget = (if memory_budget \<noteq> 0 then memory_budget else size_max - 1), f_thrd_cnt = n,
       f_counter = 0, f_thrd_pool = pool_new P n, f_shutdown = False\<rparr>)"

definition fifo_schedule_job ::
    "('a \<Rightarrow> 'b option \<Rightarrow> 'x \<Rightarrow> 'x res) \<Rightarrow> nat \<Rightarrow> 'a \<Rightarrow> 'b option \<Rightarrow> nat \<Rightarrow>
     (('a, 'b, 'x) Task, 'p) FIFOScheduler \<Rightarrow> (('a, 'b, 'x) Task, 'p) FIFOScheduler" where
  "fifo_schedule_job job sz args buffer ty s =
     s\<lparr>f_counter := sz_add (f_counter s) 1,
       f_task_queue := pq_push \<lparr>t_job = job, t_size = sz, t_timestamp = f_counter s, t_args = args, t_type = ty, t_buff = buffer\<rparr> (f_task_queue s)\<rparr>"

definition fifo_shutdown :: "('t, 'p) pool_ops \<Rightarrow> ('t, 'p) FIFOScheduler \<Rightarrow> ('t, 'p) FIFOScheduler" where
  "fifo_shutdown P s = s\<lparr>f_shutdown := True, f_thrd_pool := pool_stop P (f_thrd_pool s)\<rparr>"

definition schedule_next :: "('t, 'p) pool_ops \<Rightarrow> ('t list \<Rightarrow> nat) \<Rightarrow> ('t, 'p) FIFOScheduler \<Rightarrow> ('t, 'p) FIFOScheduler res" where
  "schedule_next P pick s =
     assertE (f_task_queue s \<noteq> [])
       (Inr (s\<lparr>f_task_queue := pq_pop pick (f_task_queue s), f_thrd_pool := pool_push P (pq_peek pick (f_task_queue s)) (f_thrd_pool s)\<rparr>))"

text \<open>The inner loop of \<^verbatim>\<open>run\<close>, and one pass of the outer one: whether the thread goes on, and the state.\<close>

function run_loop :: "('t, 'p) pool_ops \<Rightarrow> ('t list \<Rightarrow> nat) \<Rightarrow> ('t, 'p) FIFOScheduler \<Rightarrow> ('t, 'p) FIFOScheduler res" where
  "run_loop P pick s =
     (if f_task_queue s \<noteq> [] \<and> pool_n_idle P (f_thrd_pool s) > 0
      then case schedule_next P pick s of Inl e \<Rightarrow> Inl e | Inr s' \<Rightarrow> run_loop P pick s'
      else Inr s)"
  by pat_completeness auto
termination
  by (relation "measure (\<lambda>(P, pick, s). length (f_task_queue s))") (auto simp: schedule_next_def)

declare run_loop.simps [simp del]

definition run_pass :: "('t, 'p) pool_ops \<Rightarrow> ('t list \<Rightarrow> nat) \<Rightarrow> ('t, 'p) FIFOScheduler \<Rightarrow> (bool \<times> ('t, 'p) FIFOScheduler) res" where
  "run_pass P pick s = bindE (run_loop P pick s) (\<lambda>s'. Inr (\<not> f_shutdown s', s'))"

section \<open>Events\<close>

text \<open>
  A call of \<^verbatim>\<open>schedule_job\<close>, a wake-up of the scheduler thread (by a notification or by the periodic one), a change
  of the pool by its own threads, and \<^verbatim>\<open>shutdown\<close>. The thread is there until a pass sees the shutdown.
\<close>

datatype ('a, 'b, 'x, 'p) fifo_event =
    Submit "'a \<Rightarrow> 'b option \<Rightarrow> 'x \<Rightarrow> 'x res" nat 'a "'b option" nat
  | Wake
  | PoolWorks 'p
  | Shutdown

fun fifo_step ::
    "(('a, 'b, 'x) Task, 'p) pool_ops \<Rightarrow> (('a, 'b, 'x) Task list \<Rightarrow> nat) \<Rightarrow> ('a, 'b, 'x, 'p) fifo_event \<Rightarrow>
     bool \<times> (('a, 'b, 'x) Task, 'p) FIFOScheduler \<Rightarrow> (bool \<times> (('a, 'b, 'x) Task, 'p) FIFOScheduler) res" where
  "fifo_step P pick (Submit job sz args buffer ty) (live, s) = Inr (live, fifo_schedule_job job sz args buffer ty s)"
| "fifo_step P pick Wake (live, s) = (if live then run_pass P pick s else Inr (False, s))"
| "fifo_step P pick (PoolWorks p) (live, s) = Inr (live, s\<lparr>f_thrd_pool := p\<rparr>)"
| "fifo_step P pick Shutdown (live, s) = Inr (live, fifo_shutdown P s)"

fun fifo_run ::
    "(('a, 'b, 'x) Task, 'p) pool_ops \<Rightarrow> (('a, 'b, 'x) Task list \<Rightarrow> nat) \<Rightarrow> ('a, 'b, 'x, 'p) fifo_event list \<Rightarrow>
     bool \<times> (('a, 'b, 'x) Task, 'p) FIFOScheduler \<Rightarrow> (bool \<times> (('a, 'b, 'x) Task, 'p) FIFOScheduler) res" where
  "fifo_run P pick [] ls = Inr ls"
| "fifo_run P pick (e # es) ls = bindE (fifo_step P pick e ls) (fifo_run P pick es)"

text \<open>The tasks of the calls so far, numbered from \<open>n\<close> on.\<close>

fun submitted :: "nat \<Rightarrow> ('a, 'b, 'x, 'p) fifo_event list \<Rightarrow> ('a, 'b, 'x) Task list" where
  "submitted n [] = []"
| "submitted n (Submit job sz args buffer ty # es) =
     \<lparr>t_job = job, t_size = sz, t_timestamp = n, t_args = args, t_type = ty, t_buff = buffer\<rparr> # submitted (Suc n) es"
| "submitted n (_ # es) = submitted n es"

section \<open>Jobs are handed over in order\<close>

text \<open>
  The pool keeps what was handed to it: \<open>given p\<close> are the tasks pushed so far, whatever its threads have made of
  them.
\<close>

definition pool_ok :: "(('t, 'p) pool_ops) \<Rightarrow> ('p \<Rightarrow> 't list) \<Rightarrow> bool" where
  "pool_ok P given \<longleftrightarrow> (\<forall>n. given (pool_new P n) = []) \<and> (\<forall>t p. given (pool_push P t p) = given p @ [t]) \<and>
     (\<forall>p. given (pool_stop P p) = given p)"

fun pool_keeps :: "('p \<Rightarrow> ('a, 'b, 'x) Task list) \<Rightarrow> (('a, 'b, 'x) Task, 'p) pool_ops \<Rightarrow> (('a, 'b, 'x) Task list \<Rightarrow> nat) \<Rightarrow>
    ('a, 'b, 'x, 'p) fifo_event list \<Rightarrow> bool \<times> (('a, 'b, 'x) Task, 'p) FIFOScheduler \<Rightarrow> bool" where
  "pool_keeps given P pick [] ls = True"
| "pool_keeps given P pick (e # es) ls \<longleftrightarrow>
     (case e of PoolWorks p \<Rightarrow> given p = given (f_thrd_pool (snd ls)) | _ \<Rightarrow> True) \<and>
     (case fifo_step P pick e ls of Inl _ \<Rightarrow> True | Inr ls' \<Rightarrow> pool_keeps given P pick es ls')"

definition fifo_inv :: "('p \<Rightarrow> ('a, 'b, 'x) Task list) \<Rightarrow> ('a, 'b, 'x) Task list \<Rightarrow> (('a, 'b, 'x) Task, 'p) FIFOScheduler \<Rightarrow> bool" where
  "fifo_inv given ts s \<longleftrightarrow> map t_timestamp ts = [0..<length ts] \<and> f_counter s = length ts \<and> length ts < size_max \<and>
     (\<exists>k\<le>length ts. given (f_thrd_pool s) = take k ts \<and> mset (f_task_queue s) = mset (drop k ts))"

lemma fifo_inv_next:
  assumes inv: "fifo_inv given ts s" and "pool_ok P given" and pick: "min_pick t_timestamp pick" and ne: "f_task_queue s \<noteq> []"
  shows "\<exists>s'. schedule_next P pick s = Inr s' \<and> fifo_inv given ts s' \<and> f_shutdown s' = f_shutdown s"
proof -
  obtain k where k: "k \<le> length ts" "given (f_thrd_pool s) = take k ts" "mset (f_task_queue s) = mset (drop k ts)"
    and num: "map t_timestamp ts = [0..<length ts]" using inv unfolding fifo_inv_def by blast
  have lt: "k < length ts" using k ne by (cases "k = length ts") auto
  have d: "drop k ts = ts ! k # drop (Suc k) ts" using lt by (rule Cons_nth_drop_Suc [symmetric])
  have stamp: "t_timestamp (ts ! i) = i" if "i < length ts" for i using num that by (metis length_map nth_map nth_upt add_0)
  define t where "t = pq_peek pick (f_task_queue s)"
  have tin: "t \<in> set (drop k ts)"
    using pq_peek_in [OF ne, of pick] arg_cong [OF k(3), of set_mset] unfolding t_def by simp
  have "ts ! k \<in># mset (f_task_queue s)" unfolding k(3) d by simp
  then have "t_timestamp t \<le> t_timestamp (ts ! k)" unfolding t_def by (intro min_pick.peek_min_mset [OF pick])
  moreover obtain i where i: "k \<le> i" "i < length ts" "t = ts ! i"
    using tin by (auto simp: in_set_conv_nth) (metis add.commute le_add2 less_diff_conv)
  ultimately have t: "t = ts ! k" using stamp lt by simp
  have "mset (pq_pop pick (f_task_queue s)) = mset (drop (Suc k) ts)"
    using mset_pq_pop [OF ne, of pick] k(3) t unfolding d t_def by simp
  moreover have "given (pool_push P t (f_thrd_pool s)) = take (Suc k) ts"
    using assms(2) k(2) t lt by (simp add: pool_ok_def take_Suc_conv_app_nth)
  ultimately show ?thesis
    using inv ne lt unfolding schedule_next_def fifo_inv_def by (auto simp flip: t_def intro!: exI [of _ "Suc k"])
qed

lemma run_loop_ok:
  assumes "fifo_inv given ts s" and "pool_ok P given" and "min_pick t_timestamp pick"
  shows "\<exists>s'. run_loop P pick s = Inr s' \<and> fifo_inv given ts s' \<and> f_shutdown s' = f_shutdown s \<and>
    (f_task_queue s' = [] \<or> pool_n_idle P (f_thrd_pool s') = 0)"
  using assms
proof (induction P pick s rule: run_loop.induct)
  case (1 P pick s)
  show ?case
  proof (cases "f_task_queue s \<noteq> [] \<and> pool_n_idle P (f_thrd_pool s) > 0")
    case True
    then obtain s' where s': "schedule_next P pick s = Inr s'" "fifo_inv given ts s'" "f_shutdown s' = f_shutdown s"
      using fifo_inv_next [OF "1.prems"] by blast
    from "1.IH" [OF True s'(1,2) "1.prems"(2,3)] True s' show ?thesis by (subst run_loop.simps) simp
  next
    case False
    then show ?thesis using "1.prems"(1) by (subst run_loop.simps) auto
  qed
qed

lemma fifo_step_ok:
  assumes "fifo_inv given ts s" and "pool_ok P given" and "min_pick t_timestamp pick"
    and "case e of PoolWorks p \<Rightarrow> given p = given (f_thrd_pool s) | _ \<Rightarrow> True"
    and "length (ts @ submitted (length ts) [e]) < size_max"
  shows "\<exists>live' s'. fifo_step P pick e (live, s) = Inr (live', s') \<and> fifo_inv given (ts @ submitted (length ts) [e]) s'"
proof (cases e)
  case (Submit job sz args buffer ty)
  obtain k where k: "k \<le> length ts" "given (f_thrd_pool s) = take k ts" "mset (f_task_queue s) = mset (drop k ts)"
    using assms(1) unfolding fifo_inv_def by blast
  then show ?thesis
    using assms(1,5) Submit unfolding fifo_inv_def
    by (auto simp: fifo_schedule_job_def mset_pq_push intro!: exI [of _ k])
next
  case Wake
  obtain s' where "run_loop P pick s = Inr s'" "fifo_inv given ts s'" using run_loop_ok [OF assms(1-3)] by blast
  then show ?thesis using Wake assms(1) by (cases live) (auto simp: run_pass_def)
next
  case (PoolWorks p)
  then show ?thesis using assms(1,4) by (simp add: fifo_inv_def)
next
  case Shutdown
  then show ?thesis using assms(1,2) by (simp add: fifo_inv_def fifo_shutdown_def pool_ok_def)
qed

lemma submitted_append: "submitted n (es @ fs) = submitted n es @ submitted (n + length (submitted n es)) fs"
  by (induction n es rule: submitted.induct) simp_all

lemma fifo_run_ok:
  assumes "fifo_inv given ts s" and "pool_ok P given" and "min_pick t_timestamp pick"
    and "pool_keeps given P pick es (live, s)" and "length (ts @ submitted (length ts) es) < size_max"
  shows "\<exists>live' s'. fifo_run P pick es (live, s) = Inr (live', s') \<and> fifo_inv given (ts @ submitted (length ts) es) s'"
  using assms
proof (induction es arbitrary: ts s live)
  case (Cons e es)
  have sub: "submitted (length ts) (e # es) = submitted (length ts) [e] @ submitted (length (ts @ submitted (length ts) [e])) es"
    using submitted_append [of "length ts" "[e]" es] by simp
  have keep: "case e of PoolWorks p \<Rightarrow> given p = given (f_thrd_pool s) | _ \<Rightarrow> True" 
    using Cons.prems(4) unfolding pool_keeps.simps snd_conv by (rule conjunct1)
  have "length (ts @ submitted (length ts) [e]) < size_max" using Cons.prems(5) sub by simp
  from fifo_step_ok [OF Cons.prems(1-3) keep this, of live] obtain live1 s1 where
    1: "fifo_step P pick e (live, s) = Inr (live1, s1)" "fifo_inv given (ts @ submitted (length ts) [e]) s1" by blast
  have "pool_keeps given P pick es (live1, s1)" using Cons.prems(4) 1(1) by simp
  from Cons.IH [OF 1(2) Cons.prems(2,3) this] Cons.prems(5) sub 1(1) show ?case by simp
qed simp

text \<open>
  C36. Jobs reach the thread pool in the order of the calls that scheduled them, each at most once, and none is
  lost: whatever the pool does and whenever the scheduler thread wakes, the tasks handed over are a first part of
  those scheduled and the queue holds the others. A pass that finds an idle thread each time it
  looks leaves the queue empty.
\<close>

theorem fifo_in_order:
  assumes "pool_ok P given" and "min_pick t_timestamp pick" and "length (submitted 0 es) < size_max"
    and "pool_keeps given P pick es (True, FIFOScheduler_new P mb tc)"
  shows "\<exists>live s k. fifo_run P pick es (True, FIFOScheduler_new P mb tc) = Inr (live, s) \<and> k \<le> length (submitted 0 es) \<and>
    given (f_thrd_pool s) = take k (submitted 0 es) \<and> mset (f_task_queue s) = mset (drop k (submitted 0 es)) \<and>
    (\<exists>s'. run_loop P pick s = Inr s' \<and> (f_task_queue s' = [] \<and> given (f_thrd_pool s') = submitted 0 es \<or> pool_n_idle P (f_thrd_pool s') = 0))"
proof -
  have inv: "fifo_inv given [] (FIFOScheduler_new P mb tc)"
    using assms(1) by (simp add: fifo_inv_def FIFOScheduler_new_def Let_def pool_ok_def size_max_def)
  obtain live s where s: "fifo_run P pick es (True, FIFOScheduler_new P mb tc) = Inr (live, s)" "fifo_inv given (submitted 0 es) s"
    using fifo_run_ok [OF inv assms(1,2,4)] assms(3) by auto
  obtain s' where s': "run_loop P pick s = Inr s'" "fifo_inv given (submitted 0 es) s'" "f_task_queue s' = [] \<or> pool_n_idle P (f_thrd_pool s') = 0"
    using run_loop_ok [OF s(2) assms(1,2)] by blast
  have "f_task_queue s' = [] \<Longrightarrow> given (f_thrd_pool s') = submitted 0 es" using s'(2) by (auto simp: fifo_inv_def)
  with s s' show ?thesis unfolding fifo_inv_def by blast
qed

text \<open>
  After a shutdown the thread makes one more pass and ends; what is in the queue then is never
  started, and whoever waits for its result waits for ever.
\<close>

theorem shutdown_drops_queue:
  assumes "f_shutdown s" and "pool_n_idle P (f_thrd_pool s) = 0"
  shows "fifo_run P pick (Wake # replicate n Wake) (True, s) = Inr (False, s)"
proof -
  have "fifo_run P pick (replicate n Wake) (False, s) = Inr (False, s)" by (induction n) simp_all
  then show ?thesis using assms by (simp add: run_pass_def run_loop.simps [of P pick s])
qed

section \<open>Witnesses\<close>

text \<open>A pool that records the tasks and counts its idle threads.\<close>

definition demo_pool :: "((unit, unit, nat) Task, (unit, unit, nat) Task list \<times> nat) pool_ops" where
  "demo_pool = \<lparr>pool_new = (\<lambda>n. ([], n)), pool_push = (\<lambda>t (ts, n). (ts @ [t], n - 1)), pool_n_idle = snd, pool_stop = (\<lambda>p. p)\<rparr>"

lemma demo_pool_ok: "pool_ok demo_pool fst"
  by (auto simp: pool_ok_def demo_pool_def)

definition demo_job :: "unit \<Rightarrow> unit option \<Rightarrow> nat \<Rightarrow> nat res" where
  "demo_job a b x = Inr (Suc x)"

theorem fifo_in_order_witness:
  "\<exists>live s k. fifo_run demo_pool (first_min t_timestamp)
      [Submit demo_job 0 () None 1, Submit demo_job 0 () None 2, Submit demo_job 0 () None 1, Wake]
      (True, FIFOScheduler_new demo_pool 0 2) = Inr (live, s) \<and> k \<le> 3 \<and> map t_timestamp (fst (f_thrd_pool s)) = take k [0, 1, 2]"
proof -
  let ?es = "[Submit demo_job 0 () None 1, Submit demo_job 0 () None 2, Submit demo_job 0 () None 1, Wake]
    :: (unit, unit, nat, (unit, unit, nat) Task list \<times> nat) fifo_event list"
  have keeps: "pool_keeps fst demo_pool (first_min t_timestamp) ?es (True, FIFOScheduler_new demo_pool 0 2)"
    by (simp split: sum.split)
  have "length (submitted 0 ?es) < size_max" by (simp add: size_max_def)
  note F = fifo_in_order [OF demo_pool_ok first_min.min_pick_axioms this keeps]
  have stamps: "map t_timestamp (submitted 0 ?es) = [0, 1, 2]" "length (submitted 0 ?es) = 3" by simp_all
  from F obtain live s k where r: "fifo_run demo_pool (first_min t_timestamp) ?es (True, FIFOScheduler_new demo_pool 0 2) = Inr (live, s)"
    "k \<le> length (submitted 0 ?es)" "fst (f_thrd_pool s) = take k (submitted 0 ?es)" by blast
  have "map t_timestamp (fst (f_thrd_pool s)) = take k [0, 1, 2]" unfolding r(3) take_map [symmetric] stamps ..
  then show ?thesis using r(1,2) unfolding stamps by blast
qed

end
