(* ===== verification/Spec2Isabelle.thy ===== *)
theory Spec2Isabelle
  imports DE_Types DE_Merge DE_Buffer DE_BufferConc DE_IsamDurable DE_PointLookup DE_RangeScan DE_RangeCount DE_TrieSpline DE_Knn DE_Irs DE_Wss DE_Trie DE_Scheduler
begin

text \<open>
  A verification development of the dynamic extension framework (\<^verbatim>\<open>src/include\<close>), a C++ library that
  turns a static, sorted data structure (a \<^emph>\<open>shard\<close>) into an index with inserts, deletes and queries.

  \<^bold>\<open>The program.\<close> Inserts and tombstones go to a mutable buffer, a ring array with a write-ahead log. When
  the buffer reaches its low watermark a reconstruction builds a shard from it and merges shards of
  the levels below, by one of the three layout policies leveling, tiering and the Bentley-Saxe
  method; the new version of the levels becomes the current epoch and is written to a checkpoint. A query takes
  a view of the buffer and the shards of one epoch, runs a local query on each, combines the results and
  may ask for another round. A deletion is a tombstone, which cancels its record when both meet in a merge,
  or, with tagging, a flag set on the record.

  \<^bold>\<open>How it is modelled.\<close> Every operation is a function over explicit state; what can fail returns
  \<^typ>\<open>cpp_error + 'a\<close> (\<open>DE_Prelude\<close>), the error naming why the program has no further defined behaviour. A pointer
  that may be null is an option, \<^verbatim>\<open>size_t\<close> a natural number with the wrap-around of
  additions and subtractions written out (\<open>sz_add\<close>, \<open>sz_sub\<close>), the header of a record and the weights are
  machine words. Code outside the repository is a parameter: the Bloom filter (\<open>bloom_ops\<close>), the JSON library
  (\<open>json_ops\<close>), the choice of a priority queue among equal entries (\<open>pick\<close>, locale \<open>min_pick\<close>), the order
  \<^verbatim>\<open>std::sort\<close> leaves equal elements in (\<open>sort_ok\<close>), generated file names, the PGM index, the trie spline, the tries
  over strings, the alias structure and the random numbers. What a theorem assumes of them is a named
  predicate, and a witness instantiates each with a concrete function.

  \<^bold>\<open>Theories and sources\<close> (paths below \<^verbatim>\<open>src/include\<close>).

    \<^item> \<open>DE_Prelude\<close>: outcomes, \<^verbatim>\<open>size_t\<close>, lists, sums, random numbers as an interface.
    \<^item> \<open>DE_Doubles\<close>: the alias structure as an interface, quotients of rounded doubles.
    \<^item> \<open>DE_Types\<close>: \<^verbatim>\<open>util/types.h\<close>, \<^verbatim>\<open>framework/util/Configuration.h\<close>: policies, shard identifiers, reconstruction
      tasks and vectors with their running total.
    \<^item> \<open>DE_Record\<close>: \<^verbatim>\<open>framework/interface/Record.h\<close>: all record types and the wrapper with its header bits; their
      comparisons are lawful orders; the net multiplicity of a record.
    \<^item> \<open>DE_Heap\<close>: priority queues with an open choice, and the heads of a k-way merge.
    \<^item> \<open>DE_View\<close>: \<^verbatim>\<open>framework/structure/BufferView.h\<close>.
    \<^item> \<open>DE_Merge\<close>, \<open>DE_KeyedMerge\<close>: \<^verbatim>\<open>util/Cursor.h\<close>, \<^verbatim>\<open>util/SortedMerge.h\<close>: the two loops that build sorted arrays, over any
      \<^verbatim>\<open>operator==\<close>, and what they keep, for records compared as a whole and by a key.
    \<^item> \<open>DE_Wal\<close>: \<^verbatim>\<open>framework/structure/WriteAheadLogger.h\<close>: the log as entries and torn bytes.
    \<^item> \<open>DE_Buffer\<close>: \<^verbatim>\<open>framework/structure/MutableBuffer.h\<close> as executed by one thread: refinement of an append-only
      list, the log mirrors the buffer, recovery.
    \<^item> \<open>DE_BufferConc\<close>: the same class under concurrent calls, as atomic accesses of a step relation, the log's
      mutex included: safety, mutual exclusion, progress of appends in every interleaving and under
      fairness, and the races of flushes with appends and views.
    \<^item> \<open>DE_Level\<close>, \<open>DE_Checkpoint\<close>, \<open>DE_Structure\<close>: \<^verbatim>\<open>framework/structure/InternalLevel.h\<close>, \<^verbatim>\<open>Checkpoint.h\<close>,
      \<^verbatim>\<open>ExtensionStructure.h\<close>, over an abstract shard type (\<open>shard_ops\<close>, \<^verbatim>\<open>framework/interface/Shard.h\<close>).
    \<^item> \<open>DE_Rebuild\<close>: flushing and merging keep the invariant of the structure and its net records (locales
      \<open>disk_shard\<close>, \<open>live_shard\<close>).
    \<^item> \<open>DE_Epoch\<close>, \<open>DE_Extension\<close>: \<^verbatim>\<open>framework/scheduling/Epoch.h\<close>, \<^verbatim>\<open>SerialScheduler.h\<close>,
      \<^verbatim>\<open>framework/DynamicExtension.h\<close>.
    \<^item> \<open>DE_Scheduler\<close>: \<^verbatim>\<open>framework/scheduling/Task.h\<close>, \<^verbatim>\<open>statistics.h\<close>, \<^verbatim>\<open>FIFOScheduler.h\<close>: the FIFO scheduler as a step
      relation over submissions, wake-ups, the pool and the shutdown.
    \<^item> \<open>DE_Index\<close>, \<open>DE_Durable\<close>: the index as a bag of records (locale \<open>index_shard\<close>) and across a restart
      (locale \<open>durable_index\<close>), for every shard type that keeps the contract.
    \<^item> \<open>DE_Query\<close>: \<^verbatim>\<open>framework/interface/Query.h\<close> and \<^verbatim>\<open>async_query\<close>: rounds of local queries over a pinned epoch.
    \<^item> \<open>DE_ExtIsam\<close>, \<open>DE_IsamMerge\<close>, \<open>DE_IsamTree\<close>, \<open>DE_IsamShard\<close>: \<^verbatim>\<open>shard/ExternalISAMTree.h\<close>: definitions, the external
      merge sort, the search tree over pages and its searches, the contract of the framework.
    \<^item> \<open>DE_IsamIndex\<close>, \<open>DE_IsamDurable\<close>: the index over external trees, and its restart.
    \<^item> \<open>DE_RangeScan\<close>: \<^verbatim>\<open>framework/structure/RangeScanIterator.h\<close>: an ordered scan of the whole index.
    \<^item> \<open>DE_PointLookup\<close>: \<^verbatim>\<open>query/pointlookup.h\<close>, run by the framework over external trees.
    \<^item> \<open>DE_SortedShard\<close>: the contract of an in-memory shard over a sorted array (locale \<open>sorted_shard\<close>).
    \<^item> \<open>DE_MemIsam\<close>, \<open>DE_LearnedSearch\<close>, \<open>DE_PGM\<close>, \<open>DE_TrieSpline\<close>: \<^verbatim>\<open>shard/ISAMTree.h\<close>, \<^verbatim>\<open>shard/PGM.h\<close>,
      \<^verbatim>\<open>shard/TrieSpline.h\<close>, each an interpretation of that contract.
    \<^item> \<open>DE_RangeQuery\<close>, \<open>DE_RangeCount\<close>: \<^verbatim>\<open>query/rangequery.h\<close>, \<^verbatim>\<open>query/rangecount.h\<close>.
    \<^item> \<open>DE_VPTree\<close>, \<open>DE_Distance\<close>, \<open>DE_VPSearch\<close>, \<open>DE_Knn\<close>: \<^verbatim>\<open>shard/VPTree.h\<close>, the distances of points, the pruned search,
      \<^verbatim>\<open>query/knn.h\<close>.
    \<^item> \<open>DE_Irs\<close>: \<^verbatim>\<open>query/irs.h\<close> (locale \<open>counted_shard\<close>).
    \<^item> \<open>DE_Alias\<close>, \<open>DE_Wss\<close>: \<^verbatim>\<open>shard/Alias.h\<close>, \<^verbatim>\<open>query/wss.h\<close>.
    \<^item> \<open>DE_Trie\<close>: \<^verbatim>\<open>shard/FSTrie.h\<close>, \<^verbatim>\<open>shard/LoudsPatricia.h\<close>.

  \<^bold>\<open>What is shown.\<close> The central quantity is the net multiplicity \<open>net\<close> of a record: how often it is stored less how
  often it is deleted. Sorting, merging, flushing and restarting keep it (\<open>net_after_cancel\<close>,
  \<open>reconstruction\<close> lemmas of \<open>DE_Rebuild\<close>, \<open>index_run_correct\<close>, \<open>restart_correct\<close>), so that the index refines a bag;
  inserts alone are exact. Every shard type is built with the invariant its searches need, and the searches are
  exact or misses are characterised. Every query type is either equal to a reference definition over the stored entries
  or its deviation is stated: lookups by key that miss flushed records, range queries that return deleted
  records, counts that ignore tombstones, samples that never end. The buffer is safe in every interleaving of appends, views and quiet flushes; its
  appends make boundedly many accesses, wait for nothing but the log's mutex, which its holder frees within two
  accesses, and all return under a fair scheduler (\<open>fair_appends_return\<close>). It loses a record or a reference in the
  interleavings that are given. What is only shown for some inputs (safe runs without empty shards in \<open>index_run_correct\<close>,
  cancelling pairs of distinct sources in \<open>range_query_exact\<close>, keys covered by every shard in \<open>point_query_correct\<close>) says so in
  the text before the theorem.

  \<^bold>\<open>Bounds and fuel.\<close> Loops are recursive functions with termination proofs. The descent in an index tree has as fuel
  the number of its nodes plus one; the tree invariants show that it is never used up, because child
  pages precede their parents. Reading a scan to its end has as fuel the number of entries left, which every
  step lowers. The loop over the rounds of a query is a partial function to an option, whose \<open>None\<close> is a query that
  never returns. The retry loop of an append is bounded over every interleaving (\<open>appends_return\<close>). The theorems on the
  buffer assume fewer than \<open>2 ^ 31\<close> appends, where the program truncates its tail to 32 bits
  (\<open>append_int32_overflow\<close>).

  \<^bold>\<open>Not modelled.\<close> The index is modelled with the serial scheduler: queries and reconstructions run one after the
  other. The FIFO scheduler, which runs jobs on a third-party thread pool, is modelled on its own up to the
  hand-over of jobs (it does not compile with the framework as it is), and the buffer under
  concurrent calls. Left out: sizes in bytes; the tuning constants of the filter
  (\<^verbatim>\<open>util/bf_config.h\<close>); functions that do not compile when instantiated (\<^verbatim>\<open>MutableBuffer::delete_record\<close>,
  \<^verbatim>\<open>enforce_delete_invariant\<close>) and the thread affinity; the rounding of distances, which
  are real numbers or elements of any ordered group; of the capacities of levels, exact powers of the scale factor; and
  of the acceptance test of weighted sampling (the rounding of normalised weights is a parameter with a relative
  error, \<open>rounding_ok\<close>); destructors that only free memory; benchmarks, tests
  and examples.
\<close>

end
